(* ===== verification/Prelude.thy ===== *)
theory Prelude
  imports Main "HOL-Library.Char_ord" "HOL-Library.List_Lexorder" "HOL-Library.Sublist"
begin

text \<open>
  Shared vocabulary of the development.

  A Rust \<open>str\<close> or \<open>[u8]\<close> is a list of bytes: HOL's \<open>string\<close>, whose characters are the
  256 bytes. \<open>len()\<close> is \<open>length\<close>, \<open>starts_with\<close> is \<open>prefix\<close>, and Rust's bytewise order
  on \<open>str\<close> is the lexicographic order of \<open>List_Lexorder\<close> over \<open>Char_ord\<close>. Where the source
  reads code points (\<open>chars()\<close>) the theory \<open>Utf8\<close> decodes them.

  \<open>Result<T, E>\<close> is \<open>'e + 'a\<close>, with \<open>Inl\<close> for \<open>Err\<close>; \<open>rbind\<close> is the \<open>?\<close> operator.
  The locale \<open>codec\<close> is the contract of every pair of routines that write a value and read
  it back; \<open>strict_codec\<close> adds that the reader accepts nothing but what the writer writes.
\<close>

named_theorems result_simps \<open>unfolding of the error plumbing\<close>

type_synonym byte = char
type_synonym bytes = string

abbreviation bval :: "char \<Rightarrow> nat" where
  "bval c \<equiv> of_char c"

subsection \<open>Results\<close>

fun rbind :: "'e + 'a \<Rightarrow> ('a \<Rightarrow> 'e + 'b) \<Rightarrow> 'e + 'b" where
  "rbind (Inl e) f = Inl e"
| "rbind (Inr x) f = f x"

fun ok_or :: "'a option \<Rightarrow> 'e \<Rightarrow> 'e + 'a" where
  "ok_or None e = Inl e"
| "ok_or (Some x) e = Inr x"

definition guard :: "bool \<Rightarrow> 'e \<Rightarrow> 'e + unit" where
  "guard b e = (if b then Inr () else Inl e)"

lemma rbind_Inr_iff [result_simps]:
  "rbind m f = Inr y \<longleftrightarrow> (\<exists>x. m = Inr x \<and> f x = Inr y)"
  by (cases m) auto

lemma rbind_Inl_iff [result_simps]:
  "rbind m f = Inl e \<longleftrightarrow> m = Inl e \<or> (\<exists>x. m = Inr x \<and> f x = Inl e)"
  by (cases m) auto

lemma ok_or_Inr_iff [result_simps]: "ok_or m e = Inr x \<longleftrightarrow> m = Some x"
  by (cases m) auto

lemma ok_or_Inl_iff [result_simps]: "ok_or m e = Inl e' \<longleftrightarrow> m = None \<and> e' = e"
  by (cases m) auto

lemma guard_Inr_iff [result_simps]: "guard b e = Inr u \<longleftrightarrow> b"
  by (simp add: guard_def)

lemma guard_Inl_iff [result_simps]: "guard b e = Inl e' \<longleftrightarrow> \<not> b \<and> e' = e"
  by (auto simp: guard_def)

lemma guard_simps [simp]: "guard True e = Inr ()" "guard False e = Inl e"
  by (simp_all add: guard_def)

subsection \<open>Association lists, first match\<close>

text \<open>\<open>iter().find(|(key, _)| key == name)\<close>, which the source uses on every member list.\<close>

lemma map_of_filter_other:
  "(\<And>v. (k, v) \<in> set xs \<Longrightarrow> P (k, v)) \<Longrightarrow> map_of (filter P xs) k = map_of xs k"
proof (induction xs)
  case Nil
  show ?case by simp
next
  case (Cons a xs)
  obtain k' v' where "a = (k', v')" by fastforce
  with Cons show ?case by (cases "k' = k") auto
qed

lemma map_of_SomeD2: "map_of xs k = Some v \<Longrightarrow> k \<in> set (map fst xs)"
  by (force dest: map_of_SomeD)

subsection \<open>ASCII classes\<close>

definition is_ascii_digit :: "char \<Rightarrow> bool" where
  "is_ascii_digit c \<longleftrightarrow> 0x30 \<le> bval c \<and> bval c \<le> 0x39"

definition is_ascii_lowercase :: "char \<Rightarrow> bool" where
  "is_ascii_lowercase c \<longleftrightarrow> 0x61 \<le> bval c \<and> bval c \<le> 0x7A"

definition is_ascii_uppercase :: "char \<Rightarrow> bool" where
  "is_ascii_uppercase c \<longleftrightarrow> 0x41 \<le> bval c \<and> bval c \<le> 0x5A"

definition is_ascii_alphanumeric :: "char \<Rightarrow> bool" where
  "is_ascii_alphanumeric c \<longleftrightarrow> is_ascii_digit c \<or> is_ascii_lowercase c \<or> is_ascii_uppercase c"

lemmas ascii_defs = is_ascii_digit_def is_ascii_lowercase_def is_ascii_uppercase_def
  is_ascii_alphanumeric_def

lemma bval_char_of [simp]: "n < 256 \<Longrightarrow> bval (char_of n) = n"
  by simp

lemma char_of_eq_iff_nat: "n < 256 \<Longrightarrow> char_of n = c \<longleftrightarrow> n = bval c"
  by auto

subsection \<open>Digits in a fixed base\<close>

lemma digit_div: "(d::nat) < k \<Longrightarrow> (x * k + d) div k = x"
  by simp

lemma digit_mod: "(d::nat) < k \<Longrightarrow> (x * k + d) mod k = d"
  by simp

lemmas digit_simps = digit_div digit_mod

lemma digits2E:
  obtains a d :: nat where "c = a * k + d" "0 < k \<Longrightarrow> d < k"
  by (metis div_mult_mod_eq mod_less_divisor)

subsection \<open>Separated output\<close>

text \<open>The loops that push a separator before every item but the first.\<close>

fun joined :: "string \<Rightarrow> string list \<Rightarrow> string" where
  "joined sep [] = []"
| "joined sep [x] = x"
| "joined sep (x # y # xs) = x @ sep @ joined sep (y # xs)"

lemma joined_Cons: "joined sep (x # xs) = x @ (if xs = [] then [] else sep @ joined sep xs)"
  by (cases xs) auto

lemma length_joined_ge: "x \<in> set xs \<Longrightarrow> length x \<le> length (joined sep xs)"
  by (induction xs) (auto simp: joined_Cons)

lemma length_joined_count: "[] \<notin> set xs \<Longrightarrow> length xs \<le> length (joined sep xs)"
proof (induction xs)
  case (Cons x xs)
  then have "Suc 0 \<le> length x" "length xs \<le> length (joined sep xs)"
    by (auto simp: Suc_le_eq)
  then show ?case by (auto simp: joined_Cons)
qed simp

lemma set_joined: "set (joined sep xs) \<subseteq> (\<Union>x \<in> set xs. set x) \<union> set sep"
  by (induction xs) (auto simp: joined_Cons)

subsection \<open>Split text\<close>

text \<open>\<open>str::split\<close> by a set of characters, and \<open>split_once\<close> by one.\<close>

fun split_on :: "(char \<Rightarrow> bool) \<Rightarrow> string \<Rightarrow> string list" where
  "split_on sep [] = [[]]"
| "split_on sep (c # cs) =
     (if sep c then [] # split_on sep cs
      else (case split_on sep cs of [] \<Rightarrow> [[c]] | part # parts \<Rightarrow> (c # part) # parts))"

fun split_once :: "char \<Rightarrow> string \<Rightarrow> (string \<times> string) option" where
  "split_once sep [] = None"
| "split_once sep (c # cs) =
     (if c = sep then Some ([], cs)
      else map_option (\<lambda>(before, after). (c # before, after)) (split_once sep cs))"

lemma split_on_none: "(\<And>c. c \<in> set s \<Longrightarrow> \<not> sep c) \<Longrightarrow> split_on sep s = [s]"
  by (induction s) auto

lemma split_on_append:
  "(\<And>c. c \<in> set s \<Longrightarrow> \<not> sep c) \<Longrightarrow> sep x \<Longrightarrow> split_on sep (s @ x # t) = s # split_on sep t"
  by (induction s) auto

lemma split_on_chars: "part \<in> set (split_on sep s) \<Longrightarrow> set part \<subseteq> set s"
proof (induction s arbitrary: part)
  case (Cons c s)
  show ?case
  proof (cases "split_on sep s")
    case Nil
    then show ?thesis using Cons by (auto split: if_splits)
  next
    case (Cons p ps)
    then have "\<And>q. q \<in> insert p (set ps) \<Longrightarrow> set q \<subseteq> set s" using Cons.IH by auto
    then show ?thesis using Cons.prems Cons by (auto split: if_splits) blast+
  qed
qed simp

lemma split_on_covers: "c \<in> set s \<Longrightarrow> \<not> sep c \<Longrightarrow> \<exists>part \<in> set (split_on sep s). c \<in> set part"
  by (induction s) (auto split: list.splits)

lemma split_once_Some_iff:
  "split_once sep s = Some (before, after) \<longleftrightarrow> s = before @ sep # after \<and> sep \<notin> set before"
proof (induction s arbitrary: before)
  case (Cons c s)
  show ?case
  proof (cases before)
    case (Cons b bs)
    with Cons.IH [of bs] show ?thesis by auto
  qed auto
qed simp

lemma split_once_None_iff: "split_once sep s = None \<longleftrightarrow> sep \<notin> set s"
  by (induction s) auto

subsection \<open>Writers and readers\<close>

locale codec =
  fixes valid :: "'a \<Rightarrow> bool"
    and enc :: "'a \<Rightarrow> 'b"
    and dec :: "'b \<Rightarrow> 'a option"
  assumes dec_enc: "valid x \<Longrightarrow> dec (enc x) = Some x"
begin

lemma enc_inj:
  assumes "valid x" "valid y" "enc x = enc y"
  shows "x = y"
proof -
  from dec_enc [OF assms(1)] dec_enc [OF assms(2)] have "Some x = Some y"
    unfolding assms(3) by (rule subst)
  then show ?thesis by (rule option.inject [THEN iffD1])
qed

lemma enc_inj_on: "inj_on enc {x. valid x}"
  by (rule inj_onI) (blast intro: enc_inj)

end

locale strict_codec = codec +
  assumes dec_strict: "dec y = Some x \<Longrightarrow> valid x \<and> enc x = y"
begin

lemma dec_Some_iff: "dec y = Some x \<longleftrightarrow> valid x \<and> enc x = y"
  using dec_enc dec_strict by blast

lemma dec_inj: "dec y = Some x \<Longrightarrow> dec z = Some x \<Longrightarrow> y = z"
  by (auto dest: dec_strict)

lemma dec_None_iff: "dec y = None \<longleftrightarrow> y \<notin> enc ` {x. valid x}"
proof (cases "dec y")
  case None
  then have "\<not> valid x \<or> enc x \<noteq> y" for x using dec_enc [of x] by auto
  with None show ?thesis by auto
next
  case (Some x)
  with dec_strict have "valid x \<and> enc x = y" by blast
  with Some show ?thesis by auto
qed

end

end
