(* ===== verification/Utf8.thy ===== *)
theory Utf8
  imports Prelude
begin

text \<open>
  Rust's \<open>char\<close> and \<open>str\<close>: Unicode scalar values and their UTF-8 and UTF-16 forms, as the
  standard library has them. \<open>utf8_next\<close> reads one character off the front of a byte
  sequence (it refuses overlong forms, encoded surrogates and anything above U+10FFFF), and
  \<open>chars\<close> is \<open>str::chars\<close>. \<open>valid_up_to\<close> is \<open>Utf8Error::valid_up_to\<close>.
  \<open>utf8_encode\<close> and \<open>utf8_next\<close> are inverse to each other on scalar values, which is what
  every routine that walks a string by characters rests on.
\<close>

definition is_scalar :: "nat \<Rightarrow> bool" where
  "is_scalar c \<longleftrightarrow> c < 0xD800 \<or> (0xDFFF < c \<and> c \<le> 0x10FFFF)"

definition utf8_units :: "nat \<Rightarrow> nat list" where
  "utf8_units c =
     (if c < 0x80 then [c]
      else if c < 0x800 then [0xC0 + c div 64, 0x80 + c mod 64]
      else if c < 0x10000 then [0xE0 + c div 4096, 0x80 + c div 64 mod 64, 0x80 + c mod 64]
      else [0xF0 + c div 262144, 0x80 + c div 4096 mod 64, 0x80 + c div 64 mod 64,
            0x80 + c mod 64])"

definition utf8_encode :: "nat \<Rightarrow> string" where
  "utf8_encode c = map char_of (utf8_units c)"

definition is_cont :: "nat \<Rightarrow> bool" where
  "is_cont n \<longleftrightarrow> 0x80 \<le> n \<and> n < 0xC0"

fun units_next :: "nat list \<Rightarrow> (nat \<times> nat) option" where
  "units_next [] = None"
| "units_next (n # ns) =
     (if n < 0x80 then Some (n, 1)
      else if 0xC2 \<le> n \<and> n < 0xE0 then
        (case ns of
           n1 # _ \<Rightarrow> if is_cont n1 then Some ((n - 0xC0) * 64 + (n1 - 0x80), 2) else None
         | [] \<Rightarrow> None)
      else if 0xE0 \<le> n \<and> n < 0xF0 then
        (case ns of
           n1 # n2 # _ \<Rightarrow>
             if is_cont n1 \<and> is_cont n2 \<and> (n = 0xE0 \<longrightarrow> 0xA0 \<le> n1) \<and> (n = 0xED \<longrightarrow> n1 < 0xA0)
             then Some ((n - 0xE0) * 4096 + (n1 - 0x80) * 64 + (n2 - 0x80), 3) else None
         | _ \<Rightarrow> None)
      else if 0xF0 \<le> n \<and> n < 0xF5 then
        (case ns of
           n1 # n2 # n3 # _ \<Rightarrow>
             if is_cont n1 \<and> is_cont n2 \<and> is_cont n3
                \<and> (n = 0xF0 \<longrightarrow> 0x90 \<le> n1) \<and> (n = 0xF4 \<longrightarrow> n1 < 0x90)
             then Some ((n - 0xF0) * 262144 + (n1 - 0x80) * 4096 + (n2 - 0x80) * 64 + (n3 - 0x80), 4)
             else None
         | _ \<Rightarrow> None)
      else None)"

definition utf8_next :: "string \<Rightarrow> (nat \<times> string) option" where
  "utf8_next s =
     (case units_next (map of_char (take 4 s)) of
        None \<Rightarrow> None
      | Some (c, k) \<Rightarrow> Some (c, drop k s))"

subsection \<open>One character\<close>

lemma units_next_units:
  assumes "is_scalar c"
  shows "units_next (utf8_units c @ ns) = Some (c, length (utf8_units c))"
proof -
  consider "c < 0x80" | "0x80 \<le> c" "c < 0x800" | "0x800 \<le> c" "c < 0x10000"
    | "0x10000 \<le> c" "c \<le> 0x10FFFF"
    using assms unfolding is_scalar_def by linarith
  then show ?thesis
  proof cases
    case 1
    then show ?thesis by (simp add: utf8_units_def)
  next
    case 2
    then have "2 \<le> c div 64" "c div 64 < 32" by linarith+
    with 2 show ?thesis by (simp add: utf8_units_def is_cont_def)
  next
    case 3
    obtain x d where c1: "c = x * 64 + d" "d < 64" by (rule digits2E [of c 64]) simp
    obtain a b where x1: "x = a * 64 + b" "b < 64" by (rule digits2E [of x 64]) simp
    have cx: "c div 64 = x" "c mod 64 = d" using c1 by (simp_all only: digit_simps)
    have xa: "x div 64 = a" "x mod 64 = b" using x1 by (simp_all only: digit_simps)
    note cut = cx xa div_mult2_eq [of c 64 64, simplified, unfolded cx xa]
    have lin: "c = a * 4096 + b * 64 + d" using c1 x1 by simp
    have "a < 16" using lin 3 by linarith
    moreover have "a = 0 \<Longrightarrow> 32 \<le> b" using lin 3 c1 by simp
    moreover have "a = 13 \<Longrightarrow> b < 32" using lin assms c1 x1 by (simp add: is_scalar_def)
    ultimately show ?thesis
      using 3 c1(2) x1(2) by (simp add: utf8_units_def is_cont_def cut lin [symmetric])
  next
    case 4
    obtain x e where c1: "c = x * 64 + e" "e < 64" by (rule digits2E [of c 64]) simp
    obtain y d where x1: "x = y * 64 + d" "d < 64" by (rule digits2E [of x 64]) simp
    obtain a b where y1: "y = a * 64 + b" "b < 64" by (rule digits2E [of y 64]) simp
    have cx: "c div 64 = x" "c mod 64 = e" using c1 by (simp_all only: digit_simps)
    have xa: "x div 64 = y" "x mod 64 = d" using x1 by (simp_all only: digit_simps)
    have yb: "y div 64 = a" "y mod 64 = b" using y1 by (simp_all only: digit_simps)
    have cy: "c div 4096 = y" by (simp only: div_mult2_eq [of c 64 64, simplified] cx xa)
    have "c div 262144 = a" by (simp only: div_mult2_eq [of c 4096 64, simplified] cy yb)
    note cut = cx xa yb cy this
    have lin: "c = a * 262144 + b * 4096 + d * 64 + e" using c1 x1 y1 by simp
    have "a < 5" using lin 4 by linarith
    moreover have "a = 0 \<Longrightarrow> 16 \<le> b" using lin 4 c1 x1 by simp
    moreover have "a = 4 \<Longrightarrow> b < 16" using lin 4 c1 x1 by simp
    ultimately show ?thesis
      using 4 c1(2) x1(2) y1(2) by (simp add: utf8_units_def is_cont_def cut lin [symmetric])
  qed
qed

lemma units_next_sound:
  assumes "units_next ns = Some (c, k)"
  shows "is_scalar c" "take k ns = utf8_units c" "k = length (utf8_units c)"
    "0 < k" "k \<le> length ns"
proof -
  obtain n r where ns: "ns = n # r" using assms by (cases ns) auto
  consider "n < 0x80" | "0xC2 \<le> n" "n < 0xE0" | "0xE0 \<le> n" "n < 0xF0" | "0xF0 \<le> n" "n < 0xF5"
    using assms unfolding ns by (auto split: if_splits)
  then have "is_scalar c \<and> take k ns = utf8_units c \<and> k = length (utf8_units c) \<and> 0 < k
      \<and> k \<le> length ns"
  proof cases
    case 1
    with assms ns show ?thesis by (auto simp: is_scalar_def utf8_units_def)
  next
    case 2
    with assms ns obtain n1 r' where r: "r = n1 # r'" "is_cont n1" "k = 2"
      and c: "c = (n - 0xC0) * 64 + (n1 - 0x80)"
      by (auto split: list.splits if_splits)
    define a m where "a = n1 - 0x80" and "m = n - 0xC0"
    have am: "a < 64" "n1 = a + 0x80" "2 \<le> m" "m < 32" "n = m + 0xC0"
      using r 2 by (auto simp: a_def m_def is_cont_def)
    have c': "c = m * 64 + a" using c by (simp add: a_def m_def)
    have "c div 64 = m" "c mod 64 = a" "0x80 \<le> c" "c < 0x800" using c' am by auto
    with am r ns show ?thesis by (auto simp: is_scalar_def utf8_units_def)
  next
    case 3
    with assms ns obtain n1 n2 r' where r: "r = n1 # n2 # r'" "is_cont n1" "is_cont n2" "k = 3"
      and lim: "n = 0xE0 \<longrightarrow> 0xA0 \<le> n1" "n = 0xED \<longrightarrow> n1 < 0xA0"
      and c: "c = (n - 0xE0) * 4096 + (n1 - 0x80) * 64 + (n2 - 0x80)"
      by (auto split: list.splits if_splits)
    define a b where "a = n1 - 0x80" and "b = n2 - 0x80"
    have ab: "a < 64" "b < 64" "n1 = a + 0x80" "n2 = b + 0x80"
      using r by (auto simp: a_def b_def is_cont_def)
    define m where "m = n - 0xE0"
    have m: "m < 16" "n = m + 0xE0" using 3 by (auto simp: m_def)
    have c': "c = m * 4096 + a * 64 + b" using c by (simp add: a_def b_def m_def)
    have lim': "m = 0 \<longrightarrow> 32 \<le> a" "m = 13 \<longrightarrow> a < 32" using lim ab m by auto
    have c2: "c = (m * 64 + a) * 64 + b" using c' by simp
    have "c div 4096 = m" "c div 64 mod 64 = a" "c mod 64 = b"
      using ab by (simp_all only: c2 div_mult2_eq [of _ 64 64, simplified] digit_simps)
    moreover have "0x800 \<le> c" "c < 0x10000" using c' ab m lim' by (cases "m = 0"; simp)+
    moreover have "is_scalar c" using c' ab m lim' unfolding is_scalar_def
      by (cases m "13 :: nat" rule: linorder_cases) (linarith, simp, linarith)
    ultimately show ?thesis using r ns ab m by (auto simp: utf8_units_def)
  next
    case 4
    with assms ns obtain n1 n2 n3 r' where
      r: "r = n1 # n2 # n3 # r'" "is_cont n1" "is_cont n2" "is_cont n3" "k = 4"
      and lim: "n = 0xF0 \<longrightarrow> 0x90 \<le> n1" "n = 0xF4 \<longrightarrow> n1 < 0x90"
      and c: "c = (n - 0xF0) * 262144 + (n1 - 0x80) * 4096 + (n2 - 0x80) * 64 + (n3 - 0x80)"
      by (auto split: list.splits if_splits)
    define a b d m where "a = n1 - 0x80" and "b = n2 - 0x80" and "d = n3 - 0x80"
      and "m = n - 0xF0"
    have ab: "a < 64" "b < 64" "d < 64" "n1 = a + 0x80" "n2 = b + 0x80" "n3 = d + 0x80"
      using r by (auto simp: a_def b_def d_def is_cont_def)
    have m: "m < 5" "n = m + 0xF0" using 4 by (auto simp: m_def)
    have c': "c = m * 262144 + a * 4096 + b * 64 + d"
      using c by (simp add: a_def b_def d_def m_def)
    have lim': "m = 0 \<longrightarrow> 16 \<le> a" "m = 4 \<longrightarrow> a < 16" using lim ab m by auto
    have c2: "c = ((m * 64 + a) * 64 + b) * 64 + d" using c' by simp
    have "c div 262144 = m" "c div 4096 mod 64 = a" "c div 64 mod 64 = b" "c mod 64 = d"
      using ab by (simp_all only: c2 div_mult2_eq [of _ 64 64, simplified]
        div_mult2_eq [of _ 4096 64, simplified] digit_simps)
    moreover have "0x10000 \<le> c" "c \<le> 0x10FFFF"
      using c' ab m lim' by (cases "m = 0"; cases "m = 4"; simp)+
    ultimately show ?thesis using r ns ab m by (auto simp: utf8_units_def is_scalar_def)
  qed
  then show "is_scalar c" "take k ns = utf8_units c" "k = length (utf8_units c)"
    "0 < k" "k \<le> length ns" by auto
qed

lemma length_utf8_units: "length (utf8_units c) \<le> 4" "0 < length (utf8_units c)"
  by (auto simp: utf8_units_def)

lemma utf8_units_byte: "is_scalar c \<Longrightarrow> n \<in> set (utf8_units c) \<Longrightarrow> n < 256"
  by (auto simp: is_scalar_def utf8_units_def split: if_splits)

lemma utf8_encode_nonempty [simp]: "utf8_encode c \<noteq> []"
  by (auto simp: utf8_encode_def utf8_units_def)

lemma utf8_encode_ascii: "c < 0x80 \<Longrightarrow> utf8_encode c = [char_of c]"
  by (simp add: utf8_encode_def utf8_units_def)

lemma of_char_utf8_encode:
  assumes "is_scalar c"
  shows "map of_char (utf8_encode c) = utf8_units c"
proof -
  have "map of_char (utf8_encode c) = map (\<lambda>n. n mod 256) (utf8_units c)"
    by (simp add: utf8_encode_def comp_def)
  also have "\<dots> = utf8_units c"
    using utf8_units_byte [OF assms] by (auto intro!: map_idI)
  finally show ?thesis .
qed

lemma utf8_next_encode [simp]:
  assumes "is_scalar c"
  shows "utf8_next (utf8_encode c @ s) = Some (c, s)"
proof -
  have len: "length (utf8_encode c) = length (utf8_units c)" by (simp add: utf8_encode_def)
  have "map of_char (take 4 (utf8_encode c @ s))
      = utf8_units c @ map of_char (take (4 - length (utf8_units c)) s)"
    using length_utf8_units [of c] by (simp add: len of_char_utf8_encode [OF assms])
  then show ?thesis
    by (simp add: utf8_next_def units_next_units [OF assms] len [symmetric])
qed

lemma utf8_next_sound:
  assumes "utf8_next s = Some (c, r)"
  shows "is_scalar c" "s = utf8_encode c @ r"
proof -
  from assms obtain k where k: "units_next (map of_char (take 4 s)) = Some (c, k)"
    and r: "r = drop k s"
    by (auto simp: utf8_next_def split: option.splits)
  note snd = units_next_sound [OF k]
  show "is_scalar c" by (rule snd)
  have k4: "k \<le> 4" and ks: "k \<le> length s" using snd(5) by auto
  have "utf8_encode c = map char_of (take k (map bval (take 4 s)))"
    by (simp only: snd(2) utf8_encode_def)
  also have "\<dots> = take k s" using k4 by (simp add: take_map comp_def min_absorb1)
  finally show "s = utf8_encode c @ r" using r by simp
qed

lemma utf8_next_Nil [simp]: "utf8_next [] = None"
  by (simp add: utf8_next_def)

lemma utf8_next_shorter: "utf8_next s = Some (c, r) \<Longrightarrow> length r < length s"
  using utf8_next_sound(2) [of s c r] by auto

lemma utf8_next_ascii: "bval b < 0x80 \<Longrightarrow> utf8_next (b # s) = Some (bval b, s)"
  by (simp add: utf8_next_def)

lemma utf8_encode_head: "is_scalar c \<Longrightarrow> 0x80 \<le> c \<Longrightarrow> \<exists>b r. utf8_encode c = b # r \<and> 0x80 \<le> bval b"
  by (auto simp: is_scalar_def utf8_encode_def utf8_units_def)

subsection \<open>Strings\<close>

function chars :: "string \<Rightarrow> nat list" where
  "chars s = (case utf8_next s of None \<Rightarrow> [] | Some (c, r) \<Rightarrow> c # chars r)"
  by pat_completeness auto
termination by (relation "measure length") (auto dest: utf8_next_shorter)

function valid_up_to :: "string \<Rightarrow> nat" where
  "valid_up_to s =
     (case utf8_next s of None \<Rightarrow> 0 | Some (c, r) \<Rightarrow> length (utf8_encode c) + valid_up_to r)"
  by pat_completeness auto
termination by (relation "measure length") (auto dest: utf8_next_shorter)

declare chars.simps [simp del] valid_up_to.simps [simp del]

definition utf8_valid :: "string \<Rightarrow> bool" where
  "utf8_valid s \<longleftrightarrow> valid_up_to s = length s"

definition of_chars :: "nat list \<Rightarrow> string" where
  "of_chars cs = concat (map utf8_encode cs)"

lemma of_chars_simps [simp]:
  "of_chars [] = []" "of_chars (c # cs) = utf8_encode c @ of_chars cs"
  "of_chars (cs @ ds) = of_chars cs @ of_chars ds"
  by (simp_all add: of_chars_def)

lemma chars_Nil [simp]: "chars [] = []" and valid_up_to_Nil [simp]: "valid_up_to [] = 0"
  by (simp_all add: chars.simps valid_up_to.simps)

lemma chars_encode [simp]: "is_scalar c \<Longrightarrow> chars (utf8_encode c @ s) = c # chars s"
  by (subst chars.simps) simp

lemma valid_up_to_encode [simp]:
  "is_scalar c \<Longrightarrow> valid_up_to (utf8_encode c @ s) = length (utf8_encode c) + valid_up_to s"
  by (subst valid_up_to.simps) simp

lemma valid_up_to_le: "valid_up_to s \<le> length s"
proof (induction s rule: valid_up_to.induct)
  case (1 s)
  then show ?case
    by (subst valid_up_to.simps) (fastforce split: option.splits dest: utf8_next_sound(2))
qed

lemma chars_scalar: "c \<in> set (chars s) \<Longrightarrow> is_scalar c"
proof (induction s rule: chars.induct)
  case (1 s)
  then show ?case
    by (cases "utf8_next s") (auto simp: chars.simps [of s] dest: utf8_next_sound(1))
qed

lemma of_chars_chars: "of_chars (chars s) = take (valid_up_to s) s"
proof (induction s rule: chars.induct)
  case (1 s)
  then show ?case
    by (cases "utf8_next s")
      (auto simp: chars.simps [of s] valid_up_to.simps [of s] dest!: utf8_next_sound(2))
qed

lemma chars_of_chars: "(\<And>c. c \<in> set cs \<Longrightarrow> is_scalar c) \<Longrightarrow> chars (of_chars cs) = cs"
  by (induction cs) auto

lemma utf8_valid_of_chars: "(\<And>c. c \<in> set cs \<Longrightarrow> is_scalar c) \<Longrightarrow> utf8_valid (of_chars cs)"
  unfolding utf8_valid_def by (induction cs) auto

lemma of_chars_chars_valid: "utf8_valid s \<Longrightarrow> of_chars (chars s) = s"
  by (simp add: of_chars_chars utf8_valid_def)

lemma utf8_valid_Nil [simp]: "utf8_valid []"
  by (simp add: utf8_valid_def)

lemma utf8_valid_next:
  "utf8_valid s \<Longrightarrow> s \<noteq> [] \<Longrightarrow> \<exists>c r. utf8_next s = Some (c, r) \<and> utf8_valid r"
  unfolding utf8_valid_def
  by (auto simp: valid_up_to.simps [of s] split: option.splits dest!: utf8_next_sound(2))

lemma utf8_valid_encode_append [simp]:
  "is_scalar c \<Longrightarrow> utf8_valid (utf8_encode c @ s) \<longleftrightarrow> utf8_valid s"
  by (simp add: utf8_valid_def)

interpretation utf8: codec "\<lambda>cs. \<forall>c \<in> set cs. is_scalar c" of_chars
  "\<lambda>s. if utf8_valid s then Some (chars s) else None"
  by unfold_locales (simp add: chars_of_chars utf8_valid_of_chars)

lemma chars_inj: "utf8_valid s \<Longrightarrow> utf8_valid t \<Longrightarrow> chars s = chars t \<Longrightarrow> s = t"
  by (metis of_chars_chars_valid)

lemma utf8_valid_ascii: "(\<And>b. b \<in> set s \<Longrightarrow> bval b < 0x80) \<Longrightarrow> utf8_valid s"
proof (induction s)
  case Nil
  show ?case by simp
next
  case (Cons b s)
  then have "utf8_next (b # s) = Some (bval b, s)" by (simp add: utf8_next_ascii)
  with Cons show ?case by (simp add: utf8_valid_def valid_up_to.simps [of "b # s"] utf8_encode_ascii)
qed

subsection \<open>UTF-16\<close>

definition utf16_units :: "nat \<Rightarrow> nat list" where
  "utf16_units c =
     (if c < 0x10000 then [c]
      else [0xD800 + (c - 0x10000) div 1024, 0xDC00 + (c - 0x10000) mod 1024])"

definition encode_utf16 :: "string \<Rightarrow> nat list" where
  "encode_utf16 s = concat (map utf16_units (chars s))"

lemma utf16_concat_inj:
  "(\<And>c. c \<in> set cs \<Longrightarrow> is_scalar c) \<Longrightarrow> (\<And>c. c \<in> set ds \<Longrightarrow> is_scalar c) \<Longrightarrow>
   concat (map utf16_units cs) = concat (map utf16_units ds) \<Longrightarrow> cs = ds"
proof (induction cs arbitrary: ds)
  case Nil
  then show ?case by (cases ds) (auto simp: utf16_units_def split: if_splits)
next
  case (Cons c cs)
  obtain d ds' where ds: "ds = d # ds'"
    using Cons.prems(3) by (cases ds) (auto simp: utf16_units_def split: if_splits)
  have sc: "is_scalar c" "is_scalar d" using Cons.prems ds by auto
  have eq: "utf16_units c @ concat (map utf16_units cs) = utf16_units d @ concat (map utf16_units ds')"
    using Cons.prems(3) ds by simp
  have cd: "c = d"
  proof (cases "c < 0x10000"; cases "d < 0x10000")
    assume "\<not> c < 0x10000" "\<not> d < 0x10000"
    then have "(c - 0x10000) div 1024 = (d - 0x10000) div 1024"
      "(c - 0x10000) mod 1024 = (d - 0x10000) mod 1024"
      using eq by (auto simp: utf16_units_def)
    then have "c - 0x10000 = d - 0x10000" by (metis div_mult_mod_eq)
    then show "c = d" using \<open>\<not> c < 0x10000\<close> \<open>\<not> d < 0x10000\<close> by linarith
  next
    assume "c < 0x10000" "\<not> d < 0x10000"
    then have "c = 0xD800 + (d - 0x10000) div 1024" using eq by (auto simp: utf16_units_def)
    moreover have "d \<le> 0x10FFFF" using sc \<open>\<not> d < 0x10000\<close> by (auto simp: is_scalar_def)
    ultimately have "0xD800 \<le> c" "c \<le> 0xDFFF" by linarith+
    then show "c = d" using sc by (auto simp: is_scalar_def)
  next
    assume "\<not> c < 0x10000" "d < 0x10000"
    then have "d = 0xD800 + (c - 0x10000) div 1024" using eq by (auto simp: utf16_units_def)
    moreover have "c \<le> 0x10FFFF" using sc \<open>\<not> c < 0x10000\<close> by (auto simp: is_scalar_def)
    ultimately have "0xD800 \<le> d" "d \<le> 0xDFFF" by linarith+
    then show "c = d" using sc by (auto simp: is_scalar_def)
  qed (use eq in \<open>auto simp: utf16_units_def\<close>)
  with eq have "concat (map utf16_units cs) = concat (map utf16_units ds')" by simp
  then have "cs = ds'" using Cons.IH [of ds'] Cons.prems ds by auto
  with cd ds show ?case by simp
qed

lemma encode_utf16_inj: "utf8_valid s \<Longrightarrow> utf8_valid t \<Longrightarrow> encode_utf16 s = encode_utf16 t \<Longrightarrow> s = t"
  unfolding encode_utf16_def by (rule chars_inj) (auto intro: utf16_concat_inj chars_scalar)

end
