(* ===== verification/Json_Value.thy ===== *)
theory Json_Value
  imports Utf8
begin

unbundle bit_operations_syntax

text \<open>
  \<open>cbr-encoding\<close>'s value domain (\<open>value.rs\<close>) and its reasons for refusing input
  (\<open>error.rs\<close>). \<open>jvalue\<close> is the enum \<open>Value\<close>, with the source's constructors (\<open>Int\<close>, an infix of HOL, is \<open>Integer\<close>); an
  \<open>i64\<close> is an \<open>int\<close>, since every value the domain holds is within \<open>MAX_SAFE_INTEGER\<close>.
  \<open>in_domain\<close> is the type invariant the module states in prose: integers in the safe range,
  valid UTF-8 without noncharacters, unique member names.
\<close>

datatype jvalue =
    Null
  | Bool bool
  | Integer int
  | String string
  | Array "jvalue list"
  | Object "(string \<times> jvalue) list"

definition MAX_SAFE_INTEGER :: int where
  "MAX_SAFE_INTEGER = 9007199254740991"

fun get :: "jvalue \<Rightarrow> string \<Rightarrow> jvalue option" where
  "get (Object members) name = map_of members name"
| "get _ name = None"

fun keys :: "jvalue \<Rightarrow> string list" where
  "keys (Object members) = map fst members"
| "keys _ = []"

fun as_str :: "jvalue \<Rightarrow> string option" where
  "as_str (String text) = Some text"
| "as_str _ = None"

fun as_array :: "jvalue \<Rightarrow> jvalue list option" where
  "as_array (Array items) = Some items"
| "as_array _ = None"

fun is_object :: "jvalue \<Rightarrow> bool" where
  "is_object (Object _) = True"
| "is_object _ = False"

definition is_noncharacter :: "nat \<Rightarrow> bool" where
  "is_noncharacter code_point \<longleftrightarrow>
     (0xFDD0 \<le> code_point \<and> code_point \<le> 0xFDEF) \<or> (code_point AND 0xFFFE) = 0xFFFE"

datatype error_kind =
    InvalidUtf8 | ByteOrderMark | NotJson | TrailingGarbage | DuplicateMember
  | NonIntegerNumber | NegativeZero | LeadingZero | IntegerOutOfRange | UnpairedSurrogate
  | Noncharacter | ControlCharacterInString | InvalidEscape | UnexpectedEnd | DepthExceeded

record parse_error =
  kind :: error_kind
  offset :: nat

definition err :: "error_kind \<Rightarrow> nat \<Rightarrow> parse_error + 'a" where
  "err k at = Inl \<lparr>kind = k, offset = at\<rparr>"

fun error_reason :: "error_kind \<Rightarrow> string" where
  "error_reason InvalidUtf8 = ''invalid UTF-8''"
| "error_reason ByteOrderMark = ''byte-order mark''"
| "error_reason NotJson = ''not JSON''"
| "error_reason TrailingGarbage = ''trailing garbage''"
| "error_reason DuplicateMember = ''duplicate member name''"
| "error_reason NonIntegerNumber = ''non-integer number''"
| "error_reason NegativeZero = ''negative zero''"
| "error_reason LeadingZero = ''leading zero''"
| "error_reason IntegerOutOfRange = ''integer outside safe range''"
| "error_reason UnpairedSurrogate = ''unpaired surrogate''"
| "error_reason Noncharacter = ''noncharacter''"
| "error_reason ControlCharacterInString = ''control character in string''"
| "error_reason InvalidEscape = ''invalid escape''"
| "error_reason UnexpectedEnd = ''unexpected end of input''"
| "error_reason DepthExceeded = ''nesting too deep''"

lemma err_simps [simp]:
  "err k at \<noteq> Inr x" "Inr x \<noteq> err k at" "rbind (err k at) f = err k at"
  by (simp_all add: err_def)

subsection \<open>The domain\<close>

definition text_ok :: "string \<Rightarrow> bool" where
  "text_ok s \<longleftrightarrow> utf8_valid s \<and> (\<forall>c \<in> set (chars s). \<not> is_noncharacter c)"

fun in_domain :: "jvalue \<Rightarrow> bool" where
  "in_domain (Integer n) \<longleftrightarrow> \<bar>n\<bar> \<le> MAX_SAFE_INTEGER"
| "in_domain (String s) \<longleftrightarrow> text_ok s"
| "in_domain (Array items) \<longleftrightarrow> (\<forall>v \<in> set items. in_domain v)"
| "in_domain (Object members) \<longleftrightarrow>
     distinct (map fst members) \<and> (\<forall>(n, v) \<in> set members. text_ok n \<and> in_domain v)"
| "in_domain _ \<longleftrightarrow> True"

text \<open>How deep a reader has to nest: a scalar or an empty container is at its own depth.\<close>

fun nesting :: "jvalue \<Rightarrow> nat" where
  "nesting (Array items) = (if items = [] then 0 else Suc (Max (set (map nesting items))))"
| "nesting (Object members) =
     (if members = [] then 0 else Suc (Max (set (map (\<lambda>(n, v). nesting v) members))))"
| "nesting _ = 0"

lemma nesting_item: "v \<in> set items \<Longrightarrow> Suc (nesting v) \<le> nesting (Array items)"
  by (cases items) (auto intro!: Max_ge)

lemma nesting_member: "(n, v) \<in> set members \<Longrightarrow> Suc (nesting v) \<le> nesting (Object members)"
  by (cases members) (force intro!: Max_ge)+

lemma nesting_Array_le: "(\<And>v. v \<in> set items \<Longrightarrow> Suc (nesting v) \<le> k) \<Longrightarrow> nesting (Array items) \<le> k"
  by (cases "items = []") (auto simp: Suc_le_eq)

lemma nesting_Object_le:
  "(\<And>n v. (n, v) \<in> set members \<Longrightarrow> Suc (nesting v) \<le> k) \<Longrightarrow> nesting (Object members) \<le> k"
  by (cases "members = []") (auto simp: Suc_le_eq)

declare nesting.simps(1,2) [simp del]

lemma size_item: "v \<in> set items \<Longrightarrow> size v < size (Array items)"
  by (auto simp: less_Suc_eq_le intro: size_list_estimation')

lemma size_member:
  assumes "(n, v) \<in> set members"
  shows "size v < size (Object members)"
proof -
  have "size v \<le> size_list (size_prod (\<lambda>_. 0) size) members"
    using assms by (auto intro: size_list_estimation')
  then show ?thesis by simp
qed

lemma get_SomeD: "get v name = Some w \<Longrightarrow> \<exists>ms. v = Object ms \<and> map_of ms name = Some w"
  by (cases v) auto

lemma in_domain_get: "in_domain v \<Longrightarrow> get v name = Some w \<Longrightarrow> in_domain w"
  by (auto dest!: get_SomeD map_of_SomeD)

lemma get_None_iff: "get v name = None \<longleftrightarrow> name \<notin> set (keys v)"
  by (cases v) (auto simp: map_of_eq_None_iff)

lemma as_str_Some [simp]: "as_str v = Some s \<longleftrightarrow> v = String s"
  by (cases v) auto

lemma as_array_Some [simp]: "as_array v = Some s \<longleftrightarrow> v = Array s"
  by (cases v) auto

lemma and_nat_le: "(a :: nat) AND b \<le> a"
proof -
  have "int (a AND b) \<le> int a"
    unfolding of_nat_and_eq by (rule AND_upper1) simp
  then show ?thesis by simp
qed

lemma noncharacter_ge: "is_noncharacter c \<Longrightarrow> 0xFDD0 \<le> c"
  using and_nat_le [of c "0xFFFE"] by (auto simp: is_noncharacter_def)

lemma text_ok_Nil [simp]: "text_ok []"
  by (simp add: text_ok_def)

lemma text_ok_encode [simp]:
  "is_scalar c \<Longrightarrow> text_ok (utf8_encode c @ s) \<longleftrightarrow> \<not> is_noncharacter c \<and> text_ok s"
  by (auto simp: text_ok_def)

lemma text_ok_utf8: "text_ok s \<Longrightarrow> utf8_valid s"
  by (simp add: text_ok_def)

lemma text_ok_ascii: "(\<And>b. b \<in> set s \<Longrightarrow> bval b < 0x80) \<Longrightarrow> text_ok s"
proof (induction s)
  case Nil
  show ?case by simp
next
  case (Cons b s)
  then have b: "bval b < 0x80" by simp
  then have "is_scalar (bval b)" by (simp add: is_scalar_def)
  moreover have "\<not> is_noncharacter (bval b)" using b noncharacter_ge [of "bval b"] by auto
  moreover have "b # s = utf8_encode (bval b) @ s" using b by (simp add: utf8_encode_ascii)
  ultimately show ?case using Cons by (metis list.set_intros(2) text_ok_encode)
qed

lemma text_ok_iff:
  "text_ok s \<longleftrightarrow> (\<exists>cs. s = of_chars cs \<and> (\<forall>c \<in> set cs. is_scalar c \<and> \<not> is_noncharacter c))"
proof
  assume "text_ok s"
  then show "\<exists>cs. s = of_chars cs \<and> (\<forall>c \<in> set cs. is_scalar c \<and> \<not> is_noncharacter c)"
    by (intro exI [of _ "chars s"]) (auto simp: text_ok_def of_chars_chars_valid chars_scalar)
next
  assume "\<exists>cs. s = of_chars cs \<and> (\<forall>c \<in> set cs. is_scalar c \<and> \<not> is_noncharacter c)"
  then show "text_ok s"
    by (auto simp: text_ok_def chars_of_chars utf8_valid_of_chars)
qed

lemma text_ok_append: "text_ok s \<Longrightarrow> text_ok t \<Longrightarrow> text_ok (s @ t)"
  unfolding text_ok_iff
proof (elim exE conjE)
  fix cs ds
  assume "s = of_chars cs" "t = of_chars ds" "\<forall>c \<in> set cs. is_scalar c \<and> \<not> is_noncharacter c"
    "\<forall>c \<in> set ds. is_scalar c \<and> \<not> is_noncharacter c"
  then show "\<exists>es. s @ t = of_chars es \<and> (\<forall>c \<in> set es. is_scalar c \<and> \<not> is_noncharacter c)"
    by (intro exI [of _ "cs @ ds"]) auto
qed

lemma text_ok_char: "is_scalar c \<Longrightarrow> \<not> is_noncharacter c \<Longrightarrow> text_ok (utf8_encode c)"
  using text_ok_encode [of c "[]"] by simp

end
