(* ===== verification/Canonical.thy ===== *)
theory Canonical
  imports Json_Value "HOL-Library.Multiset"
begin

text \<open>
  Canonical form, \<open>canonical.rs\<close>: RFC 8785 over the integer-only domain. Member names are
  ordered by their UTF-16 code units, strings escape only what JSON must escape, and no
  whitespace is written. \<open>sorted_members\<close> is the value a reader gets back: every object with
  its members in canonical order.
\<close>

subsection \<open>Decimal and hexadecimal text\<close>

fun dec_digits :: "nat \<Rightarrow> string" where
  "dec_digits n = (if n < 10 then [char_of (0x30 + n)]
     else dec_digits (n div 10) @ [char_of (0x30 + n mod 10)])"

declare dec_digits.simps [simp del]

definition int_text :: "int \<Rightarrow> string" where
  "int_text n = (if n < 0 then CHR ''-'' # dec_digits (nat (- n)) else dec_digits (nat n))"

definition hex_digit :: "nat \<Rightarrow> char" where
  "hex_digit n = char_of (if n < 10 then 0x30 + n else 0x61 + n - 10)"

definition hex4_text :: "nat \<Rightarrow> string" where
  "hex4_text n = map hex_digit [n div 4096 mod 16, n div 256 mod 16, n div 16 mod 16, n mod 16]"

subsection \<open>The writer\<close>

definition write_char :: "nat \<Rightarrow> string" where
  "write_char c =
     (if c = 0x22 then [CHR 0x5C, CHR 0x22]
      else if c = 0x5C then [CHR 0x5C, CHR 0x5C]
      else if c = 0x08 then [CHR 0x5C, CHR ''b'']
      else if c = 0x09 then [CHR 0x5C, CHR ''t'']
      else if c = 0x0A then [CHR 0x5C, CHR ''n'']
      else if c = 0x0C then [CHR 0x5C, CHR ''f'']
      else if c = 0x0D then [CHR 0x5C, CHR ''r'']
      else if c < 0x20 then CHR 0x5C # CHR ''u'' # hex4_text c
      else utf8_encode c)"

definition write_string :: "string \<Rightarrow> string" where
  "write_string text = CHR 0x22 # concat (map write_char (chars text)) @ [CHR 0x22]"

definition order_members :: "(string \<times> 'a) list \<Rightarrow> (string \<times> 'a) list" where
  "order_members members = sort_key (\<lambda>m. encode_utf16 (fst m)) members"

lemma set_order_members [simp]: "set (order_members ms) = set ms"
  by (simp add: order_members_def)

lemma order_members_Nil_iff [simp]: "order_members ms = [] \<longleftrightarrow> ms = []"
  by (metis set_empty set_order_members)

lemma mset_order_members [simp]: "mset (order_members ms) = mset ms"
  by (simp add: order_members_def)

function to_canonical :: "jvalue \<Rightarrow> string" where
  "to_canonical Null = ''null''"
| "to_canonical (Bool b) = (if b then ''true'' else ''false'')"
| "to_canonical (Integer number) = int_text number"
| "to_canonical (String text) = write_string text"
| "to_canonical (Array items) = ''['' @ joined '','' (map to_canonical items) @ '']''"
| "to_canonical (Object members) =
     ''{'' @ joined '',''
       (map (\<lambda>(name, member). write_string name @ '':'' @ to_canonical member)
          (order_members members)) @ ''}''"
  by pat_completeness auto
termination
proof (relation "measure size", goal_cases)
  case (2 items x)
  then show ?case using size_item by (simp only: in_measure)
next
  case (3 members x a b)
  then have "(a, b) \<in> set members" by simp
  then show ?case using size_member by (simp only: in_measure)
qed auto

fun sorted_members :: "jvalue \<Rightarrow> jvalue" where
  "sorted_members (Array items) = Array (map sorted_members items)"
| "sorted_members (Object members) =
     Object (order_members (map (\<lambda>(n, v). (n, sorted_members v)) members))"
| "sorted_members v = v"

end
