(* ===== verification/Json_Parse.thy ===== *)
theory Json_Parse
  imports Canonical
begin

text \<open>
  The strict reader, \<open>parse.rs\<close>. The struct \<open>Parser { bytes, at, .. }\<close> is a pair of the
  offset \<open>at\<close> and the bytes from there on; \<open>peek\<close> is the head of the rest. Every error
  carries the offset the source reports.

  \<open>value\<close>, \<open>object\<close> and \<open>array\<close> call each other, so \<open>value\<close> takes fuel, one unit for each
  level it nests, and the two loops one unit for each turn; without fuel the answer is \<open>None\<close>.
  Every turn and every level consumes a byte, so \<open>Suc (length s)\<close> units are enough, which is
  what the callers give: \<open>parse_total\<close> shows that the reader always answers.
\<close>

definition DEFAULT_MAX_DEPTH :: nat where
  "DEFAULT_MAX_DEPTH = 128"

type_synonym 'a parsed = "parse_error + ('a \<times> nat \<times> string)"

definition is_ws :: "char \<Rightarrow> bool" where
  "is_ws b \<longleftrightarrow> b = CHR '' '' \<or> b = CHR 0x09 \<or> b = CHR 0x0A \<or> b = CHR 0x0D"

fun skip_whitespace :: "nat \<Rightarrow> string \<Rightarrow> nat \<times> string" where
  "skip_whitespace at [] = (at, [])"
| "skip_whitespace at (b # s) = (if is_ws b then skip_whitespace (Suc at) s else (at, b # s))"

definition expect :: "char \<Rightarrow> nat \<Rightarrow> string \<Rightarrow> unit parsed" where
  "expect byte at s =
     (case s of
        b # r \<Rightarrow> if b = byte then Inr ((), Suc at, r) else err NotJson at
      | [] \<Rightarrow> err UnexpectedEnd at)"

definition literal :: "string \<Rightarrow> jvalue \<Rightarrow> nat \<Rightarrow> string \<Rightarrow> jvalue parsed" where
  "literal word v at s =
     (if prefix word s then Inr (v, at + length word, drop (length word) s)
      else err NotJson at)"

subsection \<open>Numbers\<close>

text \<open>\<open>magnitude\<close> accumulates in an \<open>i128\<close> and stops at the first value out of range.\<close>

fun magnitude :: "int \<Rightarrow> string \<Rightarrow> int option" where
  "magnitude m [] = Some m"
| "magnitude m (b # s) =
     (let m' = m * 10 + int (bval b - 0x30)
      in if m' > MAX_SAFE_INTEGER then None else magnitude m' s)"

definition p_digits :: "nat \<Rightarrow> string \<Rightarrow> string parsed" where
  "p_digits at s =
     (case s of
        b # r \<Rightarrow>
          if b = CHR ''0'' then
            (case r of
               d # _ \<Rightarrow> if is_ascii_digit d then err LeadingZero at else Inr ([b], Suc at, r)
             | [] \<Rightarrow> Inr ([b], Suc at, r))
          else if is_ascii_digit b then
            Inr (takeWhile is_ascii_digit s, at + length (takeWhile is_ascii_digit s),
                 dropWhile is_ascii_digit s)
          else err NotJson at
      | [] \<Rightarrow> err NotJson at)"

definition p_number :: "nat \<Rightarrow> string \<Rightarrow> jvalue parsed" where
  "p_number start s =
     (let negative = (case s of b # _ \<Rightarrow> b = CHR ''-'' | [] \<Rightarrow> False);
          (at, s1) = (if negative then (Suc start, tl s) else (start, s))
      in rbind (p_digits at s1) (\<lambda>(digits, at', s').
           if (case s' of b # _ \<Rightarrow> b = CHR ''.'' \<or> b = CHR ''e'' \<or> b = CHR ''E'' | [] \<Rightarrow> False)
           then err NonIntegerNumber start
           else if negative \<and> digits = ''0'' then err NegativeZero start
           else (case magnitude 0 digits of
                   None \<Rightarrow> err IntegerOutOfRange start
                 | Some m \<Rightarrow> Inr (Integer (if negative then - m else m), at', s'))))"

subsection \<open>Strings\<close>

definition hex_value :: "char \<Rightarrow> nat option" where
  "hex_value b =
     (if is_ascii_digit b then Some (bval b - 0x30)
      else if 0x61 \<le> bval b \<and> bval b \<le> 0x66 then Some (bval b - 0x61 + 10)
      else if 0x41 \<le> bval b \<and> bval b \<le> 0x46 then Some (bval b - 0x41 + 10)
      else None)"

fun hex_run :: "nat \<Rightarrow> nat \<Rightarrow> string \<Rightarrow> parse_error + nat" where
  "hex_run at value [] = Inr value"
| "hex_run at value (b # s) =
     (case hex_value b of
        None \<Rightarrow> err InvalidEscape at
      | Some digit \<Rightarrow> hex_run (Suc at) (value * 16 + digit) s)"

definition hex4 :: "nat \<Rightarrow> string \<Rightarrow> nat parsed" where
  "hex4 at s =
     (if length s < 4 then err UnexpectedEnd at
      else rbind (hex_run at 0 (take 4 s)) (\<lambda>v. Inr (v, at + 4, drop 4 s)))"

definition is_high :: "nat \<Rightarrow> bool" where
  "is_high n \<longleftrightarrow> 0xD800 \<le> n \<and> n \<le> 0xDBFF"

definition is_low :: "nat \<Rightarrow> bool" where
  "is_low n \<longleftrightarrow> 0xDC00 \<le> n \<and> n \<le> 0xDFFF"

definition unicode_escape :: "nat \<Rightarrow> string \<Rightarrow> nat parsed" where
  "unicode_escape at s =
     (let start = at - 2 in
      rbind (hex4 at s) (\<lambda>(first, at1, s1).
      rbind (if is_high first then
               if \<not> prefix [CHR 0x5C, CHR ''u''] s1 then err UnpairedSurrogate start
               else rbind (hex4 (at1 + 2) (drop 2 s1)) (\<lambda>(second, at2, s2).
                 if \<not> is_low second then err UnpairedSurrogate start
                 else Inr (0x10000 + (first - 0xD800) * 1024 + (second - 0xDC00), at2, s2))
             else if is_low first then err UnpairedSurrogate start
             else Inr (first, at1, s1)) (\<lambda>(code_point, at3, s3).
      if is_noncharacter code_point then err Noncharacter start
      else if \<not> is_scalar code_point then err UnpairedSurrogate start
      else Inr (code_point, at3, s3))))"

definition escape :: "nat \<Rightarrow> string \<Rightarrow> nat parsed" where
  "escape at s =
     (case s of
        [] \<Rightarrow> err UnexpectedEnd at
      | b # r \<Rightarrow>
          if b = CHR 0x22 then Inr (0x22, Suc at, r)
          else if b = CHR 0x5C then Inr (0x5C, Suc at, r)
          else if b = CHR ''/'' then Inr (0x2F, Suc at, r)
          else if b = CHR ''b'' then Inr (0x08, Suc at, r)
          else if b = CHR ''f'' then Inr (0x0C, Suc at, r)
          else if b = CHR ''n'' then Inr (0x0A, Suc at, r)
          else if b = CHR ''r'' then Inr (0x0D, Suc at, r)
          else if b = CHR ''t'' then Inr (0x09, Suc at, r)
          else if b = CHR ''u'' then unicode_escape (Suc at) r
          else err InvalidEscape at)"

lemma hex4_drop: "hex4 at s = Inr (v, at', s') \<Longrightarrow> at' = at + 4 \<and> s' = drop 4 s \<and> 4 \<le> length s"
  by (auto simp: hex4_def result_simps split: if_splits)

lemma unicode_escape_drop:
  "unicode_escape at s = Inr (c, at', s') \<Longrightarrow> is_scalar c \<and> \<not> is_noncharacter c \<and>
     (\<exists>k. at' = at + k \<and> s' = drop k s \<and> k \<le> length s)"
  by (auto simp: unicode_escape_def Let_def result_simps dest!: hex4_drop prefix_length_le split: if_splits)

lemma small_char_ok: "c < 0xD800 \<Longrightarrow> is_scalar c \<and> \<not> is_noncharacter c"
  using noncharacter_ge [of c] by (auto simp: is_scalar_def)

lemma escape_drop:
  assumes "escape at s = Inr (c, at', s')"
  shows "is_scalar c \<and> \<not> is_noncharacter c \<and> (\<exists>k>0. at' = at + k \<and> s' = drop k s \<and> k \<le> length s)"
proof (cases s)
  case Nil
  with assms show ?thesis by (simp add: escape_def)
next
  case (Cons b r)
  show ?thesis
  proof (cases "b = CHR ''u''")
    case True
    with assms Cons have "unicode_escape (Suc at) r = Inr (c, at', s')" by (simp add: escape_def)
    from unicode_escape_drop [OF this] obtain k where
      "is_scalar c \<and> \<not> is_noncharacter c" "at' = Suc at + k" "s' = drop k r" "k \<le> length r" by blast
    with Cons show ?thesis by (intro conjI exI [of _ "Suc k"]) auto
  next
    case False
    with assms Cons have "c < 0xD800 \<and> at' = at + 1 \<and> s' = drop 1 s"
      by (simp add: escape_def split: if_splits)
    with Cons small_char_ok [of c] show ?thesis by (intro conjI exI [of _ 1]) auto
  qed
qed

lemma escape_shorter: "escape at s = Inr (c, at', s') \<Longrightarrow> length s' < length s"
  by (drule escape_drop) auto

text \<open>The loop of \<open>string\<close>, after the opening quotation mark; \<open>out\<close> is what it has pushed.\<close>

function p_chars :: "nat \<Rightarrow> string \<Rightarrow> string \<Rightarrow> string parsed" where
  "p_chars at s out =
     (case s of
        [] \<Rightarrow> err UnexpectedEnd at
      | b # r \<Rightarrow>
          if b = CHR 0x22 then Inr (out, Suc at, r)
          else if b = CHR 0x5C then
            (case escape (Suc at) r of
               Inl e \<Rightarrow> Inl e
             | Inr (c, at', s') \<Rightarrow> p_chars at' s' (out @ utf8_encode c))
          else if bval b < 0x20 then err ControlCharacterInString at
          else (case utf8_next s of
                  None \<Rightarrow> err UnexpectedEnd at
                | Some (c, s') \<Rightarrow>
                    if is_noncharacter c then err Noncharacter at
                    else p_chars (at + length (utf8_encode c)) s' (out @ utf8_encode c)))"
  by pat_completeness auto
termination
  by (relation "measure (\<lambda>(at, s, out). length s)")
    (auto dest: escape_shorter utf8_next_shorter)

declare p_chars.simps [simp del]

definition p_string :: "nat \<Rightarrow> string \<Rightarrow> string parsed" where
  "p_string at s = rbind (expect (CHR 0x22) at s) (\<lambda>(_, at', s'). p_chars at' s' [])"

subsection \<open>Values, objects and arrays\<close>

text \<open>\<open>?\<close> under fuel: no fuel and an error both end the call.\<close>

fun pbind :: "('e + 'a) option \<Rightarrow> ('a \<Rightarrow> ('e + 'b) option) \<Rightarrow> ('e + 'b) option" where
  "pbind None f = None"
| "pbind (Some (Inl e)) f = Some (Inl e)"
| "pbind (Some (Inr x)) f = f x"

text \<open>
  The loops of \<open>object\<close> and \<open>array\<close> and the two routines take \<open>value\<close> as the argument \<open>vp\<close>,
  and \<open>p_value\<close> ties the knot.
\<close>

type_synonym value_parser = "nat \<Rightarrow> nat \<Rightarrow> string \<Rightarrow> jvalue parsed option"

fun p_members :: "value_parser \<Rightarrow> nat \<Rightarrow> nat \<Rightarrow> nat \<Rightarrow> string \<Rightarrow> (string \<times> jvalue) list
    \<Rightarrow> jvalue parsed option" where
  "p_members vp 0 depth at s members = None"
| "p_members vp (Suc fuel) depth at s members =
     (let (at1, s1) = skip_whitespace at s in
      if \<not> prefix [CHR 0x22] s1 then Some (err NotJson at1)
      else pbind (Some (p_string at1 s1)) (\<lambda>(name, at2, s2).
        if name \<in> set (map fst members) then Some (err DuplicateMember at1)
        else let (at3, s3) = skip_whitespace at2 s2 in
        pbind (Some (expect (CHR '':'') at3 s3)) (\<lambda>(_, at4, s4).
        let (at5, s5) = skip_whitespace at4 s4 in
        pbind (vp (Suc depth) at5 s5) (\<lambda>(v, at6, s6).
        let members' = members @ [(name, v)];
            (at7, s7) = skip_whitespace at6 s6
        in (case s7 of
              [] \<Rightarrow> Some (err UnexpectedEnd at7)
            | b # r \<Rightarrow>
                if b = CHR '','' then p_members vp fuel depth (Suc at7) r members'
                else if b = CHR ''}'' then Some (Inr (Object members', Suc at7, r))
                else Some (err NotJson at7))))))"

definition p_object :: "value_parser \<Rightarrow> value_parser" where
  "p_object vp depth at s =
     pbind (Some (expect (CHR ''{'') at s)) (\<lambda>(_, at0, s0).
     let (at1, s1) = skip_whitespace at0 s0 in
     if prefix ''}'' s1 then Some (Inr (Object [], Suc at1, tl s1))
     else p_members vp (Suc (length s1)) depth at1 s1 [])"

fun p_items :: "value_parser \<Rightarrow> nat \<Rightarrow> nat \<Rightarrow> nat \<Rightarrow> string \<Rightarrow> jvalue list
    \<Rightarrow> jvalue parsed option" where
  "p_items vp 0 depth at s items = None"
| "p_items vp (Suc fuel) depth at s items =
     (let (at1, s1) = skip_whitespace at s in
      pbind (vp (Suc depth) at1 s1) (\<lambda>(v, at2, s2).
      let items' = items @ [v];
          (at3, s3) = skip_whitespace at2 s2
      in (case s3 of
            [] \<Rightarrow> Some (err UnexpectedEnd at3)
          | b # r \<Rightarrow>
              if b = CHR '','' then p_items vp fuel depth (Suc at3) r items'
              else if b = CHR '']'' then Some (Inr (Array items', Suc at3, r))
              else Some (err NotJson at3))))"

definition p_array :: "value_parser \<Rightarrow> value_parser" where
  "p_array vp depth at s =
     pbind (Some (expect (CHR ''['') at s)) (\<lambda>(_, at0, s0).
     let (at1, s1) = skip_whitespace at0 s0 in
     if prefix '']'' s1 then Some (Inr (Array [], Suc at1, tl s1))
     else p_items vp (Suc (length s1)) depth at1 s1 [])"

definition p_scalar :: "nat \<Rightarrow> string \<Rightarrow> jvalue parsed" where
  "p_scalar at s =
     (case s of
        [] \<Rightarrow> err UnexpectedEnd at
      | b # _ \<Rightarrow>
          if b = CHR 0x22 then
            rbind (p_string at s) (\<lambda>(text, at', s'). Inr (String text, at', s'))
          else if b = CHR ''t'' then literal ''true'' (Bool True) at s
          else if b = CHR ''f'' then literal ''false'' (Bool False) at s
          else if b = CHR ''n'' then literal ''null'' Null at s
          else if b = CHR ''-'' \<or> is_ascii_digit b then p_number at s
          else err NotJson at)"

fun p_value :: "nat \<Rightarrow> nat \<Rightarrow> value_parser" where
  "p_value 0 max_depth depth at s = None"
| "p_value (Suc fuel) max_depth depth at s =
     (if depth > max_depth then Some (err DepthExceeded at)
      else if prefix ''{'' s then p_object (p_value fuel max_depth) depth at s
      else if prefix ''['' s then p_array (p_value fuel max_depth) depth at s
      else Some (p_scalar at s))"

definition parse_fuel :: "string \<Rightarrow> nat" where
  "parse_fuel input = Suc (length input)"

definition parse_with_depth :: "string \<Rightarrow> nat \<Rightarrow> (parse_error + jvalue) option" where
  "parse_with_depth input max_depth =
     (if \<not> utf8_valid input then Some (err InvalidUtf8 (valid_up_to input))
      else if prefix (utf8_encode 0xFEFF) input then Some (err ByteOrderMark 0)
      else let (at1, s1) = skip_whitespace 0 input in
      pbind (p_value (parse_fuel input) max_depth 0 at1 s1) (\<lambda>(v, at2, s2).
      let (at3, s3) = skip_whitespace at2 s2 in
      if s3 \<noteq> [] then Some (err TrailingGarbage at3) else Some (Inr v)))"

definition parse :: "string \<Rightarrow> (parse_error + jvalue) option" where
  "parse input = parse_with_depth input DEFAULT_MAX_DEPTH"

declare p_members.simps [simp del] p_items.simps [simp del] p_value.simps [simp del]

lemma pbind_None_iff [result_simps]:
  "pbind m f = None \<longleftrightarrow> m = None \<or> (\<exists>x. m = Some (Inr x) \<and> f x = None)"
  by (cases "(m, f)" rule: pbind.cases) auto

lemma pbind_Inr_iff [result_simps]:
  "pbind m f = Some (Inr y) \<longleftrightarrow> (\<exists>x. m = Some (Inr x) \<and> f x = Some (Inr y))"
  by (cases "(m, f)" rule: pbind.cases) auto

lemma pbind_total: "m \<noteq> None \<Longrightarrow> (\<And>x. f x \<noteq> None) \<Longrightarrow> pbind m f \<noteq> None"
  by (cases "(m, f)" rule: pbind.cases) auto

subsection \<open>Every routine consumes a prefix of its input\<close>

lemma skip_whitespace_drop:
  "skip_whitespace at s = (at', s') \<Longrightarrow> \<exists>k \<le> length s. at' = at + k \<and> s' = drop k s"
proof (induction at s rule: skip_whitespace.induct)
  case (1 at)
  then show ?case by simp
next
  case (2 at b s)
  show ?case
  proof (cases "is_ws b")
    case True
    with 2 obtain k where "k \<le> length s" "at' = Suc at + k" "s' = drop k s" by auto
    then show ?thesis by (intro exI [of _ "Suc k"]) simp
  next
    case False
    with 2 show ?thesis by (intro exI [of _ 0]) simp
  qed
qed

lemma skip_whitespace_shorter: "skip_whitespace at s = (at', s') \<Longrightarrow> length s' \<le> length s"
  by (drule skip_whitespace_drop) auto

lemma p_chars_InrE:
  assumes "p_chars at s out = Inr (t, at', s')"
  obtains (quote) r where "s = CHR 0x22 # r" "t = out" "at' = Suc at" "s' = r"
  | (escaped) r c at1 s1 where "s = CHR 0x5C # r" "escape (Suc at) r = Inr (c, at1, s1)"
      "p_chars at1 s1 (out @ utf8_encode c) = Inr (t, at', s')"
  | (plain) c s1 where "utf8_next s = Some (c, s1)" "\<not> is_noncharacter c"
      "p_chars (at + length (utf8_encode c)) s1 (out @ utf8_encode c) = Inr (t, at', s')"
proof (cases s)
  case Nil
  with assms show ?thesis by (simp add: p_chars.simps)
next
  case (Cons b r)
  note body = assms [unfolded p_chars.simps [of at s out], unfolded Cons list.case]
  show ?thesis
  proof (cases "b = CHR 0x22")
    case True
    with body Cons quote show ?thesis by simp
  next
    case nq: False
    show ?thesis
    proof (cases "b = CHR 0x5C")
      case True
      with body Cons escaped show ?thesis by (cases "escape (Suc at) r") auto
    next
      case False
      with body Cons nq plain show ?thesis
        by (cases "utf8_next (b # r)") (auto split: if_splits)
    qed
  qed
qed

lemma p_chars_shorter: "p_chars at s out = Inr (t, at', s') \<Longrightarrow> length s' < length s"
proof (induction "length s" arbitrary: at s out rule: less_induct)
  case less
  from less.prems show ?case
  proof (cases rule: p_chars_InrE)
    case (escaped r c at1 s1)
    with less.hyps [OF _ escaped(3)] escape_shorter [OF escaped(2)] show ?thesis by simp
  next
    case (plain c s1)
    with less.hyps [OF _ plain(3)] utf8_next_shorter [OF plain(1)] show ?thesis by simp
  qed auto
qed

lemma p_string_shorter: "p_string at s = Inr (t, at', s') \<Longrightarrow> length s' < length s"
  by (auto simp: p_string_def expect_def result_simps split: list.splits if_splits dest!: p_chars_shorter)

lemma length_dropWhile_less [simp]: "length (dropWhile P xs) < Suc (length xs)"
  by (simp add: less_Suc_eq_le length_dropWhile_le)

lemma p_digits_shorter:
  assumes "p_digits at s = Inr (t, at', s')"
  shows "length s' < length s"
proof (cases s)
  case Nil
  with assms show ?thesis by (simp add: p_digits_def)
next
  case (Cons b r)
  show ?thesis
  proof (cases "b = CHR ''0''")
    case True
    with assms Cons show ?thesis by (auto simp: p_digits_def split: list.splits if_splits)
  next
    case False
    with assms Cons have "is_ascii_digit b" "s' = dropWhile is_ascii_digit s"
      by (auto simp: p_digits_def split: if_splits)
    with Cons show ?thesis by simp
  qed
qed

lemma p_number_shorter: "p_number at s = Inr (t, at', s') \<Longrightarrow> length s' < length s"
  by (cases s) (auto simp: p_number_def Let_def result_simps split: if_splits option.splits
      dest!: p_digits_shorter)

lemma literal_shorter: "literal w v at s = Inr (t, at', s') \<Longrightarrow> w \<noteq> [] \<Longrightarrow> length s' < length s"
  by (cases w) (auto simp: literal_def prefix_def split: if_splits)

lemma expect_shorter: "expect b at s = Inr (t, at', s') \<Longrightarrow> length s' < length s"
  by (auto simp: expect_def split: list.splits if_splits)

lemmas shorter = skip_whitespace_shorter p_string_shorter p_number_shorter literal_shorter
  expect_shorter

subsection \<open>What the leaves return is in the domain\<close>

lemma p_chars_sound: "p_chars at s out = Inr (t, at', s') \<Longrightarrow> text_ok out \<Longrightarrow> text_ok t"
proof (induction "length s" arbitrary: at s out rule: less_induct)
  case less
  from less.prems(1) show ?case
  proof (cases rule: p_chars_InrE)
    case (quote r)
    with less.prems show ?thesis by simp
  next
    case (escaped r c at1 s1)
    have "text_ok (out @ utf8_encode c)"
      using escape_drop [OF escaped(2)] less.prems(2) by (simp add: text_ok_append text_ok_char)
    with less.hyps [OF _ escaped(3)] escape_shorter [OF escaped(2)] escaped(1) show ?thesis by simp
  next
    case (plain c s1)
    have "text_ok (out @ utf8_encode c)"
      using utf8_next_sound(1) [OF plain(1)] plain(2) less.prems(2)
      by (simp add: text_ok_append text_ok_char)
    with less.hyps [OF _ plain(3)] utf8_next_shorter [OF plain(1)] show ?thesis by simp
  qed
qed

lemma p_string_sound: "p_string at s = Inr (t, at', s') \<Longrightarrow> text_ok t"
  by (auto simp: p_string_def result_simps dest: p_chars_sound)

lemma magnitude_bounds:
  "magnitude m s = Some r \<Longrightarrow> 0 \<le> m \<Longrightarrow> m \<le> MAX_SAFE_INTEGER \<Longrightarrow> 0 \<le> r \<and> r \<le> MAX_SAFE_INTEGER"
  by (induction m s rule: magnitude.induct) (auto simp: Let_def split: if_splits)

lemma p_number_sound: "p_number at s = Inr (v, at', s') \<Longrightarrow> \<exists>n. v = Integer n \<and> \<bar>n\<bar> \<le> MAX_SAFE_INTEGER"
  using magnitude_bounds [of 0]
  by (fastforce simp: p_number_def Let_def result_simps MAX_SAFE_INTEGER_def
      split: prod.splits if_splits option.splits)

lemma literal_value: "literal w x at s = Inr (v, at', s') \<Longrightarrow> v = x"
  by (simp add: literal_def split: if_splits)

lemma p_scalar_sound:
  assumes "p_scalar at s = Inr (v, at', s')"
  shows "in_domain v \<and> nesting v = 0 \<and> length s' < length s"
proof -
  obtain b r where s: "s = b # r" using assms by (cases s) (auto simp: p_scalar_def)
  consider (str) t where "p_string at s = Inr (t, at', s')" "v = String t"
    | (lit) w x where "literal w x at s = Inr (v, at', s')" "w \<noteq> []" "x \<in> {Bool True, Bool False, Null}"
    | (num) "p_number at s = Inr (v, at', s')"
    using assms unfolding p_scalar_def s list.case
    by (auto simp: result_simps split: if_split_asm)
  then show ?thesis
  proof cases
    case str
    then show ?thesis using p_string_sound p_string_shorter by auto
  next
    case lit
    then show ?thesis using literal_shorter [OF lit(1)] literal_value [OF lit(1)] by auto
  next
    case num
    then show ?thesis using p_number_sound [OF num] p_number_shorter [OF num] by auto
  qed
qed

subsection \<open>Objects and arrays, over any value reader that keeps its contract\<close>

locale value_reader =
  fixes vp :: value_parser and n lim :: nat
  assumes vp_total: "length s < n \<Longrightarrow> vp d at s \<noteq> None"
    and vp_shorter: "vp d at s = Some (Inr (v, at', s')) \<Longrightarrow> length s' < length s"
    and vp_sound: "vp d at s = Some (Inr (v, at', s')) \<Longrightarrow> in_domain v \<and> d + nesting v \<le> lim"
begin

lemma p_items_total:
  "length s < n \<Longrightarrow> length s < k \<Longrightarrow> p_items vp k d at s items \<noteq> None"
proof (induction k arbitrary: at s items)
  case (Suc k)
  obtain at1 s1 where 1: "skip_whitespace at s = (at1, s1)" by fastforce
  note len1 = skip_whitespace_shorter [OF 1]
  show ?case
  proof
    assume none: "p_items vp (Suc k) d at s items = None"
    then obtain v at2 s2 where 2: "vp (Suc d) at1 s1 = Some (Inr (v, at2, s2))"
      using vp_total [of s1 "Suc d" at1] len1 Suc.prems
      by (auto simp: p_items.simps 1 Let_def result_simps)
    obtain at3 s3 where 3: "skip_whitespace at2 s2 = (at3, s3)" by fastforce
    from none obtain b r where s3: "s3 = b # r"
      and rec: "p_items vp k d (Suc at3) r (items @ [v]) = None"
      by (cases s3) (auto simp: p_items.simps 1 2 3 Let_def split: if_splits)
    then have "length r < length s"
      using vp_shorter [OF 2] skip_whitespace_shorter [OF 3] len1 by simp
    with Suc.IH [of r "Suc at3" "items @ [v]"] Suc.prems rec show False by simp
  qed
qed simp

lemma p_items_sound:
  "p_items vp k d at s items = Some (Inr (v, at', s')) \<Longrightarrow>
   length s' < length s \<and> (\<exists>vs. v = Array (items @ vs)
     \<and> (\<forall>w \<in> set vs. in_domain w \<and> Suc d + nesting w \<le> lim))"
proof (induction k arbitrary: at s items)
  case (Suc k)
  obtain at1 s1 where 1: "skip_whitespace at s = (at1, s1)" by fastforce
  from Suc.prems obtain w at2 s2 where 2: "vp (Suc d) at1 s1 = Some (Inr (w, at2, s2))"
    by (auto simp: p_items.simps 1 Let_def result_simps)
  obtain at3 s3 where 3: "skip_whitespace at2 s2 = (at3, s3)" by fastforce
  obtain b r where s3: "s3 = b # r"
    using Suc.prems by (cases s3) (auto simp: p_items.simps 1 2 3 Let_def)
  have len: "length r < length s"
    using skip_whitespace_shorter [OF 1] vp_shorter [OF 2] skip_whitespace_shorter [OF 3] s3 by simp
  show ?case
  proof (cases "b = CHR '',''")
    case True
    with Suc.prems have "p_items vp k d (Suc at3) r (items @ [w]) = Some (Inr (v, at', s'))"
      by (simp add: p_items.simps 1 2 3 s3 Let_def)
    from Suc.IH [OF this] obtain vs where "length s' < length r" "v = Array ((items @ [w]) @ vs)"
      "\<forall>w \<in> set vs. in_domain w \<and> Suc d + nesting w \<le> lim" by blast
    with len vp_sound [OF 2] show ?thesis by (intro conjI exI [of _ "w # vs"]) auto
  next
    case False
    with Suc.prems have "v = Array (items @ [w])" "s' = r"
      by (auto simp: p_items.simps 1 2 3 s3 Let_def split: if_splits)
    with len vp_sound [OF 2] show ?thesis by auto
  qed
qed (simp add: p_items.simps)

lemma p_members_total:
  "length s < n \<Longrightarrow> length s < k \<Longrightarrow> p_members vp k d at s members \<noteq> None"
proof (induction k arbitrary: at s members)
  case (Suc k)
  obtain at1 s1 where 1: "skip_whitespace at s = (at1, s1)" by fastforce
  note len1 = skip_whitespace_shorter [OF 1]
  show ?case
  proof
    assume none: "p_members vp (Suc k) d at s members = None"
    then obtain name at2 s2 where 2: "p_string at1 s1 = Inr (name, at2, s2)"
      by (auto simp: p_members.simps 1 Let_def result_simps split: if_splits)
    obtain at3 s3 where 3: "skip_whitespace at2 s2 = (at3, s3)" by fastforce
    from none obtain at4 s4 where 4: "expect (CHR '':'') at3 s3 = Inr ((), at4, s4)"
      by (auto simp: p_members.simps 1 2 3 Let_def result_simps split: if_splits)
    obtain at5 s5 where 5: "skip_whitespace at4 s4 = (at5, s5)" by fastforce
    have len5: "length s5 < length s"
      using len1 p_string_shorter [OF 2] skip_whitespace_shorter [OF 3] expect_shorter [OF 4]
        skip_whitespace_shorter [OF 5] by simp
    from none obtain v at6 s6 where 6: "vp (Suc d) at5 s5 = Some (Inr (v, at6, s6))"
      using vp_total [of s5 "Suc d" at5] len5 Suc.prems
      by (auto simp: p_members.simps 1 2 3 4 5 Let_def result_simps split: if_splits)
    obtain at7 s7 where 7: "skip_whitespace at6 s6 = (at7, s7)" by fastforce
    from none obtain b r where s7: "s7 = b # r"
      and rec: "p_members vp k d (Suc at7) r (members @ [(name, v)]) = None"
      by (cases s7) (auto simp: p_members.simps 1 2 3 4 5 6 7 Let_def split: if_splits)
    then have "length r < length s"
      using vp_shorter [OF 6] skip_whitespace_shorter [OF 7] len5 by simp
    with Suc.IH [of r "Suc at7" "members @ [(name, v)]"] Suc.prems rec show False by simp
  qed
qed simp

lemma p_members_sound:
  "p_members vp k d at s members = Some (Inr (v, at', s')) \<Longrightarrow> distinct (map fst members) \<Longrightarrow>
   length s' < length s \<and> (\<exists>ms. v = Object (members @ ms) \<and> distinct (map fst (members @ ms))
     \<and> (\<forall>(m, w) \<in> set ms. text_ok m \<and> in_domain w \<and> Suc d + nesting w \<le> lim))"
proof (induction k arbitrary: at s members)
  case (Suc k)
  obtain at1 s1 where 1: "skip_whitespace at s = (at1, s1)" by fastforce
  from Suc.prems(1) obtain name at2 s2 where 2: "p_string at1 s1 = Inr (name, at2, s2)"
    and new: "name \<notin> set (map fst members)"
    by (auto simp: p_members.simps 1 Let_def result_simps split: if_splits)
  obtain at3 s3 where 3: "skip_whitespace at2 s2 = (at3, s3)" by fastforce
  from Suc.prems(1) new obtain at4 s4 where 4: "expect (CHR '':'') at3 s3 = Inr ((), at4, s4)"
    by (auto simp: p_members.simps 1 2 3 Let_def result_simps split: if_splits)
  obtain at5 s5 where 5: "skip_whitespace at4 s4 = (at5, s5)" by fastforce
  from Suc.prems(1) new obtain w at6 s6 where 6: "vp (Suc d) at5 s5 = Some (Inr (w, at6, s6))"
    by (auto simp: p_members.simps 1 2 3 4 5 Let_def result_simps split: if_splits)
  obtain at7 s7 where 7: "skip_whitespace at6 s6 = (at7, s7)" by fastforce
  note step = p_members.simps 1 2 3 4 5 6 7 Let_def
  obtain b r where s7: "s7 = b # r"
    using Suc.prems(1) new by (cases s7) (auto simp: step split: if_splits)
  have len: "length r < length s"
    using skip_whitespace_shorter [OF 1] p_string_shorter [OF 2] skip_whitespace_shorter [OF 3]
      expect_shorter [OF 4] skip_whitespace_shorter [OF 5] vp_shorter [OF 6]
      skip_whitespace_shorter [OF 7] s7 by simp
  have ok: "text_ok name" "in_domain w" "Suc d + nesting w \<le> lim"
    using p_string_sound [OF 2] vp_sound [OF 6] by auto
  show ?case
  proof (cases "b = CHR '',''")
    case True
    with Suc.prems(1) new have "p_members vp k d (Suc at7) r (members @ [(name, w)]) = Some (Inr (v, at', s'))"
      by (simp add: step s7 split: if_splits)
    from Suc.IH [OF this] new Suc.prems(2) obtain ms where "length s' < length r"
      "v = Object ((members @ [(name, w)]) @ ms)" "distinct (map fst ((members @ [(name, w)]) @ ms))"
      "\<forall>(m, w) \<in> set ms. text_ok m \<and> in_domain w \<and> Suc d + nesting w \<le> lim" by auto
    with len ok show ?thesis by (intro conjI exI [of _ "(name, w) # ms"]) auto
  next
    case False
    with Suc.prems(1) new have "v = Object (members @ [(name, w)])" "s' = r"
      by (auto simp: step s7 split: if_splits)
    with len ok new Suc.prems(2) show ?thesis by (intro conjI exI [of _ "[(name, w)]"]) auto
  qed
qed (simp add: p_members.simps)

lemma p_array_total:
  assumes "length s \<le> n"
  shows "p_array vp d at s \<noteq> None"
proof -
  have "p_items vp (Suc (length s1)) d at1 s1 [] \<noteq> None"
    if "expect (CHR ''['') at s = Inr ((), at0, s0)" "skip_whitespace at0 s0 = (at1, s1)" for at0 s0 at1 s1
    using that assms expect_shorter [OF that(1)] skip_whitespace_shorter [OF that(2)]
    by (intro p_items_total) auto
  then show ?thesis
    by (auto simp: p_array_def result_simps split: prod.splits if_splits)
qed

lemma p_object_total:
  assumes "length s \<le> n"
  shows "p_object vp d at s \<noteq> None"
proof -
  have "p_members vp (Suc (length s1)) d at1 s1 [] \<noteq> None"
    if "expect (CHR ''{'') at s = Inr ((), at0, s0)" "skip_whitespace at0 s0 = (at1, s1)" for at0 s0 at1 s1
    using that assms expect_shorter [OF that(1)] skip_whitespace_shorter [OF that(2)]
    by (intro p_members_total) auto
  then show ?thesis
    by (auto simp: p_object_def result_simps split: prod.splits if_splits)
qed

lemma p_array_sound:
  assumes "p_array vp d at s = Some (Inr (v, at', s'))" "d \<le> lim"
  shows "in_domain v \<and> d + nesting v \<le> lim \<and> length s' < length s"
proof -
  from assms(1) obtain at0 s0 where 0: "expect (CHR ''['') at s = Inr ((), at0, s0)"
    by (auto simp: p_array_def result_simps)
  obtain at1 s1 where 1: "skip_whitespace at0 s0 = (at1, s1)" by fastforce
  have len: "length s1 < length s" using expect_shorter [OF 0] skip_whitespace_shorter [OF 1] by simp
  show ?thesis
  proof (cases "prefix '']'' s1")
    case True
    with assms(1) have "v = Array []" "s' = tl s1" by (auto simp: p_array_def 0 1 Let_def)
    with len assms(2) show ?thesis by (simp add: nesting.simps)
  next
    case False
    with assms(1) have "p_items vp (Suc (length s1)) d at1 s1 [] = Some (Inr (v, at', s'))"
      by (simp add: p_array_def 0 1 Let_def)
    from p_items_sound [OF this] obtain vs where "length s' < length s1" "v = Array vs"
      "\<forall>w \<in> set vs. in_domain w \<and> Suc d + nesting w \<le> lim" by auto
    then show ?thesis using len assms(2) nesting_Array_le [of vs "lim - d"]
      by (fastforce simp: le_diff_conv2)
  qed
qed

lemma p_object_sound:
  assumes "p_object vp d at s = Some (Inr (v, at', s'))" "d \<le> lim"
  shows "in_domain v \<and> d + nesting v \<le> lim \<and> length s' < length s"
proof -
  from assms(1) obtain at0 s0 where 0: "expect (CHR ''{'') at s = Inr ((), at0, s0)"
    by (auto simp: p_object_def result_simps)
  obtain at1 s1 where 1: "skip_whitespace at0 s0 = (at1, s1)" by fastforce
  have len: "length s1 < length s" using expect_shorter [OF 0] skip_whitespace_shorter [OF 1] by simp
  show ?thesis
  proof (cases "prefix ''}'' s1")
    case True
    with assms(1) have "v = Object []" "s' = tl s1" by (auto simp: p_object_def 0 1 Let_def)
    with len assms(2) show ?thesis by (simp add: nesting.simps)
  next
    case False
    with assms(1) have "p_members vp (Suc (length s1)) d at1 s1 [] = Some (Inr (v, at', s'))"
      by (simp add: p_object_def 0 1 Let_def)
    from p_members_sound [OF this] obtain ms where ms: "length s' < length s1" "v = Object ms"
      "distinct (map fst ms)"
      "\<forall>(m, w) \<in> set ms. text_ok m \<and> in_domain w \<and> Suc d + nesting w \<le> lim" by auto
    have "nesting (Object ms) \<le> lim - d"
      using ms(4) by (intro nesting_Object_le) (fastforce simp: le_diff_conv2)
    with ms len assms(2) show ?thesis by auto
  qed
qed

end

lemma p_value_reader: "value_reader (p_value fuel max_depth) fuel max_depth"
proof (induction fuel)
  case 0
  show ?case by unfold_locales (auto simp: p_value.simps)
next
  case (Suc fuel)
  note below = Suc.IH
  show ?case
  proof
    fix s :: string and d at
    assume "length s < Suc fuel"
    then show "p_value (Suc fuel) max_depth d at s \<noteq> None"
      using value_reader.p_array_total [OF below] value_reader.p_object_total [OF below] by (simp add: p_value.simps)
  next
    fix d at s v at' s'
    assume *: "p_value (Suc fuel) max_depth d at s = Some (Inr (v, at', s'))"
    then have "in_domain v \<and> d + nesting v \<le> max_depth \<and> length s' < length s"
      using value_reader.p_array_sound [OF below] value_reader.p_object_sound [OF below] p_scalar_sound
      by (fastforce simp: p_value.simps split: if_splits)
    then show "length s' < length s" "in_domain v \<and> d + nesting v \<le> max_depth" by auto
  qed
qed

interpretation reader: value_reader "p_value fuel max_depth" fuel max_depth for fuel max_depth
  by (rule p_value_reader)

subsection \<open>The reader always answers, and only with values of the domain\<close>

lemma parse_with_depth_total: "parse_with_depth input max_depth \<noteq> None"
proof -
  obtain at1 s1 where 1: "skip_whitespace 0 input = (at1, s1)" by fastforce
  have tot: "p_value (parse_fuel input) max_depth 0 at1 s1 \<noteq> None"
    using skip_whitespace_shorter [OF 1] by (intro reader.vp_total) (simp add: parse_fuel_def)
  let ?f = "\<lambda>(v, at2, s2). let (at3, s3) = skip_whitespace at2 s2 in
      if s3 \<noteq> [] then Some (err TrailingGarbage at3) else Some (Inr v)"
  have "?f x \<noteq> (None :: (parse_error + jvalue) option)" for x by (auto split: prod.split)
  from pbind_total [OF tot this] show ?thesis
    by (auto simp: parse_with_depth_def 1)
qed

lemma parse_with_depth_sound:
  assumes "parse_with_depth input max_depth = Some (Inr v)"
  shows "in_domain v \<and> nesting v \<le> max_depth \<and> utf8_valid input"
proof -
  obtain at1 s1 where 1: "skip_whitespace 0 input = (at1, s1)" by fastforce
  from assms obtain w at2 s2 where 2: "p_value (parse_fuel input) max_depth 0 at1 s1 = Some (Inr (w, at2, s2))"
    by (auto simp: parse_with_depth_def 1 Let_def result_simps split: if_splits)
  have "w = v"
    using assms by (cases "skip_whitespace at2 s2")
      (auto simp: parse_with_depth_def 1 2 Let_def split: if_splits)
  with reader.vp_sound [OF 2] assms show ?thesis
    by (auto simp: parse_with_depth_def split: if_splits)
qed

end
