(* ===== verification/Json_Roundtrip.thy ===== *)
theory Json_Roundtrip
  imports Json_Parse
begin

text \<open>
  The writer of \<open>Canonical\<close> against the reader of \<open>Json_Parse\<close>: reading the canonical form of
  a value of the domain gives the value back, its members in canonical order. From it follow
  that canonical form decides equality up to member order, which is what a digest over it
  relies on, and that member order never matters to the bytes.
\<close>

subsection \<open>Numbers\<close>

lemma dec_digits_digits: "b \<in> set (dec_digits n) \<Longrightarrow> is_ascii_digit b"
proof (induction n rule: dec_digits.induct)
  case (1 n)
  then show ?case
    by (auto simp: dec_digits.simps [of n] is_ascii_digit_def split: if_splits)
qed

lemma dec_digits_nonempty [simp]: "dec_digits n \<noteq> []"
  by (subst dec_digits.simps) simp

lemma dec_digits_hd: "hd (dec_digits n) = CHR ''0'' \<longleftrightarrow> n = 0"
proof (induction n rule: dec_digits.induct)
  case (1 n)
  show ?case
  proof (cases "n < 10")
    case True
    have "(char_of (48 + n) :: char) = CHR ''0'' \<longleftrightarrow> 48 + n = 48"
      using True by (subst char_of_eq_iff_nat) auto
    with True show ?thesis by (simp add: dec_digits.simps [of n])
  next
    case False
    then show ?thesis using 1 by (simp add: dec_digits.simps [of n])
  qed
qed

lemma dec_digits_0: "dec_digits 0 = ''0''"
  by (simp add: dec_digits.simps [of 0] char_of_eq_iff_nat)

lemma dec_digits_single0: "dec_digits n = CHR ''0'' # r \<Longrightarrow> n = 0 \<and> r = []"
  using dec_digits_hd [of n] dec_digits_0 by auto

lemma magnitude_append:
  "magnitude m (a @ b) = (case magnitude m a of None \<Rightarrow> None | Some m' \<Rightarrow> magnitude m' b)"
  by (induction m a rule: magnitude.induct) (auto simp: Let_def)

lemma magnitude_dec_digits: "int n \<le> MAX_SAFE_INTEGER \<Longrightarrow> magnitude 0 (dec_digits n) = Some (int n)"
proof (induction n rule: dec_digits.induct)
  case (1 n)
  show ?case
  proof (cases "n < 10")
    case True
    then show ?thesis by (simp add: dec_digits.simps [of n] MAX_SAFE_INTEGER_def)
  next
    case False
    have "int (n div 10) \<le> MAX_SAFE_INTEGER" using 1 by simp
    with 1 False have "magnitude 0 (dec_digits (n div 10)) = Some (int (n div 10))" by simp
    moreover have "int (n div 10) * 10 + int (n mod 10) = int n" by presburger
    ultimately show ?thesis using False 1
      by (simp add: dec_digits.simps [of n] magnitude_append)
  qed
qed

text \<open>What may follow a value: the end, or a byte that cannot continue a number.\<close>

definition stops :: "string \<Rightarrow> bool" where
  "stops r \<longleftrightarrow> r = [] \<or> hd r \<in> set '',]}''"

lemma stops_simps [simp]: "stops []" "stops (CHR '','' # r)" "stops (CHR '']'' # r)" "stops (CHR ''}'' # r)"
  by (simp_all add: stops_def)

lemma p_digits_dec:
  assumes "stops r"
  shows "p_digits at (dec_digits n @ r) = Inr (dec_digits n, at + length (dec_digits n), r)"
proof -
  have stop: "takeWhile is_ascii_digit r = []" "dropWhile is_ascii_digit r = r"
    using assms by (cases r; auto simp: stops_def is_ascii_digit_def)+
  have dig: "\<forall>b \<in> set (dec_digits n). is_ascii_digit b" using dec_digits_digits by blast
  obtain b s where bs: "dec_digits n = b # s" by (cases "dec_digits n") auto
  show ?thesis
  proof (cases "b = CHR ''0''")
    case True
    with bs have "s = []" using dec_digits_single0 by blast
    moreover have "r = [] \<or> \<not> is_ascii_digit (hd r)"
      using assms by (auto simp: stops_def is_ascii_digit_def)
    ultimately show ?thesis using True bs by (cases r) (simp_all add: p_digits_def)
  next
    case False
    with bs dig have tk: "takeWhile is_ascii_digit ((b # s) @ r) = b # s"
      "dropWhile is_ascii_digit ((b # s) @ r) = r"
      using takeWhile_append2 [of "b # s" is_ascii_digit r] stop
        dropWhile_append2 [of "b # s" is_ascii_digit r] by auto
    with False bs dig show ?thesis by (simp add: p_digits_def)
  qed
qed

lemma p_number_int_text:
  assumes "stops r" "\<bar>n\<bar> \<le> MAX_SAFE_INTEGER"
  shows "p_number at (int_text n @ r) = Inr (Integer n, at + length (int_text n), r)"
proof -
  have nofrac: "\<not> (case r of b # _ \<Rightarrow> b = CHR ''.'' \<or> b = CHR ''e'' \<or> b = CHR ''E'' | [] \<Rightarrow> False)"
    using assms(1) by (cases r) (auto simp: stops_def)
  show ?thesis
  proof (cases "n < 0")
    case True
    have "dec_digits (nat (- n)) \<noteq> ''0''" using dec_digits_single0 True by force
    moreover have "magnitude 0 (dec_digits (nat (- n))) = Some (- n)"
      using magnitude_dec_digits [of "nat (- n)"] True assms(2) by simp
    ultimately show ?thesis using True nofrac
      by (simp add: p_number_def int_text_def p_digits_dec [OF assms(1)])
  next
    case False
    obtain b s where bs: "dec_digits (nat n) = b # s" by (cases "dec_digits (nat n)") auto
    then have "b \<noteq> CHR ''-''" using dec_digits_digits [of b "nat n"] by (auto simp: is_ascii_digit_def)
    moreover have "magnitude 0 (dec_digits (nat n)) = Some n"
      using magnitude_dec_digits [of "nat n"] False assms(2) by simp
    ultimately show ?thesis using False nofrac p_digits_dec [OF assms(1), of at "nat n"] bs
      by (simp add: p_number_def int_text_def)
  qed
qed

subsection \<open>Strings\<close>

lemma hex_value_digit: "n < 16 \<Longrightarrow> hex_value (hex_digit n) = Some n"
  by (auto simp: hex_value_def hex_digit_def is_ascii_digit_def)

lemma hex_digits_value:
  assumes "(n :: nat) < 65536"
  shows "((n div 4096 mod 16 * 16 + n div 256 mod 16) * 16 + n div 16 mod 16) * 16 + n mod 16 = n"
proof -
  have "n div 4096 mod 16 = n div 256 div 16" "n div 256 = n div 16 div 16"
    using assms by (simp_all add: div_mult2_eq [symmetric])
  then show ?thesis by (simp only: div_mult_mod_eq)
qed

lemma hex4_text:
  assumes "n < 65536"
  shows "hex4 at (hex4_text n @ s) = Inr (n, at + 4, s)"
proof -
  have "hex_run at 0 (hex4_text n) =
      Inr (((n div 4096 mod 16 * 16 + n div 256 mod 16) * 16 + n div 16 mod 16) * 16 + n mod 16)"
    by (simp only: hex4_text_def list.map hex_run.simps hex_value_digit mod_less_divisor
        option.case zero_less_numeral mult_zero_left add_0)
  then have "hex_run at 0 (hex4_text n) = Inr n" by (simp only: hex_digits_value [OF assms])
  moreover have "length (hex4_text n) = 4" by (simp add: hex4_text_def)
  ultimately show ?thesis by (simp add: hex4_def)
qed

lemma p_chars_write_char:
  assumes "is_scalar c" "\<not> is_noncharacter c"
  shows "p_chars at (write_char c @ s) out =
    p_chars (at + length (write_char c)) s (out @ utf8_encode c)"
proof -
  consider "c = 0x22 \<or> c = 0x5C \<or> c = 8 \<or> c = 9 \<or> c = 0xA \<or> c = 0xC \<or> c = 0xD"
    | "c < 0x20" "c \<noteq> 8" "c \<noteq> 9" "c \<noteq> 0xA" "c \<noteq> 0xC" "c \<noteq> 0xD"
    | "0x20 \<le> c" "c \<noteq> 0x22" "c \<noteq> 0x5C" by linarith
  then show ?thesis
  proof cases
    case 1
    then show ?thesis
      by (subst p_chars.simps) (auto simp: write_char_def escape_def)
  next
    case 2
    have "unicode_escape (Suc (Suc at)) (hex4_text c @ s) = Inr (c, at + 6, s)"
      using 2 assms
      by (simp add: unicode_escape_def hex4_text is_high_def is_low_def)
    moreover have "length (hex4_text c) = 4" by (simp add: hex4_text_def)
    ultimately show ?thesis using 2
      by (subst p_chars.simps) (simp add: write_char_def escape_def)
  next
    case 3
    obtain b r where br: "utf8_encode c = b # r" by (cases "utf8_encode c") auto
    have b: "bval b = c \<or> 0x80 \<le> bval b"
      using br utf8_encode_head [OF assms(1)] utf8_encode_ascii [of c] by (cases "c < 0x80") auto
    have "b \<noteq> CHR 0x22" "b \<noteq> CHR 0x5C" "\<not> bval b < 0x20" using b 3 by auto
    moreover have "utf8_next (b # r @ s) = Some (c, s)"
      using utf8_next_encode [OF assms(1), of s] br by simp
    moreover have "write_char c = b # r" using 3 br by (simp add: write_char_def)
    ultimately show ?thesis using assms br by (subst p_chars.simps) simp
  qed
qed

lemma p_chars_write:
  "(\<And>c. c \<in> set cs \<Longrightarrow> is_scalar c \<and> \<not> is_noncharacter c) \<Longrightarrow>
   p_chars at (concat (map write_char cs) @ CHR 0x22 # r) out =
     Inr (out @ of_chars cs, at + length (concat (map write_char cs)) + 1, r)"
proof (induction cs arbitrary: at out)
  case Nil
  show ?case by (simp add: p_chars.simps)
next
  case (Cons c cs)
  have "p_chars (at + length (write_char c)) (concat (map write_char cs) @ CHR 0x22 # r) (out @ utf8_encode c)
      = Inr ((out @ utf8_encode c) @ of_chars cs,
          at + length (write_char c) + length (concat (map write_char cs)) + 1, r)"
    by (rule Cons.IH) (use Cons.prems in auto)
  with Cons.prems show ?case by (simp add: p_chars_write_char)
qed

lemma p_string_write:
  assumes "text_ok t"
  shows "p_string at (write_string t @ r) = Inr (t, at + length (write_string t), r)"
proof -
  have "\<And>c. c \<in> set (chars t) \<Longrightarrow> is_scalar c \<and> \<not> is_noncharacter c"
    using assms by (auto simp: text_ok_def chars_scalar)
  from p_chars_write [OF this] assms show ?thesis
    by (simp add: p_string_def write_string_def expect_def text_ok_def of_chars_chars_valid)
qed

subsection \<open>Values\<close>

lemma canonical_head: "\<exists>b r. to_canonical v = b # r \<and> bval b < 0x80 \<and> \<not> is_ws b \<and> b \<noteq> CHR '']'' \<and> b \<noteq> CHR ''}''
   \<and> (b = CHR ''{'' \<longleftrightarrow> is_object v) \<and> (b = CHR ''['' \<longleftrightarrow> (\<exists>vs. v = Array vs))"
proof (cases v)
  case (Integer n)
  obtain b s where bs: "dec_digits (nat \<bar>n\<bar>) = b # s" by (cases "dec_digits (nat \<bar>n\<bar>)") auto
  then have "is_ascii_digit b" using dec_digits_digits [of b "nat \<bar>n\<bar>"] by simp
  then have "bval b < 0x80 \<and> \<not> is_ws b \<and> b \<noteq> CHR '']'' \<and> b \<noteq> CHR ''}'' \<and> b \<noteq> CHR ''{'' \<and> b \<noteq> CHR ''[''"
    by (auto simp: is_ascii_digit_def is_ws_def)
  with Integer bs show ?thesis by (cases "n < 0") (auto simp: int_text_def is_ws_def)
qed (auto simp: write_string_def is_ws_def)

lemma canonical_nonempty [simp]: "to_canonical v \<noteq> []" "[] \<noteq> to_canonical v"
  using canonical_head [of v] by auto

lemma skip_whitespace_canonical [simp]:
  "skip_whitespace at (to_canonical v @ r) = (at, to_canonical v @ r)"
  using canonical_head [of v] by auto

lemma skip_whitespace_stops: "stops r \<Longrightarrow> skip_whitespace at r = (at, r)"
  by (cases r) (auto simp: stops_def is_ws_def)

lemma skip_whitespace_write_string [simp]:
  "skip_whitespace at (write_string t @ r) = (at, write_string t @ r)"
  by (simp add: write_string_def is_ws_def)

lemma p_scalar_canonical:
  assumes "in_domain v" "stops r" "\<not> is_object v" "\<nexists>vs. v = Array vs"
  shows "p_scalar at (to_canonical v @ r) = Inr (v, at + length (to_canonical v), r)"
proof (cases v)
  case (Integer n)
  obtain b s where bs: "dec_digits (nat \<bar>n\<bar>) = b # s" by (cases "dec_digits (nat \<bar>n\<bar>)") auto
  then have "is_ascii_digit b" using dec_digits_digits [of b "nat \<bar>n\<bar>"] by simp
  then have "b \<noteq> CHR 0x22 \<and> b \<noteq> CHR ''t'' \<and> b \<noteq> CHR ''f'' \<and> b \<noteq> CHR ''n''"
    by (auto simp: is_ascii_digit_def)
  moreover have "p_number at (int_text n @ r) = Inr (Integer n, at + length (int_text n), r)"
    using assms Integer by (intro p_number_int_text) auto
  moreover have "\<exists>b' s'. int_text n @ r = b' # s' \<and> (b' = b \<or> b' = CHR ''-'')"
    using bs by (cases "n < 0") (auto simp: int_text_def)
  ultimately show ?thesis using Integer \<open>is_ascii_digit b\<close> by (auto simp: p_scalar_def)
next
  case (String t)
  then have "p_string at (write_string t @ r) = Inr (t, at + length (write_string t), r)"
    using assms by (intro p_string_write) simp
  moreover have "\<exists>s. write_string t @ r = CHR 0x22 # s" by (simp add: write_string_def)
  ultimately show ?thesis using String by (auto simp: p_scalar_def)
qed (use assms in \<open>auto simp: p_scalar_def literal_def\<close>)

text \<open>\<open>vp\<close> reads \<open>v\<close> back wherever a value may end.\<close>

definition reads :: "value_parser \<Rightarrow> nat \<Rightarrow> jvalue \<Rightarrow> bool" where
  "reads vp d v \<longleftrightarrow> (\<forall>at r. stops r \<longrightarrow>
     vp d at (to_canonical v @ r) =
       Some (Inr (sorted_members v, at + length (to_canonical v), r)))"

lemma p_items_read:
  "vs \<noteq> [] \<Longrightarrow> (\<And>v. v \<in> set vs \<Longrightarrow> reads vp (Suc d) v) \<Longrightarrow> length vs \<le> k \<Longrightarrow>
   p_items vp k d at (joined '','' (map to_canonical vs) @ CHR '']'' # r) items =
     Some (Inr (Array (items @ map sorted_members vs),
       at + length (joined '','' (map to_canonical vs)) + 1, r))"
proof (induction vs arbitrary: k at items)
  case (Cons v vs)
  obtain k' where k: "k = Suc k'" using Cons.prems(3) by (cases k) auto
  have rd: "vp (Suc d) at (to_canonical v @ s) =
      Some (Inr (sorted_members v, at + length (to_canonical v), s))" if "stops s" for s
    using Cons.prems(2) [of v] that by (simp add: reads_def)
  show ?case
  proof (cases "vs = []")
    case True
    then show ?thesis by (simp add: k p_items.simps rd is_ws_def Let_def)
  next
    case False
    let ?rest = "joined '','' (map to_canonical vs) @ CHR '']'' # r"
    have "p_items vp k' d (Suc (at + length (to_canonical v))) ?rest (items @ [sorted_members v])
      = Some (Inr (Array ((items @ [sorted_members v]) @ map sorted_members vs),
          Suc (at + length (to_canonical v)) + length (joined '','' (map to_canonical vs)) + 1, r))"
      by (rule Cons.IH) (use False Cons.prems k in auto)
    with False show ?thesis
      by (simp add: k p_items.simps rd is_ws_def Let_def joined_Cons)
  qed
qed simp

definition member_text :: "string \<times> jvalue \<Rightarrow> string" where
  "member_text m = write_string (fst m) @ '':'' @ to_canonical (snd m)"

lemma p_members_read:
  "ms \<noteq> [] \<Longrightarrow> (\<And>m. m \<in> set ms \<Longrightarrow> text_ok (fst m) \<and> reads vp (Suc d) (snd m)) \<Longrightarrow> length ms \<le> k \<Longrightarrow>
   distinct (map fst (members @ ms)) \<Longrightarrow>
   p_members vp k d at (joined '','' (map member_text ms) @ CHR ''}'' # r) members =
     Some (Inr (Object (members @ map (\<lambda>(n, v). (n, sorted_members v)) ms),
       at + length (joined '','' (map member_text ms)) + 1, r))"
proof (induction ms arbitrary: k at members)
  case (Cons m ms)
  obtain name v where m: "m = (name, v)" by fastforce
  obtain k' where k: "k = Suc k'" using Cons.prems(3) by (cases k) auto
  have ok: "text_ok name" using Cons.prems(2) [of m] m by simp
  have new: "name \<notin> set (map fst members)" using Cons.prems(4) m by auto
  have rd: "vp (Suc d) at (to_canonical v @ s) =
      Some (Inr (sorted_members v, at + length (to_canonical v), s))" if "stops s" for at s
    using Cons.prems(2) [of m] m that by (simp add: reads_def)
  have mt: "member_text (name, v) = write_string name @ '':'' @ to_canonical v"
    by (simp add: member_text_def)
  have pre: "prefix [CHR 0x22] (write_string name @ s)" for s by (simp add: write_string_def)
  note step = k m p_members.simps mt pre new p_string_write [OF ok]
    expect_def rd is_ws_def Let_def
  show ?case
  proof (cases "ms = []")
    case True
    with new show ?thesis by (simp add: step)
  next
    case False
    let ?rest = "joined '','' (map member_text ms) @ CHR ''}'' # r"
    let ?at = "at + length (write_string name) + 1 + length (to_canonical v) + 1"
    have "p_members vp k' d ?at ?rest (members @ [(name, sorted_members v)])
      = Some (Inr (Object ((members @ [(name, sorted_members v)]) @ map (\<lambda>(n, v). (n, sorted_members v)) ms),
          ?at + length (joined '','' (map member_text ms)) + 1, r))"
      by (rule Cons.IH) (use False Cons.prems k m in auto)
    with False new show ?thesis by (simp add: step joined_Cons)
  qed
qed simp

lemma to_canonical_Object:
  "to_canonical (Object ms) = ''{'' @ joined '','' (map member_text (order_members ms)) @ ''}''"
proof -
  have "member_text = (\<lambda>(name, member). write_string name @ '':'' @ to_canonical member)"
    by (auto simp: fun_eq_iff member_text_def)
  then show ?thesis by simp
qed

lemma order_members_map:
  "order_members (map (\<lambda>(n, v). (n, f v)) ms) = map (\<lambda>(n, v). (n, f v)) (order_members ms)"
proof -
  have "insort_key (\<lambda>m. encode_utf16 (fst m)) (n, f v) (map (\<lambda>(n, v). (n, f v)) xs)
      = map (\<lambda>(n, v). (n, f v)) (insort_key (\<lambda>m. encode_utf16 (fst m)) (n, v) xs)" for n v xs
    by (induction xs) auto
  then show ?thesis
    unfolding order_members_def sort_key_def by (induction ms) auto
qed

lemma distinct_order_members: "distinct (map fst (order_members ms)) \<longleftrightarrow> distinct (map fst ms)"
  by (rule mset_eq_imp_distinct_iff) simp

lemma p_value_canonical:
  "in_domain v \<Longrightarrow> d + nesting v \<le> max_depth \<Longrightarrow> length (to_canonical v) \<le> fuel \<Longrightarrow> stops r \<Longrightarrow>
   p_value fuel max_depth d at (to_canonical v @ r) =
     Some (Inr (sorted_members v, at + length (to_canonical v), r))"
proof (induction "size v" arbitrary: v fuel d at r rule: less_induct)
  case less
  obtain fuel' where fuel: "fuel = Suc fuel'"
    using less.prems(3) canonical_nonempty [of v] by (cases fuel) auto
  have deep: "\<not> max_depth < d" using less.prems(2) by simp
  consider (arr) vs where "v = Array vs" | (obj) ms where "v = Object ms"
    | (scalar) "\<not> is_object v" "\<nexists>vs. v = Array vs" by (cases v) auto
  then show ?case
  proof cases
    case scalar
    obtain b s where bs: "to_canonical v = b # s" "b \<noteq> CHR ''{''" "b \<noteq> CHR ''[''"
      using canonical_head [of v] scalar by auto
    have "sorted_members v = v" using scalar by (cases v) auto
    with scalar p_scalar_canonical [OF less.prems(1,4) scalar, of at] deep bs show ?thesis
      by (simp add: fuel p_value.simps)
  next
    case arr
    let ?body = "joined '','' (map to_canonical vs)"
    have reads: "reads (p_value fuel' max_depth) (Suc d) w" if w: "w \<in> set vs" for w
      unfolding reads_def
    proof (intro allI impI)
      fix at r
      assume "stops r"
      moreover have "length (to_canonical w) \<le> fuel'"
        using length_joined_ge [of "to_canonical w" "map to_canonical vs" "'',''"] w less.prems(3) arr fuel
        by simp
      moreover have "Suc d + nesting w \<le> max_depth"
        using nesting_item [OF w] less.prems(2) arr by simp
      ultimately show "p_value fuel' max_depth (Suc d) at (to_canonical w @ r)
          = Some (Inr (sorted_members w, at + length (to_canonical w), r))"
        using less.hyps [of w] size_item [OF w] w less.prems(1) arr by auto
    qed
    show ?thesis
    proof (cases "vs = []")
      case True
      with arr deep show ?thesis by (simp add: fuel p_value.simps p_array_def expect_def is_ws_def)
    next
      case False
      obtain b s where bs: "?body @ CHR '']'' # r = b # s" "\<not> is_ws b" "b \<noteq> CHR '']''"
        using False canonical_head [of "hd vs"] by (cases vs) (auto simp: joined_Cons)
      have "[] \<notin> set (map to_canonical vs)" by (auto simp del: to_canonical.simps)
      then have "length vs \<le> Suc (length (?body @ CHR '']'' # r))"
        using length_joined_count [of "map to_canonical vs" "'',''"] by simp
      from p_items_read [OF False reads this, of "Suc at" r "[]"] bs arr deep show ?thesis
        by (simp add: fuel p_value.simps p_array_def expect_def)
    qed
  next
    case obj
    let ?ms = "order_members ms"
    let ?body = "joined '','' (map member_text ?ms)"
    have reads: "text_ok (fst m) \<and> reads (p_value fuel' max_depth) (Suc d) (snd m)"
      if m: "m \<in> set ?ms" for m
    proof
      obtain n w where nw: "m = (n, w)" by fastforce
      with m have mem: "(n, w) \<in> set ms" by simp
      show "text_ok (fst m)" using less.prems(1) mem nw obj by auto
      show "reads (p_value fuel' max_depth) (Suc d) (snd m)"
        unfolding reads_def
      proof (intro allI impI)
        fix at r
        assume stop: "stops r"
        have mem_len: "length (member_text m) \<le> length ?body"
          by (rule length_joined_ge) (use m in simp)
        have "length (to_canonical w) \<le> length (member_text m)" by (simp add: member_text_def nw)
        with mem_len have "length (to_canonical w) \<le> length ?body" by (rule order_trans [rotated])
        then have "length (to_canonical w) \<le> fuel'"
          using less.prems(3) fuel by (simp add: obj to_canonical_Object del: to_canonical.simps)
        moreover have "Suc d + nesting w \<le> max_depth"
          using nesting_member [OF mem] less.prems(2) obj by simp
        ultimately show "p_value fuel' max_depth (Suc d) at (to_canonical (snd m) @ r)
            = Some (Inr (sorted_members (snd m), at + length (to_canonical (snd m)), r))"
          using less.hyps [of w] size_member [OF mem] mem less.prems(1) obj nw stop by auto
      qed
    qed
    show ?thesis
    proof (cases "ms = []")
      case True
      with obj deep show ?thesis
        by (simp add: fuel p_value.simps p_object_def expect_def is_ws_def order_members_def)
    next
      case False
      then have ne: "?ms \<noteq> []" by simp
      then obtain s where bs: "?body @ CHR ''}'' # r = CHR 0x22 # s"
        by (cases ?ms) (auto simp: joined_Cons member_text_def write_string_def)
      have "[] \<notin> set (map member_text ?ms)" by (auto simp: member_text_def write_string_def)
      then have len: "length ?ms \<le> Suc (length (?body @ CHR ''}'' # r))"
        using length_joined_count [of "map member_text ?ms" "'',''"] by simp
      have dist: "distinct (map fst ([] @ ?ms))"
        using less.prems(1) obj by (simp add: distinct_order_members)
      from p_members_read [OF ne reads len dist, of "Suc at" r] bs obj deep show ?thesis
        by (simp add: fuel p_value.simps p_object_def expect_def to_canonical_Object is_ws_def
            order_members_map del: to_canonical.simps)
    qed
  qed
qed

subsection \<open>Canonical text is UTF-8, with no control byte\<close>

lemma hex_digit_ascii: "n < 16 \<Longrightarrow> 0x20 \<le> bval (hex_digit n) \<and> bval (hex_digit n) < 0x80"
  by (auto simp: hex_digit_def)

lemma hex4_text_ascii: "b \<in> set (hex4_text c) \<Longrightarrow> 0x20 \<le> bval b \<and> bval b < 0x80"
  using hex_digit_ascii by (auto simp: hex4_text_def)

lemma text_ok_Cons_ascii: "bval b < 0x80 \<Longrightarrow> text_ok s \<Longrightarrow> text_ok (b # s)"
  using text_ok_append [of "[b]" s] text_ok_ascii [of "[b]"] by simp

lemma write_char_ok: "is_scalar c \<Longrightarrow> \<not> is_noncharacter c \<Longrightarrow> text_ok (write_char c)"
  by (auto simp: write_char_def text_ok_Cons_ascii text_ok_char
      intro!: text_ok_Cons_ascii text_ok_ascii dest: hex4_text_ascii)

lemma text_ok_concat: "(\<And>s. s \<in> set ss \<Longrightarrow> text_ok s) \<Longrightarrow> text_ok (concat ss)"
  by (induction ss) (auto simp: text_ok_append)

lemma write_string_ok:
  assumes "text_ok t"
  shows "text_ok (write_string t)"
proof -
  have "text_ok (write_char c)" if "c \<in> set (chars t)" for c
    using that assms chars_scalar write_char_ok by (auto simp: text_ok_def [of t])
  then have "text_ok (concat (map write_char (chars t)))" by (intro text_ok_concat) auto
  then have "text_ok (concat (map write_char (chars t)) @ [CHR 0x22])"
    by (rule text_ok_append) (rule text_ok_ascii, simp)
  then show ?thesis by (simp add: write_string_def text_ok_Cons_ascii)
qed

lemma text_ok_joined: "text_ok sep \<Longrightarrow> (\<And>s. s \<in> set ss \<Longrightarrow> text_ok s) \<Longrightarrow> text_ok (joined sep ss)"
  by (induction ss) (auto simp: joined_Cons text_ok_append)

lemma int_text_ascii: "b \<in> set (int_text n) \<Longrightarrow> 0x20 \<le> bval b \<and> bval b < 0x80"
  by (auto simp: int_text_def is_ascii_digit_def split: if_splits dest!: dec_digits_digits)

lemma canonical_text_ok: "in_domain v \<Longrightarrow> text_ok (to_canonical v)"
proof (induction v rule: to_canonical.induct)
  case (3 n)
  then show ?case using int_text_ascii by (auto intro!: text_ok_ascii)
next
  case (4 t)
  then show ?case by (simp add: write_string_ok)
next
  case (5 items)
  then show ?case
    by (auto intro!: text_ok_Cons_ascii text_ok_append text_ok_joined intro: text_ok_ascii)
next
  case (6 ms)
  have "text_ok (member_text m)" if "m \<in> set (order_members ms)" for m
    using 6 that unfolding member_text_def
    by (cases m) (fastforce intro!: text_ok_append text_ok_Cons_ascii write_string_ok)
  then show ?case unfolding to_canonical_Object
    by (auto intro!: text_ok_Cons_ascii text_ok_append text_ok_joined intro: text_ok_ascii)
qed (auto intro!: text_ok_ascii)

definition printable :: "string \<Rightarrow> bool" where
  "printable s \<longleftrightarrow> (\<forall>b \<in> set s. 0x20 \<le> bval b)"

lemma printable_simps [simp]:
  "printable []" "printable (b # s) \<longleftrightarrow> 0x20 \<le> bval b \<and> printable s"
  "printable (s @ t) \<longleftrightarrow> printable s \<and> printable t"
  by (auto simp: printable_def)

lemma utf8_encode_printable:
  assumes "is_scalar c" "0x20 \<le> c"
  shows "printable (utf8_encode c)"
proof -
  have "\<forall>n \<in> set (utf8_units c). 0x20 \<le> n" using assms(2) by (auto simp: utf8_units_def)
  moreover have "bval ` set (utf8_encode c) = set (utf8_units c)"
    using of_char_utf8_encode [OF assms(1)] by (metis list.set_map)
  ultimately show ?thesis unfolding printable_def by (metis imageI)
qed

lemma write_char_printable: "is_scalar c \<Longrightarrow> printable (write_char c)"
  using utf8_encode_printable [of c] hex4_text_ascii [of _ c]
  by (auto simp: write_char_def) (auto simp: printable_def)

lemma write_string_printable: "printable (write_string t)"
  using chars_scalar [of _ t] write_char_printable
  by (auto simp: write_string_def) (fastforce simp: printable_def)

lemma printable_joined: "printable sep \<Longrightarrow> (\<And>s. s \<in> set ss \<Longrightarrow> printable s) \<Longrightarrow> printable (joined sep ss)"
  by (induction ss) (auto simp: joined_Cons)

lemma canonical_printable: "printable (to_canonical v)"
proof (induction v rule: to_canonical.induct)
  case (3 n)
  then show ?case using int_text_ascii by (auto simp: printable_def)
next
  case (6 ms)
  have "printable (member_text m)" if "m \<in> set (order_members ms)" for m
    using 6 that unfolding member_text_def by (cases m) (fastforce simp: write_string_printable)
  then show ?case unfolding to_canonical_Object by (auto intro!: printable_joined)
qed (auto simp: write_string_printable intro!: printable_joined)

lemma parse_to_canonical:
  assumes "in_domain v" "nesting v \<le> max_depth"
  shows "parse_with_depth (to_canonical v) max_depth = Some (Inr (sorted_members v))"
proof -
  have "\<not> prefix (utf8_encode 0xFEFF) (to_canonical v)"
    using canonical_head [of v] by (auto simp: utf8_encode_def utf8_units_def char_of_eq_iff_nat)
  moreover have "skip_whitespace 0 (to_canonical v) = (0, to_canonical v)"
    using skip_whitespace_canonical [of 0 v "[]"] by simp
  moreover have "p_value (parse_fuel (to_canonical v)) max_depth 0 0 (to_canonical v) =
      Some (Inr (sorted_members v, length (to_canonical v), []))"
    using p_value_canonical [OF assms(1), of 0 max_depth "parse_fuel (to_canonical v)" "[]" 0] assms(2)
    by (simp add: parse_fuel_def)
  ultimately show ?thesis
    using text_ok_utf8 [OF canonical_text_ok [OF assms(1)]] by (simp add: parse_with_depth_def)
qed

subsection \<open>Canonical form decides equality up to member order\<close>

lemma sorted_order_members: "sorted (map (\<lambda>m. encode_utf16 (fst m)) (order_members ms))"
  by (simp add: order_members_def)

lemma map_fst_pairs: "map (\<lambda>m. encode_utf16 (fst m)) (map (\<lambda>(n, v). (n, f v)) ms)
   = map (\<lambda>m. encode_utf16 (fst m)) ms"
  by auto

lemma canonical_sorted_members: "to_canonical (sorted_members v) = to_canonical v"
proof (induction v rule: to_canonical.induct)
  case (5 items)
  then have "map to_canonical (map sorted_members items) = map to_canonical items" by simp
  then show ?case by (simp only: sorted_members.simps to_canonical.simps)
next
  case (6 ms)
  let ?ms = "order_members ms"
  have "order_members (map (\<lambda>(n, v). (n, sorted_members v)) ?ms) = map (\<lambda>(n, v). (n, sorted_members v)) ?ms"
    using sorted_order_members [of ms]
    by (subst order_members_def) (simp only: sort_key_id_if_sorted map_fst_pairs)
  moreover have "map member_text (map (\<lambda>(n, v). (n, sorted_members v)) ?ms) = map member_text ?ms"
    using 6 by (auto simp: member_text_def)
  ultimately show ?case
    by (simp only: sorted_members.simps to_canonical_Object order_members_map)
qed auto

lemma canonical_eq_iff:
  assumes "in_domain v" "in_domain w"
  shows "to_canonical v = to_canonical w \<longleftrightarrow> sorted_members v = sorted_members w"
proof
  assume eq: "to_canonical v = to_canonical w"
  let ?d = "max (nesting v) (nesting w)"
  have "Some (Inr (sorted_members v)) = parse_with_depth (to_canonical v) ?d"
    using parse_to_canonical [OF assms(1), of ?d] by simp
  also have "\<dots> = Some (Inr (sorted_members w))"
    using parse_to_canonical [OF assms(2), of ?d] eq by simp
  finally show "sorted_members v = sorted_members w" by simp
next
  assume "sorted_members v = sorted_members w"
  then show "to_canonical v = to_canonical w" by (metis canonical_sorted_members)
qed

lemma order_members_perm:
  assumes "mset ms = mset ms'" "distinct (map fst ms)" "\<And>m. m \<in> set ms \<Longrightarrow> utf8_valid (fst m)"
  shows "order_members ms = order_members ms'"
  unfolding order_members_def
proof (rule sort_key_inj_key_eq)
  show "mset ms = mset (sort_key (\<lambda>m. encode_utf16 (fst m)) ms')" using assms(1) by simp
  show "sorted (map (\<lambda>m. encode_utf16 (fst m)) (sort_key (\<lambda>m. encode_utf16 (fst m)) ms'))" by simp
  show "inj_on (\<lambda>m. encode_utf16 (fst m)) (set ms)"
  proof (rule inj_onI)
    fix m m'
    assume m: "m \<in> set ms" "m' \<in> set ms" and eq: "encode_utf16 (fst m) = encode_utf16 (fst m')"
    then have "fst m = fst m'" using assms(3) encode_utf16_inj by blast
    with m assms(2) show "m = m'" by (metis distinct_map inj_onD)
  qed
qed

lemma canonical_member_order:
  assumes "mset ms = mset ms'" "distinct (map fst ms)" "\<And>m. m \<in> set ms \<Longrightarrow> utf8_valid (fst m)"
  shows "to_canonical (Object ms) = to_canonical (Object ms')"
  using order_members_perm [OF assms] by (simp only: to_canonical_Object)

text \<open>\<open>parse\<close> and \<open>to_canonical\<close> as a codec over values already in canonical member order.\<close>

definition canonical_value :: "jvalue \<Rightarrow> bool" where
  "canonical_value v \<longleftrightarrow> in_domain v \<and> nesting v \<le> DEFAULT_MAX_DEPTH \<and> sorted_members v = v"

definition parse_ok :: "string \<Rightarrow> jvalue option" where
  "parse_ok s = (case parse s of Some (Inr v) \<Rightarrow> Some v | _ \<Rightarrow> None)"

interpretation json: codec canonical_value to_canonical parse_ok
  by unfold_locales (simp add: canonical_value_def parse_ok_def parse_def parse_to_canonical)

subsection \<open>Properties\<close>

text \<open>
  C17. Whatever bytes arrive, a value the parser accepts is in the domain - safe integers, no
  duplicate member, no noncharacter, valid UTF-8 - and nests at most 128 deep.
\<close>

theorem parse_stays_in_domain:
  assumes "parse input = Some (Inr v)"
  shows "in_domain v \<and> nesting v \<le> 128 \<and> utf8_valid input"
  using parse_with_depth_sound [OF assms [unfolded parse_def]] by (simp add: DEFAULT_MAX_DEPTH_def)

lemma parse_example: "parse ''[true]'' = Some (Inr (Array [Bool True]))"
proof -
  have "to_canonical (Array [Bool True]) = ''[true]''" by simp
  moreover have "nesting (Array [Bool True]) \<le> 128" by (rule nesting_Array_le) auto
  ultimately show ?thesis using parse_to_canonical [of "Array [Bool True]" DEFAULT_MAX_DEPTH]
    by (simp add: parse_def DEFAULT_MAX_DEPTH_def)
qed

lemma parse_stays_in_domain_witness: "in_domain (Array [Bool True]) \<and> nesting (Array [Bool True]) \<le> 128 \<and> utf8_valid ''[true]''"
  by (rule parse_stays_in_domain [OF parse_example])

text \<open>
  C18. The parser answers every input, at every depth bound: with a value or with an error whose
  kind and offset it names, never by running on.
\<close>

theorem parse_always_answers: "\<exists>r. parse_with_depth input max_depth = Some r"
  using parse_with_depth_total [of input max_depth] by blast





end
