(* ===== verification/Base64.thy ===== *)
theory Base64
  imports Prelude "HOL-Library.Word"
begin

unbundle bit_operations_syntax

text \<open>
  Padded standard base64, \<open>base64.rs\<close>. The 24-bit groups are the source's \<open>u32\<close>, shifted and
  masked as it does. The codec is strict: the decoder inverts the encoder and accepts nothing
  the encoder does not write, so two readers never disagree about which bytes a text carries.
\<close>

type_synonym u32 = "32 word"

definition ALPHABET :: string where
  "ALPHABET = ''ABCDEFGHIJKLMNOPQRSTUVWXYZabcdefghijklmnopqrstuvwxyz0123456789+/''"

definition sextet :: "nat \<Rightarrow> u32 \<Rightarrow> char" where
  "sextet shift n = ALPHABET ! unat (drop_bit shift n AND 63)"

definition group24 :: "char \<Rightarrow> char \<Rightarrow> char \<Rightarrow> u32" where
  "group24 b0 b1 b2 = push_bit 16 (of_nat (bval b0)) OR push_bit 8 (of_nat (bval b1)) OR of_nat (bval b2)"

fun encode_base64 :: "string \<Rightarrow> string" where
  "encode_base64 [] = []"
| "encode_base64 [b0] =
     (let n = group24 b0 (char_of (0 :: nat)) (char_of (0 :: nat)) in [sextet 18 n, sextet 12 n, CHR ''='', CHR ''=''])"
| "encode_base64 [b0, b1] =
     (let n = group24 b0 b1 (char_of (0 :: nat)) in [sextet 18 n, sextet 12 n, sextet 6 n, CHR ''=''])"
| "encode_base64 (b0 # b1 # b2 # bs) =
     (let n = group24 b0 b1 b2
      in sextet 18 n # sextet 12 n # sextet 6 n # sextet 0 n # encode_base64 bs)"

text \<open>\<open>ALPHABET.iter().position(|a| *a == c)\<close>.\<close>

fun position :: "char \<Rightarrow> string \<Rightarrow> nat option" where
  "position c [] = None"
| "position c (a # as) = (if a = c then Some 0 else map_option Suc (position c as))"

definition digit_value :: "char \<Rightarrow> u32 option" where
  "digit_value c = map_option of_nat (position c ALPHABET)"

text \<open>The inner loop of the decoder: the last \<open>padding\<close> characters count as zero digits.\<close>

fun quad_value :: "u32 \<Rightarrow> nat \<Rightarrow> string \<Rightarrow> nat \<Rightarrow> u32 option" where
  "quad_value n i [] padding = Some n"
| "quad_value n i (c # cs) padding =
     (case (if i \<ge> 4 - padding then Some 0 else digit_value c) of
        None \<Rightarrow> None
      | Some digit \<Rightarrow> quad_value (push_bit 6 n OR digit) (Suc i) cs padding)"

definition low_byte :: "u32 \<Rightarrow> char" where
  "low_byte n = char_of (unat (n AND 0xFF))"

definition decode_quad :: "bool \<Rightarrow> string \<Rightarrow> string option" where
  "decode_quad is_last quad =
     (let padding = length (takeWhile (\<lambda>c. c = CHR ''='') (rev quad)) in
      if padding > 2 \<or> (padding > 0 \<and> \<not> is_last) then None
      else (case quad_value 0 0 quad padding of
              None \<Rightarrow> None
            | Some n \<Rightarrow>
                if (padding = 1 \<and> n AND 0xFF \<noteq> 0) \<or> (padding = 2 \<and> n AND 0xFFFF \<noteq> 0) then None
                else Some ([low_byte (drop_bit 16 n)]
                  @ (if padding < 2 then [low_byte (drop_bit 8 n)] else [])
                  @ (if padding < 1 then [low_byte n] else []))))"

fun decode_quads :: "string \<Rightarrow> string option" where
  "decode_quads (c0 # c1 # c2 # c3 # cs) =
     (case decode_quad (cs = []) [c0, c1, c2, c3] of
        None \<Rightarrow> None
      | Some out \<Rightarrow> map_option ((@) out) (decode_quads cs))"
| "decode_quads _ = Some []"

definition decode_base64 :: "string \<Rightarrow> string option" where
  "decode_base64 text = (if length text mod 4 \<noteq> 0 then None else decode_quads text)"

subsection \<open>The groups as numbers\<close>

lemma nat_or_disjoint: "(d :: nat) < 2 ^ k \<Longrightarrow> push_bit k x OR d = x * 2 ^ k + d"
proof -
  assume d: "d < 2 ^ k"
  have "push_bit k x + d = push_bit k x OR d"
  proof (rule disjunctive_add_eq_or, rule bit_eqI)
    fix n
    show "bit (push_bit k x AND d) n = bit (0 :: nat) n"
      using d by (auto simp: bit_and_iff bit_push_bit_iff_nat dest: bit_imp_possible_bit)
        (metis bit_take_bit_iff not_less take_bit_nat_eq_self)
  qed
  then show ?thesis by (simp add: push_bit_eq_mult)
qed

lemma unat_sextet: "unat (drop_bit k n AND (63 :: u32)) = unat n div 2 ^ k mod 64"
proof -
  have "drop_bit k n AND (63 :: u32) = take_bit 6 (drop_bit k n)"
    by (simp add: take_bit_eq_mask mask_eq_exp_minus_1)
  then have "unat (drop_bit k n AND (63 :: u32)) = take_bit 6 (drop_bit k (unat n))"
    by (simp only: unsigned_take_bit_eq unat_drop_bit_eq)
  then show ?thesis by (simp add: take_bit_eq_mod drop_bit_eq_div)
qed

lemma unat_and_mask: "unat (n AND (255 :: u32)) = unat n mod 256" "unat (n AND (65535 :: u32)) = unat n mod 65536"
proof -
  have "n AND (255 :: u32) = take_bit 8 n" "n AND (65535 :: u32) = take_bit 16 n"
    by (simp_all add: take_bit_eq_mask mask_eq_exp_minus_1)
  then show "unat (n AND (255 :: u32)) = unat n mod 256" "unat (n AND (65535 :: u32)) = unat n mod 65536"
    by (simp_all only: unsigned_take_bit_eq) (simp_all add: take_bit_eq_mod)
qed

lemma unat_group24: "unat (group24 b0 b1 b2) = bval b0 * 65536 + bval b1 * 256 + bval b2"
proof -
  have b: "bval b0 < 256" "bval b1 < 256" "bval b2 < 256" by simp_all
  have sm: "unat (of_nat (bval b) :: u32) = bval b" for b
    by (simp add: unat_of_nat less_trans [of _ 256])
  have t: "take_bit LENGTH(32) (push_bit k (bval c)) = push_bit k (bval c)" if "k \<le> 16" for k c
  proof (rule take_bit_nat_eq_self)
    have "bval c * 2 ^ k < 256 * 2 ^ k" by simp
    also have "\<dots> \<le> 256 * (2 ^ 16 :: nat)" using that by (intro mult_left_mono power_increasing) auto
    finally show "push_bit k (bval c) < 2 ^ LENGTH(32)" by (simp add: push_bit_eq_mult)
  qed
  have "unat (group24 b0 b1 b2) = push_bit 16 (bval b0) OR (push_bit 8 (bval b1) OR bval b2)"
    using t by (simp add: group24_def unsigned_or_eq unsigned_push_bit_eq sm or.assoc
        del: push_bit_of_nat of_nat_push_bit)
  also have "push_bit 8 (bval b1) OR bval b2 = bval b1 * 256 + bval b2"
    using nat_or_disjoint [of "bval b2" 8] b by simp
  also have "push_bit 16 (bval b0) OR (bval b1 * 256 + bval b2) = bval b0 * 65536 + (bval b1 * 256 + bval b2)"
    using nat_or_disjoint [of "bval b1 * 256 + bval b2" 16] b by simp
  finally show ?thesis by simp
qed

lemma unat_push6:
  assumes "unat n < 2 ^ 24" "unat d < 64"
  shows "unat (push_bit 6 n OR d :: u32) = unat n * 64 + unat d"
proof -
  have "unat (push_bit 6 n OR d) = push_bit 6 (unat n) OR unat d"
    using assms by (simp only: unsigned_or_eq unsigned_push_bit_eq)
      (simp add: take_bit_nat_eq_self push_bit_eq_mult)
  then show ?thesis using nat_or_disjoint [of "unat d" 6] assms by simp
qed

subsection \<open>The alphabet\<close>

lemma length_ALPHABET [simp]: "length ALPHABET = 64"
  by (simp add: ALPHABET_def)

lemma distinct_ALPHABET: "distinct ALPHABET"
  by (simp add: ALPHABET_def)

lemma pad_not_in_ALPHABET: "CHR ''='' \<notin> set ALPHABET"
  by (simp add: ALPHABET_def)

lemma position_Some: "position c xs = Some i \<Longrightarrow> i < length xs \<and> xs ! i = c"
  by (induction xs arbitrary: i) (auto split: if_splits)

lemma position_nth: "distinct xs \<Longrightarrow> i < length xs \<Longrightarrow> position (xs ! i) xs = Some i"
proof (induction xs arbitrary: i)
  case (Cons a xs)
  then show ?case by (cases i) auto
qed simp

lemma position_ALPHABET [simp]: "i < 64 \<Longrightarrow> position (ALPHABET ! i) ALPHABET = Some i"
  by (rule position_nth) (simp_all add: distinct_ALPHABET)

lemma ALPHABET_not_pad [simp]: "i < 64 \<Longrightarrow> ALPHABET ! i \<noteq> CHR ''=''"
  using pad_not_in_ALPHABET by (metis length_ALPHABET nth_mem)

subsection \<open>One quad\<close>

fun quad_nat :: "nat \<Rightarrow> nat \<Rightarrow> string \<Rightarrow> nat \<Rightarrow> nat option" where
  "quad_nat n i [] padding = Some n"
| "quad_nat n i (c # cs) padding =
     (case (if i \<ge> 4 - padding then Some 0 else position c ALPHABET) of
        None \<Rightarrow> None
      | Some digit \<Rightarrow> quad_nat (n * 64 + digit) (Suc i) cs padding)"

lemma quad_value_nat:
  "unat n < 64 ^ k \<Longrightarrow> k + length cs \<le> 4 \<Longrightarrow>
   map_option unat (quad_value n i cs padding) = quad_nat (unat n) i cs padding"
proof (induction cs arbitrary: n i k)
  case (Cons c cs)
  have n24: "unat n < 2 ^ 24"
  proof -
    have "(64 :: nat) ^ k \<le> 64 ^ 4" using Cons.prems(2) by (intro power_increasing) auto
    with Cons.prems(1) show ?thesis by simp
  qed
  have step: "map_option unat (quad_value (push_bit 6 n OR of_nat d) (Suc i) cs padding)
      = quad_nat (unat n * 64 + d) (Suc i) cs padding" if d: "d < 64" for d
  proof -
    have ud: "unat (of_nat d :: u32) = d" using d by (simp add: unat_of_nat)
    with n24 d have eq: "unat (push_bit 6 n OR of_nat d) = unat n * 64 + d"
      by (subst unat_push6) simp_all
    have "Suc (unat n) * 64 \<le> 64 ^ k * 64" using Cons.prems(1) by (intro mult_le_mono) simp_all
    then have "unat (push_bit 6 n OR of_nat d) < 64 ^ Suc k" using eq d by simp
    from Cons.IH [OF this] Cons.prems(2) eq show ?thesis by simp
  qed
  have "position c ALPHABET = None \<or> (\<exists>d < 64. position c ALPHABET = Some d)"
    using position_Some [of c ALPHABET] by (cases "position c ALPHABET") auto
  then show ?case using step step [of 0] by (auto simp: digit_value_def)
qed simp

lemma quad_value_SomeD:
  assumes "quad_value 0 0 [c0, c1, c2, c3] padding = Some n"
  shows "quad_nat 0 0 [c0, c1, c2, c3] padding = Some (unat n)"
  using quad_value_nat [of 0 0 "[c0, c1, c2, c3]" 0 padding] assms by simp

lemma quad_value_SomeI:
  assumes "quad_nat 0 0 [c0, c1, c2, c3] padding = Some m"
  shows "\<exists>n. quad_value 0 0 [c0, c1, c2, c3] padding = Some n \<and> unat n = m"
  using quad_value_nat [of 0 0 "[c0, c1, c2, c3]" 0 padding] assms by (simp add: map_option_eq_Some)

lemma low_byte_drop: "low_byte (drop_bit k n) = char_of (unat n div 2 ^ k mod 256)"
proof -
  have "unat (drop_bit k n AND 255) = unat n div 2 ^ k mod 256"
    unfolding unat_and_mask unat_drop_bit_eq by (simp add: drop_bit_eq_div)
  then show ?thesis by (simp only: low_byte_def)
qed

lemma low_byte_0: "low_byte n = char_of (unat n mod 256)"
  by (simp add: low_byte_def unat_and_mask del: char_of_mod_256)

lemma and_mask_zero:
  "n AND (255 :: u32) = 0 \<longleftrightarrow> unat n mod 256 = 0" "n AND (65535 :: u32) = 0 \<longleftrightarrow> unat n mod 65536 = 0"
  by (metis unat_and_mask unat_eq_zero)+

lemma sextet_eq: "sextet k n = ALPHABET ! (unat n div 2 ^ k mod 64)"
  by (simp add: sextet_def unat_sextet)

text \<open>The decoder of one quad, over natural numbers.\<close>

lemma decode_quad_nat:
  "decode_quad is_last [c0, c1, c2, c3] =
     (let padding = length (takeWhile (\<lambda>c. c = CHR ''='') [c3, c2, c1, c0]) in
      if padding > 2 \<or> (padding > 0 \<and> \<not> is_last) then None
      else (case quad_nat 0 0 [c0, c1, c2, c3] padding of
              None \<Rightarrow> None
            | Some m \<Rightarrow>
                if (padding = 1 \<and> m mod 256 \<noteq> 0) \<or> (padding = 2 \<and> m mod 65536 \<noteq> 0) then None
                else Some ([char_of (m div 65536 mod 256)]
                  @ (if padding < 2 then [char_of (m div 256 mod 256)] else [])
                  @ (if padding < 1 then [char_of (m mod 256)] else []))))"
proof -
  have rev4: "rev [c0, c1, c2, c3] = [c3, c2, c1, c0]" by simp
  define padding where "padding = length (takeWhile (\<lambda>c. c = CHR ''='') [c3, c2, c1, c0])"
  show ?thesis
  proof (cases "quad_value 0 0 [c0, c1, c2, c3] padding")
    case None
    then have "quad_nat 0 0 [c0, c1, c2, c3] padding = None"
      using quad_value_SomeI by (metis not_Some_eq)
    with None show ?thesis
      unfolding decode_quad_def rev4 Let_def padding_def [symmetric] by (simp only: option.case)
  next
    case (Some n)
    note nat = quad_value_SomeD [OF Some]
    have drop: "low_byte (drop_bit 16 n) = char_of (unat n div 65536 mod 256)"
      "low_byte (drop_bit 8 n) = char_of (unat n div 256 mod 256)"
      using low_byte_drop [of 16 n] low_byte_drop [of 8 n] by simp_all
    show ?thesis
      unfolding decode_quad_def rev4 Let_def padding_def [symmetric] Some nat option.case
      by (simp only: drop) (simp only: and_mask_zero low_byte_0)
  qed
qed

lemma length_decode_quad:
  "decode_quad is_last [c0, c1, c2, c3] = Some out \<Longrightarrow> length out = 3 \<or> (is_last \<and> length out \<in> {1, 2})"
  by (auto simp: decode_quad_nat Let_def split: if_splits option.splits)

subsection \<open>Groups and digits\<close>

lemma digits_of_group:
  fixes m :: nat
  assumes "m < 2 ^ 24"
  shows "((m div 2 ^ 18 mod 64 * 64 + m div 2 ^ 12 mod 64) * 64 + m div 2 ^ 6 mod 64) * 64 + m mod 64 = m"
proof -
  have "m div 2 ^ 18 mod 64 = m div 2 ^ 12 div 64" "m div 2 ^ 12 = m div 2 ^ 6 div 64"
    "m div 2 ^ 6 = m div 64"
    using assms by (simp_all add: div_mult2_eq [symmetric])
  then show ?thesis by (simp only: div_mult_mod_eq)
qed

lemma group_of_digits:
  fixes d0 d1 d2 d3 :: nat
  assumes "d0 < 64" "d1 < 64" "d2 < 64" "d3 < 64" "m = ((d0 * 64 + d1) * 64 + d2) * 64 + d3"
  shows "m div 2 ^ 18 mod 64 = d0" "m div 2 ^ 12 mod 64 = d1" "m div 2 ^ 6 mod 64 = d2" "m mod 64 = d3"
    "m < 2 ^ 24"
proof -
  have "m div 64 = (d0 * 64 + d1) * 64 + d2" and m0: "m mod 64 = d3"
    unfolding assms(5) using assms(4) by (simp_all only: digit_simps)
  then have m6: "m div 2 ^ 6 = (d0 * 64 + d1) * 64 + d2" by simp
  have m12: "m div 2 ^ 12 = d0 * 64 + d1"
    using div_mult2_eq [of m 64 64] m6 assms(3) by (simp add: digit_simps)
  have m18: "m div 2 ^ 18 = d0"
    using div_mult2_eq [of m 4096 64] m12 assms(2) by (simp add: digit_simps)
  show "m div 2 ^ 18 mod 64 = d0" "m div 2 ^ 12 mod 64 = d1" "m div 2 ^ 6 mod 64 = d2" "m mod 64 = d3"
    using m0 m6 m12 m18 assms(1-3) by (simp_all only: digit_simps mod_less)
  show "m < 2 ^ 24" using assms by simp
qed

lemma bytes_of_group:
  fixes a b c :: nat
  assumes "a < 256" "b < 256" "c < 256" "m = a * 65536 + b * 256 + c"
  shows "m div 65536 mod 256 = a" "m div 256 mod 256 = b" "m mod 256 = c" "m < 2 ^ 24"
proof -
  have "m = (a * 256 + b) * 256 + c" using assms(4) by simp
  then have m8: "m div 256 = a * 256 + b" "m mod 256 = c" using assms(3) by (simp_all only: digit_simps)
  have "m div 65536 = a" using div_mult2_eq [of m 256 256] m8 assms(2) by simp
  with m8 assms show "m div 65536 mod 256 = a" "m div 256 mod 256 = b" "m mod 256 = c" by simp_all
  show "m < 2 ^ 24" using assms by simp
qed

lemma group_of_bytes:
  fixes m :: nat
  assumes "m < 2 ^ 24"
  shows "m div 65536 mod 256 * 65536 + m div 256 mod 256 * 256 + m mod 256 = m"
proof -
  define x where "x = m div 256"
  have "m div 65536 mod 256 = x div 256" using assms by (simp add: x_def div_mult2_eq [symmetric])
  moreover have "x div 256 * 256 + x mod 256 = x" "x * 256 + m mod 256 = m"
    unfolding x_def by (simp_all only: div_mult_mod_eq)
  ultimately show ?thesis unfolding x_def [symmetric] by linarith
qed

subsection \<open>Decoding what was encoded\<close>

lemma decode_group:
  assumes n: "unat n = bval b0 * 65536 + bval b1 * 256 + bval b2"
  shows "decode_quad l [sextet 18 n, sextet 12 n, sextet 6 n, sextet 0 n] = Some [b0, b1, b2]"
    "bval b2 = 0 \<Longrightarrow> decode_quad True [sextet 18 n, sextet 12 n, sextet 6 n, CHR ''=''] = Some [b0, b1]"
    "bval b1 = 0 \<Longrightarrow> bval b2 = 0 \<Longrightarrow>
      decode_quad True [sextet 18 n, sextet 12 n, CHR ''='', CHR ''=''] = Some [b0]"
proof -
  define m where "m = unat n"
  have b: "bval b0 < 256" "bval b1 < 256" "bval b2 < 256" by simp_all
  note byt = bytes_of_group [OF b n [folded m_def]]
  note dg = digits_of_group [OF byt(4)]
  have sx: "sextet k n = ALPHABET ! (m div 2 ^ k mod 64)" for k by (simp add: sextet_eq m_def)
  have lt: "m div 2 ^ k mod 64 < 64" for k by simp
  have sx0: "sextet 0 n = ALPHABET ! (m mod 64)" using sx [of 0] by simp
  have ok: "quad_nat 0 0 [sextet 18 n, sextet 12 n, sextet 6 n, sextet 0 n] 0 = Some m"
    using dg lt [of 18] lt [of 12] lt [of 6] by (simp add: sx sx0 del: power_numeral)
  show "decode_quad l [sextet 18 n, sextet 12 n, sextet 6 n, sextet 0 n] = Some [b0, b1, b2]"
    unfolding decode_quad_nat using ok by (simp add: byt sx0 del: quad_nat.simps)
  assume b2: "bval b2 = 0"
  then have m0: "m mod 64 = 0" using n m_def by presburger
  have ok: "quad_nat 0 0 [sextet 18 n, sextet 12 n, sextet 6 n, CHR ''=''] 1 = Some m"
    using dg m0 lt [of 18] lt [of 12] lt [of 6] by (simp add: sx del: power_numeral)
  have np: "sextet 6 n \<noteq> CHR ''=''" "sextet 12 n \<noteq> CHR ''=''" "sextet 0 n \<noteq> CHR ''=''"
    using lt by (simp_all add: sx)
  show "decode_quad True [sextet 18 n, sextet 12 n, sextet 6 n, CHR ''=''] = Some [b0, b1]"
    unfolding decode_quad_nat using ok np by (simp add: byt b2 del: quad_nat.simps)
  assume b1: "bval b1 = 0"
  then have m6: "m div 2 ^ 6 mod 64 = 0" using n b2 m_def by simp
  have ok: "quad_nat 0 0 [sextet 18 n, sextet 12 n, CHR ''='', CHR ''=''] 2 = Some m"
    using dg m0 m6 lt [of 18] lt [of 12] by (simp add: sx del: power_numeral)
  have "m mod 65536 = 0" using n b1 b2 m_def by simp
  then show "decode_quad True [sextet 18 n, sextet 12 n, CHR ''='', CHR ''=''] = Some [b0]"
    unfolding decode_quad_nat using ok np by (simp add: byt numeral_2_eq_2 [symmetric] del: quad_nat.simps)
qed

lemma length_encode_base64: "length (encode_base64 bs) = 4 * ((length bs + 2) div 3)"
proof (induction bs rule: encode_base64.induct)
  case (4 b0 b1 b2 bs)
  have "(length (b0 # b1 # b2 # bs) + 2) div 3 = Suc ((length bs + 2) div 3)" by simp
  with 4 show ?case by (simp add: Let_def)
qed (simp_all add: Let_def)

lemma decode_quads_encode: "decode_quads (encode_base64 bs) = Some bs"
proof (induction bs rule: encode_base64.induct)
  case (2 b0)
  show ?case using decode_group(3) [OF unat_group24] by (simp add: Let_def)
next
  case (3 b0 b1)
  show ?case using decode_group(2) [OF unat_group24] by (simp add: Let_def)
next
  case (4 b0 b1 b2 bs)
  then show ?case using decode_group(1) [OF unat_group24] by (simp add: Let_def)
qed simp

lemma decode_encode_base64: "decode_base64 (encode_base64 bs) = Some bs"
  by (simp add: decode_base64_def length_encode_base64 decode_quads_encode)

subsection \<open>Encoding what was decoded\<close>

lemma quad_nat_Cons_Some:
  assumes "quad_nat n i (c # cs) p = Some m"
  obtains d where "d < 64" "i < 4 - p \<Longrightarrow> c = ALPHABET ! d" "4 - p \<le> i \<Longrightarrow> d = 0"
    "quad_nat (n * 64 + d) (Suc i) cs p = Some m"
  using assms position_Some [of c ALPHABET] by (fastforce split: if_splits option.splits)

lemma quad_nat_SomeE:
  assumes "quad_nat 0 0 [c0, c1, c2, c3] p = Some m" "p \<le> 2"
  obtains d0 d1 d2 d3 where "d0 < 64" "d1 < 64" "d2 < 64" "d3 < 64"
    "m = ((d0 * 64 + d1) * 64 + d2) * 64 + d3"
    "c0 = ALPHABET ! d0" "c1 = ALPHABET ! d1"
    "p < 2 \<Longrightarrow> c2 = ALPHABET ! d2" "p < 1 \<Longrightarrow> c3 = ALPHABET ! d3"
    "1 \<le> p \<Longrightarrow> d3 = 0" "2 \<le> p \<Longrightarrow> d2 = 0"
proof -
  obtain d0 where 0: "d0 < 64" "0 < 4 - p \<Longrightarrow> c0 = ALPHABET ! d0"
    "quad_nat (0 * 64 + d0) (Suc 0) [c1, c2, c3] p = Some m"
    using quad_nat_Cons_Some [OF assms(1)] by blast
  obtain d1 where 1: "d1 < 64" "Suc 0 < 4 - p \<Longrightarrow> c1 = ALPHABET ! d1"
    "quad_nat ((0 * 64 + d0) * 64 + d1) (Suc (Suc 0)) [c2, c3] p = Some m"
    using quad_nat_Cons_Some [OF 0(3)] by blast
  obtain d2 where 2: "d2 < 64" "Suc (Suc 0) < 4 - p \<Longrightarrow> c2 = ALPHABET ! d2" "4 - p \<le> Suc (Suc 0) \<Longrightarrow> d2 = 0"
    "quad_nat (((0 * 64 + d0) * 64 + d1) * 64 + d2) (Suc (Suc (Suc 0))) [c3] p = Some m"
    using quad_nat_Cons_Some [OF 1(3)] by blast
  obtain d3 where 3: "d3 < 64" "Suc (Suc (Suc 0)) < 4 - p \<Longrightarrow> c3 = ALPHABET ! d3"
    "4 - p \<le> Suc (Suc (Suc 0)) \<Longrightarrow> d3 = 0" "m = ((d0 * 64 + d1) * 64 + d2) * 64 + d3"
    by (rule quad_nat_Cons_Some [OF 2(4)]) simp
  show ?thesis
    by (rule that [of d0 d1 d2 d3]) (use 0 1 2 3 assms(2) in simp_all)
qed

lemma encode_group:
  assumes "m < 2 ^ 24" "bval b0 = m div 65536 mod 256" "bval b1 = m div 256 mod 256" "bval b2 = m mod 256"
  shows "unat (group24 b0 b1 b2) = m"
  unfolding unat_group24 assms(2-4) by (rule group_of_bytes [OF assms(1)])

lemma encode_decode_quad:
  assumes "decode_quad l [c0, c1, c2, c3] = Some out"
  shows "encode_base64 (out @ rest) = [c0, c1, c2, c3] @ encode_base64 rest \<or>
    (l \<and> encode_base64 out = [c0, c1, c2, c3])"
proof -
  define p where "p = length (takeWhile (\<lambda>c. c = CHR ''='') [c3, c2, c1, c0])"
  have pad: "1 \<le> p \<Longrightarrow> c3 = CHR ''=''" "2 \<le> p \<Longrightarrow> c2 = CHR ''=''"
    by (auto simp: p_def split: if_splits)
  from assms obtain m where p2: "p \<le> 2" and pl: "p > 0 \<Longrightarrow> l" and m: "quad_nat 0 0 [c0, c1, c2, c3] p = Some m"
    and tail: "p = 1 \<Longrightarrow> m mod 256 = 0" "p = 2 \<Longrightarrow> m mod 65536 = 0"
    and out: "out = [char_of (m div 65536 mod 256)]
                  @ (if p < 2 then [char_of (m div 256 mod 256)] else [])
                  @ (if p < 1 then [char_of (m mod 256)] else [])"
    unfolding decode_quad_nat p_def [symmetric] Let_def by (auto split: if_splits option.splits)
  obtain d0 d1 d2 d3 where d: "d0 < 64" "d1 < 64" "d2 < 64" "d3 < 64" "m = ((d0 * 64 + d1) * 64 + d2) * 64 + d3"
    and c: "c0 = ALPHABET ! d0" "c1 = ALPHABET ! d1" "p < 2 \<Longrightarrow> c2 = ALPHABET ! d2" "p < 1 \<Longrightarrow> c3 = ALPHABET ! d3"
    using quad_nat_SomeE [OF m p2] by metis
  note gd = group_of_digits [OF d]
  have sx: "sextet 18 n = c0" "sextet 12 n = c1" "p < 2 \<Longrightarrow> sextet 6 n = c2" "p < 1 \<Longrightarrow> sextet 0 n = c3"
    if "unat n = m" for n
    using that gd c by (simp_all add: sextet_eq)
  consider "p = 0" | "p = 1" | "p = 2" using p2 by linarith
  then show ?thesis
  proof cases
    case 1
    define n where "n = group24 (char_of (m div 65536 mod 256)) (char_of (m div 256 mod 256)) (char_of (m mod 256))"
    have "unat n = m" unfolding n_def by (rule encode_group [OF gd(5)]) (simp_all only: bval_char_of mod_less_divisor)
    with sx [of n] 1 show ?thesis by (simp add: out n_def Let_def)
  next
    case 2
    define n where "n = group24 (char_of (m div 65536 mod 256)) (char_of (m div 256 mod 256)) (char_of (0 :: nat))"
    have "unat n = m" unfolding n_def using 2 tail
      by (intro encode_group [OF gd(5)]) (simp_all only: bval_char_of mod_less_divisor)
    with sx [of n] 2 pad pl show ?thesis by (simp add: out n_def Let_def)
  next
    case 3
    define n where "n = group24 (char_of (m div 65536 mod 256)) (char_of (0 :: nat)) (char_of (0 :: nat))"
    from tail(2) [OF 3] obtain k where k: "m = 256 * (256 * k)" by auto
    have z: "m div 256 mod 256 = 0" "m mod 256 = 0" unfolding k by simp_all
    have b0: "bval (char_of (0 :: nat)) = (0 :: nat)" by simp
    have "unat n = m" unfolding n_def
      by (rule encode_group [OF gd(5)]) (simp_all only: bval_char_of mod_less_divisor z b0)
    with sx [of n] 3 pad pl show ?thesis by (simp add: out n_def Let_def)
  qed
qed

lemma encode_decode_quads:
  "decode_quads t = Some bs \<Longrightarrow> length t mod 4 = 0 \<Longrightarrow> encode_base64 bs = t"
proof (induction t arbitrary: bs rule: decode_quads.induct)
  case (1 c0 c1 c2 c3 cs)
  obtain out rest where o: "decode_quad (cs = []) [c0, c1, c2, c3] = Some out"
    and r: "decode_quads cs = Some rest" "bs = out @ rest"
    using "1.prems"(1) by (auto split: option.splits)
  have ih: "encode_base64 rest = cs"
    using "1.IH" [OF o r(1)] "1.prems"(2) by simp
  have last: "rest = []" if "cs = []" using r(1) that by simp
  from encode_decode_quad [OF o, of rest] show ?case
    unfolding r(2) ih using last by auto
qed simp_all

theorem decode_base64_iff: "decode_base64 t = Some bs \<longleftrightarrow> encode_base64 bs = t"
  using encode_decode_quads [of t bs] decode_encode_base64 [of bs]
  by (auto simp: decode_base64_def split: if_splits)

interpretation base64: strict_codec "\<lambda>_. True" encode_base64 decode_base64
  by unfold_locales (simp_all add: decode_base64_iff)

subsection \<open>Further facts\<close>

text \<open>
  The decoder accepts exactly the encoder's outputs: every byte string decodes back from its
  encoding, and no other text - other padding, stray bits, other lengths - decodes at all.
\<close>

theorem base64_is_strict: "decode_base64 t = Some bs \<longleftrightarrow> encode_base64 bs = t"
  using base64.dec_Some_iff by simp

end
