(* ===== verification/Digest.thy ===== *)
theory Digest
  imports Json_Roundtrip
begin

text \<open>
  Digest strings, \<open>digest.rs\<close>. The SHA-256 function comes from a crate that is not part of
  this repository, so it is an argument, \<open>sha\<close>, of every routine that hashes; what is
  relied on is only that it returns 32 bytes.
\<close>

type_synonym hasher = "string \<Rightarrow> string"

text \<open>\<open>{byte:02x}\<close>, for every byte of the hash.\<close>

definition hex_byte :: "char \<Rightarrow> string" where
  "hex_byte b = [hex_digit (bval b div 16), hex_digit (bval b mod 16)]"

definition sha256_hex :: "hasher \<Rightarrow> string \<Rightarrow> string" where
  "sha256_hex sha bs = concat (map hex_byte (sha bs))"

definition digest_bytes :: "hasher \<Rightarrow> string \<Rightarrow> string" where
  "digest_bytes sha bs = ''sha256:'' @ sha256_hex sha bs"

definition digest_canonical :: "hasher \<Rightarrow> jvalue \<Rightarrow> string" where
  "digest_canonical sha value = digest_bytes sha (to_canonical value)"

datatype algorithm = Sha256 | Sha512

fun hex_length :: "algorithm \<Rightarrow> nat" where
  "hex_length Sha256 = 64"
| "hex_length Sha512 = 128"

datatype digest_error = Malformed | UnsupportedAlgorithm string | WrongLength

definition valid_algorithm_name :: "string \<Rightarrow> bool" where
  "valid_algorithm_name name \<longleftrightarrow>
     name \<noteq> [] \<and>
     list_all (\<lambda>group. group \<noteq> [] \<and> list_all (\<lambda>b. is_ascii_lowercase b \<or> is_ascii_digit b) group)
       (split_on (\<lambda>c. c \<in> set ''+._-'') name)"

definition is_hex :: "char \<Rightarrow> bool" where
  "is_hex b \<longleftrightarrow> is_ascii_digit b \<or> (0x61 \<le> bval b \<and> bval b \<le> 0x66)"

definition named_algorithm :: "string \<Rightarrow> digest_error + algorithm" where
  "named_algorithm name =
     (if name = ''sha256'' then Inr Sha256
      else if name = ''sha512'' then Inr Sha512
      else Inl (UnsupportedAlgorithm name))"

definition parse_digest :: "string \<Rightarrow> digest_error + (algorithm \<times> string)" where
  "parse_digest text =
     rbind (ok_or (split_once CHR '':'' text) Malformed) (\<lambda>(algorithm, encoded).
     if \<not> valid_algorithm_name algorithm then Inl Malformed
     else if encoded = [] \<or> \<not> list_all is_hex encoded then Inl Malformed
     else rbind (named_algorithm algorithm) (\<lambda>named.
       if length encoded \<noteq> hex_length named then Inl WrongLength
       else Inr (named, encoded)))"

subsection \<open>What is accepted\<close>

fun algorithm_name :: "algorithm \<Rightarrow> string" where
  "algorithm_name Sha256 = ''sha256''"
| "algorithm_name Sha512 = ''sha512''"

lemma algorithm_name_simps [simp]:
  "valid_algorithm_name (algorithm_name a)" "named_algorithm (algorithm_name a) = Inr a"
  "CHR '':'' \<notin> set (algorithm_name a)"
  by (cases a; simp add: valid_algorithm_name_def ascii_defs named_algorithm_def)+

lemma named_algorithm_Inr: "named_algorithm name = Inr a \<longleftrightarrow> name = algorithm_name a"
  by (cases a) (auto simp: named_algorithm_def)

lemma hex_length_pos [simp]: "0 < hex_length a" "hex_length a \<noteq> 0"
  by (cases a; simp)+

lemma parse_digest_Inr_iff:
  "parse_digest text = Inr (a, encoded) \<longleftrightarrow>
     text = algorithm_name a @ '':'' @ encoded \<and> list_all is_hex encoded \<and> length encoded = hex_length a"
proof -
  have "parse_digest (algorithm_name a @ CHR '':'' # encoded) =
      (if encoded = [] \<or> \<not> list_all is_hex encoded then Inl Malformed
       else if length encoded \<noteq> hex_length a then Inl WrongLength else Inr (a, encoded))"
  proof -
    have "split_once CHR '':'' (algorithm_name a @ CHR '':'' # encoded) = Some (algorithm_name a, encoded)"
      by (simp add: split_once_Some_iff)
    then show ?thesis by (simp add: parse_digest_def)
  qed
  moreover have "text = algorithm_name a @ CHR '':'' # encoded" if "parse_digest text = Inr (a, encoded)"
    using that by (auto simp: parse_digest_def result_simps split_once_Some_iff named_algorithm_Inr split: if_splits)
  ultimately show ?thesis by (auto split: if_splits)
qed

lemma is_hex_digit: "n < 16 \<Longrightarrow> is_hex (hex_digit n)"
  by (auto simp: is_hex_def hex_digit_def is_ascii_digit_def)

lemma sha256_hex_hex: "list_all is_hex (sha256_hex sha bs)"
proof -
  have "list_all is_hex (hex_byte b)" for b
    by (simp add: hex_byte_def is_hex_digit less_mult_imp_div_less)
  then show ?thesis by (simp add: sha256_hex_def list_all_iff)
qed

lemma length_sha256_hex: "length (sha256_hex sha bs) = 2 * length (sha bs)"
proof -
  have "length (concat (map hex_byte xs)) = 2 * length xs" for xs
    by (induction xs) (simp_all add: hex_byte_def)
  then show ?thesis by (simp add: sha256_hex_def)
qed

lemma parse_digest_bytes:
  "length (sha bs) = 32 \<Longrightarrow> parse_digest (digest_bytes sha bs) = Inr (Sha256, sha256_hex sha bs)"
  by (simp add: parse_digest_Inr_iff digest_bytes_def sha256_hex_hex length_sha256_hex)

lemma hex_digit_inj: "m < 16 \<Longrightarrow> n < 16 \<Longrightarrow> hex_digit m = hex_digit n \<Longrightarrow> m = n"
  by (metis hex_value_digit option.inject)

lemma hex_byte_inj: "hex_byte a = hex_byte b \<Longrightarrow> a = b"
proof -
  assume "hex_byte a = hex_byte b"
  then have "bval a div 16 = (bval b div 16 :: nat)" "bval a mod 16 = (bval b mod 16 :: nat)"
    by (auto simp: hex_byte_def less_mult_imp_div_less intro!: hex_digit_inj)
  then have "bval a = (bval b :: nat)" by (metis div_mult_mod_eq)
  then show ?thesis by simp
qed

lemma digest_bytes_eq_iff: "digest_bytes sha a = digest_bytes sha b \<longleftrightarrow> sha a = sha b"
proof -
  have "concat (map hex_byte xs) = concat (map hex_byte ys) \<longleftrightarrow> xs = ys" for xs ys
  proof (induction xs arbitrary: ys)
    case Nil
    then show ?case by (cases ys) (simp_all add: hex_byte_def)
  next
    case (Cons x xs)
    then show ?case using hex_byte_inj [of x]
      by (cases ys) (auto simp: hex_byte_def)
  qed
  then show ?thesis by (simp add: digest_bytes_def sha256_hex_def)
qed

text \<open>An algorithm this build does not know is named in the error, and never passes.\<close>

lemma parse_digest_unsupported:
  "parse_digest text = Inl (UnsupportedAlgorithm name) \<longleftrightarrow>
     (\<exists>encoded. text = name @ '':'' @ encoded \<and> valid_algorithm_name name \<and> encoded \<noteq> [] \<and>
        list_all is_hex encoded \<and> name \<noteq> ''sha256'' \<and> name \<noteq> ''sha512'')"
proof -
  have colon: "CHR '':'' \<notin> set name" if "valid_algorithm_name name"
  proof
    assume "CHR '':'' \<in> set name"
    then obtain part where "part \<in> set (split_on (\<lambda>c. c \<in> set ''+._-'') name)" "CHR '':'' \<in> set part"
      using split_on_covers [of "CHR '':''" name "\<lambda>c. c \<in> set ''+._-''"] by auto
    with that have "is_ascii_lowercase CHR '':'' \<or> is_ascii_digit CHR '':''"
      by (auto simp: valid_algorithm_name_def list_all_iff)
    then show False by (simp add: ascii_defs)
  qed
  show ?thesis (is "?l = ?r")
  proof
    assume ?l
    then obtain alg encoded where so: "split_once CHR '':'' text = Some (alg, encoded)"
      and v: "valid_algorithm_name alg" "encoded \<noteq> []" "list_all is_hex encoded"
      and n: "named_algorithm alg = Inl (UnsupportedAlgorithm name)"
      by (auto simp: parse_digest_def result_simps split: if_splits)
    from n have "alg = name" "name \<noteq> ''sha256''" "name \<noteq> ''sha512''"
      unfolding named_algorithm_def by (metis digest_error.inject sum.inject(1) sum.distinct(1))+
    with so v show ?r by (auto simp: split_once_Some_iff)
  next
    assume ?r
    then obtain encoded where t: "text = name @ CHR '':'' # encoded" and v: "valid_algorithm_name name"
      "encoded \<noteq> []" "list_all is_hex encoded" "name \<noteq> ''sha256''" "name \<noteq> ''sha512''" by auto
    have "split_once CHR '':'' text = Some (name, encoded)" using colon v t by (simp add: split_once_Some_iff)
    then show ?l using v by (simp add: parse_digest_def named_algorithm_def)
  qed
qed

subsection \<open>Further facts\<close>

text \<open>
  parse_digest accepts exactly an algorithm this build supports, a colon, and lowercase hex of
  that algorithm's length; a well-formed digest of another algorithm is reported as unsupported
  and never passes.
\<close>

theorem digest_grammar:
  "(parse_digest t = Inr (a, encoded) \<longleftrightarrow>
     t = algorithm_name a @ '':'' @ encoded \<and> list_all is_hex encoded \<and> length encoded = hex_length a) \<and>
   (parse_digest t = Inl (UnsupportedAlgorithm name) \<longleftrightarrow>
     (\<exists>rest. t = name @ '':'' @ rest \<and> valid_algorithm_name name \<and> rest \<noteq> [] \<and>
        list_all is_hex rest \<and> name \<noteq> ''sha256'' \<and> name \<noteq> ''sha512''))"
  by (intro conjI parse_digest_Inr_iff parse_digest_unsupported)

end
