(* ===== verification/Intent.thy ===== *)
theory Intent
  imports Digest
begin

text \<open>
  Command intent and its digest, \<open>intent.rs\<close> (CORE section 6.1): the part of an envelope that
  decides whether a retransmission is the same command. The lemmas say which members it is a
  function of, exactly which envelopes have one, and that neither the order of members on the
  wire nor anything optional changes the digest.
\<close>

definition INTENT_MEMBERS :: "string list" where
  "INTENT_MEMBERS = [''operation'', ''subject'', ''preconditions'', ''requires'', ''payload'']"

datatype intent_error =
    NotAnObject
  | MissingMember string
  | MalformedRequires
  | MalformedExtensions
  | RequiredExtensionMissing string
  | DuplicateRequires string

definition is_extension_key :: "string \<Rightarrow> bool" where
  "is_extension_key entry \<longleftrightarrow> CHR ''/'' \<in> set entry"

fun intent_members :: "jvalue \<Rightarrow> string list \<Rightarrow> intent_error + (string \<times> jvalue) list" where
  "intent_members envelope [] = Inr []"
| "intent_members envelope (name # names) =
     rbind (ok_or (get envelope name) (MissingMember name)) (\<lambda>member.
     rbind (intent_members envelope names) (\<lambda>intent. Inr ((name, member) # intent)))"

fun required_keys :: "jvalue list \<Rightarrow> intent_error + string list" where
  "required_keys [] = Inr []"
| "required_keys (item # items) =
     rbind (ok_or (as_str item) MalformedRequires) (\<lambda>key.
     rbind (required_keys items) (\<lambda>ks. Inr (key # ks)))"

fun included_extensions ::
    "(string \<times> jvalue) list \<Rightarrow> string list \<Rightarrow> string list \<Rightarrow> intent_error + (string \<times> jvalue) list" where
  "included_extensions declared seen [] = Inr []"
| "included_extensions declared seen (key # required) =
     (if key \<in> set seen then Inl (DuplicateRequires key)
      else if \<not> is_extension_key key then included_extensions declared (seen @ [key]) required
      else (case map_of declared key of
              None \<Rightarrow> Inl (RequiredExtensionMissing key)
            | Some v \<Rightarrow>
                rbind (included_extensions declared (seen @ [key]) required) (\<lambda>included.
                Inr ((key, v) # included))))"

definition declared_extensions :: "jvalue \<Rightarrow> intent_error + (string \<times> jvalue) list" where
  "declared_extensions envelope =
     (case get envelope ''extensions'' of
        None \<Rightarrow> Inr []
      | Some (Object members) \<Rightarrow> Inr members
      | Some _ \<Rightarrow> Inl MalformedExtensions)"

definition required_entries :: "jvalue \<Rightarrow> intent_error + string list" where
  "required_entries envelope =
     (case get envelope ''requires'' of
        Some (Array items) \<Rightarrow> required_keys items
      | _ \<Rightarrow> Inl MalformedRequires)"

definition command_intent :: "jvalue \<Rightarrow> intent_error + jvalue" where
  "command_intent envelope =
     (if \<not> is_object envelope then Inl NotAnObject
      else rbind (intent_members envelope INTENT_MEMBERS) (\<lambda>intent.
        rbind (required_entries envelope) (\<lambda>required.
        rbind (declared_extensions envelope) (\<lambda>declared.
        rbind (included_extensions declared [] required) (\<lambda>included.
        Inr (Object (intent @ [(''extensions'', Object included)])))))))"

definition command_digest :: "hasher \<Rightarrow> jvalue \<Rightarrow> intent_error + string" where
  "command_digest sha envelope =
     rbind (command_intent envelope) (\<lambda>intent. Inr (digest_canonical sha intent))"

subsection \<open>Exactly which envelopes have an intent\<close>

lemma intent_members_Inr:
  "intent_members e names = Inr ms \<longleftrightarrow>
     (\<forall>n \<in> set names. get e n \<noteq> None) \<and> ms = map (\<lambda>n. (n, the (get e n))) names"
  by (induction names arbitrary: ms) (auto simp: result_simps)

lemma required_keys_Inr: "required_keys items = Inr ks \<longleftrightarrow> items = map String ks"
proof (induction items arbitrary: ks)
  case (Cons v items)
  then show ?case by (cases v) (auto simp: result_simps)
qed auto

lemma included_extensions_Inr:
  "included_extensions declared seen required = Inr xs \<longleftrightarrow>
     distinct required \<and> set required \<inter> set seen = {} \<and>
     (\<forall>k \<in> set required. is_extension_key k \<longrightarrow> k \<in> dom (map_of declared)) \<and>
     xs = map (\<lambda>k. (k, the (map_of declared k))) (filter is_extension_key required)"
proof (induction required arbitrary: seen xs)
  case (Cons k ks)
  show ?case
    using Cons [of "seen @ [k]"] by (auto simp: result_simps split: option.splits)
qed auto

lemma declared_extensions_Inr:
  "declared_extensions e = Inr ms \<longleftrightarrow>
     get e ''extensions'' = Some (Object ms) \<or> (get e ''extensions'' = None \<and> ms = [])"
  by (auto simp: declared_extensions_def split: option.splits jvalue.splits)

lemma required_entries_Inr:
  "required_entries e = Inr ks \<longleftrightarrow> get e ''requires'' = Some (Array (map String ks))"
  by (auto simp: required_entries_def required_keys_Inr split: option.splits jvalue.splits)

lemma command_intent_Inr:
  "command_intent e = Inr i \<longleftrightarrow>
     (\<exists>required declared.
        is_object e \<and> (\<forall>n \<in> set INTENT_MEMBERS. get e n \<noteq> None) \<and>
        get e ''requires'' = Some (Array (map String required)) \<and> distinct required \<and>
        (get e ''extensions'' = Some (Object declared) \<or> (get e ''extensions'' = None \<and> declared = [])) \<and>
        (\<forall>k \<in> set required. is_extension_key k \<longrightarrow> k \<in> dom (map_of declared)) \<and>
        i = Object (map (\<lambda>n. (n, the (get e n))) INTENT_MEMBERS @
          [(''extensions'', Object (map (\<lambda>k. (k, the (map_of declared k))) (filter is_extension_key required)))]))"
  unfolding command_intent_def
  by (auto simp: result_simps intent_members_Inr included_extensions_Inr declared_extensions_Inr
      required_entries_Inr)

subsection \<open>What the intent is a function of\<close>

lemma intent_members_cong:
  "(\<And>n. n \<in> set names \<Longrightarrow> get e n = get e' n) \<Longrightarrow> intent_members e names = intent_members e' names"
  by (induction names) auto

lemma included_extensions_cong:
  "(\<And>k. k \<in> set required \<Longrightarrow> is_extension_key k \<Longrightarrow> map_of declared k = map_of declared' k) \<Longrightarrow>
   included_extensions declared seen required = included_extensions declared' seen required"
  by (induction required arbitrary: seen) (auto split: option.splits)

definition same_command :: "jvalue \<Rightarrow> jvalue \<Rightarrow> bool" where
  "same_command e e' \<longleftrightarrow>
     is_object e \<and> is_object e' \<and> (\<forall>n \<in> set INTENT_MEMBERS. get e n = get e' n) \<and>
     (\<exists>ms ms'. declared_extensions e = Inr ms \<and> declared_extensions e' = Inr ms' \<and>
        (\<forall>k. String k \<in> set (the (as_array (the (get e ''requires'')))) \<longrightarrow>
           is_extension_key k \<longrightarrow> map_of ms k = map_of ms' k))"

lemma command_intent_same:
  assumes "same_command e e'"
  shows "command_intent e = command_intent e'"
proof -
  from assms obtain ms ms' where o: "is_object e" "is_object e'"
    and g: "\<And>n. n \<in> set INTENT_MEMBERS \<Longrightarrow> get e n = get e' n"
    and d: "declared_extensions e = Inr ms" "declared_extensions e' = Inr ms'"
    and x: "\<And>k. String k \<in> set (the (as_array (the (get e ''requires'')))) \<Longrightarrow>
           is_extension_key k \<Longrightarrow> map_of ms k = map_of ms' k"
    unfolding same_command_def by blast
  have m: "intent_members e INTENT_MEMBERS = intent_members e' INTENT_MEMBERS"
    using g by (rule intent_members_cong)
  have "get e ''requires'' = get e' ''requires''" using g by (simp add: INTENT_MEMBERS_def)
  then have r: "required_entries e = required_entries e'" by (simp add: required_entries_def)
  have i: "included_extensions ms [] ks = included_extensions ms' [] ks" if "required_entries e = Inr ks" for ks
  proof (rule included_extensions_cong)
    fix k assume k: "k \<in> set ks" "is_extension_key k"
    from that have "get e ''requires'' = Some (Array (map String ks))" by (simp add: required_entries_Inr)
    with k show "map_of ms k = map_of ms' k" by (intro x) simp_all
  qed
  show ?thesis
  proof (cases "required_entries e")
    case (Inl a)
    then show ?thesis unfolding command_intent_def m r [symmetric] using o by simp
  next
    case (Inr ks)
    then show ?thesis using i [OF Inr] unfolding command_intent_def m r [symmetric] d using o by simp
  qed
qed

subsection \<open>Member order on the wire\<close>

abbreviation sorted_values :: "(string \<times> jvalue) list \<Rightarrow> (string \<times> jvalue) list" where
  "sorted_values \<equiv> map (\<lambda>(n, v). (n, sorted_members v))"

lemma map_of_sorted_values: "map_of (sorted_values ms) k = map_option sorted_members (map_of ms k)"
  by (induction ms) auto

lemma map_of_order_members:
  "distinct (map fst ms) \<Longrightarrow> map_of (order_members ms) k = map_of ms k"
  by (metis distinct_order_members map_of_eqI map_of_is_SomeI map_of_SomeD not_Some_eq set_order_members
      option.exhaust)

lemma map_of_order_sorted:
  "distinct (map fst ms) \<Longrightarrow> map_of (order_members (sorted_values ms)) k = map_option sorted_members (map_of ms k)"
proof -
  assume "distinct (map fst ms)"
  moreover have "map fst (sorted_values ms) = map fst ms" by (induction ms) auto
  ultimately show ?thesis by (simp only: map_of_order_members map_of_sorted_values)
qed

lemma order_members_idem: "order_members (order_members ms) = order_members ms"
  unfolding order_members_def by (rule sort_key_id_if_sorted) simp

lemma get_sorted_members:
  "in_domain e \<Longrightarrow> get (sorted_members e) n = map_option sorted_members (get e n)"
  by (cases e) (simp_all add: map_of_order_sorted)

lemma sorted_members_idem: "sorted_members (sorted_members v) = sorted_members v"
proof (induction v rule: sorted_members.induct)
  case (2 ms)
  have "sorted_values (sorted_values (order_members ms)) = sorted_values (order_members ms)" using 2 by force
  then show ?case by (simp only: sorted_members.simps order_members_map order_members_idem)
qed (auto simp: comp_def)

lemma sorted_values_idem: "sorted_values (sorted_values ms) = sorted_values ms"
  by (induction ms) (auto simp: sorted_members_idem)

lemma sorted_members_Object_values: "sorted_members (Object (sorted_values ms)) = sorted_members (Object ms)"
  by (simp only: sorted_members.simps sorted_values_idem)

lemma as_str_sorted [simp]: "as_str (sorted_members v) = as_str v"
  by (cases v) simp_all

lemma is_object_sorted [simp]: "is_object (sorted_members v) = is_object v"
  by (cases v) simp_all

lemma intent_members_sorted:
  "in_domain e \<Longrightarrow>
   intent_members (sorted_members e) names = map_sum id sorted_values (intent_members e names)"
proof (induction names)
  case (Cons n names)
  then show ?case by (cases "get e n"; cases "intent_members e names") (simp_all add: get_sorted_members)
qed simp

lemma required_keys_sorted: "required_keys (map sorted_members items) = required_keys items"
  by (induction items) simp_all

lemma required_entries_sorted: "in_domain e \<Longrightarrow> required_entries (sorted_members e) = required_entries e"
  by (simp add: required_entries_def get_sorted_members required_keys_sorted split: option.split jvalue.split)

lemma declared_extensions_sorted:
  "in_domain e \<Longrightarrow>
   declared_extensions (sorted_members e) = map_sum id (\<lambda>ms. order_members (sorted_values ms)) (declared_extensions e)"
  by (auto simp: declared_extensions_def get_sorted_members order_members_def split: option.split jvalue.split)

lemma included_extensions_sorted:
  "distinct (map fst declared) \<Longrightarrow>
   included_extensions (order_members (sorted_values declared)) seen required =
     map_sum id sorted_values (included_extensions declared seen required)"
proof (induction required arbitrary: seen)
  case (Cons k ks)
  from Cons.IH [OF Cons.prems, of "seen @ [k]"] Cons.prems show ?case
    by (cases "included_extensions declared (seen @ [k]) ks")
      (auto simp: map_of_order_sorted split: option.split)
qed simp

lemma command_digest_sorted:
  assumes "in_domain e"
  shows "command_digest sha (sorted_members e) = command_digest sha e"
proof -
  consider a where "declared_extensions e = Inl a" | ms where "declared_extensions e = Inr ms" "distinct (map fst ms)"
  proof (cases "declared_extensions e")
    case (Inr ms)
    then show ?thesis using assms in_domain_get [OF assms, of "''extensions''" "Object ms"] that
      by (auto simp: declared_extensions_Inr)
  qed (use that in auto)
  then show ?thesis
  proof cases
    case 1
    then show ?thesis using assms
      by (cases "intent_members e INTENT_MEMBERS"; cases "required_entries e")
        (simp_all add: command_digest_def command_intent_def intent_members_sorted required_entries_sorted
          declared_extensions_sorted)
  next
    case (2 ms)
    show ?thesis
    proof (cases "intent_members e INTENT_MEMBERS")
      case (Inl a)
      then show ?thesis using assms
        by (simp add: command_digest_def command_intent_def intent_members_sorted)
    next
      case i: (Inr intent)
      have digest: "digest_canonical sha (Object (sorted_values intent @ [(''extensions'', Object (sorted_values inc))]))
          = digest_canonical sha (Object (intent @ [(''extensions'', Object inc)]))" for inc
      proof -
        have "sorted_members (Object (sorted_values intent @ [(''extensions'', Object (sorted_values inc))]))
            = sorted_members (Object (intent @ [(''extensions'', Object inc)]))"
          using sorted_values_idem [of intent] sorted_members_Object_values [of inc]
          by (simp only: sorted_members.simps map_append list.map prod.case)
        then show ?thesis by (metis canonical_sorted_members digest_canonical_def)
      qed
      show ?thesis
      proof (cases "required_entries e")
        case (Inl a)
        then show ?thesis using assms i
          by (simp add: command_digest_def command_intent_def intent_members_sorted required_entries_sorted)
      next
        case (Inr ks)
        then show ?thesis using assms i 2 digest
          by (cases "included_extensions ms [] ks")
            (simp_all add: command_digest_def command_intent_def intent_members_sorted required_entries_sorted
              declared_extensions_sorted included_extensions_sorted)
      qed
    qed
  qed
qed

definition example_command :: "(string \<times> jvalue) list \<Rightarrow> jvalue" where
  "example_command extra =
     Object ([(''operation'', Null), (''subject'', Null), (''preconditions'', Null), (''requires'', Array []),
       (''payload'', Null)] @ extra)"

subsection \<open>Properties\<close>


text \<open>
  C22. The command digest depends on the values alone: two envelopes with the same canonical bytes
  have the same digest, and so do two that agree on the intent members and on the extensions they
  require, whatever optional extensions they carry.
\<close>

theorem digest_ignores_representation:
  assumes "(in_domain e \<and> in_domain e' \<and> to_canonical e = to_canonical e') \<or> same_command e e'"
  shows "command_digest sha e = command_digest sha e'"
  using assms
proof
  assume "in_domain e \<and> in_domain e' \<and> to_canonical e = to_canonical e'"
  then show ?thesis using canonical_eq_iff command_digest_sorted by metis
qed (simp add: command_digest_def command_intent_same)

lemma digest_ignores_representation_witness:
  "command_digest (\<lambda>_. []) (example_command []) =
   command_digest (\<lambda>_. []) (example_command [(''extensions'', Object [(''x/y'', Integer 1)])])"
  by (rule digest_ignores_representation)
    (simp add: same_command_def example_command_def INTENT_MEMBERS_def declared_extensions_def)

end
