(* ===== verification/Errors.thy ===== *)
theory Errors
  imports Canonical
begin

text \<open>
  Core error codes, \<open>errors.rs\<close>: a symbolic code, its retry class and its details, and the one
  JSON object every error becomes on the wire. The constructors are the source's associated
  functions, by name.
\<close>

datatype retry = No | SameCommand | AfterReconcile | AfterRenegotiate

fun retry_wire :: "retry \<Rightarrow> string" where
  "retry_wire No = ''no''"
| "retry_wire SameCommand = ''same_command''"
| "retry_wire AfterReconcile = ''after_reconcile''"
| "retry_wire AfterRenegotiate = ''after_renegotiate''"

definition PARSE_ERROR :: int where "PARSE_ERROR = - 32700"
definition INVALID_REQUEST :: int where "INVALID_REQUEST = - 32600"
definition METHOD_NOT_FOUND :: int where "METHOD_NOT_FOUND = - 32601"
definition FRAME_TOO_LARGE :: int where "FRAME_TOO_LARGE = - 32010"
definition DOMAIN :: int where "DOMAIN = 1"

record protocol_error =
  pe_code :: string
  pe_retry :: retry
  pe_details :: "(string \<times> jvalue) list"

definition new_error :: "string \<Rightarrow> retry \<Rightarrow> protocol_error" where
  "new_error code retry = \<lparr>pe_code = code, pe_retry = retry, pe_details = []\<rparr>"

definition with_detail :: "string \<Rightarrow> jvalue \<Rightarrow> protocol_error \<Rightarrow> protocol_error" where
  "with_detail name v e = e\<lparr>pe_details := pe_details e @ [(name, v)]\<rparr>"

definition invalid_envelope :: "string \<Rightarrow> string \<Rightarrow> protocol_error" where
  "invalid_envelope path reason =
     with_detail ''reason'' (String reason)
       (with_detail ''path'' (String path) (new_error ''invalid_envelope'' No))"

definition method_not_found :: "string \<Rightarrow> protocol_error" where
  "method_not_found operation =
     with_detail ''operation'' (String operation) (new_error ''method_not_found'' No)"

definition negotiation_required :: protocol_error where
  "negotiation_required = new_error ''negotiation_required'' AfterRenegotiate"

definition already_negotiated :: protocol_error where
  "already_negotiated = new_error ''already_negotiated'' No"

definition profile_not_negotiated :: "string \<Rightarrow> protocol_error" where
  "profile_not_negotiated profile =
     with_detail ''profile'' (String profile) (new_error ''profile_not_negotiated'' AfterRenegotiate)"

definition unsupported_profile :: "jvalue \<Rightarrow> protocol_error" where
  "unsupported_profile unsatisfied =
     with_detail ''unsatisfied'' unsatisfied (new_error ''unsupported_profile'' No)"

definition unsupported_version :: "jvalue \<Rightarrow> protocol_error" where
  "unsupported_version unsatisfied =
     with_detail ''unsatisfied'' unsatisfied (new_error ''unsupported_version'' No)"

definition unsupported_required_feature_negotiation :: "jvalue \<Rightarrow> protocol_error" where
  "unsupported_required_feature_negotiation unsatisfied =
     with_detail ''unsatisfied'' unsatisfied (new_error ''unsupported_required_feature'' No)"

definition unsupported_required_feature_message :: "jvalue \<Rightarrow> protocol_error" where
  "unsupported_required_feature_message features =
     with_detail ''features'' features (new_error ''unsupported_required_feature'' No)"

definition limit_exceeded :: "string \<Rightarrow> int \<Rightarrow> protocol_error" where
  "limit_exceeded limit maximum =
     with_detail ''maximum'' (Integer maximum)
       (with_detail ''limit'' (String limit) (new_error ''limit_exceeded'' No))"

definition unsupported_digest_algorithm :: "string \<Rightarrow> string list \<Rightarrow> protocol_error" where
  "unsupported_digest_algorithm algorithm supported =
     with_detail ''supported'' (Array (map String supported))
       (with_detail ''algorithm'' (String algorithm) (new_error ''unsupported_digest_algorithm'' No))"

definition digest_mismatch :: "string \<Rightarrow> protocol_error" where
  "digest_mismatch expected =
     with_detail ''expected'' (String expected) (new_error ''digest_mismatch'' No)"

definition idempotency_conflict :: "string \<Rightarrow> protocol_error" where
  "idempotency_conflict command_id =
     with_detail ''command_id'' (String command_id) (new_error ''idempotency_conflict'' No)"

definition dedupe_history_unavailable :: "int \<Rightarrow> protocol_error" where
  "dedupe_history_unavailable oldest_retained =
     with_detail ''oldest_retained'' (Integer oldest_retained)
       (new_error ''dedupe_history_unavailable'' AfterReconcile)"

definition precondition_failed :: "jvalue \<Rightarrow> protocol_error" where
  "precondition_failed failed =
     with_detail ''failed'' failed (new_error ''precondition_failed'' AfterReconcile)"

definition already_authenticated :: protocol_error where
  "already_authenticated = new_error ''already_authenticated'' No"

definition unavailable :: protocol_error where
  "unavailable = new_error ''unavailable'' SameCommand"

definition capability_unavailable :: "string \<Rightarrow> string \<Rightarrow> protocol_error" where
  "capability_unavailable capability status =
     with_detail ''status'' (String status)
       (with_detail ''capability'' (String capability)
         (new_error ''capability_unavailable'' AfterReconcile))"

definition authentication_required :: protocol_error where
  "authentication_required = new_error ''authentication_required'' No"

definition authentication_failed :: protocol_error where
  "authentication_failed = new_error ''authentication_failed'' No"

definition not_found :: protocol_error where
  "not_found = new_error ''not_found'' No"

definition permission_denied :: "string \<Rightarrow> protocol_error" where
  "permission_denied reason =
     with_detail ''reason'' (String reason) (new_error ''permission_denied'' No)"

definition jsonrpc_code :: "protocol_error \<Rightarrow> int" where
  "jsonrpc_code e = (if pe_code e = ''method_not_found'' then METHOD_NOT_FOUND else DOMAIN)"

definition to_data :: "protocol_error \<Rightarrow> jvalue" where
  "to_data e = Object [(''code'', String (pe_code e)), (''retry'', String (retry_wire (pe_retry e))),
     (''details'', Object (pe_details e))]"

definition to_error_object :: "protocol_error \<Rightarrow> string \<Rightarrow> jvalue" where
  "to_error_object e message =
     Object [(''code'', Integer (jsonrpc_code e)), (''message'', String message), (''data'', to_data e)]"

datatype frame_failure = FrameTooLarge | FrameInvalidUtf8 | FrameParseError

fun failure_code :: "frame_failure \<Rightarrow> string" where
  "failure_code FrameTooLarge = ''frame_too_large''"
| "failure_code FrameInvalidUtf8 = ''invalid_utf8''"
| "failure_code FrameParseError = ''parse_error''"

fun failure_jsonrpc_code :: "frame_failure \<Rightarrow> int" where
  "failure_jsonrpc_code FrameTooLarge = FRAME_TOO_LARGE"
| "failure_jsonrpc_code FrameInvalidUtf8 = PARSE_ERROR"
| "failure_jsonrpc_code FrameParseError = PARSE_ERROR"

lemma retry_wire_inj: "inj retry_wire"
proof (rule injI)
  fix a b assume "retry_wire a = retry_wire b"
  then show "a = b" by (cases a; cases b) simp_all
qed

lemma invalid_envelope_code [simp]:
  "pe_code (invalid_envelope path reason) = ''invalid_envelope''"
  "pe_details (invalid_envelope path reason) = [(''path'', String path), (''reason'', String reason)]"
  by (simp_all add: invalid_envelope_def with_detail_def new_error_def)

lemma invalid_envelope_inject [simp]:
  "invalid_envelope p r = invalid_envelope p' r' \<longleftrightarrow> p = p' \<and> r = r'"
  by (auto simp: invalid_envelope_def with_detail_def new_error_def)

lemma limit_exceeded_inject [simp]: "limit_exceeded l m = limit_exceeded l' m' \<longleftrightarrow> l = l' \<and> m = m'"
  by (auto simp: limit_exceeded_def with_detail_def new_error_def)

text \<open>A caller can read the error back from the object it is given.\<close>

lemma to_data_inj: "to_data e = to_data e' \<longleftrightarrow> e = e'"
  using injD [OF retry_wire_inj] by (auto simp: to_data_def intro: protocol_error.equality)

end
