(* ===== verification/Jsonrpc.thy ===== *)
theory Jsonrpc
  imports Errors
begin

text \<open>
  The JSON-RPC mapping, \<open>jsonrpc.rs\<close>: what a well-formed frame is, and the responses written
  back. \<open>classify\<close> decides between a request, an ignored notification and an invalid request;
  the lemmas say exactly which frames are which, and that only a usable id is ever echoed.
\<close>

datatype incoming =
    Request jvalue string jvalue
  | Notification
  | Invalid jvalue

fun valid_id :: "jvalue \<Rightarrow> bool" where
  "valid_id (String text) = (1 \<le> length (chars text) \<and> length (chars text) \<le> 128)"
| "valid_id (Integer _) = True"
| "valid_id _ = False"

definition KNOWN :: "string list" where
  "KNOWN = [''jsonrpc'', ''id'', ''method'', ''params'']"

definition classify :: "jvalue \<Rightarrow> incoming" where
  "classify frame =
     (case frame of
        Object members \<Rightarrow>
          (let has_unknown = list_ex (\<lambda>(name, _). name \<notin> set KNOWN) members;
               jsonrpc_ok = (case get frame ''jsonrpc'' of Some (String v) \<Rightarrow> v = ''2.0'' | _ \<Rightarrow> False);
               method_name = (case get frame ''method'' of Some (String name) \<Rightarrow> Some name | _ \<Rightarrow> None)
           in (case get frame ''id'' of
                 None \<Rightarrow>
                   if jsonrpc_ok \<and> method_name \<noteq> None \<and> \<not> has_unknown then Notification
                   else Invalid Null
               | Some rid \<Rightarrow>
                   if \<not> valid_id rid then Invalid Null
                   else (case get frame ''params'' of
                           Some params \<Rightarrow>
                             (case method_name of
                                Some name \<Rightarrow>
                                  if jsonrpc_ok \<and> is_object params \<and> \<not> has_unknown
                                  then Request rid name params else Invalid rid
                              | None \<Rightarrow> Invalid rid)
                         | None \<Rightarrow> Invalid rid)))
      | _ \<Rightarrow> Invalid Null)"

definition invalid_request_error :: jvalue where
  "invalid_request_error =
     Object [(''code'', Integer INVALID_REQUEST), (''message'', String ''invalid_request''),
       (''data'', Object [(''code'', String ''invalid_request''), (''retry'', String ''no''),
          (''details'', Object [])])]"

definition response :: "jvalue \<Rightarrow> jvalue \<Rightarrow> jvalue" where
  "response rid result = Object [(''jsonrpc'', String ''2.0''), (''id'', rid), (''result'', result)]"

definition error_response :: "jvalue \<Rightarrow> jvalue \<Rightarrow> jvalue" where
  "error_response rid error = Object [(''jsonrpc'', String ''2.0''), (''id'', rid), (''error'', error)]"

definition closed_envelope :: "jvalue \<Rightarrow> bool" where
  "closed_envelope frame \<longleftrightarrow> set (keys frame) \<subseteq> set KNOWN"

lemma no_unknown_iff: "list_ex (\<lambda>(name, _). name \<notin> set KNOWN) ms \<longleftrightarrow> \<not> closed_envelope (Object ms)"
  by (induction ms) (auto simp: closed_envelope_def)

lemma classify_Request_iff:
  "classify frame = Request rid name params \<longleftrightarrow>
     closed_envelope frame \<and> get frame ''jsonrpc'' = Some (String ''2.0'') \<and> get frame ''id'' = Some rid \<and>
     valid_id rid \<and> get frame ''method'' = Some (String name) \<and> get frame ''params'' = Some params \<and>
     is_object params"
proof (cases frame)
  case (Object ms)
  show ?thesis unfolding classify_def Object Let_def jvalue.case no_unknown_iff
    by (cases "get frame ''id''"; cases "get frame ''params''")
      (auto simp: Object simp del: get.simps split: option.splits jvalue.splits)
qed (auto simp: classify_def)

lemma classify_Notification_iff:
  "classify frame = Notification \<longleftrightarrow>
     is_object frame \<and> closed_envelope frame \<and> get frame ''jsonrpc'' = Some (String ''2.0'') \<and>
     get frame ''id'' = None \<and> (\<exists>name. get frame ''method'' = Some (String name))"
proof (cases frame)
  case (Object ms)
  show ?thesis unfolding classify_def Object Let_def jvalue.case no_unknown_iff
    by (cases "get frame ''id''")
      (auto simp: Object simp del: get.simps split: option.splits jvalue.splits)
qed (auto simp: classify_def)

lemma classify_Invalid_echo:
  "classify frame = Invalid rid \<Longrightarrow> rid = Null \<or> (get frame ''id'' = Some rid \<and> valid_id rid)"
  by (cases frame) (auto simp: classify_def Let_def no_unknown_iff simp del: get.simps split: option.splits jvalue.splits if_splits)

subsection \<open>Further facts\<close>

text \<open>
  A frame is a request exactly when it is an object with only the four known members, jsonrpc 2.0,
  a usable id, a string method and object params; it is silently ignored exactly when it is such
  an object without an id; and an error answer echoes an id only if that id was sent and is
  usable.
\<close>

theorem classification_is_exact:
  "(classify frame = Request rid name params \<longleftrightarrow>
     closed_envelope frame \<and> get frame ''jsonrpc'' = Some (String ''2.0'') \<and> get frame ''id'' = Some rid \<and>
     valid_id rid \<and> get frame ''method'' = Some (String name) \<and> get frame ''params'' = Some params \<and>
     is_object params) \<and>
   (classify frame = Notification \<longleftrightarrow>
     is_object frame \<and> closed_envelope frame \<and> get frame ''jsonrpc'' = Some (String ''2.0'') \<and>
     get frame ''id'' = None \<and> (\<exists>name. get frame ''method'' = Some (String name))) \<and>
   (classify frame = Invalid rid \<longrightarrow> rid = Null \<or> (get frame ''id'' = Some rid \<and> valid_id rid))"
  using classify_Request_iff classify_Notification_iff classify_Invalid_echo by blast

lemma classification_is_exact_witness:
  "classify (Object [(''id'', Integer 3)]) = Invalid (Integer 3) \<and> valid_id (Integer 3)"
  using classification_is_exact [of "Object [(''id'', Integer 3)]" "Integer 3" "[]" Null]
  by (simp add: classify_def KNOWN_def)

end
