(* ===== verification/Frames.thy ===== *)
theory Frames
  imports Json_Roundtrip Errors
begin

text \<open>
  The stream binding's frame layer, \<open>frames.rs\<close>. The input is the sequence of outcomes of
  \<open>read\<close>: data (no bytes means end of input), a timeout, or an I/O error. \<open>next_frame\<close> is the
  source's loop over its buffer; the lemmas show that what it returns is a function of the byte
  stream alone, however the bytes were split into reads and wherever timeouts fell.
\<close>

definition PRE_NEGOTIATION_LIMIT :: nat where
  "PRE_NEGOTIATION_LIMIT = 1048576"

datatype read_outcome = Data string | TimedOut | Failed

datatype frame = Bytes string | Blank | TooLarge | Eof | Idle

record frame_reader =
  fr_input :: "read_outcome list"
  fr_buffered :: string
  fr_at :: nat
  fr_eof :: bool
  fr_partial :: string

definition new_reader :: "read_outcome list \<Rightarrow> frame_reader" where
  "new_reader input = \<lparr>fr_input = input, fr_buffered = [], fr_at = 0, fr_eof = False, fr_partial = []\<rparr>"

definition LF :: char where
  "LF = CHR 0x0A"

definition blank_byte :: "char \<Rightarrow> bool" where
  "blank_byte b \<longleftrightarrow> b = CHR '' '' \<or> b = CHR 0x09 \<or> b = CHR 0x0D \<or> b = LF"

text \<open>What one round of the loop does: refill the buffer, or return.\<close>

datatype fill = Filled frame_reader | Return "(unit + frame) \<times> frame_reader"

fun chunk_of :: "frame_reader \<Rightarrow> string" where
  "chunk_of r = drop (fr_at r) (fr_buffered r)"

definition fill_buffer :: "frame_reader \<Rightarrow> fill" where
  "fill_buffer r =
     (case fr_input r of
        TimedOut # rest \<Rightarrow>
          Return (Inr Idle, r\<lparr>fr_input := rest, fr_buffered := [], fr_at := 0\<rparr>)
      | Failed # rest \<Rightarrow>
          Return (Inl (), r\<lparr>fr_input := rest, fr_buffered := replicate 8192 (char_of (0 :: nat))\<rparr>)
      | Data bs # rest \<Rightarrow>
          Filled (r\<lparr>fr_input := rest, fr_buffered := bs, fr_at := 0, fr_eof := fr_eof r \<or> bs = []\<rparr>)
      | [] \<Rightarrow> Filled (r\<lparr>fr_buffered := [], fr_at := 0, fr_eof := True\<rparr>))"

definition take_chunk :: "nat \<Rightarrow> frame_reader \<Rightarrow> fill" where
  "take_chunk limit r =
     (let chunk = drop (fr_at r) (fr_buffered r) in
      case split_once LF chunk of
        Some (before, after) \<Rightarrow>
          (let frame = fr_partial r @ before;
               r' = r\<lparr>fr_partial := [], fr_at := fr_at r + length before + 1\<rparr>
           in Return (Inr (if length frame > limit then TooLarge
                else if list_all blank_byte frame then Blank
                else Bytes frame), r'))
      | None \<Rightarrow>
          (let r' = r\<lparr>fr_partial := fr_partial r @ chunk, fr_at := length (fr_buffered r)\<rparr> in
           if length (fr_partial r') > limit then Return (Inr TooLarge, r') else Filled r'))"

fun reader_weight :: "frame_reader \<Rightarrow> nat" where
  "reader_weight r = 3 * length (fr_input r) + (if fr_at r = length (fr_buffered r) then 0 else 2)
     + (if fr_eof r then 0 else 1)"

lemma fill_buffer_weight:
  "fill_buffer r = Filled r' \<Longrightarrow> fr_at r = length (fr_buffered r) \<Longrightarrow> \<not> fr_eof r \<Longrightarrow>
   reader_weight r' < reader_weight r"
  by (auto simp: fill_buffer_def split: list.splits read_outcome.splits)

lemma take_chunk_weight:
  "take_chunk limit r = Filled r' \<Longrightarrow> fr_at r \<noteq> length (fr_buffered r) \<Longrightarrow> reader_weight r' < reader_weight r"
  by (auto simp: take_chunk_def Let_def split: option.splits if_splits)

function next_frame :: "nat \<Rightarrow> frame_reader \<Rightarrow> (unit + frame) \<times> frame_reader" where
  "next_frame limit r =
     (if fr_at r = length (fr_buffered r) then
        (if fr_eof r then (Inr Eof, r)
         else (case fill_buffer r of Return x \<Rightarrow> x | Filled r' \<Rightarrow> next_frame limit r'))
      else (case take_chunk limit r of Return x \<Rightarrow> x | Filled r' \<Rightarrow> next_frame limit r'))"
  by pat_completeness auto
termination
  by (relation "measure (\<lambda>(limit, r). reader_weight r)")
    (use fill_buffer_weight take_chunk_weight in \<open>fastforce simp del: reader_weight.simps\<close>)+

declare next_frame.simps [simp del]

definition encode_frame :: "jvalue \<Rightarrow> string" where
  "encode_frame v = to_canonical v @ [LF]"

definition parse_frame :: "string \<Rightarrow> (frame_failure + jvalue) option" where
  "parse_frame bs =
     (case parse bs of
        None \<Rightarrow> None
      | Some (Inr v) \<Rightarrow> Some (Inr v)
      | Some (Inl e) \<Rightarrow> Some (Inl (if kind e = InvalidUtf8 then FrameInvalidUtf8 else FrameParseError)))"

subsection \<open>The stream behind the reader\<close>

fun data_of :: "read_outcome list \<Rightarrow> string" where
  "data_of [] = []"
| "data_of (TimedOut # rs) = data_of rs"
| "data_of (Failed # rs) = []"
| "data_of (Data bs # rs) = (if bs = [] then [] else bs @ data_of rs)"

definition stream :: "frame_reader \<Rightarrow> string" where
  "stream r = fr_partial r @ chunk_of r @ (if fr_eof r then [] else data_of (fr_input r))"

definition reader_ok :: "frame_reader \<Rightarrow> bool" where
  "reader_ok r \<longleftrightarrow> fr_at r \<le> length (fr_buffered r) \<and> LF \<notin> set (fr_partial r) \<and> Failed \<notin> set (fr_input r)"

lemma new_reader_ok: "Failed \<notin> set input \<Longrightarrow> reader_ok (new_reader input)"
  by (simp add: reader_ok_def new_reader_def)

lemma stream_new_reader: "stream (new_reader input) = data_of input"
  by (simp add: stream_def new_reader_def)

text \<open>One frame of the stream: the bytes before the next terminator, and those after it.\<close>

definition frame_step :: "nat \<Rightarrow> string \<Rightarrow> frame \<Rightarrow> frame_reader \<Rightarrow> bool" where
  "frame_step limit s f r' \<longleftrightarrow>
     (case f of
        Idle \<Rightarrow> stream r' = s
      | Eof \<Rightarrow> LF \<notin> set s \<and> fr_partial r' = s
      | TooLarge \<Rightarrow> (\<exists>seg rest. s = seg @ rest \<and> LF \<notin> set seg \<and> limit < length seg)
      | Blank \<Rightarrow> (\<exists>seg. s = seg @ LF # stream r' \<and> LF \<notin> set seg \<and> length seg \<le> limit \<and> list_all blank_byte seg)
      | Bytes seg \<Rightarrow> s = seg @ LF # stream r' \<and> LF \<notin> set seg \<and> length seg \<le> limit \<and> \<not> list_all blank_byte seg)"

lemma fill_buffer_step:
  assumes "reader_ok r" "fr_at r = length (fr_buffered r)" "\<not> fr_eof r"
  shows "fill_buffer r = Filled r' \<Longrightarrow> reader_ok r' \<and> stream r' = stream r \<and> fr_partial r' = fr_partial r"
    "fill_buffer r = Return (res, r') \<Longrightarrow>
       res = Inr Idle \<and> reader_ok r' \<and> stream r' = stream r \<and> fr_partial r' = fr_partial r"
  using assms by (auto simp: fill_buffer_def reader_ok_def stream_def split: list.splits read_outcome.splits)

lemma take_chunk_step:
  assumes "reader_ok r" "fr_at r \<noteq> length (fr_buffered r)"
  shows "take_chunk limit r = Filled r' \<Longrightarrow>
      reader_ok r' \<and> stream r' = stream r \<and> length (fr_partial r') \<le> limit"
    "take_chunk limit r = Return (res, r') \<Longrightarrow>
       \<exists>f. res = Inr f \<and> f \<noteq> Idle \<and> f \<noteq> Eof \<and> reader_ok r' \<and> frame_step limit (stream r) f r' \<and>
         (f \<noteq> TooLarge \<longrightarrow> fr_partial r' = [])"
proof -
  assume f: "take_chunk limit r = Filled r'"
  then have none: "split_once LF (chunk_of r) = None"
    and r': "r' = r\<lparr>fr_partial := fr_partial r @ chunk_of r, fr_at := length (fr_buffered r)\<rparr>"
    and l: "length (fr_partial r @ chunk_of r) \<le> limit"
    by (auto simp: take_chunk_def Let_def split: option.splits if_splits)
  have "LF \<notin> set (chunk_of r)" using none by (simp only: split_once_None_iff not_False_eq_True)
  then show "reader_ok r' \<and> stream r' = stream r \<and> length (fr_partial r') \<le> limit"
    using assms l by (auto simp: r' reader_ok_def stream_def)
next
  assume f: "take_chunk limit r = Return (res, r')"
  show "\<exists>f. res = Inr f \<and> f \<noteq> Idle \<and> f \<noteq> Eof \<and> reader_ok r' \<and> frame_step limit (stream r) f r' \<and>
         (f \<noteq> TooLarge \<longrightarrow> fr_partial r' = [])"
  proof (cases "split_once LF (chunk_of r)")
    case None
    then have n: "LF \<notin> set (chunk_of r)" by (simp only: split_once_None_iff not_False_eq_True)
    from f None have res: "res = Inr TooLarge" "limit < length (fr_partial r @ chunk_of r)"
      and r': "r' = r\<lparr>fr_partial := fr_partial r @ chunk_of r, fr_at := length (fr_buffered r)\<rparr>"
      by (auto simp: take_chunk_def Let_def split: if_splits)
    have "stream r = (fr_partial r @ chunk_of r) @ (if fr_eof r then [] else data_of (fr_input r))"
      by (simp add: stream_def)
    moreover have "LF \<notin> set (fr_partial r @ chunk_of r)" "reader_ok r'"
      using n assms by (auto simp: reader_ok_def r')
    ultimately have "frame_step limit (stream r) TooLarge r'"
      using res(2) unfolding frame_step_def frame.case by blast
    with res(1) \<open>reader_ok r'\<close> show ?thesis by blast
  next
    case (Some p)
    obtain before rest where p: "p = (before, rest)" by fastforce
    with Some have c: "chunk_of r = before @ LF # rest" "LF \<notin> set before"
      by (simp_all add: split_once_Some_iff)
    define seg where "seg = fr_partial r @ before"
    define q where "q = r\<lparr>fr_partial := [], fr_at := fr_at r + length before + 1\<rparr>"
    have rest: "drop (fr_at r + length before + 1) (fr_buffered r) = rest"
    proof -
      have "drop (length before + 1) (chunk_of r) = rest" unfolding c by simp
      then show ?thesis by (simp add: add.commute add.left_commute)
    qed
    have len: "fr_at r + length before + 1 \<le> length (fr_buffered r)"
    proof -
      have "length (fr_buffered r) - fr_at r = length (before @ LF # rest)" using c(1) by (metis chunk_of.simps length_drop)
      then show ?thesis using assms by (simp add: reader_ok_def)
    qed
    have res: "res = Inr (if length seg > limit then TooLarge else if list_all blank_byte seg then Blank else Bytes seg)"
      "r' = q"
      using f Some unfolding take_chunk_def Let_def p seg_def q_def chunk_of.simps by auto
    have q: "reader_ok q" "stream r = seg @ LF # stream q" "LF \<notin> set seg"
      using assms c len rest by (auto simp: q_def seg_def reader_ok_def stream_def)
    have "frame_step limit (stream r) TooLarge q" if "limit < length seg"
      unfolding frame_step_def frame.case using that q(2,3) by blast
    moreover have "frame_step limit (stream r) Blank q" if "length seg \<le> limit" "list_all blank_byte seg"
      unfolding frame_step_def frame.case using that q(2,3) by blast
    moreover have "frame_step limit (stream r) (Bytes seg) q" if "length seg \<le> limit" "\<not> list_all blank_byte seg"
      unfolding frame_step_def frame.case using that q(2,3) by blast
    moreover have "fr_partial q = []" by (simp add: q_def)
    ultimately show ?thesis using q(1) unfolding res by (auto simp: not_less)
  qed
qed

lemma next_frame_step:
  assumes "reader_ok r" "next_frame limit r = (res, r')"
  shows "\<exists>f. res = Inr f \<and> reader_ok r' \<and> frame_step limit (stream r) f r' \<and>
    (f \<noteq> TooLarge \<longrightarrow> length (fr_partial r) \<le> limit \<longrightarrow> length (fr_partial r') \<le> limit)"
  using assms
proof (induction limit r rule: next_frame.induct)
  case (1 limit r)
  show ?case
  proof (cases "fr_at r = length (fr_buffered r)")
    case at: True
    show ?thesis
    proof (cases "fr_eof r")
      case True
      then show ?thesis using 1(3,4) at by (auto simp: next_frame.simps [of limit r] frame_step_def stream_def reader_ok_def)
    next
      case eof: False
      show ?thesis
      proof (cases "fill_buffer r")
        case (Filled q)
        with fill_buffer_step(1) [OF "1.prems"(1) at eof Filled] 1(1) [OF at eof Filled] 1(4) at eof
        show ?thesis by (simp add: next_frame.simps [of limit r])
      next
        case (Return x)
        then have "fill_buffer r = Return (res, r')" using 1(4) at eof by (simp add: next_frame.simps [of limit r])
        from fill_buffer_step(2) [OF "1.prems"(1) at eof this] show ?thesis by (auto simp: frame_step_def)
      qed
    qed
  next
    case at: False
    show ?thesis
    proof (cases "take_chunk limit r")
      case (Filled q)
      with take_chunk_step(1) [OF "1.prems"(1) at Filled] 1(2) [OF at Filled] 1(4) at
      show ?thesis by (auto simp: next_frame.simps [of limit r])
    next
      case (Return x)
      then have "take_chunk limit r = Return (res, r')" using 1(4) at by (simp add: next_frame.simps [of limit r])
      from take_chunk_step(2) [OF "1.prems"(1) at this] show ?thesis by auto
    qed
  qed
qed

subsection \<open>A whole connection\<close>

text \<open>
  What the session makes of the reader: frames until the end of input or an oversized frame,
  after which it closes; polls in between are not frames. \<open>frame_seq\<close> is the same sequence,
  read off the bytes.
\<close>

fun input_size :: "read_outcome list \<Rightarrow> nat" where
  "input_size [] = 0"
| "input_size (Data bs # rs) = Suc (length bs + input_size rs)"
| "input_size (_ # rs) = Suc (input_size rs)"

definition remaining :: "frame_reader \<Rightarrow> nat" where
  "remaining r = input_size (fr_input r) + length (chunk_of r)"

lemma fill_buffer_remaining:
  "fr_at r = length (fr_buffered r) \<Longrightarrow> fill_buffer r = Filled r' \<Longrightarrow> remaining r' \<le> remaining r"
  "fr_at r = length (fr_buffered r) \<Longrightarrow> fill_buffer r = Return (Inr f, r') \<Longrightarrow> remaining r' < remaining r"
  by (auto simp: fill_buffer_def remaining_def split: list.splits read_outcome.splits)

lemma take_chunk_remaining:
  "take_chunk limit r = Filled r' \<Longrightarrow> remaining r' \<le> remaining r"
  "take_chunk limit r = Return (Inr f, r') \<Longrightarrow> f \<noteq> TooLarge \<Longrightarrow> remaining r' < remaining r"
proof -
  assume f: "take_chunk limit r = Return (Inr f, r')" and ne: "f \<noteq> TooLarge"
  then obtain before rest where so: "split_once LF (chunk_of r) = Some (before, rest)"
    and r': "r' = r\<lparr>fr_partial := [], fr_at := fr_at r + length before + 1\<rparr>"
    by (auto simp: take_chunk_def Let_def split: option.splits if_splits)
  from so have "0 < length (chunk_of r)" by (auto simp: split_once_Some_iff)
  then show "remaining r' < remaining r" by (simp add: r' remaining_def)
qed (auto simp: take_chunk_def Let_def remaining_def split: option.splits if_splits)

lemma next_frame_remaining:
  "next_frame limit r = (Inr f, r') \<Longrightarrow> f \<noteq> TooLarge \<Longrightarrow> f \<noteq> Eof \<Longrightarrow> remaining r' < remaining r"
proof (induction limit r rule: next_frame.induct)
  case (1 limit r)
  show ?case
  proof (cases "fr_at r = length (fr_buffered r)")
    case True
    with 1 fill_buffer_remaining [OF True] show ?thesis
      by (fastforce simp: next_frame.simps [of limit r] split: if_splits fill.splits)
  next
    case False
    with 1 take_chunk_remaining [of limit r] show ?thesis
      by (fastforce simp: next_frame.simps [of limit r] split: fill.splits)
  qed
qed

function run_frames :: "nat \<Rightarrow> frame_reader \<Rightarrow> frame list" where
  "run_frames limit r =
     (case next_frame limit r of
        (Inl _, _) \<Rightarrow> []
      | (Inr Eof, _) \<Rightarrow> [Eof]
      | (Inr TooLarge, _) \<Rightarrow> [TooLarge]
      | (Inr Idle, r') \<Rightarrow> run_frames limit r'
      | (Inr Blank, r') \<Rightarrow> Blank # run_frames limit r'
      | (Inr (Bytes bs), r') \<Rightarrow> Bytes bs # run_frames limit r')"
  by pat_completeness auto
termination
proof (relation "measure (\<lambda>(limit, r). remaining r)", goal_cases)
  case (2 limit r x y f)
  then have "next_frame limit r = (Inr f, y)" by simp
  from next_frame_remaining [OF this] 2 show ?case by simp
next
  case (3 limit r x y f)
  then have "next_frame limit r = (Inr f, y)" by simp
  from next_frame_remaining [OF this] 3 show ?case by simp
next
  case (4 limit r x y f)
  then have "next_frame limit r = (Inr f, y)" by simp
  from next_frame_remaining [OF this] 4 show ?case by simp
qed simp

declare run_frames.simps [simp del]

function frame_seq :: "nat \<Rightarrow> string \<Rightarrow> frame list" where
  "frame_seq limit s =
     (case split_once LF s of
        None \<Rightarrow> [if limit < length s then TooLarge else Eof]
      | Some (seg, rest) \<Rightarrow>
          if limit < length seg then [TooLarge]
          else (if list_all blank_byte seg then Blank else Bytes seg) # frame_seq limit rest)"
  by pat_completeness auto
termination
  by (relation "measure (\<lambda>(limit, s). length s)") (auto simp: split_once_Some_iff)

declare frame_seq.simps [simp del]

lemma frame_seq_Cons:
  "LF \<notin> set seg \<Longrightarrow> frame_seq limit (seg @ LF # rest) =
     (if limit < length seg then [TooLarge]
      else (if list_all blank_byte seg then Blank else Bytes seg) # frame_seq limit rest)"
proof -
  assume "LF \<notin> set seg"
  then have "split_once LF (seg @ LF # rest) = Some (seg, rest)" by (simp add: split_once_Some_iff)
  then show ?thesis by (simp add: frame_seq.simps [of limit "seg @ LF # rest"])
qed

lemma frame_seq_last: "LF \<notin> set s \<Longrightarrow> frame_seq limit s = [if limit < length s then TooLarge else Eof]"
  by (subst frame_seq.simps) (simp add: split_once_None_iff [THEN iffD2])

lemma frame_seq_too_large:
  assumes "LF \<notin> set seg" "limit < length seg"
  shows "frame_seq limit (seg @ rest) = [TooLarge]"
proof (cases "LF \<in> set rest")
  case True
  then obtain a b where "rest = a @ LF # b" "LF \<notin> set a" by (meson split_list_first)
  with assms frame_seq_Cons [of "seg @ a" limit b] show ?thesis by simp
next
  case False
  with assms frame_seq_last [of "seg @ rest" limit] show ?thesis by simp
qed

lemma run_frames_spec:
  "reader_ok r \<Longrightarrow> length (fr_partial r) \<le> limit \<Longrightarrow> run_frames limit r = frame_seq limit (stream r)"
proof (induction limit r rule: run_frames.induct)
  case (1 limit r)
  obtain res r' where n: "next_frame limit r = (res, r')" by fastforce
  from next_frame_step [OF "1.prems"(1) n] "1.prems"(2) obtain f where f: "res = Inr f" "reader_ok r'"
    "frame_step limit (stream r) f r'" "f \<noteq> TooLarge \<Longrightarrow> length (fr_partial r') \<le> limit" by auto
  show ?case
  proof (cases f)
    case (Bytes bs)
    with f 1 n frame_seq_Cons [of bs limit "stream r'"] show ?thesis
      by (simp add: run_frames.simps [of limit r] frame_step_def not_less)
  next
    case Blank
    with f(3) obtain seg where "stream r = seg @ LF # stream r'" "LF \<notin> set seg" "length seg \<le> limit" "list_all blank_byte seg"
      by (auto simp: frame_step_def)
    with Blank f 1 n frame_seq_Cons [of seg limit "stream r'"] show ?thesis
      by (simp add: run_frames.simps [of limit r] not_less)
  next
    case TooLarge
    with f(3) obtain seg rest where "stream r = seg @ rest" "LF \<notin> set seg" "limit < length seg"
      by (auto simp: frame_step_def)
    with TooLarge f n frame_seq_too_large [of seg limit rest] show ?thesis
      by (simp add: run_frames.simps [of limit r])
  next
    case Eof
    with f n frame_seq_last [of "stream r" limit] show ?thesis
      by (auto simp: run_frames.simps [of limit r] frame_step_def)
  next
    case Idle
    with f 1 n show ?thesis by (simp add: run_frames.simps [of limit r] frame_step_def)
  qed
qed

lemma LF_not_canonical: "LF \<notin> set (to_canonical v)"
  using canonical_printable [of v] by (auto simp: printable_def LF_def)

lemma canonical_not_blank: "\<not> list_all blank_byte (to_canonical v)"
proof -
  obtain b r where "to_canonical v = b # r" "\<not> is_ws b" using canonical_head by blast
  moreover have "is_ws b" if "blank_byte b" using that by (auto simp: blank_byte_def is_ws_def LF_def)
  ultimately show ?thesis by auto
qed

lemma frame_seq_encoded:
  "(\<And>v. v \<in> set vs \<Longrightarrow> length (to_canonical v) \<le> limit) \<Longrightarrow>
   frame_seq limit (concat (map encode_frame vs) @ tail) = map (\<lambda>v. Bytes (to_canonical v)) vs @ frame_seq limit tail"
proof (induction vs)
  case (Cons v vs)
  have "concat (map encode_frame (v # vs)) @ tail = to_canonical v @ LF # (concat (map encode_frame vs) @ tail)"
    by (simp add: encode_frame_def)
  moreover have "\<not> limit < length (to_canonical v)" using Cons.prems [of v] by (simp add: not_less)
  ultimately show ?case using Cons
    frame_seq_Cons [OF LF_not_canonical [of v], of limit "concat (map encode_frame vs) @ tail"]
    by (simp add: canonical_not_blank)
qed simp

lemma parse_frame_canonical:
  "in_domain v \<Longrightarrow> nesting v \<le> DEFAULT_MAX_DEPTH \<Longrightarrow> parse_frame (to_canonical v) = Some (Inr (sorted_members v))"
  by (simp add: parse_frame_def parse_def parse_to_canonical)

subsection \<open>How much of an unfinished frame is held\<close>

definition reads_bounded :: "frame_reader \<Rightarrow> bool" where
  "reads_bounded r \<longleftrightarrow> length (fr_buffered r) \<le> 8192 \<and> (\<forall>bs. Data bs \<in> set (fr_input r) \<longrightarrow> length bs \<le> 8192)"

lemma fill_buffer_bounded:
  "reads_bounded r \<Longrightarrow> fill_buffer r = Filled r' \<or> fill_buffer r = Return (res, r') \<Longrightarrow>
   reads_bounded r' \<and> fr_partial r' = fr_partial r"
  by (auto simp: fill_buffer_def reads_bounded_def split: list.splits read_outcome.splits)

lemma take_chunk_bounded:
  "reads_bounded r \<Longrightarrow> length (fr_partial r) \<le> limit \<Longrightarrow> take_chunk limit r = Filled r' \<Longrightarrow>
     reads_bounded r' \<and> length (fr_partial r') \<le> limit"
  "reads_bounded r \<Longrightarrow> length (fr_partial r) \<le> limit \<Longrightarrow> take_chunk limit r = Return (res, r') \<Longrightarrow>
     reads_bounded r' \<and> length (fr_partial r') \<le> limit + 8192"
  by (auto simp: take_chunk_def Let_def reads_bounded_def split: option.splits if_splits)

lemma next_frame_bounded:
  "reads_bounded r \<Longrightarrow> length (fr_partial r) \<le> limit \<Longrightarrow> next_frame limit r = (res, r') \<Longrightarrow>
   reads_bounded r' \<and> length (fr_partial r') \<le> limit + 8192"
proof (induction limit r rule: next_frame.induct)
  case (1 limit r)
  show ?case
  proof (cases "fr_at r = length (fr_buffered r)")
    case at: True
    show ?thesis
    proof (cases "fr_eof r \<or> (\<exists>x. fill_buffer r = Return x)")
      case True
      then show ?thesis using "1.prems" at fill_buffer_bounded [OF "1.prems"(1), of r' res]
        by (auto simp: next_frame.simps [of limit r] split: if_splits)
    next
      case False
      then obtain q where q: "fill_buffer r = Filled q" "\<not> fr_eof r" by (cases "fill_buffer r") auto
      with 1(1) [OF at q(2,1)] fill_buffer_bounded [OF "1.prems"(1), of q] "1.prems" at show ?thesis
        by (auto simp: next_frame.simps [of limit r])
    qed
  next
    case at: False
    show ?thesis
    proof (cases "take_chunk limit r")
      case (Filled q)
      with 1(2) [OF at Filled] take_chunk_bounded(1) [OF "1.prems"(1,2) Filled] "1.prems" at show ?thesis
        by (simp add: next_frame.simps [of limit r])
    next
      case (Return x)
      then show ?thesis using "1.prems" at take_chunk_bounded(2) [OF "1.prems"(1,2), of res r']
        by (simp add: next_frame.simps [of limit r])
    qed
  qed
qed

subsection \<open>Further facts\<close>

text \<open>
  While a frame is unfinished, or one is refused as too large, the reader holds at most the limit
  and one read of 8192 bytes; the documented bound, limit plus one, is not kept: with limit 0, one
  read of three bytes is all buffered.
\<close>

theorem buffering_is_bounded:
  assumes "reads_bounded r" "length (fr_partial r) \<le> limit"
  shows "length (fr_partial (snd (next_frame limit r))) \<le> limit + 8192 \<and>
    length (fr_partial (snd (next_frame 0 (new_reader [Data ''abc''])))) = 3"
proof
  show "length (fr_partial (snd (next_frame limit r))) \<le> limit + 8192"
    using next_frame_bounded [OF assms surjective_pairing] by blast
  show "length (fr_partial (snd (next_frame 0 (new_reader [Data ''abc''])))) = 3"
    by (simp add: next_frame.simps fill_buffer_def take_chunk_def new_reader_def LF_def Let_def)
qed

lemma buffering_is_bounded_witness:
  "length (fr_partial (snd (next_frame 5 (new_reader [Data ''abcdefg''])))) \<le> 5 + 8192"
  using buffering_is_bounded [of "new_reader [Data ''abcdefg'']" 5]
  by (simp add: reads_bounded_def new_reader_def)

subsection \<open>Properties\<close>

text \<open>
  C23. However the bytes of a connection are cut into reads, with timeouts anywhere between them,
  the frames the reader returns are those of the byte stream split at its line feeds: partial
  frames survive a timeout, blank frames are skipped as such, the tail without a line feed is
  dropped, and an oversized frame ends the sequence.
\<close>

theorem chunks_do_not_matter:
  assumes "Failed \<notin> set input"
  shows "run_frames limit (new_reader input) = frame_seq limit (data_of input)"
  using run_frames_spec [OF new_reader_ok [OF assms], of limit]
  by (simp add: stream_new_reader) (simp add: new_reader_def)

lemma chunks_do_not_matter_witness:
  "run_frames 9 (new_reader [Data ''ab'', TimedOut, Data [CHR ''c'', LF, CHR ''d'']]) = frame_seq 9 [CHR ''a'', CHR ''b'', CHR ''c'', LF, CHR ''d'']"
  using chunks_do_not_matter [of "[Data ''ab'', TimedOut, Data [CHR ''c'', LF, CHR ''d'']]" 9] by simp



end
