(* ===== verification/Envelope.thy ===== *)
theory Envelope
  imports Intent Errors
begin

text \<open>
  Envelope validation, \<open>envelope.rs\<close>: the identifier grammars, the limits of CORE section 9 in
  their fixed priority, and the closed-object checks that turn a \<open>params\<close> object into a
  \<open>command\<close> or a \<open>query\<close>. The lemmas give the grammars and the limits by their meaning, and
  what an accepted command is guaranteed to hold.
\<close>

subsection \<open>Names\<close>

definition is_identifier :: "string \<Rightarrow> bool" where
  "is_identifier text \<longleftrightarrow>
     (case text of
        [] \<Rightarrow> False
      | b # bs \<Rightarrow>
          length text \<le> 128 \<and> is_ascii_alphanumeric b \<and>
          list_all (\<lambda>b. is_ascii_alphanumeric b \<or> b \<in> set ''._:~-'') bs)"

definition dotted_head :: "string \<Rightarrow> bool" where
  "dotted_head head \<longleftrightarrow>
     head \<noteq> [] \<and> is_ascii_lowercase (hd head) \<and>
     list_all (\<lambda>b. is_ascii_lowercase b \<or> is_ascii_digit b \<or> b = CHR ''-'') head"

definition dotted_tail :: "string \<Rightarrow> bool" where
  "dotted_tail part \<longleftrightarrow>
     part \<noteq> [] \<and> is_ascii_lowercase (hd part) \<and>
     list_all (\<lambda>b. is_ascii_lowercase b \<or> is_ascii_digit b \<or> b = CHR ''-'' \<or> b = CHR ''_'') part"

definition is_dotted_name :: "string \<Rightarrow> bool" where
  "is_dotted_name text \<longleftrightarrow>
     length text \<le> 128 \<and> CHR ''.'' \<in> set text \<and>
     (case split_on (\<lambda>c. c = CHR ''.'') text of
        [] \<Rightarrow> False
      | head # parts \<Rightarrow> dotted_head head \<and> list_all dotted_tail parts \<and> parts \<noteq> [])"

subsection \<open>Limits\<close>

record limits =
  max_frame_bytes :: int
  max_payload_bytes :: int
  max_string_bytes :: int
  max_array_items :: int
  max_depth :: int

fun exceeds_depth :: "jvalue \<Rightarrow> int \<Rightarrow> int \<Rightarrow> bool" where
  "exceeds_depth (Array items) depth maximum \<longleftrightarrow>
     depth > maximum \<or> list_ex (\<lambda>item. exceeds_depth item (depth + 1) maximum) items"
| "exceeds_depth (Object members) depth maximum \<longleftrightarrow>
     depth > maximum \<or> list_ex (\<lambda>(_, member). exceeds_depth member (depth + 1) maximum) members"
| "exceeds_depth _ depth maximum \<longleftrightarrow> False"

fun exceeds_array_items :: "jvalue \<Rightarrow> int \<Rightarrow> bool" where
  "exceeds_array_items (Array items) maximum \<longleftrightarrow>
     int (length items) > maximum \<or> list_ex (\<lambda>item. exceeds_array_items item maximum) items"
| "exceeds_array_items (Object members) maximum \<longleftrightarrow>
     list_ex (\<lambda>(_, member). exceeds_array_items member maximum) members"
| "exceeds_array_items _ maximum \<longleftrightarrow> False"

fun exceeds_string_bytes :: "jvalue \<Rightarrow> int \<Rightarrow> bool" where
  "exceeds_string_bytes (String text) maximum \<longleftrightarrow> int (length text) > maximum"
| "exceeds_string_bytes (Array items) maximum \<longleftrightarrow> list_ex (\<lambda>item. exceeds_string_bytes item maximum) items"
| "exceeds_string_bytes (Object members) maximum \<longleftrightarrow>
     list_ex (\<lambda>(name, member). int (length name) > maximum \<or> exceeds_string_bytes member maximum) members"
| "exceeds_string_bytes _ maximum \<longleftrightarrow> False"

definition check_limits :: "jvalue \<Rightarrow> limits \<Rightarrow> protocol_error + unit" where
  "check_limits params limits =
     (if exceeds_depth params 1 (max_depth limits) then
        Inl (limit_exceeded ''max_depth'' (max_depth limits))
      else if exceeds_array_items params (max_array_items limits) then
        Inl (limit_exceeded ''max_array_items'' (max_array_items limits))
      else if exceeds_string_bytes params (max_string_bytes limits) then
        Inl (limit_exceeded ''max_string_bytes'' (max_string_bytes limits))
      else (case get params ''payload'' of
              Some payload \<Rightarrow>
                if int (length (to_canonical payload)) > max_payload_bytes limits
                then Inl (limit_exceeded ''max_payload_bytes'' (max_payload_bytes limits))
                else Inr ()
            | None \<Rightarrow> Inr ()))"

subsection \<open>Closed objects\<close>

definition COMMAND_MEMBERS :: "string list" where
  "COMMAND_MEMBERS = [''operation'', ''message_id'', ''command_id'', ''dedupe_generation'', ''subject'',
     ''preconditions'', ''authority_epoch'', ''requires'', ''correlation'', ''caused_by'', ''extensions'',
     ''grant'', ''command_digest'', ''payload'']"

definition COMMAND_REQUIRED :: "string list" where
  "COMMAND_REQUIRED = [''operation'', ''message_id'', ''command_id'', ''dedupe_generation'', ''subject'',
     ''preconditions'', ''requires'', ''command_digest'', ''payload'']"

definition QUERY_MEMBERS :: "string list" where
  "QUERY_MEMBERS = [''operation'', ''message_id'', ''requires'', ''extensions'', ''grant'', ''payload'']"

definition QUERY_REQUIRED :: "string list" where
  "QUERY_REQUIRED = [''operation'', ''message_id'', ''payload'']"

text \<open>The loop that refuses the first member outside a closed set, at \<open>path\<close>.\<close>

fun check_known :: "string \<Rightarrow> string list \<Rightarrow> (string \<times> jvalue) list \<Rightarrow> protocol_error + unit" where
  "check_known path allowed [] = Inr ()"
| "check_known path allowed ((name, _) # members) =
     (if name \<notin> set allowed then Inl (invalid_envelope (path @ ''/'' @ name) ''unknown field'')
      else check_known path allowed members)"

fun check_present :: "string \<Rightarrow> jvalue \<Rightarrow> string list \<Rightarrow> protocol_error + unit" where
  "check_present path value [] = Inr ()"
| "check_present path value (name # names) =
     (if get value name = None then Inl (invalid_envelope (path @ ''/'' @ name) ''required field absent'')
      else check_present path value names)"

definition check_members :: "jvalue \<Rightarrow> string list \<Rightarrow> string list \<Rightarrow> protocol_error + unit" where
  "check_members envelope allowed required =
     (case envelope of
        Object members \<Rightarrow>
          rbind (check_known [] allowed members) (\<lambda>_. check_present [] envelope required)
      | _ \<Rightarrow> Inl (invalid_envelope [] ''envelope is not an object''))"

definition check_identifier :: "jvalue \<Rightarrow> string \<Rightarrow> protocol_error + unit" where
  "check_identifier envelope name =
     (case get envelope name of
        Some (String text) \<Rightarrow>
          if is_identifier text then Inr () else Inl (invalid_envelope (''/'' @ name) ''not an identifier'')
      | Some _ \<Rightarrow> Inl (invalid_envelope (''/'' @ name) ''not an identifier'')
      | None \<Rightarrow> Inr ())"

definition check_subject :: "jvalue \<Rightarrow> string \<Rightarrow> protocol_error + unit" where
  "check_subject v path =
     (case v of
        Object members \<Rightarrow>
          rbind (check_known path [''kind'', ''id''] members) (\<lambda>_.
          rbind (case get v ''kind'' of
                   Some (String k) \<Rightarrow>
                     if is_dotted_name k then Inr () else Inl (invalid_envelope (path @ ''/kind'') ''not a subject kind'')
                 | _ \<Rightarrow> Inl (invalid_envelope (path @ ''/kind'') ''not a subject kind'')) (\<lambda>_.
          (case get v ''id'' of
             Some (String i) \<Rightarrow>
               if is_identifier i then Inr () else Inl (invalid_envelope (path @ ''/id'') ''not an identifier'')
           | _ \<Rightarrow> Inl (invalid_envelope (path @ ''/id'') ''not an identifier''))))
      | _ \<Rightarrow> Inl (invalid_envelope path ''subject is not an object''))"

fun requires_entries ::
    "jvalue \<Rightarrow> nat \<Rightarrow> string list \<Rightarrow> jvalue list \<Rightarrow> protocol_error + string list" where
  "requires_entries envelope index seen [] = Inr seen"
| "requires_entries envelope index seen (entry # entries) =
     (case as_str entry of
        None \<Rightarrow> Inl (invalid_envelope (''/requires/'' @ dec_digits index) ''not a string'')
      | Some name \<Rightarrow>
          if name \<in> set seen then Inl (invalid_envelope ''/requires'' ''duplicate entry'')
          else if CHR ''/'' \<in> set name \<and>
            (case get envelope ''extensions'' of None \<Rightarrow> None | Some e \<Rightarrow> get e name) = None
          then Inl (invalid_envelope ''/requires'' ''required extension absent from extensions'')
          else requires_entries envelope (Suc index) (seen @ [name]) entries)"

definition check_requires :: "jvalue \<Rightarrow> protocol_error + string list" where
  "check_requires envelope =
     (case get envelope ''requires'' of
        None \<Rightarrow> Inr []
      | Some (Array items) \<Rightarrow> requires_entries envelope 0 [] items
      | Some _ \<Rightarrow> Inl (invalid_envelope ''/requires'' ''not an array''))"

text \<open>(allowed, required) for every operation the core defines.\<close>

definition payload_members :: "string \<Rightarrow> (string list \<times> string list) option" where
  "payload_members operation =
     (if operation = ''core.describe'' \<or> operation = ''core.feature_dependencies'' then Some ([], [])
      else if operation = ''core.authenticate'' then Some ([''credential''], [''credential''])
      else if operation = ''core.negotiate'' then
        Some ([''caller'', ''receive_limits'', ''profiles''], [''caller'', ''receive_limits'', ''profiles''])
      else if operation = ''core-test.subject.put'' then Some ([''value'', ''labels''], [''value''])
      else if operation = ''core-test.subject.get'' \<or> operation = ''core-test.subject.applied_count'' then
        Some ([''subject''], [''subject''])
      else if operation = ''core-test.authority.claim'' then Some ([], [])
      else if operation = ''core.grant.issue'' then
        Some ([''holder'', ''audience'', ''rights'', ''resources'', ''expires_at'', ''authority_binding'',
            ''delegation'', ''parent'', ''constraints''],
          [''holder'', ''audience'', ''rights'', ''resources'', ''delegation''])
      else if operation = ''core.grant.revoke'' then Some ([], [])
      else if operation = ''core.effects.get'' then Some ([''effect''], [''effect''])
      else if operation = ''core.effects.abort_obligation'' then Some ([''obligation''], [''obligation''])
      else if operation = ''core.grant.get'' then Some ([''grant''], [''grant''])
      else None)"

definition check_payload :: "string \<Rightarrow> jvalue \<Rightarrow> protocol_error + unit" where
  "check_payload operation payload =
     (case payload_members operation of
        None \<Rightarrow> Inr ()
      | Some (allowed, required) \<Rightarrow>
          (case payload of
             Object members \<Rightarrow>
               rbind (check_known ''/payload'' allowed members) (\<lambda>_.
                 check_present ''/payload'' payload required)
           | _ \<Rightarrow> Inl (invalid_envelope ''/payload'' ''not an object'')))"

record command =
  c_operation :: string
  c_command_id :: string
  c_dedupe_generation :: int
  c_subject :: jvalue
  c_preconditions :: "(jvalue \<times> int) list"
  c_authority_epoch :: "int option"
  c_requires :: "string list"
  c_command_digest :: string
  c_payload :: jvalue
  c_grant :: "string option"
  c_caused_by :: "string list"

definition operation_name :: "jvalue \<Rightarrow> protocol_error + string" where
  "operation_name envelope =
     (case get envelope ''operation'' of
        Some (String name) \<Rightarrow>
          if is_dotted_name name then Inr name else Inl (invalid_envelope ''/operation'' ''not an operation name'')
      | _ \<Rightarrow> Inl (invalid_envelope ''/operation'' ''not an operation name''))"

definition natural_member :: "jvalue \<Rightarrow> string \<Rightarrow> string \<Rightarrow> protocol_error + int" where
  "natural_member v name path =
     (case get v name of
        Some (Integer number) \<Rightarrow>
          if number \<ge> 0 then Inr number else Inl (invalid_envelope path ''not a non-negative integer'')
      | _ \<Rightarrow> Inl (invalid_envelope path ''not a non-negative integer''))"

fun precondition_entries ::
    "nat \<Rightarrow> (jvalue \<times> int) list \<Rightarrow> jvalue list \<Rightarrow> protocol_error + (jvalue \<times> int) list" where
  "precondition_entries index preconditions [] = Inr preconditions"
| "precondition_entries index preconditions (item # items) =
     (let path = ''/preconditions/'' @ dec_digits index in
      case item of
        Object members \<Rightarrow>
          rbind (check_known path [''subject'', ''revision''] members) (\<lambda>_.
          (case get item ''subject'' of
             None \<Rightarrow> Inl (invalid_envelope (path @ ''/subject'') ''required field absent'')
           | Some entry_subject \<Rightarrow>
               rbind (check_subject entry_subject (path @ ''/subject'')) (\<lambda>_.
               rbind (natural_member item ''revision'' (path @ ''/revision'')) (\<lambda>revision.
               if entry_subject \<in> set (map fst preconditions)
               then Inl (invalid_envelope ''/preconditions'' ''duplicate precondition subject'')
               else precondition_entries (Suc index) (preconditions @ [(entry_subject, revision)]) items))))
      | _ \<Rightarrow> Inl (invalid_envelope path ''not an object''))"

definition check_preconditions :: "jvalue \<Rightarrow> protocol_error + (jvalue \<times> int) list" where
  "check_preconditions envelope =
     (case get envelope ''preconditions'' of
        Some (Array items) \<Rightarrow>
          if length items > 16 then Inl (invalid_envelope ''/preconditions'' ''too many entries'')
          else precondition_entries 0 [] items
      | _ \<Rightarrow> Inl (invalid_envelope ''/preconditions'' ''not an array''))"

definition optional_natural :: "jvalue \<Rightarrow> string \<Rightarrow> protocol_error + int option" where
  "optional_natural envelope name =
     (case get envelope name of
        None \<Rightarrow> Inr None
      | Some (Integer number) \<Rightarrow>
          if number \<ge> 0 then Inr (Some number) else Inl (invalid_envelope (''/'' @ name) ''not a non-negative integer'')
      | Some _ \<Rightarrow> Inl (invalid_envelope (''/'' @ name) ''not a non-negative integer''))"

definition checked_payload :: "string \<Rightarrow> jvalue \<Rightarrow> protocol_error + jvalue" where
  "checked_payload operation envelope =
     rbind (ok_or (get envelope ''payload'') (invalid_envelope ''/payload'' ''not an object'')) (\<lambda>payload.
     if \<not> is_object payload then Inl (invalid_envelope ''/payload'' ''not an object'')
     else rbind (check_payload operation payload) (\<lambda>_. Inr payload))"

definition caused_by_of :: "jvalue \<Rightarrow> protocol_error + string list" where
  "caused_by_of envelope =
     (case get envelope ''caused_by'' of
        None \<Rightarrow> Inr []
      | Some (Array items) \<Rightarrow> Inr (List.map_filter as_str items)
      | Some _ \<Rightarrow> Inl (invalid_envelope ''/caused_by'' ''not an array''))"

definition member_str :: "jvalue \<Rightarrow> string \<Rightarrow> string option" where
  "member_str v name = (case get v name of None \<Rightarrow> None | Some w \<Rightarrow> as_str w)"

text \<open>
  The source reads \<open>subject\<close> and \<open>payload\<close> with \<open>expect\<close>, after \<open>check_members\<close> has found
  them; the error branch given to an absent member here is never taken.
\<close>

definition parse_command :: "jvalue \<Rightarrow> protocol_error + command" where
  "parse_command envelope =
     rbind (check_members envelope COMMAND_MEMBERS COMMAND_REQUIRED) (\<lambda>_.
     rbind (check_identifier envelope ''message_id'') (\<lambda>_.
     rbind (check_identifier envelope ''command_id'') (\<lambda>_.
     rbind (check_identifier envelope ''grant'') (\<lambda>_.
     rbind (operation_name envelope) (\<lambda>operation.
     rbind (natural_member envelope ''dedupe_generation'' ''/dedupe_generation'') (\<lambda>generation.
     rbind (ok_or (get envelope ''subject'') (invalid_envelope ''/subject'' [])) (\<lambda>subject.
     rbind (check_subject subject ''/subject'') (\<lambda>_.
     rbind (check_preconditions envelope) (\<lambda>preconditions.
     rbind (optional_natural envelope ''authority_epoch'') (\<lambda>epoch.
     rbind (check_requires envelope) (\<lambda>requires.
     rbind (case get envelope ''command_digest'' of
              Some (String text) \<Rightarrow> Inr text
            | _ \<Rightarrow> Inl (invalid_envelope ''/command_digest'' ''not a digest'')) (\<lambda>digest.
     rbind (checked_payload operation envelope) (\<lambda>payload.
     rbind (caused_by_of envelope) (\<lambda>caused_by.
     Inr \<lparr>c_operation = operation,
          c_command_id = (case member_str envelope ''command_id'' of Some t \<Rightarrow> t | None \<Rightarrow> []),
          c_dedupe_generation = generation, c_subject = subject, c_preconditions = preconditions,
          c_authority_epoch = epoch, c_requires = requires, c_command_digest = digest,
          c_payload = payload, c_grant = member_str envelope ''grant'', c_caused_by = caused_by\<rparr>))))))))))))))"

record query =
  q_operation :: string
  q_requires :: "string list"
  q_payload :: jvalue
  q_grant :: "string option"

definition parse_query :: "jvalue \<Rightarrow> protocol_error + query" where
  "parse_query envelope =
     rbind (check_members envelope QUERY_MEMBERS QUERY_REQUIRED) (\<lambda>_.
     rbind (check_identifier envelope ''message_id'') (\<lambda>_.
     rbind (check_identifier envelope ''grant'') (\<lambda>_.
     rbind (operation_name envelope) (\<lambda>operation.
     rbind (check_requires envelope) (\<lambda>requires.
     rbind (checked_payload operation envelope) (\<lambda>payload.
     Inr \<lparr>q_operation = operation, q_requires = requires, q_payload = payload,
          q_grant = member_str envelope ''grant''\<rparr>))))))"

subsection \<open>What the limits measure\<close>

text \<open>Every value inside a value, itself included, and how many containers nest in it.\<close>

fun subvalues :: "jvalue \<Rightarrow> jvalue list" where
  "subvalues (Array items) = Array items # concat (map subvalues items)"
| "subvalues (Object members) = Object members # concat (map (\<lambda>(_, member). subvalues member) members)"
| "subvalues v = [v]"

fun levels :: "jvalue \<Rightarrow> nat" where
  "levels (Array items) = Suc (Max (insert 0 (set (map levels items))))"
| "levels (Object members) = Suc (Max (insert 0 (set (map (\<lambda>(_, member). levels member) members))))"
| "levels v = 0"

lemma Max_insert0_reach:
  fixes m d :: int
  assumes "finite A"
  shows "(\<exists>a \<in> A. a \<noteq> 0 \<and> m < d + int a) \<longleftrightarrow> Max (insert 0 A) \<noteq> 0 \<and> m < d + int (Max (insert 0 A))"
    (is "?l \<longleftrightarrow> ?r")
proof
  assume ?l
  then obtain a where a: "a \<in> A" "a \<noteq> 0" "m < d + int a" by blast
  then have "a \<le> Max (insert 0 A)" using assms by (intro Max_ge) auto
  with a show ?r by linarith
next
  assume ?r
  have "Max (insert 0 A) \<in> insert 0 A" using assms by (intro Max_in) auto
  with \<open>?r\<close> show ?l by auto
qed

lemma exceeds_depth_iff:
  "1 \<le> d \<Longrightarrow> exceeds_depth v d m \<longleftrightarrow> levels v \<noteq> 0 \<and> m < d + int (levels v) - 1"
proof (induction v d m rule: exceeds_depth.induct)
  case (1 items d m)
  have "(\<exists>v \<in> set items. exceeds_depth v (d + 1) m) \<longleftrightarrow> (\<exists>a \<in> levels ` set items. a \<noteq> 0 \<and> m < d + int a)"
    using 1 by force
  then have "(\<exists>v \<in> set items. exceeds_depth v (d + 1) m) \<longleftrightarrow>
      Max (insert 0 (levels ` set items)) \<noteq> 0 \<and> m < d + int (Max (insert 0 (levels ` set items)))"
    by (simp only: Max_insert0_reach finite_imageI finite_set)
  then show ?case by (auto simp: list_ex_iff)
next
  case (2 ms d m)
  let ?A = "(\<lambda>x. levels (snd x)) ` set ms"
  have "exceeds_depth (snd x) (d + 1) m \<longleftrightarrow> levels (snd x) \<noteq> 0 \<and> m < d + int (levels (snd x))" if "x \<in> set ms" for x
    using 2 that by (cases x) auto
  then have "(\<exists>x \<in> set ms. exceeds_depth (snd x) (d + 1) m) \<longleftrightarrow> (\<exists>a \<in> ?A. a \<noteq> 0 \<and> m < d + int a)"
    by auto
  then have "(\<exists>x \<in> set ms. exceeds_depth (snd x) (d + 1) m) \<longleftrightarrow> Max (insert 0 ?A) \<noteq> 0 \<and> m < d + int (Max (insert 0 ?A))"
    by (simp only: Max_insert0_reach finite_imageI finite_set)
  then show ?case by (simp add: list_ex_iff case_prod_beta) linarith
qed simp_all

lemma exceeds_array_items_iff:
  "exceeds_array_items v m \<longleftrightarrow> (\<exists>items. Array items \<in> set (subvalues v) \<and> m < int (length items))"
proof (induction v m rule: exceeds_array_items.induct)
  case (1 items m)
  then have "(\<exists>v \<in> set items. exceeds_array_items v m) \<longleftrightarrow>
    (\<exists>v \<in> set items. \<exists>xs. Array xs \<in> set (subvalues v) \<and> m < int (length xs))" by blast
  then show ?case by (auto simp: list_ex_iff)
next
  case (2 ms m)
  then have "(\<exists>x \<in> set ms. exceeds_array_items (snd x) m) \<longleftrightarrow>
    (\<exists>x \<in> set ms. \<exists>xs. Array xs \<in> set (subvalues (snd x)) \<and> m < int (length xs))" by (metis surjective_pairing)
  then show ?case by (auto simp: list_ex_iff case_prod_beta)
qed simp_all

lemma exceeds_string_bytes_iff:
  "exceeds_string_bytes v m \<longleftrightarrow>
     (\<exists>text. m < int (length text) \<and>
        (String text \<in> set (subvalues v) \<or> (\<exists>w \<in> set (subvalues v). text \<in> set (keys w))))"
    (is "_ \<longleftrightarrow> ?R v m")
proof (induction v m rule: exceeds_string_bytes.induct)
  case (2 items m)
  then have "(\<exists>v \<in> set items. exceeds_string_bytes v m) \<longleftrightarrow> (\<exists>v \<in> set items. ?R v m)" by blast
  then show ?case by (auto simp: list_ex_iff)
next
  case (3 ms m)
  then have "(\<exists>x \<in> set ms. exceeds_string_bytes (snd x) m) \<longleftrightarrow> (\<exists>x \<in> set ms. ?R (snd x) m)" by (metis surjective_pairing)
  moreover have "exceeds_string_bytes (Object ms) m \<longleftrightarrow>
      (\<exists>x \<in> set ms. m < int (length (fst x))) \<or> (\<exists>x \<in> set ms. exceeds_string_bytes (snd x) m)"
    by (simp add: list_ex_iff case_prod_beta) blast
  moreover have "?R (Object ms) m \<longleftrightarrow> (\<exists>x \<in> set ms. m < int (length (fst x))) \<or> (\<exists>x \<in> set ms. ?R (snd x) m)"
    by (simp add: case_prod_beta) blast
  ultimately show ?case by blast
qed simp_all

subsection \<open>What an accepted envelope holds\<close>

lemma check_known_Inr [result_simps]: "check_known path allowed ms = Inr u \<longleftrightarrow> fst ` set ms \<subseteq> set allowed"
  by (induction path allowed ms rule: check_known.induct) auto

lemma check_known_Inl:
  "check_known path allowed ms = Inl e \<Longrightarrow> \<exists>name. name \<notin> set allowed \<and> name \<in> fst ` set ms \<and>
     e = invalid_envelope (path @ ''/'' @ name) ''unknown field''"
  by (induction path allowed ms rule: check_known.induct) (auto split: if_splits)

lemma check_present_Inr [result_simps]:
  "check_present path v names = Inr u \<longleftrightarrow> (\<forall>n \<in> set names. get v n \<noteq> None)"
  by (induction path v names rule: check_present.induct) auto

lemma check_members_Inr [result_simps]:
  "check_members e allowed required = Inr u \<longleftrightarrow>
     is_object e \<and> set (keys e) \<subseteq> set allowed \<and> (\<forall>n \<in> set required. get e n \<noteq> None)"
  by (cases e) (auto simp: check_members_def result_simps)

lemma check_identifier_Inr [result_simps]:
  "check_identifier e name = Inr u \<longleftrightarrow>
     (\<forall>v. get e name = Some v \<longrightarrow> (\<exists>t. v = String t \<and> is_identifier t))"
  by (auto simp: check_identifier_def split: option.splits jvalue.splits)

definition is_subject :: "jvalue \<Rightarrow> bool" where
  "is_subject v \<longleftrightarrow> is_object v \<and> set (keys v) \<subseteq> set [''kind'', ''id''] \<and>
     (\<exists>k. get v ''kind'' = Some (String k) \<and> is_dotted_name k) \<and>
     (\<exists>i. get v ''id'' = Some (String i) \<and> is_identifier i)"

lemma check_subject_Inr [result_simps]: "check_subject v path = Inr u \<longleftrightarrow> is_subject v"
proof (cases v)
  case (Object ms)
  show ?thesis unfolding is_subject_def check_subject_def Object jvalue.case is_object.simps keys.simps
    by (cases "get (Object ms) ''kind''"; cases "get (Object ms) ''id''")
      (auto simp: result_simps simp del: get.simps split: jvalue.splits)
qed (simp_all add: is_subject_def check_subject_def)

lemma natural_member_Inr [result_simps]:
  "natural_member v name path = Inr n \<longleftrightarrow> get v name = Some (Integer n) \<and> 0 \<le> n"
  by (auto simp: natural_member_def split: option.splits jvalue.splits)

lemma requires_entries_Inr:
  "requires_entries e i seen items = Inr ks \<longleftrightarrow>
     (\<exists>names. items = map String names \<and> ks = seen @ names \<and> distinct names \<and> set names \<inter> set seen = {} \<and>
       (\<forall>n \<in> set names. CHR ''/'' \<in> set n \<longrightarrow>
          (\<exists>x. get e ''extensions'' = Some x \<and> get x n \<noteq> None)))"
proof (induction e i seen items rule: requires_entries.induct)
  case (2 e i seen entry entries)
  show ?case
  proof (cases "as_str entry")
    case None
    then show ?thesis by (cases entry) auto
  next
    case (Some name)
    with 2 [OF Some] show ?thesis
      by (cases "get e ''extensions''") (auto simp: Cons_eq_map_conv)
  qed
qed auto

lemma check_requires_Inr [result_simps]:
  "check_requires e = Inr ks \<longleftrightarrow>
     (get e ''requires'' = None \<and> ks = []) \<or>
     (get e ''requires'' = Some (Array (map String ks)) \<and> distinct ks \<and>
       (\<forall>n \<in> set ks. CHR ''/'' \<in> set n \<longrightarrow> (\<exists>x. get e ''extensions'' = Some x \<and> get x n \<noteq> None)))"
  by (auto simp: check_requires_def requires_entries_Inr split: option.splits jvalue.splits)

lemma precondition_entries_Inr:
  "precondition_entries i acc items = Inr ps \<Longrightarrow> distinct (map fst acc) \<Longrightarrow>
     (\<forall>(s, r) \<in> set acc. is_subject s \<and> 0 \<le> r) \<Longrightarrow>
   distinct (map fst ps) \<and> (\<forall>(s, r) \<in> set ps. is_subject s \<and> 0 \<le> r) \<and> length ps = length acc + length items"
proof (induction i acc items arbitrary: ps rule: precondition_entries.induct)
  case (2 i acc item items)
  from "2.prems"(1) obtain ms s r where item: "item = Object ms" and s: "get item ''subject'' = Some s" "is_subject s"
      "0 \<le> r" "s \<notin> set (map fst acc)"
    and rest: "precondition_entries (Suc i) (acc @ [(s, r)]) items = Inr ps"
    unfolding precondition_entries.simps Let_def
    by (auto simp: result_simps simp del: get.simps split: jvalue.splits option.splits if_splits)
  have "distinct (map fst (acc @ [(s, r)]))" "\<forall>(s, r) \<in> set (acc @ [(s, r)]). is_subject s \<and> 0 \<le> r"
    using s "2.prems" by auto
  from "2.IH" [OF refl item s(1) s(4) rest this] show ?case by simp
qed auto

lemma check_preconditions_Inr:
  "check_preconditions e = Inr ps \<Longrightarrow>
   distinct (map fst ps) \<and> (\<forall>(s, r) \<in> set ps. is_subject s \<and> 0 \<le> r) \<and> length ps \<le> 16"
  using precondition_entries_Inr [of 0 "[]" _ ps]
  by (auto simp: check_preconditions_def split: option.splits jvalue.splits if_splits)

definition payload_ok :: "string \<Rightarrow> jvalue \<Rightarrow> bool" where
  "payload_ok operation payload \<longleftrightarrow> is_object payload \<and>
     (\<forall>allowed required. payload_members operation = Some (allowed, required) \<longrightarrow>
        set (keys payload) \<subseteq> set allowed \<and> (\<forall>n \<in> set required. get payload n \<noteq> None))"

lemma check_payload_Inr [result_simps]:
  "is_object payload \<Longrightarrow> check_payload operation payload = Inr u \<longleftrightarrow> payload_ok operation payload"
  by (cases payload) (auto simp: check_payload_def payload_ok_def result_simps split: option.splits)

lemma checked_payload_Inr [result_simps]:
  "checked_payload operation e = Inr p \<longleftrightarrow> get e ''payload'' = Some p \<and> payload_ok operation p"
  by (cases "get e ''payload''") (auto simp: checked_payload_def result_simps payload_ok_def)

lemma operation_name_Inr [result_simps]:
  "operation_name e = Inr name \<longleftrightarrow> get e ''operation'' = Some (String name) \<and> is_dotted_name name"
  by (auto simp: operation_name_def split: option.splits jvalue.splits)

lemma optional_natural_Inr [result_simps]:
  "optional_natural e name = Inr r \<longleftrightarrow>
     (get e name = None \<and> r = None) \<or> (\<exists>n. get e name = Some (Integer n) \<and> 0 \<le> n \<and> r = Some n)"
  by (auto simp: optional_natural_def split: option.splits jvalue.splits)

lemma parse_command_Inr:
  assumes "parse_command e = Inr c"
  shows "is_object e" "set (keys e) \<subseteq> set COMMAND_MEMBERS" "\<forall>n \<in> set COMMAND_REQUIRED. get e n \<noteq> None"
    "get e ''operation'' = Some (String (c_operation c))" "is_dotted_name (c_operation c)"
    "get e ''command_id'' = Some (String (c_command_id c))" "is_identifier (c_command_id c)"
    "get e ''dedupe_generation'' = Some (Integer (c_dedupe_generation c))" "0 \<le> c_dedupe_generation c"
    "get e ''subject'' = Some (c_subject c)" "is_subject (c_subject c)"
    "check_preconditions e = Inr (c_preconditions c)"
    "check_requires e = Inr (c_requires c)"
    "get e ''command_digest'' = Some (String (c_command_digest c))"
    "get e ''payload'' = Some (c_payload c)" "payload_ok (c_operation c) (c_payload c)"
proof -
  from assms have m: "check_members e COMMAND_MEMBERS COMMAND_REQUIRED = Inr ()"
    and i: "check_identifier e ''command_id'' = Inr ()"
    by (auto simp: parse_command_def rbind_Inr_iff)
  from m show o: "is_object e" "set (keys e) \<subseteq> set COMMAND_MEMBERS" "\<forall>n \<in> set COMMAND_REQUIRED. get e n \<noteq> None"
    by (auto simp: check_members_Inr)
  then obtain t where t: "get e ''command_id'' = Some (String t)" "is_identifier t"
    using i by (fastforce simp: COMMAND_REQUIRED_def check_identifier_Inr)
  from assms show "get e ''operation'' = Some (String (c_operation c))" "is_dotted_name (c_operation c)"
    "get e ''command_id'' = Some (String (c_command_id c))" "is_identifier (c_command_id c)"
    "get e ''dedupe_generation'' = Some (Integer (c_dedupe_generation c))" "0 \<le> c_dedupe_generation c"
    "get e ''subject'' = Some (c_subject c)" "is_subject (c_subject c)"
    "check_preconditions e = Inr (c_preconditions c)"
    "check_requires e = Inr (c_requires c)"
    "get e ''payload'' = Some (c_payload c)" "payload_ok (c_operation c) (c_payload c)"
    unfolding parse_command_def using t
    by (auto simp: rbind_Inr_iff ok_or_Inr_iff check_subject_Inr operation_name_Inr natural_member_Inr
        checked_payload_Inr member_str_def)
  from assms show "get e ''command_digest'' = Some (String (c_command_digest c))"
    unfolding parse_command_def
    by (auto simp: rbind_Inr_iff ok_or_Inr_iff split: option.splits jvalue.splits)
qed

text \<open>The checks that make a command also give it an intent: the digest can always be recomputed.\<close>

lemma parse_command_intent:
  assumes "parse_command e = Inr c" "get e ''extensions'' = None \<or> (\<exists>ms. get e ''extensions'' = Some (Object ms))"
  shows "\<exists>i. command_intent e = Inr i"
proof -
  note c = parse_command_Inr [OF assms(1)]
  have req: "set INTENT_MEMBERS \<subseteq> set COMMAND_REQUIRED" by (simp add: INTENT_MEMBERS_def COMMAND_REQUIRED_def)
  then have five: "\<forall>n \<in> set INTENT_MEMBERS. get e n \<noteq> None" using c(3) by blast
  then have "get e ''requires'' \<noteq> None" by (simp add: INTENT_MEMBERS_def)
  with c(13) have r: "get e ''requires'' = Some (Array (map String (c_requires c)))" "distinct (c_requires c)"
    "\<forall>n \<in> set (c_requires c). CHR ''/'' \<in> set n \<longrightarrow> (\<exists>x. get e ''extensions'' = Some x \<and> get x n \<noteq> None)"
    by (auto simp: check_requires_Inr)
  obtain ms where ms: "get e ''extensions'' = Some (Object ms) \<or> (get e ''extensions'' = None \<and> ms = [])"
    using assms(2) by blast
  then have "\<forall>k \<in> set (c_requires c). is_extension_key k \<longrightarrow> k \<in> dom (map_of ms)"
    using r(3) by (auto simp: is_extension_key_def)
  with c(1) five r(1,2) ms show ?thesis unfolding command_intent_Inr by blast
qed

subsection \<open>Two commands, computed\<close>

definition example_subject :: jvalue where
  "example_subject = Object [(''kind'', String ''a.b''), (''id'', String ''x'')]"

definition swapped_subject :: jvalue where
  "swapped_subject = Object [(''id'', String ''x''), (''kind'', String ''a.b'')]"

definition example_envelope :: "jvalue list \<Rightarrow> jvalue" where
  "example_envelope preconditions =
     Object [(''operation'', String ''a.b''), (''message_id'', String ''m''), (''command_id'', String ''c''),
       (''dedupe_generation'', Integer 0), (''subject'', example_subject), (''preconditions'', Array preconditions),
       (''requires'', Array []), (''command_digest'', String ''d''), (''payload'', Object [])]"

lemma dotted_ab: "is_dotted_name ''a.b''"
  by (simp add: is_dotted_name_def dotted_head_def dotted_tail_def ascii_defs)

lemma identifier_letters: "is_identifier ''x''" "is_identifier ''m''" "is_identifier ''c''"
  by (simp_all add: is_identifier_def ascii_defs)

lemma example_subjects [simp]:
  "check_subject example_subject p = Inr ()" "check_subject swapped_subject p = Inr ()"
  "swapped_subject \<noteq> example_subject" "example_subject \<noteq> swapped_subject"
  by (simp_all add: check_subject_def example_subject_def swapped_subject_def dotted_ab identifier_letters)

lemma example_envelope_accepted:
  assumes "check_preconditions (example_envelope ps) = Inr preconditions"
  shows "\<exists>c. parse_command (example_envelope ps) = Inr c \<and> c_preconditions c = preconditions"
proof -
  have "check_members (example_envelope ps) COMMAND_MEMBERS COMMAND_REQUIRED = Inr ()"
    by (simp add: example_envelope_def check_members_def COMMAND_MEMBERS_def COMMAND_REQUIRED_def)
  moreover have "check_identifier (example_envelope ps) ''message_id'' = Inr ()"
    "check_identifier (example_envelope ps) ''command_id'' = Inr ()"
    "check_identifier (example_envelope ps) ''grant'' = Inr ()"
    by (simp_all add: example_envelope_def check_identifier_def identifier_letters)
  moreover have "operation_name (example_envelope ps) = Inr ''a.b''"
    by (simp add: example_envelope_def operation_name_def dotted_ab)
  moreover have "natural_member (example_envelope ps) ''dedupe_generation'' p = Inr 0" for p
    by (simp add: example_envelope_def natural_member_def)
  moreover have "get (example_envelope ps) ''subject'' = Some example_subject"
    "get (example_envelope ps) ''command_digest'' = Some (String ''d'')"
    by (simp_all add: example_envelope_def)
  moreover have "optional_natural (example_envelope ps) ''authority_epoch'' = Inr None"
    "check_requires (example_envelope ps) = Inr []" "caused_by_of (example_envelope ps) = Inr []"
    by (simp_all add: example_envelope_def optional_natural_def check_requires_def caused_by_of_def)
  moreover have "checked_payload ''a.b'' (example_envelope ps) = Inr (Object [])"
    by (simp add: example_envelope_def checked_payload_def check_payload_def payload_members_def)
  ultimately show ?thesis using assms by (simp add: parse_command_def)
qed

lemma plain_accepted: "\<exists>c. parse_command (example_envelope []) = Inr c"
  using example_envelope_accepted [of "[]" "[]"] by (simp add: check_preconditions_def example_envelope_def) blast

definition twice :: "jvalue list" where
  "twice = [Object [(''subject'', example_subject), (''revision'', Integer 1)],
     Object [(''subject'', swapped_subject), (''revision'', Integer 2)]]"

lemma reordered_accepted:
  "\<exists>c. parse_command (example_envelope twice) = Inr c \<and>
     c_preconditions c = [(example_subject, 1), (swapped_subject, 2)]"
proof (rule example_envelope_accepted)
  have "get (example_envelope twice) ''preconditions'' = Some (Array twice)" by (simp add: example_envelope_def)
  then show "check_preconditions (example_envelope twice) = Inr [(example_subject, 1), (swapped_subject, 2)]"
    by (simp add: check_preconditions_def twice_def natural_member_def)
qed

subsection \<open>Properties\<close>

text \<open>
  C25. A message within no limit's reach passes; otherwise the limit reported is the first one
  broken in the order depth, array items, string bytes, payload bytes, and the depth, item and
  string measures are those of every nested value, member names included.
\<close>

theorem limits_in_priority_order:
  "check_limits params l = Inl e \<longleftrightarrow>
     (let deep = (levels params \<noteq> 0 \<and> max_depth l < int (levels params));
          wide = (\<exists>items. Array items \<in> set (subvalues params) \<and> max_array_items l < int (length items));
          long = (\<exists>text. max_string_bytes l < int (length text) \<and>
            (String text \<in> set (subvalues params) \<or> (\<exists>w \<in> set (subvalues params). text \<in> set (keys w))));
          big = (\<exists>payload. get params ''payload'' = Some payload \<and> max_payload_bytes l < int (length (to_canonical payload)))
      in (deep \<and> e = limit_exceeded ''max_depth'' (max_depth l)) \<or>
         (\<not> deep \<and> wide \<and> e = limit_exceeded ''max_array_items'' (max_array_items l)) \<or>
         (\<not> deep \<and> \<not> wide \<and> long \<and> e = limit_exceeded ''max_string_bytes'' (max_string_bytes l)) \<or>
         (\<not> deep \<and> \<not> wide \<and> \<not> long \<and> big \<and> e = limit_exceeded ''max_payload_bytes'' (max_payload_bytes l)))"
  unfolding check_limits_def Let_def exceeds_depth_iff [of 1, simplified] exceeds_array_items_iff exceeds_string_bytes_iff
  by (auto split: option.splits)

lemma limits_in_priority_order_witness:
  "check_limits (Object [(''a'', Array [Null, Null])])
     \<lparr>max_frame_bytes = 9, max_payload_bytes = 9, max_string_bytes = 0, max_array_items = 1, max_depth = 2\<rparr> =
   Inl (limit_exceeded ''max_array_items'' 1)"
  by (simp add: limits_in_priority_order)




end
