(* ===== verification/Ids.thy ===== *)
theory Ids
  imports Envelope
begin

text \<open>
  The ids a packet names, \<open>ids.rs\<close>: \<open>encode_id\<close> spells any bytes inside the identifier grammar
  and \<open>decode_id\<close> reads them back; \<open>bounded\<close> keeps an id within 128 bytes by replacing the front
  of a long one with a digest. The lemmas show that every id is an identifier, that a shortened
  id is never an unshortened one, and that the readable tail is cut at an escape boundary.
\<close>

definition ID_MAX :: nat where "ID_MAX = 128"

definition MARK :: string where "MARK = ''~~''"

definition DIGEST_DIGITS :: nat where "DIGEST_DIGITS = 32"

definition DOMAIN_TAG :: string where "DOMAIN_TAG = ''cbr-packet-id/1'' @ [CHR 0x0A]"

definition kept :: "char \<Rightarrow> bool" where
  "kept b \<longleftrightarrow> is_ascii_alphanumeric b \<or> b \<in> set ''._-''"

definition in_grammar :: "char \<Rightarrow> bool" where
  "in_grammar b \<longleftrightarrow> kept b \<or> b \<in> set '':~''"

definition upper_hex_digit :: "nat \<Rightarrow> char" where
  "upper_hex_digit n = char_of (if n < 10 then 0x30 + n else 0x41 + n - 10)"

definition encode_byte :: "char \<Rightarrow> string" where
  "encode_byte b =
     (if kept b then [b]
      else if b = CHR ''/'' then '':''
      else [CHR ''~'', upper_hex_digit (bval b div 16), upper_hex_digit (bval b mod 16)])"

definition encode_id :: "string \<Rightarrow> string" where
  "encode_id raw = concat (map encode_byte raw)"

definition upper_hex_value :: "char \<Rightarrow> nat option" where
  "upper_hex_value b =
     (if is_ascii_digit b then Some (bval b - 0x30)
      else if 0x41 \<le> bval b \<and> bval b \<le> 0x46 then Some (bval b - 0x41 + 10)
      else None)"

fun decode_id :: "string \<Rightarrow> string option" where
  "decode_id [] = Some []"
| "decode_id (c # cs) =
     (if c = CHR '':'' then map_option ((#) CHR ''/'') (decode_id cs)
      else if c = CHR ''~'' then
        (case cs of
           a # b # rest \<Rightarrow>
             (case (upper_hex_value a, upper_hex_value b) of
                (Some h, Some l) \<Rightarrow> map_option ((#) (char_of (h * 16 + l))) (decode_id rest)
              | _ \<Rightarrow> None)
         | _ \<Rightarrow> None)
      else if kept c then map_option ((#) c) (decode_id cs)
      else None)"

definition is_ascii_hexdigit :: "char \<Rightarrow> bool" where
  "is_ascii_hexdigit b \<longleftrightarrow>
     is_ascii_digit b \<or> (0x41 \<le> bval b \<and> bval b \<le> 0x46) \<or> (0x61 \<le> bval b \<and> bval b \<le> 0x66)"

text \<open>Which positions sit inside an escape, read left to right; one more than the bytes.\<close>

fun inside :: "string \<Rightarrow> bool list" where
  "inside [] = [False]"
| "inside (c # cs) =
     (case cs of
        a # b # rest \<Rightarrow>
          if c = CHR ''~'' \<and> is_ascii_hexdigit a \<and> is_ascii_hexdigit b
          then False # True # True # inside rest
          else False # inside cs
      | _ \<Rightarrow> False # inside cs)"

text \<open>\<open>rposition\<close>, plus one: just after the last byte outside the grammar.\<close>

definition after_outside :: "string \<Rightarrow> nat" where
  "after_outside bs = length bs - length (takeWhile in_grammar (rev bs))"

definition tail_start :: "string \<Rightarrow> nat \<Rightarrow> nat" where
  "tail_start bs room =
     (let flags = inside bs;
          lowest = max (length bs - room) (after_outside bs)
      in case find (\<lambda>i. bs ! i = CHR '':'' \<and> \<not> flags ! i) [lowest..<length bs] of
           Some i \<Rightarrow> i
         | None \<Rightarrow>
             (case find (\<lambda>i. \<not> flags ! i) [lowest..<length bs + 1] of
                Some i \<Rightarrow> i
              | None \<Rightarrow> length bs))"

definition tail :: "string \<Rightarrow> nat \<Rightarrow> string" where
  "tail rest room = drop (tail_start rest room) rest"

definition bounded :: "hasher \<Rightarrow> string \<Rightarrow> string \<Rightarrow> string" where
  "bounded sha pre rest =
     (let whole = pre @ rest in
      if \<not> prefix ''~'' rest \<and> is_identifier whole then whole
      else
        (let digest = sha256_hex sha (DOMAIN_TAG @ rest);
             room = ID_MAX - (length pre + length MARK + DIGEST_DIGITS)
         in pre @ MARK @ take DIGEST_DIGITS digest @ tail rest room))"

definition span :: "string \<Rightarrow> string \<Rightarrow> int \<Rightarrow> string" where
  "span repository path start_byte =
     ''span-'' @ repository @ '':'' @ encode_id path @ ''-'' @ int_text start_byte"

definition anchor :: "string \<Rightarrow> string \<Rightarrow> string" where
  "anchor repository name = ''anchor-'' @ repository @ '':'' @ encode_id name"

definition claim :: "string \<Rightarrow> string" where
  "claim c = ''claim-'' @ c"

definition discovered_section :: "hasher \<Rightarrow> string \<Rightarrow> string" where
  "discovered_section sha i = bounded sha ''d-'' i"

definition discovered_citation :: "hasher \<Rightarrow> string \<Rightarrow> string" where
  "discovered_citation sha i = bounded sha ''dc-'' i"

definition claim_section :: "hasher \<Rightarrow> string \<Rightarrow> string" where
  "claim_section sha claim_id = discovered_section sha (claim claim_id)"

definition item_section :: "hasher \<Rightarrow> string \<Rightarrow> string" where
  "item_section sha item = bounded sha ''s-'' item"

definition item_citation :: "hasher \<Rightarrow> string \<Rightarrow> string" where
  "item_citation sha item = bounded sha ''c-'' item"

definition omission :: "hasher \<Rightarrow> string \<Rightarrow> nat \<Rightarrow> string" where
  "omission sha item number = bounded sha ''s-'' (item @ ''.o'' @ dec_digits number)"

definition packet_artifact :: "hasher \<Rightarrow> string \<Rightarrow> int \<Rightarrow> string" where
  "packet_artifact sha request revision = bounded sha ''packet.'' (request @ ''.'' @ int_text revision)"

subsection \<open>The spelling reads back\<close>

lemma kept_not_mark [simp]: "kept b \<Longrightarrow> b \<noteq> CHR '':'' \<and> b \<noteq> CHR ''~'' \<and> b \<noteq> CHR ''/''"
  by (auto simp: kept_def ascii_defs)

lemma upper_hex_value_digit [simp]: "n < 16 \<Longrightarrow> upper_hex_value (upper_hex_digit n) = Some n"
  by (auto simp: upper_hex_value_def upper_hex_digit_def is_ascii_digit_def)

lemma decode_encode_byte: "decode_id (encode_byte b @ cs) = map_option ((#) b) (decode_id cs)"
proof -
  consider "kept b" | "b = CHR ''/''" | "\<not> kept b" "b \<noteq> CHR ''/''" by blast
  then show ?thesis
  proof cases
    case 3
    have "bval b div 16 < 16" "bval b mod 16 < 16" by (simp_all add: less_mult_imp_div_less)
    moreover have "bval b div 16 * 16 + bval b mod 16 = bval b" by (rule div_mult_mod_eq)
    ultimately have "decode_id (CHR ''~'' # upper_hex_digit (bval b div 16) # upper_hex_digit (bval b mod 16) # cs)
        = map_option ((#) (char_of (bval b :: nat))) (decode_id cs)"
      by simp
    with 3 show ?thesis by (simp add: encode_byte_def)
  qed (auto simp: encode_byte_def kept_def ascii_defs)
qed

lemma decode_encode_append:
  "decode_id (encode_id raw @ rest) = map_option ((@) raw) (decode_id rest)"
proof (induction raw)
  case Nil
  show ?case by (cases "decode_id rest") (simp_all add: encode_id_def)
next
  case (Cons b raw)
  have "encode_id (b # raw) @ rest = encode_byte b @ encode_id raw @ rest" by (simp add: encode_id_def)
  with Cons show ?case by (cases "decode_id rest") (simp_all add: decode_encode_byte)
qed

lemma decode_encode_id: "decode_id (encode_id raw) = Some raw"
  using decode_encode_append [of raw "[]"] by simp

interpretation ids: codec "\<lambda>_. True" encode_id decode_id
  by unfold_locales (simp add: decode_encode_id)

subsection \<open>Where the tail starts\<close>

lemma length_inside [simp]: "length (inside bs) = Suc (length bs)"
  by (induction bs rule: inside.induct) (auto split: list.split)

lemma inside_length [simp]: "inside bs ! length bs = False"
  by (induction bs rule: inside.induct) (auto split: list.split)

lemma inside_0 [simp]: "inside bs ! 0 = False"
  by (cases bs) (auto split: list.split)

lemma find_upt_SomeD: "find P [m..<n] = Some i \<Longrightarrow> m \<le> i \<and> i < n \<and> P i"
  by (auto simp: find_Some_iff)

lemma after_outside_le: "after_outside bs \<le> length bs"
  by (simp add: after_outside_def)

lemma in_grammar_after: "after_outside bs \<le> i \<Longrightarrow> list_all in_grammar (drop i bs)"
proof -
  assume i: "after_outside bs \<le> i"
  let ?k = "length (takeWhile in_grammar (rev bs))"
  have "drop (length bs - ?k) bs = rev (take ?k (rev bs))" by (simp add: rev_take)
  also have "take ?k (rev bs) = takeWhile in_grammar (rev bs)" by (rule takeWhile_eq_take [symmetric])
  finally have "list_all in_grammar (drop (after_outside bs) bs)"
    unfolding after_outside_def by (auto simp: list_all_iff dest: set_takeWhileD)
  moreover have "drop i bs = drop (i - after_outside bs) (drop (after_outside bs) bs)" using i by simp
  ultimately show ?thesis by (metis in_set_dropD list_all_iff)
qed

lemma tail_start_props:
  fixes bs room
  defines "k \<equiv> tail_start bs room"
  shows "k \<le> length bs" "length bs - room \<le> k" "after_outside bs \<le> k" "\<not> inside bs ! k"
proof -
  define lowest where "lowest = max (length bs - room) (after_outside bs)"
  have low: "lowest \<le> length bs" by (simp add: lowest_def after_outside_le)
  have "k \<le> length bs \<and> lowest \<le> k \<and> \<not> inside bs ! k"
  proof (cases "find (\<lambda>i. bs ! i = CHR '':'' \<and> \<not> inside bs ! i) [lowest..<length bs]")
    case (Some i)
    with find_upt_SomeD [OF Some] show ?thesis by (simp add: k_def tail_start_def Let_def lowest_def)
  next
    case none: None
    show ?thesis
    proof (cases "find (\<lambda>i. \<not> inside bs ! i) [lowest..<length bs + 1]")
      case (Some i)
      with none find_upt_SomeD [OF Some] show ?thesis
        by (simp add: k_def tail_start_def Let_def lowest_def del: upt_Suc)
    next
      case None
      with low show ?thesis by (auto simp: find_None_iff simp del: upt_Suc)
    qed
  qed
  then show "k \<le> length bs" "length bs - room \<le> k" "after_outside bs \<le> k" "\<not> inside bs ! k"
    by (auto simp: lowest_def)
qed

lemma length_tail: "length (tail rest room) \<le> room"
  using tail_start_props(1,2) [of rest room] by (simp add: tail_def)

lemma tail_in_grammar: "list_all in_grammar (tail rest room)"
  unfolding tail_def by (rule in_grammar_after [OF tail_start_props(3)])

lemma tail_suffix: "suffix (tail rest room) rest"
  by (simp add: tail_def suffix_drop)

lemma upper_hex_is_hexdigit: "upper_hex_value a = Some n \<Longrightarrow> is_ascii_hexdigit a"
  by (auto simp: upper_hex_value_def is_ascii_hexdigit_def split: if_splits)

text \<open>Cut where no escape is open, text that reads back as \<open>raw\<close> still reads back, as its end.\<close>

lemma decode_drop:
  "decode_id bs = Some raw \<Longrightarrow> i \<le> length bs \<Longrightarrow> \<not> inside bs ! i \<Longrightarrow>
   \<exists>n. decode_id (drop i bs) = Some (drop n raw)"
proof (induction bs arbitrary: raw i rule: decode_id.induct)
  case (2 c cs)
  show ?case
  proof (cases i)
    case 0
    with "2.prems"(1) have "decode_id (drop i (c # cs)) = Some (drop 0 raw)" by simp
    then show ?thesis by blast
  next
    case (Suc j)
    show ?thesis
    proof (cases "c = CHR ''~''")
      case True
      then obtain a b rest h l rs where cs: "cs = a # b # rest" and hl: "upper_hex_value a = Some h" "upper_hex_value b = Some l"
        and rs: "decode_id rest = Some rs" "raw = char_of (h * 16 + l) # rs"
        using "2.prems"(1) by (auto split: list.splits option.splits)
      have ins: "inside (c # cs) = False # True # True # inside rest"
        using True cs hl upper_hex_is_hexdigit by simp
      with "2.prems"(3) have nj: "\<not> (True # True # inside rest) ! j" unfolding Suc by (simp del: inside.simps)
      have "j \<noteq> 0" "j \<noteq> 1" using nj by (intro notI; simp)+
      then obtain k where j: "j = Suc (Suc k)" by (metis One_nat_def old.nat.exhaust)
      have "\<exists>n. decode_id (drop k rest) = Some (drop n rs)"
        using "2.IH"(2) [of a "b # rest" b rest "Some h" "Some l" h l rs k] True cs hl rs "2.prems"(2,3) Suc j ins by auto
      then obtain n where "decode_id (drop k rest) = Some (drop n rs)" by blast
      then have "decode_id (drop i (c # cs)) = Some (drop (Suc n) raw)" using Suc j cs rs by simp
      then show ?thesis by blast
    next
      case False
      then obtain r rs where rs: "decode_id cs = Some rs" "raw = r # rs"
        using "2.prems"(1) by (auto split: if_splits)
      have "inside (c # cs) = False # inside cs" using False by (auto split: list.split)
      then have "\<exists>n. decode_id (drop j cs) = Some (drop n rs)"
        using False rs "2.prems" Suc "2.IH"(1,3) by (cases "c = CHR '':''") (auto split: if_splits)
      then obtain n where "decode_id (drop j cs) = Some (drop n rs)" by blast
      then have "decode_id (drop i (c # cs)) = Some (drop (Suc n) raw)" using Suc rs by simp
      then show ?thesis by blast
    qed
  qed
qed simp

lemma decode_tail:
  "decode_id rest = Some raw \<Longrightarrow> \<exists>n. decode_id (tail rest room) = Some (drop n raw)"
  unfolding tail_def by (rule decode_drop) (simp_all add: tail_start_props)

subsection \<open>Every id is an identifier\<close>

lemma is_identifier_iff:
  "is_identifier text \<longleftrightarrow> (\<exists>b bs. text = b # bs \<and> length text \<le> ID_MAX \<and> is_ascii_alphanumeric b \<and> list_all in_grammar bs)"
proof -
  have "list_all (\<lambda>b. is_ascii_alphanumeric b \<or> b \<in> set ''._:~-'') bs \<longleftrightarrow> list_all in_grammar bs" for bs
    by (auto simp: list_all_iff in_grammar_def kept_def)
  then show ?thesis unfolding is_identifier_def ID_MAX_def by (cases "text") (simp_all only: list.case, auto)
qed

lemma is_hex_in_grammar: "is_hex b \<Longrightarrow> in_grammar b"
  by (auto simp: is_hex_def in_grammar_def kept_def ascii_defs)

lemma encode_id_in_grammar: "list_all in_grammar (encode_id raw)"
proof -
  have up: "in_grammar (upper_hex_digit n)" if "n < 16" for n
    using that by (auto simp: upper_hex_digit_def in_grammar_def kept_def ascii_defs)
  have "list_all in_grammar (encode_byte b)" for b
    by (simp add: encode_byte_def up less_mult_imp_div_less) (simp add: in_grammar_def)
  then show ?thesis by (simp add: encode_id_def list_all_iff)
qed

definition good_prefix :: "string \<Rightarrow> bool" where
  "good_prefix pre \<longleftrightarrow> pre \<noteq> [] \<and> is_ascii_alphanumeric (hd pre) \<and> list_all in_grammar pre \<and>
     length pre + length MARK + DIGEST_DIGITS \<le> ID_MAX"

lemma good_prefixes [simp]:
  "good_prefix ''d-''" "good_prefix ''dc-''" "good_prefix ''s-''" "good_prefix ''c-''" "good_prefix ''packet.''"
  by (simp_all add: good_prefix_def in_grammar_def kept_def ascii_defs MARK_def DIGEST_DIGITS_def ID_MAX_def)

lemma bounded_is_identifier:
  assumes "good_prefix pre" "length (sha (DOMAIN_TAG @ rest)) = 32"
  shows "is_identifier (bounded sha pre rest)"
proof (cases "\<not> prefix ''~'' rest \<and> is_identifier (pre @ rest)")
  case True
  then show ?thesis by (simp add: bounded_def)
next
  case False
  obtain b bs where pre: "pre = b # bs" "is_ascii_alphanumeric b" "list_all in_grammar bs"
    "length pre + length MARK + DIGEST_DIGITS \<le> ID_MAX"
    using assms(1) by (cases pre) (auto simp: good_prefix_def)
  define room where "room = ID_MAX - (length pre + length MARK + DIGEST_DIGITS)"
  define dig where "dig = take DIGEST_DIGITS (sha256_hex sha (DOMAIN_TAG @ rest))"
  have dig: "length dig = DIGEST_DIGITS" "list_all in_grammar dig"
    using sha256_hex_hex [of sha "DOMAIN_TAG @ rest"] is_hex_in_grammar assms(2)
    by (auto simp: dig_def length_sha256_hex DIGEST_DIGITS_def list_all_iff dest: in_set_takeD)
  have "bounded sha pre rest = pre @ MARK @ dig @ tail rest room"
    by (simp only: bounded_def Let_def False if_False dig_def room_def)
  moreover have "length (pre @ MARK @ dig @ tail rest room) \<le> ID_MAX"
    using length_tail [of rest room] dig(1) pre(4) unfolding room_def by simp
  moreover have "list_all in_grammar (bs @ MARK @ dig @ tail rest room)"
    using pre(3) dig(2) tail_in_grammar [of rest room] by (simp add: MARK_def in_grammar_def)
  ultimately show ?thesis unfolding is_identifier_iff using pre(1,2)
    by (intro exI [of _ b] exI [of _ "bs @ MARK @ dig @ tail rest room"]) simp
qed

text \<open>Whether an id keeps all of \<open>rest\<close>.\<close>

definition unshortened :: "string \<Rightarrow> string \<Rightarrow> bool" where
  "unshortened pre rest \<longleftrightarrow> \<not> prefix ''~'' rest \<and> is_identifier (pre @ rest)"

definition digest_part :: "hasher \<Rightarrow> string \<Rightarrow> string" where
  "digest_part sha rest = take DIGEST_DIGITS (sha256_hex sha (DOMAIN_TAG @ rest))"

lemma bounded_unshortened: "unshortened pre rest \<Longrightarrow> bounded sha pre rest = pre @ rest"
  by (simp add: bounded_def unshortened_def)

lemma bounded_shortened:
  assumes "\<not> unshortened pre rest"
  shows "bounded sha pre rest = pre @ MARK @ digest_part sha rest @
    tail rest (ID_MAX - (length pre + length MARK + DIGEST_DIGITS))"
  unfolding bounded_def Let_def digest_part_def
  by (simp only: assms [unfolded unshortened_def] if_False)

lemma length_digest_part: "length (sha (DOMAIN_TAG @ rest)) = 32 \<Longrightarrow> length (digest_part sha rest) = 32"
  by (simp add: digest_part_def length_sha256_hex DIGEST_DIGITS_def)

lemma bounded_eq:
  assumes "bounded sha pre rest = bounded sha pre rest'"
    "length (sha (DOMAIN_TAG @ rest)) = 32" "length (sha (DOMAIN_TAG @ rest')) = 32"
  shows "rest = rest' \<or> (\<not> unshortened pre rest \<and> \<not> unshortened pre rest' \<and> digest_part sha rest = digest_part sha rest')"
proof -
  have ne: False if "unshortened pre a" "\<not> unshortened pre b" "bounded sha pre a = bounded sha pre b" for a b
    using that bounded_unshortened [OF that(1), of sha] bounded_shortened [OF that(2), of sha]
    by (auto simp: unshortened_def MARK_def)
  consider "unshortened pre rest" "unshortened pre rest'" | "\<not> unshortened pre rest" "\<not> unshortened pre rest'"
    using ne assms(1) by metis
  then show ?thesis
  proof cases
    case 1
    then show ?thesis using assms(1) by (simp add: bounded_unshortened)
  next
    case 2
    then show ?thesis using assms length_digest_part [of sha] by (simp add: bounded_shortened)
  qed
qed

subsection \<open>Further facts\<close>

text \<open>
  Whatever a path or a name holds, the id made from it is an identifier the protocol accepts: at
  most 128 bytes, in the grammar, starting with a letter.
\<close>

theorem section_ids_are_identifiers:
  assumes "length (sha (DOMAIN_TAG @ rest)) = 32"
  shows "is_identifier (bounded sha ''d-'' rest) \<and> is_identifier (bounded sha ''dc-'' rest) \<and>
    is_identifier (bounded sha ''s-'' rest) \<and> is_identifier (bounded sha ''c-'' rest) \<and>
    is_identifier (bounded sha ''packet.'' rest)"
  using assms by (simp add: bounded_is_identifier)

lemma section_ids_are_identifiers_witness: "is_identifier (bounded (\<lambda>_. replicate 32 CHR ''h'') ''s-'' ''a path, with a space'')"
  using section_ids_are_identifiers [of "\<lambda>_. replicate 32 CHR ''h''" "''a path, with a space''"] by simp

text \<open>
  Two different texts get the same id under a prefix only if both had to be shortened and their
  digests agree on all 32 digits kept; a readable id is never taken for a shortened one.
\<close>

theorem ids_collide_only_by_digest:
  assumes "bounded sha pre rest = bounded sha pre rest'" "rest \<noteq> rest'"
    and "length (sha (DOMAIN_TAG @ rest)) = 32" "length (sha (DOMAIN_TAG @ rest')) = 32"
  shows "\<not> unshortened pre rest \<and> \<not> unshortened pre rest' \<and>
    take 32 (sha256_hex sha (DOMAIN_TAG @ rest)) = take 32 (sha256_hex sha (DOMAIN_TAG @ rest'))"
  using bounded_eq [OF assms(1,3,4)] assms(2) by (simp add: digest_part_def DIGEST_DIGITS_def)

lemma ids_collide_only_by_digest_witness:
  "bounded (\<lambda>_. replicate 32 CHR ''h'') ''s-'' '' '' = bounded (\<lambda>_. replicate 32 CHR ''h'') ''s-'' ''!'' \<and> \<not> unshortened ''s-'' '' ''"
proof -
  have short: "\<not> unshortened ''s-'' '' ''" "\<not> unshortened ''s-'' ''!''"
    by (simp_all add: unshortened_def is_identifier_def ascii_defs)
  have tail: "tail '' '' n = []" "tail ''!'' n = []" for n
    using tail_in_grammar [of "'' ''" n] tail_in_grammar [of "''!''" n]
      suffix_length_le [OF tail_suffix [of "'' ''" n]] tail_suffix [of "'' ''" n] tail_suffix [of "''!''" n]
    by (auto simp: suffix_Cons in_grammar_def kept_def ascii_defs)
  have "bounded (\<lambda>_. replicate 32 CHR ''h'') ''s-'' '' '' = bounded (\<lambda>_. replicate 32 CHR ''h'') ''s-'' ''!''"
    by (simp add: bounded_shortened [OF short(1)] bounded_shortened [OF short(2)] tail digest_part_def sha256_hex_def)
  then show ?thesis
    using ids_collide_only_by_digest [of "\<lambda>_. replicate 32 CHR ''h''" "''s-''" "'' ''" "''!''"] by simp
qed

text \<open>
  The spelling of a path inside the identifier grammar loses nothing: it decodes to the same
  bytes, uses only grammar characters, and any tail an id keeps of it decodes to the end of the
  same path.
\<close>

theorem encoded_paths_read_back:
  "decode_id (encode_id raw) = Some raw \<and> list_all in_grammar (encode_id raw) \<and>
   (\<exists>n. decode_id (tail (encode_id raw) room) = Some (drop n raw))"
  using decode_encode_id encode_id_in_grammar decode_tail [OF decode_encode_id] by blast

end
