(* ===== verification/Grants.thy ===== *)
theory Grants
  imports Envelope
begin

text \<open>
  Grant records and the authorization decision, \<open>grants.rs\<close> (CORE section 15): what a grant
  covers, why it refuses, in the order the reasons are reported, the record as it is stored and
  read back, and the rules of delegation. The locale \<open>attenuation\<close> is the contract between a
  resource and the resources it may be narrowed to; the delegation theorems rest on its
  interpretation for \<open>resource_covers\<close> and \<open>covers_resource\<close>.
\<close>

definition GRANT_KIND :: string where "GRANT_KIND = ''core.grant''"

definition KNOWN_SCOPES :: "string list" where "KNOWN_SCOPES = [''core-test'']"

record subject_key =
  sk_kind :: string
  sk_id :: string

record resource =
  r_kind :: string
  r_id :: "string option"
  r_id_prefix :: "string option"

definition resource_covers :: "resource \<Rightarrow> subject_key \<Rightarrow> bool" where
  "resource_covers r key \<longleftrightarrow>
     r_kind r = sk_kind key \<and>
     (case (r_id r, r_id_prefix r) of
        (Some exact, _) \<Rightarrow> exact = sk_id key
      | (None, Some pre) \<Rightarrow> prefix pre (sk_id key)
      | (None, None) \<Rightarrow> True)"

definition covers_resource :: "resource \<Rightarrow> resource \<Rightarrow> bool" where
  "covers_resource r narrower \<longleftrightarrow>
     r_kind r = r_kind narrower \<and>
     (case (r_id r, r_id_prefix r) of
        (None, None) \<Rightarrow> True
      | (Some exact, _) \<Rightarrow> r_id narrower = Some exact
      | (None, Some pre) \<Rightarrow>
          (case (r_id narrower, r_id_prefix narrower) of
             (Some i, _) \<Rightarrow> prefix pre i
           | (None, Some child) \<Rightarrow> prefix pre child
           | (None, None) \<Rightarrow> False))"

definition opt_member :: "string \<Rightarrow> jvalue option \<Rightarrow> (string \<times> jvalue) list" where
  "opt_member name v = (case v of None \<Rightarrow> [] | Some w \<Rightarrow> [(name, w)])"

definition resource_value :: "resource \<Rightarrow> jvalue" where
  "resource_value r =
     Object ([(''kind'', String (r_kind r))] @ opt_member ''id'' (map_option String (r_id r))
       @ opt_member ''id_prefix'' (map_option String (r_id_prefix r)))"

record delegation =
  d_allowed :: bool
  d_max_depth :: int

record binding =
  b_scope :: string
  b_epoch :: int

record grant =
  g_id :: string
  g_issuer :: string
  g_holder :: string
  g_audience :: string
  g_rights :: "string list"
  g_resources :: "resource list"
  g_expires_at :: "string option"
  g_authority_binding :: "binding option"
  g_delegation :: delegation
  g_parent :: "string option"
  g_revoked :: bool
  g_constraints :: "jvalue list"

datatype denial =
    GrantNotFound | Revoked | Expired | AuthorityEpochStale | RightMissing | OutOfScope
  | BindingViolation | DelegationExceeded | NotAuthority | GrantRequired

fun denial_reason :: "denial \<Rightarrow> string" where
  "denial_reason GrantNotFound = ''grant_not_found''"
| "denial_reason Revoked = ''revoked''"
| "denial_reason Expired = ''expired''"
| "denial_reason AuthorityEpochStale = ''authority_epoch_stale''"
| "denial_reason RightMissing = ''right_missing''"
| "denial_reason OutOfScope = ''out_of_scope''"
| "denial_reason BindingViolation = ''binding_violation''"
| "denial_reason DelegationExceeded = ''delegation_exceeded''"
| "denial_reason NotAuthority = ''not_authority''"
| "denial_reason GrantRequired = ''grant_required''"

definition denial_error :: "denial \<Rightarrow> protocol_error" where
  "denial_error d = permission_denied (denial_reason d)"

text \<open>The derived order: the order the reasons are reported in.\<close>

fun denial_rank :: "denial \<Rightarrow> nat" where
  "denial_rank GrantNotFound = 0"
| "denial_rank Revoked = 1"
| "denial_rank Expired = 2"
| "denial_rank AuthorityEpochStale = 3"
| "denial_rank RightMissing = 4"
| "denial_rank OutOfScope = 5"
| "denial_rank BindingViolation = 6"
| "denial_rank DelegationExceeded = 7"
| "denial_rank NotAuthority = 8"
| "denial_rank GrantRequired = 9"

lemma denial_rank_inj: "denial_rank a = denial_rank b \<Longrightarrow> a = b"
  by (cases a; cases b; simp)

instantiation denial :: linorder
begin

definition less_eq_denial :: "denial \<Rightarrow> denial \<Rightarrow> bool" where
  "less_eq_denial a b \<longleftrightarrow> denial_rank a \<le> denial_rank b"

definition less_denial :: "denial \<Rightarrow> denial \<Rightarrow> bool" where
  "less_denial a b \<longleftrightarrow> denial_rank a < denial_rank b"

instance
  by standard (auto simp: less_eq_denial_def less_denial_def dest: denial_rank_inj)

end

type_synonym need = "string \<times> subject_key option"

record auth_context =
  ctx_now :: string
  ctx_epochs :: "(string \<times> int) list"

definition epoch_of :: "auth_context \<Rightarrow> string \<Rightarrow> int" where
  "epoch_of c scope = (case map_of (ctx_epochs c) scope of None \<Rightarrow> - 1 | Some epoch \<Rightarrow> epoch)"

definition grant_key :: "string \<Rightarrow> subject_key" where
  "grant_key i = \<lparr>sk_kind = GRANT_KIND, sk_id = i\<rparr>"

subsection \<open>The stored record\<close>

definition delegation_value :: "delegation \<Rightarrow> jvalue" where
  "delegation_value d = Object [(''allowed'', Bool (d_allowed d)), (''max_depth'', Integer (d_max_depth d))]"

definition binding_value :: "binding \<Rightarrow> jvalue" where
  "binding_value b = Object [(''scope'', String (b_scope b)), (''epoch'', Integer (b_epoch b))]"

definition grant_value :: "grant \<Rightarrow> jvalue" where
  "grant_value g =
     Object ([(''id'', String (g_id g)), (''issuer'', String (g_issuer g)), (''holder'', String (g_holder g)),
        (''audience'', String (g_audience g)), (''rights'', Array (map String (g_rights g))),
        (''resources'', Array (map resource_value (g_resources g)))]
       @ opt_member ''expires_at'' (map_option String (g_expires_at g))
       @ opt_member ''authority_binding'' (map_option binding_value (g_authority_binding g))
       @ [(''delegation'', delegation_value (g_delegation g))]
       @ opt_member ''parent'' (map_option String (g_parent g))
       @ (if g_constraints g = [] then [] else [(''constraints'', Array (g_constraints g))])
       @ [(''state'', String (if g_revoked g then ''revoked'' else ''active''))])"

definition read_resource :: "jvalue \<Rightarrow> resource" where
  "read_resource item =
     \<lparr>r_kind = (case member_str item ''kind'' of None \<Rightarrow> [] | Some k \<Rightarrow> k),
      r_id = member_str item ''id'', r_id_prefix = member_str item ''id_prefix''\<rparr>"

definition read_binding :: "jvalue \<Rightarrow> binding option" where
  "read_binding b =
     (case member_str b ''scope'' of
        None \<Rightarrow> None
      | Some scope \<Rightarrow>
          (case get b ''epoch'' of
             Some (Integer number) \<Rightarrow> Some \<lparr>b_scope = scope, b_epoch = number\<rparr>
           | _ \<Rightarrow> None))"

definition read_delegation :: "jvalue option \<Rightarrow> delegation" where
  "read_delegation v =
     \<lparr>d_allowed = (case v of None \<Rightarrow> False | Some d \<Rightarrow> get d ''allowed'' = Some (Bool True)),
      d_max_depth = (case v of
          None \<Rightarrow> 0
        | Some d \<Rightarrow> (case get d ''max_depth'' of Some (Integer number) \<Rightarrow> number | _ \<Rightarrow> 0))\<rparr>"

definition array_member :: "jvalue \<Rightarrow> string \<Rightarrow> jvalue list option" where
  "array_member v name = (case get v name of None \<Rightarrow> None | Some w \<Rightarrow> as_array w)"

definition read_grant :: "jvalue \<Rightarrow> grant option" where
  "read_grant v =
     (case (member_str v ''id'', member_str v ''issuer'', member_str v ''holder'', member_str v ''audience'',
            array_member v ''rights'', array_member v ''resources'') of
        (Some i, Some issuer, Some holder, Some audience, Some rights, Some resources) \<Rightarrow>
          Some \<lparr>g_id = i, g_issuer = issuer, g_holder = holder, g_audience = audience,
            g_rights = List.map_filter as_str rights,
            g_resources = map read_resource resources,
            g_expires_at = member_str v ''expires_at'',
            g_authority_binding = (case get v ''authority_binding'' of None \<Rightarrow> None | Some b \<Rightarrow> read_binding b),
            g_delegation = read_delegation (get v ''delegation''),
            g_parent = member_str v ''parent'',
            g_revoked = (member_str v ''state'' = Some ''revoked''),
            g_constraints = (case array_member v ''constraints'' of None \<Rightarrow> [] | Some cs \<Rightarrow> cs)\<rparr>
      | _ \<Rightarrow> None)"

subsection \<open>The decision\<close>

definition usable :: "grant \<Rightarrow> auth_context \<Rightarrow> denial + unit" where
  "usable g c =
     (if g_revoked g then Inl Revoked
      else if (case g_expires_at g of None \<Rightarrow> False | Some expiry \<Rightarrow> ctx_now c \<ge> expiry) then Inl Expired
      else (case g_authority_binding g of
              None \<Rightarrow> Inr ()
            | Some b \<Rightarrow> if epoch_of c (b_scope b) \<noteq> b_epoch b then Inl AuthorityEpochStale else Inr ()))"

definition grant_covers :: "grant \<Rightarrow> subject_key \<Rightarrow> bool" where
  "grant_covers g subject \<longleftrightarrow> list_ex (\<lambda>res. resource_covers res subject) (g_resources g)"

definition permits :: "grant \<Rightarrow> need list \<Rightarrow> denial + unit" where
  "permits g needs =
     (if list_ex (\<lambda>(right, _). right \<notin> set (g_rights g)) needs then Inl RightMissing
      else if list_ex (\<lambda>(_, subject). case subject of None \<Rightarrow> False | Some s \<Rightarrow> \<not> grant_covers g s) needs
      then Inl OutOfScope
      else Inr ())"

definition may_read :: "grant \<Rightarrow> subject_key \<Rightarrow> string \<Rightarrow> bool" where
  "may_read g subject right \<longleftrightarrow> right \<in> set (g_rights g) \<and> grant_covers g subject"

definition may_delegate_to :: "grant \<Rightarrow> grant \<Rightarrow> denial + unit" where
  "may_delegate_to p c =
     (if \<not> d_allowed (g_delegation p) \<or> d_max_depth (g_delegation p) < 1 then Inl DelegationExceeded
      else if list_ex (\<lambda>right. right \<notin> set (g_rights p)) (g_rights c) then Inl DelegationExceeded
      else if \<not> list_all (\<lambda>r. list_ex (\<lambda>w. covers_resource w r) (g_resources p)) (g_resources c)
      then Inl DelegationExceeded
      else if (case g_expires_at p of
                 None \<Rightarrow> False
               | Some parent_expiry \<Rightarrow>
                   (case g_expires_at c of None \<Rightarrow> True | Some child_expiry \<Rightarrow> child_expiry > parent_expiry))
      then Inl DelegationExceeded
      else if d_max_depth (g_delegation c) > d_max_depth (g_delegation p) - 1 then Inl DelegationExceeded
      else if \<not> list_all (\<lambda>k. k \<in> set (g_constraints c)) (g_constraints p) then Inl DelegationExceeded
      else if g_authority_binding p \<noteq> None \<and> g_authority_binding c \<noteq> g_authority_binding p
      then Inl DelegationExceeded
      else Inr ())"

subsection \<open>Reading an issue payload\<close>

text \<open>\<open>YYYY-MM-DDTHH:MM:SSZ\<close>, by position.\<close>

definition is_instant :: "string \<Rightarrow> bool" where
  "is_instant bs \<longleftrightarrow>
     length bs = 20 \<and>
     list_all (\<lambda>i. is_ascii_digit (bs ! i)) [0, 1, 2, 3, 5, 6, 8, 9, 11, 12, 14, 15, 17, 18] \<and>
     list_all (\<lambda>(i, c). bs ! i = c)
       [(4, CHR ''-''), (7, CHR ''-''), (10, CHR ''T''), (13, CHR '':''), (16, CHR '':'')] \<and>
     bs ! 19 = CHR ''Z''"

definition issue_string :: "jvalue \<Rightarrow> string \<Rightarrow> protocol_error + string" where
  "issue_string payload name =
     (case get payload name of
        Some (String t) \<Rightarrow>
          if t \<noteq> [] then Inr t else Inl (invalid_envelope (''/payload/'' @ name) ''not a non-empty string'')
      | _ \<Rightarrow> Inl (invalid_envelope (''/payload/'' @ name) ''not a non-empty string''))"

fun right_names :: "nat \<Rightarrow> jvalue list \<Rightarrow> protocol_error + string list" where
  "right_names index [] = Inr []"
| "right_names index (item # items) =
     (case as_str item of
        Some name \<Rightarrow>
          if name \<noteq> [] then rbind (right_names (Suc index) items) (\<lambda>names. Inr (name # names))
          else Inl (invalid_envelope (''/payload/rights/'' @ dec_digits index) ''not a right name'')
      | None \<Rightarrow> Inl (invalid_envelope (''/payload/rights/'' @ dec_digits index) ''not a right name''))"

definition issue_rights :: "jvalue \<Rightarrow> protocol_error + string list" where
  "issue_rights payload =
     (case get payload ''rights'' of
        Some (Array (item # items)) \<Rightarrow> right_names 0 (item # items)
      | _ \<Rightarrow> Inl (invalid_envelope ''/payload/rights'' ''not a non-empty array''))"

definition issue_resource :: "string \<Rightarrow> jvalue \<Rightarrow> protocol_error + resource" where
  "issue_resource path item =
     (case item of
        Object members \<Rightarrow>
          rbind (check_known path [''kind'', ''id'', ''id_prefix''] members) (\<lambda>_.
          rbind (case member_str item ''kind'' of
                   Some k \<Rightarrow> if k \<noteq> [] then Inr k else Inl (invalid_envelope (path @ ''/kind'') ''not a subject kind'')
                 | None \<Rightarrow> Inl (invalid_envelope (path @ ''/kind'') ''not a subject kind'')) (\<lambda>k.
          if member_str item ''id'' \<noteq> None \<and> member_str item ''id_prefix'' \<noteq> None
          then Inl (invalid_envelope path ''id and id_prefix are exclusive'')
          else Inr \<lparr>r_kind = k, r_id = member_str item ''id'', r_id_prefix = member_str item ''id_prefix''\<rparr>))
      | _ \<Rightarrow> Inl (invalid_envelope path ''not an object''))"

fun issue_resource_list :: "nat \<Rightarrow> jvalue list \<Rightarrow> protocol_error + resource list" where
  "issue_resource_list index [] = Inr []"
| "issue_resource_list index (item # items) =
     rbind (issue_resource (''/payload/resources/'' @ dec_digits index) item) (\<lambda>r.
     rbind (issue_resource_list (Suc index) items) (\<lambda>rs. Inr (r # rs)))"

definition issue_resources :: "jvalue \<Rightarrow> protocol_error + resource list" where
  "issue_resources payload =
     (case get payload ''resources'' of
        Some (Array (item # items)) \<Rightarrow> issue_resource_list 0 (item # items)
      | _ \<Rightarrow> Inl (invalid_envelope ''/payload/resources'' ''not a non-empty array''))"

definition issue_delegation :: "jvalue \<Rightarrow> protocol_error + delegation" where
  "issue_delegation payload =
     (case get payload ''delegation'' of
        Some (Object members) \<Rightarrow>
          rbind (check_known ''/payload/delegation'' [''allowed'', ''max_depth''] members) (\<lambda>_.
          rbind (case map_of members ''allowed'' of
                   Some (Bool flag) \<Rightarrow> Inr flag
                 | _ \<Rightarrow> Inl (invalid_envelope ''/payload/delegation/allowed'' ''not a boolean'')) (\<lambda>flag.
          rbind (natural_member (Object members) ''max_depth'' ''/payload/delegation/max_depth'') (\<lambda>depth.
          Inr \<lparr>d_allowed = flag, d_max_depth = depth\<rparr>)))
      | _ \<Rightarrow> Inl (invalid_envelope ''/payload/delegation'' ''not an object''))"

definition issue_expiry :: "jvalue \<Rightarrow> protocol_error + string option" where
  "issue_expiry payload =
     (case get payload ''expires_at'' of
        None \<Rightarrow> Inr None
      | Some (String instant) \<Rightarrow>
          if is_instant instant then Inr (Some instant)
          else Inl (invalid_envelope ''/payload/expires_at'' ''not a UTC instant'')
      | Some _ \<Rightarrow> Inl (invalid_envelope ''/payload/expires_at'' ''not a UTC instant''))"

definition issue_binding :: "jvalue \<Rightarrow> protocol_error + binding option" where
  "issue_binding payload =
     (case get payload ''authority_binding'' of
        None \<Rightarrow> Inr None
      | Some (Object members) \<Rightarrow>
          rbind (check_known ''/payload/authority_binding'' [''scope'', ''epoch''] members) (\<lambda>_.
          rbind (case member_str (Object members) ''scope'' of
                   Some scope \<Rightarrow>
                     if scope \<noteq> [] then Inr scope
                     else Inl (invalid_envelope ''/payload/authority_binding/scope'' ''not a scope name'')
                 | None \<Rightarrow> Inl (invalid_envelope ''/payload/authority_binding/scope'' ''not a scope name'')) (\<lambda>scope.
          rbind (natural_member (Object members) ''epoch'' ''/payload/authority_binding/epoch'') (\<lambda>epoch.
          Inr (Some \<lparr>b_scope = scope, b_epoch = epoch\<rparr>))))
      | Some _ \<Rightarrow> Inl (invalid_envelope ''/payload/authority_binding'' ''not an object''))"

definition work_binding_ok :: "jvalue \<Rightarrow> bool" where
  "work_binding_ok item \<longleftrightarrow>
     (case item of
        Object m \<Rightarrow> list_all (\<lambda>(n, _). n = ''kind'' \<or> n = ''work'') m
      | _ \<Rightarrow> False) \<and>
     (case get item ''work'' of
        None \<Rightarrow> False
      | Some w \<Rightarrow> member_str w ''kind'' \<noteq> None \<and> member_str w ''id'' \<noteq> None)"

fun check_constraints :: "nat \<Rightarrow> jvalue list \<Rightarrow> protocol_error + unit" where
  "check_constraints index [] = Inr ()"
| "check_constraints index (item # items) =
     (let path = ''/payload/constraints/'' @ dec_digits index in
      if member_str item ''kind'' = Some ''evidence.work_binding'' then
        (if \<not> work_binding_ok item
         then Inl (invalid_envelope (path @ ''/work'') ''a work binding names one work subject'')
         else check_constraints (Suc index) items)
      else Inl (invalid_envelope (path @ ''/kind'') ''no such constraint kind is implemented''))"

definition issue_constraints :: "jvalue \<Rightarrow> protocol_error + jvalue list" where
  "issue_constraints payload =
     (case get payload ''constraints'' of
        None \<Rightarrow> Inr []
      | Some (Array items) \<Rightarrow> rbind (check_constraints 0 items) (\<lambda>_. Inr items)
      | Some _ \<Rightarrow> Inl (invalid_envelope ''/payload/constraints'' ''not an array''))"

definition issue_parent :: "jvalue \<Rightarrow> protocol_error + string option" where
  "issue_parent payload =
     (case get payload ''parent'' of
        None \<Rightarrow> Inr None
      | Some (String i) \<Rightarrow>
          if is_identifier i then Inr (Some i) else Inl (invalid_envelope ''/payload/parent'' ''not an identifier'')
      | Some _ \<Rightarrow> Inl (invalid_envelope ''/payload/parent'' ''not an identifier''))"

definition parse_issue :: "string \<Rightarrow> string \<Rightarrow> jvalue \<Rightarrow> protocol_error + grant" where
  "parse_issue i issuer payload =
     rbind (issue_rights payload) (\<lambda>rights.
     rbind (issue_resources payload) (\<lambda>resources.
     rbind (issue_delegation payload) (\<lambda>delegation.
     rbind (issue_expiry payload) (\<lambda>expires_at.
     rbind (issue_binding payload) (\<lambda>binding.
     rbind (issue_constraints payload) (\<lambda>constraints.
     rbind (issue_parent payload) (\<lambda>parent.
     rbind (issue_string payload ''holder'') (\<lambda>holder.
     rbind (issue_string payload ''audience'') (\<lambda>audience.
     Inr \<lparr>g_id = i, g_issuer = issuer, g_holder = holder, g_audience = audience, g_rights = rights,
          g_resources = resources, g_expires_at = expires_at, g_authority_binding = binding,
          g_delegation = delegation, g_parent = parent, g_revoked = False,
          g_constraints = constraints\<rparr>)))))))))"

subsection \<open>Round trip of the stored record\<close>

lemma map_filter_as_str [simp]: "List.map_filter as_str (map String ss) = ss"
  by (induction ss) (simp_all add: List.map_filter_simps)

lemma map_of_opt_member:
  "map_of (opt_member name v @ ms) k = (if k = name \<and> v \<noteq> None then v else map_of ms k)"
  by (cases v) (auto simp: opt_member_def)

lemma read_resource_value [simp]: "read_resource (resource_value r) = r"
  by (cases r) (simp add: read_resource_def resource_value_def member_str_def opt_member_def split: option.split)

lemma read_binding_value [simp]: "read_binding (binding_value b) = Some b"
  by (cases b) (simp add: read_binding_def binding_value_def member_str_def)

lemma read_delegation_value [simp]: "read_delegation (Some (delegation_value d)) = d"
  by (cases d) (simp add: read_delegation_def delegation_value_def)

lemma grant_value_get:
  "get (grant_value g) ''id'' = Some (String (g_id g))"
  "get (grant_value g) ''issuer'' = Some (String (g_issuer g))"
  "get (grant_value g) ''holder'' = Some (String (g_holder g))"
  "get (grant_value g) ''audience'' = Some (String (g_audience g))"
  "get (grant_value g) ''rights'' = Some (Array (map String (g_rights g)))"
  "get (grant_value g) ''resources'' = Some (Array (map resource_value (g_resources g)))"
  "get (grant_value g) ''expires_at'' = map_option String (g_expires_at g)"
  "get (grant_value g) ''authority_binding'' = map_option binding_value (g_authority_binding g)"
  "get (grant_value g) ''delegation'' = Some (delegation_value (g_delegation g))"
  "get (grant_value g) ''parent'' = map_option String (g_parent g)"
  "get (grant_value g) ''constraints'' = (if g_constraints g = [] then None else Some (Array (g_constraints g)))"
  "get (grant_value g) ''state'' = Some (String (if g_revoked g then ''revoked'' else ''active''))"
  by (simp_all add: grant_value_def map_of_opt_member map_add_def del: map_of_append)

lemma read_grant_value: "read_grant (grant_value g) = Some g"
proof -
  have str: "case_option None as_str (map_option String x) = x" for x by (cases x) simp_all
  show ?thesis
    by (cases g) (simp add: read_grant_def member_str_def array_member_def grant_value_get str comp_def
        split: option.split)
qed

interpretation grant_record: codec "\<lambda>_. True" grant_value read_grant
  by unfold_locales (rule read_grant_value)

subsection \<open>Narrowing\<close>

locale attenuation =
  fixes covers :: "'r \<Rightarrow> 'k \<Rightarrow> bool" and wider :: "'r \<Rightarrow> 'r \<Rightarrow> bool"
  assumes wider_covers: "wider p c \<Longrightarrow> covers c k \<Longrightarrow> covers p k"
    and wider_refl: "wider p p"
    and wider_trans: "wider p c \<Longrightarrow> wider c d \<Longrightarrow> wider p d"
begin

definition covered_by :: "'r list \<Rightarrow> 'r list \<Rightarrow> bool" where
  "covered_by ps cs \<longleftrightarrow> (\<forall>c \<in> set cs. \<exists>p \<in> set ps. wider p c)"

lemma covered_by_covers:
  "covered_by ps cs \<Longrightarrow> \<exists>c \<in> set cs. covers c k \<Longrightarrow> \<exists>p \<in> set ps. covers p k"
  unfolding covered_by_def using wider_covers by blast

lemma covered_by_trans: "covered_by ps cs \<Longrightarrow> covered_by cs ds \<Longrightarrow> covered_by ps ds"
  unfolding covered_by_def using wider_trans by blast

lemma covered_by_mono: "set cs \<subseteq> set ps \<Longrightarrow> covered_by ps cs"
  unfolding covered_by_def using wider_refl by blast

end

interpretation res: attenuation resource_covers covers_resource
proof
  fix p c :: resource and k :: subject_key
  assume "covers_resource p c" "resource_covers c k"
  then show "resource_covers p k"
    unfolding covers_resource_def resource_covers_def
    by (auto split: option.splits dest: prefix_order.trans)
next
  fix p :: resource
  show "covers_resource p p" by (auto simp: covers_resource_def split: option.splits)
next
  fix p c d :: resource
  assume "covers_resource p c" "covers_resource c d"
  then show "covers_resource p d"
    unfolding covers_resource_def by (auto split: option.splits dest: prefix_order.trans)
qed

lemma case_option_False: "(case x of None \<Rightarrow> False | Some s \<Rightarrow> P s) \<longleftrightarrow> (\<exists>s. x = Some s \<and> P s)"
  by (cases x) auto

lemma permits_Inr:
  "permits g needs = Inr () \<longleftrightarrow>
     (\<forall>(right, subject) \<in> set needs. right \<in> set (g_rights g) \<and>
        (\<forall>s. subject = Some s \<longrightarrow> (\<exists>r \<in> set (g_resources g). resource_covers r s)))"
  unfolding permits_def grant_covers_def list_ex_iff case_option_False
  by (auto simp: case_prod_beta)

lemma permits_Inl:
  "permits g needs = Inl d \<longleftrightarrow>
     (d = RightMissing \<and> (\<exists>(right, _) \<in> set needs. right \<notin> set (g_rights g))) \<or>
     (d = OutOfScope \<and> (\<forall>(right, _) \<in> set needs. right \<in> set (g_rights g)) \<and>
        (\<exists>(_, subject) \<in> set needs. \<exists>s. subject = Some s \<and> \<not> grant_covers g s))"
  unfolding permits_def list_ex_iff case_option_False by (auto simp: case_prod_beta)

lemma usable_Inr:
  "usable g c = Inr () \<longleftrightarrow>
     \<not> g_revoked g \<and> (\<forall>expiry. g_expires_at g = Some expiry \<longrightarrow> ctx_now c < expiry) \<and>
     (\<forall>b. g_authority_binding g = Some b \<longrightarrow> epoch_of c (b_scope b) = b_epoch b)"
  by (auto simp: usable_def split: option.splits)

lemma may_delegate_to_Inr:
  "may_delegate_to p c = Inr () \<longleftrightarrow>
     d_allowed (g_delegation p) \<and> 1 \<le> d_max_depth (g_delegation p) \<and>
     set (g_rights c) \<subseteq> set (g_rights p) \<and> res.covered_by (g_resources p) (g_resources c) \<and>
     (\<forall>e. g_expires_at p = Some e \<longrightarrow> (\<exists>e'. g_expires_at c = Some e' \<and> e' \<le> e)) \<and>
     d_max_depth (g_delegation c) < d_max_depth (g_delegation p) \<and>
     set (g_constraints p) \<subseteq> set (g_constraints c) \<and>
     (g_authority_binding p = None \<or> g_authority_binding c = g_authority_binding p)"
  unfolding may_delegate_to_def res.covered_by_def
  by (auto simp: list_ex_iff list_all_iff not_less split: option.splits)

lemma may_delegate_to_permits:
  "may_delegate_to p c = Inr () \<Longrightarrow> permits c needs = Inr () \<Longrightarrow> permits p needs = Inr ()"
  unfolding may_delegate_to_Inr permits_Inr using res.covered_by_covers by fastforce

lemma may_delegate_to_usable:
  "may_delegate_to p c = Inr () \<Longrightarrow> usable c ctx = Inr () \<Longrightarrow> \<not> g_revoked p \<Longrightarrow> usable p ctx = Inr ()"
  unfolding may_delegate_to_Inr usable_Inr by (metis option.distinct(1) order_less_le_trans)

text \<open>A chain of delegations, each issued under the one before.\<close>

fun delegated :: "grant \<Rightarrow> grant list \<Rightarrow> bool" where
  "delegated g [] = True"
| "delegated g (c # cs) = (may_delegate_to g c = Inr () \<and> delegated c cs)"

lemma delegated_length: "delegated g cs \<Longrightarrow> length cs \<le> nat (d_max_depth (g_delegation g))"
proof (induction cs arbitrary: g)
  case (Cons c cs)
  then have "length cs \<le> nat (d_max_depth (g_delegation c))" by simp
  moreover have "nat (d_max_depth (g_delegation c)) < nat (d_max_depth (g_delegation g))"
    using Cons.prems by (simp add: may_delegate_to_Inr)
  ultimately show ?case by (simp only: list.size)
qed simp

lemma delegated_permits:
  "delegated g cs \<Longrightarrow> permits (last (g # cs)) needs = Inr () \<Longrightarrow> permits g needs = Inr ()"
proof (induction cs arbitrary: g)
  case (Cons c cs)
  then have "permits c needs = Inr ()" by (cases cs) auto
  with Cons.prems(1) may_delegate_to_permits [of g c] show ?case by simp
qed simp

lemma delegated_constraints: "delegated g cs \<Longrightarrow> set (g_constraints g) \<subseteq> set (g_constraints (last (g # cs)))"
proof (induction cs arbitrary: g)
  case (Cons c cs)
  then have "set (g_constraints c) \<subseteq> set (g_constraints (last (c # cs)))" by simp
  moreover have "set (g_constraints g) \<subseteq> set (g_constraints c)" using Cons.prems by (simp add: may_delegate_to_Inr)
  ultimately show ?case by (cases cs) auto
qed simp

lemma delegated_usable:
  "delegated g cs \<Longrightarrow> usable (last (g # cs)) ctx = Inr () \<Longrightarrow> \<forall>p \<in> set (g # cs). \<not> g_revoked p \<Longrightarrow>
   \<forall>p \<in> set (g # cs). usable p ctx = Inr ()"
proof (induction cs arbitrary: g)
  case (Cons c cs)
  then have "\<forall>p \<in> set (c # cs). usable p ctx = Inr ()" by (cases cs) auto
  with Cons.prems may_delegate_to_usable [of g c ctx] show ?case by simp
qed simp

subsection \<open>What is issued\<close>

lemma right_names_Inr: "right_names i items = Inr names \<longleftrightarrow> items = map String names \<and> [] \<notin> set names"
proof (induction i items arbitrary: names rule: right_names.induct)
  case (2 i item items)
  then show ?case by (cases item) (auto simp: result_simps Cons_eq_map_conv)
qed auto

lemma issue_resource_Inr:
  "issue_resource path item = Inr r \<Longrightarrow> r_kind r \<noteq> [] \<and> (r_id r = None \<or> r_id_prefix r = None) \<and> read_resource item = r"
  by (auto simp: issue_resource_def read_resource_def result_simps split: jvalue.splits option.splits if_splits)

lemma issue_resource_list_Inr:
  "issue_resource_list i items = Inr rs \<Longrightarrow>
   rs = map read_resource items \<and> (\<forall>r \<in> set rs. r_kind r \<noteq> [] \<and> (r_id r = None \<or> r_id_prefix r = None))"
proof (induction i items arbitrary: rs rule: issue_resource_list.induct)
  case (2 i item items)
  then obtain r rs' where "issue_resource (''/payload/resources/'' @ dec_digits i) item = Inr r"
    "issue_resource_list (Suc i) items = Inr rs'" "rs = r # rs'"
    by (auto simp: result_simps)
  with 2 issue_resource_Inr show ?case by auto
qed auto

lemma check_constraints_Inr:
  "check_constraints i items = Inr u \<longleftrightarrow>
   (\<forall>k \<in> set items. member_str k ''kind'' = Some ''evidence.work_binding'' \<and> work_binding_ok k)"
  by (induction i items rule: check_constraints.induct) (auto simp: Let_def)

definition issued_ok :: "grant \<Rightarrow> bool" where
  "issued_ok g \<longleftrightarrow>
     g_holder g \<noteq> [] \<and> g_audience g \<noteq> [] \<and> g_rights g \<noteq> [] \<and> [] \<notin> set (g_rights g) \<and> g_resources g \<noteq> [] \<and>
     (\<forall>r \<in> set (g_resources g). r_kind r \<noteq> [] \<and> (r_id r = None \<or> r_id_prefix r = None)) \<and>
     (\<forall>e. g_expires_at g = Some e \<longrightarrow> is_instant e) \<and>
     (\<forall>b. g_authority_binding g = Some b \<longrightarrow> b_scope b \<noteq> [] \<and> 0 \<le> b_epoch b) \<and>
     0 \<le> d_max_depth (g_delegation g) \<and> (\<forall>p. g_parent g = Some p \<longrightarrow> is_identifier p) \<and> \<not> g_revoked g \<and>
     (\<forall>k \<in> set (g_constraints g). member_str k ''kind'' = Some ''evidence.work_binding'' \<and> work_binding_ok k)"

lemma issue_rights_ok: "issue_rights p = Inr rights \<Longrightarrow> rights \<noteq> [] \<and> [] \<notin> set rights"
  by (force simp: issue_rights_def right_names_Inr simp del: right_names.simps split: option.splits jvalue.splits list.splits)

lemma issue_resources_ok:
  "issue_resources p = Inr rs \<Longrightarrow>
     rs \<noteq> [] \<and> (\<forall>r \<in> set rs. r_kind r \<noteq> [] \<and> (r_id r = None \<or> r_id_prefix r = None))"
proof -
  assume "issue_resources p = Inr rs"
  then obtain item items where "issue_resource_list 0 (item # items) = Inr rs"
    by (auto simp: issue_resources_def simp del: issue_resource_list.simps split: option.splits jvalue.splits list.splits)
  from issue_resource_list_Inr [OF this] show ?thesis by auto
qed

lemma issue_delegation_ok: "issue_delegation p = Inr d \<Longrightarrow> 0 \<le> d_max_depth d"
  by (auto simp: issue_delegation_def result_simps split: option.splits jvalue.splits)

lemma issue_expiry_ok: "issue_expiry p = Inr (Some x) \<Longrightarrow> is_instant x"
  by (auto simp: issue_expiry_def split: option.splits jvalue.splits if_splits)

lemma issue_binding_ok: "issue_binding p = Inr (Some x) \<Longrightarrow> b_scope x \<noteq> [] \<and> 0 \<le> b_epoch x"
  by (auto simp: issue_binding_def result_simps split: option.splits jvalue.splits if_splits)

lemma issue_constraints_ok:
  "issue_constraints p = Inr ks \<Longrightarrow> k \<in> set ks \<Longrightarrow>
     member_str k ''kind'' = Some ''evidence.work_binding'' \<and> work_binding_ok k"
  by (auto simp: issue_constraints_def result_simps check_constraints_Inr split: option.splits jvalue.splits)

lemma issue_parent_ok: "issue_parent p = Inr (Some x) \<Longrightarrow> is_identifier x"
  by (auto simp: issue_parent_def split: option.splits jvalue.splits if_splits)

lemma issue_string_ok: "issue_string p name = Inr t \<Longrightarrow> t \<noteq> []"
  by (auto simp: issue_string_def split: option.splits jvalue.splits if_splits)

lemmas issue_parts = issue_rights_ok issue_resources_ok issue_delegation_ok issue_expiry_ok issue_binding_ok
  issue_constraints_ok issue_parent_ok issue_string_ok

lemma parse_issue_ok:
  assumes "parse_issue i issuer payload = Inr g"
  shows "issued_ok g \<and> g_id g = i \<and> g_issuer g = issuer"
proof -
  from assms obtain rights resources d e b ks par holder audience where
    parts: "issue_rights payload = Inr rights" "issue_resources payload = Inr resources"
      "issue_delegation payload = Inr d" "issue_expiry payload = Inr e" "issue_binding payload = Inr b"
      "issue_constraints payload = Inr ks" "issue_parent payload = Inr par"
      "issue_string payload ''holder'' = Inr holder" "issue_string payload ''audience'' = Inr audience"
    and g: "g = \<lparr>g_id = i, g_issuer = issuer, g_holder = holder, g_audience = audience, g_rights = rights,
          g_resources = resources, g_expires_at = e, g_authority_binding = b,
          g_delegation = d, g_parent = par, g_revoked = False, g_constraints = ks\<rparr>"
    unfolding parse_issue_def rbind_Inr_iff by blast
  show ?thesis unfolding issued_ok_def g using parts issue_parts(1,2,3,8) [of payload] issue_parts(6) [OF parts(6)]
    by (auto dest: issue_parts(4,5,7))
qed

definition example_grant :: "int \<Rightarrow> string option \<Rightarrow> grant" where
  "example_grant depth narrowed =
     \<lparr>g_id = ''g'', g_issuer = ''i'', g_holder = ''h'', g_audience = ''a'', g_rights = [''r''],
      g_resources = [\<lparr>r_kind = ''k'', r_id = None, r_id_prefix = narrowed\<rparr>], g_expires_at = None,
      g_authority_binding = None, g_delegation = \<lparr>d_allowed = True, d_max_depth = depth\<rparr>, g_parent = None,
      g_revoked = False, g_constraints = []\<rparr>"

lemma example_delegated: "delegated (example_grant 2 None) [example_grant 1 (Some ''x''), example_grant 0 (Some ''xy'')]"
  by (simp add: example_grant_def may_delegate_to_Inr res.covered_by_def covers_resource_def)

subsection \<open>Further facts\<close>

text \<open>
  A chain of delegations dies from the top: when the last grant is usable and none is revoked,
  every grant of the chain is usable, so the expiry and the authority binding of a parent reach
  everything delegated from it.
\<close>

theorem usable_chain:
  assumes "delegated g cs" "usable (last (g # cs)) ctx = Inr ()" "list_all (\<lambda>p. \<not> g_revoked p) (g # cs)"
  shows "list_all (\<lambda>p. usable p ctx = Inr ()) (g # cs)"
  using delegated_usable [OF assms(1,2)] assms(3) by (simp add: list_all_iff)

lemma usable_chain_witness:
  "list_all (\<lambda>p. usable p \<lparr>ctx_now = ''n'', ctx_epochs = []\<rparr> = Inr ())
     [example_grant 2 None, example_grant 1 (Some ''x''), example_grant 0 (Some ''xy'')]"
  by (rule usable_chain [OF example_delegated]) (simp_all add: usable_Inr example_grant_def)

text \<open>
  A refusal under a grant is right_missing exactly when some needed right is not held, and
  out_of_scope exactly when all are and some subject is not covered, whatever order the needs came
  in.
\<close>

theorem denial_order:
  "permits g needs = Inl d \<longleftrightarrow>
     (d = RightMissing \<and> (\<exists>(right, _) \<in> set needs. right \<notin> set (g_rights g))) \<or>
     (d = OutOfScope \<and> (\<nexists>right subject. (right, subject) \<in> set needs \<and> right \<notin> set (g_rights g)) \<and>
        (\<exists>(_, subject) \<in> set needs. \<exists>s. subject = Some s \<and> \<not> grant_covers g s))"
  unfolding permits_Inl by auto

lemma denial_order_witness:
  "permits (example_grant 0 None) [(''r'', Some \<lparr>sk_kind = ''other'', sk_id = ''z''\<rparr>), (''w'', None)] = Inl RightMissing"
  using denial_order [of "example_grant 0 None" "[(''r'', Some \<lparr>sk_kind = ''other'', sk_id = ''z''\<rparr>), (''w'', None)]" RightMissing]
  by (simp add: example_grant_def)

text \<open>
  A grant read back from the record the store holds is the grant that was written.
\<close>

theorem grant_record_roundtrip: "read_grant (grant_value g) = Some g"
  by (rule grant_record.dec_enc) (rule TrueI)

text \<open>
  Every grant parse_issue returns is well formed: non-empty holder, audience, rights and
  resources, no resource narrowed twice, a real instant as expiry, non-negative depth and epoch,
  not revoked, and only work bindings as constraints.
\<close>

theorem issued_grants_are_well_formed:
  assumes "parse_issue i issuer payload = Inr g"
  shows "issued_ok g \<and> g_id g = i \<and> g_issuer g = issuer"
  by (rule parse_issue_ok [OF assms])

definition example_payload :: jvalue where
  "example_payload = Object [(''holder'', String ''h''), (''audience'', String ''a''), (''rights'', Array [String ''r'']),
     (''resources'', Array [Object [(''kind'', String ''k'')]]),
     (''delegation'', Object [(''allowed'', Bool False), (''max_depth'', Integer 0)])]"

lemma issued_grants_are_well_formed_witness:
  "\<exists>g. parse_issue ''g'' ''i'' example_payload = Inr g \<and> issued_ok g \<and> g_id g = ''g''"
proof -
  obtain g where g: "parse_issue ''g'' ''i'' example_payload = Inr g"
    by (simp add: example_payload_def parse_issue_def issue_rights_def issue_resources_def issue_resource_def
        issue_delegation_def natural_member_def issue_expiry_def issue_binding_def issue_constraints_def issue_parent_def issue_string_def
        member_str_def)
  show ?thesis using issued_grants_are_well_formed [OF g] g by simp
qed

subsection \<open>Properties\<close>

text \<open>
  C13. Along a chain of delegations of any length, what the last grant permits the first one
  permitted, every constraint of the first is carried by the last, and the chain is no longer than
  the first grant's depth.
\<close>

theorem delegation_never_widens:
  assumes "delegated g cs"
  shows "(permits (last (g # cs)) needs = Inr () \<longrightarrow> permits g needs = Inr ()) \<and>
    set (g_constraints g) \<subseteq> set (g_constraints (last (g # cs))) \<and>
    int (length cs) \<le> max 0 (d_max_depth (g_delegation g))"
  using delegated_permits [OF assms] delegated_constraints [OF assms] delegated_length [OF assms] by auto

lemma delegation_never_widens_witness:
  "permits (example_grant 0 (Some ''xy'')) [(''r'', Some \<lparr>sk_kind = ''k'', sk_id = ''xyz''\<rparr>)] = Inr () \<and>
   permits (example_grant 2 None) [(''r'', Some \<lparr>sk_kind = ''k'', sk_id = ''xyz''\<rparr>)] = Inr ()"
proof -
  have "permits (example_grant 0 (Some ''xy'')) [(''r'', Some \<lparr>sk_kind = ''k'', sk_id = ''xyz''\<rparr>)] = Inr ()"
    by (simp add: example_grant_def permits_Inr resource_covers_def)
  then show ?thesis using delegation_never_widens [OF example_delegated] by simp
qed

end
