(* ===== verification/Clock.thy ===== *)
theory Clock
  imports Grants Json_Roundtrip
begin

text \<open>
  The provider clock, \<open>clock.rs\<close>: seconds since the epoch as \<open>YYYY-MM-DDTHH:MM:SSZ\<close> and back,
  by Hinnant's civil-date algorithms, and the three time sources. A file source reads the file on
  every call; what it read is an argument here. \<open>unix_of\<close> slices a \<open>str\<close>, which panics inside a
  multi-byte character: that outcome is \<open>Panics\<close>.
\<close>

subsection \<open>From seconds to text\<close>

definition padded :: "nat \<Rightarrow> nat \<Rightarrow> string" where
  "padded width n = replicate (width - length (dec_digits n)) CHR ''0'' @ dec_digits n"

text \<open>The conversion is over \<open>i64\<close>; no value it meets leaves that range for a \<open>u64\<close> of seconds.\<close>

definition year_of_era :: "int \<Rightarrow> int" where
  "year_of_era doe = (doe - doe div 1460 + doe div 36524 - doe div 146096) div 365"

definition day_of_year :: "int \<Rightarrow> int" where
  "day_of_year doe = (let yoe = year_of_era doe in doe - (365 * yoe + yoe div 4 - yoe div 100))"

definition civil_of_days :: "int \<Rightarrow> int \<times> int \<times> int" where
  "civil_of_days days =
     (let z = days + 719468;
          era = z div 146097;
          doe = z mod 146097;
          yoe = year_of_era doe;
          doy = day_of_year doe;
          mp = (5 * doy + 2) div 153;
          day = doy - (153 * mp + 2) div 5 + 1;
          month = (if mp < 10 then mp + 3 else mp - 9);
          year = yoe + era * 400 + (if month \<le> 2 then 1 else 0)
      in (year, month, day))"

definition format_unix :: "nat \<Rightarrow> string" where
  "format_unix seconds =
     (let (year, month, day) = civil_of_days (int (seconds div 86400));
          rem = seconds mod 86400
      in padded 4 (nat year) @ ''-'' @ padded 2 (nat month) @ ''-'' @ padded 2 (nat day) @ ''T''
        @ padded 2 (rem div 3600) @ '':'' @ padded 2 (rem mod 3600 div 60) @ '':'' @ padded 2 (rem mod 60)
        @ ''Z'')"

subsection \<open>From text to seconds\<close>

datatype 'a outcome = Panics | Returns 'a

definition char_boundary :: "string \<Rightarrow> nat \<Rightarrow> bool" where
  "char_boundary s i \<longleftrightarrow> i = 0 \<or> i = length s \<or> (i < length s \<and> \<not> is_cont (bval (s ! i)))"

definition str_get :: "string \<Rightarrow> nat \<Rightarrow> nat \<Rightarrow> string option" where
  "str_get s i j =
     (if i \<le> j \<and> j \<le> length s \<and> char_boundary s i \<and> char_boundary s j
      then Some (take (j - i) (drop i s)) else None)"

definition digits_value :: "string \<Rightarrow> int" where
  "digits_value ds = foldl (\<lambda>n d. 10 * n + int (bval d - 0x30)) 0 ds"

text \<open>\<open>str::parse::<i64>\<close>, which takes a leading sign; four characters cannot overflow.\<close>

definition parse_digits :: "string \<Rightarrow> int option" where
  "parse_digits ds = (if ds \<noteq> [] \<and> list_all is_ascii_digit ds then Some (digits_value ds) else None)"

fun parse_i64 :: "string \<Rightarrow> int option" where
  "parse_i64 [] = None"
| "parse_i64 (c # cs) =
     (if c = CHR ''+'' then parse_digits cs
      else if c = CHR ''-'' then map_option uminus (parse_digits cs)
      else parse_digits (c # cs))"

definition number_at :: "string \<Rightarrow> nat \<Rightarrow> nat \<Rightarrow> int option" where
  "number_at s i j = (case str_get s i j of None \<Rightarrow> None | Some t \<Rightarrow> parse_i64 t)"

definition days_of_civil :: "int \<Rightarrow> int \<Rightarrow> int \<Rightarrow> int" where
  "days_of_civil year month day =
     (let year = year - (if month \<le> 2 then 1 else 0);
          era = year div 400;
          yoe = year - era * 400;
          mp = (if month > 2 then month - 3 else month + 9);
          doy = (153 * mp + 2) div 5 + day - 1;
          doe = yoe * 365 + yoe div 4 - yoe div 100 + doy
      in era * 146097 + doe - 719468)"

text \<open>The separators, sliced as text one after the other: \<open>None\<close> is a slice that panics.\<close>

fun separators :: "string \<Rightarrow> (nat \<times> string) list \<Rightarrow> bool option" where
  "separators s [] = Some True"
| "separators s ((i, sep) # rest) =
     (case str_get s i (i + 1) of
        None \<Rightarrow> None
      | Some t \<Rightarrow> if t \<noteq> sep then Some False else separators s rest)"

definition seconds_of_fields :: "int \<Rightarrow> int \<Rightarrow> int \<Rightarrow> int \<Rightarrow> int \<Rightarrow> int \<Rightarrow> nat option" where
  "seconds_of_fields year month day hour minute second =
     (if \<not> (1 \<le> month \<and> month \<le> 12) \<or> \<not> (1 \<le> day \<and> day \<le> 31) then None
      else if hour > 23 \<or> minute > 59 \<or> second > 59 then None
      else (let seconds = days_of_civil year month day * 86400 + hour * 3600 + minute * 60 + second
            in if 0 \<le> seconds then Some (nat seconds) else None))"

definition unix_of :: "string \<Rightarrow> nat option outcome" where
  "unix_of instant =
     (if length instant \<noteq> 20 \<or> instant ! 19 \<noteq> CHR ''Z'' then Returns None
      else (case separators instant [(4, ''-''), (7, ''-''), (10, ''T''), (13, '':''), (16, '':'')] of
              None \<Rightarrow> Panics
            | Some False \<Rightarrow> Returns None
            | Some True \<Rightarrow>
                Returns (case (number_at instant 0 4, number_at instant 5 7, number_at instant 8 10,
                               number_at instant 11 13, number_at instant 14 16, number_at instant 17 19) of
                    (Some year, Some month, Some day, Some hour, Some minute, Some second) \<Rightarrow>
                      seconds_of_fields year month day hour minute second
                  | _ \<Rightarrow> None)))"

subsection \<open>The sources\<close>

datatype source = System | Fixed string | File string

record clock =
  clk_source :: source
  clk_last :: "string option"

text \<open>\<open>contents\<close> is what \<open>read_to_string\<close> returned for the file.\<close>

definition read_instant :: "string option \<Rightarrow> string option" where
  "read_instant contents =
     (case contents of
        None \<Rightarrow> None
      | Some t \<Rightarrow> if is_instant t then Some t else None)"

definition open_clock :: "source \<Rightarrow> string option \<Rightarrow> clock option" where
  "open_clock src contents =
     (case src of
        File path \<Rightarrow>
          (case read_instant contents of
             Some instant \<Rightarrow> Some \<lparr>clk_source = src, clk_last = Some instant\<rparr>
           | None \<Rightarrow> None)
      | _ \<Rightarrow> Some \<lparr>clk_source = src, clk_last = None\<rparr>)"

text \<open>\<open>now\<close>: what it returns (nothing when a file clock has no instant, which the source rules out
  with \<open>expect\<close>), and the clock after it.\<close>

definition clock_now :: "clock \<Rightarrow> nat \<Rightarrow> string option \<Rightarrow> string option \<times> clock" where
  "clock_now clk system_seconds contents =
     (case clk_source clk of
        System \<Rightarrow> (Some (format_unix system_seconds), clk)
      | Fixed instant \<Rightarrow> (Some instant, clk)
      | File path \<Rightarrow>
          (let last = (case read_instant contents of
                 None \<Rightarrow> clk_last clk
               | Some read \<Rightarrow>
                   (case clk_last clk of
                      None \<Rightarrow> Some read
                    | Some previous \<Rightarrow> if read > previous then Some read else Some previous))
           in (last, clk\<lparr>clk_last := last\<rparr>)))"

subsection \<open>The civil calendar\<close>

text \<open>
  A day of an era is \<open>a\<close> centuries, \<open>e\<close> four-year cycles, \<open>f\<close> years and \<open>k\<close> days: on that
  decomposition the divisions of the source are exact.
\<close>

lemma era_decomposition:
  fixes doe :: int
  assumes "0 \<le> doe" "doe < 146097"
  obtains a e f k where "doe = 36524 * a + 1461 * e + 365 * f + k"
    "0 \<le> a" "a \<le> 3" "0 \<le> e" "e \<le> 24" "0 \<le> f" "f \<le> 3" "0 \<le> k" "k \<le> 365"
    "f < 3 \<Longrightarrow> k \<le> 364" "e = 24 \<Longrightarrow> a < 3 \<Longrightarrow> k \<le> 364"
proof -
  define a where "a = min 3 (doe div 36524)"
  define r where "r = doe - 36524 * a"
  define e where "e = min 24 (r div 1461)"
  define s where "s = r - 1461 * e"
  define f where "f = min 3 (s div 365)"
  define k where "k = s - 365 * f"
  have a: "0 \<le> a" "a \<le> 3" using assms by (simp_all add: a_def)
  have r: "0 \<le> r" "r \<le> 36524" "a < 3 \<Longrightarrow> r < 36524"
    using assms unfolding r_def a_def by linarith+
  have e: "0 \<le> e" "e \<le> 24" using r by (simp_all add: e_def)
  have s: "0 \<le> s" "s \<le> 1460" "e = 24 \<Longrightarrow> a < 3 \<Longrightarrow> s < 1460"
    using r unfolding s_def e_def by linarith+
  have f: "0 \<le> f" "f \<le> 3" using s by (simp_all add: f_def)
  have k: "0 \<le> k" "k \<le> 365" "f < 3 \<Longrightarrow> k \<le> 364" "e = 24 \<Longrightarrow> a < 3 \<Longrightarrow> k \<le> 364"
    using s unfolding k_def f_def by linarith+
  have "doe = 36524 * a + 1461 * e + 365 * f + k" by (simp add: k_def s_def r_def)
  then show ?thesis by (rule that [of a e f k]) (use a e f k in simp_all)
qed

lemma div_between: "(d :: int) * q \<le> n \<Longrightarrow> n < d * q + d \<Longrightarrow> 0 < d \<Longrightarrow> n div d = q"
  using div_pos_pos_trivial [of "n - d * q" d] by (metis add.commute add_diff_cancel_left' diff_ge_0_iff_ge
      div_mult_self4 le_add_diff_inverse less_diff_eq mult.commute less_irrefl add.right_neutral diff_add_cancel)

lemma year_of_decomposition:
  fixes a e f k :: int
  assumes d: "doe = 36524 * a + 1461 * e + 365 * f + k"
    and b: "0 \<le> a" "a \<le> 3" "0 \<le> e" "e \<le> 24" "0 \<le> f" "f \<le> 3" "0 \<le> k" "k \<le> 365"
    "f < 3 \<Longrightarrow> k \<le> 364" "e = 24 \<Longrightarrow> a < 3 \<Longrightarrow> k \<le> 364"
  shows "year_of_era doe = 100 * a + 4 * e + f" "day_of_year doe = k"
proof -
  define x where "x = (24 * a + e + 365 * f + k) div 1460"
  have century: "doe div 36524 - doe div 146096 = a"
  proof (cases "doe = 146096")
    case True
    with d b have "a = 3" by linarith
    with True show ?thesis by simp
  next
    case False
    have "doe < 36524 * a + 36524"
    proof (cases "a < 3")
      case True
      then show ?thesis using d b by (cases "e = 24"; cases "f < 3") linarith+
    next
      case False
      then show ?thesis using d b \<open>doe \<noteq> 146096\<close> by linarith
    qed
    then have "doe div 36524 = a" using d b by (intro div_between) linarith+
    moreover have "doe div 146096 = 0" using d b False by (intro div_pos_pos_trivial) linarith+
    ultimately show ?thesis by simp
  qed
  have "doe = 24 * a + e + 365 * f + k + (25 * a + e) * 1460" using d by simp
  then have leap: "doe div 1460 = 25 * a + e + x" unfolding x_def by (simp only: div_mult_self1)
  have x: "x = (if 1460 \<le> 24 * a + e + 365 * f + k then 1 else 0)"
    unfolding x_def using b by (intro div_between) (auto split: if_splits)
  have N: "doe - doe div 1460 + doe div 36524 - doe div 146096 = 365 * (100 * a + 4 * e + f) + (k - x)"
  proof -
    have "doe - A + B - C = 365 * (100 * a + 4 * e + f) + (k - x)" if "B - C = a" "A = 25 * a + e + x" for A B C
    proof -
      have "doe - A + B - C = doe - (25 * a + e + x) + a" using that by simp
      also have "\<dots> = 365 * (100 * a + 4 * e + f) + (k - x)" unfolding d by simp
      finally show ?thesis .
    qed
    from this [OF century leap] show ?thesis .
  qed
  have "0 \<le> k - x" "k - x < 365"
    using b unfolding x by (cases "f < 3"; simp)+
  then show y: "year_of_era doe = 100 * a + 4 * e + f"
    unfolding year_of_era_def N by (intro div_between) linarith+
  have "(100 * a + 4 * e + f) div 4 = 25 * a + e" using b by (intro div_between) simp_all
  moreover have "(100 * a + 4 * e + f) div 100 = a" using b by (intro div_between) simp_all
  ultimately show "day_of_year doe = k" unfolding day_of_year_def Let_def y unfolding d by simp
qed

lemma civil_parts:
  fixes doe :: int
  assumes "0 \<le> doe" "doe < 146097"
  shows "0 \<le> year_of_era doe" "year_of_era doe \<le> 399" "0 \<le> day_of_year doe" "day_of_year doe \<le> 365"
    "year_of_era doe * 365 + year_of_era doe div 4 - year_of_era doe div 100 + day_of_year doe = doe"
proof -
  obtain a e f k where d: "doe = 36524 * a + 1461 * e + 365 * f + k"
    "0 \<le> a" "a \<le> 3" "0 \<le> e" "e \<le> 24" "0 \<le> f" "f \<le> 3" "0 \<le> k" "k \<le> 365"
    "f < 3 \<Longrightarrow> k \<le> 364" "e = 24 \<Longrightarrow> a < 3 \<Longrightarrow> k \<le> 364"
    using era_decomposition [OF assms] by metis
  note y = year_of_decomposition [OF d]
  show "0 \<le> year_of_era doe" using d(2-9) y(1) by linarith
  show "year_of_era doe \<le> 399" using d(2-9) y(1) by linarith
  show "0 \<le> day_of_year doe" "day_of_year doe \<le> 365" using d(8,9) y(2) by linarith+
  show "year_of_era doe * 365 + year_of_era doe div 4 - year_of_era doe div 100 + day_of_year doe = doe"
    unfolding day_of_year_def Let_def by linarith
qed

lemma civil_round_trip:
  assumes "civil_of_days days = (year, month, day)"
  shows "days_of_civil year month day = days" "1 \<le> month" "month \<le> 12" "1 \<le> day" "day \<le> 31"
proof -
  define z where "z = days + 719468"
  define doe where "doe = z mod 146097"
  define yoe where "yoe = year_of_era doe"
  define doy where "doy = day_of_year doe"
  define mp where "mp = (5 * doy + 2) div 153"
  have doe: "0 \<le> doe" "doe < 146097" by (simp_all add: doe_def)
  note p = civil_parts [OF doe, folded yoe_def doy_def]
  have mp: "0 \<le> mp" "mp \<le> 11" "153 * mp \<le> 5 * doy + 2" "5 * doy + 2 < 153 * mp + 153"
  proof -
    define m where "m = (5 * doy + 2) mod 153"
    have m: "0 \<le> m" "m < 153" "5 * doy + 2 = 153 * mp + m" by (simp_all add: m_def mp_def)
    then show "153 * mp \<le> 5 * doy + 2" "5 * doy + 2 < 153 * mp + 153" by linarith+
    with p(3,4) show "0 \<le> mp" "mp \<le> 11" by linarith+
  qed
  have ymd: "day = doy - (153 * mp + 2) div 5 + 1" "month = (if mp < 10 then mp + 3 else mp - 9)"
    "year = yoe + z div 146097 * 400 + (if month \<le> 2 then 1 else 0)"
  proof -
    have "civil_of_days days =
      (yoe + z div 146097 * 400 + (if (if mp < 10 then mp + 3 else mp - 9) \<le> 2 then 1 else 0),
       if mp < 10 then mp + 3 else mp - 9, doy - (153 * mp + 2) div 5 + 1)"
      unfolding civil_of_days_def Let_def prod.case z_def [symmetric] doe_def [symmetric] yoe_def [symmetric]
        doy_def [symmetric] mp_def [symmetric] by (rule refl)
    from trans [OF this [symmetric] assms] have parts: "yoe + z div 146097 * 400 + (if (if mp < 10 then mp + 3 else mp - 9) \<le> 2 then 1 else 0) = year"
      "(if mp < 10 then mp + 3 else mp - 9) = month" "doy - (153 * mp + 2) div 5 + 1 = day"
      unfolding prod.inject by blast+
    from parts(3) show "day = doy - (153 * mp + 2) div 5 + 1" by (rule sym)
    from parts(2) show "month = (if mp < 10 then mp + 3 else mp - 9)" by (rule sym)
    from parts(1) show "year = yoe + z div 146097 * 400 + (if month \<le> 2 then 1 else 0)"
      unfolding parts(2) by (rule sym)
  qed
  show "1 \<le> month" "month \<le> 12" using mp ymd(2) by auto
  define q where "q = (153 * mp + 2) div 5"
  have q: "5 * q \<le> 153 * mp + 2" "153 * mp + 2 < 5 * q + 5" unfolding q_def by linarith+
  show "1 \<le> day" using mp(3) q(1) unfolding ymd(1) q_def [symmetric] by linarith
  show "day \<le> 31" using mp(4) q(2) unfolding ymd(1) q_def [symmetric] by linarith
  have m: "(if month > 2 then month - 3 else month + 9) = mp" using ymd(2) mp by auto
  have y: "year - (if month \<le> 2 then 1 else 0) = yoe + z div 146097 * 400" using ymd(3) by simp
  have era: "(yoe + z div 146097 * 400) div 400 = z div 146097" using p(1,2) by (intro div_between) linarith+
  have "days_of_civil year month day = z div 146097 * 146097 + doe - 719468"
    unfolding days_of_civil_def y m Let_def era using p(5) ymd(1) by (simp add: algebra_simps)
  then show "days_of_civil year month day = days" by (simp add: z_def doe_def)
qed

lemma civil_year_bounds:
  assumes "civil_of_days days = (year, month, day)" "0 \<le> days" "days < 2932897"
  shows "0 \<le> year" "year \<le> 9999"
proof -
  define z where "z = days + 719468"
  define yoe where "yoe = year_of_era (z mod 146097)"
  define era where "era = z div 146097"
  have yoe: "0 \<le> yoe" "yoe \<le> 399" unfolding yoe_def by (simp_all add: civil_parts)
  have era: "0 \<le> era" "era \<le> 24" using assms(2,3) unfolding era_def z_def by linarith+
  have "year = yoe + era * 400 + (if month \<le> 2 then 1 else 0)"
    using assms(1) unfolding civil_of_days_def Let_def z_def [symmetric] yoe_def [symmetric] era_def [symmetric]
    by (metis prod.inject)
  with yoe era have y: "0 \<le> year" "year \<le> 10000" "year = 10000 \<Longrightarrow> month \<le> 2" by (auto split: if_splits)
  show "0 \<le> year" by (rule y(1))
  note rt = civil_round_trip [OF assms(1)]
  have "year \<noteq> 10000"
  proof
    assume y10: "year = 10000"
    with y(3) rt(2) have "month = 1 \<or> month = 2" by linarith
    with y10 rt(1,4) have "2932897 \<le> days" by (auto simp: days_of_civil_def Let_def)
    with assms(3) show False by simp
  qed
  with y(2) show "year \<le> 9999" by simp
qed

subsection \<open>Fixed width\<close>

lemma digits_value_snoc: "digits_value (ds @ [d]) = 10 * digits_value ds + int (bval d - 0x30)"
  by (simp add: digits_value_def)

lemma digits_value_dec: "digits_value (dec_digits n) = int n"
proof (induction n rule: dec_digits.induct)
  case (1 n)
  show ?case
  proof (cases "n < 10")
    case True
    then show ?thesis by (simp add: dec_digits.simps [of n] digits_value_def)
  next
    case False
    with 1 have "digits_value (dec_digits (n div 10)) = int (n div 10)" by simp
    moreover have "bval (char_of (48 + n mod 10) :: char) = 48 + n mod 10" by (rule bval_char_of) linarith
    ultimately have "digits_value (dec_digits n) = 10 * int (n div 10) + int (n mod 10)"
      using False by (simp add: dec_digits.simps [of n] digits_value_snoc)
    then show ?thesis by presburger
  qed
qed

lemma digits_value_zeros: "digits_value (replicate k CHR ''0'' @ ds) = digits_value ds"
  by (induction k) (simp_all add: digits_value_def)

lemma length_dec_digits: "n < 10 ^ w \<Longrightarrow> 0 < w \<Longrightarrow> length (dec_digits n) \<le> w"
proof (induction w arbitrary: n)
  case (Suc w)
  show ?case
  proof (cases "n < 10")
    case True
    then show ?thesis by (simp add: dec_digits.simps [of n])
  next
    case False
    with Suc.prems have "0 < w" by (cases w) auto
    moreover have "n div 10 < 10 ^ w" using Suc.prems by (simp add: less_mult_imp_div_less)
    ultimately have "length (dec_digits (n div 10)) \<le> w" by (rule Suc.IH [rotated])
    then show ?thesis using False by (simp add: dec_digits.simps [of n])
  qed
qed simp

lemma padded_props:
  assumes "n < 10 ^ w" "0 < w"
  shows "length (padded w n) = w" "list_all is_ascii_digit (padded w n)" "digits_value (padded w n) = int n"
proof -
  show "length (padded w n) = w" using length_dec_digits [OF assms] by (simp add: padded_def)
  have "is_ascii_digit CHR ''0''" by (simp add: is_ascii_digit_def)
  then show "list_all is_ascii_digit (padded w n)"
    using dec_digits_digits [of _ n] by (auto simp: padded_def list_all_iff)
  show "digits_value (padded w n) = int n" by (simp add: padded_def digits_value_zeros digits_value_dec)
qed

lemma padded_2: "n < 100 \<Longrightarrow> \<exists>a b. padded 2 n = [a, b] \<and> is_ascii_digit a \<and> is_ascii_digit b \<and> digits_value [a, b] = int n"
proof -
  assume "n < 100"
  then have p: "length (padded 2 n) = 2" "list_all is_ascii_digit (padded 2 n)" "digits_value (padded 2 n) = int n"
    using padded_props [of n 2] by simp_all
  then obtain a b where "padded 2 n = [a, b]" by (auto simp: numeral_2_eq_2 length_Suc_conv)
  with p show ?thesis by auto
qed

lemma padded_4:
  "n < 10000 \<Longrightarrow> \<exists>a b c d. padded 4 n = [a, b, c, d] \<and> is_ascii_digit a \<and> is_ascii_digit b \<and> is_ascii_digit c \<and>
     is_ascii_digit d \<and> digits_value [a, b, c, d] = int n"
proof -
  assume "n < 10000"
  then have p: "length (padded 4 n) = 4" "list_all is_ascii_digit (padded 4 n)" "digits_value (padded 4 n) = int n"
    using padded_props [of n 4] by simp_all
  then obtain a b c d where "padded 4 n = [a, b, c, d]" by (auto simp: eval_nat_numeral length_Suc_conv)
  with p show ?thesis by auto
qed

lemma digit_not_cont: "is_ascii_digit c \<Longrightarrow> \<not> is_cont (bval c)"
  by (simp add: is_ascii_digit_def is_cont_def)

lemma parse_i64_digits: "ds \<noteq> [] \<Longrightarrow> list_all is_ascii_digit ds \<Longrightarrow> parse_i64 ds = Some (digits_value ds)"
  by (cases ds) (auto simp: parse_digits_def is_ascii_digit_def)

lemma str_get_ascii:
  "(\<And>c. c \<in> set s \<Longrightarrow> \<not> is_cont (bval c)) \<Longrightarrow> i \<le> j \<Longrightarrow> j \<le> length s \<Longrightarrow>
   str_get s i j = Some (take (j - i) (drop i s))"
  using nth_mem [of i s] nth_mem [of j s] by (auto simp: str_get_def char_boundary_def)

abbreviation instant_text where
  "instant_text y0 y1 y2 y3 m0 m1 d0 d1 h0 h1 n0 n1 s0 s1 \<equiv>
     [y0, y1, y2, y3, CHR ''-'', m0, m1, CHR ''-'', d0, d1, CHR ''T'', h0, h1, CHR '':'', n0, n1, CHR '':'', s0, s1, CHR ''Z'']"

lemma unix_of_text:
  assumes "list_all is_ascii_digit [y0, y1, y2, y3, m0, m1, d0, d1, h0, h1, n0, n1, s0, s1]"
  shows "unix_of (instant_text y0 y1 y2 y3 m0 m1 d0 d1 h0 h1 n0 n1 s0 s1) =
    Returns (seconds_of_fields (digits_value [y0, y1, y2, y3]) (digits_value [m0, m1]) (digits_value [d0, d1])
      (digits_value [h0, h1]) (digits_value [n0, n1]) (digits_value [s0, s1]))"
proof -
  let ?s = "instant_text y0 y1 y2 y3 m0 m1 d0 d1 h0 h1 n0 n1 s0 s1"
  have nc: "\<not> is_cont (bval c)" if "c \<in> set ?s" for c
    using that assms by (auto simp: digit_not_cont) (simp_all add: is_cont_def)
  have get: "str_get ?s i j = Some (take (j - i) (drop i ?s))" if "i \<le> j" "j \<le> 20" for i j
    by (rule str_get_ascii) (use nc that in auto)
  have sep: "str_get ?s 4 (4 + 1) = Some ''-''" "str_get ?s 7 (7 + 1) = Some ''-''"
    "str_get ?s 10 (10 + 1) = Some ''T''" "str_get ?s 13 (13 + 1) = Some '':''" "str_get ?s 16 (16 + 1) = Some '':''"
    by (simp_all add: get)
  have num: "number_at ?s 0 4 = Some (digits_value [y0, y1, y2, y3])"
    "number_at ?s 5 7 = Some (digits_value [m0, m1])" "number_at ?s 8 10 = Some (digits_value [d0, d1])"
    "number_at ?s 11 13 = Some (digits_value [h0, h1])" "number_at ?s 14 16 = Some (digits_value [n0, n1])"
    "number_at ?s 17 19 = Some (digits_value [s0, s1])"
    using assms by (simp_all add: number_at_def get parse_i64_digits del: parse_i64.simps)
  have "separators ?s [(4, ''-''), (7, ''-''), (10, ''T''), (13, '':''), (16, '':'')] = Some True"
    by (simp only: separators.simps sep option.case if_False simp_thms)
  moreover have "length ?s = 20" "?s ! 19 = CHR ''Z''" by simp_all
  ultimately show ?thesis unfolding unix_of_def num by (simp only: option.case bool.case prod.case simp_thms if_False)
qed

lemma instant_text_is_instant:
  "list_all is_ascii_digit [y0, y1, y2, y3, m0, m1, d0, d1, h0, h1, n0, n1, s0, s1] \<Longrightarrow>
   is_instant (instant_text y0 y1 y2 y3 m0 m1 d0 d1 h0 h1 n0 n1 s0 s1)"
  by (simp add: is_instant_def)

text \<open>The last second a four-digit year can name.\<close>

definition MAX_UNIX :: nat where
  "MAX_UNIX = 253402300800"

lemma clock_bounds:
  fixes n :: nat
  shows "n mod 86400 div 3600 < 24" "n mod 86400 mod 3600 div 60 < 60" "n mod 86400 mod 60 < 60"
proof -
  show "n mod 86400 div 3600 < 24" by (rule less_mult_imp_div_less) simp
  show "n mod 86400 mod 3600 div 60 < 60" by (rule less_mult_imp_div_less) simp
  show "n mod 86400 mod 60 < 60" by simp
qed

lemma format_unix_fields:
  assumes "n < MAX_UNIX" "civil_of_days (int (n div 86400)) = (year, month, day)"
  obtains y0 y1 y2 y3 m0 m1 d0 d1 h0 h1 n0 n1 s0 s1 where
    "format_unix n = instant_text y0 y1 y2 y3 m0 m1 d0 d1 h0 h1 n0 n1 s0 s1"
    "list_all is_ascii_digit [y0, y1, y2, y3, m0, m1, d0, d1, h0, h1, n0, n1, s0, s1]"
    "digits_value [y0, y1, y2, y3] = year" "digits_value [m0, m1] = month" "digits_value [d0, d1] = day"
    "digits_value [h0, h1] = int (n mod 86400 div 3600)" "digits_value [n0, n1] = int (n mod 86400 mod 3600 div 60)"
    "digits_value [s0, s1] = int (n mod 86400 mod 60)"
proof -
  have "int (n div 86400) < 2932897" using assms(1) by (simp add: MAX_UNIX_def less_mult_imp_div_less)
  with civil_year_bounds [OF assms(2)] have y: "0 \<le> year" "year \<le> 9999" by simp_all
  note rt = civil_round_trip [OF assms(2)]
  obtain y0 y1 y2 y3 where Y: "padded 4 (nat year) = [y0, y1, y2, y3]" "is_ascii_digit y0" "is_ascii_digit y1"
    "is_ascii_digit y2" "is_ascii_digit y3" "digits_value [y0, y1, y2, y3] = year"
    using padded_4 [of "nat year"] y by (auto simp: nat_less_iff)
  obtain m0 m1 where M: "padded 2 (nat month) = [m0, m1]" "is_ascii_digit m0" "is_ascii_digit m1" "digits_value [m0, m1] = month"
    using padded_2 [of "nat month"] rt(2,3) by (auto simp: nat_less_iff)
  obtain d0 d1 where D: "padded 2 (nat day) = [d0, d1]" "is_ascii_digit d0" "is_ascii_digit d1" "digits_value [d0, d1] = day"
    using padded_2 [of "nat day"] rt(4,5) by (auto simp: nat_less_iff)
  have "n mod 86400 div 3600 < 100" using clock_bounds(1) [of n] by simp
  then obtain h0 h1 where H: "padded 2 (n mod 86400 div 3600) = [h0, h1]" "is_ascii_digit h0" "is_ascii_digit h1"
    "digits_value [h0, h1] = int (n mod 86400 div 3600)"
    using padded_2 by blast
  have "n mod 86400 mod 3600 div 60 < 100" using clock_bounds(2) [of n] by simp
  then obtain n0 n1 where N: "padded 2 (n mod 86400 mod 3600 div 60) = [n0, n1]" "is_ascii_digit n0" "is_ascii_digit n1"
    "digits_value [n0, n1] = int (n mod 86400 mod 3600 div 60)"
    using padded_2 by blast
  have "n mod 86400 mod 60 < 100" using clock_bounds(3) [of n] by simp
  then obtain s0 s1 where S: "padded 2 (n mod 86400 mod 60) = [s0, s1]" "is_ascii_digit s0" "is_ascii_digit s1"
    "digits_value [s0, s1] = int (n mod 86400 mod 60)"
    using padded_2 by blast
  have "format_unix n = instant_text y0 y1 y2 y3 m0 m1 d0 d1 h0 h1 n0 n1 s0 s1"
    unfolding format_unix_def assms(2) prod.case Let_def Y(1) M(1) D(1) H(1) N(1) S(1) by simp
  then show ?thesis by (rule that) (use Y M D H N S in simp_all)
qed

lemma clock_fields:
  "int (n mod 86400 div 3600) * 3600 + int (n mod 86400 mod 3600 div 60) * 60 + int (n mod 86400 mod 60) = int (n mod 86400)"
proof -
  define r where "r = n mod 86400"
  have "A * 3600 + C * 60 + E = r" if "A * 3600 + B = r" "C * 60 + D = B" "D = E" for A B C D E :: nat
    using that by simp
  from this [OF div_mult_mod_eq div_mult_mod_eq mod_mod_cancel]
  have "r div 3600 * 3600 + r mod 3600 div 60 * 60 + r mod 60 = r" by simp
  then have "int (r div 3600 * 3600 + r mod 3600 div 60 * 60 + r mod 60) = int r" by (rule arg_cong)
  then show ?thesis unfolding r_def [symmetric] by (simp only: of_nat_add of_nat_mult of_nat_numeral)
qed

lemma unix_of_format_unix:
  assumes "n < MAX_UNIX"
  shows "unix_of (format_unix n) = Returns (Some n)" "is_instant (format_unix n)"
proof -
  obtain year month day where c: "civil_of_days (int (n div 86400)) = (year, month, day)" using prod_cases3 by blast
  obtain y0 y1 y2 y3 m0 m1 d0 d1 h0 h1 n0 n1 s0 s1 where
    t: "format_unix n = instant_text y0 y1 y2 y3 m0 m1 d0 d1 h0 h1 n0 n1 s0 s1"
    "list_all is_ascii_digit [y0, y1, y2, y3, m0, m1, d0, d1, h0, h1, n0, n1, s0, s1]"
    and v: "digits_value [y0, y1, y2, y3] = year" "digits_value [m0, m1] = month" "digits_value [d0, d1] = day"
    "digits_value [h0, h1] = int (n mod 86400 div 3600)" "digits_value [n0, n1] = int (n mod 86400 mod 3600 div 60)"
    "digits_value [s0, s1] = int (n mod 86400 mod 60)"
    by (rule format_unix_fields [OF assms c])
  show "is_instant (format_unix n)" unfolding t(1) by (rule instant_text_is_instant [OF t(2)])
  note rt = civil_round_trip [OF c]
  have "int (n div 86400) * 86400 + int (n mod 86400) = int n"
    using arg_cong [OF div_mult_mod_eq [of n 86400], of int] by (simp only: of_nat_add of_nat_mult of_nat_numeral)
  then have "days_of_civil year month day * 86400 + int (n mod 86400 div 3600) * 3600
      + int (n mod 86400 mod 3600 div 60) * 60 + int (n mod 86400 mod 60) = int n"
    unfolding rt(1) using clock_fields [of n] by linarith
  then have "seconds_of_fields year month day (int (n mod 86400 div 3600)) (int (n mod 86400 mod 3600 div 60))
      (int (n mod 86400 mod 60)) = Some n"
    unfolding seconds_of_fields_def Let_def using rt(2-5) clock_bounds [of n] by auto
  then show "unix_of (format_unix n) = Returns (Some n)"
    unfolding t(1) unix_of_text [OF t(2)] v by simp
qed

definition read_unix :: "string \<Rightarrow> nat option" where
  "read_unix t = (case unix_of t of Returns r \<Rightarrow> r | Panics \<Rightarrow> None)"

interpretation unix: codec "\<lambda>n. n < MAX_UNIX" format_unix read_unix
  by unfold_locales (simp add: read_unix_def unix_of_format_unix)

subsection \<open>String order is time order\<close>

text \<open>Days before the March-based year \<open>Y\<close>.\<close>

definition days_before :: "int \<Rightarrow> int" where
  "days_before Y = 365 * Y + Y div 4 - Y div 100 + Y div 400"

lemma div_step: "0 < (k :: int) \<Longrightarrow> (Y + 1) div k = Y div k + (if (Y + 1) mod k = 0 then 1 else 0)"
proof -
  assume k: "0 < k"
  define q where "q = Y div k"
  define r where "r = Y mod k"
  have Y: "Y = k * q + r" by (simp add: q_def r_def)
  have r: "0 \<le> r" "r < k" using k by (simp_all add: r_def)
  show ?thesis
  proof (cases "r + 1 = k")
    case True
    then have "Y + 1 = k * (q + 1)" using Y by (simp add: algebra_simps)
    then show ?thesis using k q_def by simp
  next
    case False
    have "(Y + 1) mod k = (r + 1 + k * q) mod k" using Y by (simp add: algebra_simps)
    also have "\<dots> = r + 1" unfolding mod_mult_self2 using False r by (intro mod_pos_pos_trivial) simp_all
    finally have "(Y + 1) mod k = r + 1" .
    moreover have "(Y + 1) div k = q" using False Y r by (intro div_between) simp_all
    ultimately have "(Y + 1) div k = q" "(Y + 1) mod k = r + 1" by simp_all
    then show ?thesis using r q_def by simp
  qed
qed

lemma days_before_step: "days_before Y + 365 \<le> days_before (Y + 1)"
proof -
  have "(Y + 1) mod 100 = 0 \<Longrightarrow> (Y + 1) mod 4 = 0" by presburger
  then show ?thesis unfolding days_before_def by (simp add: div_step)
qed

lemma days_before_mono: "Y \<le> Y' \<Longrightarrow> days_before Y \<le> days_before Y'"
proof (induction Y' rule: int_ge_induct)
  case (step i)
  then show ?case using days_before_step [of i] by simp
qed simp

lemma days_before_era:
  fixes a e f E :: int
  assumes "0 \<le> a" "a \<le> 3" "0 \<le> e" "e \<le> 24" "0 \<le> f" "f \<le> 3"
  shows "days_before (E * 400 + (100 * a + 4 * e + f)) = 146097 * E + 36524 * a + 1461 * e + 365 * f"
    "days_before (E * 400 + (100 * a + 4 * e + f) + 1) - days_before (E * 400 + (100 * a + 4 * e + f)) =
       (if f = 3 \<and> (e < 24 \<or> a = 3) then 366 else 365)"
proof -
  let ?Y = "E * 400 + (100 * a + 4 * e + f)"
  have d: "?Y div 4 = 100 * E + 25 * a + e" "?Y div 100 = 4 * E + a" "?Y div 400 = E"
    using assms by (intro div_between; simp)+
  then show "days_before ?Y = 146097 * E + 36524 * a + 1461 * e + 365 * f" by (simp add: days_before_def)
  have "(?Y + 1) div 4 = 100 * E + 25 * a + e + (if f = 3 then 1 else 0)"
    "(?Y + 1) div 100 = 4 * E + a + (if f = 3 \<and> e = 24 then 1 else 0)"
    "(?Y + 1) div 400 = E + (if f = 3 \<and> e = 24 \<and> a = 3 then 1 else 0)"
    using assms by (intro div_between; auto)+
  with d show "days_before (?Y + 1) - days_before ?Y = (if f = 3 \<and> (e < 24 \<or> a = 3) then 366 else 365)"
    using assms by (auto simp: days_before_def)
qed

lemma civil_linear:
  assumes "civil_of_days days = (year, month, day)"
  obtains Y doy mp where "days + 719468 = days_before Y + doy" "0 \<le> doy" "doy < days_before (Y + 1) - days_before Y"
    "doy \<le> 365" "mp = (5 * doy + 2) div 153" "day = doy - (153 * mp + 2) div 5 + 1"
    "month = (if mp < 10 then mp + 3 else mp - 9)" "year = Y + (if month \<le> 2 then 1 else 0)"
proof -
  define E where "E = (days + 719468) div 146097"
  define doe where "doe = (days + 719468) mod 146097"
  have days: "days + 719468 = 146097 * E + doe" by (simp add: E_def doe_def)
  have "0 \<le> doe" "doe < 146097" by (simp_all add: doe_def)
  then obtain a e f k where d: "doe = 36524 * a + 1461 * e + 365 * f + k"
    "0 \<le> a" "a \<le> 3" "0 \<le> e" "e \<le> 24" "0 \<le> f" "f \<le> 3" "0 \<le> k" "k \<le> 365"
    "f < 3 \<Longrightarrow> k \<le> 364" "e = 24 \<Longrightarrow> a < 3 \<Longrightarrow> k \<le> 364"
    using era_decomposition by metis
  have y: "year_of_era doe = 100 * a + 4 * e + f" "day_of_year doe = k"
    using year_of_decomposition [of doe a e f k] d by blast+
  define Y where "Y = E * 400 + (100 * a + 4 * e + f)"
  define mp where "mp = (5 * k + 2) div 153"
  have "civil_of_days days = (100 * a + 4 * e + f + E * 400 + (if (if mp < 10 then mp + 3 else mp - 9) \<le> 2 then 1 else 0),
      if mp < 10 then mp + 3 else mp - 9, k - (153 * mp + 2) div 5 + 1)"
    unfolding civil_of_days_def Let_def E_def [symmetric] doe_def [symmetric] y mp_def [symmetric] by (rule refl)
  from trans [OF this [symmetric] assms]
  have ymd: "100 * a + 4 * e + f + E * 400 + (if (if mp < 10 then mp + 3 else mp - 9) \<le> 2 then 1 else 0) = year"
    "(if mp < 10 then mp + 3 else mp - 9) = month" "k - (153 * mp + 2) div 5 + 1 = day"
    unfolding prod.inject by blast+
  note db = days_before_era [OF d(2-7), of E, folded Y_def]
  show ?thesis
  proof (rule that [of Y k mp])
    show "days + 719468 = days_before Y + k" unfolding db(1) days d(1) by simp
    show "k < days_before (Y + 1) - days_before Y"
      unfolding db(2) using d by (cases "f < 3"; cases "e < 24") (auto simp: not_less)
    show "year = Y + (if month \<le> 2 then 1 else 0)" using ymd(1) unfolding ymd(2) Y_def by simp
  qed (use d ymd mp_def in simp_all)
qed

lemma civil_order:
  assumes "civil_of_days d = (y, m, x)" "civil_of_days d' = (y', m', x')" "d < d'"
  shows "y < y' \<or> (y = y' \<and> (m < m' \<or> (m = m' \<and> x < x')))"
proof -
  obtain Y doy mp where c: "d + 719468 = days_before Y + doy" "0 \<le> doy" "doy < days_before (Y + 1) - days_before Y"
    "doy \<le> 365" "mp = (5 * doy + 2) div 153" "x = doy - (153 * mp + 2) div 5 + 1"
    "m = (if mp < 10 then mp + 3 else mp - 9)" "y = Y + (if m \<le> 2 then 1 else 0)"
    by (rule civil_linear [OF assms(1)])
  obtain Y' doy' mp' where c': "d' + 719468 = days_before Y' + doy'" "0 \<le> doy'" "doy' < days_before (Y' + 1) - days_before Y'"
    "doy' \<le> 365" "mp' = (5 * doy' + 2) div 153" "x' = doy' - (153 * mp' + 2) div 5 + 1"
    "m' = (if mp' < 10 then mp' + 3 else mp' - 9)" "y' = Y' + (if m' \<le> 2 then 1 else 0)"
    by (rule civil_linear [OF assms(2)])
  have mp: "0 \<le> mp" "mp \<le> 11" using c(2,4,5) by simp_all
  have mp': "0 \<le> mp'" "mp' \<le> 11" using c'(2,4,5) by simp_all
  have "\<not> Y' < Y"
  proof
    assume "Y' < Y"
    then have "days_before (Y' + 1) \<le> days_before Y" by (intro days_before_mono) simp
    with c(1,2) c'(1,3) assms(3) show False by linarith
  qed
  then consider "Y < Y'" | "Y = Y'" "doy < doy'" using c(1) c'(1) assms(3) by force
  then show ?thesis
  proof cases
    case 1
    then show ?thesis using c(7,8) c'(7,8) mp mp' by auto
  next
    case 2
    then have "mp \<le> mp'" unfolding c(5) c'(5) by (intro zdiv_mono1) simp_all
    then consider "mp < mp'" | "mp = mp'" by linarith
    then show ?thesis
    proof cases
      case 1
      then show ?thesis using c(7,8) c'(7,8) mp mp' \<open>Y = Y'\<close> by auto
    next
      case 2
      then show ?thesis using c(6-8) c'(6-8) \<open>Y = Y'\<close> \<open>doy < doy'\<close> by simp
    qed
  qed
qed

lemma digits_value_Cons: "digits_value (d # ds) = int (bval d - 0x30) * 10 ^ length ds + digits_value ds"
proof (induction ds rule: rev_induct)
  case (snoc x xs)
  have "digits_value (d # xs @ [x]) = 10 * digits_value (d # xs) + int (bval x - 48)"
    using digits_value_snoc [of "d # xs" x] by simp
  with snoc show ?case by (simp add: digits_value_snoc algebra_simps)
qed (simp add: digits_value_def)

lemma digits_value_less: "list_all is_ascii_digit ds \<Longrightarrow> 0 \<le> digits_value ds \<and> digits_value ds < 10 ^ length ds"
proof (induction ds)
  case (Cons d ds)
  then have "int (bval d - 48) \<le> 9" by (auto simp: is_ascii_digit_def)
  then have "int (bval d - 48) * 10 ^ length ds \<le> 9 * 10 ^ length ds" by (intro mult_right_mono) simp_all
  moreover have "0 \<le> int (bval d - 48) * 10 ^ length ds" by simp
  moreover have "0 \<le> digits_value ds" "digits_value ds < 10 ^ length ds" using Cons by simp_all
  ultimately show ?case unfolding digits_value_Cons list.size power_Suc add_0_right add_Suc_right by linarith
qed (simp add: digits_value_def)

lemma digit_less_iff:
  "is_ascii_digit a \<Longrightarrow> is_ascii_digit b \<Longrightarrow> a < b \<longleftrightarrow> bval a - 48 < (bval b - 48 :: nat)"
  by (auto simp: is_ascii_digit_def less_char_def)

text \<open>Digit strings of one length compare as the numbers they write.\<close>

lemma digits_order:
  "length u = length v \<Longrightarrow> list_all is_ascii_digit u \<Longrightarrow> list_all is_ascii_digit v \<Longrightarrow>
   (u < v \<longleftrightarrow> digits_value u < digits_value v) \<and> (u = v \<longleftrightarrow> digits_value u = digits_value v)"
proof (induction u v rule: list_induct2)
  case (Cons a u b v)
  define A where "A = int (bval a - 48)"
  define B where "B = int (bval b - 48)"
  define P where "P = (10 :: int) ^ length u"
  have P: "digits_value (a # u) = A * P + digits_value u" "digits_value (b # v) = B * P + digits_value v"
    using Cons.hyps by (simp_all add: digits_value_Cons A_def B_def P_def)
  have uv: "0 \<le> digits_value u" "digits_value u < P" "0 \<le> digits_value v" "digits_value v < P"
    using digits_value_less [of u] digits_value_less [of v] Cons by (simp_all add: P_def)
  have da: "is_ascii_digit a" "is_ascii_digit b" using Cons.prems by simp_all
  have lt: "a < b \<longleftrightarrow> A < B" using digit_less_iff [OF da] by (simp add: A_def B_def)
  have gt: "b < a \<longleftrightarrow> B < A" using digit_less_iff [OF da(2,1)] by (simp add: A_def B_def)
  consider "A < B" | "B < A" | "A = B" by linarith
  then show ?case
  proof cases
    case 1
    then have "(A + 1) * P \<le> B * P" using uv by (intro mult_right_mono) linarith+
    then have "digits_value (a # u) < digits_value (b # v)" using uv unfolding P by (simp add: algebra_simps)
    then show ?thesis using 1 lt by auto
  next
    case 2
    then have "(B + 1) * P \<le> A * P" using uv by (intro mult_right_mono) linarith+
    then have "digits_value (b # v) < digits_value (a # u)" using uv unfolding P by (simp add: algebra_simps)
    then show ?thesis using 2 gt lt by auto
  next
    case 3
    then have "a = b" using lt gt by (meson less_irrefl linorder_neqE)
    then show ?thesis using Cons 3 P by auto
  qed
qed (simp add: digits_value_def)

lemma field_less: "length u = length v \<Longrightarrow> (u @ c # x < v @ c # y) = (u < v \<or> (u = v \<and> x < (y :: string)))"
  by (induction u v rule: list_induct2) auto

lemma hms_order:
  fixes h n s h' n' s' :: int
  assumes "h * 3600 + n * 60 + s < h' * 3600 + n' * 60 + s'"
    "0 \<le> n" "n < 60" "0 \<le> s" "s < 60" "0 \<le> n'" "n' < 60" "0 \<le> s'" "s' < 60"
  shows "h < h' \<or> (h = h' \<and> (n < n' \<or> (n = n' \<and> s < s')))"
  using assms by linarith

lemma format_unix_mono:
  assumes "a < b" "b < MAX_UNIX"
  shows "format_unix a < format_unix b"
proof -
  obtain y m d where c: "civil_of_days (int (a div 86400)) = (y, m, d)" using prod_cases3 by blast
  obtain y' m' d' where c': "civil_of_days (int (b div 86400)) = (y', m', d')" using prod_cases3 by blast
  have a: "a < MAX_UNIX" using assms by simp
  obtain y0 y1 y2 y3 m0 m1 d0 d1 h0 h1 n0 n1 s0 s1 where
    t: "format_unix a = instant_text y0 y1 y2 y3 m0 m1 d0 d1 h0 h1 n0 n1 s0 s1"
    "list_all is_ascii_digit [y0, y1, y2, y3, m0, m1, d0, d1, h0, h1, n0, n1, s0, s1]"
    and v: "digits_value [y0, y1, y2, y3] = y" "digits_value [m0, m1] = m" "digits_value [d0, d1] = d"
    "digits_value [h0, h1] = int (a mod 86400 div 3600)" "digits_value [n0, n1] = int (a mod 86400 mod 3600 div 60)"
    "digits_value [s0, s1] = int (a mod 86400 mod 60)"
    by (rule format_unix_fields [OF a c])
  obtain y0' y1' y2' y3' m0' m1' d0' d1' h0' h1' n0' n1' s0' s1' where
    t': "format_unix b = instant_text y0' y1' y2' y3' m0' m1' d0' d1' h0' h1' n0' n1' s0' s1'"
    "list_all is_ascii_digit [y0', y1', y2', y3', m0', m1', d0', d1', h0', h1', n0', n1', s0', s1']"
    and v': "digits_value [y0', y1', y2', y3'] = y'" "digits_value [m0', m1'] = m'" "digits_value [d0', d1'] = d'"
    "digits_value [h0', h1'] = int (b mod 86400 div 3600)" "digits_value [n0', n1'] = int (b mod 86400 mod 3600 div 60)"
    "digits_value [s0', s1'] = int (b mod 86400 mod 60)"
    by (rule format_unix_fields [OF assms(2) c'])
  have Y: "([y0, y1, y2, y3] < [y0', y1', y2', y3'] \<longleftrightarrow> y < y') \<and> ([y0, y1, y2, y3] = [y0', y1', y2', y3'] \<longleftrightarrow> y = y')"
    unfolding v(1) [symmetric] v'(1) [symmetric] by (rule digits_order) (use t(2) t'(2) in simp_all)
  have M: "([m0, m1] < [m0', m1'] \<longleftrightarrow> m < m') \<and> ([m0, m1] = [m0', m1'] \<longleftrightarrow> m = m')"
    unfolding v(2) [symmetric] v'(2) [symmetric] by (rule digits_order) (use t(2) t'(2) in simp_all)
  have D: "([d0, d1] < [d0', d1'] \<longleftrightarrow> d < d') \<and> ([d0, d1] = [d0', d1'] \<longleftrightarrow> d = d')"
    unfolding v(3) [symmetric] v'(3) [symmetric] by (rule digits_order) (use t(2) t'(2) in simp_all)
  let ?h = "int (a mod 86400 div 3600)" and ?h' = "int (b mod 86400 div 3600)"
  let ?n = "int (a mod 86400 mod 3600 div 60)" and ?n' = "int (b mod 86400 mod 3600 div 60)"
  let ?s = "int (a mod 86400 mod 60)" and ?s' = "int (b mod 86400 mod 60)"
  have H: "([h0, h1] < [h0', h1'] \<longleftrightarrow> ?h < ?h') \<and> ([h0, h1] = [h0', h1'] \<longleftrightarrow> ?h = ?h')"
    unfolding v(4) [symmetric] v'(4) [symmetric] by (rule digits_order) (use t(2) t'(2) in simp_all)
  have N: "([n0, n1] < [n0', n1'] \<longleftrightarrow> ?n < ?n') \<and> ([n0, n1] = [n0', n1'] \<longleftrightarrow> ?n = ?n')"
    unfolding v(5) [symmetric] v'(5) [symmetric] by (rule digits_order) (use t(2) t'(2) in simp_all)
  have S: "([s0, s1] < [s0', s1'] \<longleftrightarrow> ?s < ?s') \<and> ([s0, s1] = [s0', s1'] \<longleftrightarrow> ?s = ?s')"
    unfolding v(6) [symmetric] v'(6) [symmetric] by (rule digits_order) (use t(2) t'(2) in simp_all)
  have cmp: "instant_text y0 y1 y2 y3 m0 m1 d0 d1 h0 h1 n0 n1 s0 s1 < instant_text y0' y1' y2' y3' m0' m1' d0' d1' h0' h1' n0' n1' s0' s1' \<longleftrightarrow>
    y < y' \<or> (y = y' \<and> (m < m' \<or> (m = m' \<and> (d < d' \<or> (d = d' \<and> (?h < ?h' \<or> (?h = ?h' \<and> (?n < ?n' \<or> (?n = ?n' \<and> ?s < ?s')))))))))"
  proof -
    have split: "instant_text y0 y1 y2 y3 m0 m1 d0 d1 h0 h1 n0 n1 s0 s1 =
        [y0, y1, y2, y3] @ CHR ''-'' # ([m0, m1] @ CHR ''-'' # ([d0, d1] @ CHR ''T'' # ([h0, h1] @ CHR '':'' #
          ([n0, n1] @ CHR '':'' # ([s0, s1] @ [CHR ''Z''])))))" for y0 y1 y2 y3 m0 m1 d0 d1 h0 h1 n0 n1 s0 s1
      by simp
    have len: "length [a, b, c, d] = length [a', b', c', d']" "length [a, b] = length [a', b']"
      for a b c d a' b' c' d' :: char by simp_all
    show ?thesis unfolding split
      by (simp only: field_less [OF len(1)] field_less [OF len(2)] Y M D H N S
          less_irrefl simp_thms)
  qed
  show ?thesis
  proof (cases "a div 86400 < b div 86400")
    case True
    then have "int (a div 86400) < int (b div 86400)" by simp
    from civil_order [OF c c' this] show ?thesis unfolding t(1) t'(1) cmp by blast
  next
    case False
    then have same: "a div 86400 = b div 86400" using assms(1) div_le_mono [of a b 86400] by simp
    then have "a mod 86400 < b mod 86400"
      using assms(1) by (metis div_mult_mod_eq nat_add_left_cancel_less)
    then have lt: "?h * 3600 + ?n * 60 + ?s < ?h' * 3600 + ?n' * 60 + ?s'"
      unfolding clock_fields by (simp only: of_nat_less_iff)
    have "?h < ?h' \<or> (?h = ?h' \<and> (?n < ?n' \<or> (?n = ?n' \<and> ?s < ?s')))"
      by (rule hms_order [OF lt]) (use clock_bounds [of a] clock_bounds [of b] in simp_all)
    then show ?thesis using c c' same unfolding t(1) t'(1) cmp by auto
  qed
qed

lemma format_unix_order:
  assumes "a < MAX_UNIX" "b < MAX_UNIX"
  shows "format_unix a < format_unix b \<longleftrightarrow> a < b"
  using format_unix_mono [of a b] format_unix_mono [of b a] assms
  by (cases a b rule: linorder_cases) (auto dest: less_asym)

subsection \<open>A file clock never moves backward\<close>

text \<open>The instants a clock returns over a sequence of calls, each with what the file held then.\<close>

fun clock_run :: "clock \<Rightarrow> (nat \<times> string option) list \<Rightarrow> string option list" where
  "clock_run clk [] = []"
| "clock_run clk ((seconds, contents) # calls) =
     fst (clock_now clk seconds contents) # clock_run (snd (clock_now clk seconds contents)) calls"

definition file_clock :: "clock \<Rightarrow> bool" where
  "file_clock clk \<longleftrightarrow> (\<exists>path. clk_source clk = File path) \<and> (\<exists>i. clk_last clk = Some i \<and> is_instant i)"

lemma open_clock_file: "open_clock (File path) contents = Some clk \<Longrightarrow> file_clock clk"
  by (auto simp: open_clock_def file_clock_def read_instant_def split: option.splits if_splits)

lemma clock_now_file:
  assumes "file_clock clk"
  obtains i where "clock_now clk seconds contents = (Some i, clk\<lparr>clk_last := Some i\<rparr>)" "the (clk_last clk) \<le> i"
    "is_instant i" "file_clock (clk\<lparr>clk_last := Some i\<rparr>)"
  using assms that by (fastforce simp: clock_now_def file_clock_def read_instant_def Let_def split: option.splits if_splits)

lemma clock_run_file:
  "file_clock clk \<Longrightarrow> \<exists>is. clock_run clk calls = map Some is \<and> sorted (the (clk_last clk) # is) \<and> (\<forall>i \<in> set is. is_instant i)"
proof (induction calls arbitrary: clk)
  case (Cons call calls)
  obtain seconds contents where call: "call = (seconds, contents)" by fastforce
  obtain i where i: "clock_now clk seconds contents = (Some i, clk\<lparr>clk_last := Some i\<rparr>)" "the (clk_last clk) \<le> i"
    "is_instant i" "file_clock (clk\<lparr>clk_last := Some i\<rparr>)"
    by (rule clock_now_file [OF Cons.prems])
  obtain is' where "clock_run (clk\<lparr>clk_last := Some i\<rparr>) calls = map Some is'" "sorted (i # is')" "\<forall>j \<in> set is'. is_instant j"
    using Cons.IH [OF i(4)] by auto
  then have "clock_run clk (call # calls) = map Some (i # is') \<and> sorted (the (clk_last clk) # i # is') \<and> (\<forall>j \<in> set (i # is'). is_instant j)"
    using i call by auto
  then show ?case by blast
qed simp

text \<open>What has expired stays expired, on every later reading of the clock.\<close>

lemma expired_forever:
  assumes "usable g \<lparr>ctx_now = now, ctx_epochs = es\<rparr> = Inl Expired" "now \<le> later"
  shows "usable g \<lparr>ctx_now = later, ctx_epochs = es'\<rparr> = Inl Expired"
  using assms by (auto simp: usable_def split: option.splits if_splits)

subsection \<open>Further facts\<close>

text \<open>
  A clock over a file only moves forward: whatever the file holds at each reading - another
  instant, an older one, rubbish, nothing - the instants returned are instants, in non-decreasing
  order.
\<close>

theorem file_clock_never_goes_back:
  assumes "open_clock (File path) contents = Some clk"
  shows "\<exists>is. clock_run clk calls = map Some is \<and> sorted is \<and> list_all is_instant is"
  using clock_run_file [OF open_clock_file [OF assms], of calls] by (auto simp: list_all_iff)

lemma file_clock_never_goes_back_witness:
  "\<exists>clk is. open_clock (File ''c'') (Some ''2026-01-02T03:04:05Z'') = Some clk \<and>
     clock_run clk [(0, None), (0, Some ''2025-01-02T03:04:05Z'')] = map Some is \<and> sorted is"
proof -
  have "is_instant ''2026-01-02T03:04:05Z''" by code_simp
  then obtain clk where clk: "open_clock (File ''c'') (Some ''2026-01-02T03:04:05Z'') = Some clk"
    by (auto simp: open_clock_def read_instant_def)
  show ?thesis
    using file_clock_never_goes_back [OF clk, of "[(0, None), (0, Some ''2025-01-02T03:04:05Z'')]"] clk by blast
qed

text \<open>
  A grant once refused as expired is refused as expired at every later instant, whatever became of
  the authority epochs.
\<close>

theorem expired_stays_expired:
  assumes "usable g \<lparr>ctx_now = now, ctx_epochs = es\<rparr> = Inl Expired" "now \<le> later"
  shows "usable g \<lparr>ctx_now = later, ctx_epochs = es'\<rparr> = Inl Expired"
  by (rule expired_forever [OF assms])

lemma expired_stays_expired_witness:
  "usable (example_grant 0 None\<lparr>g_expires_at := Some ''b''\<rparr>) \<lparr>ctx_now = ''d'', ctx_epochs = []\<rparr> = Inl Expired"
  by (rule expired_stays_expired [of _ "''c''" "[]"]) (simp_all add: usable_def example_grant_def)

subsection \<open>Properties\<close>

text \<open>
  C28. For every second up to the end of the year 9999, formatting and reading back gives the same
  second, the text is an instant of the fixed shape, and comparing texts is comparing times.
\<close>

theorem instants_roundtrip_in_order:
  assumes "a < MAX_UNIX" "b < MAX_UNIX"
  shows "unix_of (format_unix a) = Returns (Some a) \<and> is_instant (format_unix a) \<and>
    (format_unix a < format_unix b \<longleftrightarrow> a < b)"
  using unix_of_format_unix [OF assms(1)] format_unix_order [OF assms] by simp

lemma instants_roundtrip_in_order_witness:
  "unix_of (format_unix 1767323045) = Returns (Some 1767323045) \<and> format_unix 1767323045 < format_unix 1767323046"
  using instants_roundtrip_in_order [of 1767323045 1767323046] by (simp add: MAX_UNIX_def)

end
