(* ===== verification/Budget.thy ===== *)
theory Budget
  imports Clock "HOL-Library.Multiset"
begin

text \<open>
  The model budget, \<open>budget.rs\<close>: the admission of a call before it is sent, the ledger the
  decision is made on, and the settlement of what was spent. The table \<open>model_ledger\<close> is the
  list of its rows in id order, and every SQL statement the source writes is a function of it. A
  transaction the store does not take lands nothing; whether it takes one is an argument. The
  process-wide map \<open>UNWRITTEN\<close> is part of the state, so what survives a refused store is visible.
  A \<open>u64\<close> is a \<open>nat\<close>; where the source narrows one to \<open>i64\<close>, \<open>as_i64\<close> wraps.
\<close>

definition WINDOW_TOKENS :: nat where "WINDOW_TOKENS = 20000000"
definition MONTH_TOKENS :: nat where "MONTH_TOKENS = 200000000"
definition WINDOW_SECONDS :: int where "WINDOW_SECONDS = 5 * 60 * 60"
definition PER_REQUEST_TOKENS :: nat where "PER_REQUEST_TOKENS = 250000"
definition PER_JOB_TOKENS :: nat where "PER_JOB_TOKENS = 1000000"
definition MESSAGE_OVERHEAD_TOKENS :: nat where "MESSAGE_OVERHEAD_TOKENS = 8"
definition SAFETY_MARGIN_TOKENS :: nat where "SAFETY_MARGIN_TOKENS = 1024"

definition U64_MAX :: nat where "U64_MAX = 2 ^ 64 - 1"

definition saturating_add :: "nat \<Rightarrow> nat \<Rightarrow> nat" where
  "saturating_add a b = min (a + b) U64_MAX"

definition as_i64 :: "nat \<Rightarrow> int" where
  "as_i64 n = (let m = int (n mod 2 ^ 64) in if m < 2 ^ 63 then m else m - 2 ^ 64)"

subsection \<open>Refusals, settlements, estimates\<close>

datatype refusal =
  WindowExhausted | MonthExhausted | PerRequest | PerJob | RunCeiling | Overrun | BoundUnsound

fun a_tighter_figure_could_admit :: "refusal \<Rightarrow> bool" where
  "a_tighter_figure_could_admit WindowExhausted = True"
| "a_tighter_figure_could_admit MonthExhausted = True"
| "a_tighter_figure_could_admit PerJob = True"
| "a_tighter_figure_could_admit RunCeiling = True"
| "a_tighter_figure_could_admit PerRequest = False"
| "a_tighter_figure_could_admit Overrun = False"
| "a_tighter_figure_could_admit BoundUnsound = False"

fun refusal_reason :: "refusal \<Rightarrow> string" where
  "refusal_reason WindowExhausted = ''budget_exhausted''"
| "refusal_reason MonthExhausted = ''budget_exhausted''"
| "refusal_reason PerRequest = ''request_over_ceiling''"
| "refusal_reason PerJob = ''job_over_ceiling''"
| "refusal_reason RunCeiling = ''run_over_ceiling''"
| "refusal_reason Overrun = ''reservation_overrun''"
| "refusal_reason BoundUnsound = ''local_bound_unsound''"

datatype settlement = Usage nat | UsageUnknown | NothingSpent | ProviderExhausted

fun settlement_reason :: "settlement \<Rightarrow> string option" where
  "settlement_reason (Usage _) = None"
| "settlement_reason UsageUnknown = Some ''model_call_failed''"
| "settlement_reason NothingSpent = Some ''model_not_sent''"
| "settlement_reason ProviderExhausted = Some ''provider_quota_exhausted''"

record reservation =
  rv_id :: int
  rv_estimate :: nat

definition worst_case_tokens :: "string \<Rightarrow> nat" where
  "worst_case_tokens bs = length bs"

definition input_bound :: "string \<Rightarrow> nat \<Rightarrow> nat" where
  "input_bound serialized messages = worst_case_tokens serialized + MESSAGE_OVERHEAD_TOKENS * messages"

definition reservation_for :: "string \<Rightarrow> nat \<Rightarrow> nat \<Rightarrow> nat" where
  "reservation_for serialized messages generation =
     saturating_add (saturating_add (input_bound serialized messages) generation) SAFETY_MARGIN_TOKENS"

text \<open>\<open>epoch_seconds\<close>, which allows fractions of a second and a leap second.\<close>

definition epoch_seconds :: "string \<Rightarrow> int option" where
  "epoch_seconds instant =
     (if length instant < 20 \<or> instant ! 4 \<noteq> CHR ''-'' \<or> instant ! 7 \<noteq> CHR ''-'' \<or> instant ! 10 \<noteq> CHR ''T'' then None
      else if instant ! 13 \<noteq> CHR '':'' \<or> instant ! 16 \<noteq> CHR '':'' \<or> \<not> suffix ''Z'' instant then None
      else (case (number_at instant 0 4, number_at instant 5 7, number_at instant 8 10,
                  number_at instant 11 13, number_at instant 14 16, number_at instant 17 19) of
              (Some year, Some month, Some day, Some hour, Some minute, Some second) \<Rightarrow>
                if \<not> (1 \<le> month \<and> month \<le> 12) \<or> \<not> (1 \<le> day \<and> day \<le> 31) then None
                else if hour > 23 \<or> minute > 59 \<or> second > 60 then None
                else Some (days_of_civil year month day * 86400 + hour * 3600 + minute * 60 + second)
            | _ \<Rightarrow> None))"

subsection \<open>The ledger\<close>

record ledger_row =
  lr_id :: int
  lr_job :: string
  lr_request :: string
  lr_kind :: string
  lr_tokens :: int
  lr_estimate :: int
  lr_recorded_at :: string
  lr_seconds :: int

datatype ledger_error = Storage | Instant string

record unwritten =
  uw_now :: string
  uw_reservation :: reservation
  uw_tokens :: nat

record ledger_state =
  ls_rows :: "ledger_row list"
  ls_unwritten :: "string \<Rightarrow> unwritten list option"

record ledger =
  lg_file :: "string option"
  lg_run_ceiling :: "nat option"

definition SPENT :: "string list" where
  "SPENT = [''reservation'', ''usage'', ''unknown'', ''provider_exhausted'', ''not_sent'']"

definition spent :: "ledger_row \<Rightarrow> bool" where
  "spent r \<longleftrightarrow> lr_kind r \<in> set SPENT"

text \<open>\<open>SELECT SUM(tokens)\<close>: an error when the sum leaves \<open>i64\<close>, and otherwise at least 0.\<close>

definition sum_tokens :: "(ledger_row \<Rightarrow> bool) \<Rightarrow> ledger_row list \<Rightarrow> int" where
  "sum_tokens P rows = sum_list (map lr_tokens (filter (\<lambda>r. spent r \<and> P r) rows))"

definition total :: "(ledger_row \<Rightarrow> bool) \<Rightarrow> ledger_row list \<Rightarrow> ledger_error + nat" where
  "total P rows =
     (let s = sum_tokens P rows in
      if - (2 ^ 63) \<le> s \<and> s < 2 ^ 63 then Inr (nat (max s 0)) else Inl Storage)"

definition run_spend :: "ledger_row list \<Rightarrow> ledger_error + nat" where
  "run_spend rows = total (\<lambda>_. True) rows"

record spend =
  sp_window :: nat
  sp_month :: nat
  sp_job :: nat

definition spend_of :: "ledger_row list \<Rightarrow> string \<Rightarrow> string \<Rightarrow> ledger_error + spend" where
  "spend_of rows now job =
     rbind (ok_or (epoch_seconds now) (Instant now)) (\<lambda>seconds.
     rbind (total (\<lambda>r. lr_seconds r > seconds - WINDOW_SECONDS) rows) (\<lambda>window.
     rbind (total (\<lambda>r. take 7 (lr_recorded_at r) = take 7 now) rows) (\<lambda>month.
     rbind (total (\<lambda>r. lr_job r = job) rows) (\<lambda>j.
     Inr \<lparr>sp_window = window, sp_month = month, sp_job = j\<rparr>))))"

definition next_id :: "ledger_row list \<Rightarrow> int" where
  "next_id rows = fold max (map lr_id rows) 0 + 1"

definition REFUSAL_KINDS :: "string list" where
  "REFUSAL_KINDS = [''budget_exhausted'', ''request_over_ceiling'', ''job_over_ceiling'',
     ''reservation_overrun'', ''local_bound_unsound'']"

definition write_row ::
    "ledger_row list \<Rightarrow> string \<Rightarrow> string \<Rightarrow> string \<Rightarrow> string \<Rightarrow> nat \<Rightarrow> nat \<Rightarrow> ledger_error + (int \<times> ledger_row list)" where
  "write_row rows now job request knd tokens estimate =
     rbind (ok_or (epoch_seconds now) (Instant now)) (\<lambda>seconds.
     let knd = (if knd \<in> set REFUSAL_KINDS then ''refusal'' else knd);
         i = next_id rows
     in Inr (i, rows @ [\<lparr>lr_id = i, lr_job = job, lr_request = request, lr_kind = knd,
          lr_tokens = as_i64 tokens, lr_estimate = as_i64 estimate, lr_recorded_at = now,
          lr_seconds = seconds\<rparr>]))"

definition stop_of :: "ledger_row list \<Rightarrow> refusal option" where
  "stop_of rows =
     (if list_ex (\<lambda>r. lr_kind r = ''bound_unsound'') rows then Some BoundUnsound
      else if list_ex (\<lambda>r. lr_kind r = ''overrun'') rows then Some Overrun
      else None)"

definition recorded :: "ledger_row list \<Rightarrow> string \<Rightarrow> bool" where
  "recorded rows knd \<longleftrightarrow> list_ex (\<lambda>r. lr_kind r = knd) rows"

definition holds_a_stop :: "ledger \<Rightarrow> ledger_state \<Rightarrow> bool" where
  "holds_a_stop l s \<longleftrightarrow> (case lg_file l of None \<Rightarrow> False | Some file \<Rightarrow> ls_unwritten s file \<noteq> None)"

subsection \<open>Settlement\<close>

text \<open>\<open>settle_locked\<close>: the \<open>UPDATE\<close>, and the \<open>INSERT ... SELECT\<close> of the overrun.\<close>

fun settled_as :: "settlement \<Rightarrow> string \<times> nat option" where
  "settled_as (Usage tokens) = (''usage'', Some tokens)"
| "settled_as UsageUnknown = (''unknown'', None)"
| "settled_as NothingSpent = (''not_sent'', Some 0)"
| "settled_as ProviderExhausted = (''provider_exhausted'', Some 0)"

definition settle_row :: "string \<Rightarrow> int \<Rightarrow> settlement \<Rightarrow> ledger_row \<Rightarrow> ledger_row" where
  "settle_row now seconds st r =
     (let (knd, tokens) = settled_as st in
      r\<lparr>lr_kind := knd,
        lr_tokens := (case tokens of Some t \<Rightarrow> as_i64 t | None \<Rightarrow> lr_tokens r),
        lr_recorded_at := now, lr_seconds := seconds\<rparr>)"

definition open_reservation :: "int \<Rightarrow> ledger_row \<Rightarrow> bool" where
  "open_reservation i r \<longleftrightarrow> lr_id r = i \<and> lr_kind r = ''reservation''"

definition overrun_rows :: "ledger_row list \<Rightarrow> string \<Rightarrow> int \<Rightarrow> reservation \<Rightarrow> nat \<Rightarrow> ledger_row list" where
  "overrun_rows rows now seconds rv tokens =
     (case find (\<lambda>r. lr_id r = rv_id rv) rows of
        None \<Rightarrow> []
      | Some r \<Rightarrow>
          [\<lparr>lr_id = next_id rows, lr_job = lr_job r, lr_request = lr_request r, lr_kind = ''overrun'',
            lr_tokens = as_i64 tokens, lr_estimate = as_i64 (rv_estimate rv),
            lr_recorded_at = now, lr_seconds = seconds\<rparr>])"

definition settle_locked :: "ledger_row list \<Rightarrow> string \<Rightarrow> int \<Rightarrow> reservation \<Rightarrow> settlement \<Rightarrow> ledger_row list" where
  "settle_locked rows now seconds rv st =
     (if \<not> list_ex (open_reservation (rv_id rv)) rows then rows
      else (let rows' = map (\<lambda>r. if open_reservation (rv_id rv) r then settle_row now seconds st r else r) rows in
            case st of
              Usage tokens \<Rightarrow>
                if tokens > rv_estimate rv then rows' @ overrun_rows rows' now seconds rv tokens else rows'
            | _ \<Rightarrow> rows'))"

definition keep :: "ledger \<Rightarrow> ledger_state \<Rightarrow> string \<Rightarrow> reservation \<Rightarrow> settlement \<Rightarrow> bool \<times> ledger_state" where
  "keep l s now rv st =
     (case (st, lg_file l) of
        (Usage tokens, Some file) \<Rightarrow>
          if tokens \<le> rv_estimate rv then (False, s)
          else (let kept = (case ls_unwritten s file of None \<Rightarrow> [] | Some k \<Rightarrow> k);
                    kept' = (if list_ex (\<lambda>u. rv_id (uw_reservation u) = rv_id rv) kept then kept
                             else kept @ [\<lparr>uw_now = now, uw_reservation = rv, uw_tokens = tokens\<rparr>])
                in (True, s\<lparr>ls_unwritten := (ls_unwritten s)(file \<mapsto> kept')\<rparr>))
      | _ \<Rightarrow> (False, s))"

record unsettled =
  us_error :: ledger_error
  us_kept :: bool

text \<open>\<open>takes\<close>: the store takes this transaction, from \<open>BEGIN IMMEDIATE\<close> to \<open>COMMIT\<close>.\<close>

definition settle ::
    "ledger \<Rightarrow> bool \<Rightarrow> ledger_state \<Rightarrow> string \<Rightarrow> reservation \<Rightarrow> settlement \<Rightarrow> (unsettled + unit) \<times> ledger_state" where
  "settle l takes s now rv st =
     (case epoch_seconds now of
        None \<Rightarrow>
          (let (kept, s') = keep l s now rv st in (Inl \<lparr>us_error = Instant now, us_kept = kept\<rparr>, s'))
      | Some seconds \<Rightarrow>
          if takes then (Inr (), s\<lparr>ls_rows := settle_locked (ls_rows s) now seconds rv st\<rparr>)
          else (let (kept, s') = keep l s now rv st in (Inl \<lparr>us_error = Storage, us_kept = kept\<rparr>, s')))"

subsection \<open>Admission\<close>

definition ceiling_refusal :: "spend \<Rightarrow> nat \<Rightarrow> nat option \<Rightarrow> nat \<Rightarrow> refusal option" where
  "ceiling_refusal sp run ceiling estimate =
     (if estimate > PER_REQUEST_TOKENS then Some PerRequest
      else if sp_job sp + estimate > PER_JOB_TOKENS then Some PerJob
      else if sp_window sp + estimate > WINDOW_TOKENS then Some WindowExhausted
      else if sp_month sp + estimate > MONTH_TOKENS then Some MonthExhausted
      else if (case ceiling of None \<Rightarrow> False | Some c \<Rightarrow> run + estimate > c) then Some RunCeiling
      else None)"

definition admit_locked ::
    "ledger \<Rightarrow> ledger_state \<Rightarrow> string \<Rightarrow> string \<Rightarrow> string \<Rightarrow> nat \<Rightarrow>
     ledger_error + ((refusal + reservation) \<times> ledger_row list)" where
  "admit_locked l s now job request estimate =
     (let rows = ls_rows s;
          stop = (case stop_of rows of Some x \<Rightarrow> Some x | None \<Rightarrow> if holds_a_stop l s then Some Overrun else None)
      in case stop of
           Some x \<Rightarrow>
             rbind (write_row rows now job request (refusal_reason x) 0 estimate) (\<lambda>(_, rows'). Inr (Inl x, rows'))
         | None \<Rightarrow>
             rbind (spend_of rows now job) (\<lambda>sp.
             rbind (run_spend rows) (\<lambda>run.
             case ceiling_refusal sp run (lg_run_ceiling l) estimate of
               Some x \<Rightarrow>
                 rbind (write_row rows now job request (refusal_reason x) 0 estimate) (\<lambda>(_, rows'). Inr (Inl x, rows'))
             | None \<Rightarrow>
                 rbind (write_row rows now job request ''reservation'' estimate estimate) (\<lambda>(i, rows').
                   Inr (Inr \<lparr>rv_id = i, rv_estimate = estimate\<rparr>, rows')))))"

definition admit_once ::
    "ledger \<Rightarrow> bool \<Rightarrow> ledger_state \<Rightarrow> string \<Rightarrow> string \<Rightarrow> string \<Rightarrow> nat \<Rightarrow>
     (ledger_error + (refusal + reservation)) \<times> ledger_state" where
  "admit_once l takes s now job request estimate =
     (if \<not> takes then (Inl Storage, s)
      else (case admit_locked l s now job request estimate of
              Inl e \<Rightarrow> (Inl e, s)
            | Inr (answer, rows') \<Rightarrow> (Inr answer, s\<lparr>ls_rows := rows'\<rparr>)))"

text \<open>\<open>write_unwritten\<close>: \<open>settles u\<close> says whether the store takes the settlement of \<open>u\<close> now.\<close>

fun settle_each ::
    "ledger \<Rightarrow> (unwritten \<Rightarrow> bool) \<Rightarrow> ledger_state \<Rightarrow> unwritten list \<Rightarrow> int list \<times> ledger_state" where
  "settle_each l settles s [] = ([], s)"
| "settle_each l settles s (u # us) =
     (let (res, s') = settle l (settles u) s (uw_now u) (uw_reservation u) (Usage (uw_tokens u));
          (written, s'') = settle_each l settles s' us
      in (case res of Inr _ \<Rightarrow> (rv_id (uw_reservation u) # written, s'') | Inl _ \<Rightarrow> (written, s'')))"

definition write_unwritten :: "ledger \<Rightarrow> (unwritten \<Rightarrow> bool) \<Rightarrow> ledger_state \<Rightarrow> ledger_state" where
  "write_unwritten l settles s =
     (case lg_file l of
        None \<Rightarrow> s
      | Some file \<Rightarrow>
          (case ls_unwritten s file of
             None \<Rightarrow> s
           | Some kept \<Rightarrow>
               (let (written, s') = settle_each l settles s kept in
                case ls_unwritten s' file of
                  None \<Rightarrow> s'
                | Some kept' \<Rightarrow>
                    s'\<lparr>ls_unwritten := (ls_unwritten s')(file \<mapsto>
                      filter (\<lambda>u. rv_id (uw_reservation u) \<notin> set written) kept')\<rparr>)))"

definition admit ::
    "ledger \<Rightarrow> (unwritten \<Rightarrow> bool) \<Rightarrow> bool \<Rightarrow> ledger_state \<Rightarrow> string \<Rightarrow> string \<Rightarrow> string \<Rightarrow> nat \<Rightarrow>
     (ledger_error + (refusal + reservation)) \<times> ledger_state" where
  "admit l settles takes s now job request estimate =
     (let s1 = write_unwritten l settles s;
          (admitted, s2) = admit_once l takes s1 now job request estimate
      in (case admitted of
            Inl e \<Rightarrow> if holds_a_stop l s2 then (Inr (Inl Overrun), s2) else (Inl e, s2)
          | Inr answer \<Rightarrow> (Inr answer, s2)))"

definition note_row ::
    "bool \<Rightarrow> ledger_state \<Rightarrow> string \<Rightarrow> string \<Rightarrow> string \<Rightarrow> string \<Rightarrow> nat \<Rightarrow> nat \<Rightarrow> (ledger_error + unit) \<times> ledger_state" where
  "note_row takes s now job request knd tokens estimate =
     (case write_row (ls_rows s) now job request knd tokens estimate of
        Inl e \<Rightarrow> (Inl e, s)
      | Inr (_, rows') \<Rightarrow> if takes then (Inr (), s\<lparr>ls_rows := rows'\<rparr>) else (Inl Storage, s))"

definition rows_report :: "ledger_row list \<Rightarrow> (string \<times> string \<times> nat) list" where
  "rows_report rows = map (\<lambda>r. (lr_kind r, int_text (lr_estimate r), nat (max (lr_tokens r) 0))) rows"

subsection \<open>Rows\<close>

lemma fold_max_ge: "(x :: int) \<le> fold max xs x \<and> (\<forall>y \<in> set xs. y \<le> fold max xs x)"
proof (induction xs arbitrary: x)
  case (Cons y ys)
  from Cons [of "max y x"] show ?case by simp
qed simp

lemma next_id_fresh: "r \<in> set rows \<Longrightarrow> lr_id r < next_id rows"
  using fold_max_ge [of 0 "map lr_id rows"] by (auto simp: next_id_def)

lemma sum_tokens_Nil [simp]: "sum_tokens P [] = 0"
  by (simp add: sum_tokens_def)

lemma sum_tokens_Cons [simp]:
  "sum_tokens P (r # rows) = (if spent r \<and> P r then lr_tokens r else 0) + sum_tokens P rows"
  by (simp add: sum_tokens_def)

lemma sum_tokens_append [simp]: "sum_tokens P (xs @ ys) = sum_tokens P xs + sum_tokens P ys"
  by (simp add: sum_tokens_def)

lemma as_i64_small: "n < 2 ^ 63 \<Longrightarrow> as_i64 n = int n"
  by (simp add: as_i64_def Let_def)

text \<open>By how much the bills of \<open>P\<close>'s calls went above their reservations.\<close>

definition excess :: "(ledger_row \<Rightarrow> bool) \<Rightarrow> ledger_row list \<Rightarrow> int" where
  "excess P rows = sum_list (map (\<lambda>r. lr_tokens r - lr_estimate r) (filter (\<lambda>r. lr_kind r = ''overrun'' \<and> P r) rows))"

lemma excess_Nil [simp]: "excess P [] = 0"
  by (simp add: excess_def)

lemma excess_Cons [simp]:
  "excess P (r # rows) = (if lr_kind r = ''overrun'' \<and> P r then lr_tokens r - lr_estimate r else 0) + excess P rows"
  by (simp add: excess_def)

lemma excess_append [simp]: "excess P (xs @ ys) = excess P xs + excess P ys"
  by (simp add: excess_def)

definition handle_ok :: "ledger_row list \<Rightarrow> reservation \<Rightarrow> bool" where
  "handle_ok rows rv \<longleftrightarrow>
     rv_estimate rv < 2 ^ 63 \<and> (\<exists>r \<in> set rows. lr_id r = rv_id rv \<and> lr_estimate r = int (rv_estimate rv))"

fun bill_ok :: "settlement \<Rightarrow> bool" where
  "bill_ok (Usage tokens) = (tokens < 2 ^ 63)"
| "bill_ok _ = True"

definition rows_ok :: "ledger_row list \<Rightarrow> bool" where
  "rows_ok rows \<longleftrightarrow>
     distinct (map lr_id rows) \<and>
     (\<forall>r \<in> set rows. (lr_kind r = ''reservation'' \<longrightarrow> lr_tokens r = lr_estimate r) \<and>
        (spent r \<longrightarrow> 0 \<le> lr_tokens r) \<and> (lr_kind r = ''overrun'' \<longrightarrow> lr_estimate r \<le> lr_tokens r))"

lemma spent_kinds:
  "spent r \<longleftrightarrow> lr_kind r = ''reservation'' \<or> lr_kind r = ''usage'' \<or> lr_kind r = ''unknown'' \<or>
     lr_kind r = ''provider_exhausted'' \<or> lr_kind r = ''not_sent''"
  by (simp add: spent_def SPENT_def)

lemma settle_row_simps [simp]:
  "lr_id (settle_row now sec st r) = lr_id r" "lr_job (settle_row now sec st r) = lr_job r"
  "lr_request (settle_row now sec st r) = lr_request r" "lr_estimate (settle_row now sec st r) = lr_estimate r"
  "spent (settle_row now sec st r)" "lr_kind (settle_row now sec st r) \<noteq> ''reservation''"
  "lr_kind (settle_row now sec st r) \<noteq> ''overrun''" "lr_kind (settle_row now sec st r) \<noteq> ''bound_unsound''"
  by (cases st; simp add: settle_row_def spent_def SPENT_def)+

text \<open>A settlement replaces one open reservation, or changes nothing.\<close>

lemma settle_locked_cases:
  assumes "rows_ok rows" "handle_ok rows rv"
  obtains "settle_locked rows now sec rv st = rows" "\<forall>r \<in> set rows. \<not> open_reservation (rv_id rv) r"
  | xs r ys where "rows = xs @ r # ys" "open_reservation (rv_id rv) r" "lr_estimate r = int (rv_estimate rv)"
      "settle_locked rows now sec rv st = xs @ settle_row now sec st r # ys @
         (case st of
            Usage tokens \<Rightarrow>
              if tokens > rv_estimate rv
              then [\<lparr>lr_id = next_id rows, lr_job = lr_job r, lr_request = lr_request r, lr_kind = ''overrun'',
                 lr_tokens = as_i64 tokens, lr_estimate = as_i64 (rv_estimate rv), lr_recorded_at = now, lr_seconds = sec\<rparr>]
              else []
          | _ \<Rightarrow> [])"
proof (cases "list_ex (open_reservation (rv_id rv)) rows")
  case False
  then show ?thesis by (intro that(1)) (simp_all add: settle_locked_def list_ex_iff)
next
  case True
  then obtain r where r: "r \<in> set rows" "open_reservation (rv_id rv) r" by (auto simp: list_ex_iff)
  then obtain xs ys where rows: "rows = xs @ r # ys" by (meson split_list)
  have id: "lr_id r = rv_id rv" using r(2) by (simp add: open_reservation_def)
  have other: "lr_id q \<noteq> rv_id rv" if "q \<in> set xs \<union> set ys" for q
  proof -
    have "distinct (map lr_id (xs @ r # ys))" using assms(1) unfolding rows rows_ok_def by blast
    then have "lr_id r \<notin> lr_id ` (set xs \<union> set ys)" by auto
    then show ?thesis using that id by (metis imageI)
  qed
  let ?f = "\<lambda>r. if open_reservation (rv_id rv) r then settle_row now sec st r else r"
  have same: "map ?f xs = xs" "map ?f ys = ys"
    using other by (auto simp: open_reservation_def intro!: map_idI)
  then have upd: "map ?f rows = xs @ settle_row now sec st r # ys" using r(2) by (simp add: rows)
  have est: "lr_estimate r = int (rv_estimate rv)"
    using assms(2) other id unfolding handle_ok_def rows by auto
  have find: "find (\<lambda>r. lr_id r = rv_id rv) (xs @ settle_row now sec st r # ys) = Some (settle_row now sec st r)"
  proof -
    have "find (\<lambda>r. lr_id r = rv_id rv) xs = None" using other by (auto simp: find_None_iff)
    then show ?thesis using id by (induction xs) (auto split: if_splits)
  qed
  have nid: "next_id (xs @ settle_row now sec st r # ys) = next_id rows" by (simp add: next_id_def rows)
  show ?thesis
    by (rule that(2) [OF rows r(2) est])
      (use True upd find nid in \<open>auto simp: settle_locked_def overrun_rows_def Let_def split: settlement.split\<close>)
qed

text \<open>
  The bound every ceiling gives: what \<open>P\<close>'s calls cost stays within \<open>B\<close>, up to what the
  provider billed above reservations already admitted.
\<close>

definition within :: "(ledger_row \<Rightarrow> bool) \<Rightarrow> int \<Rightarrow> ledger_row list \<Rightarrow> bool" where
  "within P B rows \<longleftrightarrow> sum_tokens P rows \<le> B + excess P rows"

lemma settle_row_tokens:
  "bill_ok st \<Longrightarrow> lr_tokens (settle_row now sec st r) =
     (case st of Usage t \<Rightarrow> int t | UsageUnknown \<Rightarrow> lr_tokens r | _ \<Rightarrow> 0)"
  by (cases st) (simp_all add: settle_row_def as_i64_small as_i64_def)

lemma settle_locked_within:
  assumes "rows_ok rows" "handle_ok rows rv" "bill_ok st" "within P B rows"
    and P: "\<And>r r'. lr_job r = lr_job r' \<Longrightarrow> P r = P r'"
  shows "within P B (settle_locked rows now sec rv st)"
proof (rule settle_locked_cases [OF assms(1,2)])
  assume "settle_locked rows now sec rv st = rows"
  with assms(4) show ?thesis by simp
next
  fix xs r ys
  assume rows: "rows = xs @ r # ys" and o: "open_reservation (rv_id rv) r"
    and est: "lr_estimate r = int (rv_estimate rv)"
    and s: "settle_locked rows now sec rv st = xs @ settle_row now sec st r # ys @
         (case st of
            Usage tokens \<Rightarrow>
              if tokens > rv_estimate rv
              then [\<lparr>lr_id = next_id rows, lr_job = lr_job r, lr_request = lr_request r, lr_kind = ''overrun'',
                 lr_tokens = as_i64 tokens, lr_estimate = as_i64 (rv_estimate rv), lr_recorded_at = now, lr_seconds = sec\<rparr>]
              else []
          | _ \<Rightarrow> [])"
  have k: "lr_kind r = ''reservation''" "spent r" using o by (simp_all add: open_reservation_def spent_def SPENT_def)
  have tok: "lr_tokens r = int (rv_estimate rv)" "rv_estimate rv < 2 ^ 63"
    using assms(1,2) k est unfolding rows rows_ok_def handle_ok_def by auto
  have Pr: "P (settle_row now sec st r) = P r" by (rule P) simp
  show ?thesis
  proof (cases st)
    case (Usage t)
    have ov: "P \<lparr>lr_id = i, lr_job = lr_job r, lr_request = q, lr_kind = kk, lr_tokens = a, lr_estimate = b,
        lr_recorded_at = now, lr_seconds = sec\<rparr> = P r" for i q kk a b by (rule P) simp
    have t: "t < 2 ^ 63" using assms(3) Usage by simp
    have w: "sum_tokens P xs + (if P r then int (rv_estimate rv) else 0) + sum_tokens P ys \<le> B + (excess P xs + excess P ys)"
      using assms(4) k tok(1) unfolding within_def rows by (simp split: if_splits)
    have tk: "lr_tokens (settle_row now sec (Usage t) r) = int t" using t by (simp add: settle_row_tokens)
    have ns: "\<not> spent \<lparr>lr_id = i, lr_job = j, lr_request = q, lr_kind = ''overrun'', lr_tokens = a, lr_estimate = b,
        lr_recorded_at = c, lr_seconds = d\<rparr>" for i j q a b c d by (simp add: spent_def SPENT_def)
    show ?thesis
      unfolding s unfolding within_def Usage settlement.case using w tok(2) t Pr [unfolded Usage] ov tk ns
      by (simp add: as_i64_small split: if_splits)
  next
    case UsageUnknown
    then show ?thesis using assms(3,4) k Pr unfolding s unfolding within_def rows
      by (simp add: settle_row_tokens split: if_splits)
  next
    case NothingSpent
    then show ?thesis using assms(3,4) k tok Pr unfolding s unfolding within_def rows
      by (simp add: settle_row_tokens split: if_splits)
  next
    case ProviderExhausted
    then show ?thesis using assms(3,4) k tok Pr unfolding s unfolding within_def rows
      by (simp add: settle_row_tokens split: if_splits)
  qed
qed

lemma settle_locked_rows_ok:
  assumes "rows_ok rows" "handle_ok rows rv" "bill_ok st"
  shows "rows_ok (settle_locked rows now sec rv st)"
proof (rule settle_locked_cases [OF assms(1,2)])
  assume "settle_locked rows now sec rv st = rows"
  with assms(1) show ?thesis by simp
next
  fix xs r ys
  assume rows: "rows = xs @ r # ys" and o: "open_reservation (rv_id rv) r"
    and est: "lr_estimate r = int (rv_estimate rv)"
    and s: "settle_locked rows now sec rv st = xs @ settle_row now sec st r # ys @
         (case st of
            Usage tokens \<Rightarrow>
              if tokens > rv_estimate rv
              then [\<lparr>lr_id = next_id rows, lr_job = lr_job r, lr_request = lr_request r, lr_kind = ''overrun'',
                 lr_tokens = as_i64 tokens, lr_estimate = as_i64 (rv_estimate rv), lr_recorded_at = now, lr_seconds = sec\<rparr>]
              else []
          | _ \<Rightarrow> [])"
  define n where "n = next_id rows"
  have lt: "lr_id q < n" if "q \<in> set rows" for q using next_id_fresh [OF that] by (simp add: n_def)
  have fresh: "\<forall>q \<in> set xs \<union> set ys. lr_id q \<noteq> n" "lr_id r \<noteq> n"
    using lt by (force simp: rows)+
  have tok: "0 \<le> lr_tokens (settle_row now sec st r)"
    using assms(1,3) o unfolding rows rows_ok_def open_reservation_def
    by (cases st) (auto simp: settle_row_tokens spent_def SPENT_def)
  define ov where "ov = (case st of
            Usage tokens \<Rightarrow>
              if tokens > rv_estimate rv
              then [\<lparr>lr_id = next_id rows, lr_job = lr_job r, lr_request = lr_request r, lr_kind = ''overrun'',
                 lr_tokens = as_i64 tokens, lr_estimate = as_i64 (rv_estimate rv), lr_recorded_at = now, lr_seconds = sec\<rparr>]
              else []
          | _ \<Rightarrow> [])"
  have ov: "ov = [] \<or> (\<exists>q. ov = [q] \<and> lr_id q = n \<and> lr_kind q = ''overrun'' \<and> \<not> spent q \<and> lr_estimate q \<le> lr_tokens q)"
    using assms(2,3) unfolding ov_def n_def
    by (cases st) (simp_all add: spent_def SPENT_def as_i64_small handle_ok_def)
  have "distinct (map lr_id (xs @ settle_row now sec st r # ys @ ov))"
    using assms(1) ov fresh unfolding rows_ok_def rows by (auto simp: image_iff)
  moreover have "\<forall>q \<in> set (xs @ settle_row now sec st r # ys @ ov).
      (lr_kind q = ''reservation'' \<longrightarrow> lr_tokens q = lr_estimate q) \<and> (spent q \<longrightarrow> 0 \<le> lr_tokens q) \<and>
      (lr_kind q = ''overrun'' \<longrightarrow> lr_estimate q \<le> lr_tokens q)"
    using assms(1) ov tok unfolding rows_ok_def rows by auto
  ultimately show ?thesis unfolding s ov_def [symmetric] rows_ok_def by blast
qed


end
