(* ===== verification/Ledger.thy ===== *)
theory Ledger
  imports Budget
begin

text \<open>
  The budget as a state machine: the invariant the rows keep under every admission, settlement
  and note, whether or not the store takes each; the ceilings it gives; and the stops, which no
  step lifts.
\<close>

subsection \<open>What a write lands\<close>

lemma settle_locked_kinds:
  assumes "rows_ok rows" "handle_ok rows rv"
  shows "stop_of rows \<noteq> None \<Longrightarrow> stop_of (settle_locked rows now sec rv st) \<noteq> None"
    "\<exists>tail. map lr_id (settle_locked rows now sec rv st) = map lr_id rows @ tail"
    "\<exists>tail. map lr_estimate (settle_locked rows now sec rv st) = map lr_estimate rows @ tail"
  by (rule settle_locked_cases [OF assms, of now sec st];
      fastforce simp: stop_of_def list_ex_iff open_reservation_def split: if_splits)+

lemma handle_ok_map:
  assumes "handle_ok rows rv" "map lr_id rows' = map lr_id rows @ ti" "map lr_estimate rows' = map lr_estimate rows @ te"
  shows "handle_ok rows' rv"
proof -
  obtain r where r: "r \<in> set rows" "lr_id r = rv_id rv" "lr_estimate r = int (rv_estimate rv)"
    using assms(1) by (auto simp: handle_ok_def)
  then obtain k where k: "k < length rows" "rows ! k = r" by (auto simp: in_set_conv_nth)
  have len: "length rows \<le> length rows'" using arg_cong [OF assms(2), of length] by simp
  have "lr_id (rows' ! k) = map lr_id rows' ! k" "lr_estimate (rows' ! k) = map lr_estimate rows' ! k"
    using k len by simp_all
  then have "lr_id (rows' ! k) = lr_id r" "lr_estimate (rows' ! k) = lr_estimate r"
    using k unfolding assms(2,3) by (simp_all add: nth_append)
  then show ?thesis using assms(1) r k len by (auto simp: handle_ok_def intro!: bexI [of _ "rows' ! k"])
qed

lemma settle_locked_handle:
  assumes "rows_ok rows" "handle_ok rows rv" "handle_ok rows rv'"
  shows "handle_ok (settle_locked rows now sec rv st) rv'"
  using settle_locked_kinds(2,3) [OF assms(1,2), of now sec st] handle_ok_map [OF assms(3)] by blast

lemma write_row_Inr:
  "write_row rows now job request knd tokens estimate = Inr (i, rows') \<longleftrightarrow>
     (\<exists>sec. epoch_seconds now = Some sec \<and> i = next_id rows \<and>
        rows' = rows @ [\<lparr>lr_id = next_id rows, lr_job = job, lr_request = request,
          lr_kind = (if knd \<in> set REFUSAL_KINDS then ''refusal'' else knd),
          lr_tokens = as_i64 tokens, lr_estimate = as_i64 estimate, lr_recorded_at = now, lr_seconds = sec\<rparr>])"
  by (auto simp: write_row_def Let_def result_simps)

text \<open>A row that is neither a spend nor an overrun changes no figure.\<close>

definition silent :: "ledger_row \<Rightarrow> bool" where
  "silent r \<longleftrightarrow> \<not> spent r \<and> lr_kind r \<noteq> ''overrun''"

lemma silent_kinds: "silent r \<Longrightarrow> \<not> spent r \<and> lr_kind r \<noteq> ''reservation'' \<and> lr_kind r \<noteq> ''overrun''"
  by (auto simp: silent_def spent_kinds)

lemma silent_row:
  assumes "silent r" "lr_id r = next_id rows" "rows_ok rows"
  shows "rows_ok (rows @ [r])" "within P B (rows @ [r]) = within P B rows"
proof -
  have "lr_id r \<notin> lr_id ` set rows" using next_id_fresh [of _ rows] assms(2) by fastforce
  then show "rows_ok (rows @ [r])"
    using assms(1,3) silent_kinds [of r] by (simp add: rows_ok_def)
  show "within P B (rows @ [r]) = within P B rows"
    using assms(1) by (simp add: within_def silent_def)
qed

lemma handle_ok_append: "handle_ok rows rv \<Longrightarrow> handle_ok (rows @ rows') rv"
  by (auto simp: handle_ok_def)

lemma stop_of_append: "stop_of rows \<noteq> None \<Longrightarrow> stop_of (rows @ rows') \<noteq> None"
  by (auto simp: stop_of_def split: if_splits)

lemma refusal_reason_silent:
  "(if refusal_reason x \<in> set REFUSAL_KINDS then ''refusal'' else refusal_reason x) \<notin>
     {''reservation'', ''usage'', ''unknown'', ''provider_exhausted'', ''not_sent'', ''overrun''}"
  by (cases x) (simp_all add: REFUSAL_KINDS_def)

lemma sum_tokens_nonneg: "rows_ok rows \<Longrightarrow> 0 \<le> sum_tokens P rows"
  unfolding sum_tokens_def by (rule sum_list_nonneg) (auto simp: rows_ok_def)

lemma excess_nonneg: "rows_ok rows \<Longrightarrow> 0 \<le> excess P rows"
  unfolding excess_def by (rule sum_list_nonneg) (auto simp: rows_ok_def)

lemma total_Inr: "rows_ok rows \<Longrightarrow> total P rows = Inr n \<Longrightarrow> sum_tokens P rows = int n"
  using sum_tokens_nonneg [of rows P] by (auto simp: total_def Let_def split: if_splits)

lemma spend_of_job: "rows_ok rows \<Longrightarrow> spend_of rows now job = Inr sp \<Longrightarrow> sum_tokens (\<lambda>r. lr_job r = job) rows = int (sp_job sp)"
  by (auto simp: spend_of_def result_simps dest: total_Inr)

text \<open>What an admission lands: a silent row with a refusal, or the row of the reservation it returns.\<close>

lemma admit_locked_cases:
  assumes "admit_locked l s now job request estimate = Inr (answer, rows')"
  obtains x r where "answer = Inl x" "rows' = ls_rows s @ [r]" "silent r" "lr_id r = next_id (ls_rows s)"
  | rv r sp run where "answer = Inr rv" "rows' = ls_rows s @ [r]" "lr_id r = next_id (ls_rows s)"
      "stop_of (ls_rows s) = None" "\<not> holds_a_stop l s" "spend_of (ls_rows s) now job = Inr sp" "run_spend (ls_rows s) = Inr run"
      "ceiling_refusal sp run (lg_run_ceiling l) estimate = None"
      "rv_id rv = lr_id r" "rv_estimate rv = estimate" "lr_kind r = ''reservation''" "lr_job r = job"
      "lr_tokens r = as_i64 estimate" "lr_estimate r = as_i64 estimate"
proof -
  note refused = that(1)
  have refusal: thesis
    if w: "write_row (ls_rows s) now job request (refusal_reason x) 0 estimate = Inr (i, rows')" and a: "answer = Inl x" for x i
  proof -
    obtain r where r: "rows' = ls_rows s @ [r]" "lr_id r = next_id (ls_rows s)"
      "lr_kind r = (if refusal_reason x \<in> set REFUSAL_KINDS then ''refusal'' else refusal_reason x)"
      using w by (auto simp: write_row_Inr)
    then have q: "silent r" using refusal_reason_silent [of x] unfolding silent_def spent_kinds by simp
    show thesis by (rule refused [OF a r(1) q r(2)])
  qed
  show thesis
  proof (cases "(case stop_of (ls_rows s) of Some x \<Rightarrow> Some x | None \<Rightarrow> if holds_a_stop l s then Some Overrun else None)")
    case (Some x)
    then show thesis using assms refusal by (auto simp: admit_locked_def Let_def result_simps)
  next
    case None
    then have n: "stop_of (ls_rows s) = None" "\<not> holds_a_stop l s" by (auto split: option.splits if_splits)
    then obtain sp run where sp: "spend_of (ls_rows s) now job = Inr sp" "run_spend (ls_rows s) = Inr run"
      using assms by (auto simp: admit_locked_def Let_def result_simps)
    show thesis
    proof (cases "ceiling_refusal sp run (lg_run_ceiling l) estimate")
      case (Some x)
      then show thesis using assms refusal n sp by (auto simp: admit_locked_def Let_def result_simps)
    next
      case None
      then obtain i where "write_row (ls_rows s) now job request ''reservation'' estimate estimate = Inr (i, rows')"
        "answer = Inr \<lparr>rv_id = i, rv_estimate = estimate\<rparr>"
        using assms n sp by (auto simp: admit_locked_def Let_def result_simps)
      moreover from this obtain r where "rows' = ls_rows s @ [r]" "lr_id r = next_id (ls_rows s)" "i = lr_id r"
        "lr_kind r = ''reservation''" "lr_job r = job" "lr_tokens r = as_i64 estimate" "lr_estimate r = as_i64 estimate"
        by (auto simp: write_row_Inr REFUSAL_KINDS_def)
      ultimately show thesis using n sp None
        by (intro that(2) [of "\<lparr>rv_id = i, rv_estimate = estimate\<rparr>" r sp run]) simp_all
    qed
  qed
qed

text \<open>The part of the invariant that concerns the rows.\<close>

definition ceilings :: "ledger \<Rightarrow> ledger_row list \<Rightarrow> bool" where
  "ceilings l rows \<longleftrightarrow>
     (\<forall>job. within (\<lambda>r. lr_job r = job) (int PER_JOB_TOKENS) rows) \<and>
     (\<forall>c. lg_run_ceiling l = Some c \<longrightarrow> within (\<lambda>_. True) (int c) rows)"

definition ledger_inv :: "ledger \<Rightarrow> ledger_row list \<Rightarrow> bool" where
  "ledger_inv l rows \<longleftrightarrow> rows_ok rows \<and> ceilings l rows"

lemma settle_locked_inv:
  assumes "ledger_inv l rows" "handle_ok rows rv" "bill_ok st"
  shows "ledger_inv l (settle_locked rows now sec rv st)"
proof -
  have ok: "rows_ok rows" using assms(1) by (simp add: ledger_inv_def)
  note s = settle_locked_rows_ok [OF ok assms(2,3)] settle_locked_within [OF ok assms(2,3)]
  show ?thesis using assms(1) s by (simp add: ledger_inv_def ceilings_def)
qed

lemma silent_inv:
  "silent r \<Longrightarrow> lr_id r = next_id rows \<Longrightarrow> ledger_inv l rows \<Longrightarrow> ledger_inv l (rows @ [r])"
  unfolding ledger_inv_def ceilings_def using silent_row by blast

lemma ceiling_refusal_None:
  "ceiling_refusal sp run ceiling estimate = None \<longleftrightarrow>
     estimate \<le> PER_REQUEST_TOKENS \<and> sp_job sp + estimate \<le> PER_JOB_TOKENS \<and>
     sp_window sp + estimate \<le> WINDOW_TOKENS \<and> sp_month sp + estimate \<le> MONTH_TOKENS \<and>
     (\<forall>c. ceiling = Some c \<longrightarrow> run + estimate \<le> c)"
  by (auto simp: ceiling_refusal_def split: option.splits)

lemma admit_locked_inv:
  assumes "ledger_inv l (ls_rows s)" "admit_locked l s now job request estimate = Inr (answer, rows')"
  shows "ledger_inv l rows' \<and> (\<exists>r. rows' = ls_rows s @ [r]) \<and> (\<forall>rv. answer = Inr rv \<longrightarrow> handle_ok rows' rv)"
proof (rule admit_locked_cases [OF assms(2)])
  fix x r
  assume "answer = Inl x" "rows' = ls_rows s @ [r]" "silent r" "lr_id r = next_id (ls_rows s)"
  then show ?thesis using silent_inv [of r "ls_rows s" l] assms(1) by auto
next
  fix rv r sp run
  assume a: "answer = Inr rv" "rows' = ls_rows s @ [r]" "lr_id r = next_id (ls_rows s)"
      "spend_of (ls_rows s) now job = Inr sp" "run_spend (ls_rows s) = Inr run"
      "ceiling_refusal sp run (lg_run_ceiling l) estimate = None"
      "rv_id rv = lr_id r" "rv_estimate rv = estimate" "lr_kind r = ''reservation''" "lr_job r = job"
      "lr_tokens r = as_i64 estimate" "lr_estimate r = as_i64 estimate"
  have ok: "rows_ok (ls_rows s)" and ceil: "ceilings l (ls_rows s)" using assms(1) by (simp_all add: ledger_inv_def)
  have small: "estimate < 2 ^ 63" using a(6) by (simp add: ceiling_refusal_None PER_REQUEST_TOKENS_def)
  have spent: "spent r" using a(9) by (simp add: spent_kinds)
  have fresh: "lr_id r \<notin> lr_id ` set (ls_rows s)" using next_id_fresh [of _ "ls_rows s"] a(3) by fastforce
  have excess: "0 \<le> excess P (ls_rows s)" for P using ok by (rule excess_nonneg)
  have ok': "rows_ok rows'" using ok fresh a(9,11,12) small by (simp add: rows_ok_def a(2) as_i64_small)
  have spend: "sum_tokens (\<lambda>q. lr_job q = job) (ls_rows s) + int estimate \<le> int PER_JOB_TOKENS"
    "lg_run_ceiling l = Some c \<Longrightarrow> sum_tokens (\<lambda>_. True) (ls_rows s) + int estimate \<le> int c" for c
    using a(6) spend_of_job [OF ok a(4)] total_Inr [OF ok a(5) [unfolded run_spend_def]]
    by (auto simp: ceiling_refusal_None)
  have "within (\<lambda>q. lr_job q = j) (int PER_JOB_TOKENS) rows'" for j
  proof (cases "j = job")
    case True
    then show ?thesis using spend(1) excess [of "\<lambda>q. lr_job q = job"] a(9-12) spent small
      by (simp add: within_def a(2) as_i64_small)
  next
    case False
    then show ?thesis using ceil a(9,10) by (simp add: within_def a(2) ceilings_def)
  qed
  moreover have "within (\<lambda>_. True) (int c) rows'" if "lg_run_ceiling l = Some c" for c
    using spend(2) [OF that] excess [of "\<lambda>_. True"] a(9-12) spent small
    by (simp add: within_def a(2) as_i64_small)
  moreover have "handle_ok rows' rv"
    using a(7,8,12) small by (simp add: handle_ok_def a(2) as_i64_small)
  ultimately show ?thesis using ok' a(1,2) by (simp add: ledger_inv_def ceilings_def)
qed

subsection \<open>The state: rows, kept settlements, stops\<close>

definition later :: "ledger_row list \<Rightarrow> ledger_row list \<Rightarrow> bool" where
  "later rows rows' \<longleftrightarrow>
     (\<forall>rv. handle_ok rows rv \<longrightarrow> handle_ok rows' rv) \<and> (stop_of rows \<noteq> None \<longrightarrow> stop_of rows' \<noteq> None)"

lemma later_refl [simp]: "later rows rows"
  by (simp add: later_def)

lemma later_append [simp]: "later rows (rows @ rows')"
  using handle_ok_append stop_of_append by (auto simp: later_def)

definition kept_ok :: "ledger \<Rightarrow> ledger_state \<Rightarrow> bool" where
  "kept_ok l s \<longleftrightarrow>
     (\<forall>file us. lg_file l = Some file \<longrightarrow> ls_unwritten s file = Some us \<longrightarrow>
        (\<forall>u \<in> set us. handle_ok (ls_rows s) (uw_reservation u) \<and> uw_tokens u < 2 ^ 63))"

definition state_ok :: "ledger \<Rightarrow> ledger_state \<Rightarrow> bool" where
  "state_ok l s \<longleftrightarrow> ledger_inv l (ls_rows s) \<and> kept_ok l s"

definition after :: "ledger \<Rightarrow> ledger_state \<Rightarrow> ledger_state \<Rightarrow> bool" where
  "after l s s' \<longleftrightarrow> later (ls_rows s) (ls_rows s') \<and> (holds_a_stop l s \<longrightarrow> holds_a_stop l s')"

lemma after_refl [simp]: "after l s s"
  by (simp add: after_def)

lemma after_trans: "after l s t \<Longrightarrow> after l t u \<Longrightarrow> after l s u"
  by (auto simp: after_def later_def)

lemma rows_state_ok:
  assumes "state_ok l s" "ledger_inv l rows'" "later (ls_rows s) rows'"
  shows "state_ok l (s\<lparr>ls_rows := rows'\<rparr>)" "after l s (s\<lparr>ls_rows := rows'\<rparr>)"
proof -
  have "kept_ok l (s\<lparr>ls_rows := rows'\<rparr>)" using assms(1,3) unfolding state_ok_def kept_ok_def later_def by auto
  then show "state_ok l (s\<lparr>ls_rows := rows'\<rparr>)" using assms(2) by (simp add: state_ok_def)
  show "after l s (s\<lparr>ls_rows := rows'\<rparr>)" using assms(3) by (auto simp: after_def holds_a_stop_def split: option.splits)
qed

lemma settle_locked_later:
  assumes "ledger_inv l rows" "handle_ok rows rv"
  shows "later rows (settle_locked rows now sec rv st)"
proof -
  have ok: "rows_ok rows" using assms(1) by (simp add: ledger_inv_def)
  show ?thesis
    using settle_locked_handle [OF ok assms(2)] settle_locked_kinds(1) [OF ok assms(2)] unfolding later_def by blast
qed

lemma keep_ok:
  assumes "state_ok l s" "handle_ok (ls_rows s) rv" "bill_ok st" "keep l s now rv st = (kept, s')"
  shows "state_ok l s' \<and> after l s s'"
  using assms unfolding keep_def
  by (cases st) (auto simp: Let_def state_ok_def kept_ok_def after_def holds_a_stop_def
      split: option.splits if_splits)

lemma settle_ok:
  assumes "state_ok l s" "handle_ok (ls_rows s) rv" "bill_ok st" "settle l takes s now rv st = (res, s')"
  shows "state_ok l s' \<and> after l s s'"
proof -
  have inv: "ledger_inv l (ls_rows s)" using assms(1) by (simp add: state_ok_def)
  note landed = rows_state_ok [OF assms(1) settle_locked_inv [OF inv assms(2,3)] settle_locked_later [OF inv assms(2)]]
  show ?thesis
    using assms(4) landed keep_ok [OF assms(1-3)]
    by (auto simp: settle_def Let_def split: option.splits if_splits prod.splits)
qed

lemma settle_each_ok:
  "state_ok l s \<Longrightarrow> \<forall>u \<in> set us. handle_ok (ls_rows s) (uw_reservation u) \<and> uw_tokens u < 2 ^ 63 \<Longrightarrow>
   settle_each l settles s us = (written, s') \<Longrightarrow> state_ok l s' \<and> after l s s'"
proof (induction us arbitrary: s written)
  case (Cons u us)
  obtain res t where t: "settle l (settles u) s (uw_now u) (uw_reservation u) (Usage (uw_tokens u)) = (res, t)"
    by (meson surj_pair)
  have ok: "state_ok l t" "after l s t" using settle_ok [OF Cons.prems(1) _ _ t] Cons.prems(2) by simp_all
  then have us: "\<forall>v \<in> set us. handle_ok (ls_rows t) (uw_reservation v) \<and> uw_tokens v < 2 ^ 63"
    using Cons.prems(2) by (simp add: after_def later_def)
  obtain w s2 where r: "settle_each l settles t us = (w, s2)" by (meson surj_pair)
  then have "settle_each l settles t us = (w, s')" using Cons.prems(3) t by (auto split: sum.splits)
  from Cons.IH [OF ok(1) us this] show ?case using after_trans [OF ok(2)] by simp
qed simp

lemma write_unwritten_ok:
  assumes "state_ok l s"
  shows "state_ok l (write_unwritten l settles s) \<and> after l s (write_unwritten l settles s)"
proof (cases "lg_file l")
  case (Some path)
  show ?thesis
  proof (cases "ls_unwritten s path")
    case None
    then show ?thesis using assms Some by (simp add: write_unwritten_def)
  next
    case kept: (Some kept)
    obtain w t where t: "settle_each l settles s kept = (w, t)" by (meson surj_pair)
    have ok: "state_ok l t" "after l s t"
      using settle_each_ok [OF assms _ t] assms Some kept by (simp_all add: state_ok_def kept_ok_def)
    show ?thesis
      using ok Some kept t
      by (auto simp: write_unwritten_def state_ok_def kept_ok_def after_def holds_a_stop_def split: option.splits)
  qed
qed (use assms in \<open>simp add: write_unwritten_def\<close>)

lemma admit_once_ok:
  assumes "state_ok l s" "admit_once l takes s now job request estimate = (answer, s')"
  shows "state_ok l s' \<and> after l s s' \<and> (\<forall>rv. answer = Inr (Inr rv) \<longrightarrow> handle_ok (ls_rows s') rv)"
proof (cases "takes \<and> (\<exists>a rows'. admit_locked l s now job request estimate = Inr (a, rows'))")
  case True
  then obtain a rows' where a: "admit_locked l s now job request estimate = Inr (a, rows')" "takes" by blast
  have "ledger_inv l (ls_rows s)" using assms(1) by (simp add: state_ok_def)
  from admit_locked_inv [OF this a(1)] have inv: "ledger_inv l rows'" "later (ls_rows s) rows'"
    "\<forall>rv. a = Inr rv \<longrightarrow> handle_ok rows' rv" by auto
  have s': "s' = s\<lparr>ls_rows := rows'\<rparr>" "answer = Inr a" using assms(2) a by (auto simp: admit_once_def)
  show ?thesis using rows_state_ok [OF assms(1) inv(1,2)] inv(3) unfolding s' by simp
next
  case False
  then have "s' = s \<and> isl answer"
    using assms(2) by (auto simp: admit_once_def split: if_splits sum.splits)
  then show ?thesis using assms(1) by auto
qed

lemma admit_ok:
  assumes "state_ok l s" "admit l settles takes s now job request estimate = (answer, s')"
  shows "state_ok l s' \<and> after l s s' \<and> (\<forall>rv. answer = Inr (Inr rv) \<longrightarrow> handle_ok (ls_rows s') rv)"
proof -
  define t where "t = write_unwritten l settles s"
  have t: "state_ok l t" "after l s t" using write_unwritten_ok [OF assms(1), of settles] by (simp_all add: t_def)
  obtain a s2 where a: "admit_once l takes t now job request estimate = (a, s2)" by (meson surj_pair)
  have "s' = s2" "\<forall>rv. answer = Inr (Inr rv) \<longrightarrow> a = Inr (Inr rv)"
    using assms(2) a by (auto simp: admit_def t_def Let_def split: sum.splits if_splits)
  then show ?thesis using admit_once_ok [OF t(1) a] after_trans [OF t(2)] by blast
qed

lemma note_ok:
  assumes "state_ok l s" "knd \<notin> set SPENT" "knd \<noteq> ''overrun''" "note_row takes s now job request knd tokens estimate = (res, s')"
  shows "state_ok l s' \<and> after l s s'"
proof (cases "write_row (ls_rows s) now job request knd tokens estimate")
  case (Inr p)
  obtain i rows' where p: "p = (i, rows')" by (cases p)
  then obtain r where r: "rows' = ls_rows s @ [r]" "lr_id r = next_id (ls_rows s)"
    "lr_kind r = (if knd \<in> set REFUSAL_KINDS then ''refusal'' else knd)"
    using Inr by (auto simp: write_row_Inr)
  have "silent r" using assms(2,3) r(3) by (simp add: silent_def spent_def SPENT_def)
  then have "ledger_inv l rows'" using silent_inv [of r "ls_rows s" l] assms(1) r by (simp add: state_ok_def)
  from rows_state_ok [OF assms(1) this] show ?thesis
    using assms(1,4) Inr p r by (auto simp: note_row_def split: if_splits)
qed (use assms in \<open>simp add: note_row_def\<close>)

subsection \<open>The ledger as a state machine\<close>

text \<open>
  One ledger over one store: any admission, any settlement of a reservation an admission
  returned, any note of a fact, in any order, each with the store taking it or not.
\<close>

type_synonym ledger_conf = "ledger_state \<times> reservation set"

definition granted :: "ledger_error + (refusal + reservation) \<Rightarrow> reservation set" where
  "granted answer = (case answer of Inr (Inr rv) \<Rightarrow> {rv} | _ \<Rightarrow> {})"

inductive ledger_step :: "ledger \<Rightarrow> ledger_conf \<Rightarrow> ledger_conf \<Rightarrow> bool" for l where
  step_admit: "admit l settles takes s now job request estimate = (answer, s') \<Longrightarrow>
     ledger_step l (s, hs) (s', granted answer \<union> hs)"
| step_settle: "rv \<in> hs \<Longrightarrow> bill_ok st \<Longrightarrow> settle l takes s now rv st = (res, s') \<Longrightarrow>
     ledger_step l (s, hs) (s', hs)"
| step_note: "knd \<notin> set SPENT \<Longrightarrow> knd \<noteq> ''overrun'' \<Longrightarrow>
     note_row takes s now job request knd tokens estimate = (res, s') \<Longrightarrow> ledger_step l (s, hs) (s', hs)"

definition empty_ledger :: ledger_conf where
  "empty_ledger = (\<lparr>ls_rows = [], ls_unwritten = (\<lambda>_. None)\<rparr>, {})"

definition conf_ok :: "ledger \<Rightarrow> ledger_conf \<Rightarrow> bool" where
  "conf_ok l c \<longleftrightarrow> state_ok l (fst c) \<and> (\<forall>rv \<in> snd c. handle_ok (ls_rows (fst c)) rv)"

lemma granted_iff [simp]: "rv \<in> granted answer \<longleftrightarrow> answer = Inr (Inr rv)"
  by (auto simp: granted_def split: sum.splits)

lemma ledger_step_ok: "ledger_step l c c' \<Longrightarrow> conf_ok l c \<Longrightarrow> conf_ok l c' \<and> after l (fst c) (fst c')"
proof (induction rule: ledger_step.induct)
  case (step_admit settles takes s now job request estimate answer s' hs)
  then show ?case using admit_ok [OF _ step_admit(1)] by (auto simp: conf_ok_def after_def later_def)
next
  case (step_settle rv hs st takes s now res s')
  then show ?case using settle_ok [OF _ _ step_settle(2,3)] by (auto simp: conf_ok_def after_def later_def)
next
  case (step_note knd takes s now job request tokens estimate res s' hs)
  then show ?case using note_ok [OF _ step_note(1-3)] by (auto simp: conf_ok_def after_def later_def)
qed

lemma ledger_steps_ok:
  "(ledger_step l)\<^sup>*\<^sup>* c c' \<Longrightarrow> conf_ok l c \<Longrightarrow> conf_ok l c' \<and> after l (fst c) (fst c')"
  by (induction rule: rtranclp_induct) (auto dest: ledger_step_ok intro: after_trans)

lemma empty_ledger_ok: "conf_ok l empty_ledger"
  by (simp add: conf_ok_def empty_ledger_def state_ok_def ledger_inv_def ceilings_def within_def rows_ok_def kept_ok_def)

lemma stopped_admit:
  assumes "state_ok l s" "stop_of (ls_rows s) \<noteq> None \<or> holds_a_stop l s"
    "admit l settles takes s now job request estimate = (answer, s')"
  shows "answer \<noteq> Inr (Inr rv)"
proof
  assume granted: "answer = Inr (Inr rv)"
  define t where "t = write_unwritten l settles s"
  have "after l s t" using write_unwritten_ok [OF assms(1), of settles] by (simp add: t_def)
  then have stop: "stop_of (ls_rows t) \<noteq> None \<or> holds_a_stop l t" using assms(2) by (auto simp: after_def later_def)
  obtain a s2 where a: "admit_once l takes t now job request estimate = (a, s2)" by (meson surj_pair)
  have "a = Inr (Inr rv)"
    using assms(3) granted a by (auto simp: admit_def t_def Let_def split: sum.splits if_splits)
  then obtain rows' where "admit_locked l t now job request estimate = Inr (Inr rv, rows')"
    using a by (auto simp: admit_once_def split: if_splits sum.splits)
  then show False by (rule admit_locked_cases) (use stop in auto)
qed

text \<open>A bill above its reservation leaves a stop, whether or not the store takes the settlement.\<close>

lemma overrun_stops:
  assumes "state_ok l s" "handle_ok (ls_rows s) rv" "list_ex (open_reservation (rv_id rv)) (ls_rows s)"
    "rv_estimate rv < tokens" "lg_file l \<noteq> None" "settle l takes s now rv (Usage tokens) = (res, s')"
  shows "stop_of (ls_rows s') \<noteq> None \<or> holds_a_stop l s'"
proof (cases "\<exists>sec. epoch_seconds now = Some sec \<and> takes")
  case True
  then obtain sec where sec: "epoch_seconds now = Some sec" "takes" by blast
  have ok: "rows_ok (ls_rows s)" using assms(1) by (simp add: state_ok_def ledger_inv_def)
  have "\<exists>r \<in> set (settle_locked (ls_rows s) now sec rv (Usage tokens)). lr_kind r = ''overrun''"
    by (rule settle_locked_cases [OF ok assms(2), of now sec "Usage tokens"])
      (use assms(3,4) in \<open>auto simp: list_ex_iff\<close>)
  then show ?thesis using assms(6) sec by (auto simp: settle_def stop_of_def list_ex_iff)
next
  case False
  then have "s' = snd (keep l s now rv (Usage tokens))"
    using assms(6) by (auto simp: settle_def Let_def split: option.splits if_splits prod.splits)
  then show ?thesis using assms(4,5) by (auto simp: keep_def holds_a_stop_def Let_def)
qed

text \<open>A reservation settles once: settling it again changes no row.\<close>

lemma settle_locked_twice:
  assumes "rows_ok rows" "handle_ok rows rv"
  shows "settle_locked (settle_locked rows now sec rv st) now' sec' rv st' = settle_locked rows now sec rv st"
proof -
  have "\<not> list_ex (open_reservation (rv_id rv)) (settle_locked rows now sec rv st)"
  proof (rule settle_locked_cases [OF assms, of now sec st])
    assume "settle_locked rows now sec rv st = rows" "\<forall>r \<in> set rows. \<not> open_reservation (rv_id rv) r"
    then show ?thesis by (simp add: list_ex_iff)
  next
    fix xs r ys
    assume rows: "rows = xs @ r # ys" and o: "open_reservation (rv_id rv) r"
      and s: "settle_locked rows now sec rv st = xs @ settle_row now sec st r # ys @
         (case st of
            Usage tokens \<Rightarrow>
              if tokens > rv_estimate rv
              then [\<lparr>lr_id = next_id rows, lr_job = lr_job r, lr_request = lr_request r, lr_kind = ''overrun'',
                 lr_tokens = as_i64 tokens, lr_estimate = as_i64 (rv_estimate rv), lr_recorded_at = now, lr_seconds = sec\<rparr>]
              else []
          | _ \<Rightarrow> [])"
    have "lr_id r \<notin> lr_id ` (set xs \<union> set ys)" using assms(1) unfolding rows rows_ok_def by auto
    then have "\<forall>q \<in> set xs \<union> set ys. \<not> open_reservation (rv_id rv) q"
      using o unfolding open_reservation_def by (metis imageI)
    then show ?thesis
      unfolding s by (cases st) (auto simp: list_ex_iff open_reservation_def)
  qed
  then show ?thesis by (simp add: settle_locked_def)
qed

subsection \<open>One run, computed\<close>

definition example_ledger :: ledger where
  "example_ledger = \<lparr>lg_file = Some ''f'', lg_run_ceiling = Some 7\<rparr>"

definition example_reservation :: reservation where
  "example_reservation = \<lparr>rv_id = 1, rv_estimate = 5\<rparr>"

definition example_state :: ledger_state where
  "example_state =
     \<lparr>ls_rows = [\<lparr>lr_id = 1, lr_job = ''j'', lr_request = ''r'', lr_kind = ''reservation'', lr_tokens = 5,
        lr_estimate = 5, lr_recorded_at = ''2026-01-02T03:04:05Z'', lr_seconds = 1767323045\<rparr>],
      ls_unwritten = (\<lambda>_. None)\<rparr>"

lemma epoch_example: "epoch_seconds ''2026-01-02T03:04:05Z'' = Some 1767323045"
  by code_simp

lemma example_admitted:
  "admit example_ledger settles True (fst empty_ledger) ''2026-01-02T03:04:05Z'' ''j'' ''r'' 5 =
     (Inr (Inr example_reservation), example_state)"
  unfolding example_ledger_def empty_ledger_def example_state_def example_reservation_def
  by (simp add: Let_def admit_def write_unwritten_def admit_once_def admit_locked_def stop_of_def holds_a_stop_def
      spend_of_def run_spend_def total_def epoch_example ceiling_refusal_def PER_REQUEST_TOKENS_def PER_JOB_TOKENS_def
      WINDOW_TOKENS_def MONTH_TOKENS_def write_row_def REFUSAL_KINDS_def next_id_def as_i64_def)

lemma example_reached: "(ledger_step example_ledger)\<^sup>*\<^sup>* empty_ledger (example_state, {example_reservation})"
proof -
  have "ledger_step example_ledger (fst empty_ledger, {}) (example_state, granted (Inr (Inr example_reservation)) \<union> {})"
    by (rule step_admit [OF example_admitted])
  then show ?thesis by (auto simp: granted_def empty_ledger_def)
qed

subsection \<open>Further facts\<close>

text \<open>
  Every refusal an admission records is a row of kind refusal, except one by the run ceiling:
  write's list of kinds leaves run_over_ceiling out, so that row carries the reason as its kind.
\<close>

theorem run_refusal_not_a_refusal_row:
  assumes "write_row rows now job request (refusal_reason x) 0 estimate = Inr (i, rows')"
  shows "map lr_kind rows' = map lr_kind rows @ [if x = RunCeiling then ''run_over_ceiling'' else ''refusal'']"
  using assms by (cases x) (auto simp: write_row_Inr REFUSAL_KINDS_def)

lemma run_refusal_not_a_refusal_row_witness:
  "\<exists>i rows'. write_row [] ''2026-01-02T03:04:05Z'' ''j'' ''r'' (refusal_reason RunCeiling) 0 3 = Inr (i, rows') \<and>
     map lr_kind rows' = [''run_over_ceiling'']"
proof -
  obtain i rows' where w: "write_row [] ''2026-01-02T03:04:05Z'' ''j'' ''r'' (refusal_reason RunCeiling) 0 3 = Inr (i, rows')"
    using epoch_example by (simp add: write_row_def Let_def)
  show ?thesis using run_refusal_not_a_refusal_row [OF w] w by auto
qed

subsection \<open>Properties\<close>

text \<open>
  C7. Whatever a ledger did - admissions, settlements of the reservations it returned, notes, in
  any order, the store taking each write or not - what one job's calls count never passes the
  per-job ceiling by more than what the provider billed above reservations already admitted, and
  the whole ledger never passes the run ceiling by more than that.
\<close>

theorem ledger_ceilings_hold:
  assumes "(ledger_step l)\<^sup>*\<^sup>* empty_ledger (s, hs)"
  shows "sum_tokens (\<lambda>r. lr_job r = job) (ls_rows s) \<le> int PER_JOB_TOKENS + excess (\<lambda>r. lr_job r = job) (ls_rows s) \<and>
    (\<forall>c. lg_run_ceiling l = Some c \<longrightarrow>
       sum_tokens (\<lambda>_. True) (ls_rows s) \<le> int c + excess (\<lambda>_. True) (ls_rows s))"
proof -
  have "ceilings l (ls_rows s)"
    using ledger_steps_ok [OF assms empty_ledger_ok] by (simp add: conf_ok_def state_ok_def ledger_inv_def)
  then show ?thesis by (auto simp: ceilings_def within_def)
qed

lemma ledger_ceilings_hold_witness:
  "sum_tokens (\<lambda>r. lr_job r = ''j'') (ls_rows example_state) = 5 \<and>
   sum_tokens (\<lambda>_. True) (ls_rows example_state) \<le> int 7 + excess (\<lambda>_. True) (ls_rows example_state)"
  using ledger_ceilings_hold [OF example_reached, of "''j''"]
  by (simp add: example_state_def example_ledger_def spent_kinds)

text \<open>
  C10. Once a call is billed above its reservation, no later admission on the store's file is
  granted again: not after any further steps, and not when the store refused to record the bill,
  because the process keeps it.
\<close>

theorem overrun_stops_for_good:
  assumes "(ledger_step l)\<^sup>*\<^sup>* empty_ledger (s, hs)" "rv \<in> hs" "lg_file l = Some file"
    and "list_ex (open_reservation (rv_id rv)) (ls_rows s)" "rv_estimate rv < tokens" "tokens < 2 ^ 63"
    and "settle l takes s now rv (Usage tokens) = (res, s1)" "(ledger_step l)\<^sup>*\<^sup>* (s1, hs) (s2, hs2)"
    and "admit l settles takes' s2 now' job request estimate = (answer, s3)"
  shows "answer \<noteq> Inr (Inr rv')"
proof -
  have c: "conf_ok l (s, hs)" using ledger_steps_ok [OF assms(1) empty_ledger_ok] by simp
  then have ok: "state_ok l s" "handle_ok (ls_rows s) rv" using assms(2) by (auto simp: conf_ok_def)
  have "ledger_step l (s, hs) (s1, hs)" using assms(2,6,7) by (intro step_settle [of rv hs "Usage tokens"]) simp_all
  then have "conf_ok l (s1, hs)" using ledger_step_ok c by blast
  then have "conf_ok l (s2, hs2)" "after l s1 s2" using ledger_steps_ok [OF assms(8)] by simp_all
  moreover have "stop_of (ls_rows s1) \<noteq> None \<or> holds_a_stop l s1"
    using overrun_stops [OF ok assms(4,5) _ assms(7)] assms(3) by simp
  ultimately show ?thesis
    using stopped_admit [OF _ _ assms(9)] by (auto simp: conf_ok_def after_def later_def)
qed

lemma overrun_stops_for_good_witness:
  "fst (admit example_ledger (\<lambda>_. False) True
     (snd (settle example_ledger False example_state ''2026-01-02T03:04:06Z'' example_reservation (Usage 9)))
     ''2026-01-02T03:04:07Z'' ''j'' ''q'' 1) \<noteq> Inr (Inr \<lparr>rv_id = 2, rv_estimate = 1\<rparr>)"
proof -
  obtain res s1 where s1: "settle example_ledger False example_state ''2026-01-02T03:04:06Z'' example_reservation (Usage 9) = (res, s1)"
    by (meson surj_pair)
  obtain a s3 where s3: "admit example_ledger (\<lambda>_. False) True s1 ''2026-01-02T03:04:07Z'' ''j'' ''q'' 1 = (a, s3)"
    by (meson surj_pair)
  have open_row: "list_ex (open_reservation (rv_id example_reservation)) (ls_rows example_state)"
    by (simp add: example_state_def example_reservation_def open_reservation_def)
  have "a \<noteq> Inr (Inr \<lparr>rv_id = 2, rv_estimate = 1\<rparr>)"
    by (rule overrun_stops_for_good [OF example_reached _ _ open_row _ _ s1 rtranclp.rtrancl_refl s3, of "''f''"])
      (simp_all add: example_reservation_def example_ledger_def)
  then show ?thesis using s1 s3 by simp
qed

text \<open>
  C16. Settling a reservation a second time, at another instant and with another bill, changes no
  row: a settlement written by the process that kept it is not doubled by one written later.
\<close>

theorem settlement_lands_once:
  assumes "(ledger_step l)\<^sup>*\<^sup>* empty_ledger (s, hs)" "rv \<in> hs"
  shows "settle_locked (settle_locked (ls_rows s) now sec rv st) now' sec' rv st' = settle_locked (ls_rows s) now sec rv st"
proof -
  have "rows_ok (ls_rows s)" "handle_ok (ls_rows s) rv"
    using ledger_steps_ok [OF assms(1) empty_ledger_ok] assms(2)
    by (auto simp: conf_ok_def state_ok_def ledger_inv_def)
  then show ?thesis by (rule settle_locked_twice)
qed

lemma settlement_lands_once_witness:
  "settle_locked (settle_locked (ls_rows example_state) ''a'' 1 example_reservation (Usage 9)) ''b'' 2 example_reservation NothingSpent =
   settle_locked (ls_rows example_state) ''a'' 1 example_reservation (Usage 9)"
  by (rule settlement_lands_once [OF example_reached]) simp

end
