(* ===== verification/Claims.thy ===== *)
theory Claims
  imports Grants
begin

text \<open>
  The shapes of the knowledge profile, the first half of \<open>knowledge.rs\<close>: the checks of references,
  bases, conditions and of every payload, the revision record and its references. A check returns
  what it read, or the first envelope error in the order the code reports it.
\<close>

definition CLAIM :: string where "CLAIM = ''knowledge.claim''"
definition DECISION :: string where "DECISION = ''knowledge.decision''"
definition EVALUATION :: string where "EVALUATION = ''knowledge.evaluation''"
definition CONFLICT :: string where "CONFLICT = ''knowledge.conflict''"
definition AUTHORITY :: string where "AUTHORITY = ''knowledge.authority''"
definition CLAIM_FORMAT :: string where "CLAIM_FORMAT = ''combraton-knowledge-claim/1''"
definition MAX_VALUE_BYTES :: nat where "MAX_VALUE_BYTES = 4096"
definition ARTIFACT :: string where "ARTIFACT = ''evidence.artifact''"

definition subject_key_of :: "string \<Rightarrow> string \<Rightarrow> subject_key" where
  "subject_key_of knd i = \<lparr>sk_kind = knd, sk_id = i\<rparr>"

subsection \<open>Checks of one member\<close>

type_synonym 'a checked = "protocol_error + 'a"

text \<open>Checks in sequence, the first error winning; and a check of every item, with its index.\<close>

fun all_of :: "unit checked list \<Rightarrow> unit checked" where
  "all_of [] = Inr ()"
| "all_of (c # cs) = rbind c (\<lambda>_. all_of cs)"

definition void :: "'a checked \<Rightarrow> unit checked" where
  "void c = rbind c (\<lambda>_. Inr ())"

fun each :: "(string \<Rightarrow> jvalue \<Rightarrow> unit checked) \<Rightarrow> string \<Rightarrow> nat \<Rightarrow> jvalue list \<Rightarrow> unit checked" where
  "each f path i [] = Inr ()"
| "each f path i (item # items) = rbind (f (path @ ''/'' @ dec_digits i) item) (\<lambda>_. each f path (Suc i) items)"

definition get_in :: "jvalue option \<Rightarrow> string \<Rightarrow> jvalue option" where
  "get_in v name = (case v of None \<Rightarrow> None | Some w \<Rightarrow> get w name)"

definition str_in :: "jvalue option \<Rightarrow> string \<Rightarrow> string option" where
  "str_in v name = (case get_in v name of None \<Rightarrow> None | Some w \<Rightarrow> as_str w)"

definition or_else :: "'a option \<Rightarrow> 'a \<Rightarrow> 'a" where
  "or_else x d = (case x of None \<Rightarrow> d | Some y \<Rightarrow> y)"

text \<open>\<open>closed\<close>, for an object with exactly the members allowed and all those required.\<close>

definition closed_object :: "jvalue option \<Rightarrow> string \<Rightarrow> string list \<Rightarrow> string list \<Rightarrow> jvalue checked" where
  "closed_object v path allowed required =
     (case v of
        Some (Object members) \<Rightarrow>
          rbind (check_known path allowed members) (\<lambda>_.
          rbind (check_present path (Object members) required) (\<lambda>_. Inr (Object members)))
      | _ \<Rightarrow> Inl (invalid_envelope path ''not an object''))"

definition text_of :: "jvalue option \<Rightarrow> string \<Rightarrow> nat \<Rightarrow> nat \<Rightarrow> string checked" where
  "text_of v path lo hi =
     (case v of
        Some (String t) \<Rightarrow>
          if lo \<le> length (chars t) \<and> length (chars t) \<le> hi then Inr t
          else Inl (invalid_envelope path (''not a string of '' @ dec_digits lo @ '' to '' @ dec_digits hi @ '' characters''))
      | _ \<Rightarrow> Inl (invalid_envelope path (''not a string of '' @ dec_digits lo @ '' to '' @ dec_digits hi @ '' characters'')))"

definition identifier_of :: "jvalue option \<Rightarrow> string \<Rightarrow> string checked" where
  "identifier_of v path =
     (case v of
        Some (String t) \<Rightarrow> if is_identifier t then Inr t else Inl (invalid_envelope path ''not an identifier'')
      | _ \<Rightarrow> Inl (invalid_envelope path ''not an identifier''))"

definition digest_shaped :: "string \<Rightarrow> bool" where
  "digest_shaped t \<longleftrightarrow>
     length t \<le> 256 \<and>
     (case split_once CHR '':'' t of
        None \<Rightarrow> False
      | Some (algorithm, hex) \<Rightarrow>
          algorithm \<noteq> [] \<and>
          list_all (\<lambda>b. is_ascii_lowercase b \<or> is_ascii_digit b \<or> b \<in> set ''+._-'') algorithm \<and>
          hex \<noteq> [] \<and> list_all is_hex hex)"

definition digest_of :: "jvalue option \<Rightarrow> string \<Rightarrow> string checked" where
  "digest_of v path =
     (case v of
        Some (String t) \<Rightarrow>
          if \<not> digest_shaped t then Inl (invalid_envelope path ''not a digest'')
          else (case parse_digest t of
                  Inr _ \<Rightarrow> Inr t
                | Inl (UnsupportedAlgorithm _) \<Rightarrow> Inr t
                | Inl _ \<Rightarrow> Inl (invalid_envelope path ''wrong length for its algorithm''))
      | _ \<Rightarrow> Inl (invalid_envelope path ''not a digest''))"

definition instant_of :: "jvalue option \<Rightarrow> string \<Rightarrow> string checked" where
  "instant_of v path =
     (case v of
        Some (String t) \<Rightarrow> if is_instant t then Inr t else Inl (invalid_envelope path ''not a UTC instant'')
      | _ \<Rightarrow> Inl (invalid_envelope path ''not a UTC instant''))"

definition one_of :: "jvalue option \<Rightarrow> string \<Rightarrow> string list \<Rightarrow> string checked" where
  "one_of v path allowed =
     (case v of
        Some (String t) \<Rightarrow>
          if t \<in> set allowed then Inr t else Inl (invalid_envelope path (''not one of '' @ joined '', '' allowed))
      | _ \<Rightarrow> Inl (invalid_envelope path (''not one of '' @ joined '', '' allowed)))"

definition integer_of :: "jvalue option \<Rightarrow> string \<Rightarrow> int \<Rightarrow> int checked" where
  "integer_of v path lo =
     (case v of
        Some (Integer n) \<Rightarrow>
          if lo \<le> n \<and> n \<le> MAX_SAFE_INTEGER then Inr n
          else Inl (invalid_envelope path (''not an integer of at least '' @ int_text lo))
      | _ \<Rightarrow> Inl (invalid_envelope path (''not an integer of at least '' @ int_text lo)))"

definition array_of :: "jvalue option \<Rightarrow> string \<Rightarrow> nat \<Rightarrow> jvalue list checked" where
  "array_of v path hi =
     (case v of
        Some (Array items) \<Rightarrow>
          if length items \<le> hi then Inr items
          else Inl (invalid_envelope path (''not an array of at most '' @ dec_digits hi @ '' items''))
      | _ \<Rightarrow> Inl (invalid_envelope path (''not an array of at most '' @ dec_digits hi @ '' items'')))"

text \<open>An optional member: checked when it is there.\<close>

definition if_present :: "jvalue option \<Rightarrow> (jvalue \<Rightarrow> unit checked) \<Rightarrow> unit checked" where
  "if_present v f = (case v of None \<Rightarrow> Inr () | Some w \<Rightarrow> f w)"

subsection \<open>References, bases, conditions\<close>

definition REFERENCE_MEMBERS :: "string list" where
  "REFERENCE_MEMBERS = [''provider'', ''claim'', ''revision'', ''digest'']"

definition check_claim_reference :: "jvalue option \<Rightarrow> string \<Rightarrow> unit checked" where
  "check_claim_reference v path =
     rbind (closed_object v path REFERENCE_MEMBERS REFERENCE_MEMBERS) (\<lambda>r.
     all_of [void (identifier_of (get r ''provider'') (path @ ''/provider'')),
       void (identifier_of (get r ''claim'') (path @ ''/claim'')),
       void (integer_of (get r ''revision'') (path @ ''/revision'') 1),
       void (digest_of (get r ''digest'') (path @ ''/digest''))])"

definition check_evidence_reference :: "jvalue option \<Rightarrow> string \<Rightarrow> unit checked" where
  "check_evidence_reference v path =
     rbind (closed_object v path [''provider'', ''artifact'', ''digest''] [''provider'', ''artifact'', ''digest'']) (\<lambda>r.
     rbind (identifier_of (get r ''provider'') (path @ ''/provider'')) (\<lambda>_.
     rbind (closed_object (get r ''artifact'') (path @ ''/artifact'') [''kind'', ''id''] [''kind'', ''id'']) (\<lambda>artifact.
     all_of [void (one_of (get artifact ''kind'') (path @ ''/artifact/kind'') [ARTIFACT]),
       void (identifier_of (get artifact ''id'') (path @ ''/artifact/id'')),
       void (digest_of (get r ''digest'') (path @ ''/digest''))])))"

definition ROOT_EVIDENCE :: "string list" where
  "ROOT_EVIDENCE = [''kind'', ''provider'', ''artifact'', ''digest'']"

definition ROOT_CLAIM :: "string list" where
  "ROOT_CLAIM = [''kind'', ''provider'', ''claim'', ''revision'', ''digest'']"

definition check_root :: "jvalue option \<Rightarrow> string \<Rightarrow> unit checked" where
  "check_root v path =
     (if str_in v ''kind'' = Some ''evidence'' then
        rbind (closed_object v path ROOT_EVIDENCE ROOT_EVIDENCE) (\<lambda>root.
        check_evidence_reference
          (Some (Object [(''provider'', or_else (get root ''provider'') Null),
             (''artifact'', or_else (get root ''artifact'') Null),
             (''digest'', or_else (get root ''digest'') Null)])) path)
      else if str_in v ''kind'' = Some ''claim'' then
        rbind (closed_object v path ROOT_CLAIM ROOT_CLAIM) (\<lambda>root.
        all_of [void (identifier_of (get root ''provider'') (path @ ''/provider'')),
          void (identifier_of (get root ''claim'') (path @ ''/claim'')),
          void (integer_of (get root ''revision'') (path @ ''/revision'') 1),
          void (digest_of (get root ''digest'') (path @ ''/digest''))])
      else Inl (invalid_envelope (path @ ''/kind'') ''not evidence or claim''))"

definition check_repository :: "string \<Rightarrow> jvalue \<Rightarrow> unit checked" where
  "check_repository p repository =
     rbind (closed_object (Some repository) p [''id'', ''tree'', ''dirty''] [''id'', ''tree'']) (\<lambda>r.
     all_of [void (text_of (get r ''id'') (p @ ''/id'') 1 128),
       void (text_of (get r ''tree'') (p @ ''/tree'') 1 128),
       if_present (get r ''dirty'') (\<lambda>d.
         rbind (closed_object (Some d) (p @ ''/dirty'') [''snapshot_digest''] [''snapshot_digest'']) (\<lambda>dirty.
         void (digest_of (get dirty ''snapshot_digest'') (p @ ''/dirty/snapshot_digest''))))])"

definition check_basis :: "jvalue option \<Rightarrow> string \<Rightarrow> unit checked" where
  "check_basis v path =
     rbind (closed_object v path [''repositories'', ''environment'', ''build'', ''completeness'']
       [''repositories'', ''completeness'']) (\<lambda>basis.
     rbind (array_of (get basis ''repositories'') (path @ ''/repositories'') 64) (\<lambda>repositories.
     all_of [each check_repository (path @ ''/repositories'') 0 repositories,
       if_present (get basis ''environment'') (\<lambda>e. void (text_of (Some e) (path @ ''/environment'') 1 256)),
       if_present (get basis ''build'') (\<lambda>b. void (text_of (Some b) (path @ ''/build'') 1 256)),
       void (one_of (get basis ''completeness'') (path @ ''/completeness'') [''complete'', ''partial''])]))"

definition check_condition :: "string \<Rightarrow> jvalue \<Rightarrow> unit checked" where
  "check_condition path v =
     (if member_str v ''kind'' = Some ''repository_tree'' \<or> member_str v ''kind'' = Some ''dirty_snapshot'' then
        rbind (closed_object (Some v) path [''condition_id'', ''kind'', ''repository'', ''expected'']
          [''condition_id'', ''kind'', ''repository'', ''expected'']) (\<lambda>condition.
        all_of [void (identifier_of (get condition ''condition_id'') (path @ ''/condition_id'')),
          void (text_of (get condition ''repository'') (path @ ''/repository'') 1 128),
          void (text_of (get condition ''expected'') (path @ ''/expected'') 1 256)])
      else if member_str v ''kind'' = Some ''environment_digest'' then
        rbind (closed_object (Some v) path [''condition_id'', ''kind'', ''expected'']
          [''condition_id'', ''kind'', ''expected'']) (\<lambda>condition.
        all_of [void (identifier_of (get condition ''condition_id'') (path @ ''/condition_id'')),
          void (text_of (get condition ''expected'') (path @ ''/expected'') 1 256)])
      else Inl (invalid_envelope (path @ ''/kind'') ''not a condition kind''))"

subsection \<open>Claim payloads\<close>

definition check_statement :: "jvalue \<Rightarrow> unit checked" where
  "check_statement payload =
     rbind (closed_object (get payload ''statement'') ''/payload/statement''
       [''subject'', ''predicate'', ''value'', ''cardinality''] [''subject'', ''predicate'', ''value'', ''cardinality'']) (\<lambda>statement.
     rbind (closed_object (get statement ''subject'') ''/payload/statement/subject'' [''kind'', ''id''] [''kind'', ''id'']) (\<lambda>subject.
     all_of [
       (case get subject ''kind'' of
          Some (String k) \<Rightarrow>
            if is_dotted_name k then Inr ()
            else Inl (invalid_envelope ''/payload/statement/subject/kind'' ''not a subject kind'')
        | _ \<Rightarrow> Inl (invalid_envelope ''/payload/statement/subject/kind'' ''not a subject kind'')),
       void (identifier_of (get subject ''id'') ''/payload/statement/subject/id''),
       void (text_of (get statement ''predicate'') ''/payload/statement/predicate'' 1 128),
       if_present (get statement ''value'') (\<lambda>v.
         guard (\<not> length (to_canonical v) > MAX_VALUE_BYTES)
           (invalid_envelope ''/payload/statement/value'' ''a statement value is at most 4096 bytes of canonical JSON'')),
       void (one_of (get statement ''cardinality'') ''/payload/statement/cardinality'' [''single'', ''multiple'', ''unknown''])]))"

fun check_qualifiers :: "(string \<times> jvalue) list \<Rightarrow> unit checked" where
  "check_qualifiers [] = Inr ()"
| "check_qualifiers ((name, v) # qualifiers) =
     (let p = ''/payload/scope/qualifiers/'' @ name in
      rbind (guard (1 \<le> length (chars name) \<and> length (chars name) \<le> 64)
        (invalid_envelope p ''a qualifier name is 1 to 64 characters'')) (\<lambda>_.
      rbind (text_of (Some v) p 1 256) (\<lambda>_. check_qualifiers qualifiers)))"

definition check_scope :: "jvalue \<Rightarrow> unit checked" where
  "check_scope payload =
     rbind (closed_object (get payload ''scope'') ''/payload/scope'' [''id'', ''qualifiers''] [''id'', ''qualifiers'']) (\<lambda>scope.
     rbind (identifier_of (get scope ''id'') ''/payload/scope/id'') (\<lambda>_.
     (case get scope ''qualifiers'' of
        Some (Object qualifiers) \<Rightarrow>
          if length qualifiers > 32
          then Inl (invalid_envelope ''/payload/scope/qualifiers'' ''more than 32 qualifiers'')
          else check_qualifiers qualifiers
      | _ \<Rightarrow> Inl (invalid_envelope ''/payload/scope/qualifiers'' ''not an object''))))"

definition optional_instant :: "jvalue option \<Rightarrow> string \<Rightarrow> string option checked" where
  "optional_instant v path =
     (case v of None \<Rightarrow> Inr None | Some w \<Rightarrow> rbind (instant_of (Some w) path) (\<lambda>t. Inr (Some t)))"

definition check_validity :: "jvalue \<Rightarrow> unit checked" where
  "check_validity payload =
     if_present (get payload ''validity'') (\<lambda>v.
     rbind (closed_object (Some v) ''/payload/validity'' [''from'', ''until''] []) (\<lambda>validity.
     rbind (optional_instant (get validity ''from'') ''/payload/validity/from'') (\<lambda>start.
     rbind (optional_instant (get validity ''until'') ''/payload/validity/until'') (\<lambda>until.
     (case (start, until) of
        (Some f, Some u) \<Rightarrow>
          guard (\<not> f \<ge> u) (invalid_envelope ''/payload/validity'' ''from must be before until: the interval is empty or inverted'')
      | _ \<Rightarrow> Inr ())))))"

definition check_support_entry :: "string \<Rightarrow> jvalue \<Rightarrow> unit checked" where
  "check_support_entry p item =
     rbind (closed_object (Some item) p [''support_id'', ''evidence'', ''ancestry''] [''support_id'', ''evidence'', ''ancestry'']) (\<lambda>entry.
     rbind (identifier_of (get entry ''support_id'') (p @ ''/support_id'')) (\<lambda>_.
     rbind (check_evidence_reference (get entry ''evidence'') (p @ ''/evidence'')) (\<lambda>_.
     rbind (closed_object (get entry ''ancestry'') (p @ ''/ancestry'') [''completeness'', ''roots''] [''completeness'', ''roots'']) (\<lambda>ancestry.
     rbind (one_of (get ancestry ''completeness'') (p @ ''/ancestry/completeness'') [''complete'', ''partial'', ''unknown'']) (\<lambda>completeness.
     rbind (array_of (get ancestry ''roots'') (p @ ''/ancestry/roots'') 32) (\<lambda>roots.
     rbind (each (\<lambda>q root. check_root (Some root) q) (p @ ''/ancestry/roots'') 0 roots) (\<lambda>_.
     guard (\<not> ((completeness = ''unknown'') \<noteq> (roots = [])))
       (invalid_envelope (p @ ''/ancestry/roots'')
          ''unknown ancestry declares no roots; complete or partial ancestry declares at least one''))))))))"

text \<open>The ids of a list of entries, and the refusal of a repeated one.\<close>

definition ids_of :: "string \<Rightarrow> jvalue list \<Rightarrow> string list" where
  "ids_of name entries = map (\<lambda>entry. or_else (member_str entry name) []) entries"

definition check_support :: "jvalue \<Rightarrow> unit checked" where
  "check_support payload =
     rbind (array_of (get payload ''support'') ''/payload/support'' 64) (\<lambda>support.
     rbind (each check_support_entry ''/payload/support'' 0 support) (\<lambda>_.
     guard (distinct (ids_of ''support_id'' support)) (invalid_envelope ''/payload/support'' ''duplicate support_id'')))"

definition check_derivation :: "jvalue \<Rightarrow> unit checked" where
  "check_derivation payload =
     rbind (closed_object (get payload ''derivation'') ''/payload/derivation'' [''kind'', ''record'', ''inputs''] [''kind'', ''inputs'']) (\<lambda>derivation.
     rbind (one_of (get derivation ''kind'') ''/payload/derivation/kind'' [''deterministic'', ''model_assisted'', ''human'']) (\<lambda>_.
     rbind (if_present (get derivation ''record'') (\<lambda>r. check_evidence_reference (Some r) ''/payload/derivation/record'')) (\<lambda>_.
     rbind (array_of (get derivation ''inputs'') ''/payload/derivation/inputs'' 32) (\<lambda>inputs.
     each (\<lambda>p i. check_evidence_reference (Some i) p) ''/payload/derivation/inputs'' 0 inputs))))"

definition check_dependencies :: "jvalue \<Rightarrow> unit checked" where
  "check_dependencies payload =
     if_present (get payload ''dependencies'') (\<lambda>d.
     rbind (array_of (Some d) ''/payload/dependencies'' 32) (\<lambda>dependencies.
     each (\<lambda>p r. check_claim_reference (Some r) p) ''/payload/dependencies'' 0 dependencies))"

definition check_conditions :: "jvalue \<Rightarrow> unit checked" where
  "check_conditions payload =
     if_present (get payload ''conditions'') (\<lambda>c.
     rbind (array_of (Some c) ''/payload/conditions'' 32) (\<lambda>conditions.
     rbind (each check_condition ''/payload/conditions'' 0 conditions) (\<lambda>_.
     guard (distinct (ids_of ''condition_id'' conditions)) (invalid_envelope ''/payload/conditions'' ''duplicate condition_id''))))"

definition check_health :: "string \<Rightarrow> jvalue \<Rightarrow> unit checked" where
  "check_health plane payload =
     if_present (get payload ''health'') (\<lambda>h.
     rbind (one_of (Some h) ''/payload/health'' [''healthy'', ''degraded'', ''failing'', ''unknown'']) (\<lambda>_.
     guard (\<not> plane \<noteq> ''observed'') (invalid_envelope ''/payload/health'' ''health is reported only by observed claims'')))"

definition check_supersedes :: "jvalue \<Rightarrow> unit checked" where
  "check_supersedes payload =
     rbind (closed_object (get payload ''supersedes'') ''/payload/supersedes'' [''revision'', ''digest''] [''revision'', ''digest'']) (\<lambda>s.
     all_of [void (integer_of (get s ''revision'') ''/payload/supersedes/revision'' 1),
       void (digest_of (get s ''digest'') ''/payload/supersedes/digest'')])"

definition CLAIM_MEMBERS :: "string list" where
  "CLAIM_MEMBERS = [''plane'', ''statement'', ''scope'', ''validity'', ''basis'', ''support'', ''derivation'',
     ''dependencies'', ''conditions'', ''health'']"

definition CLAIM_REQUIRED :: "string list" where
  "CLAIM_REQUIRED = [''plane'', ''statement'', ''scope'', ''support'', ''derivation'']"

definition check_claim_payload :: "jvalue \<Rightarrow> bool \<Rightarrow> unit checked" where
  "check_claim_payload p revise =
     rbind (closed_object (Some p) ''/payload'' (CLAIM_MEMBERS @ (if revise then [''supersedes''] else []))
       (CLAIM_REQUIRED @ (if revise then [''supersedes''] else []))) (\<lambda>payload.
     rbind (one_of (get payload ''plane'') ''/payload/plane'' [''normative'', ''observed'', ''interpretive'']) (\<lambda>plane.
     all_of [check_statement payload, check_scope payload, check_validity payload,
       if_present (get payload ''basis'') (\<lambda>b. check_basis (Some b) ''/payload/basis''),
       check_support payload, check_derivation payload, check_dependencies payload, check_conditions payload,
       check_health plane payload, (if revise then check_supersedes payload else Inr ())]))"

subsection \<open>The other payloads\<close>

definition check_authority_payload :: "jvalue \<Rightarrow> unit checked" where
  "check_authority_payload p =
     rbind (closed_object (Some p) ''/payload'' [''authority''] [''authority'']) (\<lambda>payload.
     void (identifier_of (get payload ''authority'') ''/payload/authority''))"

definition check_permitted_use :: "string \<Rightarrow> jvalue \<Rightarrow> unit checked" where
  "check_permitted_use decision payload =
     (case get payload ''permitted_use'' of
        Some used \<Rightarrow>
          if decision = ''accepted_for_use''
          then void (one_of (Some used) ''/payload/permitted_use'' [''binding'', ''evidence'', ''hypothesis'', ''reference''])
          else Inl (invalid_envelope ''/payload/permitted_use'' ''present only for accepted_for_use'')
      | None \<Rightarrow>
          if decision = ''accepted_for_use''
          then Inl (invalid_envelope ''/payload/permitted_use'' ''required for accepted_for_use'')
          else Inr ())"

definition check_receipt :: "string \<Rightarrow> jvalue \<Rightarrow> unit checked" where
  "check_receipt p item =
     rbind (closed_object (Some item) p [''provider'', ''receipt'', ''artifact''] [''provider'', ''receipt'', ''artifact'']) (\<lambda>receipt.
     all_of [void (identifier_of (get receipt ''provider'') (p @ ''/provider'')),
       void (identifier_of (get receipt ''receipt'') (p @ ''/receipt'')),
       check_evidence_reference (get receipt ''artifact'') (p @ ''/artifact'')])"

definition check_validation_basis :: "jvalue \<Rightarrow> unit checked" where
  "check_validation_basis payload =
     rbind (closed_object (get payload ''validation_basis'') ''/payload/validation_basis'' [''evidence'', ''receipts'', ''target'']
       [''evidence'', ''receipts'']) (\<lambda>basis.
     rbind (array_of (get basis ''evidence'') ''/payload/validation_basis/evidence'' 32) (\<lambda>evidence.
     rbind (each (\<lambda>p e. check_evidence_reference (Some e) p) ''/payload/validation_basis/evidence'' 0 evidence) (\<lambda>_.
     rbind (array_of (get basis ''receipts'') ''/payload/validation_basis/receipts'' 32) (\<lambda>receipts.
     rbind (each check_receipt ''/payload/validation_basis/receipts'' 0 receipts) (\<lambda>_.
     if_present (get basis ''target'') (\<lambda>t. check_basis (Some t) ''/payload/validation_basis/target''))))))"

definition check_decision_payload :: "jvalue \<Rightarrow> unit checked" where
  "check_decision_payload p =
     rbind (closed_object (Some p) ''/payload''
       [''claim'', ''decision'', ''permitted_use'', ''supersedes_decision'', ''validation_basis'', ''rationale'']
       [''claim'', ''decision'', ''validation_basis'', ''rationale'']) (\<lambda>payload.
     rbind (check_claim_reference (get payload ''claim'') ''/payload/claim'') (\<lambda>_.
     rbind (one_of (get payload ''decision'') ''/payload/decision'' [''accepted_for_use'', ''rejected'', ''superseded'']) (\<lambda>decision.
     all_of [check_permitted_use decision payload,
       if_present (get payload ''supersedes_decision'') (\<lambda>s. void (identifier_of (Some s) ''/payload/supersedes_decision'')),
       check_validation_basis payload,
       void (text_of (get payload ''rationale'') ''/payload/rationale'' 1 4096)])))"

definition check_conflict_open_payload :: "jvalue \<Rightarrow> unit checked" where
  "check_conflict_open_payload p =
     rbind (closed_object (Some p) ''/payload'' [''revisions'', ''note''] [''revisions'']) (\<lambda>payload.
     rbind (array_of (get payload ''revisions'') ''/payload/revisions'' 2) (\<lambda>revisions.
     if length revisions \<noteq> 2 then Inl (invalid_envelope ''/payload/revisions'' ''exactly two revisions'')
     else rbind (each (\<lambda>q r. check_claim_reference (Some r) q) ''/payload/revisions'' 0 revisions) (\<lambda>_.
     rbind (guard (\<not> to_canonical (revisions ! 0) = to_canonical (revisions ! 1))
       (invalid_envelope ''/payload/revisions'' ''a conflict names two different revisions'')) (\<lambda>_.
     if_present (get payload ''note'') (\<lambda>n. void (text_of (Some n) ''/payload/note'' 1 4096))))))"

definition check_conflict_resolve_payload :: "jvalue \<Rightarrow> unit checked" where
  "check_conflict_resolve_payload p =
     rbind (closed_object (Some p) ''/payload'' [''resolution'', ''selected'', ''rationale''] [''resolution'', ''rationale'']) (\<lambda>payload.
     all_of [void (one_of (get payload ''resolution'') ''/payload/resolution''
         [''select'', ''narrow_scope'', ''reject_support'', ''supersede'', ''request_observation'', ''not_a_conflict'']),
       if_present (get payload ''selected'') (\<lambda>s. check_claim_reference (Some s) ''/payload/selected''),
       void (text_of (get payload ''rationale'') ''/payload/rationale'' 1 4096)])"

definition check_evaluate_payload :: "jvalue \<Rightarrow> unit checked" where
  "check_evaluate_payload p =
     rbind (closed_object (Some p) ''/payload'' [''claim'', ''target''] [''claim'', ''target'']) (\<lambda>payload.
     all_of [check_claim_reference (get payload ''claim'') ''/payload/claim'',
       check_basis (get payload ''target'') ''/payload/target''])"

definition check_inspect_payload :: "jvalue \<Rightarrow> (string \<times> int option) checked" where
  "check_inspect_payload p =
     rbind (closed_object (Some p) ''/payload'' [''claim'', ''revision''] [''claim'']) (\<lambda>payload.
     rbind (identifier_of (get payload ''claim'') ''/payload/claim'') (\<lambda>clm.
     (case get payload ''revision'' of
        None \<Rightarrow> Inr (clm, None)
      | Some r \<Rightarrow> rbind (integer_of (Some r) ''/payload/revision'' 1) (\<lambda>n. Inr (clm, Some n)))))"

definition check_history_payload :: "jvalue \<Rightarrow> string checked" where
  "check_history_payload p =
     rbind (closed_object (Some p) ''/payload'' [''claim''] [''claim'']) (\<lambda>payload.
     identifier_of (get payload ''claim'') ''/payload/claim'')"

definition check_authority_get_payload :: "jvalue \<Rightarrow> string checked" where
  "check_authority_get_payload p =
     rbind (closed_object (Some p) ''/payload'' [''scope''] [''scope'']) (\<lambda>payload.
     identifier_of (get payload ''scope'') ''/payload/scope'')"

subsection \<open>Records and references\<close>

definition build_record :: "string \<Rightarrow> string \<Rightarrow> int \<Rightarrow> string \<Rightarrow> jvalue \<Rightarrow> jvalue" where
  "build_record provider clm revision producer payload =
     Object [(''format'', String CLAIM_FORMAT), (''provider'', String provider), (''claim'', String clm),
       (''revision'', Integer revision), (''producer'', String producer),
       (''plane'', or_else (get payload ''plane'') Null),
       (''statement'', or_else (get payload ''statement'') Null),
       (''scope'', or_else (get payload ''scope'') Null),
       (''validity'', or_else (get payload ''validity'') Null),
       (''basis'', or_else (get payload ''basis'') Null),
       (''support'', or_else (get payload ''support'') (Array [])),
       (''derivation'', or_else (get payload ''derivation'') Null),
       (''dependencies'', or_else (get payload ''dependencies'') (Array [])),
       (''conditions'', or_else (get payload ''conditions'') (Array [])),
       (''health'', or_else (get payload ''health'') (String ''not_applicable'')),
       (''supersedes'', or_else (get payload ''supersedes'') Null)]"

definition record_digest :: "hasher \<Rightarrow> jvalue \<Rightarrow> string" where
  "record_digest sha r = digest_canonical sha r"

definition reference :: "string \<Rightarrow> string \<Rightarrow> int \<Rightarrow> string \<Rightarrow> jvalue" where
  "reference provider clm revision digest =
     Object [(''provider'', String provider), (''claim'', String clm), (''revision'', Integer revision), (''digest'', String digest)]"

record reference_parts =
  rp_provider :: string
  rp_claim :: string
  rp_revision :: int
  rp_digest :: string

definition reference_parts_of :: "jvalue \<Rightarrow> reference_parts" where
  "reference_parts_of v =
     \<lparr>rp_provider = or_else (member_str v ''provider'') [], rp_claim = or_else (member_str v ''claim'') [],
      rp_revision = (case get v ''revision'' of Some (Integer n) \<Rightarrow> n | _ \<Rightarrow> 0),
      rp_digest = or_else (member_str v ''digest'') []\<rparr>"

definition same_reference :: "jvalue \<Rightarrow> jvalue \<Rightarrow> bool" where
  "same_reference a b \<longleftrightarrow>
     (let x = reference_parts_of a; y = reference_parts_of b
      in rp_provider x = rp_provider y \<and> rp_claim x = rp_claim y \<and> rp_revision x = rp_revision y \<and> rp_digest x = rp_digest y)"

subsection \<open>What an accepted payload holds\<close>

lemma all_of_Inr [result_simps]: "all_of cs = Inr u \<longleftrightarrow> (\<forall>c \<in> set cs. c = Inr ())"
  by (induction cs) (auto simp: result_simps)

lemma void_Inr [result_simps]: "void c = Inr u \<longleftrightarrow> (\<exists>x. c = Inr x)"
  by (cases c) (simp_all add: void_def)

lemma if_present_Inr [result_simps]: "if_present v f = Inr u \<longleftrightarrow> (\<forall>w. v = Some w \<longrightarrow> f w = Inr ())"
  by (cases v) (simp_all add: if_present_def)

lemma closed_object_Inr [result_simps]:
  "closed_object v path allowed required = Inr w \<longleftrightarrow>
     v = Some w \<and> is_object w \<and> set (keys w) \<subseteq> set allowed \<and> set required \<subseteq> set (keys w)"
proof (cases v)
  case (Some x)
  show ?thesis
  proof (cases x)
    case (Object ms)
    have r: "(\<forall>n \<in> set required. get (Object ms) n \<noteq> None) \<longleftrightarrow> set required \<subseteq> set (keys (Object ms))"
      unfolding get_None_iff by auto
    have k: "fst ` set ms = set (keys (Object ms))" by simp
    have "(\<exists>x. A \<and> (\<exists>x. B \<and> (Inr (Object ms) :: jvalue checked) = Inr w)) \<longleftrightarrow> w = Object ms \<and> A \<and> B" for A B by auto
    then show ?thesis
      unfolding Some Object closed_object_def option.case jvalue.case rbind_Inr_iff check_known_Inr check_present_Inr r k
      by (cases "w = Object ms") simp_all
  qed (auto simp: closed_object_def Some)
qed (simp add: closed_object_def)

lemma text_of_Inr [result_simps]:
  "text_of v path lo hi = Inr t \<longleftrightarrow> v = Some (String t) \<and> lo \<le> length (chars t) \<and> length (chars t) \<le> hi"
  by (auto simp: text_of_def split: option.splits jvalue.splits)

lemma identifier_of_Inr [result_simps]: "identifier_of v path = Inr t \<longleftrightarrow> v = Some (String t) \<and> is_identifier t"
  by (auto simp: identifier_of_def split: option.splits jvalue.splits)

lemma one_of_Inr [result_simps]: "one_of v path allowed = Inr t \<longleftrightarrow> v = Some (String t) \<and> t \<in> set allowed"
  by (auto simp: one_of_def split: option.splits jvalue.splits)

lemma integer_of_Inr [result_simps]:
  "integer_of v path lo = Inr n \<longleftrightarrow> v = Some (Integer n) \<and> lo \<le> n \<and> n \<le> MAX_SAFE_INTEGER"
  by (auto simp: integer_of_def split: option.splits jvalue.splits)

lemma array_of_Inr [result_simps]: "array_of v path hi = Inr items \<longleftrightarrow> v = Some (Array items) \<and> length items \<le> hi"
  by (auto simp: array_of_def split: option.splits jvalue.splits)

lemma instant_of_Inr [result_simps]: "instant_of v path = Inr t \<longleftrightarrow> v = Some (String t) \<and> is_instant t"
  by (auto simp: instant_of_def split: option.splits jvalue.splits)

definition digest_ok :: "string \<Rightarrow> bool" where
  "digest_ok t \<longleftrightarrow> length t \<le> 256 \<and> ((\<exists>r. parse_digest t = Inr r) \<or> (\<exists>a. parse_digest t = Inl (UnsupportedAlgorithm a)))"

text \<open>The shape the source tests before it parses a digest is implied by what the parser accepts.\<close>

lemma valid_name_chars:
  assumes "valid_algorithm_name name" "c \<in> set name"
  shows "is_ascii_lowercase c \<or> is_ascii_digit c \<or> c \<in> set ''+._-''"
proof (rule ccontr)
  assume n: "\<not> ?thesis"
  then obtain part where "part \<in> set (split_on (\<lambda>c. c \<in> set ''+._-'') name)" "c \<in> set part"
    using split_on_covers [OF assms(2), of "\<lambda>c. c \<in> set ''+._-''"] by blast
  then show False using assms(1) n unfolding valid_algorithm_name_def list_all_iff by blast
qed

lemma digest_shaped_parts:
  assumes "t = name @ '':'' @ hex" "length t \<le> 256" "valid_algorithm_name name" "hex \<noteq> []" "list_all is_hex hex"
  shows "digest_shaped t"
proof -
  have "CHR '':'' \<notin> set name" using valid_name_chars [OF assms(3), of "CHR '':''"] by (auto simp: ascii_defs)
  then have "split_once CHR '':'' t = Some (name, hex)" using assms(1) by (simp add: split_once_Some_iff)
  moreover have "name \<noteq> []" using assms(3) by (simp add: valid_algorithm_name_def)
  ultimately show ?thesis using assms(2,4,5) valid_name_chars [OF assms(3)]
    by (simp add: digest_shaped_def list_all_iff)
qed

lemma supported_names_valid: "valid_algorithm_name (algorithm_name a)"
  by (cases a) (simp_all add: valid_algorithm_name_def ascii_defs)

lemma digest_of_Inr [result_simps]: "digest_of v path = Inr t \<longleftrightarrow> v = Some (String t) \<and> digest_ok t"
proof -
  have "digest_shaped t" if ok: "digest_ok t" for t
  proof (cases "parse_digest t")
    case (Inr r)
    obtain a e where "r = (a, e)" by (cases r)
    then have "t = algorithm_name a @ '':'' @ e \<and> list_all is_hex e \<and> length e = hex_length a"
      using Inr parse_digest_Inr_iff by blast
    moreover from this have "e \<noteq> []" by (cases a) auto
    moreover have "length t \<le> 256" using ok by (simp add: digest_ok_def)
    ultimately show ?thesis using digest_shaped_parts [of t "algorithm_name a" e] supported_names_valid [of a] by blast
  next
    case (Inl e)
    then obtain a where "parse_digest t = Inl (UnsupportedAlgorithm a)" using ok by (auto simp: digest_ok_def)
    then show ?thesis
      using digest_shaped_parts [of t a] ok unfolding parse_digest_unsupported digest_ok_def by blast
  qed
  then have shaped: "digest_ok t \<Longrightarrow> digest_shaped t" for t .
  have "digest_of (Some (String q)) path = Inr t \<longleftrightarrow> q = t \<and> digest_ok t" for q
  proof (cases "digest_ok q")
    case True
    with shaped [OF this] show ?thesis by (auto simp: digest_of_def digest_ok_def)
  next
    case False
    then have "\<not> digest_shaped q \<or> (\<exists>e. parse_digest q = Inl e \<and> (\<forall>a. e \<noteq> UnsupportedAlgorithm a))"
      by (cases "parse_digest q") (auto simp: digest_ok_def digest_shaped_def)
    with False show ?thesis by (auto simp: digest_of_def split: digest_error.splits)
  qed
  then show ?thesis by (cases v) (auto simp: digest_of_def split: jvalue.splits)
qed

text \<open>A check of every item, whose acceptance does not depend on the path.\<close>

lemma each_Inr:
  assumes "\<And>p v. f p v = Inr () \<longleftrightarrow> P v"
  shows "each f path i items = Inr u \<longleftrightarrow> list_all P items"
  by (induction items arbitrary: i) (auto simp: result_simps assms)

definition claim_reference_ok :: "jvalue \<Rightarrow> bool" where
  "claim_reference_ok v \<longleftrightarrow> is_object v \<and> set (keys v) = set REFERENCE_MEMBERS \<and>
     (\<exists>provider clm revision digest. get v ''provider'' = Some (String provider) \<and> is_identifier provider \<and>
        get v ''claim'' = Some (String clm) \<and> is_identifier clm \<and>
        get v ''revision'' = Some (Integer revision) \<and> 1 \<le> revision \<and> revision \<le> MAX_SAFE_INTEGER \<and>
        get v ''digest'' = Some (String digest) \<and> digest_ok digest)"

lemma check_claim_reference_Inr [result_simps]:
  "check_claim_reference (Some v) p = Inr u \<longleftrightarrow> claim_reference_ok v"
  unfolding check_claim_reference_def claim_reference_ok_def by (auto simp: result_simps)

definition artifact_ok :: "jvalue \<Rightarrow> bool" where
  "artifact_ok v \<longleftrightarrow> is_object v \<and> set (keys v) = {''kind'', ''id''} \<and> get v ''kind'' = Some (String ARTIFACT) \<and>
     (\<exists>i. get v ''id'' = Some (String i) \<and> is_identifier i)"

definition evidence_reference_ok :: "jvalue \<Rightarrow> bool" where
  "evidence_reference_ok v \<longleftrightarrow> is_object v \<and> set (keys v) = {''provider'', ''artifact'', ''digest''} \<and>
     (\<exists>provider artifact digest. get v ''provider'' = Some (String provider) \<and> is_identifier provider \<and>
        get v ''artifact'' = Some artifact \<and> artifact_ok artifact \<and>
        get v ''digest'' = Some (String digest) \<and> digest_ok digest)"

lemma check_evidence_reference_Inr [result_simps]:
  "check_evidence_reference (Some v) p = Inr u \<longleftrightarrow> evidence_reference_ok v"
  unfolding check_evidence_reference_def evidence_reference_ok_def artifact_ok_def by (auto simp: result_simps)

text \<open>The ancestry of an entry: unknown exactly when it declares no root.\<close>

definition support_ok :: "jvalue \<Rightarrow> bool" where
  "support_ok v \<longleftrightarrow> (\<exists>i evidence ancestry completeness roots.
     get v ''support_id'' = Some (String i) \<and> is_identifier i \<and>
     get v ''evidence'' = Some evidence \<and> evidence_reference_ok evidence \<and>
     get v ''ancestry'' = Some ancestry \<and> get ancestry ''completeness'' = Some (String completeness) \<and>
     completeness \<in> {''complete'', ''partial'', ''unknown''} \<and>
     get ancestry ''roots'' = Some (Array roots) \<and> length roots \<le> 32 \<and>
     (completeness = ''unknown'' \<longleftrightarrow> roots = []))"

lemma get_Some_of_keys: "name \<in> set (keys v) \<Longrightarrow> \<exists>w. get v name = Some w"
  using get_None_iff [of v name] by auto

lemma check_support_entry_ok:
  assumes "check_support_entry p v = Inr u"
  shows "support_ok v"
proof -
  from assms have k: "set [''support_id'', ''evidence'', ''ancestry''] \<subseteq> set (keys v)"
    by (simp add: check_support_entry_def result_simps)
  obtain e where e: "get v ''evidence'' = Some e" using get_Some_of_keys [of "''evidence''" v] k by auto
  show ?thesis
    using assms e unfolding check_support_entry_def support_ok_def by (auto simp: result_simps)
qed

lemma each_ok:
  assumes "\<And>p v. f p v = Inr () \<Longrightarrow> P v"
  shows "each f path i items = Inr u \<Longrightarrow> list_all P items"
  by (induction items arbitrary: i) (auto simp: result_simps dest: assms)

lemma check_support_Inr:
  assumes "check_support payload = Inr u"
  shows "\<exists>support. get payload ''support'' = Some (Array support) \<and> length support \<le> 64 \<and> list_all support_ok support \<and>
    distinct (ids_of ''support_id'' support)"
  using assms each_ok [of check_support_entry support_ok] check_support_entry_ok
  unfolding check_support_def by (auto simp: result_simps)

lemma check_validity_Inr:
  assumes "check_validity payload = Inr u" "get payload ''validity'' = Some v"
    "get v ''from'' = Some (String f)" "get v ''until'' = Some (String t)"
  shows "is_instant f \<and> is_instant t \<and> f < t"
  using assms unfolding check_validity_def optional_instant_def by (auto simp: result_simps)

lemma check_claim_payload_Inr:
  assumes "check_claim_payload p revise = Inr u"
  shows "set (keys p) \<subseteq> set (CLAIM_MEMBERS @ (if revise then [''supersedes''] else []))"
    "set (CLAIM_REQUIRED @ (if revise then [''supersedes''] else [])) \<subseteq> set (keys p)"
    "check_statement p = Inr ()" "check_scope p = Inr ()" "check_validity p = Inr ()" "check_support p = Inr ()"
    "check_derivation p = Inr ()" "check_conditions p = Inr ()"
    "\<exists>plane. get p ''plane'' = Some (String plane) \<and> plane \<in> {''normative'', ''observed'', ''interpretive''} \<and> check_health plane p = Inr ()"
    "revise \<Longrightarrow> check_supersedes p = Inr ()"
  using assms unfolding check_claim_payload_def by (auto simp: result_simps)

lemma check_statement_Inr:
  assumes "check_statement p = Inr u"
  shows "\<exists>st v. get p ''statement'' = Some st \<and> get st ''value'' = Some v \<and> length (to_canonical v) \<le> 4096"
proof -
  obtain st where st: "get p ''statement'' = Some st" "''value'' \<in> set (keys st)"
    using assms unfolding check_statement_def by (auto simp: result_simps)
  obtain v where v: "get st ''value'' = Some v" using get_Some_of_keys [OF st(2)] by blast
  have "length (to_canonical v) \<le> 4096"
    using assms st(1) v unfolding check_statement_def by (auto simp: result_simps MAX_VALUE_BYTES_def)
  then show ?thesis using st(1) v by blast
qed

lemma check_health_Inr: "check_health plane p = Inr u \<Longrightarrow> get p ''health'' \<noteq> None \<Longrightarrow> plane = ''observed''"
  unfolding check_health_def by (auto simp: result_simps)

subsection \<open>References\<close>

lemma reference_parts_reference [simp]:
  "reference_parts_of (reference provider clm revision digest) =
     \<lparr>rp_provider = provider, rp_claim = clm, rp_revision = revision, rp_digest = digest\<rparr>"
  by (simp add: reference_parts_of_def reference_def member_str_def or_else_def)

lemma reference_ok:
  "is_identifier provider \<Longrightarrow> is_identifier clm \<Longrightarrow> 1 \<le> revision \<Longrightarrow> revision \<le> MAX_SAFE_INTEGER \<Longrightarrow> digest_ok digest \<Longrightarrow>
   check_claim_reference (Some (reference provider clm revision digest)) p = Inr ()"
  by (simp add: result_simps claim_reference_ok_def reference_def REFERENCE_MEMBERS_def) 

lemma same_reference_reference:
  "claim_reference_ok v \<Longrightarrow> same_reference v (reference provider clm revision digest) \<longleftrightarrow>
     get v ''provider'' = Some (String provider) \<and> get v ''claim'' = Some (String clm) \<and>
     get v ''revision'' = Some (Integer revision) \<and> get v ''digest'' = Some (String digest)"
  by (auto simp: same_reference_def Let_def claim_reference_ok_def reference_parts_of_def member_str_def or_else_def reference_def)

subsection \<open>Properties\<close>

text \<open>
  C31. A claim payload that is accepted has only known members and all required ones, a statement
  value of at most 4096 canonical bytes, at most 64 support entries with distinct ids whose
  ancestry is unknown exactly when it declares no root, an interval that is not empty, and a
  health only in the observed plane.
\<close>

theorem accepted_claims_are_well_formed:
  assumes "check_claim_payload p revise = Inr ()"
  shows "set (keys p) \<subseteq> set (CLAIM_MEMBERS @ (if revise then [''supersedes''] else [])) \<and>
    set CLAIM_REQUIRED \<subseteq> set (keys p) \<and>
    (\<exists>st v. get p ''statement'' = Some st \<and> get st ''value'' = Some v \<and> length (to_canonical v) \<le> 4096) \<and>
    (\<exists>support. get p ''support'' = Some (Array support) \<and> length support \<le> 64 \<and> list_all support_ok support \<and>
       distinct (ids_of ''support_id'' support)) \<and>
    (\<forall>v f t. get p ''validity'' = Some v \<longrightarrow> get v ''from'' = Some (String f) \<longrightarrow> get v ''until'' = Some (String t) \<longrightarrow> f < t) \<and>
    (get p ''health'' = None \<or> get p ''plane'' = Some (String ''observed''))"
proof -
  note a = check_claim_payload_Inr [OF assms]
  have "get p ''health'' = None \<or> get p ''plane'' = Some (String ''observed'')"
    using a(9) check_health_Inr by fastforce
  then show ?thesis
    using a(1,2) check_statement_Inr [OF a(3)] check_support_Inr [OF a(6)] check_validity_Inr [OF a(5)] by auto
qed

definition example_claim :: jvalue where
  "example_claim = Object [(''plane'', String ''observed''),
     (''statement'', Object [(''subject'', Object [(''kind'', String ''a.b''), (''id'', String ''x'')]),
       (''predicate'', String ''m''), (''value'', Null), (''cardinality'', String ''single'')]),
     (''scope'', Object [(''id'', String ''x''), (''qualifiers'', Object [])]),
     (''support'', Array []),
     (''derivation'', Object [(''kind'', String ''human''), (''inputs'', Array [])])]"

lemma chars_m: "chars ''m'' = [0x6D]"
proof -
  have "char_of (0x6D :: nat) = CHR ''m''" by (simp add: char_of_eq_iff_nat)
  then show ?thesis using chars_of_chars [of "[0x6D]"] by (simp add: of_chars_def utf8_encode_ascii is_scalar_def)
qed

lemma example_claim_accepted: "check_claim_payload example_claim False = Inr ()"
proof -
  have "check_statement example_claim = Inr ()"
    by (simp add: example_claim_def check_statement_def closed_object_def dotted_ab identifier_of_def identifier_letters
        text_of_def chars_m if_present_def MAX_VALUE_BYTES_def one_of_def void_def)
  moreover have "check_scope example_claim = Inr ()"
    by (simp add: example_claim_def check_scope_def closed_object_def identifier_of_def identifier_letters)
  moreover have "check_validity example_claim = Inr ()" "check_support example_claim = Inr ()"
    "check_derivation example_claim = Inr ()" "check_dependencies example_claim = Inr ()" "check_conditions example_claim = Inr ()"
    by (simp_all add: example_claim_def check_validity_def check_support_def check_derivation_def check_dependencies_def
        check_conditions_def if_present_def array_of_def ids_of_def closed_object_def one_of_def)
  moreover have "check_health ''observed'' example_claim = Inr ()"
    "get example_claim ''basis'' = None" "get example_claim ''plane'' = Some (String ''observed'')"
    "closed_object (Some example_claim) ''/payload'' CLAIM_MEMBERS CLAIM_REQUIRED = Inr example_claim"
    by (simp_all add: example_claim_def check_health_def if_present_def closed_object_def CLAIM_MEMBERS_def CLAIM_REQUIRED_def)
  ultimately show ?thesis by (simp add: check_claim_payload_def one_of_def if_present_def)
qed

lemma accepted_claims_are_well_formed_witness:
  "\<exists>support. get example_claim ''support'' = Some (Array support) \<and> list_all support_ok support"
  using accepted_claims_are_well_formed [OF example_claim_accepted] by blast

end
