(* ===== verification/Knowledge.thy ===== *)
theory Knowledge
  imports Claims "HOL-Library.Product_Lexorder" "HOL-Library.Multiset"
begin

text \<open>
  The rules of the knowledge profile, the second half of \<open>knowledge.rs\<close>: the lineage class of a
  claim's support, the availability facet, the structural comparison of two revisions, and the
  applicability of a record to a target. The lemmas show that none of the answers depends on an
  order the rules do not name, and what each answer establishes.
\<close>

subsection \<open>Support\<close>

definition completeness_of :: "jvalue \<Rightarrow> string" where
  "completeness_of entry = or_else (str_in (get entry ''ancestry'') ''completeness'') ''unknown''"

record support_entry =
  se_roots :: "string list"
  se_digests :: "string list"
  se_completeness :: string

definition items_in :: "jvalue option \<Rightarrow> string \<Rightarrow> jvalue list" where
  "items_in v name = (case get_in v name of None \<Rightarrow> [] | Some w \<Rightarrow> or_else (as_array w) [])"

definition support_entry_of :: "jvalue \<Rightarrow> support_entry" where
  "support_entry_of entry =
     (let roots = items_in (get entry ''ancestry'') ''roots'' in
      \<lparr>se_roots = map to_canonical roots,
       se_digests = List.map_filter (\<lambda>r. member_str r ''digest'') roots,
       se_completeness = completeness_of entry\<rparr>)"

datatype pair = Shared | Disjoint | Undetermined

definition relation :: "support_entry \<Rightarrow> support_entry \<Rightarrow> pair" where
  "relation a b =
     (if list_ex (\<lambda>root. root \<in> set (se_roots b)) (se_roots a) then Shared
      else if se_completeness a = ''complete'' \<and> se_completeness b = ''complete'' \<and>
        \<not> list_ex (\<lambda>d. d \<in> set (se_digests b)) (se_digests a) then Disjoint
      else Undetermined)"

text \<open>The scan of every pair, carrying \<open>any_disjoint\<close> and \<open>all_shared\<close>.\<close>

fun scan_against :: "support_entry \<Rightarrow> support_entry list \<Rightarrow> bool \<times> bool \<Rightarrow> bool \<times> bool" where
  "scan_against a [] acc = acc"
| "scan_against a (b # bs) (any_disjoint, all_shared) =
     scan_against a bs
       (case relation a b of
          Disjoint \<Rightarrow> (True, False)
        | Undetermined \<Rightarrow> (any_disjoint, False)
        | Shared \<Rightarrow> (any_disjoint, all_shared))"

fun scan_pairs :: "support_entry list \<Rightarrow> bool \<times> bool \<Rightarrow> bool \<times> bool" where
  "scan_pairs [] acc = acc"
| "scan_pairs (a # bs) acc = scan_pairs bs (scan_against a bs acc)"

definition lineage :: "support_entry list \<Rightarrow> string" where
  "lineage entries =
     (let (any_disjoint, all_shared) = scan_pairs entries (False, True);
          any_unknown = list_ex (\<lambda>e. se_completeness e = ''unknown'') entries;
          common_root = list_ex (\<lambda>root. list_all (\<lambda>e. root \<in> set (se_roots e)) entries) (se_roots (hd entries))
      in if any_unknown \<and> \<not> any_disjoint then ''undetermined''
         else if common_root then ''single_lineage''
         else if any_disjoint then ''multiple_lineages''
         else if length entries \<ge> 2 \<and> all_shared then ''overlapping_lineages''
         else ''undetermined'')"

definition support_class :: "jvalue list \<Rightarrow> string \<times> string list" where
  "support_class support =
     (let unknown_ancestry = List.map_filter (\<lambda>entry. member_str entry ''support_id'')
            (filter (\<lambda>entry. completeness_of entry = ''unknown'') support)
      in if support = [] then (''unsupported'', unknown_ancestry)
         else (lineage (map support_entry_of support), unknown_ancestry))"

datatype observed = Available | Unavailable | Purged | Unknown

definition availability_state :: "observed list \<Rightarrow> string" where
  "availability_state os =
     (let available = count_list os Available; purged = count_list os Purged;
          unknown = count_list os Unknown; total = length os
      in if total = 0 then ''unknown''
         else if available = total then ''complete''
         else if available > 0 then ''partial''
         else if unknown > 0 then ''unknown''
         else if purged = total then ''purged''
         else ''unavailable'')"

definition availability :: "observed list \<Rightarrow> jvalue" where
  "availability os =
     Object [(''state'', String (availability_state os)),
       (''counts'', Object [(''available'', Integer (int (count_list os Available))),
          (''unavailable'', Integer (int (count_list os Unavailable))),
          (''purged'', Integer (int (count_list os Purged))),
          (''unknown'', Integer (int (count_list os Unknown)))])]"

subsection \<open>Comparison\<close>

record comparison =
  cmp_kind :: string
  cmp_status :: string
  cmp_uncertain :: "string list"

fun member_at :: "jvalue \<Rightarrow> string list \<Rightarrow> jvalue" where
  "member_at v [] = v"
| "member_at v (name # path) = member_at (or_else (get v name) Null) path"

definition same_json :: "jvalue \<Rightarrow> jvalue \<Rightarrow> bool" where
  "same_json x y \<longleftrightarrow> to_canonical x = to_canonical y"

definition compare_qualifiers :: "jvalue \<Rightarrow> jvalue \<Rightarrow> string + string list" where
  "compare_qualifiers qa qb =
     (case (qa, qb) of
        (Object ma, Object _) \<Rightarrow>
          if list_ex (\<lambda>(name, v). case get qb name of None \<Rightarrow> False | Some w \<Rightarrow> \<not> same_json v w) ma
          then Inl ''qualifiers_disjoint''
          else Inr (if same_json qa qb then [] else [''qualifiers''])
      | _ \<Rightarrow> Inr (if same_json qa qb then [] else [''qualifiers'']))"

definition trees :: "jvalue \<Rightarrow> (string \<times> string) list" where
  "trees basis =
     sort (map (\<lambda>r. (or_else (member_str r ''id'') [], or_else (member_str r ''tree'') [])) (items_in (Some basis) ''repositories''))"

definition differs :: "jvalue \<Rightarrow> jvalue \<Rightarrow> string \<Rightarrow> bool" where
  "differs ba bb name \<longleftrightarrow>
     (case (get ba name, get bb name) of (Some x, Some y) \<Rightarrow> \<not> same_json x y | _ \<Rightarrow> False)"

definition compare_basis :: "jvalue \<Rightarrow> jvalue \<Rightarrow> string + string list" where
  "compare_basis ba bb =
     (if is_object ba \<and> is_object bb then
        (let ta = trees ba; tb = trees bb in
         if list_ex (\<lambda>(i, tree). list_ex (\<lambda>(other, t). other = i \<and> t \<noteq> tree) tb) ta then Inl ''basis_disjoint''
         else if differs ba bb ''environment'' \<or> differs ba bb ''build'' then Inl ''basis_disjoint''
         else Inr (if ta = tb \<and> same_json (member_at ba [''environment'']) (member_at bb [''environment'']) \<and>
               same_json (member_at ba [''build'']) (member_at bb [''build'']) \<and>
               as_str (member_at ba [''completeness'']) = Some ''complete'' \<and>
               as_str (member_at bb [''completeness'']) = Some ''complete'' then [] else [''basis'']))
      else Inr [''basis''])"

definition known_validity :: "jvalue \<Rightarrow> (string \<times> string) option" where
  "known_validity r =
     (let validity = member_at r [''validity''] in
      case (member_str validity ''from'', member_str validity ''until'') of
        (Some f, Some u) \<Rightarrow> Some (f, u)
      | _ \<Rightarrow> None)"

definition compare_validity :: "jvalue \<Rightarrow> jvalue \<Rightarrow> string + string list" where
  "compare_validity a b =
     (case (known_validity a, known_validity b) of
        (Some (from_a, until_a), Some (from_b, until_b)) \<Rightarrow>
          if \<not> (from_a < until_b \<and> from_b < until_a) then Inl ''validity_disjoint'' else Inr []
      | _ \<Rightarrow> Inr [''validity''])"

definition compare_cardinality :: "jvalue \<Rightarrow> jvalue \<Rightarrow> string + string list" where
  "compare_cardinality ca cb =
     (if as_str ca = Some ''multiple'' \<or> as_str cb = Some ''multiple'' then Inl ''multiple_values_permitted''
      else Inr (if as_str ca = Some ''single'' \<and> as_str cb = Some ''single'' then [] else [''cardinality'']))"

definition drift :: "string \<Rightarrow> string \<Rightarrow> bool" where
  "drift p q \<longleftrightarrow> (p = ''normative'' \<and> q = ''observed'') \<or> (p = ''observed'' \<and> q = ''normative'')"

definition compare :: "jvalue \<Rightarrow> jvalue \<Rightarrow> string + comparison" where
  "compare a b =
     rbind (guard (same_json (member_at a [''statement'', ''subject'']) (member_at b [''statement'', ''subject''])) ''subject_differs'') (\<lambda>_.
     rbind (guard (same_json (member_at a [''statement'', ''predicate'']) (member_at b [''statement'', ''predicate''])) ''predicate_differs'') (\<lambda>_.
     rbind (guard (same_json (member_at a [''scope'', ''id'']) (member_at b [''scope'', ''id''])) ''scope_differs'') (\<lambda>_.
     rbind (compare_qualifiers (member_at a [''scope'', ''qualifiers'']) (member_at b [''scope'', ''qualifiers''])) (\<lambda>u1.
     rbind (compare_basis (member_at a [''basis'']) (member_at b [''basis''])) (\<lambda>u2.
     rbind (compare_validity a b) (\<lambda>u3.
     rbind (compare_cardinality (member_at a [''statement'', ''cardinality'']) (member_at b [''statement'', ''cardinality''])) (\<lambda>u4.
     rbind (guard (\<not> same_json (member_at a [''statement'', ''value'']) (member_at b [''statement'', ''value''])) ''values_equal'') (\<lambda>_.
     let p = or_else (as_str (member_at a [''plane''])) []; q = or_else (as_str (member_at b [''plane''])) [];
         uncertain = u1 @ u2 @ u3 @ u4 @ (if \<not> drift p q \<and> p \<noteq> q then [''plane''] else [])
     in Inr \<lparr>cmp_kind = (if drift p q then ''drift'' else ''conflict''),
             cmp_status = (if uncertain = [] then ''demonstrated'' else ''potential''),
             cmp_uncertain = uncertain\<rparr>))))))))"

subsection \<open>Applicability\<close>

definition find_repository :: "jvalue \<Rightarrow> jvalue \<Rightarrow> jvalue option" where
  "find_repository target name = find (\<lambda>r. get r ''id'' = Some name) (items_in (Some target) ''repositories'')"

definition observed_value :: "jvalue \<Rightarrow> string \<Rightarrow> jvalue \<Rightarrow> jvalue option" where
  "observed_value target knd name =
     (if knd = ''repository_tree'' then get_in (find_repository target name) ''tree''
      else if knd = ''dirty_snapshot'' then get_in (get_in (find_repository target name) ''dirty'') ''snapshot_digest''
      else if knd = ''environment_digest'' then get target ''environment''
      else None)"

definition finding_of :: "jvalue \<Rightarrow> string list \<Rightarrow> jvalue \<Rightarrow> string" where
  "finding_of target kinds condition =
     (let knd = or_else (member_str condition ''kind'') [] in
      if knd \<notin> set kinds then ''unsupported''
      else (case observed_value target knd (or_else (get condition ''repository'') Null) of
              None \<Rightarrow> ''missing_anchor''
            | Some v \<Rightarrow> if Some v = get condition ''expected'' then ''match'' else ''mismatch''))"

definition condition_findings :: "jvalue \<Rightarrow> jvalue \<Rightarrow> string list \<Rightarrow> jvalue list" where
  "condition_findings r target kinds =
     map (\<lambda>condition. Object [(''condition_id'', or_else (get condition ''condition_id'') Null),
           (''finding'', String (finding_of target kinds condition))])
       (items_in (Some r) ''conditions'')"

definition any_finding :: "jvalue list \<Rightarrow> string list \<Rightarrow> bool" where
  "any_finding findings names \<longleftrightarrow>
     list_ex (\<lambda>f. case member_str f ''finding'' of None \<Rightarrow> False | Some finding \<Rightarrow> finding \<in> set names) findings"

definition result_of :: "jvalue list \<Rightarrow> string" where
  "result_of findings =
     (if any_finding findings [''mismatch''] then ''invalid_for_target''
      else if any_finding findings [''missing_anchor'', ''unsupported''] then ''unknown''
      else if any_finding findings [''unchecked''] then ''needs_check''
      else if findings = [] then ''unknown''
      else ''applicable'')"

subsection \<open>Lineage does not depend on the order of the entries\<close>

lemma relation_commute: "relation a b = relation b a"
  by (auto simp: relation_def list_ex_iff)

lemma scan_against_eq:
  "scan_against a bs (d, s) = (d \<or> list_ex (\<lambda>b. relation a b = Disjoint) bs, s \<and> list_all (\<lambda>b. relation a b = Shared) bs)"
proof (induction bs arbitrary: d s)
  case (Cons b bs)
  show ?case by (cases "relation a b") (simp_all add: Cons)
qed simp

lemma scan_pairs_eq:
  "scan_pairs es (d, s) =
     (d \<or> \<not> sorted_wrt (\<lambda>a b. relation a b \<noteq> Disjoint) es, s \<and> sorted_wrt (\<lambda>a b. relation a b = Shared) es)"
  by (induction es arbitrary: d s) (auto simp: scan_against_eq list_ex_iff list_all_iff)

lemma sorted_wrt_mset:
  assumes "\<And>a b. P a b = P b a"
  shows "mset xs = mset ys \<Longrightarrow> sorted_wrt P xs = sorted_wrt P ys"
proof (induction xs arbitrary: ys)
  case (Cons x xs)
  then have "x \<in> set ys" by (metis list.set_intros(1) set_mset_mset)
  then obtain us vs where ys: "ys = us @ x # vs" by (meson split_list)
  then have m: "mset xs = mset (us @ vs)" using Cons.prems by simp
  have "sorted_wrt P ys = (sorted_wrt P (us @ vs) \<and> (\<forall>y \<in> set (us @ vs). P x y))"
    unfolding ys sorted_wrt_append using assms by auto
  also have "\<dots> = (sorted_wrt P xs \<and> (\<forall>y \<in> set xs. P x y))"
    using Cons.IH [OF m] mset_eq_setD [OF m] by simp
  finally show ?case by auto
qed simp

lemma lineage_rules:
  assumes "es \<noteq> []"
  shows "lineage es =
    (let some_disjoint = (\<not> sorted_wrt (\<lambda>a b. relation a b \<noteq> Disjoint) es);
         some_unknown = (\<exists>e \<in> set es. se_completeness e = ''unknown'')
     in if some_unknown \<and> \<not> some_disjoint then ''undetermined''
        else if \<exists>root. \<forall>e \<in> set es. root \<in> set (se_roots e) then ''single_lineage''
        else if some_disjoint then ''multiple_lineages''
        else if 2 \<le> length es \<and> sorted_wrt (\<lambda>a b. relation a b = Shared) es then ''overlapping_lineages''
        else ''undetermined'')"
proof -
  have "(\<exists>root \<in> set (se_roots (hd es)). \<forall>e \<in> set es. root \<in> set (se_roots e)) =
      (\<exists>root. \<forall>e \<in> set es. root \<in> set (se_roots e))"
    using hd_in_set [OF assms] by blast
  then show ?thesis unfolding lineage_def scan_pairs_eq by (simp add: list_ex_iff list_all_iff Let_def)
qed

lemma lineage_mset:
  assumes "mset es = mset es'" "es \<noteq> []"
  shows "lineage es = lineage es'"
proof -
  have ne: "es' \<noteq> []" and eq: "set es = set es'" "length es = length es'"
    using assms mset_eq_setD mset_eq_length by auto
  have w: "sorted_wrt (\<lambda>a b. relation a b \<noteq> Disjoint) es = sorted_wrt (\<lambda>a b. relation a b \<noteq> Disjoint) es'"
    "sorted_wrt (\<lambda>a b. relation a b = Shared) es = sorted_wrt (\<lambda>a b. relation a b = Shared) es'"
    by (rule sorted_wrt_mset [OF _ assms(1)], simp add: relation_commute)+
  show ?thesis unfolding lineage_rules [OF assms(2)] lineage_rules [OF ne] Let_def w eq ..
qed

lemma support_class_mset: "mset support = mset support' \<Longrightarrow> fst (support_class support) = fst (support_class support')"
  using lineage_mset [of "map support_entry_of support" "map support_entry_of support'"]
  by (auto simp: support_class_def Let_def)

lemma not_sorted_wrtD: "\<not> sorted_wrt P xs \<Longrightarrow> \<exists>a \<in> set xs. \<exists>b \<in> set xs. \<not> P a b"
  by (induction xs) auto

lemma multiple_lineagesD:
  assumes "fst (support_class support) = ''multiple_lineages''"
  shows "\<exists>a \<in> set (map support_entry_of support). \<exists>b \<in> set (map support_entry_of support).
    se_completeness a = ''complete'' \<and> se_completeness b = ''complete'' \<and>
    set (se_roots a) \<inter> set (se_roots b) = {} \<and> set (se_digests a) \<inter> set (se_digests b) = {}"
proof -
  let ?es = "map support_entry_of support"
  have ne: "?es \<noteq> []" using assms by (auto simp: support_class_def Let_def)
  then have "lineage ?es = ''multiple_lineages''" using assms by (auto simp: support_class_def Let_def)
  then have "\<not> sorted_wrt (\<lambda>a b. relation a b \<noteq> Disjoint) ?es"
    unfolding lineage_rules [OF ne] Let_def by (auto split: if_splits)
  then obtain a b where ab: "a \<in> set ?es" "b \<in> set ?es" and d: "relation a b = Disjoint"
    using not_sorted_wrtD by blast
  from d have "se_completeness a = ''complete'' \<and> se_completeness b = ''complete'' \<and>
    set (se_roots a) \<inter> set (se_roots b) = {} \<and> set (se_digests a) \<inter> set (se_digests b) = {}"
    unfolding relation_def list_ex_iff by (auto split: if_splits)
  with ab show ?thesis by blast
qed

subsection \<open>Comparison is symmetric\<close>

lemma same_json_simps: "same_json x x" "same_json x y = same_json y x"
  by (auto simp: same_json_def)

lemma compare_qualifiers_commute:
  assumes "in_domain qa" "in_domain qb"
  shows "compare_qualifiers qa qb = compare_qualifiers qb qa"
proof (cases "\<exists>ma mb. qa = Object ma \<and> qb = Object mb")
  case True
  then obtain ma mb where q: "qa = Object ma" "qb = Object mb" by blast
  have d: "distinct (map fst ma)" "distinct (map fst mb)" using assms q by simp_all
  have one: "list_ex (\<lambda>(name, v). case map_of mc name of None \<Rightarrow> False | Some w \<Rightarrow> \<not> same_json v w) md =
      (\<exists>name v w. map_of md name = Some v \<and> map_of mc name = Some w \<and> \<not> same_json v w)"
    if "distinct (map fst md)" for mc md :: "(string \<times> jvalue) list"
    using that by (fastforce simp: list_ex_iff split: option.splits)
  have "list_ex (\<lambda>(name, v). case map_of mb name of None \<Rightarrow> False | Some w \<Rightarrow> \<not> same_json v w) ma =
      list_ex (\<lambda>(name, v). case map_of ma name of None \<Rightarrow> False | Some w \<Rightarrow> \<not> same_json v w) mb"
    unfolding one [OF d(1)] one [OF d(2)] using same_json_simps(2) by blast
  then show ?thesis using q same_json_simps(2) [of qa qb] by (simp add: compare_qualifiers_def)
qed (auto simp: compare_qualifiers_def same_json_simps split: jvalue.splits)

lemma list_ex_swap:
  fixes xs ys :: "('i \<times> 't) list"
  shows "list_ex (\<lambda>(i, t). list_ex (\<lambda>(j, u). j = i \<and> u \<noteq> t) ys) xs = list_ex (\<lambda>(i, t). list_ex (\<lambda>(j, u). j = i \<and> u \<noteq> t) xs) ys"
proof -
  have "list_ex (\<lambda>(i, t). list_ex (\<lambda>(j, u). j = i \<and> u \<noteq> t) ys) xs = (\<exists>i t u. (i, t) \<in> set xs \<and> (i, u) \<in> set ys \<and> t \<noteq> u)"
    for xs ys :: "('i \<times> 't) list" unfolding list_ex_iff Bex_def split_paired_Ex split_conv by auto
  from this [of ys xs] this [of xs ys] show ?thesis by blast
qed

lemma differs_commute: "differs a b n = differs b a n"
  by (auto simp: differs_def same_json_simps split: option.splits)

lemma compare_basis_commute: "compare_basis a b = compare_basis b a"
  unfolding compare_basis_def Let_def list_ex_swap [of "trees b" "trees a"] differs_commute [of a]
    same_json_simps(2) [of "member_at a [''environment'']"] same_json_simps(2) [of "member_at a [''build'']"]
  by auto

lemma compare_validity_commute: "compare_validity a b = compare_validity b a"
  by (auto simp: compare_validity_def split: option.splits)

lemma compare_cardinality_commute: "compare_cardinality a b = compare_cardinality b a"
  by (auto simp: compare_cardinality_def)

lemma drift_commute: "drift p q = drift q p"
  by (auto simp: drift_def)

lemma in_domain_member_at: "in_domain v \<Longrightarrow> in_domain (member_at v path)"
proof (induction path arbitrary: v)
  case (Cons name path)
  have "in_domain (or_else (get v name) Null)"
    using Cons.prems in_domain_get by (auto simp: or_else_def split: option.splits)
  then show ?case using Cons.IH by simp
qed simp

lemma compare_commute:
  assumes "in_domain a" "in_domain b"
  shows "compare a b = compare b a"
proof -
  note eqs = same_json_simps(2) [of "member_at a p" "member_at b p" for p]
    compare_qualifiers_commute [OF in_domain_member_at [OF assms(1)] in_domain_member_at [OF assms(2)]]
    compare_basis_commute [of "member_at a p" "member_at b p" for p] compare_validity_commute [of a b]
    compare_cardinality_commute [of "member_at a p" "member_at b p" for p]
    drift_commute [of "or_else (as_str (member_at a p)) d" "or_else (as_str (member_at b p)) d" for p d]
    eq_commute [of "or_else (as_str (member_at a p)) d" "or_else (as_str (member_at b p)) d" for p d]
  show ?thesis unfolding compare_def Let_def by (simp only: eqs)
qed

subsection \<open>What a comparison and an evaluation establish\<close>

lemma any_finding_findings:
  "any_finding (condition_findings r target kinds) names \<longleftrightarrow>
     (\<exists>c \<in> set (items_in (Some r) ''conditions''). finding_of target kinds c \<in> set names)"
  by (simp add: any_finding_def condition_findings_def list_ex_iff member_str_def)

lemma finding_of_cases:
  "finding_of target kinds c \<in> {''unsupported'', ''missing_anchor'', ''match'', ''mismatch''}"
  by (simp add: finding_of_def Let_def split: option.split)

lemma finding_match:
  "finding_of target kinds c = ''match'' \<longleftrightarrow>
     or_else (member_str c ''kind'') [] \<in> set kinds \<and>
     (\<exists>v. observed_value target (or_else (member_str c ''kind'') []) (or_else (get c ''repository'') Null) = Some v \<and>
        get c ''expected'' = Some v)"
  by (auto simp: finding_of_def Let_def split: option.split)

lemma result_applicable:
  "result_of (condition_findings r target kinds) = ''applicable'' \<longleftrightarrow>
     items_in (Some r) ''conditions'' \<noteq> [] \<and>
     (\<forall>c \<in> set (items_in (Some r) ''conditions''). finding_of target kinds c = ''match'')"
proof -
  let ?cs = "items_in (Some r) ''conditions''"
  have nil: "condition_findings r target kinds = [] \<longleftrightarrow> ?cs = []" by (simp add: condition_findings_def)
  have "(\<forall>c \<in> set ?cs. finding_of target kinds c = ''match'') \<longleftrightarrow>
      \<not> any_finding (condition_findings r target kinds) [''mismatch''] \<and>
      \<not> any_finding (condition_findings r target kinds) [''missing_anchor'', ''unsupported'']"
    unfolding any_finding_findings using finding_of_cases [of target kinds] by fastforce
  moreover have "\<not> any_finding (condition_findings r target kinds) [''unchecked'']"
  proof -
    have "finding_of target kinds c \<noteq> ''unchecked''" for c using finding_of_cases [of target kinds c] by auto
    then show ?thesis unfolding any_finding_findings by simp
  qed
  ultimately show ?thesis unfolding result_of_def by (simp add: nil)
qed

lemma result_invalid:
  "result_of (condition_findings r target kinds) = ''invalid_for_target'' \<longleftrightarrow>
     (\<exists>c \<in> set (items_in (Some r) ''conditions''). finding_of target kinds c = ''mismatch'')"
  by (simp add: result_of_def any_finding_findings)

lemma compare_self: "\<exists>reason. compare a a = Inl reason"
  by (cases "compare_qualifiers (member_at a [''scope'', ''qualifiers'']) (member_at a [''scope'', ''qualifiers''])";
      cases "compare_basis (member_at a [''basis'']) (member_at a [''basis''])"; cases "compare_validity a a";
      cases "compare_cardinality (member_at a [''statement'', ''cardinality'']) (member_at a [''statement'', ''cardinality''])")
    (simp_all add: compare_def same_json_simps)

lemma compare_Inr:
  assumes "compare a b = Inr c"
  shows "same_json (member_at a [''statement'', ''subject'']) (member_at b [''statement'', ''subject''])"
    "same_json (member_at a [''statement'', ''predicate'']) (member_at b [''statement'', ''predicate''])"
    "same_json (member_at a [''scope'', ''id'']) (member_at b [''scope'', ''id''])"
    "\<not> same_json (member_at a [''statement'', ''value'']) (member_at b [''statement'', ''value''])"
    "as_str (member_at a [''statement'', ''cardinality'']) \<noteq> Some ''multiple''"
    "cmp_status c = ''demonstrated'' \<longleftrightarrow> cmp_uncertain c = []"
    "\<exists>u1 u2 u3 u4 u5. compare_qualifiers (member_at a [''scope'', ''qualifiers'']) (member_at b [''scope'', ''qualifiers'']) = Inr u1 \<and>
      compare_basis (member_at a [''basis'']) (member_at b [''basis'']) = Inr u2 \<and> compare_validity a b = Inr u3 \<and>
      compare_cardinality (member_at a [''statement'', ''cardinality'']) (member_at b [''statement'', ''cardinality'']) = Inr u4 \<and>
      cmp_uncertain c = u1 @ u2 @ u3 @ u4 @ u5"
  using assms unfolding compare_def Let_def
  by (auto simp: result_simps compare_cardinality_def split: if_splits)

lemma compare_qualifiers_certain: "compare_qualifiers qa qb = Inr [] \<Longrightarrow> same_json qa qb"
  by (auto simp: compare_qualifiers_def split: jvalue.splits if_splits)

lemma compare_basis_certain:
  "compare_basis ba bb = Inr [] \<Longrightarrow> trees ba = trees bb \<and> as_str (member_at ba [''completeness'']) = Some ''complete'' \<and>
     as_str (member_at bb [''completeness'']) = Some ''complete''"
  unfolding compare_basis_def Let_def by (simp split: if_splits)

lemma compare_validity_certain:
  "compare_validity a b = Inr [] \<Longrightarrow> \<exists>fa ua fb ub. known_validity a = Some (fa, ua) \<and> known_validity b = Some (fb, ub) \<and>
     fa < ub \<and> fb < ua"
  by (auto simp: compare_validity_def split: option.splits if_splits)

lemma demonstrated:
  assumes "compare a b = Inr c" "cmp_status c = ''demonstrated''"
  shows "same_json (member_at a [''scope'', ''qualifiers'']) (member_at b [''scope'', ''qualifiers''])"
    "trees (member_at a [''basis'']) = trees (member_at b [''basis''])"
    "\<exists>fa ua fb ub. known_validity a = Some (fa, ua) \<and> known_validity b = Some (fb, ub) \<and> fa < ub \<and> fb < ua"
proof -
  have "cmp_uncertain c = []" using compare_Inr(6) [OF assms(1)] assms(2) by simp
  then have "compare_qualifiers (member_at a [''scope'', ''qualifiers'']) (member_at b [''scope'', ''qualifiers'']) = Inr []"
    "compare_basis (member_at a [''basis'']) (member_at b [''basis'']) = Inr []" "compare_validity a b = Inr []"
    using compare_Inr(7) [OF assms(1)] by auto
  then show "same_json (member_at a [''scope'', ''qualifiers'']) (member_at b [''scope'', ''qualifiers''])"
    "trees (member_at a [''basis'']) = trees (member_at b [''basis''])"
    "\<exists>fa ua fb ub. known_validity a = Some (fa, ua) \<and> known_validity b = Some (fb, ub) \<and> fa < ub \<and> fb < ua"
    using compare_qualifiers_certain compare_basis_certain compare_validity_certain by blast+
qed

lemma availability_counts:
  "count_list os Available + count_list os Unavailable + count_list os Purged + count_list os Unknown = length os"
proof (induction os)
  case (Cons x os)
  then show ?case by (cases x) simp_all
qed simp

subsection \<open>Further facts\<close>

text \<open>
  The lineage class of a claim's support does not depend on the order of its entries, and
  multiple_lineages is said only when two entries with complete ancestry share no root and no
  digest.
\<close>

theorem lineage_ignores_order:
  assumes "mset support = mset support'"
  shows "fst (support_class support) = fst (support_class support') \<and>
    (fst (support_class support) = ''multiple_lineages'' \<longrightarrow>
      (\<exists>a \<in> set support. \<exists>b \<in> set support.
        completeness_of a = ''complete'' \<and> completeness_of b = ''complete'' \<and>
        set (se_roots (support_entry_of a)) \<inter> set (se_roots (support_entry_of b)) = {} \<and>
        set (se_digests (support_entry_of a)) \<inter> set (se_digests (support_entry_of b)) = {}))"
  using support_class_mset [OF assms] multiple_lineagesD [of support] by (auto simp: support_entry_of_def Let_def)

lemma lineage_ignores_order_witness:
  "fst (support_class [Null, Object []]) = fst (support_class [Object [], Null])"
  using lineage_ignores_order [of "[Null, Object []]" "[Object [], Null]"] by simp

text \<open>
  Comparing two revisions gives the same answer whichever is named first - the same refusal
  reason, kind, status and uncertain list - and a revision compared with itself is always refused.
\<close>

theorem comparison_is_symmetric:
  assumes "in_domain a" "in_domain b"
  shows "compare a b = compare b a \<and> (\<exists>reason. compare a a = Inl reason)"
  using compare_commute [OF assms] compare_self by blast

lemma comparison_is_symmetric_witness:
  "compare (Object [(''scope'', Null)]) Null = compare Null (Object [(''scope'', Null)])"
proof -
  have "text_ok ''scope''" by (rule text_ok_ascii) auto
  then show ?thesis using comparison_is_symmetric [of "Object [(''scope'', Null)]" Null] by simp
qed

subsection \<open>Properties\<close>

text \<open>
  C29. A conflict is called demonstrated only when structure settles everything: same subject,
  predicate, scope and qualifiers, the same trees, overlapping known intervals, and different
  values.
\<close>

theorem demonstrated_conflict:
  assumes "compare a b = Inr c" "cmp_status c = ''demonstrated''"
  shows "list_all (\<lambda>p. same_json (member_at a p) (member_at b p))
      [[''statement'', ''subject''], [''statement'', ''predicate''], [''scope'', ''id''], [''scope'', ''qualifiers'']] \<and>
    \<not> same_json (member_at a [''statement'', ''value'']) (member_at b [''statement'', ''value'']) \<and>
    trees (member_at a [''basis'']) = trees (member_at b [''basis'']) \<and>
    (\<exists>fa ua fb ub. known_validity a = Some (fa, ua) \<and> known_validity b = Some (fb, ub) \<and> fa < ub \<and> fb < ua)"
  using compare_Inr(1-4) [OF assms(1)] demonstrated [OF assms] by simp

definition example_revision :: "jvalue \<Rightarrow> jvalue" where
  "example_revision v =
     Object [(''statement'', Object [(''value'', v), (''cardinality'', String ''single'')]),
       (''basis'', Object [(''completeness'', String ''complete'')]),
       (''validity'', Object [(''from'', String ''a''), (''until'', String ''b'')])]"

lemma demonstrated_conflict_witness:
  "\<exists>c. compare (example_revision Null) (example_revision (Bool True)) = Inr c \<and>
     \<not> same_json (member_at (example_revision Null) [''statement'', ''value''])
         (member_at (example_revision (Bool True)) [''statement'', ''value''])"
proof -
  obtain c where c: "compare (example_revision Null) (example_revision (Bool True)) = Inr c" "cmp_status c = ''demonstrated''"
    by (simp add: example_revision_def compare_def compare_qualifiers_def compare_basis_def compare_validity_def
        compare_cardinality_def same_json_def trees_def items_in_def get_in_def or_else_def differs_def known_validity_def
        member_str_def drift_def Let_def)
  show ?thesis using demonstrated_conflict [OF c] c(1) by blast
qed


end
