(* ===== verification/Evaluator.thy ===== *)
theory Evaluator
  imports Prelude
begin

text \<open>
  The dependency evaluator, \<open>cbr-memory/src/evaluator.rs\<close>: inputs with a durability, memos that
  record what they read, validation by revision stamps, and recomputation with early cutoff. The
  tables are maps from keys. A registered function is a \<open>computation\<close>: it reads keys one after
  another, passes on the error of a read that fails, and may read something the graph does not
  record, which is the argument \<open>w\<close> here. Recursion takes fuel; \<open>None\<close> is running out of it.
\<close>

subsection \<open>The store\<close>

datatype durability = Low | Medium | High

fun level :: "durability \<Rightarrow> nat" where
  "level Low = 0"
| "level Medium = 1"
| "level High = 2"

instantiation durability :: linorder
begin

definition less_eq_durability :: "durability \<Rightarrow> durability \<Rightarrow> bool" where
  "less_eq_durability a b \<longleftrightarrow> level a \<le> level b"

definition less_durability :: "durability \<Rightarrow> durability \<Rightarrow> bool" where
  "less_durability a b \<longleftrightarrow> level a < level b"

instance
proof
  fix a b :: durability
  show "a \<le> b \<Longrightarrow> b \<le> a \<Longrightarrow> a = b" by (cases a; cases b; simp add: less_eq_durability_def)
qed (auto simp: less_eq_durability_def less_durability_def)

end

record input =
  in_value :: string
  in_changed_at :: nat
  in_durability :: durability

record memo =
  m_value :: string
  m_changed_at :: nat
  m_verified_at :: nat
  m_durability :: durability
  m_untracked :: bool
  m_dependencies :: "string list"

record store =
  st_inputs :: "string \<Rightarrow> input option"
  st_memos :: "string \<Rightarrow> memo option"
  st_revision :: nat
  st_changed_at_or_above :: "durability \<Rightarrow> nat"

datatype eval_error = Cycle "string list" | UnknownFunction string | FunctionFailed string

datatype computation =
    Return string
  | Fail string
  | Read string "string \<Rightarrow> computation"
  | Untracked "string \<Rightarrow> computation"

type_synonym registry = "string \<Rightarrow> (string \<Rightarrow> computation) option"

definition split_key :: "string \<Rightarrow> string \<times> string" where
  "split_key k = (case split_once CHR '':'' k of None \<Rightarrow> (k, []) | Some p \<Rightarrow> p)"

definition derived_key :: "string \<Rightarrow> string \<Rightarrow> string" where
  "derived_key name argument = name @ '':'' @ argument"

definition empty_store :: store where
  "empty_store = \<lparr>st_inputs = (\<lambda>_. None), st_memos = (\<lambda>_. None), st_revision = 0, st_changed_at_or_above = (\<lambda>_. 0)\<rparr>"

definition set_input :: "store \<Rightarrow> string \<Rightarrow> string \<Rightarrow> durability \<Rightarrow> bool \<times> store" where
  "set_input st k v dur =
     (let existing = st_inputs st k in
      if (case existing of None \<Rightarrow> False | Some i \<Rightarrow> in_value i = v \<and> in_durability i = dur) then (False, st)
      else
        (let revision = st_revision st + 1;
             announced = max dur (case existing of None \<Rightarrow> Low | Some i \<Rightarrow> in_durability i)
         in (True, st\<lparr>st_revision := revision,
               st_inputs := (st_inputs st)(k \<mapsto> \<lparr>in_value = v, in_changed_at = revision, in_durability = dur\<rparr>),
               st_changed_at_or_above :=
                 (\<lambda>l. if level l \<le> level announced then revision else st_changed_at_or_above st l)\<rparr>)))"

subsection \<open>One evaluation\<close>

record session =
  ss_store :: store
  ss_stack :: "string list"
  ss_settled :: "string list"

record read_frame =
  fr_dependencies :: "string list"
  fr_untracked :: bool

type_synonym fetcher = "session \<Rightarrow> string \<Rightarrow> ((eval_error + string) \<times> session) option"

definition record_read :: "string \<Rightarrow> read_frame \<Rightarrow> read_frame" where
  "record_read k f = (if k \<in> set (fr_dependencies f) then f else f\<lparr>fr_dependencies := fr_dependencies f @ [k]\<rparr>)"

text \<open>A function run in a session: \<open>read\<close> records the edge, then fetches.\<close>

primrec run_computation ::
    "fetcher \<Rightarrow> string \<Rightarrow> computation \<Rightarrow> session \<Rightarrow> read_frame \<Rightarrow> ((eval_error + string) \<times> session \<times> read_frame) option" where
  "run_computation fetch w (Return v) = (\<lambda>s f. Some (Inr v, s, f))"
| "run_computation fetch w (Fail reason) = (\<lambda>s f. Some (Inl (FunctionFailed reason), s, f))"
| "run_computation fetch w (Read k next) = (\<lambda>s f.
     (case fetch s k of
        None \<Rightarrow> None
      | Some (Inl e, s') \<Rightarrow> Some (Inl e, s', record_read k f)
      | Some (Inr v, s') \<Rightarrow> run_computation fetch w (next v) s' (record_read k f)))"
| "run_computation fetch w (Untracked next) = (\<lambda>s f. run_computation fetch w (next w) s (f\<lparr>fr_untracked := True\<rparr>))"

definition memo_of :: "session \<Rightarrow> string \<Rightarrow> memo option" where
  "memo_of s k = st_memos (ss_store s) k"

definition put_memo :: "session \<Rightarrow> string \<Rightarrow> memo \<Rightarrow> session" where
  "put_memo s k m = s\<lparr>ss_store := (ss_store s)\<lparr>st_memos := (st_memos (ss_store s))(k \<mapsto> m)\<rparr>\<rparr>"

definition settle_key :: "session \<Rightarrow> string \<Rightarrow> session" where
  "settle_key s k = s\<lparr>ss_settled := ss_settled s @ [k]\<rparr>"

text \<open>\<open>mark_verified\<close> and the push on \<open>settled\<close> that follows it.\<close>

definition mark_verified :: "session \<Rightarrow> string \<Rightarrow> memo \<Rightarrow> session" where
  "mark_verified s k m = settle_key (put_memo s k (m\<lparr>m_verified_at := st_revision (ss_store s)\<rparr>)) k"

definition changed_after :: "fetcher \<Rightarrow> session \<Rightarrow> string \<Rightarrow> nat \<Rightarrow> ((eval_error + bool) \<times> session) option" where
  "changed_after fetch s k since =
     (case st_inputs (ss_store s) k of
        Some i \<Rightarrow> Some (Inr (in_changed_at i > since), s)
      | None \<Rightarrow>
          (case fetch s k of
             None \<Rightarrow> None
           | Some (Inl e, s') \<Rightarrow> Some (Inl e, s')
           | Some (Inr _, s') \<Rightarrow>
               (case memo_of s' k of
                  None \<Rightarrow> Some (Inl (FunctionFailed (''no memo for '' @ k @ '' after fetching it'')), s')
                | Some m \<Rightarrow> Some (Inr (m_changed_at m > since), s'))))"

text \<open>The deep walk: whether some edge changed, in the order the edges were read.\<close>

fun any_changed :: "fetcher \<Rightarrow> session \<Rightarrow> string list \<Rightarrow> nat \<Rightarrow> ((eval_error + bool) \<times> session) option" where
  "any_changed fetch s [] since = Some (Inr False, s)"
| "any_changed fetch s (d # ds) since =
     (case changed_after fetch s d since of
        None \<Rightarrow> None
      | Some (Inl e, s') \<Rightarrow> Some (Inl e, s')
      | Some (Inr True, s') \<Rightarrow> Some (Inr True, s')
      | Some (Inr False, s') \<Rightarrow> any_changed fetch s' ds since)"

definition validate :: "fetcher \<Rightarrow> session \<Rightarrow> string \<Rightarrow> memo \<Rightarrow> ((eval_error + bool) \<times> session) option" where
  "validate fetch s k m =
     (if m_verified_at m = st_revision (ss_store s) \<or> k \<in> set (ss_settled s) then Some (Inr True, s)
      else if m_untracked m then Some (Inr False, s)
      else if st_changed_at_or_above (ss_store s) (m_durability m) \<le> m_verified_at m
      then Some (Inr True, mark_verified s k m)
      else (case any_changed fetch s (m_dependencies m) (m_verified_at m) of
              None \<Rightarrow> None
            | Some (Inl e, s') \<Rightarrow> Some (Inl e, s')
            | Some (Inr True, s') \<Rightarrow> Some (Inr False, s')
            | Some (Inr False, s') \<Rightarrow>
                Some (Inr True, (case memo_of s' k of None \<Rightarrow> settle_key s' k | Some now \<Rightarrow> mark_verified s' k now))))"

definition durability_of :: "session \<Rightarrow> string \<Rightarrow> durability" where
  "durability_of s k =
     (case st_inputs (ss_store s) k of
        Some i \<Rightarrow> in_durability i
      | None \<Rightarrow> (case memo_of s k of Some m \<Rightarrow> m_durability m | None \<Rightarrow> Low))"

definition frame_durability :: "session \<Rightarrow> read_frame \<Rightarrow> durability" where
  "frame_durability s f =
     (if fr_untracked f then Low else fold (\<lambda>d acc. min acc (durability_of s d)) (fr_dependencies f) High)"

definition memo_after :: "session \<Rightarrow> memo option \<Rightarrow> string \<Rightarrow> read_frame \<Rightarrow> memo" where
  "memo_after s previous v f =
     (let dur = frame_durability s f;
          backdate = (case previous of None \<Rightarrow> False | Some old \<Rightarrow> m_value old = v \<and> dur \<ge> m_durability old)
      in \<lparr>m_value = v,
          m_changed_at = (case previous of
             Some old \<Rightarrow> if backdate then m_changed_at old else st_revision (ss_store s)
           | None \<Rightarrow> st_revision (ss_store s)),
          m_verified_at = st_revision (ss_store s), m_durability = dur,
          m_untracked = fr_untracked f, m_dependencies = fr_dependencies f\<rparr>)"

definition execute :: "registry \<Rightarrow> string \<Rightarrow> fetcher \<Rightarrow> fetcher" where
  "execute F w fetch s k =
     (let (name, argument) = split_key k in
      case F name of
        None \<Rightarrow> Some (Inl (UnknownFunction name), s)
      | Some f \<Rightarrow>
          (let previous = memo_of s k in
           case run_computation fetch w (f argument) (s\<lparr>ss_stack := ss_stack s @ [k]\<rparr>)
                  \<lparr>fr_dependencies = [], fr_untracked = False\<rparr> of
             None \<Rightarrow> None
           | Some (res, s', fr) \<Rightarrow>
               (let s1 = s'\<lparr>ss_stack := butlast (ss_stack s')\<rparr> in
                case res of
                  Inl e \<Rightarrow> Some (Inl e, s1)
                | Inr v \<Rightarrow> Some (Inr v, settle_key (put_memo s1 k (memo_after s1 previous v fr)) k))))"

fun fetch_key :: "registry \<Rightarrow> string \<Rightarrow> nat \<Rightarrow> fetcher" where
  "fetch_key F w 0 s k = None"
| "fetch_key F w (Suc n) s k =
     (case st_inputs (ss_store s) k of
        Some i \<Rightarrow> Some (Inr (in_value i), s)
      | None \<Rightarrow>
          if k \<in> set (ss_stack s) then Some (Inl (Cycle (ss_stack s @ [k])), s)
          else (case memo_of s k of
                  None \<Rightarrow> execute F w (fetch_key F w n) s k
                | Some m \<Rightarrow>
                    (case validate (fetch_key F w n) s k m of
                       None \<Rightarrow> None
                     | Some (Inl e, s') \<Rightarrow> Some (Inl e, s')
                     | Some (Inr True, s') \<Rightarrow> Some (Inr (m_value m), s')
                     | Some (Inr False, s') \<Rightarrow> execute F w (fetch_key F w n) s' k)))"

definition evaluate :: "registry \<Rightarrow> string \<Rightarrow> nat \<Rightarrow> store \<Rightarrow> string \<Rightarrow> ((eval_error + string) \<times> store) option" where
  "evaluate F w fuel st k =
     map_option (\<lambda>(res, s). (res, ss_store s))
       (fetch_key F w fuel \<lparr>ss_store = st, ss_stack = [], ss_settled = []\<rparr> k)"

end
