(* ===== verification/Evaluator_Refinement.thy ===== *)
theory Evaluator_Refinement
  imports Evaluator "HOL-Library.Sublist"
begin

text \<open>
  The incremental evaluator computes what evaluation from scratch computes. The reference is
  \<open>from_scratch\<close>, which keeps no memo at all. The proof carries the history of the inputs as a ghost
  (\<open>history\<close>): which value every key denotes at every revision and how durable a change each revision
  announced. The invariant \<open>good\<close> says that a memo is right at the revision it was verified at, that
  nothing less durable than the memo is below it, and, for every recorded edge, how the two memos'
  stamps relate (\<open>edge_ok\<close>).
\<close>

subsection \<open>Evaluation from scratch\<close>

definition new_frame :: read_frame where
  "new_frame = \<lparr>fr_dependencies = [], fr_untracked = False\<rparr>"

primrec trace ::
    "(string \<Rightarrow> eval_error + string) \<Rightarrow> string \<Rightarrow> computation \<Rightarrow> read_frame \<Rightarrow> (eval_error + string) \<times> read_frame" where
  "trace D w (Return v) = (\<lambda>f. (Inr v, f))"
| "trace D w (Fail reason) = (\<lambda>f. (Inl (FunctionFailed reason), f))"
| "trace D w (Read k cont) = (\<lambda>f.
     (case D k of
        Inl e \<Rightarrow> (Inl e, record_read k f)
      | Inr v \<Rightarrow> trace D w (cont v) (record_read k f)))"
| "trace D w (Untracked cont) = (\<lambda>f. trace D w (cont w) (f\<lparr>fr_untracked := True\<rparr>))"

fun from_scratch :: "registry \<Rightarrow> (string \<Rightarrow> string option) \<Rightarrow> string \<Rightarrow> nat \<Rightarrow> string \<Rightarrow> eval_error + string" where
  "from_scratch F I w 0 k = Inl (Cycle [k])"
| "from_scratch F I w (Suc n) k =
     (case I k of
        Some v \<Rightarrow> Inr v
      | None \<Rightarrow>
          (case F (fst (split_key k)) of
             None \<Rightarrow> Inl (UnknownFunction (fst (split_key k)))
           | Some f \<Rightarrow> fst (trace (from_scratch F I w n) w (f (snd (split_key k))) new_frame)))"

text \<open>The derivations are a DAG: every key a function reads ranks below the key being computed.\<close>

primrec reads_below :: "(string \<Rightarrow> nat) \<Rightarrow> nat \<Rightarrow> computation \<Rightarrow> bool" where
  "reads_below rk n (Return v) = True"
| "reads_below rk n (Fail reason) = True"
| "reads_below rk n (Read k cont) = (rk k < n \<and> (\<forall>v. reads_below rk n (cont v)))"
| "reads_below rk n (Untracked cont) = (\<forall>v. reads_below rk n (cont v))"

definition ranked :: "registry \<Rightarrow> (string \<Rightarrow> nat) \<Rightarrow> bool" where
  "ranked F rk \<longleftrightarrow>
     (\<forall>k f. F (fst (split_key k)) = Some f \<longrightarrow> reads_below rk (rk k) (f (snd (split_key k))))"

lemma rankedD: "ranked F rk \<Longrightarrow> F (fst (split_key k)) = Some f \<Longrightarrow> reads_below rk (rk k) (f (snd (split_key k)))"
  by (simp add: ranked_def)

subsection \<open>Traces\<close>

lemma record_read_deps [simp]: "set (fr_dependencies (record_read k f)) = insert k (set (fr_dependencies f))"
  by (auto simp: record_read_def)

lemma record_read_untracked [simp]: "fr_untracked (record_read k f) = fr_untracked f"
  by (simp add: record_read_def)

lemma trace_prefix: "prefix (fr_dependencies f) (fr_dependencies (snd (trace D w c f)))"
proof (induction c arbitrary: f)
  case (Read k cont)
  have p: "prefix (fr_dependencies f) (fr_dependencies (record_read k f))"
    by (simp add: record_read_def)
  show ?case
  proof (cases "D k")
    case (Inr v)
    then show ?thesis using Read.IH[of "cont v" "record_read k f", OF rangeI] p by (auto intro: prefix_order.trans)
  qed (simp add: p)
next
  case (Untracked cont)
  show ?case using Untracked.IH[of "cont w" "f\<lparr>fr_untracked := True\<rparr>", OF rangeI] by simp
qed simp_all

lemma trace_deps_mono: "set (fr_dependencies f) \<subseteq> set (fr_dependencies (snd (trace D w c f)))"
  by (rule set_mono_prefix[OF trace_prefix])

lemma trace_untracked_mono: "fr_untracked f \<Longrightarrow> fr_untracked (snd (trace D w c f))"
  by (induction c arbitrary: f) (auto split: sum.split)

lemma trace_cong:
  assumes "\<forall>d \<in> set (fr_dependencies (snd (trace D w c f))). D' d = D d"
    and "fr_untracked (snd (trace D w c f)) \<longrightarrow> w' = w"
  shows "trace D' w' c f = trace D w c f"
  using assms
proof (induction c arbitrary: f)
  case (Read k cont)
  have k: "k \<in> set (fr_dependencies (snd (trace D w (Read k cont) f)))"
    using trace_deps_mono[of "record_read k f"] by (auto split: sum.split)
  then have same: "D' k = D k" using Read.prems(1) by blast
  show ?case
  proof (cases "D k")
    case (Inr v)
    show ?thesis using Read.IH[of "cont v" "record_read k f", OF rangeI] Read.prems same Inr by simp
  qed (simp add: same)
next
  case (Untracked cont)
  have u: "fr_untracked (snd (trace D w (cont w) (f\<lparr>fr_untracked := True\<rparr>)))"
    by (rule trace_untracked_mono) simp
  then have "w' = w" using Untracked.prems(2) by simp
  then show ?case using Untracked.IH[of "cont w" "f\<lparr>fr_untracked := True\<rparr>", OF rangeI] Untracked.prems by simp
qed simp_all

lemma trace_cong_below:
  "reads_below rk n c \<Longrightarrow> (\<And>d. rk d < n \<Longrightarrow> D' d = D d) \<Longrightarrow> trace D' w c f = trace D w c f"
  by (induction c arbitrary: f) (auto split: sum.split)

lemma trace_deps_below:
  "reads_below rk n c \<Longrightarrow> \<forall>d \<in> set (fr_dependencies f). rk d < n \<Longrightarrow>
     \<forall>d \<in> set (fr_dependencies (snd (trace D w c f))). rk d < n"
proof (induction c arbitrary: f)
  case (Read k cont)
  show ?case
  proof (cases "D k")
    case (Inr v)
    then show ?thesis using Read.IH[of "cont v" "record_read k f", OF rangeI] Read.prems by simp
  qed (use Read.prems in simp)
next
  case (Untracked cont)
  show ?case using Untracked.IH[of "cont w" "f\<lparr>fr_untracked := True\<rparr>", OF rangeI] Untracked.prems by simp
qed simp_all

text \<open>
  A successful trace replayed with other values: as long as the reads before \<open>d\<close> have kept their
  value, the replay reads \<open>d\<close> next, and fails as \<open>d\<close> does.
\<close>

lemma trace_replay_error:
  assumes "trace D w c f = (Inr v, f')" "\<not> fr_untracked f'"
    and "fr_dependencies f' = pre @ d # post" "prefix (fr_dependencies f) pre"
    and "\<forall>x \<in> set pre. D' x = D x" "D' d = Inl e"
  shows "fst (trace D' w' c f) = Inl e"
  using assms
proof (induction c arbitrary: f)
  case (Return x)
  then show ?case by (auto simp: prefix_def)
next
  case (Read k cont)
  obtain u where u: "D k = Inr u" "trace D w (cont u) (record_read k f) = (Inr v, f')"
    using Read.prems(1) by (auto split: sum.splits)
  have p: "prefix (fr_dependencies (record_read k f)) (pre @ d # post)"
    using trace_prefix[of "record_read k f" D w "cont u"] u(2) Read.prems(3) by simp
  show ?case
  proof (cases "prefix (fr_dependencies (record_read k f)) pre")
    case True
    then have "k \<in> set pre" using set_mono_prefix[OF True] by simp
    then have "D' k = Inr u" using Read.prems(5) u(1) by simp
    then show ?thesis
      using Read.IH[of "cont u" "record_read k f", OF rangeI] u(2) Read.prems(2,3,5,6) True by simp
  next
    case False
    then have new: "fr_dependencies (record_read k f) = fr_dependencies f @ [k]"
      using Read.prems(4) by (auto simp: record_read_def split: if_splits)
    obtain q where q: "pre = fr_dependencies f @ q" using Read.prems(4) by (auto simp: prefix_def)
    have "k = d"
    proof (cases q)
      case Nil
      then show ?thesis using p new q by (auto simp: prefix_def)
    next
      case (Cons y ys)
      then show ?thesis using p new q False by (auto simp: prefix_def)
    qed
    then show ?thesis using Read.prems(6) by simp
  qed
next
  case (Untracked cont)
  have "fr_untracked (snd (trace D w (cont w) (f\<lparr>fr_untracked := True\<rparr>)))"
    by (rule trace_untracked_mono) simp
  then show ?case using Untracked.prems(1,2) by simp
qed simp

lemma from_scratch_fuel:
  assumes "ranked F rk" "rk k < n" "rk k < m"
  shows "from_scratch F I w n k = from_scratch F I w m k"
  using assms(2,3)
proof (induction n arbitrary: k m)
  case (Suc n)
  obtain m' where m: "m = Suc m'" using Suc.prems(2) by (cases m) auto
  have "trace (from_scratch F I w n) w (f (snd (split_key k))) new_frame =
        trace (from_scratch F I w m') w (f (snd (split_key k))) new_frame"
    if "F (fst (split_key k)) = Some f" for f
    by (rule trace_cong_below[OF rankedD[OF assms(1) that]], rule Suc.IH) (use Suc.prems m in simp_all)
  then show ?case by (simp add: m split: option.split)
qed simp

subsection \<open>The history of a store\<close>

record history =
  h_in :: "nat \<Rightarrow> string \<Rightarrow> (string \<times> durability) option"
  h_level :: "nat \<Rightarrow> durability"
  h_world :: "nat \<Rightarrow> string"
  h_value :: "nat \<Rightarrow> string \<Rightarrow> eval_error + string"

definition registered :: "registry \<Rightarrow> string \<Rightarrow> bool" where
  "registered F k \<longleftrightarrow> F (fst (split_key k)) \<noteq> None"

definition traced :: "registry \<Rightarrow> history \<Rightarrow> nat \<Rightarrow> string \<Rightarrow> (eval_error + string) \<times> read_frame" where
  "traced F G r k =
     trace (h_value G r) (h_world G r) ((the (F (fst (split_key k)))) (snd (split_key k))) new_frame"

definition denotes :: "registry \<Rightarrow> history \<Rightarrow> bool" where
  "denotes F G \<longleftrightarrow> (\<forall>r k. h_value G r k =
     (case h_in G r k of
        Some p \<Rightarrow> Inr (fst p)
      | None \<Rightarrow> (if registered F k then fst (traced F G r k) else Inl (UnknownFunction (fst (split_key k))))))"

text \<open>No change as durable as \<open>L\<close> was announced after \<open>a\<close>, up to \<open>b\<close>.\<close>

definition quiet :: "history \<Rightarrow> durability \<Rightarrow> nat \<Rightarrow> nat \<Rightarrow> bool" where
  "quiet G L a b \<longleftrightarrow> (\<forall>q. a < q \<longrightarrow> q \<le> b \<longrightarrow> \<not> L \<le> h_level G q)"

lemma Low_least [simp]: "Low \<le> L"
  by (simp add: less_eq_durability_def)

lemma High_greatest [simp]: "L \<le> High"
  by (cases L) (simp_all add: less_eq_durability_def)

lemma quiet_empty [simp]: "b \<le> a \<Longrightarrow> quiet G L a b"
  by (simp add: quiet_def)

lemma quiet_Low: "quiet G Low a b \<Longrightarrow> b \<le> a"
  unfolding quiet_def by (metis Low_least leI order_refl)

lemma quiet_up: "quiet G L a b \<Longrightarrow> L \<le> L' \<Longrightarrow> quiet G L' a b"
  unfolding quiet_def by (meson order_trans)

lemma quiet_sub: "quiet G L a b \<Longrightarrow> a \<le> a' \<Longrightarrow> b' \<le> b \<Longrightarrow> quiet G L a' b'"
  by (simp add: quiet_def)

lemma quiet_join: "quiet G L a b \<Longrightarrow> quiet G L b' c \<Longrightarrow> b' \<le> b \<Longrightarrow> quiet G L a c"
  unfolding quiet_def by (meson le_less_trans not_less)

text \<open>Everything \<open>k\<close> rests on at revision \<open>r\<close>, inputs and memos alike, is at least as durable as \<open>L\<close>.\<close>

inductive solid :: "registry \<Rightarrow> history \<Rightarrow> nat \<Rightarrow> durability \<Rightarrow> string \<Rightarrow> bool"
  for F :: registry and G :: history and r :: nat and L :: durability where
  solid_input: "h_in G r k = Some (v, d) \<Longrightarrow> L \<le> d \<Longrightarrow> solid F G r L k"
| solid_derived: "h_in G r k = None \<Longrightarrow> registered F k \<Longrightarrow> traced F G r k = (Inr v, f) \<Longrightarrow>
     (fr_untracked f \<longrightarrow> L = Low) \<Longrightarrow> \<forall>d \<in> set (fr_dependencies f). solid F G r L d \<Longrightarrow> solid F G r L k"

inductive_cases solidE: "solid F G r L k"

lemma solid_down: "solid F G r L k \<Longrightarrow> L' \<le> L \<Longrightarrow> solid F G r L' k"
proof (induction rule: solid.induct)
  case (solid_input k v d)
  then show ?case by (meson order_trans solid.solid_input)
next
  case (solid_derived k v f)
  have "fr_untracked f \<longrightarrow> L' = Low"
    using solid_derived.hyps(4) solid_derived.prems by (auto intro: order_antisym)
  moreover have "\<forall>d \<in> set (fr_dependencies f). solid F G r L' d"
    using solid_derived.IH solid_derived.prems by simp
  ultimately show ?case
    by (rule solid.solid_derived[OF solid_derived.hyps(1-3)])
qed

text \<open>How the input table relates to the history.\<close>

definition inputs_ok :: "registry \<Rightarrow> history \<Rightarrow> store \<Rightarrow> bool" where
  "inputs_ok F G st \<longleftrightarrow>
     (\<forall>k. h_in G (st_revision st) k = map_option (\<lambda>i. (in_value i, in_durability i)) (st_inputs st k)) \<and>
     (\<forall>k i. st_inputs st k = Some i \<longrightarrow> in_changed_at i \<le> st_revision st \<and>
        (\<forall>r. in_changed_at i \<le> r \<longrightarrow> r \<le> st_revision st \<longrightarrow> h_in G r k = h_in G (st_revision st) k)) \<and>
     (\<forall>r k v d L. r \<le> st_revision st \<longrightarrow> h_in G r k = Some (v, d) \<longrightarrow> L \<le> d \<longrightarrow>
        quiet G L r (st_revision st) \<longrightarrow> h_in G (st_revision st) k = Some (v, d)) \<and>
     (\<forall>r k. r \<le> st_revision st \<longrightarrow> h_in G r k \<noteq> None \<longrightarrow> \<not> registered F k) \<and>
     (\<forall>L. quiet G L (st_changed_at_or_above st L) (st_revision st) \<and>
        st_changed_at_or_above st L \<le> st_revision st \<and>
        (st_changed_at_or_above st L = 0 \<or> L \<le> h_level G (st_changed_at_or_above st L)))"

lemma inputs_okD:
  assumes "inputs_ok F G st"
  shows "h_in G (st_revision st) k = map_option (\<lambda>i. (in_value i, in_durability i)) (st_inputs st k)"
    and "st_inputs st k = Some i \<Longrightarrow> in_changed_at i \<le> st_revision st"
    and "st_inputs st k = Some i \<Longrightarrow> in_changed_at i \<le> r \<Longrightarrow> r \<le> st_revision st \<Longrightarrow>
           h_in G r k = h_in G (st_revision st) k"
    and "h_in G r k = Some (v, d) \<Longrightarrow> r \<le> st_revision st \<Longrightarrow> L \<le> d \<Longrightarrow> quiet G L r (st_revision st) \<Longrightarrow>
           h_in G (st_revision st) k = Some (v, d)"
    and "registered F k \<Longrightarrow> r \<le> st_revision st \<Longrightarrow> h_in G r k = None"
    and "quiet G L (st_changed_at_or_above st L) (st_revision st)"
    and "st_changed_at_or_above st L = 0 \<or> L \<le> h_level G (st_changed_at_or_above st L)"
    and "st_changed_at_or_above st L \<le> st_revision st"
proof -
  note ok = assms[unfolded inputs_ok_def]
  note c1 = ok[THEN conjunct1] and r1 = ok[THEN conjunct2]
  note c2 = r1[THEN conjunct1] and r2 = r1[THEN conjunct2]
  note c3 = r2[THEN conjunct1] and r3 = r2[THEN conjunct2]
  note c4 = r3[THEN conjunct1] and c5 = r3[THEN conjunct2]
  show "h_in G (st_revision st) k = map_option (\<lambda>i. (in_value i, in_durability i)) (st_inputs st k)"
    by (rule c1[rule_format])
  show "st_inputs st k = Some i \<Longrightarrow> in_changed_at i \<le> st_revision st"
    by (rule c2[rule_format, THEN conjunct1])
  show "st_inputs st k = Some i \<Longrightarrow> in_changed_at i \<le> r \<Longrightarrow> r \<le> st_revision st \<Longrightarrow>
          h_in G r k = h_in G (st_revision st) k"
    by (rule c2[rule_format, THEN conjunct2, rule_format])
  show "h_in G r k = Some (v, d) \<Longrightarrow> r \<le> st_revision st \<Longrightarrow> L \<le> d \<Longrightarrow> quiet G L r (st_revision st) \<Longrightarrow>
          h_in G (st_revision st) k = Some (v, d)"
    by (rule c3[rule_format])
  show "registered F k \<Longrightarrow> r \<le> st_revision st \<Longrightarrow> h_in G r k = None"
    using c4[rule_format, of r k] by (cases "h_in G r k") simp_all
  show "quiet G L (st_changed_at_or_above st L) (st_revision st)"
    "st_changed_at_or_above st L = 0 \<or> L \<le> h_level G (st_changed_at_or_above st L)"
    "st_changed_at_or_above st L \<le> st_revision st"
    using c5[rule_format, of L] by simp_all
qed

lemma inputs_ok_cong:
  "st_inputs st' = st_inputs st \<Longrightarrow> st_revision st' = st_revision st \<Longrightarrow>
   st_changed_at_or_above st' = st_changed_at_or_above st \<Longrightarrow> inputs_ok F G st' = inputs_ok F G st"
  by (simp only: inputs_ok_def)

lemma not_quiet_iff:
  assumes "inputs_ok F G st"
  shows "\<not> quiet G L v (st_revision st) \<longleftrightarrow> v < st_changed_at_or_above st L"
proof
  assume "\<not> quiet G L v (st_revision st)"
  then show "v < st_changed_at_or_above st L"
    using quiet_sub[OF inputs_okD(6)[OF assms, of L], of v] not_less by blast
next
  assume "v < st_changed_at_or_above st L"
  then show "\<not> quiet G L v (st_revision st)"
    using inputs_okD(7,8)[OF assms, of L] unfolding quiet_def by force
qed

text \<open>What is solid and has seen no announcement denotes what it denoted.\<close>

lemma solid_same:
  assumes "denotes F G" "inputs_ok F G st"
  shows "solid F G r L k \<Longrightarrow> r \<le> st_revision st \<Longrightarrow> quiet G L r (st_revision st) \<Longrightarrow>
     solid F G (st_revision st) L k \<and> h_value G (st_revision st) k = h_value G r k \<and>
     (registered F k \<longrightarrow> traced F G (st_revision st) k = traced F G r k)"
proof (induction rule: solid.induct)
  case (solid_input k v d)
  have "h_in G (st_revision st) k = Some (v, d)"
    by (rule inputs_okD(4)[OF assms(2) solid_input.hyps(1) solid_input.prems(1) solid_input.hyps(2) solid_input.prems(2)])
  moreover have "\<not> registered F k"
    using solid_input inputs_okD(5)[OF assms(2), of k r] by (cases "registered F k") simp_all
  ultimately show ?case using solid_input assms(1) by (auto simp: denotes_def intro: solid.solid_input)
next
  case (solid_derived k v f)
  have w: "h_world G (st_revision st) = h_world G r" if "fr_untracked f"
  proof -
    have "quiet G Low r (st_revision st)" using that solid_derived by simp
    then have "st_revision st = r" using quiet_Low solid_derived.prems(1) le_antisym by blast
    then show ?thesis by simp
  qed
  have t: "traced F G (st_revision st) k = traced F G r k"
    unfolding traced_def
  proof (rule trace_cong)
    show "\<forall>d\<in>set (fr_dependencies (snd (trace (h_value G r) (h_world G r) (the (F (fst (split_key k))) (snd (split_key k))) new_frame))).
       h_value G (st_revision st) d = h_value G r d"
      using solid_derived by (simp add: traced_def)
  next
    show "fr_untracked (snd (trace (h_value G r) (h_world G r) (the (F (fst (split_key k))) (snd (split_key k))) new_frame)) \<longrightarrow>
       h_world G (st_revision st) = h_world G r"
      using w solid_derived.hyps(3) by (simp add: traced_def)
  qed
  have n: "h_in G (st_revision st) k = None"
    by (rule inputs_okD(5)[OF assms(2)]) (use solid_derived in simp_all)
  have "solid F G (st_revision st) L k"
    by (rule solid.solid_derived[OF n _ t[unfolded solid_derived.hyps(3)]]) (use solid_derived in simp_all)
  moreover have "h_value G (st_revision st) k = h_value G r k"
    using assms(1) solid_derived.hyps n t by (simp add: denotes_def)
  ultimately show ?case using t by simp
qed

subsection \<open>Memos and edges\<close>

definition memo_ok :: "registry \<Rightarrow> history \<Rightarrow> nat \<Rightarrow> string \<Rightarrow> memo \<Rightarrow> bool" where
  "memo_ok F G R k m \<longleftrightarrow>
     m_changed_at m \<le> m_verified_at m \<and> m_verified_at m \<le> R \<and> registered F k \<and>
     traced F G (m_verified_at m) k =
       (Inr (m_value m), \<lparr>fr_dependencies = m_dependencies m, fr_untracked = m_untracked m\<rparr>) \<and>
     solid F G (m_verified_at m) (m_durability m) k"

text \<open>
  The memo \<open>mk\<close> read \<open>d\<close>, whose memo is now \<open>md\<close>. If \<open>md\<close> has not changed since \<open>mk\<close> was verified, it is
  at least as durable and has the value \<open>mk\<close> read; if it has, a change \<open>mk\<close> is sensitive to was announced.
\<close>

definition edge_ok :: "history \<Rightarrow> memo \<Rightarrow> string \<Rightarrow> memo \<Rightarrow> bool" where
  "edge_ok G mk d md \<longleftrightarrow>
     quiet G (m_durability mk) (m_verified_at md) (m_verified_at mk) \<and>
     (m_changed_at md \<le> m_verified_at mk \<longrightarrow>
        m_durability mk \<le> m_durability md \<and> h_value G (m_verified_at mk) d = Inr (m_value md)) \<and>
     (m_verified_at mk < m_changed_at md \<longrightarrow>
        \<not> quiet G (m_durability mk) (m_verified_at mk) (m_changed_at md))"

definition edges_ok :: "history \<Rightarrow> store \<Rightarrow> memo \<Rightarrow> bool" where
  "edges_ok G st m \<longleftrightarrow> (\<forall>d \<in> set (m_dependencies m).
     (st_inputs st d \<noteq> None \<or> st_memos st d \<noteq> None) \<and>
     (\<forall>md. st_memos st d = Some md \<longrightarrow> edge_ok G m d md))"

definition memos_ok :: "registry \<Rightarrow> history \<Rightarrow> store \<Rightarrow> bool" where
  "memos_ok F G st \<longleftrightarrow> (\<forall>k m. st_memos st k = Some m \<longrightarrow>
     memo_ok F G (st_revision st) k m \<and> edges_ok G st m)"

definition store_ok :: "registry \<Rightarrow> history \<Rightarrow> store \<Rightarrow> bool" where
  "store_ok F G st \<longleftrightarrow> inputs_ok F G st \<and> memos_ok F G st"

lemma memo_value:
  assumes "denotes F G" "inputs_ok F G st" "memo_ok F G (st_revision st) k m"
  shows "h_value G (m_verified_at m) k = Inr (m_value m)"
proof -
  have "h_in G (m_verified_at m) k = None"
    by (rule inputs_okD(5)[OF assms(2)]) (use assms(3) in \<open>simp_all add: memo_ok_def\<close>)
  then show ?thesis using assms(1,3) by (simp add: denotes_def memo_ok_def)
qed

text \<open>What a memo depends on is solid, as it is.\<close>

lemma memo_deps_solid:
  assumes "inputs_ok F G st" "memo_ok F G (st_revision st) k m"
  shows "\<forall>d \<in> set (m_dependencies m). solid F G (m_verified_at m) (m_durability m) d"
    and "m_untracked m \<Longrightarrow> m_durability m = Low"
proof -
  have n: "h_in G (m_verified_at m) k = None"
    by (rule inputs_okD(5)[OF assms(1)]) (use assms(2) in \<open>simp_all add: memo_ok_def\<close>)
  have s: "solid F G (m_verified_at m) (m_durability m) k" using assms(2) by (simp add: memo_ok_def)
  from s have both: "(\<forall>d \<in> set (m_dependencies m). solid F G (m_verified_at m) (m_durability m) d) \<and>
    (m_untracked m \<longrightarrow> m_durability m = Low)"
    by (rule solidE) (use n assms(2) in \<open>simp_all add: memo_ok_def\<close>)
  show "\<forall>d \<in> set (m_dependencies m). solid F G (m_verified_at m) (m_durability m) d" using both by simp
  show "m_untracked m \<Longrightarrow> m_durability m = Low" using both by simp
qed

text \<open>Writing a memo that is right at this revision.\<close>

definition supersedes :: "history \<Rightarrow> nat \<Rightarrow> memo option \<Rightarrow> memo \<Rightarrow> bool" where
  "supersedes G R old m \<longleftrightarrow> (case old of
     None \<Rightarrow> True
   | Some m0 \<Rightarrow>
       (m_changed_at m = m_changed_at m0 \<and> m_value m = m_value m0 \<and> m_durability m0 \<le> m_durability m) \<or>
       (m_changed_at m = R \<and> \<not> quiet G (m_durability m0) (m_verified_at m0) R))"

lemma edge_superseded:
  assumes old: "edge_ok G mj k m0" "m_changed_at m0 \<le> m_verified_at m0" "m_verified_at m0 \<le> R"
    and new: "supersedes G R (Some m0) m" "m_verified_at m = R" "h_value G R k = Inr (m_value m)"
    and j: "m_verified_at mj \<le> R"
  shows "edge_ok G mj k m"
proof (cases "m_changed_at m = m_changed_at m0 \<and> m_value m = m_value m0 \<and> m_durability m0 \<le> m_durability m")
  case True
  then show ?thesis using old(1) new(2) j by (auto simp: edge_ok_def intro: order_trans)
next
  case False
  then have c: "m_changed_at m = R" and loud: "\<not> quiet G (m_durability m0) (m_verified_at m0) R"
    using new(1) by (auto simp: supersedes_def)
  have key: "\<not> quiet G (m_durability mj) (m_verified_at mj) R"
  proof
    assume q: "quiet G (m_durability mj) (m_verified_at mj) R"
    have c0: "m_changed_at m0 \<le> m_verified_at mj"
      using old q j quiet_sub[OF q order_refl, of "m_changed_at m0"] by (force simp: edge_ok_def)
    have "quiet G (m_durability mj) (m_verified_at m0) R"
      by (rule quiet_join[OF _ q order_refl]) (use old(1) in \<open>simp add: edge_ok_def\<close>)
    then have "quiet G (m_durability m0) (m_verified_at m0) R"
      by (rule quiet_up) (use old(1) c0 in \<open>simp add: edge_ok_def\<close>)
    then show False using loud by simp
  qed
  then have "m_verified_at mj < R" using j by (cases "m_verified_at mj = R") simp_all
  then show ?thesis using new(2) c key by (simp add: edge_ok_def)
qed

lemma store_ok_update:
  assumes ok: "store_ok F G st" "denotes F G"
    and m: "memo_ok F G (st_revision st) k m" "m_verified_at m = st_revision st" "edges_ok G st m"
      "k \<notin> set (m_dependencies m)"
    and sup: "supersedes G (st_revision st) (st_memos st k) m"
  shows "store_ok F G (st\<lparr>st_memos := (st_memos st)(k \<mapsto> m)\<rparr>)"
proof -
  let ?st = "st\<lparr>st_memos := (st_memos st)(k \<mapsto> m)\<rparr>"
  have i: "inputs_ok F G st" and ms: "memos_ok F G st" using ok(1) by (simp_all add: store_ok_def)
  have no_input: "st_inputs st k = None"
    using inputs_okD(1)[OF i, of k] inputs_okD(5)[OF i, of k "st_revision st"] m(1) by (simp add: memo_ok_def)
  have val: "h_value G (st_revision st) k = Inr (m_value m)" using memo_value[OF ok(2) i m(1)] m(2) by simp
  have edges: "edges_ok G ?st mj" if j: "st_memos st j = Some mj" for j mj
    unfolding edges_ok_def
  proof
    fix d
    assume d: "d \<in> set (m_dependencies mj)"
    have mj: "memo_ok F G (st_revision st) j mj" "edges_ok G st mj" using ms j by (simp_all add: memos_ok_def)
    show "(st_inputs ?st d \<noteq> None \<or> st_memos ?st d \<noteq> None) \<and> (\<forall>md. st_memos ?st d = Some md \<longrightarrow> edge_ok G mj d md)"
    proof (cases "d = k")
      case True
      then obtain m0 where m0: "st_memos st k = Some m0" "edge_ok G mj k m0"
        using mj(2) d no_input by (auto simp: edges_ok_def)
      have "memo_ok F G (st_revision st) k m0" using ms m0 by (simp add: memos_ok_def)
      then have "edge_ok G mj k m"
        by (intro edge_superseded[OF m0(2) _ _ _ m(2) val]) (use sup m0 mj in \<open>simp_all add: memo_ok_def\<close>)
      then show ?thesis using True by simp
    next
      case False
      then show ?thesis using mj(2) d by (simp add: edges_ok_def)
    qed
  qed
  have self: "edges_ok G ?st m"
    using m(3,4) unfolding edges_ok_def by (auto split: if_splits)
  have "memos_ok F G ?st"
    unfolding memos_ok_def
  proof (intro allI impI)
    fix j mj
    assume j: "st_memos ?st j = Some mj"
    show "memo_ok F G (st_revision ?st) j mj \<and> edges_ok G ?st mj"
    proof (cases "j = k")
      case True
      then show ?thesis using j m(1) self by simp
    next
      case False
      then have "st_memos st j = Some mj" using j by simp
      then show ?thesis using ms edges by (simp add: memos_ok_def)
    qed
  qed
  moreover have "inputs_ok F G ?st" using i by (simp add: inputs_ok_cong[of ?st st])
  ultimately show ?thesis by (simp add: store_ok_def)
qed

subsection \<open>Validation marks\<close>

definition at_revision :: "memo \<Rightarrow> nat \<Rightarrow> memo" where
  "at_revision m R = m\<lparr>m_verified_at := R\<rparr>"

text \<open>What the shallow check and the deep walk both establish before the mark.\<close>

definition still_current :: "registry \<Rightarrow> history \<Rightarrow> store \<Rightarrow> string \<Rightarrow> memo \<Rightarrow> bool" where
  "still_current F G st k m \<longleftrightarrow>
     traced F G (st_revision st) k = traced F G (m_verified_at m) k \<and>
     solid F G (st_revision st) (m_durability m) k \<and>
     (\<forall>d \<in> set (m_dependencies m). \<forall>md. st_memos st d = Some md \<longrightarrow>
        edge_ok G (at_revision m (st_revision st)) d md)"

lemma mark_store_ok:
  assumes "store_ok F G st" "denotes F G" "st_memos st k = Some m" "still_current F G st k m"
    and "k \<notin> set (m_dependencies m)"
  shows "store_ok F G (st\<lparr>st_memos := (st_memos st)(k \<mapsto> at_revision m (st_revision st))\<rparr>)"
proof -
  have m: "memo_ok F G (st_revision st) k m" "edges_ok G st m"
    using assms(1,3) by (simp_all add: store_ok_def memos_ok_def)
  show ?thesis
  proof (rule store_ok_update[OF assms(1,2)])
    show "memo_ok F G (st_revision st) k (at_revision m (st_revision st))"
      using m(1) assms(4) by (simp add: memo_ok_def still_current_def at_revision_def)
    show "edges_ok G st (at_revision m (st_revision st))"
      using m(2) assms(4) by (simp add: edges_ok_def still_current_def at_revision_def)
  qed (use assms(3,5) in \<open>simp_all add: at_revision_def supersedes_def\<close>)
qed

lemma shallow_current:
  assumes ok: "store_ok F G st" "denotes F G" and k: "st_memos st k = Some m"
    and quiet: "quiet G (m_durability m) (m_verified_at m) (st_revision st)"
  shows "still_current F G st k m"
proof -
  have i: "inputs_ok F G st" and m: "memo_ok F G (st_revision st) k m" "edges_ok G st m"
    using ok(1) k by (simp_all add: store_ok_def memos_ok_def)
  have v: "m_verified_at m \<le> st_revision st" using m(1) by (simp add: memo_ok_def)
  note same = solid_same[OF ok(2) i _ v quiet]
  have edge: "edge_ok G (at_revision m (st_revision st)) d md"
    if d: "d \<in> set (m_dependencies m)" and md: "st_memos st d = Some md" for d md
  proof -
    have e: "edge_ok G m d md" using m(2) d md by (simp add: edges_ok_def)
    have mdok: "m_changed_at md \<le> st_revision st"
      using ok(1) md by (auto simp: store_ok_def memos_ok_def memo_ok_def dest: order_trans)
    have c: "m_changed_at md \<le> m_verified_at m"
      using e mdok quiet_sub[OF quiet order_refl, of "m_changed_at md"] by (force simp: edge_ok_def)
    have "h_value G (st_revision st) d = h_value G (m_verified_at m) d"
      using same memo_deps_solid(1)[OF i m(1)] d by blast
    moreover have "quiet G (m_durability m) (m_verified_at md) (st_revision st)"
      by (rule quiet_join[OF _ quiet order_refl]) (use e in \<open>simp add: edge_ok_def\<close>)
    ultimately show ?thesis using e c mdok by (simp add: edge_ok_def at_revision_def)
  qed
  have "solid F G (m_verified_at m) (m_durability m) k" "registered F k" using m(1) by (simp_all add: memo_ok_def)
  then show ?thesis using same[of k] edge by (simp add: still_current_def)
qed

text \<open>A dependency the deep walk has brought up to date and found unchanged.\<close>

definition unchanged :: "store \<Rightarrow> nat \<Rightarrow> string \<Rightarrow> bool" where
  "unchanged st since d \<longleftrightarrow> (case st_inputs st d of
     Some i \<Rightarrow> in_changed_at i \<le> since
   | None \<Rightarrow> (\<exists>md. st_memos st d = Some md \<and> m_verified_at md = st_revision st \<and> m_changed_at md \<le> since))"

lemma unchanged_value:
  assumes ok: "store_ok F G st" "denotes F G" and k: "st_memos st k = Some m"
    and d: "d \<in> set (m_dependencies m)" "unchanged st (m_verified_at m) d"
  shows "h_value G (st_revision st) d = h_value G (m_verified_at m) d \<and>
    solid F G (st_revision st) (m_durability m) d"
proof -
  have i: "inputs_ok F G st" and m: "memo_ok F G (st_revision st) k m" "edges_ok G st m"
    using ok(1) k by (simp_all add: store_ok_def memos_ok_def)
  have v: "m_verified_at m \<le> st_revision st" using m(1) by (simp add: memo_ok_def)
  show ?thesis
  proof (cases "st_inputs st d")
    case (Some inp)
    have "in_changed_at inp \<le> m_verified_at m" using d(2) Some by (simp add: unchanged_def)
    then have same: "h_in G (m_verified_at m) d = h_in G (st_revision st) d"
      by (rule inputs_okD(3)[OF i Some _ v])
    have now: "h_in G (st_revision st) d = Some (in_value inp, in_durability inp)"
      using inputs_okD(1)[OF i, of d] Some by simp
    have "solid F G (m_verified_at m) (m_durability m) d" using memo_deps_solid(1)[OF i m(1)] d(1) by blast
    then have "m_durability m \<le> in_durability inp" by (rule solidE) (use same now in simp_all)
    then show ?thesis using ok(2) same now by (auto simp: denotes_def intro: solid_input)
  next
    case None
    then obtain md where md: "st_memos st d = Some md" "m_verified_at md = st_revision st"
      "m_changed_at md \<le> m_verified_at m" using d(2) by (auto simp: unchanged_def)
    have mdok: "memo_ok F G (st_revision st) d md" using ok(1) md(1) by (simp add: store_ok_def memos_ok_def)
    have e: "edge_ok G m d md" using m(2) d(1) md(1) by (simp add: edges_ok_def)
    have "h_value G (st_revision st) d = Inr (m_value md)" using memo_value[OF ok(2) i mdok] md(2) by simp
    moreover have "solid F G (st_revision st) (m_durability m) d"
      by (rule solid_down[of _ _ _ "m_durability md"])
        (use mdok md e in \<open>simp_all add: memo_ok_def edge_ok_def\<close>)
    ultimately show ?thesis using e md(3) by (simp add: edge_ok_def)
  qed
qed

lemma deep_current:
  assumes ok: "store_ok F G st" "denotes F G" and k: "st_memos st k = Some m"
    and un: "\<forall>d \<in> set (m_dependencies m). unchanged st (m_verified_at m) d" and "\<not> m_untracked m"
  shows "still_current F G st k m"
proof -
  have i: "inputs_ok F G st" and m: "memo_ok F G (st_revision st) k m" "edges_ok G st m"
    using ok(1) k by (simp_all add: store_ok_def memos_ok_def)
  note dep = unchanged_value[OF ok k]
  have t: "traced F G (st_revision st) k = traced F G (m_verified_at m) k"
    unfolding traced_def
    by (rule trace_cong) (use m(1) dep un assms(5) in \<open>simp_all add: memo_ok_def traced_def\<close>)
  have n: "h_in G (st_revision st) k = None" "registered F k"
    using inputs_okD(5)[OF i, of k] m(1) by (simp_all add: memo_ok_def)
  have "solid F G (st_revision st) (m_durability m) k"
  proof (rule solid_derived[OF n])
    show "traced F G (st_revision st) k =
      (Inr (m_value m), \<lparr>fr_dependencies = m_dependencies m, fr_untracked = m_untracked m\<rparr>)"
      using m(1) t by (simp add: memo_ok_def)
  qed (use dep un assms(5) in simp_all)
  moreover have "edge_ok G (at_revision m (st_revision st)) d md"
    if d: "d \<in> set (m_dependencies m)" and md: "st_memos st d = Some md" for d md
  proof -
    have mdok: "memo_ok F G (st_revision st) d md" using ok(1) md by (simp add: store_ok_def memos_ok_def)
    have "st_inputs st d = None"
      using inputs_okD(1)[OF i, of d] inputs_okD(5)[OF i, of d "st_revision st"] mdok by (simp add: memo_ok_def)
    then have u: "m_verified_at md = st_revision st" "m_changed_at md \<le> m_verified_at m"
      using un d md by (auto simp: unchanged_def)
    have e: "edge_ok G m d md" using m(2) d md by (simp add: edges_ok_def)
    have "h_value G (st_revision st) d = Inr (m_value md)" using memo_value[OF ok(2) i mdok] u by simp
    then show ?thesis using e u mdok by (simp add: edge_ok_def at_revision_def memo_ok_def)
  qed
  ultimately show ?thesis using t by (simp add: still_current_def)
qed

text \<open>When the deep walk fails on a dependency, so does the computation.\<close>

lemma deep_error:
  assumes ok: "store_ok F G st" "denotes F G" and k: "st_memos st k = Some m" and "\<not> m_untracked m"
    and deps: "m_dependencies m = pre @ d # post"
    and un: "\<forall>x \<in> set pre. unchanged st (m_verified_at m) x" and e: "h_value G (st_revision st) d = Inl e"
  shows "h_value G (st_revision st) k = Inl e"
proof -
  have i: "inputs_ok F G st" and m: "memo_ok F G (st_revision st) k m"
    using ok(1) k by (simp_all add: store_ok_def memos_ok_def)
  have t: "traced F G (m_verified_at m) k =
    (Inr (m_value m), \<lparr>fr_dependencies = pre @ d # post, fr_untracked = False\<rparr>)"
    using m assms(4) deps by (simp add: memo_ok_def)
  have "fst (traced F G (st_revision st) k) = Inl e"
    unfolding traced_def
    by (rule trace_replay_error[OF t[unfolded traced_def], of pre d post])
      (use deps un e unchanged_value[OF ok k] in \<open>simp_all add: new_frame_def\<close>)
  moreover have "h_in G (st_revision st) k = None" "registered F k"
    using inputs_okD(5)[OF i, of k] m by (simp_all add: memo_ok_def)
  ultimately show ?thesis using ok(2) by (simp add: denotes_def)
qed

subsection \<open>Sessions\<close>

lemma memo_of_stack [simp]: "memo_of (s\<lparr>ss_stack := x\<rparr>) k = memo_of s k"
  by (simp add: memo_of_def)

definition verified :: "session \<Rightarrow> string \<Rightarrow> bool" where
  "verified s k \<longleftrightarrow> (\<exists>m. memo_of s k = Some m \<and> m_verified_at m = st_revision (ss_store s))"

definition good :: "registry \<Rightarrow> history \<Rightarrow> session \<Rightarrow> bool" where
  "good F G s \<longleftrightarrow> store_ok F G (ss_store s) \<and> (\<forall>k \<in> set (ss_settled s). verified s k)"

definition fetched :: "session \<Rightarrow> string \<Rightarrow> bool" where
  "fetched s k \<longleftrightarrow> st_inputs (ss_store s) k \<noteq> None \<or> verified s k"

text \<open>What work below rank \<open>n\<close> leaves alone.\<close>

definition keeps :: "(string \<Rightarrow> nat) \<Rightarrow> nat \<Rightarrow> session \<Rightarrow> session \<Rightarrow> bool" where
  "keeps rk n s s' \<longleftrightarrow>
     ss_stack s' = ss_stack s \<and>
     st_inputs (ss_store s') = st_inputs (ss_store s) \<and>
     st_revision (ss_store s') = st_revision (ss_store s) \<and>
     st_changed_at_or_above (ss_store s') = st_changed_at_or_above (ss_store s) \<and>
     (\<forall>x. n \<le> rk x \<longrightarrow> memo_of s' x = memo_of s x) \<and>
     (\<forall>x m. memo_of s x = Some m \<longrightarrow> m_verified_at m = st_revision (ss_store s) \<longrightarrow> memo_of s' x = Some m)"

lemma keeps_refl [simp]: "keeps rk n s s"
  by (simp add: keeps_def)

lemma keeps_trans: "keeps rk n s s' \<Longrightarrow> keeps rk n' s' s'' \<Longrightarrow> n \<le> N \<Longrightarrow> n' \<le> N \<Longrightarrow> keeps rk N s s''"
  by (simp add: keeps_def)

lemma keeps_fetched: "keeps rk n s s' \<Longrightarrow> fetched s d \<Longrightarrow> fetched s' d"
  by (auto simp: keeps_def fetched_def verified_def)

lemma keeps_unchanged: "keeps rk n s s' \<Longrightarrow> unchanged (ss_store s) v d \<Longrightarrow> unchanged (ss_store s') v d"
  by (auto simp: keeps_def unchanged_def memo_of_def split: option.splits)

text \<open>A fetcher that answers as the history does, for keys below a rank.\<close>

definition fetch_ok :: "registry \<Rightarrow> (string \<Rightarrow> nat) \<Rightarrow> history \<Rightarrow> nat \<Rightarrow> fetcher \<Rightarrow> nat \<Rightarrow> bool" where
  "fetch_ok F rk G R fetch n \<longleftrightarrow> (\<forall>s k.
     good F G s \<longrightarrow> st_revision (ss_store s) = R \<longrightarrow> rk k < n \<longrightarrow> (\<forall>x \<in> set (ss_stack s). rk k < rk x) \<longrightarrow>
     (\<exists>s'. fetch s k = Some (h_value G R k, s') \<and> good F G s' \<and> keeps rk (Suc (rk k)) s s' \<and>
        (isl (h_value G R k) \<or> fetched s' k)))"

lemma fetch_okE:
  assumes "fetch_ok F rk G R fetch n" "good F G s" "st_revision (ss_store s) = R" "rk k < n"
    "\<forall>x \<in> set (ss_stack s). rk k < rk x"
  obtains s' where "fetch s k = Some (h_value G R k, s')" "good F G s'" "keeps rk (Suc (rk k)) s s'"
    "isl (h_value G R k) \<or> fetched s' k"
  using assms unfolding fetch_ok_def by blast

lemma run_computation_ok:
  assumes fetch: "fetch_ok F rk G R fetch n"
  shows "reads_below rk n c \<Longrightarrow> good F G s \<Longrightarrow> st_revision (ss_store s) = R \<Longrightarrow>
    \<forall>x \<in> set (ss_stack s). n \<le> rk x \<Longrightarrow> \<forall>d \<in> set (fr_dependencies f). fetched s d \<Longrightarrow>
    \<exists>s'. run_computation fetch (h_world G R) c s f =
           Some (fst (trace (h_value G R) (h_world G R) c f), s', snd (trace (h_value G R) (h_world G R) c f)) \<and>
         good F G s' \<and> keeps rk n s s' \<and>
         (isl (fst (trace (h_value G R) (h_world G R) c f)) \<or>
          (\<forall>d \<in> set (fr_dependencies (snd (trace (h_value G R) (h_world G R) c f))). fetched s' d))"
proof (induction c arbitrary: s f)
  case (Read k cont)
  have k: "rk k < n" "\<forall>x \<in> set (ss_stack s). rk k < rk x" using Read.prems(1,4) by auto
  obtain s1 where s1: "fetch s k = Some (h_value G R k, s1)" "good F G s1" "keeps rk (Suc (rk k)) s s1"
    "isl (h_value G R k) \<or> fetched s1 k"
    by (rule fetch_okE[OF fetch Read.prems(2,3) k])
  have keep: "keeps rk n s s1" by (rule keeps_trans[OF s1(3) keeps_refl[where n = 0]]) (use k in auto)
  show ?case
  proof (cases "h_value G R k")
    case (Inl e)
    then show ?thesis using s1 keep by simp
  next
    case (Inr v)
    have rev: "st_revision (ss_store s1) = R" and st: "ss_stack s1 = ss_stack s"
      using s1(3) Read.prems(3) by (simp_all add: keeps_def)
    have deps: "\<forall>d \<in> set (fr_dependencies (record_read k f)). fetched s1 d"
      using Read.prems(5) s1(4) Inr keeps_fetched[OF keep] by simp
    obtain s2 where s2: "run_computation fetch (h_world G R) (cont v) s1 (record_read k f) =
        Some (fst (trace (h_value G R) (h_world G R) (cont v) (record_read k f)), s2,
              snd (trace (h_value G R) (h_world G R) (cont v) (record_read k f)))"
      "good F G s2" "keeps rk n s1 s2"
      "isl (fst (trace (h_value G R) (h_world G R) (cont v) (record_read k f))) \<or>
       (\<forall>d \<in> set (fr_dependencies (snd (trace (h_value G R) (h_world G R) (cont v) (record_read k f)))). fetched s2 d)"
      using Read.IH[of "cont v" s1 "record_read k f"] Read.prems(1,4) s1(2) rev st deps by auto
    have "keeps rk n s s2" by (rule keeps_trans[OF keep s2(3)]) simp_all
    then show ?thesis using s1(1) s2 Inr by simp
  qed
next
  case (Untracked cont)
  then show ?case using Untracked.IH[of "cont (h_world G R)" s "f\<lparr>fr_untracked := True\<rparr>"] by simp
qed simp_all

text \<open>The deep walk.\<close>

lemma any_changed_ok:
  assumes fetch: "fetch_ok F rk G R fetch n" and k: "\<forall>d \<in> set ds. rk d < n"
    and "good F G s" "st_revision (ss_store s) = R" "\<forall>x \<in> set (ss_stack s). n \<le> rk x"
  shows "\<exists>res s'. any_changed fetch s ds since = Some (res, s') \<and> good F G s' \<and> keeps rk n s s' \<and>
    (case res of
       Inl e \<Rightarrow> \<exists>pre d post. ds = pre @ d # post \<and> (\<forall>x \<in> set pre. unchanged (ss_store s') since x) \<and> h_value G R d = Inl e
     | Inr b \<Rightarrow> b \<or> (\<forall>x \<in> set ds. unchanged (ss_store s') since x))"
  using assms(2-)
proof (induction ds arbitrary: s)
  case Nil
  then show ?case by simp
next
  case (Cons d ds)
  have recurse: ?case
    if step: "changed_after fetch s d since = Some (Inr False, s1)" "good F G s1" "keeps rk n s s1"
      "unchanged (ss_store s1) since d" for s1
  proof -
    obtain res s2 where s2: "any_changed fetch s1 ds since = Some (res, s2)" "good F G s2" "keeps rk n s1 s2"
      "case res of
         Inl e \<Rightarrow> \<exists>pre d post. ds = pre @ d # post \<and> (\<forall>x \<in> set pre. unchanged (ss_store s2) since x) \<and> h_value G R d = Inl e
       | Inr b \<Rightarrow> b \<or> (\<forall>x \<in> set ds. unchanged (ss_store s2) since x)"
      using Cons.IH[of s1] Cons.prems step(2,3) by (auto simp: keeps_def)
    have u: "unchanged (ss_store s2) since d" by (rule keeps_unchanged[OF s2(3) step(4)])
    have keep: "keeps rk n s s2" by (rule keeps_trans[OF step(3) s2(3)]) simp_all
    have "case res of
         Inl e \<Rightarrow> \<exists>pre d' post. d # ds = pre @ d' # post \<and> (\<forall>x \<in> set pre. unchanged (ss_store s2) since x) \<and> h_value G R d' = Inl e
       | Inr b \<Rightarrow> b \<or> (\<forall>x \<in> set (d # ds). unchanged (ss_store s2) since x)"
    proof (cases res)
      case (Inl e)
      then obtain pre d' post where "ds = pre @ d' # post" "\<forall>x \<in> set pre. unchanged (ss_store s2) since x"
        "h_value G R d' = Inl e" using s2(4) by auto
      then show ?thesis using Inl u by (auto intro!: exI[of _ "d # pre"])
    qed (use s2(4) u in auto)
    then show ?thesis using s2(1,2) keep step(1) by (intro exI[of _ res] exI[of _ s2]) simp
  qed
  show ?case
  proof (cases "st_inputs (ss_store s) d")
    case (Some i)
    then show ?thesis
      using recurse[of s] Cons.prems by (cases "in_changed_at i > since") (auto simp: changed_after_def unchanged_def)
  next
    case None
    have d: "rk d < n" "\<forall>x \<in> set (ss_stack s). rk d < rk x" using Cons.prems(1,4) by auto
    obtain s1 where s1: "fetch s d = Some (h_value G R d, s1)" "good F G s1" "keeps rk (Suc (rk d)) s s1"
      "isl (h_value G R d) \<or> fetched s1 d"
      by (rule fetch_okE[OF fetch Cons.prems(2,3) d])
    have keep: "keeps rk n s s1" by (rule keeps_trans[OF s1(3) keeps_refl[where n = 0]]) (use d in auto)
    show ?thesis
    proof (cases "h_value G R d")
      case (Inl e)
      then have "changed_after fetch s d since = Some (Inl e, s1)" using None s1(1) by (simp add: changed_after_def)
      moreover have "\<exists>pre d' post. d # ds = pre @ d' # post \<and>
        (\<forall>x \<in> set pre. unchanged (ss_store s1) since x) \<and> h_value G R d' = Inl e"
        by (rule exI[of _ "[]"], rule exI[of _ d], rule exI[of _ ds]) (simp add: Inl)
      ultimately show ?thesis using s1(2) keep
        by (intro exI[of _ "Inl e"] exI[of _ s1]) simp
    next
      case (Inr v)
      have no: "st_inputs (ss_store s1) d = None" using None keep by (simp add: keeps_def)
      obtain md where md: "memo_of s1 d = Some md" "m_verified_at md = st_revision (ss_store s1)"
        using s1(4) Inr no by (auto simp: fetched_def verified_def)
      have c: "changed_after fetch s d since = Some (Inr (since < m_changed_at md), s1)"
        using None s1(1) Inr md(1) by (simp add: changed_after_def)
      show ?thesis
      proof (cases "since < m_changed_at md")
        case True
        then show ?thesis using c s1(2) keep by (intro exI[of _ "Inr True"] exI[of _ s1]) simp
      next
        case False
        then have "unchanged (ss_store s1) since d" using no md by (simp add: unchanged_def memo_of_def)
        then show ?thesis using recurse[of s1] c False s1(2) keep by simp
      qed
    qed
  qed
qed

subsection \<open>Executing a function\<close>

lemma frame_durability_le:
  assumes "d \<in> set (fr_dependencies f)"
  shows "frame_durability s f \<le> durability_of s d"
proof -
  have fold_le: "fold (\<lambda>d acc. min acc (durability_of s d)) ds acc \<le> acc" for ds acc
  proof (induction ds arbitrary: acc)
    case (Cons x xs)
    have "fold (\<lambda>d acc. min acc (durability_of s d)) xs (min acc (durability_of s x)) \<le> min acc (durability_of s x)"
      by (rule Cons.IH)
    then show ?case by simp
  qed simp
  have "fold (\<lambda>d acc. min acc (durability_of s d)) ds acc \<le> durability_of s d" if "d \<in> set ds" for ds acc
    using that
  proof (induction ds arbitrary: acc)
    case (Cons x xs)
    show ?case
    proof (cases "d \<in> set xs")
      case True
      then show ?thesis using Cons.IH by simp
    next
      case False
      then have "d = x" using Cons.prems by simp
      then show ?thesis using fold_le[of xs "min acc (durability_of s x)"] by (simp add: order_trans)
    qed
  qed simp
  then show ?thesis using assms by (simp add: frame_durability_def)
qed

lemma fetched_solid:
  assumes "good F G s" "denotes F G" "fetched s d" "L \<le> durability_of s d"
  shows "solid F G (st_revision (ss_store s)) L d"
proof -
  have i: "inputs_ok F G (ss_store s)" and ms: "memos_ok F G (ss_store s)"
    using assms(1) by (simp_all add: good_def store_ok_def)
  show ?thesis
  proof (cases "st_inputs (ss_store s) d")
    case (Some inp)
    then show ?thesis
      using inputs_okD(1)[OF i, of d] assms(4) by (intro solid_input) (simp_all add: durability_of_def)
  next
    case None
    then obtain md where md: "memo_of s d = Some md" "m_verified_at md = st_revision (ss_store s)"
      using assms(3) by (auto simp: fetched_def verified_def)
    then have mdok: "memo_ok F G (st_revision (ss_store s)) d md" using ms by (simp add: memos_ok_def memo_of_def)
    show ?thesis
      by (rule solid_down[where L = "m_durability md" and L' = L])
        (use md mdok None assms(4) in \<open>simp_all add: memo_ok_def durability_of_def\<close>)
  qed
qed

lemma fetched_edge:
  assumes "good F G s" "denotes F G" "fetched s d" "memo_of s d = Some md"
    and m: "m_verified_at m = st_revision (ss_store s)" "m_durability m \<le> durability_of s d"
  shows "edge_ok G m d md"
proof -
  have i: "inputs_ok F G (ss_store s)" and ms: "memos_ok F G (ss_store s)"
    using assms(1) by (simp_all add: good_def store_ok_def)
  have md: "memo_ok F G (st_revision (ss_store s)) d md" using ms assms(4) by (simp add: memos_ok_def memo_of_def)
  have none: "st_inputs (ss_store s) d = None"
    using inputs_okD(1)[OF i, of d] inputs_okD(5)[OF i, of d "st_revision (ss_store s)"] md by (simp add: memo_ok_def)
  then have v: "m_verified_at md = st_revision (ss_store s)"
    using assms(3,4) by (auto simp: fetched_def verified_def)
  have "h_value G (st_revision (ss_store s)) d = Inr (m_value md)" using memo_value[OF assms(2) i md] v by simp
  then show ?thesis
    using m v md none assms(4) by (simp add: edge_ok_def memo_ok_def durability_of_def)
qed

text \<open>The memo an execution writes.\<close>

lemma memo_after_ok:
  assumes g: "good F G s" "denotes F G" and rev: "st_revision (ss_store s) = R"
    and k: "registered F k" "h_in G R k = None" "traced F G R k = (Inr v, f)"
    and deps: "\<forall>d \<in> set (fr_dependencies f). fetched s d" "k \<notin> set (fr_dependencies f)"
    and stale: "\<forall>m0. memo_of s k = Some m0 \<longrightarrow> \<not> quiet G (m_durability m0) (m_verified_at m0) R"
  shows "store_ok F G (ss_store (put_memo s k (memo_after s (memo_of s k) v f)))"
proof -
  let ?m = "memo_after s (memo_of s k) v f"
  have fields: "m_verified_at ?m = R" "m_value ?m = v" "m_untracked ?m = fr_untracked f"
    "m_dependencies ?m = fr_dependencies f" "m_durability ?m = frame_durability s f"
    using rev by (simp_all add: memo_after_def Let_def)
  have ms: "memos_ok F G (ss_store s)" using g(1) by (simp add: good_def store_ok_def)
  have prev: "m_changed_at m0 \<le> m_verified_at m0 \<and> m_verified_at m0 \<le> R" if "memo_of s k = Some m0" for m0
    using ms that rev by (simp add: memos_ok_def memo_ok_def memo_of_def)
  have c: "m_changed_at ?m \<le> R"
    using prev rev by (auto simp: memo_after_def Let_def split: option.splits dest: order_trans)
  have "solid F G R (frame_durability s f) k"
  proof (rule solid_derived[OF k(2,1,3)])
    show "fr_untracked f \<longrightarrow> frame_durability s f = Low" by (simp add: frame_durability_def)
    show "\<forall>d \<in> set (fr_dependencies f). solid F G R (frame_durability s f) d"
      using fetched_solid[OF g] frame_durability_le deps(1) rev by blast
  qed
  then have m: "memo_ok F G R k ?m" using fields c k by (simp add: memo_ok_def)
  have e: "edges_ok G (ss_store s) ?m"
    unfolding edges_ok_def
  proof (intro ballI conjI allI impI)
    fix d
    assume d: "d \<in> set (m_dependencies ?m)"
    have fd: "fetched s d" using d deps(1) fields(4) by simp
    then show "st_inputs (ss_store s) d \<noteq> None \<or> st_memos (ss_store s) d \<noteq> None"
      by (auto simp: fetched_def verified_def memo_of_def)
    fix md
    assume "st_memos (ss_store s) d = Some md"
    then show "edge_ok G ?m d md"
      using fetched_edge[OF g fd] fields rev frame_durability_le[of d f s] d by (simp add: memo_of_def)
  qed
  have sup: "supersedes G R (memo_of s k) ?m"
    using stale rev by (auto simp: supersedes_def memo_after_def Let_def split: option.splits)
  show ?thesis
    using store_ok_update[of F G "ss_store s" k ?m] g m e sup fields deps(2) rev
    by (simp add: put_memo_def good_def memo_of_def)
qed

lemma execute_ok:
  assumes rk: "ranked F rk" and den: "denotes F G" and fetch: "fetch_ok F rk G R fetch (rk k)"
    and g: "good F G s" "st_revision (ss_store s) = R" "\<forall>x \<in> set (ss_stack s). rk k < rk x"
    and none: "st_inputs (ss_store s) k = None"
    and stale: "\<forall>m0. memo_of s k = Some m0 \<longrightarrow> \<not> quiet G (m_durability m0) (m_verified_at m0) R"
  shows "\<exists>s'. execute F (h_world G R) fetch s k = Some (h_value G R k, s') \<and> good F G s' \<and>
    keeps rk (Suc (rk k)) s s' \<and> (isl (h_value G R k) \<or> fetched s' k)"
proof -
  have n: "h_in G R k = None"
    using inputs_okD(1)[of F G "ss_store s" k] g none by (simp add: good_def store_ok_def)
  show ?thesis
  proof (cases "F (fst (split_key k))")
    case None
    then have "h_value G R k = Inl (UnknownFunction (fst (split_key k)))"
      using den n by (simp add: denotes_def registered_def)
    then show ?thesis using g(1) None by (auto simp: execute_def split: prod.splits)
  next
    case (Some f)
    have reg: "registered F k" using Some by (simp add: registered_def)
    let ?t = "trace (h_value G R) (h_world G R) (f (snd (split_key k))) new_frame"
    have tr: "traced F G R k = ?t" using Some by (simp add: traced_def)
    have val: "h_value G R k = fst ?t" using den n reg tr by (simp add: denotes_def)
    let ?s0 = "s\<lparr>ss_stack := ss_stack s @ [k]\<rparr>"
    have s0: "good F G ?s0" using g(1) by (simp add: good_def verified_def memo_of_def)
    have stack: "\<forall>x \<in> set (ss_stack ?s0). rk k \<le> rk x" using g(3) by auto
    have below: "reads_below rk (rk k) (f (snd (split_key k)))" by (rule rankedD[OF rk Some])
    obtain s1 where s1: "run_computation fetch (h_world G R) (f (snd (split_key k))) ?s0 new_frame = Some (fst ?t, s1, snd ?t)"
      "good F G s1" "keeps rk (rk k) ?s0 s1" "isl (fst ?t) \<or> (\<forall>d \<in> set (fr_dependencies (snd ?t)). fetched s1 d)"
      using run_computation_ok[OF fetch below s0 _ stack, of new_frame] g(2) by (auto simp: new_frame_def)
    let ?s2 = "s1\<lparr>ss_stack := butlast (ss_stack s1)\<rparr>"
    have s2: "good F G ?s2" using s1(2) by (simp add: good_def verified_def memo_of_def)
    have keep: "keeps rk (rk k) s ?s2" using s1(3) by (simp add: keeps_def memo_of_def)
    have prev: "memo_of ?s2 k = memo_of s k" using keep by (simp add: keeps_def)
    have rev: "st_revision (ss_store ?s2) = R" using keep g(2) by (simp add: keeps_def)
    show ?thesis
    proof (cases "fst ?t")
      case (Inl e)
      have "execute F (h_world G R) fetch s k = Some (Inl e, ?s2)"
        using s1(1) Some Inl by (simp add: execute_def case_prod_beta new_frame_def)
      moreover have "keeps rk (Suc (rk k)) s ?s2" by (rule keeps_trans[OF keep keeps_refl[where n = 0]]) simp_all
      ultimately show ?thesis using s2 val Inl by simp
    next
      case (Inr v)
      let ?m = "memo_after ?s2 (memo_of ?s2 k) v (snd ?t)"
      let ?s3 = "settle_key (put_memo ?s2 k ?m) k"
      have run: "execute F (h_world G R) fetch s k = Some (Inr v, ?s3)"
        using s1(1) Some Inr prev by (simp add: execute_def case_prod_beta new_frame_def Let_def)
      have notin: "k \<notin> set (fr_dependencies (snd ?t))"
        using trace_deps_below[OF below, of new_frame "h_value G R" "h_world G R"] by (auto simp: new_frame_def)
      have deps: "\<forall>d \<in> set (fr_dependencies (snd ?t)). fetched ?s2 d"
        using s1(4) Inr by (simp add: fetched_def verified_def memo_of_def)
      have ok: "store_ok F G (ss_store (put_memo ?s2 k ?m))"
      proof (rule memo_after_ok[OF s2 den rev reg n])
        show "traced F G R k = (Inr v, snd ?t)" using tr Inr by (metis prod.collapse)
        show "\<forall>m0. memo_of ?s2 k = Some m0 \<longrightarrow> \<not> quiet G (m_durability m0) (m_verified_at m0) R"
          using stale prev by simp
      qed (use deps notin in simp_all)
      have mv: "m_verified_at ?m = R" using rev by (simp add: memo_after_def Let_def)
      have "good F G ?s3"
        using ok s2 mv rev
        by (auto simp: good_def settle_key_def put_memo_def verified_def memo_of_def)
      moreover have "keeps rk (Suc (rk k)) s ?s3"
        using keep stale g(2) by (auto simp: keeps_def settle_key_def put_memo_def memo_of_def)
      moreover have "fetched ?s3 k"
        using mv rev by (simp add: fetched_def verified_def settle_key_def put_memo_def memo_of_def)
      ultimately show ?thesis using run val Inr by auto
    qed
  qed
qed

subsection \<open>Fetching\<close>

lemma fetch_ok_mono: "fetch_ok F rk G R fetch n \<Longrightarrow> m \<le> n \<Longrightarrow> fetch_ok F rk G R fetch m"
  unfolding fetch_ok_def by (blast intro: order_less_le_trans)

lemma memo_deps_below:
  assumes "ranked F rk" "memo_ok F G R k m"
  shows "\<forall>d \<in> set (m_dependencies m). rk d < rk k"
proof -
  obtain f where f: "F (fst (split_key k)) = Some f" using assms(2) by (auto simp: memo_ok_def registered_def)
  have "m_dependencies m = fr_dependencies (snd (traced F G (m_verified_at m) k))"
    using assms(2) by (simp add: memo_ok_def)
  then show ?thesis
    using trace_deps_below[OF rankedD[OF assms(1) f], of new_frame] f by (simp add: traced_def new_frame_def)
qed

text \<open>A memo that validates is current; one that does not may be replaced; and an error is the key's own.\<close>

lemma validate_ok:
  assumes rk: "ranked F rk" and den: "denotes F G" and fetch: "fetch_ok F rk G R fetch (rk k)"
    and g: "good F G s" "st_revision (ss_store s) = R" "\<forall>x \<in> set (ss_stack s). rk k < rk x"
    and m: "memo_of s k = Some m"
  shows "\<exists>res s'. validate fetch s k m = Some (res, s') \<and> good F G s' \<and> keeps rk (Suc (rk k)) s s' \<and>
    (case res of
       Inl e \<Rightarrow> h_value G R k = Inl e
     | Inr True \<Rightarrow> h_value G R k = Inr (m_value m) \<and> fetched s' k
     | Inr False \<Rightarrow> memo_of s' k = Some m \<and> \<not> quiet G (m_durability m) (m_verified_at m) R)"
proof -
  have ok: "store_ok F G (ss_store s)" "inputs_ok F G (ss_store s)" using g(1) by (simp_all add: good_def store_ok_def)
  have mok: "memo_ok F G R k m" using ok(1) m g(2) by (simp add: store_ok_def memos_ok_def memo_of_def)
  note below = memo_deps_below[OF rk mok]
  have marked: "good F G (mark_verified t k m) \<and> keeps rk (Suc (rk k)) t (mark_verified t k m) \<and>
      h_value G R k = Inr (m_value m) \<and> fetched (mark_verified t k m) k"
    if t: "good F G t" "st_revision (ss_store t) = R" "memo_of t k = Some m" "still_current F G (ss_store t) k m"
    for t
  proof -
    have st: "store_ok F G (ss_store t)" using t(1) by (simp add: good_def)
    have "store_ok F G ((ss_store t)\<lparr>st_memos := (st_memos (ss_store t))(k \<mapsto> at_revision m R)\<rparr>)"
      using mark_store_ok[OF st den _ t(4)] t(2,3) below by (auto simp: memo_of_def)
    then have "good F G (mark_verified t k m)"
      using t(1,2) by (auto simp: good_def mark_verified_def settle_key_def put_memo_def verified_def memo_of_def at_revision_def)
    moreover have "fetched (mark_verified t k m) k"
      using t(2) by (simp add: fetched_def verified_def mark_verified_def settle_key_def put_memo_def memo_of_def)
    moreover have "keeps rk (Suc (rk k)) t (mark_verified t k m)"
      using t(3) by (auto simp: keeps_def mark_verified_def settle_key_def put_memo_def memo_of_def)
    moreover have "h_value G R k = Inr (m_value m)"
    proof -
      have "h_in G R k = None" "registered F k"
        using inputs_okD(5)[OF ok(2), of k R] mok g(2) by (simp_all add: memo_ok_def)
      then show ?thesis using den t(2,4) mok by (simp add: denotes_def still_current_def memo_ok_def)
    qed
    ultimately show ?thesis by simp
  qed
  show ?thesis
  proof (cases "m_verified_at m = R \<or> k \<in> set (ss_settled s)")
    case True
    then have v: "m_verified_at m = R" using g m by (auto simp: good_def verified_def)
    then have "h_value G R k = Inr (m_value m)" using memo_value[OF den ok(2), of k m] mok g(2) by simp
    moreover have "fetched s k" using m v g(2) by (simp add: fetched_def verified_def)
    ultimately show ?thesis using True g by (intro exI[of _ "Inr True"] exI[of _ s]) (simp add: validate_def)
  next
    case False
    then have v: "m_verified_at m < R" using mok by (simp add: memo_ok_def)
    consider "m_untracked m"
      | "\<not> m_untracked m" "st_changed_at_or_above (ss_store s) (m_durability m) \<le> m_verified_at m"
      | "\<not> m_untracked m" "m_verified_at m < st_changed_at_or_above (ss_store s) (m_durability m)"
      by linarith
    then show ?thesis
    proof cases
      case 1
      have "\<not> quiet G (m_durability m) (m_verified_at m) R"
        using memo_deps_solid(2)[OF ok(2) _ 1] mok g(2) v quiet_Low[of G "m_verified_at m" R] by auto
      then show ?thesis using 1 False g m by (intro exI[of _ "Inr False"] exI[of _ s]) (simp add: validate_def)
    next
      case 2
      then have "quiet G (m_durability m) (m_verified_at m) R" using not_quiet_iff[OF ok(2)] g(2) by (metis not_less)
      then have "still_current F G (ss_store s) k m"
        using shallow_current[OF ok(1) den] m g(2) by (simp add: memo_of_def)
      then show ?thesis using marked[OF g(1,2) m] 2 False g(2)
        by (intro exI[of _ "Inr True"] exI[of _ "mark_verified s k m"]) (simp add: validate_def)
    next
      case 3
      have loud: "\<not> quiet G (m_durability m) (m_verified_at m) R" using 3 not_quiet_iff[OF ok(2)] g(2) by metis
      have stack: "\<forall>x \<in> set (ss_stack s). rk k \<le> rk x" using g(3) by auto
      obtain res s1 where s1: "any_changed fetch s (m_dependencies m) (m_verified_at m) = Some (res, s1)"
        "good F G s1" "keeps rk (rk k) s s1"
        "case res of
           Inl e \<Rightarrow> \<exists>pre d post. m_dependencies m = pre @ d # post \<and>
             (\<forall>x \<in> set pre. unchanged (ss_store s1) (m_verified_at m) x) \<and> h_value G R d = Inl e
         | Inr b \<Rightarrow> b \<or> (\<forall>x \<in> set (m_dependencies m). unchanged (ss_store s1) (m_verified_at m) x)"
        using any_changed_ok[OF fetch below g(1,2) stack] by blast
      have keep: "keeps rk (Suc (rk k)) s s1" by (rule keeps_trans[OF s1(3) keeps_refl[where n = 0]]) simp_all
      have m1: "memo_of s1 k = Some m" and rev: "st_revision (ss_store s1) = R"
        using s1(3) m g(2) by (simp_all add: keeps_def)
      have ok1: "store_ok F G (ss_store s1)" using s1(2) by (simp add: good_def)
      have m1': "st_memos (ss_store s1) k = Some m" using m1 by (simp add: memo_of_def)
      show ?thesis
      proof (cases res)
        case (Inl e)
        then obtain pre d post where "m_dependencies m = pre @ d # post"
          "\<forall>x \<in> set pre. unchanged (ss_store s1) (m_verified_at m) x" "h_value G R d = Inl e"
          using s1(4) by auto
        then have "h_value G R k = Inl e" using deep_error[OF ok1 den m1' 3(1)] rev by blast
        then show ?thesis using Inl s1 keep 3 False g(2)
          by (intro exI[of _ "Inl e"] exI[of _ s1]) (simp add: validate_def)
      next
        case (Inr b)
        show ?thesis
        proof (cases b)
          case True
          then show ?thesis using Inr s1 keep 3 False g(2) m1 loud
            by (intro exI[of _ "Inr False"] exI[of _ s1]) (simp add: validate_def)
        next
          case False
          then have "still_current F G (ss_store s1) k m"
            using deep_current[OF ok1 den m1' _ 3(1)] s1(4) Inr by simp
          note mk = marked[OF s1(2) rev m1 this]
          have "keeps rk (Suc (rk k)) s (mark_verified s1 k m)"
            by (rule keeps_trans[OF keep]) (use mk in auto)
          then show ?thesis using Inr False s1(1) mk 3 \<open>\<not> (m_verified_at m = R \<or> k \<in> set (ss_settled s))\<close> g(2) m1
            by (intro exI[of _ "Inr True"] exI[of _ "mark_verified s1 k m"]) (simp add: validate_def)
        qed
      qed
    qed
  qed
qed

lemma fetch_key_ok:
  assumes rk: "ranked F rk" and den: "denotes F G"
  shows "fetch_ok F rk G R (fetch_key F (h_world G R) n) n"
proof (induction n)
  case 0
  then show ?case by (simp add: fetch_ok_def)
next
  case (Suc n)
  show ?case
    unfolding fetch_ok_def
  proof (intro allI impI)
    fix s k
    assume g: "good F G s" "st_revision (ss_store s) = R" and k: "rk k < Suc n"
      and stack: "\<forall>x \<in> set (ss_stack s). rk k < rk x"
    have i: "inputs_ok F G (ss_store s)" using g(1) by (simp add: good_def store_ok_def)
    have fetch: "fetch_ok F rk G R (fetch_key F (h_world G R) n) (rk k)"
      by (rule fetch_ok_mono[OF Suc]) (use k in simp)
    have open_key: "k \<notin> set (ss_stack s)" using stack by auto
    show "\<exists>s'. fetch_key F (h_world G R) (Suc n) s k = Some (h_value G R k, s') \<and> good F G s' \<and>
      keeps rk (Suc (rk k)) s s' \<and> (isl (h_value G R k) \<or> fetched s' k)"
    proof (cases "st_inputs (ss_store s) k")
      case (Some inp)
      then have "h_value G R k = Inr (in_value inp)" using inputs_okD(1)[OF i, of k] g(2) den by (simp add: denotes_def)
      then show ?thesis using Some g(1) by (simp add: fetched_def)
    next
      case None
      show ?thesis
      proof (cases "memo_of s k")
        case none: None
        then show ?thesis using execute_ok[OF rk den fetch g stack None] None open_key by simp
      next
        case (Some m)
        obtain res s1 where s1: "validate (fetch_key F (h_world G R) n) s k m = Some (res, s1)" "good F G s1"
          "keeps rk (Suc (rk k)) s s1"
          "case res of
             Inl e \<Rightarrow> h_value G R k = Inl e
           | Inr True \<Rightarrow> h_value G R k = Inr (m_value m) \<and> fetched s1 k
           | Inr False \<Rightarrow> memo_of s1 k = Some m \<and> \<not> quiet G (m_durability m) (m_verified_at m) R"
          using validate_ok[OF rk den fetch g stack Some] by blast
        show ?thesis
        proof (cases "res = Inr False")
          case True
          have st1: "st_revision (ss_store s1) = R" "\<forall>x \<in> set (ss_stack s1). rk k < rk x" "st_inputs (ss_store s1) k = None"
            using s1(3) g(2) stack None by (simp_all add: keeps_def)
          obtain s2 where s2: "execute F (h_world G R) (fetch_key F (h_world G R) n) s1 k = Some (h_value G R k, s2)"
            "good F G s2" "keeps rk (Suc (rk k)) s1 s2" "isl (h_value G R k) \<or> fetched s2 k"
            using execute_ok[OF rk den fetch s1(2) st1] s1(4) True by auto
          have "keeps rk (Suc (rk k)) s s2" by (rule keeps_trans[OF s1(3) s2(3)]) simp_all
          then show ?thesis using s1(1) s2 True None Some open_key by simp
        next
          case False
          then show ?thesis using s1 None Some open_key by (cases res) (auto split: bool.splits)
        qed
      qed
    qed
  qed
qed

subsection \<open>Setting an input\<close>

definition values_of :: "(string \<Rightarrow> (string \<times> durability) option) \<Rightarrow> string \<Rightarrow> string option" where
  "values_of table k = map_option fst (table k)"

definition history_of :: "registry \<Rightarrow> (string \<Rightarrow> nat) \<Rightarrow> (nat \<Rightarrow> string) \<Rightarrow>
    (nat \<Rightarrow> string \<Rightarrow> (string \<times> durability) option) \<Rightarrow> (nat \<Rightarrow> durability) \<Rightarrow> history" where
  "history_of F rk W H A = \<lparr>h_in = H, h_level = A, h_world = W,
     h_value = (\<lambda>r k. from_scratch F (values_of (H r)) (W r) (Suc (rk k)) k)\<rparr>"

lemma from_scratch_step:
  assumes rk: "ranked F rk"
  shows "from_scratch F I w (Suc (rk k)) k =
     (case I k of
        Some v \<Rightarrow> Inr v
      | None \<Rightarrow>
          (case F (fst (split_key k)) of
             None \<Rightarrow> Inl (UnknownFunction (fst (split_key k)))
           | Some f \<Rightarrow>
               fst (trace (\<lambda>d. from_scratch F I w (Suc (rk d)) d) w (f (snd (split_key k))) new_frame)))"
proof -
  have same: "trace (from_scratch F I w (rk k)) w (f (snd (split_key k))) new_frame =
      trace (\<lambda>d. from_scratch F I w (Suc (rk d)) d) w (f (snd (split_key k))) new_frame"
    if "F (fst (split_key k)) = Some f" for f
    by (rule trace_cong_below[OF rankedD[OF rk that]]) (rule from_scratch_fuel[OF rk], simp_all)
  show ?thesis
    by (subst from_scratch.simps(2)) (auto simp: same simp del: from_scratch.simps split: option.split)
qed

lemma denotes_history:
  assumes "ranked F rk"
  shows "denotes F (history_of F rk W H A)"
  unfolding denotes_def
proof (intro allI)
  fix r k
  show "h_value (history_of F rk W H A) r k =
     (case h_in (history_of F rk W H A) r k of
        Some p \<Rightarrow> Inr (fst p)
      | None \<Rightarrow> (if registered F k then fst (traced F (history_of F rk W H A) r k)
                 else Inl (UnknownFunction (fst (split_key k)))))"
    using from_scratch_step[OF assms, of "values_of (H r)" "W r" k]
    by (auto simp: history_of_def values_of_def registered_def traced_def simp del: from_scratch.simps split: option.split)
qed

text \<open>Histories that agree up to a revision.\<close>

definition agree :: "history \<Rightarrow> history \<Rightarrow> nat \<Rightarrow> bool" where
  "agree G G' R \<longleftrightarrow> (\<forall>r \<le> R. h_in G' r = h_in G r \<and> h_level G' r = h_level G r \<and>
     h_world G' r = h_world G r \<and> h_value G' r = h_value G r)"

lemma agree_traced: "agree G G' R \<Longrightarrow> r \<le> R \<Longrightarrow> traced F G' r k = traced F G r k"
  by (simp add: agree_def traced_def)

lemma agree_quiet: "agree G G' R \<Longrightarrow> b \<le> R \<Longrightarrow> quiet G' L a b = quiet G L a b"
  unfolding agree_def quiet_def by (metis order_trans)

lemma agree_solid: "solid F G r L k \<Longrightarrow> agree G G' R \<Longrightarrow> r \<le> R \<Longrightarrow> solid F G' r L k"
proof (induction rule: solid.induct)
  case (solid_input k v d)
  then show ?case by (intro solid.solid_input[of _ _ _ v d]) (simp_all add: agree_def)
next
  case (solid_derived k v f)
  show ?case
    by (rule solid.solid_derived[of _ _ _ _ v f])
      (use solid_derived agree_traced[of G G' R r F k] in \<open>simp_all add: agree_def\<close>)
qed

lemma agree_memos:
  assumes "agree G G' (st_revision st)" "memos_ok F G st"
    and "st_memos st' = st_memos st" "st_revision st' = Suc (st_revision st)"
    and "\<forall>d. st_inputs st d \<noteq> None \<longrightarrow> st_inputs st' d \<noteq> None"
  shows "memos_ok F G' st'"
  unfolding memos_ok_def
proof (intro allI impI)
  fix k m
  assume "st_memos st' k = Some m"
  then have m: "memo_ok F G (st_revision st) k m" "edges_ok G st m"
    using assms(2,3) by (simp_all add: memos_ok_def)
  then have v: "m_verified_at m \<le> st_revision st" by (simp add: memo_ok_def)
  have "memo_ok F G' (st_revision st') k m"
    using m(1) agree_traced[OF assms(1) v] agree_solid[OF _ assms(1) v] assms(4) by (simp add: memo_ok_def)
  moreover have "edges_ok G' st' m"
    unfolding edges_ok_def
  proof (intro ballI conjI allI impI)
    fix d
    assume d: "d \<in> set (m_dependencies m)"
    show "st_inputs st' d \<noteq> None \<or> st_memos st' d \<noteq> None"
      using m(2) d assms(3,5) unfolding edges_ok_def by metis
    fix md
    assume "st_memos st' d = Some md"
    then have md: "edge_ok G m d md" "memo_ok F G (st_revision st) d md"
      using m(2) d assms(2,3) by (simp_all add: edges_ok_def memos_ok_def)
    have c: "m_changed_at md \<le> st_revision st" using md(2) by (auto simp: memo_ok_def)
    show "edge_ok G' m d md"
      using md(1) c v assms(1) agree_quiet[OF assms(1)] by (simp add: edge_ok_def agree_def)
  qed
  ultimately show "memo_ok F G' (st_revision st') k m \<and> edges_ok G' st' m" by simp
qed

definition announced_by :: "store \<Rightarrow> string \<Rightarrow> durability \<Rightarrow> durability" where
  "announced_by st k dur = max dur (case st_inputs st k of None \<Rightarrow> Low | Some i \<Rightarrow> in_durability i)"

lemma set_input_inputs_ok:
  assumes ok: "inputs_ok F G st" and agree: "agree G G' (st_revision st)"
    and new: "h_in G' (Suc (st_revision st)) = (h_in G (st_revision st))(k \<mapsto> (v, dur))"
      "h_level G' (Suc (st_revision st)) = announced_by st k dur"
    and k: "\<not> registered F k" and changed: "fst (set_input st k v dur)"
  shows "inputs_ok F G' (snd (set_input st k v dur))"
proof -
  let ?R = "st_revision st" and ?st = "snd (set_input st k v dur)"
  have fields: "st_revision ?st = Suc ?R"
    "st_inputs ?st = (st_inputs st)(k \<mapsto> \<lparr>in_value = v, in_changed_at = Suc ?R, in_durability = dur\<rparr>)"
    "st_changed_at_or_above ?st = (\<lambda>l. if l \<le> announced_by st k dur then Suc ?R else st_changed_at_or_above st l)"
    using changed by (auto simp: set_input_def Let_def announced_by_def less_eq_durability_def split: if_splits)
  have old: "h_in G' r = h_in G r" if "r \<le> ?R" for r using agree that by (simp add: agree_def)
  show ?thesis
    unfolding inputs_ok_def
  proof (intro conjI)
    show "\<forall>x. h_in G' (st_revision ?st) x = map_option (\<lambda>i. (in_value i, in_durability i)) (st_inputs ?st x)"
      using inputs_okD(1)[OF ok] by (simp add: fields new)
    show "\<forall>x i. st_inputs ?st x = Some i \<longrightarrow> in_changed_at i \<le> st_revision ?st \<and>
       (\<forall>r. in_changed_at i \<le> r \<longrightarrow> r \<le> st_revision ?st \<longrightarrow> h_in G' r x = h_in G' (st_revision ?st) x)"
    proof (intro allI impI conjI)
      fix x i
      assume x: "st_inputs ?st x = Some i"
      show "in_changed_at i \<le> st_revision ?st"
        using x inputs_okD(2)[OF ok, of x i] by (auto simp: fields split: if_splits)
      fix r
      assume r: "in_changed_at i \<le> r" "r \<le> st_revision ?st"
      show "h_in G' r x = h_in G' (st_revision ?st) x"
      proof (cases "r = Suc ?R \<or> x = k")
        case True
        then show ?thesis using r x by (auto simp: fields)
      next
        case False
        then have "h_in G r x = h_in G ?R x" using r x inputs_okD(3)[OF ok, of x i r] by (simp add: fields)
        then show ?thesis using False r old[of r] by (simp add: fields new)
      qed
    qed
    show "\<forall>r x u d L. r \<le> st_revision ?st \<longrightarrow> h_in G' r x = Some (u, d) \<longrightarrow> L \<le> d \<longrightarrow>
       quiet G' L r (st_revision ?st) \<longrightarrow> h_in G' (st_revision ?st) x = Some (u, d)"
    proof (intro allI impI)
      fix r x u d L
      assume r: "r \<le> st_revision ?st" "h_in G' r x = Some (u, d)" "L \<le> d" "quiet G' L r (st_revision ?st)"
      show "h_in G' (st_revision ?st) x = Some (u, d)"
      proof (cases "r = Suc ?R")
        case True
        then show ?thesis using r by (simp add: fields)
      next
        case False
        then have le: "r \<le> ?R" using r(1) by (simp add: fields)
        have "quiet G L r ?R"
          using quiet_sub[OF r(4) order_refl, of ?R] agree_quiet[OF agree order_refl] by (simp add: fields)
        then have now: "h_in G ?R x = Some (u, d)"
          using inputs_okD(4)[OF ok _ le r(3)] r(2) old[OF le] by simp
        have "x \<noteq> k"
        proof
          assume "x = k"
          then have "L \<le> announced_by st k dur"
            using inputs_okD(1)[OF ok, of k] now r(3) by (auto simp: announced_by_def le_max_iff_disj)
          then show False
            using r(4)[unfolded quiet_def, rule_format, of "Suc ?R"] le new(2) by (simp add: fields)
        qed
        then show ?thesis using now by (simp add: fields new)
      qed
    qed
    show "\<forall>r x. r \<le> st_revision ?st \<longrightarrow> h_in G' r x \<noteq> None \<longrightarrow> \<not> registered F x"
    proof (intro allI impI notI)
      fix r x
      assume a: "r \<le> st_revision ?st" "h_in G' r x \<noteq> None" "registered F x"
      then have "x \<noteq> k" using k by auto
      then have "h_in G' r x = h_in G (min r ?R) x"
        using a(1) old[of r] new(1) by (cases "r = Suc ?R") (simp_all add: fields)
      then show False using inputs_okD(5)[OF ok a(3), of "min r ?R"] a(2) by simp
    qed
    show "\<forall>L. quiet G' L (st_changed_at_or_above ?st L) (st_revision ?st) \<and>
       st_changed_at_or_above ?st L \<le> st_revision ?st \<and>
       (st_changed_at_or_above ?st L = 0 \<or> L \<le> h_level G' (st_changed_at_or_above ?st L))"
    proof
      fix L
      note q = inputs_okD(6-8)[OF ok, of L]
      show "quiet G' L (st_changed_at_or_above ?st L) (st_revision ?st) \<and>
       st_changed_at_or_above ?st L \<le> st_revision ?st \<and>
       (st_changed_at_or_above ?st L = 0 \<or> L \<le> h_level G' (st_changed_at_or_above ?st L))"
      proof (cases "L \<le> announced_by st k dur")
        case True
        then show ?thesis using new(2) by (simp add: fields)
      next
        case False
        have "quiet G' L (st_changed_at_or_above st L) ?R" using q agree_quiet[OF agree order_refl] by simp
        then have "quiet G' L (st_changed_at_or_above st L) (Suc ?R)"
          using False new(2) by (auto simp: quiet_def le_Suc_eq)
        then show ?thesis using False q agree by (simp add: fields agree_def)
      qed
    qed
  qed
qed

subsection \<open>Requests\<close>

definition store_inv :: "registry \<Rightarrow> (string \<Rightarrow> nat) \<Rightarrow> (nat \<Rightarrow> string) \<Rightarrow> store \<Rightarrow> bool" where
  "store_inv F rk W st \<longleftrightarrow> (\<exists>H A. store_ok F (history_of F rk W H A) st)"

definition input_table :: "store \<Rightarrow> string \<Rightarrow> (string \<times> durability) option" where
  "input_table st k = map_option (\<lambda>i. (in_value i, in_durability i)) (st_inputs st k)"

lemma store_inv_empty: "store_inv F rk W empty_store"
  unfolding store_inv_def
  by (intro exI[of _ "\<lambda>_ _. None"] exI[of _ "\<lambda>_. Low"])
    (simp add: store_ok_def inputs_ok_def memos_ok_def empty_store_def history_of_def)

lemma store_inv_set_input:
  assumes inv: "store_inv F rk W st" and k: "\<not> registered F k"
  shows "store_inv F rk W (snd (set_input st k v dur))"
proof (cases "fst (set_input st k v dur)")
  case False
  then have "snd (set_input st k v dur) = st" by (auto simp: set_input_def Let_def split: if_splits)
  then show ?thesis using inv by simp
next
  case changed: True
  obtain H A where ok: "store_ok F (history_of F rk W H A) st" using inv by (auto simp: store_inv_def)
  let ?R = "st_revision st" and ?st = "snd (set_input st k v dur)"
  let ?H = "H(Suc ?R := (H ?R)(k \<mapsto> (v, dur)))" and ?A = "A(Suc ?R := announced_by st k dur)"
  have agree: "agree (history_of F rk W H A) (history_of F rk W ?H ?A) ?R"
    by (simp add: agree_def history_of_def)
  have "inputs_ok F (history_of F rk W ?H ?A) ?st"
    by (rule set_input_inputs_ok[OF _ agree _ _ k changed])
      (use ok in \<open>simp_all add: store_ok_def, simp_all add: history_of_def\<close>)
  moreover have "memos_ok F (history_of F rk W ?H ?A) ?st"
  proof (rule agree_memos[OF agree])
    show "memos_ok F (history_of F rk W H A) st" using ok by (simp add: store_ok_def)
  qed (use changed in \<open>auto simp: set_input_def Let_def split: if_splits\<close>)
  ultimately show ?thesis unfolding store_inv_def store_ok_def by blast
qed

lemma evaluate_from_scratch:
  assumes rk: "ranked F rk" and inv: "store_inv F rk W st" and fuel: "rk k < fuel"
  obtains st' where
    "evaluate F (W (st_revision st)) fuel st k =
       Some (from_scratch F (values_of (input_table st)) (W (st_revision st)) fuel k, st')"
    "store_inv F rk W st'" "input_table st' = input_table st" "st_revision st' = st_revision st"
proof -
  obtain H A where ok: "store_ok F (history_of F rk W H A) st" using inv by (auto simp: store_inv_def)
  let ?G = "history_of F rk W H A" and ?s = "\<lparr>ss_store = st, ss_stack = [], ss_settled = []\<rparr>"
  have g: "good F ?G ?s" using ok by (simp add: good_def)
  obtain s' where s': "fetch_key F (h_world ?G (st_revision st)) fuel ?s k = Some (h_value ?G (st_revision st) k, s')"
    "good F ?G s'" "keeps rk (Suc (rk k)) ?s s'"
    using fetch_okE[OF fetch_key_ok[OF rk denotes_history[OF rk, of W H A], of "st_revision st" fuel] g _ fuel]
    by auto
  have "H (st_revision st) = input_table st"
    using inputs_okD(1)[of F ?G st] ok by (auto simp: store_ok_def history_of_def input_table_def fun_eq_iff)
  then have "h_value ?G (st_revision st) k =
      from_scratch F (values_of (input_table st)) (W (st_revision st)) fuel k"
    using from_scratch_fuel[where n = "Suc (rk k)", OF rk _ fuel] by (simp add: history_of_def del: from_scratch.simps)
  then have "evaluate F (W (st_revision st)) fuel st k =
      Some (from_scratch F (values_of (input_table st)) (W (st_revision st)) fuel k, ss_store s')"
    using s'(1) by (simp add: evaluate_def history_of_def)
  moreover have "store_inv F rk W (ss_store s')" using s'(2) by (auto simp: good_def store_inv_def)
  moreover have "input_table (ss_store s') = input_table st" "st_revision (ss_store s') = st_revision st"
    using s'(3) by (simp_all add: keeps_def input_table_def fun_eq_iff)
  ultimately show ?thesis using that by blast
qed

text \<open>A caller's requests, and their answers with and without the memo tables.\<close>

datatype request = Set_Input string string durability | Evaluate string

fun run_requests ::
    "registry \<Rightarrow> (nat \<Rightarrow> string) \<Rightarrow> nat \<Rightarrow> store \<Rightarrow> request list \<Rightarrow> ((eval_error + string) list \<times> store) option" where
  "run_requests F W fuel st [] = Some ([], st)"
| "run_requests F W fuel st (Set_Input k v dur # rs) = run_requests F W fuel (snd (set_input st k v dur)) rs"
| "run_requests F W fuel st (Evaluate k # rs) =
     (case evaluate F (W (st_revision st)) fuel st k of
        None \<Rightarrow> None
      | Some (res, st') \<Rightarrow>
          (case run_requests F W fuel st' rs of None \<Rightarrow> None | Some (out, st'') \<Rightarrow> Some (res # out, st'')))"

fun answers_from_scratch ::
    "registry \<Rightarrow> (nat \<Rightarrow> string) \<Rightarrow> nat \<Rightarrow> (string \<Rightarrow> (string \<times> durability) option) \<Rightarrow> nat \<Rightarrow> request list \<Rightarrow>
     (eval_error + string) list" where
  "answers_from_scratch F W fuel table r [] = []"
| "answers_from_scratch F W fuel table r (Set_Input k v dur # rs) =
     (if table k = Some (v, dur) then answers_from_scratch F W fuel table r rs
      else answers_from_scratch F W fuel (table(k \<mapsto> (v, dur))) (Suc r) rs)"
| "answers_from_scratch F W fuel table r (Evaluate k # rs) =
     from_scratch F (values_of table) (W r) fuel k # answers_from_scratch F W fuel table r rs"

definition request_ok :: "registry \<Rightarrow> (string \<Rightarrow> nat) \<Rightarrow> nat \<Rightarrow> request \<Rightarrow> bool" where
  "request_ok F rk fuel q \<longleftrightarrow> (case q of
     Set_Input k v dur \<Rightarrow> \<not> registered F k
   | Evaluate k \<Rightarrow> rk k < fuel)"

lemma set_input_table:
  "input_table (snd (set_input st k v dur)) =
     (if input_table st k = Some (v, dur) then input_table st else (input_table st)(k \<mapsto> (v, dur)))"
  "st_revision (snd (set_input st k v dur)) =
     (if input_table st k = Some (v, dur) then st_revision st else Suc (st_revision st))"
  by (cases "st_inputs st k"; auto simp: set_input_def Let_def input_table_def fun_eq_iff)+

lemma run_requests_from_scratch:
  assumes "ranked F rk"
  shows "store_inv F rk W st \<Longrightarrow> list_all (request_ok F rk fuel) rs \<Longrightarrow>
    \<exists>st'. run_requests F W fuel st rs =
      Some (answers_from_scratch F W fuel (input_table st) (st_revision st) rs, st') \<and> store_inv F rk W st'"
proof (induction rs arbitrary: st)
  case Nil
  then show ?case by simp
next
  case (Cons q rs)
  show ?case
  proof (cases q)
    case (Set_Input k v dur)
    have "store_inv F rk W (snd (set_input st k v dur))"
      by (rule store_inv_set_input[OF Cons.prems(1)]) (use Cons.prems(2) Set_Input in \<open>simp add: request_ok_def\<close>)
    then show ?thesis
      using Cons.IH[of "snd (set_input st k v dur)"] Cons.prems(2) Set_Input set_input_table[of st k v dur]
      by (simp split: if_splits)
  next
    case (Evaluate k)
    obtain st' where "evaluate F (W (st_revision st)) fuel st k =
       Some (from_scratch F (values_of (input_table st)) (W (st_revision st)) fuel k, st')"
      "store_inv F rk W st'" "input_table st' = input_table st" "st_revision st' = st_revision st"
      by (rule evaluate_from_scratch[OF assms Cons.prems(1), of k fuel])
        (use Cons.prems(2) Evaluate in \<open>simp_all add: request_ok_def\<close>)
    then show ?thesis using Cons.IH[of st'] Cons.prems(2) Evaluate by auto
  qed
qed

lemma input_table_empty: "input_table empty_store = (\<lambda>_. None)" "st_revision empty_store = 0"
  by (simp_all add: input_table_def empty_store_def fun_eq_iff)

text \<open>
  Within one revision a memo that read something untracked is reused: \<open>validate\<close> accepts a memo
  verified at this revision before it looks at the mark.
\<close>

definition clock_registry :: registry where
  "clock_registry name = (if name = ''now'' then Some (\<lambda>_. Untracked Return) else None)"

lemma untracked_memo_reused_within_revision:
  "\<exists>st. evaluate clock_registry ''noon'' 2 empty_store ''now:'' = Some (Inr ''noon'', st) \<and>
     map_option fst (evaluate clock_registry ''night'' 2 st ''now:'') = Some (Inr ''noon'')"
  by (simp add: evaluate_def numeral_2_eq_2 empty_store_def memo_of_def execute_def split_key_def
      clock_registry_def put_memo_def settle_key_def memo_after_def frame_durability_def validate_def Let_def)

text \<open>An example: an input that drops from high to low durability.\<close>

definition twice_registry :: registry where
  "twice_registry name = (if name = ''f'' then Some (\<lambda>_. Read ''a'' (\<lambda>v. Return (v @ v))) else None)"

definition twice_rank :: "string \<Rightarrow> nat" where
  "twice_rank k = (if k = ''a'' then 0 else 1)"

lemma twice_ranked: "ranked twice_registry twice_rank"
  by (auto simp: ranked_def twice_registry_def twice_rank_def split_key_def split: if_splits)

subsection \<open>Properties\<close>

text \<open>
  C12. When the registered functions form a DAG and inputs are set only under unregistered names,
  any sequence of inputs set and keys evaluated gets, through the memo tables with their stamps,
  durabilities and early cutoff, exactly the values and errors that recomputing every key from the
  inputs gives, what a function reads off the graph changing at most when the revision does; and
  fuel above the rank of every key evaluated is enough.
\<close>

theorem incremental_is_from_scratch:
  assumes "ranked F rk" "list_all (request_ok F rk fuel) rs"
  shows "\<exists>st. run_requests F W fuel empty_store rs = Some (answers_from_scratch F W fuel (\<lambda>_. None) 0 rs, st)"
  using run_requests_from_scratch [OF assms(1) store_inv_empty assms(2)] by (auto simp: input_table_empty)

lemma incremental_is_from_scratch_witness:
  "\<exists>st. run_requests twice_registry (\<lambda>_. []) 2 empty_store
     [Set_Input ''a'' ''x'' High, Evaluate ''f:'', Set_Input ''a'' ''y'' Low, Evaluate ''f:''] =
     Some ([Inr ''xx'', Inr ''yy''], st)"
  using incremental_is_from_scratch [OF twice_ranked, of 2
    "[Set_Input ''a'' ''x'' High, Evaluate ''f:'', Set_Input ''a'' ''y'' Low, Evaluate ''f:'']" "\<lambda>_. []"]
  by (simp add: request_ok_def registered_def twice_registry_def twice_rank_def split_key_def values_of_def
      numeral_2_eq_2 new_frame_def)

end
