(* ===== verification/Evidence.thy ===== *)
theory Evidence
  imports Claims Base64
begin

text \<open>
  The records and pure rules of the evidence profile, \<open>evidence.rs\<close>: the chunk limit, the check of a
  prepare payload and the descriptor it becomes, manifests and their children, and the object a
  record keeps alive.
\<close>

definition HOLD :: string where "HOLD = ''evidence.hold''"
definition MANIFEST_MEDIA_TYPE :: string where
  "MANIFEST_MEDIA_TYPE = ''application/vnd.combraton.evidence-manifest+json''"
definition MANIFEST_FORMAT :: string where "MANIFEST_FORMAT = ''combraton-evidence-manifest/1''"
definition CHUNK_OVERHEAD_BYTES :: int where "CHUNK_OVERHEAD_BYTES = 2048"
definition TRACKED :: "string list" where "TRACKED = [''evidence.hold'', ''evidence.manifest_child'']"

definition artifact_key :: "string \<Rightarrow> subject_key" where
  "artifact_key i = \<lparr>sk_kind = ARTIFACT, sk_id = i\<rparr>"

definition hold_key :: "string \<Rightarrow> subject_key" where
  "hold_key i = \<lparr>sk_kind = HOLD, sk_id = i\<rparr>"

definition chunk_limit :: "int \<Rightarrow> int \<Rightarrow> int \<Rightarrow> int" where
  "chunk_limit max_payload max_frame max_string =
     (let encoded = max 0 (min (min (max_payload - CHUNK_OVERHEAD_BYTES) (max_frame - CHUNK_OVERHEAD_BYTES)) max_string)
      in (encoded div 4) * 3)"

subsection \<open>Descriptors\<close>

definition string_at :: "jvalue \<Rightarrow> string \<Rightarrow> string \<Rightarrow> string checked" where
  "string_at v name path =
     (case get v name of
        Some (String t) \<Rightarrow> if t \<noteq> [] then Inr t else Inl (invalid_envelope path ''required non-empty string'')
      | _ \<Rightarrow> Inl (invalid_envelope path ''required non-empty string''))"

definition check_instant :: "jvalue option \<Rightarrow> string \<Rightarrow> unit checked" where
  "check_instant v path =
     (case v of
        Some (String t) \<Rightarrow> if is_instant t then Inr () else Inl (invalid_envelope path ''not a UTC instant'')
      | _ \<Rightarrow> Inl (invalid_envelope path ''not a UTC instant''))"

definition check_only :: "jvalue \<Rightarrow> string list \<Rightarrow> string \<Rightarrow> unit checked" where
  "check_only v allowed path =
     (case v of
        Object members \<Rightarrow> check_known path allowed members
      | _ \<Rightarrow> Inl (invalid_envelope path ''not an object''))"

text \<open>\<open>str::split_once\<close> and \<open>str::contains\<close> with a text pattern, and \<open>to_ascii_lowercase\<close>.\<close>

fun split_once_text :: "string \<Rightarrow> string \<Rightarrow> (string \<times> string) option" where
  "split_once_text pat s =
     (if prefix pat s then Some ([], drop (length pat) s)
      else (case s of
              [] \<Rightarrow> None
            | c # cs \<Rightarrow> map_option (\<lambda>(before, after). (c # before, after)) (split_once_text pat cs)))"

definition contains_text :: "string \<Rightarrow> string \<Rightarrow> bool" where
  "contains_text s pat = sublist pat s"

definition to_ascii_lowercase :: "string \<Rightarrow> string" where
  "to_ascii_lowercase s = map (\<lambda>c. if is_ascii_uppercase c then char_of (bval c + 32) else c) s"

definition SIGNALS :: "string list" where
  "SIGNALS = [''signature'', ''token'', ''credential'', ''secret'', ''password'', ''passwd'', ''sig'', ''key'',
     ''auth'', ''session'']"

definition locator_carries_credentials :: "string \<Rightarrow> bool" where
  "locator_carries_credentials locator =
     (let after_scheme = (case split_once_text ''://'' locator of None \<Rightarrow> locator | Some (_, rest) \<Rightarrow> rest);
          authority = hd (split_on (\<lambda>c. c \<in> set ''/?#'') after_scheme)
      in if CHR ''@'' \<in> set authority then True
         else (case split_once CHR ''?'' locator of
                 None \<Rightarrow> False
               | Some (_, q) \<Rightarrow>
                   (let query = hd (split_on (\<lambda>c. c = CHR ''#'') q) in
                    list_ex (\<lambda>pair.
                      let name = to_ascii_lowercase (hd (split_on (\<lambda>c. c = CHR ''='') pair)) in
                      list_ex (contains_text name) SIGNALS)
                      (split_on (\<lambda>c. c = CHR ''&'') query))))"

definition DESCRIPTOR_REQUIRED :: "string list" where
  "DESCRIPTOR_REQUIRED = [''digest'', ''size'', ''media_type'', ''producer'', ''source'', ''scope'', ''capture'', ''coverage'',
     ''retention_class'']"

definition DESCRIPTOR_MEMBERS :: "string list" where
  "DESCRIPTOR_MEMBERS = [''digest'', ''size'', ''media_type'', ''producer'', ''source'', ''scope'', ''capture'', ''coverage'',
     ''work'', ''retention_class'', ''locator'']"

definition check_descriptor_digest :: "jvalue \<Rightarrow> unit checked" where
  "check_descriptor_digest payload =
     rbind (string_at payload ''digest'' ''/payload/digest'') (\<lambda>digest.
     (case parse_digest digest of
        Inr (Sha256, _) \<Rightarrow> Inr ()
      | Inr (Sha512, _) \<Rightarrow> Inl (unsupported_digest_algorithm ''sha512'' [''sha256''])
      | Inl (UnsupportedAlgorithm algorithm) \<Rightarrow> Inl (unsupported_digest_algorithm algorithm [''sha256''])
      | Inl _ \<Rightarrow> Inl (invalid_envelope ''/payload/digest'' ''malformed digest'')))"

definition check_size :: "jvalue \<Rightarrow> unit checked" where
  "check_size payload =
     (case get payload ''size'' of
        Some (Integer n) \<Rightarrow>
          if n \<ge> 0 then Inr () else Inl (invalid_envelope ''/payload/size'' ''not a non-negative integer'')
      | _ \<Rightarrow> Inl (invalid_envelope ''/payload/size'' ''not a non-negative integer''))"

text \<open>The source reads required members with \<open>expect\<close>, after their presence is checked; \<open>present\<close> reads them.\<close>

definition present :: "jvalue \<Rightarrow> string \<Rightarrow> jvalue" where
  "present v name = (case get v name of None \<Rightarrow> Null | Some w \<Rightarrow> w)"

definition check_producer :: "jvalue \<Rightarrow> string \<Rightarrow> unit checked" where
  "check_producer payload who =
     (let producer = present payload ''producer'' in
      rbind (check_only producer [''principal'', ''producer_id''] ''/payload/producer'') (\<lambda>_.
      (case get producer ''principal'' of
         None \<Rightarrow> Inr ()
       | Some named \<Rightarrow>
           guard (\<not> as_str named \<noteq> Some who)
             (invalid_envelope ''/payload/producer/principal'' ''the producer is always the session principal''))))"

definition check_source :: "jvalue \<Rightarrow> string checked" where
  "check_source payload =
     (let source = present payload ''source'' in
      rbind (check_only source [''kind'', ''id''] ''/payload/source'') (\<lambda>_.
      rbind (string_at source ''kind'' ''/payload/source/kind'') (\<lambda>source_kind.
      rbind (string_at source ''id'' ''/payload/source/id'') (\<lambda>_. Inr source_kind))))"

text \<open>\<open>Option<&str>\<close> compared with \<open>>\<close>: nothing is before everything.\<close>

fun later :: "string option \<Rightarrow> string option \<Rightarrow> bool" where
  "later (Some a) (Some b) = (a > b)"
| "later (Some a) None = True"
| "later None b = False"

definition check_capture :: "jvalue \<Rightarrow> unit checked" where
  "check_capture payload =
     (let capture = present payload ''capture'' in
      rbind (check_only capture [''captured_at'', ''uncertainty'', ''anchors''] ''/payload/capture'') (\<lambda>_.
      rbind (check_instant (get capture ''captured_at'') ''/payload/capture/captured_at'') (\<lambda>_.
      if_present (get capture ''uncertainty'') (\<lambda>uncertainty.
        rbind (check_only uncertainty [''not_before'', ''not_after''] ''/payload/capture/uncertainty'') (\<lambda>_.
        rbind (check_instant (get uncertainty ''not_before'') ''/payload/capture/uncertainty/not_before'') (\<lambda>_.
        rbind (check_instant (get uncertainty ''not_after'') ''/payload/capture/uncertainty/not_after'') (\<lambda>_.
        guard (\<not> later (member_str uncertainty ''not_before'') (member_str uncertainty ''not_after''))
          (invalid_envelope ''/payload/capture/uncertainty'' ''not_before is after not_after''))))))))"

definition check_coverage :: "jvalue \<Rightarrow> string \<Rightarrow> unit checked" where
  "check_coverage payload source_kind =
     (let coverage = present payload ''coverage''; completeness = member_str coverage ''completeness'' in
      rbind (check_only coverage [''completeness'', ''covered'', ''gaps''] ''/payload/coverage'') (\<lambda>_.
      rbind (guard (completeness \<in> {Some ''complete'', Some ''partial'', Some ''unknown''})
        (invalid_envelope ''/payload/coverage/completeness'' ''not complete, partial or unknown'')) (\<lambda>_.
      guard (\<not> (source_kind = ''terminal_output'' \<and> completeness = Some ''complete''))
        (invalid_envelope ''/payload/coverage/completeness'' ''terminal output cannot declare complete coverage''))))"

definition check_work :: "jvalue \<Rightarrow> unit checked" where
  "check_work payload =
     if_present (get payload ''work'') (\<lambda>work.
       rbind (check_only work [''kind'', ''id''] ''/payload/work'') (\<lambda>_.
       rbind (string_at work ''kind'' ''/payload/work/kind'') (\<lambda>_.
       rbind (string_at work ''id'' ''/payload/work/id'') (\<lambda>_. Inr ()))))"

definition check_locator :: "jvalue \<Rightarrow> unit checked" where
  "check_locator payload =
     if_present (get payload ''locator'') (\<lambda>locator.
       (case as_str locator of
          None \<Rightarrow> Inl (invalid_envelope ''/payload/locator'' ''not a string'')
        | Some t \<Rightarrow>
            if t = [] then Inl (invalid_envelope ''/payload/locator'' ''not a string'')
            else guard (\<not> locator_carries_credentials t)
              (invalid_envelope ''/payload/locator'' ''a locator must not carry credentials'')))"

fun fill_producer :: "string \<Rightarrow> (string \<times> jvalue) list \<Rightarrow> (string \<times> jvalue) list" where
  "fill_producer who [] = []"
| "fill_producer who ((name, v) # members) =
     (if name = ''producer'' then
        (case v of
           Object producer \<Rightarrow>
             if list_ex (\<lambda>(n, _). n = ''principal'') producer then (name, v) # members
             else (name, Object ((''principal'', String who) # producer)) # members
         | _ \<Rightarrow> (name, v) # members)
      else (name, v) # fill_producer who members)"

definition with_producer :: "string \<Rightarrow> jvalue \<Rightarrow> jvalue" where
  "with_producer who payload =
     (case payload of Object members \<Rightarrow> Object (fill_producer who members) | _ \<Rightarrow> payload)"

definition parse_descriptor :: "jvalue \<Rightarrow> string \<Rightarrow> jvalue checked" where
  "parse_descriptor payload who =
     rbind (check_only payload DESCRIPTOR_MEMBERS ''/payload'') (\<lambda>_.
     rbind (check_present ''/payload'' payload DESCRIPTOR_REQUIRED) (\<lambda>_.
     rbind (check_descriptor_digest payload) (\<lambda>_.
     rbind (check_size payload) (\<lambda>_.
     rbind (string_at payload ''media_type'' ''/payload/media_type'') (\<lambda>_.
     rbind (string_at payload ''scope'' ''/payload/scope'') (\<lambda>_.
     rbind (string_at payload ''retention_class'' ''/payload/retention_class'') (\<lambda>_.
     rbind (check_producer payload who) (\<lambda>_.
     rbind (check_source payload) (\<lambda>source_kind.
     rbind (check_capture payload) (\<lambda>_.
     rbind (check_coverage payload source_kind) (\<lambda>_.
     rbind (check_work payload) (\<lambda>_.
     rbind (check_locator payload) (\<lambda>_. Inr (with_producer who payload))))))))))))))"

subsection \<open>Manifests\<close>

record child =
  ch_role :: string
  ch_provider :: "string option"
  ch_artifact :: string
  ch_digest :: string
  ch_required :: bool

definition child_reference :: "child \<Rightarrow> jvalue" where
  "child_reference c = Object
     ((case ch_provider c of None \<Rightarrow> [] | Some p \<Rightarrow> [(''provider'', String p)]) @
      [(''artifact'', Object [(''kind'', String ARTIFACT), (''id'', String (ch_artifact c))]),
       (''digest'', String (ch_digest c))])"

definition child_to_value :: "child \<Rightarrow> jvalue" where
  "child_to_value c = Object
     [(''role'', String (ch_role c)), (''evidence'', child_reference c), (''required'', Bool (ch_required c))]"

definition artifact_member :: "jvalue \<Rightarrow> string \<Rightarrow> string option" where
  "artifact_member evidence name = Option.bind (get evidence ''artifact'') (\<lambda>artifact. member_str artifact name)"

definition child_from_value :: "jvalue \<Rightarrow> child option" where
  "child_from_value v =
     Option.bind (get v ''evidence'') (\<lambda>evidence.
     Option.bind (member_str v ''role'') (\<lambda>role.
     Option.bind (artifact_member evidence ''id'') (\<lambda>artifact.
     Option.bind (member_str evidence ''digest'') (\<lambda>digest.
       Some \<lparr>ch_role = role, ch_provider = member_str evidence ''provider'', ch_artifact = artifact,
             ch_digest = digest, ch_required = (get v ''required'' = Some (Bool True))\<rparr>))))"

definition only_members :: "string list \<Rightarrow> jvalue \<Rightarrow> bool" where
  "only_members allowed v = (case v of Object members \<Rightarrow> list_all (\<lambda>(n, _). n \<in> set allowed) members | _ \<Rightarrow> False)"

definition bool_at :: "jvalue \<Rightarrow> string \<Rightarrow> bool" where
  "bool_at v name = (case get v name of Some (Bool _) \<Rightarrow> True | _ \<Rightarrow> False)"

definition manifest_child :: "jvalue \<Rightarrow> child option" where
  "manifest_child v =
     (if \<not> only_members [''role'', ''evidence'', ''required''] v then None
      else if \<not> bool_at v ''required'' then None
      else Option.bind (get v ''evidence'') (\<lambda>evidence.
           Option.bind (artifact_member evidence ''kind'') (\<lambda>kind.
           if kind \<noteq> ARTIFACT then None
           else Option.bind (member_str evidence ''digest'') (\<lambda>digest.
                case parse_digest digest of Inl _ \<Rightarrow> None | Inr _ \<Rightarrow> child_from_value v))))"

fun manifest_children :: "jvalue list \<Rightarrow> child list option" where
  "manifest_children [] = Some []"
| "manifest_children (v # vs) =
     Option.bind (manifest_child v) (\<lambda>c. map_option ((#) c) (manifest_children vs))"

definition parse_manifest :: "string \<Rightarrow> child list option" where
  "parse_manifest bytes =
     (case parse bytes of
        Some (Inr v) \<Rightarrow>
          if \<not> only_members [''format'', ''children''] v \<or> member_str v ''format'' \<noteq> Some MANIFEST_FORMAT then None
          else (case get v ''children'' of Some (Array items) \<Rightarrow> manifest_children items | _ \<Rightarrow> None)
      | _ \<Rightarrow> None)"

subsection \<open>Roots and availability\<close>

definition object_root :: "jvalue \<Rightarrow> string option" where
  "object_root record =
     (let is_sealed = (member_str record ''state'' = Some ''sealed'');
          confirmed = (case get record ''purge'' of None \<Rightarrow> False | Some p \<Rightarrow> get p ''confirmed_at'' \<noteq> None)
      in if \<not> is_sealed \<or> confirmed then None
         else Option.bind (get record ''descriptor'') (\<lambda>d. member_str d ''digest''))"

definition availability_value :: "string \<Rightarrow> string option \<Rightarrow> jvalue" where
  "availability_value state reason =
     Object ((''state'', String state) # (case reason of None \<Rightarrow> [] | Some r \<Rightarrow> [(''reason'', String r)]))"

subsection \<open>What the checks accept\<close>

lemma check_only_Inr [result_simps]:
  "check_only v allowed path = Inr u \<longleftrightarrow> (\<exists>ms. v = Object ms \<and> fst ` set ms \<subseteq> set allowed)"
  by (auto simp: check_only_def result_simps split: jvalue.splits)

lemma string_at_Inr [result_simps]:
  "string_at v name path = Inr t \<longleftrightarrow> get v name = Some (String t) \<and> t \<noteq> []"
  by (auto simp: string_at_def split: option.splits jvalue.splits)

lemma check_instant_Inr [result_simps]:
  "check_instant v path = Inr u \<longleftrightarrow> (\<exists>t. v = Some (String t) \<and> is_instant t)"
  by (auto simp: check_instant_def split: option.splits jvalue.splits)

lemma check_descriptor_digest_Inr [result_simps]:
  "check_descriptor_digest v = Inr u \<longleftrightarrow> (\<exists>t hex. get v ''digest'' = Some (String t) \<and> parse_digest t = Inr (Sha256, hex))"
proof -
  have e: "parse_digest [] = Inl Malformed" by (simp add: parse_digest_def)
  have c: "(case parse_digest t of
        Inr (Sha256, _) \<Rightarrow> Inr ()
      | Inr (Sha512, _) \<Rightarrow> Inl (unsupported_digest_algorithm ''sha512'' [''sha256''])
      | Inl (UnsupportedAlgorithm algorithm) \<Rightarrow> Inl (unsupported_digest_algorithm algorithm [''sha256''])
      | Inl _ \<Rightarrow> Inl (invalid_envelope ''/payload/digest'' ''malformed digest'')) = Inr u \<longleftrightarrow>
      (\<exists>hex. parse_digest t = Inr (Sha256, hex))" for t
    by (auto split: sum.split algorithm.split digest_error.split)
  have n: "t \<noteq> []" if "parse_digest t = Inr x" for t x using that e by auto
  show ?thesis
    unfolding check_descriptor_digest_def rbind_Inr_iff c string_at_Inr using n by blast
qed

lemma check_producer_Inr [result_simps]:
  "check_producer v who = Inr u \<longleftrightarrow>
     (\<exists>ms. present v ''producer'' = Object ms \<and> fst ` set ms \<subseteq> {''principal'', ''producer_id''} \<and>
        (\<forall>named. map_of ms ''principal'' = Some named \<longrightarrow> named = String who))"
  by (auto simp: check_producer_def result_simps Let_def split: option.splits)

lemma check_locator_Inr [result_simps]:
  "check_locator v = Inr u \<longleftrightarrow> (\<forall>l. get v ''locator'' = Some l \<longrightarrow>
     (\<exists>t. l = String t \<and> t \<noteq> [] \<and> \<not> locator_carries_credentials t))"
proof (cases "get v ''locator''")
  case (Some l)
  then show ?thesis by (cases l) (auto simp: check_locator_def result_simps)
qed (simp add: check_locator_def if_present_def)

lemma check_source_Inr [result_simps]:
  "check_source v = Inr knd \<Longrightarrow> get (present v ''source'') ''kind'' = Some (String knd)"
  by (auto simp: check_source_def result_simps Let_def)

lemma check_coverage_Inr [result_simps]:
  "check_coverage v knd = Inr u \<longleftrightarrow>
     (\<exists>ms. present v ''coverage'' = Object ms \<and> fst ` set ms \<subseteq> {''completeness'', ''covered'', ''gaps''}) \<and>
     member_str (present v ''coverage'') ''completeness'' \<in> {Some ''complete'', Some ''partial'', Some ''unknown''} \<and>
     \<not> (knd = ''terminal_output'' \<and> member_str (present v ''coverage'') ''completeness'' = Some ''complete'')"
  by (auto simp: check_coverage_def result_simps Let_def)

lemma fill_producer_other: "n \<noteq> ''producer'' \<Longrightarrow> map_of (fill_producer who ms) n = map_of ms n"
  by (induction ms) (auto split: jvalue.splits)

lemma list_ex_named: "list_ex (\<lambda>(n, _). n = k) ms \<longleftrightarrow> map_of ms k \<noteq> None"
  by (induction ms) auto

lemma fill_producer_producer:
  "map_of ms ''producer'' = Some (Object pm) \<Longrightarrow>
   map_of (fill_producer who ms) ''producer'' =
     Some (Object (if map_of pm ''principal'' = None then (''principal'', String who) # pm else pm))"
  by (induction ms) (auto simp: list_ex_named split: if_splits)

lemma present_Some: "get v n = Some w \<Longrightarrow> present v n = w"
  by (simp add: present_def)

lemma parse_descriptorE:
  assumes "parse_descriptor payload who = Inr d"
  obtains pm t hex knd where "get d ''producer'' = Some (Object pm)" "map_of pm ''principal'' = Some (String who)"
    "\<forall>n. n \<noteq> ''producer'' \<longrightarrow> get d n = get payload n" "get payload ''digest'' = Some (String t)"
    "parse_digest t = Inr (Sha256, hex)" "check_locator payload = Inr ()"
    "check_source payload = Inr knd" "check_coverage payload knd = Inr ()"
    "set DESCRIPTOR_REQUIRED \<subseteq> set (keys payload)"
proof -
  have a: "check_only payload DESCRIPTOR_MEMBERS ''/payload'' = Inr ()"
    "check_present ''/payload'' payload DESCRIPTOR_REQUIRED = Inr ()"
    "check_descriptor_digest payload = Inr ()" "check_producer payload who = Inr ()"
    "check_locator payload = Inr ()" and d: "d = with_producer who payload"
    using assms by (auto simp: parse_descriptor_def rbind_Inr_iff)
  obtain knd where k: "check_source payload = Inr knd" "check_coverage payload knd = Inr ()"
    using assms by (auto simp: parse_descriptor_def rbind_Inr_iff)
  obtain ms where ms: "payload = Object ms" using a(1) by (auto simp: result_simps)
  have req: "set DESCRIPTOR_REQUIRED \<subseteq> set (keys payload)"
    using a(2) get_None_iff[of payload] by (fastforce simp: result_simps)
  then have "''producer'' \<in> set (keys payload)" by (auto simp: DESCRIPTOR_REQUIRED_def)
  then obtain p where p: "get payload ''producer'' = Some p"
    using get_None_iff[of payload "''producer''"] by (cases "get payload ''producer''") auto
  obtain pm where pm: "p = Object pm" "\<forall>named. map_of pm ''principal'' = Some named \<longrightarrow> named = String who"
    using a(4) present_Some[OF p] by (auto simp: result_simps)
  obtain t hex where t: "get payload ''digest'' = Some (String t)" "parse_digest t = Inr (Sha256, hex)"
    using a(3) by (auto simp: result_simps)
  have "get d ''producer'' =
      Some (Object (if map_of pm ''principal'' = None then (''principal'', String who) # pm else pm))"
    using fill_producer_producer[of ms pm who] p pm(1) by (simp add: d ms with_producer_def)
  moreover have "map_of (if map_of pm ''principal'' = None then (''principal'', String who) # pm else pm) ''principal'' = Some (String who)"
    using pm(2) by auto
  moreover have "\<forall>n. n \<noteq> ''producer'' \<longrightarrow> get d n = get payload n"
    by (simp add: d ms with_producer_def fill_producer_other)
  ultimately show ?thesis using that t a(5) k req by blast
qed

subsection \<open>Children and manifests read back\<close>

definition child_ok :: "child \<Rightarrow> bool" where
  "child_ok c \<longleftrightarrow> text_ok (ch_role c) \<and> text_ok (ch_artifact c) \<and> text_ok (ch_digest c) \<and>
     (case ch_provider c of None \<Rightarrow> True | Some p \<Rightarrow> text_ok p) \<and> (\<exists>d. parse_digest (ch_digest c) = Inr d)"

definition manifest_value :: "child list \<Rightarrow> jvalue" where
  "manifest_value cs = Object
     [(''format'', String MANIFEST_FORMAT), (''children'', Array (map child_to_value cs))]"

lemma child_from_to_value: "child_from_value (child_to_value c) = Some c"
  by (cases "ch_provider c") (simp_all add: child_from_value_def child_to_value_def child_reference_def artifact_member_def member_str_def)

lemma only_members_sorted: "only_members allowed (sorted_members v) = only_members allowed v"
  by (cases v) (auto simp: only_members_def list_all_iff)

lemma member_str_sorted: "in_domain v \<Longrightarrow> member_str (sorted_members v) n = member_str v n"
proof -
  assume "in_domain v"
  have "as_str (sorted_members w) = as_str w" for w by (cases w) auto
  then show ?thesis using get_sorted_members[OF \<open>in_domain v\<close>, of n]
    by (cases "get v n") (simp_all add: member_str_def)
qed

lemma sorted_Bool_iff: "sorted_members w = Bool b \<longleftrightarrow> w = Bool b"
  by (cases w) auto

lemma child_reads_sorted:
  assumes "in_domain v"
  shows "manifest_child (sorted_members v) = manifest_child v"
proof -
  have r: "get (sorted_members v) ''required'' = Some (Bool b) \<longleftrightarrow> get v ''required'' = Some (Bool b)" for b
    by (simp add: get_sorted_members[OF assms] sorted_Bool_iff)
  have rb: "bool_at (sorted_members v) ''required'' = bool_at v ''required''"
  proof (cases "get v ''required''")
    case (Some w)
    then show ?thesis by (cases w) (simp_all add: bool_at_def get_sorted_members[OF assms])
  qed (simp add: bool_at_def get_sorted_members[OF assms])
  show ?thesis
  proof (cases "get v ''evidence''")
    case None
    then show ?thesis by (simp add: manifest_child_def only_members_sorted rb get_sorted_members[OF assms])
  next
    case (Some e)
    have e: "in_domain e" by (rule in_domain_get[OF assms Some])
    have art: "artifact_member (sorted_members e) n = artifact_member e n" for n
      using member_str_sorted[OF in_domain_get[OF e]]
      by (cases "get e ''artifact''") (simp_all add: artifact_member_def get_sorted_members[OF e])
    show ?thesis
      by (simp add: manifest_child_def child_from_value_def only_members_sorted rb r get_sorted_members[OF assms] Some
          member_str_sorted[OF assms] member_str_sorted[OF e] art sorted_Bool_iff cong: if_cong sum.case_cong)
  qed
qed

lemma manifest_child_to_value:
  "child_ok c \<Longrightarrow> manifest_child (child_to_value c) = Some c"
proof -
  assume "child_ok c"
  then obtain d where "parse_digest (ch_digest c) = Inr d" by (auto simp: child_ok_def)
  then show ?thesis
    using child_from_to_value[of c]
    by (cases "ch_provider c") (simp_all add: manifest_child_def only_members_def child_to_value_def child_reference_def
        artifact_member_def bool_at_def member_str_def)
qed

lemma manifest_texts: "text_ok ''role''" "text_ok ''evidence''" "text_ok ''required''" "text_ok ''provider''"
  "text_ok ''artifact''" "text_ok ''digest''" "text_ok ''kind''" "text_ok ''id''" "text_ok ''format''"
  "text_ok ''children''" "text_ok ARTIFACT" "text_ok MANIFEST_FORMAT"
  by (rule text_ok_ascii, auto simp: ARTIFACT_def MANIFEST_FORMAT_def)+

lemma child_value_in_domain: "child_ok c \<Longrightarrow> in_domain (child_to_value c)"
  by (cases "ch_provider c") (simp_all add: child_ok_def child_to_value_def child_reference_def manifest_texts)

lemma child_value_nesting: "nesting (child_to_value c) \<le> 3"
proof -
  have "nesting (child_reference c) \<le> 2"
    unfolding child_reference_def
    by (rule nesting_Object_le) (cases "ch_provider c"; auto intro!: nesting_Object_le)
  then show ?thesis
    unfolding child_to_value_def by (intro nesting_Object_le) auto
qed

lemma manifest_children_values:
  "\<forall>c \<in> set cs. child_ok c \<Longrightarrow> manifest_children (map (\<lambda>c. sorted_members (child_to_value c)) cs) = Some cs"
  by (induction cs) (simp_all add: child_reads_sorted[OF child_value_in_domain] manifest_child_to_value)

lemma manifest_value_parses:
  assumes "\<forall>c \<in> set cs. child_ok c"
  shows "parse_manifest (to_canonical (manifest_value cs)) = Some cs"
proof -
  let ?m = "manifest_value cs"
  have d: "in_domain ?m" using assms child_value_in_domain by (auto simp: manifest_value_def manifest_texts)
  have "nesting (child_to_value c) \<le> 126" for c using child_value_nesting[of c] by linarith
  then have "nesting ?m \<le> 128"
    unfolding manifest_value_def by (intro nesting_Object_le) (auto intro!: nesting_Array_le)
  then have p: "parse (to_canonical ?m) = Some (Inr (sorted_members ?m))"
    using parse_to_canonical[OF d, of DEFAULT_MAX_DEPTH] by (simp add: parse_def DEFAULT_MAX_DEPTH_def)
  have "only_members [''format'', ''children''] (sorted_members ?m)" "member_str (sorted_members ?m) ''format'' = Some MANIFEST_FORMAT"
    by (simp_all add: only_members_sorted member_str_sorted[OF d], simp_all add: manifest_value_def only_members_def member_str_def)
  moreover have "get (sorted_members ?m) ''children'' = Some (Array (map (\<lambda>c. sorted_members (child_to_value c)) cs))"
    by (simp add: get_sorted_members[OF d], simp add: manifest_value_def)
  ultimately show ?thesis using manifest_children_values[OF assms] by (simp add: parse_manifest_def p)
qed

lemma manifest_child_sound:
  assumes "manifest_child v = Some c"
  shows "\<exists>d. parse_digest (ch_digest c) = Inr d"
proof -
  obtain e digest where e: "get v ''evidence'' = Some e" "member_str e ''digest'' = Some digest"
    "(case parse_digest digest of Inl _ \<Rightarrow> None | Inr _ \<Rightarrow> child_from_value v) = Some c"
    using assms by (auto simp: manifest_child_def bind_eq_Some_conv simp del: split_paired_Ex split: if_splits)
  then obtain d where d: "parse_digest digest = Inr d" "child_from_value v = Some c"
    by (cases "parse_digest digest") simp_all
  then have "ch_digest c = digest" using e by (auto simp: child_from_value_def bind_eq_Some_conv)
  then show ?thesis using d by blast
qed

lemma manifest_children_sound: "manifest_children vs = Some cs \<Longrightarrow> \<forall>c \<in> set cs. \<exists>d. parse_digest (ch_digest c) = Inr d"
  by (induction vs arbitrary: cs) (auto simp: bind_eq_Some_conv simp del: split_paired_Ex dest: manifest_child_sound)

lemma parse_manifest_sound: "parse_manifest bytes = Some cs \<Longrightarrow> \<forall>c \<in> set cs. \<exists>d. parse_digest (ch_digest c) = Inr d"
  by (auto simp: parse_manifest_def split: option.splits sum.splits if_splits jvalue.splits simp del: split_paired_Ex dest: manifest_children_sound)

subsection \<open>The chunk limit\<close>

lemma chunk_limit_fits:
  assumes "bs \<noteq> []" "int (length bs) \<le> chunk_limit p f s"
  shows "int (length (encode_base64 bs)) + CHUNK_OVERHEAD_BYTES \<le> p \<and>
    int (length (encode_base64 bs)) + CHUNK_OVERHEAD_BYTES \<le> f \<and> int (length (encode_base64 bs)) \<le> s"
proof -
  define e where "e = max 0 (min (min (p - CHUNK_OVERHEAD_BYTES) (f - CHUNK_OVERHEAD_BYTES)) s)"
  have n: "int (length bs) \<le> (e div 4) * 3" using assms(2) by (simp add: chunk_limit_def e_def Let_def)
  have "0 < int (length bs)" using assms(1) by simp
  moreover have "0 \<le> e" by (simp add: e_def)
  ultimately have "0 < e" using n by (cases "e = 0") auto
  have "int ((length bs + 2) div 3) \<le> e div 4" using n by linarith
  then have "int (length (encode_base64 bs)) \<le> e" by (simp add: length_encode_base64)
  then show ?thesis using \<open>0 < e\<close> by (auto simp: e_def)
qed

lemma chunk_limit_largest:
  assumes "n mod 3 = 0" "0 \<le> n" "4 * (n div 3) + CHUNK_OVERHEAD_BYTES \<le> p" "4 * (n div 3) + CHUNK_OVERHEAD_BYTES \<le> f"
    "4 * (n div 3) \<le> s"
  shows "n \<le> chunk_limit p f s"
proof -
  define e where "e = max 0 (min (min (p - CHUNK_OVERHEAD_BYTES) (f - CHUNK_OVERHEAD_BYTES)) s)"
  have "4 * (n div 3) \<le> e" using assms by (auto simp: e_def)
  then have "n \<le> (e div 4) * 3" using assms(1) by presburger
  then show ?thesis by (simp add: chunk_limit_def e_def Let_def)
qed

subsection \<open>An example\<close>

definition example_digest :: string where
  "example_digest = ''sha256:'' @ replicate 64 CHR ''0''"

definition example_payload :: jvalue where
  "example_payload = Object
     [(''digest'', String example_digest), (''size'', Integer 3), (''media_type'', String ''t''),
      (''producer'', Object [(''producer_id'', String ''x'')]),
      (''source'', Object [(''kind'', String ''file''), (''id'', String ''a'')]), (''scope'', String ''s''),
      (''capture'', Object [(''captured_at'', String ''2026-01-01T00:00:00Z'')]),
      (''coverage'', Object [(''completeness'', String ''complete'')]), (''retention_class'', String ''r''),
      (''locator'', String ''https://h/o?part=2'')]"

lemma example_digest_parses: "parse_digest example_digest = Inr (Sha256, replicate 64 CHR ''0'')"
  by code_simp

lemma example_payload_accepted: "\<exists>d. parse_descriptor example_payload ''p'' = Inr d"
proof -
  obtain hex where hex: "parse_digest example_digest = Inr (Sha256, hex)" using example_digest_parses by blast
  have loc: "locator_carries_credentials ''https://h/o?part=2'' = False" by code_simp
  have inst: "is_instant ''2026-01-01T00:00:00Z''" by code_simp
  have "check_descriptor_digest example_payload = Inr ()"
    using hex by (simp add: check_descriptor_digest_Inr example_payload_def)
  moreover have "check_locator example_payload = Inr ()"
    using loc by (simp add: check_locator_Inr example_payload_def)
  moreover have "check_capture example_payload = Inr ()" "check_size example_payload = Inr ()"
    "check_work example_payload = Inr ()" "check_source example_payload = Inr ''file''"
    "check_coverage example_payload ''file'' = Inr ()" "check_producer example_payload ''p'' = Inr ()"
    using inst by (simp_all add: example_payload_def check_capture_def check_size_def check_work_def check_source_def
        check_coverage_def check_producer_def present_def check_only_def check_instant_def if_present_def string_at_def
        member_str_def Let_def)
  moreover have "check_only example_payload DESCRIPTOR_MEMBERS ''/payload'' = Inr ()"
    "check_present ''/payload'' example_payload DESCRIPTOR_REQUIRED = Inr ()"
    "string_at example_payload ''media_type'' ''/payload/media_type'' = Inr ''t''"
    "string_at example_payload ''scope'' ''/payload/scope'' = Inr ''s''"
    "string_at example_payload ''retention_class'' ''/payload/retention_class'' = Inr ''r''"
    by (simp_all add: example_payload_def check_only_def DESCRIPTOR_MEMBERS_def DESCRIPTOR_REQUIRED_def string_at_def)
  ultimately show ?thesis by (simp add: parse_descriptor_def)
qed

subsection \<open>Further facts\<close>

text \<open>
  A prepare payload that is accepted becomes a descriptor whose producer principal is the
  session's, whatever the payload named; every other member is stored as sent; the digest is a
  SHA-256 digest; a locator carries no credentials; and terminal output never declares complete
  coverage.
\<close>

theorem descriptors_are_attributed:
  assumes "parse_descriptor payload who = Inr d"
  shows "(\<exists>producer. get d ''producer'' = Some producer \<and> get producer ''principal'' = Some (String who)) \<and>
    (\<forall>n. n \<noteq> ''producer'' \<longrightarrow> get d n = get payload n) \<and>
    (\<exists>t hex. get d ''digest'' = Some (String t) \<and> parse_digest t = Inr (Sha256, hex)) \<and>
    (\<forall>l. get d ''locator'' = Some l \<longrightarrow> (\<exists>t. l = String t \<and> \<not> locator_carries_credentials t)) \<and>
    \<not> (get (present d ''source'') ''kind'' = Some (String ''terminal_output'') \<and>
       member_str (present d ''coverage'') ''completeness'' = Some ''complete'')"
proof -
  obtain pm t hex knd where d: "get d ''producer'' = Some (Object pm)" "map_of pm ''principal'' = Some (String who)"
    "\<forall>n. n \<noteq> ''producer'' \<longrightarrow> get d n = get payload n" "get payload ''digest'' = Some (String t)"
    "parse_digest t = Inr (Sha256, hex)" "check_locator payload = Inr ()"
    "check_source payload = Inr knd" "check_coverage payload knd = Inr ()"
    by (rule parse_descriptorE [OF assms])
  have p: "present d n = present payload n" if "n \<noteq> ''producer''" for n using d(3) that by (simp add: present_def)
  have "get (present payload ''source'') ''kind'' = Some (String knd)" by (rule check_source_Inr [OF d(7)])
  then have "\<not> (get (present d ''source'') ''kind'' = Some (String ''terminal_output'') \<and>
       member_str (present d ''coverage'') ''completeness'' = Some ''complete'')"
    using d(8) p by (auto simp: check_coverage_Inr)
  moreover have "\<exists>producer. get d ''producer'' = Some producer \<and> get producer ''principal'' = Some (String who)"
    using d(1,2) by simp
  moreover have "\<exists>t hex. get d ''digest'' = Some (String t) \<and> parse_digest t = Inr (Sha256, hex)" using d(3-5) by auto
  moreover have "\<forall>l. get d ''locator'' = Some l \<longrightarrow> (\<exists>t. l = String t \<and> \<not> locator_carries_credentials t)"
    using d(3,6) by (auto simp: check_locator_Inr)
  ultimately show ?thesis using d(3) by blast
qed

lemma descriptors_are_attributed_witness:
  "\<exists>d producer. parse_descriptor example_payload ''p'' = Inr d \<and>
     get d ''producer'' = Some producer \<and> get producer ''principal'' = Some (String ''p'')"
proof -
  obtain d where "parse_descriptor example_payload ''p'' = Inr d" using example_payload_accepted by blast
  then show ?thesis using descriptors_are_attributed [of example_payload "''p''" d] by blast
qed

text \<open>
  A manifest written canonically from any list of children with valid texts and digests parses
  back to exactly those children in order, and whatever bytes parse as a manifest name only
  children whose digests are well formed.
\<close>

theorem manifests_read_back:
  "(list_all child_ok cs \<longrightarrow> parse_manifest (to_canonical (manifest_value cs)) = Some cs) \<and>
   (\<forall>c \<in> set (case parse_manifest bytes of None \<Rightarrow> [] | Some cs \<Rightarrow> cs). \<exists>d. parse_digest (ch_digest c) = Inr d)"
proof (cases "parse_manifest bytes")
  case None
  then show ?thesis using manifest_value_parses [of cs] by (simp add: list_all_iff)
next
  case (Some found)
  then show ?thesis using manifest_value_parses [of cs] parse_manifest_sound [OF Some] by (simp add: list_all_iff)
qed

lemma manifests_read_back_witness:
  "parse_manifest (to_canonical (manifest_value
     [\<lparr>ch_role = [], ch_provider = None, ch_artifact = [], ch_digest = example_digest, ch_required = True\<rparr>])) =
   Some [\<lparr>ch_role = [], ch_provider = None, ch_artifact = [], ch_digest = example_digest, ch_required = True\<rparr>]"
proof -
  have "text_ok example_digest" by (rule text_ok_ascii) (auto simp: example_digest_def)
  then show ?thesis
    using manifests_read_back [of
      "[\<lparr>ch_role = [], ch_provider = None, ch_artifact = [], ch_digest = example_digest, ch_required = True\<rparr>]"]
      example_digest_parses by (simp add: child_ok_def)
qed

text \<open>
  A non-empty chunk within the advertised limit always fits: its base64 text plus the declared
  overhead is within the payload and the frame limit, and the text within the string limit; the
  limit is a multiple of three, and the largest one that fits.
\<close>

theorem chunk_limit_is_exact:
  "chunk_limit p f s mod 3 = 0 \<and>
   (bs \<noteq> [] \<and> int (length bs) \<le> chunk_limit p f s \<longrightarrow>
      int (length (encode_base64 bs)) + CHUNK_OVERHEAD_BYTES \<le> min p f \<and> int (length (encode_base64 bs)) \<le> s) \<and>
   (0 \<le> n \<and> n mod 3 = 0 \<and> 4 * (n div 3) + CHUNK_OVERHEAD_BYTES \<le> min p f \<and> 4 * (n div 3) \<le> s \<longrightarrow>
      n \<le> chunk_limit p f s)"
  using chunk_limit_fits [of bs p f s] chunk_limit_largest [of n p f s] by (simp add: chunk_limit_def Let_def)

lemma chunk_limit_is_exact_witness:
  "(3072::int) \<le> chunk_limit 6144 2097152 262144 \<and>
   int (length (encode_base64 (replicate 3072 CHR ''a''))) + 2048 \<le> 6144"
proof -
  have l: "chunk_limit 6144 2097152 262144 = 3072" by (simp add: chunk_limit_def CHUNK_OVERHEAD_BYTES_def)
  have "replicate 3072 CHR ''a'' \<noteq> []" by simp
  then show ?thesis
    using chunk_limit_is_exact [of 6144 2097152 262144 "replicate 3072 CHR ''a''" 3072]
    by (simp add: l CHUNK_OVERHEAD_BYTES_def)
qed

end
