(* ===== verification/Effects.thy ===== *)
theory Effects
  imports Claims
begin

text \<open>
  Effect records and obligations, \<open>effects.rs\<close>. A record is a JSON value; the routines that change
  one in place are functions from a record to a record.
\<close>

definition EFFECT_KIND :: string where "EFFECT_KIND = ''core.effect''"
definition ABORT_RIGHT :: string where "ABORT_RIGHT = ''core.effects.abort_obligation''"

datatype retry_class = Pure | Reading | IdempotentKey | Compensatable | NonRepeatable

fun retry_class_name :: "retry_class \<Rightarrow> string" where
  "retry_class_name Pure = ''pure''"
| "retry_class_name Reading = ''read''"
| "retry_class_name IdempotentKey = ''idempotent_key''"
| "retry_class_name Compensatable = ''compensatable''"
| "retry_class_name NonRepeatable = ''non_repeatable''"

record new_effect =
  nf_kind :: string
  nf_target :: subject_key
  nf_payload_digest :: string
  nf_retry_class :: retry_class
  nf_idempotency_key :: "string option"
  nf_obligations :: "(string \<times> string \<times> string option) list"

definition effect_id :: "string \<Rightarrow> nat \<Rightarrow> string" where
  "effect_id operation_ref index = operation_ref @ ''.e'' @ dec_digits (index + 1)"

definition subject_value :: "subject_key \<Rightarrow> jvalue" where
  "subject_value key = Object [(''kind'', String (sk_kind key)), (''id'', String (sk_id key))]"

definition observation :: "string \<Rightarrow> string \<Rightarrow> string \<Rightarrow> string \<Rightarrow> jvalue" where
  "observation st cls source recorded_at = Object
     [(''status'', String st),
      (''evidence'', Object [(''class'', String cls), (''source'', String source)]),
      (''recorded_at'', String recorded_at)]"

definition new_obligation :: "string \<times> string \<times> string option \<Rightarrow> jvalue" where
  "new_obligation ob = (case ob of (i, expects, deadline) \<Rightarrow> Object
     [(''id'', String i), (''expects'', String expects),
      (''deadline'', (case deadline of None \<Rightarrow> Null | Some d \<Rightarrow> String d)), (''state'', String ''open'')])"

definition new_record :: "new_effect \<Rightarrow> string \<Rightarrow> string \<Rightarrow> string \<Rightarrow> string option \<Rightarrow> string \<Rightarrow> jvalue" where
  "new_record effect i operation_ref who grant recorded_at =
     (let descriptor =
        [(''id'', String i), (''kind'', String (nf_kind effect)), (''target'', subject_value (nf_target effect)),
         (''payload_digest'', String (nf_payload_digest effect)),
         (''authorization'', Object ((''principal'', String who) #
            (case grant of None \<Rightarrow> [] | Some g \<Rightarrow> [(''grant'', String g)]))),
         (''retry_class'', String (retry_class_name (nf_retry_class effect))),
         (''operation_ref'', String operation_ref)] @
        (case nf_idempotency_key effect of None \<Rightarrow> [] | Some k \<Rightarrow> [(''idempotency_key'', String k)])
      in Object
        [(''descriptor'', Object descriptor),
         (''observations'', Array [observation ''pending'' ''provider'' ''recorded before any external action'' recorded_at]),
         (''attempts'', Array []),
         (''obligations'', Array (map new_obligation (nf_obligations effect)))])"

definition effect_target :: "jvalue \<Rightarrow> subject_key option" where
  "effect_target record =
     Option.bind (get record ''descriptor'') (\<lambda>descriptor.
     Option.bind (get descriptor ''target'') (\<lambda>target.
     Option.bind (member_str target ''kind'') (\<lambda>knd.
     Option.bind (member_str target ''id'') (\<lambda>i. Some \<lparr>sk_kind = knd, sk_id = i\<rparr>))))"

definition effect_status :: "jvalue \<Rightarrow> string" where
  "effect_status record =
     (case Option.bind (get record ''observations'') as_array of
        None \<Rightarrow> ''unknown''
      | Some [] \<Rightarrow> ''unknown''
      | Some observations \<Rightarrow>
          (case member_str (last observations) ''status'' of None \<Rightarrow> ''unknown'' | Some s \<Rightarrow> s))"

definition effect_get_result :: "jvalue \<Rightarrow> int \<Rightarrow> jvalue" where
  "effect_get_result record revision =
     (let member = (\<lambda>name. case get record name of None \<Rightarrow> Array [] | Some v \<Rightarrow> v) in Object
        [(''effect'', (case get record ''descriptor'' of None \<Rightarrow> Null | Some d \<Rightarrow> d)),
         (''revision'', Integer revision), (''status'', String (effect_status record)),
         (''observations'', member ''observations''), (''attempts'', member ''attempts''),
         (''obligations'', member ''obligations'')])"

subsection \<open>Changing a record in place\<close>

text \<open>The first member of that name, changed.\<close>

fun update_member :: "string \<Rightarrow> (jvalue \<Rightarrow> jvalue) \<Rightarrow> (string \<times> jvalue) list \<Rightarrow> (string \<times> jvalue) list" where
  "update_member name f [] = []"
| "update_member name f ((n, v) # members) =
     (if n = name then (n, f v) # members else (n, v) # update_member name f members)"

definition on_fields :: "((string \<times> jvalue) list \<Rightarrow> (string \<times> jvalue) list) \<Rightarrow> jvalue \<Rightarrow> jvalue" where
  "on_fields g v = (case v of Object fs \<Rightarrow> Object (g fs) | _ \<Rightarrow> v)"

definition on_items :: "(jvalue \<Rightarrow> jvalue) \<Rightarrow> jvalue \<Rightarrow> jvalue" where
  "on_items g v = (case v of Array items \<Rightarrow> Array (map g items) | _ \<Rightarrow> v)"

text \<open>\<open>obligations_mut\<close>: every obligation that is an object, changed.\<close>

definition map_obligations :: "((string \<times> jvalue) list \<Rightarrow> (string \<times> jvalue) list) \<Rightarrow> jvalue \<Rightarrow> jvalue" where
  "map_obligations g = on_fields (update_member ''obligations'' (on_items (on_fields g)))"

definition obligations_of :: "jvalue \<Rightarrow> (string \<times> jvalue) list list" where
  "obligations_of record =
     (case get record ''obligations'' of
        Some (Array items) \<Rightarrow> List.map_filter (\<lambda>v. case v of Object fs \<Rightarrow> Some fs | _ \<Rightarrow> None) items
      | _ \<Rightarrow> [])"

definition field :: "(string \<times> jvalue) list \<Rightarrow> string \<Rightarrow> string option" where
  "field fs name = Option.bind (map_of fs name) as_str"

definition set_state :: "string \<Rightarrow> (string \<times> jvalue) list \<Rightarrow> (string \<times> jvalue) list" where
  "set_state state = update_member ''state'' (\<lambda>_. String state)"

definition obligation_waiting :: "jvalue \<Rightarrow> string \<Rightarrow> bool" where
  "obligation_waiting record obligation =
     list_ex (\<lambda>entry. member_str entry ''id'' = Some obligation \<and>
        member_str entry ''state'' \<in> {Some ''open'', Some ''overdue''})
       (case Option.bind (get record ''obligations'') as_array of None \<Rightarrow> [] | Some entries \<Rightarrow> entries)"

definition abort_obligation :: "string \<Rightarrow> jvalue \<Rightarrow> jvalue" where
  "abort_obligation obligation =
     map_obligations (\<lambda>fs. if field fs ''id'' = Some obligation then set_state ''aborted'' fs else fs)"

definition falls_overdue :: "string \<Rightarrow> (string \<times> jvalue) list \<Rightarrow> bool" where
  "falls_overdue now fs \<longleftrightarrow>
     field fs ''state'' = Some ''open'' \<and>
     (case field fs ''deadline'' of None \<Rightarrow> False | Some deadline \<Rightarrow> deadline \<le> now)"

definition mark_overdue :: "string \<Rightarrow> jvalue \<Rightarrow> string list \<times> jvalue" where
  "mark_overdue now record =
     (map (\<lambda>fs. case field fs ''id'' of None \<Rightarrow> [] | Some i \<Rightarrow> i) (filter (falls_overdue now) (obligations_of record)),
      map_obligations (\<lambda>fs. if falls_overdue now fs then set_state ''overdue'' fs else fs) record)"

definition satisfy :: "(string \<times> jvalue) list \<Rightarrow> (string \<times> jvalue) list" where
  "satisfy fs =
     (if field fs ''expects'' = Some ''outcome'' \<and> field fs ''state'' \<in> {Some ''open'', Some ''overdue''}
      then set_state ''satisfied'' fs else fs)"

definition observe :: "string \<Rightarrow> string \<Rightarrow> string \<Rightarrow> string \<Rightarrow> jvalue \<Rightarrow> jvalue" where
  "observe st cls source recorded_at record =
     (let observed = on_fields (update_member ''observations''
            (\<lambda>v. case v of Array items \<Rightarrow> Array (items @ [observation st cls source recorded_at]) | _ \<Rightarrow> v)) record
      in if st \<in> {''succeeded'', ''failed''} then map_obligations satisfy observed else observed)"

subsection \<open>Obligations only move forward\<close>

lemma map_of_update_member:
  "map_of (update_member name f ms) k =
     (if k = name then map_option f (map_of ms k) else map_of ms k)"
  by (induction ms) auto

lemma get_on_fields:
  "get (on_fields (update_member name f) v) k = (if k = name then map_option f (get v k) else get v k)"
  by (cases v) (simp_all add: on_fields_def map_of_update_member)

lemma get_map_obligations:
  "get (map_obligations g r) k =
     (if k = ''obligations'' then map_option (on_items (on_fields g)) (get r k) else get r k)"
  unfolding map_obligations_def by (rule get_on_fields)

lemma obligations_of_map: "obligations_of (map_obligations g r) = map g (obligations_of r)"
proof (cases "get r ''obligations''")
  case (Some v)
  have "List.map_filter (\<lambda>v. case v of Object fs \<Rightarrow> Some fs | _ \<Rightarrow> None) (map (on_fields g) items) =
      map g (List.map_filter (\<lambda>v. case v of Object fs \<Rightarrow> Some fs | _ \<Rightarrow> None) items)" for items
    by (induction items) (auto simp: map_filter_simps on_fields_def split: jvalue.splits)
  then show ?thesis
    using Some by (cases v) (simp_all add: obligations_of_def get_map_obligations on_items_def)
qed (simp add: obligations_of_def get_map_obligations)

lemma status_map_obligations [simp]: "effect_status (map_obligations g r) = effect_status r"
  by (simp add: effect_status_def get_map_obligations)

lemma field_set_state:
  "field (set_state s fs) k = (if k = ''state'' \<and> map_of fs k \<noteq> None then Some s else field fs k)"
  by (cases "map_of fs k"; auto simp: field_def set_state_def map_of_update_member)

text \<open>What one change may do to the state of an obligation; everything else about it stays.\<close>

definition moves :: "(string \<times> jvalue) list \<Rightarrow> (string \<times> jvalue) list \<Rightarrow> bool" where
  "moves fs fs' \<longleftrightarrow>
     (\<forall>k. k \<noteq> ''state'' \<longrightarrow> map_of fs' k = map_of fs k) \<and>
     (field fs' ''state'' = field fs ''state'' \<or>
      field fs ''state'' \<in> {Some ''open'', Some ''overdue''} \<and>
      field fs' ''state'' \<in> {Some ''overdue'', Some ''aborted'', Some ''satisfied''} \<and>
      (field fs' ''state'' = Some ''overdue'' \<longrightarrow> field fs ''state'' = Some ''open''))"

lemma set_state_other: "k \<noteq> ''state'' \<Longrightarrow> map_of (set_state s fs) k = map_of fs k"
  by (simp add: set_state_def map_of_update_member)

lemma moves_refl [simp]: "moves fs fs"
  by (simp add: moves_def)

lemma field_Some_map_of: "field fs k = Some s \<Longrightarrow> map_of fs k \<noteq> None"
  by (cases "map_of fs k") (simp_all add: field_def)

lemma moves_set_state:
  "field fs ''state'' \<in> {Some ''open'', Some ''overdue''} \<Longrightarrow> s \<in> {''aborted'', ''satisfied''} \<Longrightarrow> moves fs (set_state s fs)"
  using field_Some_map_of [of fs "''state''"] by (auto simp: moves_def set_state_other field_set_state)

lemma moves_overdue: "falls_overdue now fs \<Longrightarrow> moves fs (set_state ''overdue'' fs)"
  using field_Some_map_of [of fs "''state''"] by (auto simp: moves_def set_state_other field_set_state falls_overdue_def)

lemma moves_satisfy: "moves fs (satisfy fs)"
  using moves_set_state [of fs "''satisfied''"] by (auto simp: satisfy_def)

lemma list_all2_map_moves: "(\<And>fs. fs \<in> set xs \<Longrightarrow> moves fs (g fs)) \<Longrightarrow> list_all2 moves xs (map g xs)"
  by (induction xs) auto

lemma observe_obligations:
  "obligations_of (observe st cls source at1 r) =
     (if st \<in> {''succeeded'', ''failed''} then map satisfy (obligations_of r) else obligations_of r)"
proof -
  have "obligations_of (on_fields (update_member ''observations'' f) r) = obligations_of r" for f
    by (simp add: obligations_of_def get_on_fields)
  then show ?thesis by (simp add: observe_def Let_def obligations_of_map)
qed

lemma observe_status:
  assumes "get r ''observations'' = Some (Array os)"
  shows "effect_status (observe st cls source at1 r) = st"
proof -
  let ?r = "on_fields (update_member ''observations''
      (\<lambda>v. case v of Array items \<Rightarrow> Array (items @ [observation st cls source at1]) | _ \<Rightarrow> v)) r"
  have g: "get ?r ''observations'' = Some (Array (os @ [observation st cls source at1]))"
    by (simp add: get_on_fields assms)
  have "effect_status ?r = st"
    by (cases os) (simp_all add: effect_status_def g observation_def member_str_def)
  then show ?thesis by (simp add: observe_def Let_def)
qed

lemma member_str_field: "member_str (Object fs) n = field fs n"
  by (simp add: member_str_def field_def split: option.split)

lemma waiting_obligation:
  assumes "obligation_waiting r i"
  shows "\<exists>fs \<in> set (obligations_of r). field fs ''id'' = Some i \<and> field fs ''state'' \<in> {Some ''open'', Some ''overdue''}"
proof -
  obtain entries entry where e: "get r ''obligations'' = Some (Array entries)" "entry \<in> set entries"
    "member_str entry ''id'' = Some i" "member_str entry ''state'' \<in> {Some ''open'', Some ''overdue''}"
  proof (cases "Option.bind (get r ''obligations'') as_array")
    case (Some entries)
    then have "get r ''obligations'' = Some (Array entries)" by (auto simp: bind_eq_Some_conv)
    then show ?thesis using assms Some that unfolding obligation_waiting_def list_ex_iff by auto
  qed (use assms in \<open>simp add: obligation_waiting_def\<close>)
  then obtain fs where fs: "entry = Object fs" by (cases entry) (auto simp: member_str_def)
  have "fs \<in> set (obligations_of r)"
    using e(1,2) fs by (force simp: obligations_of_def map_filter_def)
  then show ?thesis using e(3,4) fs by (auto simp: member_str_field)
qed

lemma abort_moves:
  assumes "obligation_waiting r i" "distinct (map (\<lambda>fs. field fs ''id'') (obligations_of r))"
  shows "list_all2 moves (obligations_of r) (obligations_of (abort_obligation i r))"
proof -
  obtain w where w: "w \<in> set (obligations_of r)" "field w ''id'' = Some i"
    "field w ''state'' \<in> {Some ''open'', Some ''overdue''}"
    using waiting_obligation[OF assms(1)] by blast
  have "moves fs (if field fs ''id'' = Some i then set_state ''aborted'' fs else fs)" if "fs \<in> set (obligations_of r)" for fs
  proof (cases "field fs ''id'' = Some i")
    case True
    then have "fs = w" using assms(2) that w(1,2) by (auto simp: distinct_map inj_on_def)
    then show ?thesis using w(3) moves_set_state[of fs "''aborted''"] True by simp
  qed simp
  then show ?thesis unfolding abort_obligation_def obligations_of_map by (rule list_all2_map_moves)
qed

lemma overdue_moves: "list_all2 moves (obligations_of r) (obligations_of (snd (mark_overdue now r)))"
  unfolding mark_overdue_def snd_conv obligations_of_map
  by (rule list_all2_map_moves) (simp add: moves_overdue)

lemma observe_moves: "list_all2 moves (obligations_of r) (obligations_of (observe st cls source at1 r))"
  unfolding observe_obligations by (auto intro: list_all2_map_moves moves_satisfy list_all2_refl)

definition example_effect :: jvalue where
  "example_effect = new_record
     \<lparr>nf_kind = ''k'', nf_target = \<lparr>sk_kind = ''t'', sk_id = ''s''\<rparr>, nf_payload_digest = ''d'', nf_retry_class = Pure,
      nf_idempotency_key = None, nf_obligations = [(''o'', ''outcome'', Some ''2030'')]\<rparr>
     ''op-1.e1'' ''op-1'' ''p'' None ''2029''"

subsection \<open>Further facts\<close>

text \<open>
  Aborting a wait, a passed deadline and an observation change obligations only in the allowed
  directions, and only an observation changes an effect's status: aborting a waiting obligation or
  letting it fall overdue leaves the status as it was.
\<close>

theorem obligations_move_forward:
  assumes "get r ''observations'' = Some (Array os)"
  shows "effect_status (abort_obligation i r) = effect_status r \<and>
    effect_status (snd (mark_overdue now r)) = effect_status r \<and>
    effect_status (observe st cls source at1 r) = st \<and>
    (obligation_waiting r i \<and> distinct (map (\<lambda>fs. field fs ''id'') (obligations_of r)) \<longrightarrow>
      list_all2 moves (obligations_of r) (obligations_of (abort_obligation i r))) \<and>
    list_all2 moves (obligations_of r) (obligations_of (snd (mark_overdue now r))) \<and>
    list_all2 moves (obligations_of r) (obligations_of (observe st cls source at1 r))"
  using abort_moves [of r i] overdue_moves [of r now] observe_moves [of r st cls source at1] observe_status [OF assms]
  by (simp add: abort_obligation_def mark_overdue_def)

lemma obligations_move_forward_witness:
  "effect_status (abort_obligation ''o'' example_effect) = ''pending'' \<and>
   list_all2 moves (obligations_of example_effect) (obligations_of (abort_obligation ''o'' example_effect)) \<and>
   obligations_of (abort_obligation ''o'' example_effect) \<noteq> obligations_of example_effect"
proof -
  have "get example_effect ''observations'' =
      Some (Array [observation ''pending'' ''provider'' ''recorded before any external action'' ''2029''])"
    by (simp add: example_effect_def new_record_def Let_def)
  from obligations_move_forward [OF this, of "''o''" "[]" "[]" "[]" "[]" "[]"] show ?thesis
    by (simp add: example_effect_def new_record_def Let_def obligation_waiting_def member_str_def obligations_of_def
        new_obligation_def map_filter_simps abort_obligation_def get_map_obligations on_items_def on_fields_def field_def
        set_state_def effect_status_def observation_def)
qed

end
