(* ===== verification/Store.thy ===== *)
theory Store
  imports Effects "HOL-Library.AList" "HOL-Library.Product_Lexorder"
begin

text \<open>
  The durable store, \<open>store.rs\<close>: its tables, and every operation that runs in one transaction over
  them. A table is the list of its rows in the order they were inserted; a primary key is the check
  each insertion makes, and a transaction that fails returns the error and no tables. Integers are
  unbounded: revisions and sequences count operations, far below 64 bits. The columns that hold
  canonical JSON hold its text, as the code writes it.
\<close>

subsection \<open>Tables\<close>

datatype store_error = Corrupt string | Constraint string

type_synonym 'a stored = "store_error + 'a"

record subject_state =
  su_revision :: int
  su_value :: string
  su_applied :: int

record position =
  po_epoch :: int
  po_sequence :: int

record event_row =
  er_position :: position
  er_type :: string
  er_subject :: subject_key
  er_revision :: int
  er_origin :: string
  er_operation_ref :: "string option"
  er_command_id :: "string option"
  er_caused_by :: string
  er_recorded_at :: string
  er_payload :: string

record command_row =
  cr_principal :: string
  cr_command_id :: string
  cr_digest :: string
  cr_generation :: int
  cr_result :: string

record claim_row =
  kr_claim :: string
  kr_revision :: int
  kr_digest :: string
  kr_record :: string
  kr_recorded_at :: string

record credential_row =
  ce_digest :: string
  ce_principal :: string
  ce_revoked :: bool

record tables =
  tb_meta :: "(string \<times> int) list"
  tb_subjects :: "(subject_key \<times> subject_state) list"
  tb_events :: "event_row list"
  tb_epochs :: "(int \<times> int) list"
  tb_capabilities :: "(string \<times> int \<times> string) option"
  tb_chunks :: "((string \<times> int) \<times> string) list"
  tb_credentials :: "credential_row list"
  tb_claims :: "claim_row list"
  tb_commands :: "command_row list"
  tb_checkouts :: "(string \<times> string) list"

definition empty_tables :: tables where
  "empty_tables = \<lparr>tb_meta = [], tb_subjects = [], tb_events = [], tb_epochs = [], tb_capabilities = None,
     tb_chunks = [], tb_credentials = [], tb_claims = [], tb_commands = [], tb_checkouts = []\<rparr>"

definition meta :: "tables \<Rightarrow> string \<Rightarrow> int option" where
  "meta t key = map_of (tb_meta t) key"

definition set_meta :: "string \<Rightarrow> int \<Rightarrow> tables \<Rightarrow> tables" where
  "set_meta key n t = t\<lparr>tb_meta := AList.update key n (tb_meta t)\<rparr>"

definition current_epoch :: "tables \<Rightarrow> int" where
  "current_epoch t = or_else (meta t ''current_epoch'') 1"

text \<open>\<open>COALESCE(MAX(column), 0)\<close>.\<close>

fun max_or_zero :: "int list \<Rightarrow> int" where
  "max_or_zero [] = 0"
| "max_or_zero [n] = n"
| "max_or_zero (n # m # ns) = max n (max_or_zero (m # ns))"

definition sequences_of :: "tables \<Rightarrow> int \<Rightarrow> int list" where
  "sequences_of t epoch =
     map (\<lambda>e. po_sequence (er_position e)) (filter (\<lambda>e. po_epoch (er_position e) = epoch) (tb_events t))"

definition last_sequence :: "tables \<Rightarrow> int \<Rightarrow> int" where
  "last_sequence t epoch = max_or_zero (sequences_of t epoch)"

definition subject :: "tables \<Rightarrow> subject_key \<Rightarrow> subject_state option" where
  "subject t key = map_of (tb_subjects t) key"

definition revision_of :: "tables \<Rightarrow> subject_key \<Rightarrow> int" where
  "revision_of t key = (case subject t key of None \<Rightarrow> 0 | Some s \<Rightarrow> su_revision s)"

definition applied_count :: "tables \<Rightarrow> subject_key \<Rightarrow> int" where
  "applied_count t key = (case subject t key of None \<Rightarrow> 0 | Some s \<Rightarrow> su_applied s)"

definition put_subject :: "subject_key \<Rightarrow> subject_state \<Rightarrow> tables \<Rightarrow> tables" where
  "put_subject key s t = t\<lparr>tb_subjects := AList.update key s (tb_subjects t)\<rparr>"

definition authority_key :: "string \<Rightarrow> subject_key" where
  "authority_key scope = \<lparr>sk_kind = ''core-test.authority'', sk_id = scope\<rparr>"

definition authority_epoch_of :: "tables \<Rightarrow> string \<Rightarrow> int" where
  "authority_epoch_of t scope = revision_of t (authority_key scope)"

text \<open>A stored column read back: the code expects it to parse, and stops the process otherwise.\<close>

definition stored_value :: "string \<Rightarrow> jvalue option" where
  "stored_value column = (case parse column of Some (Inr v) \<Rightarrow> Some v | _ \<Rightarrow> None)"

definition find_command :: "tables \<Rightarrow> string \<Rightarrow> string \<Rightarrow> command_row option" where
  "find_command t who command_id =
     find (\<lambda>c. cr_principal c = who \<and> cr_command_id c = command_id) (tb_commands t)"

subsection \<open>Events\<close>

record new_event =
  ne_type :: string
  ne_payload :: "int \<Rightarrow> jvalue"
  ne_caused_by :: "string list"

definition insert_event :: "event_row \<Rightarrow> tables \<Rightarrow> tables stored" where
  "insert_event e t =
     (if er_position e \<in> er_position ` set (tb_events t) then Inl (Constraint ''events'')
      else Inr (t\<lparr>tb_events := tb_events t @ [e]\<rparr>))"

definition next_position :: "tables \<Rightarrow> position" where
  "next_position t =
     \<lparr>po_epoch = current_epoch t, po_sequence = last_sequence t (current_epoch t) + 1\<rparr>"

definition provider_event :: "tables \<Rightarrow> string \<Rightarrow> subject_key \<Rightarrow> int \<Rightarrow> string \<Rightarrow> jvalue \<Rightarrow> event_row" where
  "provider_event t event_type key revision recorded_at payload =
     \<lparr>er_position = next_position t, er_type = event_type, er_subject = key, er_revision = revision,
      er_origin = ''provider'', er_operation_ref = None, er_command_id = None, er_caused_by = ''[]'',
      er_recorded_at = recorded_at, er_payload = to_canonical payload\<rparr>"

subsection \<open>Commands\<close>

datatype chunks = No_Chunks | Append_Chunk string int string | Discard_Chunks string

record change =
  cg_key :: subject_key
  cg_value :: string
  cg_event :: "new_event option"

record claim_revision =
  cv_claim :: string
  cv_revision :: int
  cv_digest :: string
  cv_record :: string

record commit =
  cm_key :: subject_key
  cm_value :: string
  cm_principal :: string
  cm_command_id :: string
  cm_digest :: string
  cm_generation :: int
  cm_event :: "new_event option"
  cm_also :: "change list"
  cm_effects :: "new_effect list"
  cm_grant :: "string option"
  cm_more_events :: "new_event list"
  cm_chunks :: chunks
  cm_recorded_at :: string
  cm_claim_revision :: "claim_revision option"

text \<open>The upsert of a subject a command changes: its revision and its applied count rise by one.\<close>

definition raise_subject :: "subject_key \<Rightarrow> string \<Rightarrow> tables \<Rightarrow> int \<times> tables" where
  "raise_subject key v t =
     (let (revision, applied) = (case subject t key of None \<Rightarrow> (1, 1) | Some s \<Rightarrow> (su_revision s + 1, su_applied s + 1))
      in (revision, put_subject key \<lparr>su_revision = revision, su_value = v, su_applied = applied\<rparr> t))"

definition append_event ::
    "commit \<Rightarrow> string \<Rightarrow> subject_key \<Rightarrow> int \<Rightarrow> new_event \<Rightarrow> tables \<Rightarrow> tables stored" where
  "append_event c operation_ref key revision event t =
     insert_event
       \<lparr>er_position = next_position t, er_type = ne_type event, er_subject = key, er_revision = revision,
        er_origin = ''command'', er_operation_ref = Some operation_ref, er_command_id = Some (cm_command_id c),
        er_caused_by = to_canonical (Array (map String (ne_caused_by event))),
        er_recorded_at = cm_recorded_at c, er_payload = to_canonical (ne_payload event revision)\<rparr> t"

fun append_events ::
    "commit \<Rightarrow> string \<Rightarrow> subject_key \<Rightarrow> int \<Rightarrow> new_event list \<Rightarrow> tables \<Rightarrow> tables stored" where
  "append_events c operation_ref key revision [] t = Inr t"
| "append_events c operation_ref key revision (e # es) t =
     rbind (append_event c operation_ref key revision e t) (append_events c operation_ref key revision es)"

definition insert_claim_revision :: "commit \<Rightarrow> int \<Rightarrow> tables \<Rightarrow> tables stored" where
  "insert_claim_revision c revision t =
     (case cm_claim_revision c of
        None \<Rightarrow> Inr t
      | Some row \<Rightarrow>
          if cv_revision row \<noteq> revision \<or> cv_claim row \<noteq> sk_id (cm_key c)
          then Inl (Corrupt ''a claim revision out of step with its claim subject'')
          else if (cv_claim row, cv_revision row) \<in> (\<lambda>k. (kr_claim k, kr_revision k)) ` set (tb_claims t)
          then Inl (Constraint ''knowledge_revisions'')
          else Inr (t\<lparr>tb_claims := tb_claims t @ [\<lparr>kr_claim = cv_claim row, kr_revision = cv_revision row,
                 kr_digest = cv_digest row, kr_record = cv_record row, kr_recorded_at = cm_recorded_at c\<rparr>]\<rparr>))"

fun change_chunks :: "chunks \<Rightarrow> tables \<Rightarrow> tables stored" where
  "change_chunks No_Chunks t = Inr t"
| "change_chunks (Append_Chunk artifact start bytes) t =
     (if (artifact, start) \<in> fst ` set (tb_chunks t) then Inl (Constraint ''evidence_chunks'')
      else Inr (t\<lparr>tb_chunks := tb_chunks t @ [((artifact, start), bytes)]\<rparr>))"
| "change_chunks (Discard_Chunks artifact) t =
     Inr (t\<lparr>tb_chunks := filter (\<lambda>row. fst (fst row) \<noteq> artifact) (tb_chunks t)\<rparr>)"

fun apply_also :: "commit \<Rightarrow> string \<Rightarrow> change list \<Rightarrow> tables \<Rightarrow> tables stored" where
  "apply_also c operation_ref [] t = Inr t"
| "apply_also c operation_ref (ch # chs) t =
     (let (revision, t1) = raise_subject (cg_key ch) (cg_value ch) t in
      rbind (append_events c operation_ref (cg_key ch) revision
               (case cg_event ch of None \<Rightarrow> [] | Some e \<Rightarrow> [e]) t1)
            (apply_also c operation_ref chs))"

fun insert_effects :: "commit \<Rightarrow> string \<Rightarrow> nat \<Rightarrow> new_effect list \<Rightarrow> tables \<Rightarrow> tables stored" where
  "insert_effects c operation_ref index [] t = Inr t"
| "insert_effects c operation_ref index (e # es) t =
     (let i = effect_id operation_ref index; key = \<lparr>sk_kind = EFFECT_KIND, sk_id = i\<rparr>;
          text = to_canonical (new_record e i operation_ref (cm_principal c) (cm_grant c) (cm_recorded_at c))
      in if subject t key \<noteq> None then Inl (Constraint ''subjects'')
         else insert_effects c operation_ref (Suc index) es
                (put_subject key \<lparr>su_revision = 1, su_value = text, su_applied = 1\<rparr> t))"

definition insert_command :: "command_row \<Rightarrow> tables \<Rightarrow> tables stored" where
  "insert_command row t =
     (if find_command t (cr_principal row) (cr_command_id row) \<noteq> None then Inl (Constraint ''commands'')
      else Inr (t\<lparr>tb_commands := tb_commands t @ [row]\<rparr>))"

definition next_operation :: "tables \<Rightarrow> int" where
  "next_operation t = or_else (meta t ''operation_counter'') 0 + 1"

definition operation_ref_of :: "int \<Rightarrow> string" where
  "operation_ref_of n = ''op-'' @ int_text n"

definition commit_command :: "commit \<Rightarrow> (int \<Rightarrow> string \<Rightarrow> jvalue) \<Rightarrow> tables \<Rightarrow> (jvalue \<times> tables) stored" where
  "commit_command c make_result t =
     (let (revision, t1) = raise_subject (cm_key c) (cm_value c) t;
          operation_ref = operation_ref_of (next_operation t1);
          t2 = set_meta ''operation_counter'' (next_operation t1) t1
      in rbind (append_events c operation_ref (cm_key c) revision
                  ((case cm_event c of None \<Rightarrow> [] | Some e \<Rightarrow> [e]) @ cm_more_events c) t2) (\<lambda>t3.
         rbind (insert_claim_revision c revision t3) (\<lambda>t4.
         rbind (change_chunks (cm_chunks c) t4) (\<lambda>t5.
         rbind (apply_also c operation_ref (cm_also c) t5) (\<lambda>t6.
         rbind (insert_effects c operation_ref 0 (cm_effects c) t6) (\<lambda>t7.
         (let result = make_result revision operation_ref in
          rbind (insert_command \<lparr>cr_principal = cm_principal c, cr_command_id = cm_command_id c,
                   cr_digest = cm_digest c, cr_generation = cm_generation c, cr_result = to_canonical result\<rparr> t7)
            (\<lambda>t8. Inr (result, t8)))))))))"

definition bind_command_only :: "string \<Rightarrow> string \<Rightarrow> string \<Rightarrow> int \<Rightarrow> jvalue \<Rightarrow> tables \<Rightarrow> tables stored" where
  "bind_command_only who command_id digest generation result =
     insert_command \<lparr>cr_principal = who, cr_command_id = command_id, cr_digest = digest,
       cr_generation = generation, cr_result = to_canonical result\<rparr>"

subsection \<open>Changes the provider makes itself\<close>

fun append_provider_events ::
    "(tables \<Rightarrow> event_row) list \<Rightarrow> tables \<Rightarrow> tables stored" where
  "append_provider_events [] t = Inr t"
| "append_provider_events (e # es) t = rbind (insert_event (e t) t) (append_provider_events es)"

definition commit_provider_change ::
    "subject_key \<Rightarrow> string \<Rightarrow> new_event list \<Rightarrow> string \<Rightarrow> bool \<Rightarrow> tables \<Rightarrow> (int \<times> tables) stored" where
  "commit_provider_change key v events recorded_at discard_chunks t =
     (case subject t key of
        None \<Rightarrow> Inl (Corrupt ''a provider change to a subject that does not exist'')
      | Some s \<Rightarrow>
          (let revision = su_revision s + 1;
               t1 = put_subject key (s\<lparr>su_revision := revision, su_value := v\<rparr>) t;
               t2 = (if discard_chunks
                     then t1\<lparr>tb_chunks := filter (\<lambda>row. fst (fst row) \<noteq> sk_id key) (tb_chunks t1)\<rparr> else t1)
           in rbind (append_provider_events
                       (map (\<lambda>e u. provider_event u (ne_type e) key revision recorded_at (ne_payload e revision)) events) t2)
                (\<lambda>t3. Inr (revision, t3))))"

record provider_write =
  pw_key :: subject_key
  pw_base :: int
  pw_revision :: int
  pw_value :: string

record batch_event =
  pe_key :: subject_key
  pe_revision :: int
  pe_type :: string
  pe_payload :: jvalue

fun apply_writes :: "provider_write list \<Rightarrow> tables \<Rightarrow> tables stored" where
  "apply_writes [] t = Inr t"
| "apply_writes (w # ws) t =
     (if revision_of t (pw_key w) \<noteq> pw_base w \<or> pw_revision w \<le> pw_base w
      then Inl (Corrupt ''a provider batch computed from a revision that is no longer current'')
      else apply_writes ws
        (put_subject (pw_key w)
           (case subject t (pw_key w) of
              None \<Rightarrow> \<lparr>su_revision = pw_revision w, su_value = pw_value w, su_applied = 0\<rparr>
            | Some s \<Rightarrow> s\<lparr>su_revision := pw_revision w, su_value := pw_value w\<rparr>) t))"

definition written_by :: "provider_write list \<Rightarrow> batch_event \<Rightarrow> bool" where
  "written_by writes e =
     list_ex (\<lambda>w. pw_key w = pe_key e \<and> pe_revision e > pw_base w \<and> pe_revision e \<le> pw_revision w) writes"

fun apply_batch_events :: "provider_write list \<Rightarrow> string \<Rightarrow> batch_event list \<Rightarrow> tables \<Rightarrow> tables stored" where
  "apply_batch_events writes recorded_at [] t = Inr t"
| "apply_batch_events writes recorded_at (e # es) t =
     (if \<not> written_by writes e then Inl (Corrupt ''a provider event at a revision its batch did not write'')
      else rbind (insert_event (provider_event t (pe_type e) (pe_key e) (pe_revision e) recorded_at (pe_payload e)) t)
             (apply_batch_events writes recorded_at es))"

definition commit_provider_batch ::
    "provider_write list \<Rightarrow> batch_event list \<Rightarrow> string \<Rightarrow> tables \<Rightarrow> tables stored" where
  "commit_provider_batch writes events recorded_at t =
     rbind (apply_writes writes t) (apply_batch_events writes recorded_at events)"

definition reconcile_capabilities :: "string \<Rightarrow> jvalue \<Rightarrow> string \<Rightarrow> tables \<Rightarrow> (int \<times> tables) stored" where
  "reconcile_capabilities provider_id predicates recorded_at t =
     (let canonical = to_canonical predicates in
      case tb_capabilities t of
        None \<Rightarrow> Inr (1, t\<lparr>tb_capabilities := Some (provider_id, 1, canonical)\<rparr>)
      | Some (known, revision, previous) \<Rightarrow>
          if previous = canonical then Inr (revision, t)
          else
            (let t1 = t\<lparr>tb_capabilities := Some (provider_id, revision + 1, canonical)\<rparr> in
             rbind (insert_event (provider_event t1 ''core.capabilities.changed''
                      \<lparr>sk_kind = ''core.capabilities'', sk_id = provider_id\<rparr> (revision + 1) recorded_at
                      (Object [(''predicates'', predicates)])) t1)
               (\<lambda>t2. Inr (revision + 1, t2))))"

definition REPOSITORY :: string where "REPOSITORY = ''cbr.repository''"

definition register_repository :: "string \<Rightarrow> string \<Rightarrow> string \<Rightarrow> tables \<Rightarrow> int \<times> tables" where
  "register_repository i path recorded_at t =
     (let key = \<lparr>sk_kind = REPOSITORY, sk_id = i\<rparr>;
          canonical = to_canonical (Object [(''repository'', String i), (''registered_at'', String recorded_at)]);
          known = map_of (tb_checkouts t) i;
          t1 = t\<lparr>tb_checkouts := AList.update i path (tb_checkouts t)\<rparr>
      in (case subject t key of
            Some s \<Rightarrow>
              if known = Some path then (su_revision s, t1)
              else (su_revision s + 1, put_subject key (s\<lparr>su_revision := su_revision s + 1\<rparr>) t1)
          | None \<Rightarrow> (1, put_subject key \<lparr>su_revision = 1, su_value = canonical, su_applied = 0\<rparr> t1)))"

subsection \<open>Process start: epochs, retention, generations\<close>

definition start_new_epoch :: "int \<Rightarrow> tables \<Rightarrow> tables" where
  "start_new_epoch unvouched_last t =
     (let epoch = current_epoch t; vouched = max 0 (last_sequence t epoch - unvouched_last)
      in set_meta ''current_epoch'' (epoch + 1) (t\<lparr>tb_epochs := AList.update epoch vouched (tb_epochs t)\<rparr>))"

definition position_key :: "event_row \<Rightarrow> int \<times> int" where
  "position_key e = (po_epoch (er_position e), po_sequence (er_position e))"

text \<open>
  The events in stream order, and those a retention pass discards: all but the last \<open>retain\<close>. A
  negative \<open>LIMIT\<close> is no limit in SQLite.
\<close>

definition in_order :: "tables \<Rightarrow> event_row list" where
  "in_order t = sort_key position_key (tb_events t)"

definition doomed :: "int \<Rightarrow> tables \<Rightarrow> event_row list" where
  "doomed retain t =
     (if retain < 0 then [] else take (length (tb_events t) - nat retain) (in_order t))"

definition retain_last_events :: "int \<Rightarrow> tables \<Rightarrow> tables" where
  "retain_last_events retain t =
     (case rev (doomed retain t) of
        [] \<Rightarrow> t
      | d # _ \<Rightarrow>
          set_meta ''discarded_sequence'' (po_sequence (er_position d))
            (set_meta ''discarded_epoch'' (po_epoch (er_position d))
              (t\<lparr>tb_events := filter (\<lambda>e. e \<notin> set (doomed retain t)) (tb_events t)\<rparr>)))"

definition start_generation :: "int \<Rightarrow> int \<Rightarrow> tables \<Rightarrow> (int \<times> int) \<times> tables" where
  "start_generation advance_on_start retain_generations t =
     (let current = or_else (meta t ''dedupe_current'') 1 + advance_on_start;
          oldest = max 0 (current - retain_generations + 1);
          t1 = set_meta ''dedupe_current'' current t
      in ((current, oldest), t1\<lparr>tb_commands := filter (\<lambda>c. \<not> cr_generation c < oldest) (tb_commands t1)\<rparr>))"

definition current_generation :: "int \<Rightarrow> tables \<Rightarrow> int \<times> int" where
  "current_generation retain_generations t =
     (let current = or_else (meta t ''dedupe_current'') 1 in (current, max 0 (current - retain_generations + 1)))"

subsection \<open>Credentials and staged bytes\<close>

definition revoke_all :: "string \<Rightarrow> credential_row list \<Rightarrow> credential_row list" where
  "revoke_all who = map (\<lambda>c. if ce_principal c = who then c\<lparr>ce_revoked := True\<rparr> else c)"

definition rotate_credential :: "string \<Rightarrow> string \<Rightarrow> tables \<Rightarrow> tables stored" where
  "rotate_credential who digest t =
     (if digest \<in> ce_digest ` set (tb_credentials t) then Inl (Constraint ''credentials'')
      else Inr (t\<lparr>tb_credentials := revoke_all who (tb_credentials t) @
                    [\<lparr>ce_digest = digest, ce_principal = who, ce_revoked = False\<rparr>]\<rparr>))"

definition revoke_credentials :: "string \<Rightarrow> tables \<Rightarrow> nat \<times> tables" where
  "revoke_credentials who t =
     (length (filter (\<lambda>c. ce_principal c = who \<and> \<not> ce_revoked c) (tb_credentials t)),
      t\<lparr>tb_credentials := revoke_all who (tb_credentials t)\<rparr>)"

definition staged_bytes :: "tables \<Rightarrow> string \<Rightarrow> string" where
  "staged_bytes t artifact =
     concat (map snd (sort_key (\<lambda>row. snd (fst row)) (filter (\<lambda>row. fst (fst row) = artifact) (tb_chunks t))))"

subsection \<open>Reading\<close>

definition claim_revision_at :: "tables \<Rightarrow> string \<Rightarrow> int \<Rightarrow> claim_row option" where
  "claim_revision_at t clm revision = find (\<lambda>k. kr_claim k = clm \<and> kr_revision k = revision) (tb_claims t)"

definition claim_revisions :: "tables \<Rightarrow> string \<Rightarrow> claim_row list" where
  "claim_revisions t clm = sort_key kr_revision (filter (\<lambda>k. kr_claim k = clm) (tb_claims t))"

definition subjects_in_recorded_order :: "tables \<Rightarrow> string \<Rightarrow> (string \<times> int \<times> string) list" where
  "subjects_in_recorded_order t knd =
     map (\<lambda>(k, s). (sk_id k, su_revision s, su_value s)) (filter (\<lambda>(k, s). sk_kind k = knd) (tb_subjects t))"

definition subjects_of_kind :: "tables \<Rightarrow> string \<Rightarrow> (string \<times> string) list" where
  "subjects_of_kind t knd =
     map (\<lambda>(k, s). (sk_id k, su_value s))
       (sort_key (\<lambda>(k, s). sk_id k) (filter (\<lambda>(k, s). sk_kind k = knd) (tb_subjects t)))"

definition event_position :: "tables \<Rightarrow> string \<Rightarrow> subject_key \<Rightarrow> int \<Rightarrow> position option" where
  "event_position t event_type key revision =
     map_option er_position
       (find (\<lambda>e. er_type e = event_type \<and> er_subject e = key \<and> er_revision e = revision) (in_order t))"

end
