(* ===== verification/Stream_Read.thy ===== *)
theory Stream_Read
  imports Store
begin

text \<open>
  Reading the event stream, \<open>read_events\<close> and what it rests on in \<open>store.rs\<close>. Every turn of the loop
  that continues adds an item, so \<open>nat limit\<close> turns are enough (\<open>read_loop_enough\<close>).
\<close>

definition watermark :: "tables \<Rightarrow> (int \<times> int) option" where
  "watermark t =
     (case (meta t ''discarded_epoch'', meta t ''discarded_sequence'') of
        (Some e, Some s) \<Rightarrow> Some (e, s)
      | _ \<Rightarrow> None)"

definition head :: "tables \<Rightarrow> position" where
  "head t = \<lparr>po_epoch = current_epoch t, po_sequence = last_sequence t (current_epoch t)\<rparr>"

definition vouched_through :: "tables \<Rightarrow> int \<Rightarrow> int option" where
  "vouched_through t epoch = map_of (tb_epochs t) epoch"

definition events_in :: "tables \<Rightarrow> int \<Rightarrow> int \<Rightarrow> int option \<Rightarrow> event_row list" where
  "events_in t epoch from_sequence through =
     sort_key (\<lambda>e. po_sequence (er_position e))
       (filter (\<lambda>e. po_epoch (er_position e) = epoch \<and> po_sequence (er_position e) \<ge> from_sequence \<and>
          (case through of None \<Rightarrow> True | Some c \<Rightarrow> po_sequence (er_position e) \<le> c)) (tb_events t))"

definition position_value :: "position \<Rightarrow> jvalue" where
  "position_value p = Object [(''epoch'', Integer (po_epoch p)), (''sequence'', Integer (po_sequence p))]"

definition epoch_change_item :: "int \<Rightarrow> int \<Rightarrow> jvalue" where
  "epoch_change_item from_epoch vouched = Object
     [(''epoch_change'', Object
        [(''from_epoch'', Integer from_epoch), (''to_epoch'', Integer (from_epoch + 1)),
         (''vouched_through'', Integer vouched)])]"

definition column_value :: "string \<Rightarrow> jvalue" where
  "column_value column = or_else (stored_value column) Null"

definition event_to_value :: "string \<Rightarrow> event_row \<Rightarrow> jvalue" where
  "event_to_value stream e = Object
     ([(''stream'', String stream), (''epoch'', Integer (po_epoch (er_position e))),
       (''sequence'', Integer (po_sequence (er_position e))), (''type'', String (er_type e)),
       (''subject'', subject_value (er_subject e)), (''revision'', Integer (er_revision e)),
       (''origin'', String (er_origin e))] @
      (case er_operation_ref e of None \<Rightarrow> [] | Some r \<Rightarrow> [(''operation_ref'', String r)]) @
      (case er_command_id e of None \<Rightarrow> [] | Some c \<Rightarrow> [(''command_id'', String c)]) @
      [(''caused_by'', column_value (er_caused_by e)), (''recorded_at'', String (er_recorded_at e)),
       (''payload'', column_value (er_payload e))])"

definition event_item :: "string \<Rightarrow> event_row \<Rightarrow> jvalue" where
  "event_item stream e = Object [(''event'', event_to_value stream e)]"

subsection \<open>Snapshots\<close>

definition snapshot_state :: "string \<Rightarrow> int \<Rightarrow> string \<Rightarrow> jvalue" where
  "snapshot_state knd revision v =
     (if knd = ''core-test.authority'' then Object [(''epoch'', Integer revision)]
      else if knd = ''core.grant'' then Object [(''grant'', or_else (stored_value v) Null)]
      else Object [(''value'', String v)])"

definition snapshot_entry :: "subject_key \<Rightarrow> int \<Rightarrow> jvalue \<Rightarrow> jvalue" where
  "snapshot_entry key revision state = Object
     [(''subject'', subject_value key), (''revision'', Integer revision), (''state'', state)]"

definition snapshot_rows :: "tables \<Rightarrow> (subject_key \<times> subject_state) list" where
  "snapshot_rows t = sort_key (\<lambda>(k, s). (sk_kind k, sk_id k)) (tb_subjects t)"

definition snapshot_subjects :: "tables \<Rightarrow> (subject_key \<Rightarrow> bool) \<Rightarrow> jvalue list \<times> bool" where
  "snapshot_subjects t visible =
     (let rows = snapshot_rows t;
          shown = map (\<lambda>(k, s). snapshot_entry k (su_revision s) (snapshot_state (sk_kind k) (su_revision s) (su_value s)))
                    (filter (\<lambda>(k, s). visible k) rows);
          hidden = list_ex (\<lambda>(k, s). \<not> visible k) rows
      in (case tb_capabilities t of
            None \<Rightarrow> (shown, hidden)
          | Some (provider_id, revision, predicates) \<Rightarrow>
              (let key = \<lparr>sk_kind = ''core.capabilities'', sk_id = provider_id\<rparr> in
               if revision \<le> 1 then (shown, hidden)
               else if visible key
               then (shown @ [snapshot_entry key revision (Object [(''predicates'', or_else (stored_value predicates) Null)])], hidden)
               else (shown, True))))"

definition gap_item :: "position \<Rightarrow> position \<Rightarrow> jvalue list \<Rightarrow> jvalue" where
  "gap_item a b subjects = Object
     [(''gap'', Object
        [(''kind'', String ''retention''), (''from'', position_value a), (''to'', position_value b),
         (''snapshot'', Object [(''as_of'', position_value b), (''subjects'', Array subjects)])])]"

definition stream_start :: "tables \<Rightarrow> position" where
  "stream_start t =
     \<lparr>po_epoch = (case map fst (tb_epochs t) of
          [] \<Rightarrow> min 1 (current_epoch t)
        | e # es \<Rightarrow> min (fold min es e) (current_epoch t)), po_sequence = 1\<rparr>"

subsection \<open>One read\<close>

record reading =
  rd_items :: "jvalue list"
  rd_at :: position
  rd_used :: nat
  rd_filtered :: bool
  rd_too_large :: bool

record query_args =
  qa_stream :: string
  qa_limit :: int
  qa_kinds :: "string list"
  qa_budget :: nat
  qa_visible :: "subject_key \<Rightarrow> bool"

definition wanted :: "query_args \<Rightarrow> event_row \<Rightarrow> bool" where
  "wanted q e \<longleftrightarrow> \<not> (\<not> qa_visible q (er_subject e) \<or> (qa_kinds q \<noteq> [] \<and> sk_kind (er_subject e) \<notin> set (qa_kinds q)))"

definition full :: "query_args \<Rightarrow> reading \<Rightarrow> bool" where
  "full q rd \<longleftrightarrow> int (length (rd_items rd)) \<ge> qa_limit q"

text \<open>The loop over one epoch's events; the flag says it broke off the whole read.\<close>

fun deliver :: "query_args \<Rightarrow> event_row list \<Rightarrow> reading \<Rightarrow> bool \<times> reading" where
  "deliver q [] rd = (False, rd)"
| "deliver q (e # es) rd =
     (if full q rd then (True, rd)
      else
        (let after = \<lparr>po_epoch = po_epoch (er_position e), po_sequence = po_sequence (er_position e) + 1\<rparr> in
         if \<not> wanted q e then deliver q es (rd\<lparr>rd_at := after, rd_filtered := True\<rparr>)
         else
           (let item = event_item (qa_stream q) e; size1 = length (to_canonical item) in
            if rd_used rd + size1 > qa_budget q
            then (True, rd\<lparr>rd_at := er_position e, rd_too_large := rd_too_large rd \<or> rd_items rd = []\<rparr>)
            else deliver q es (rd\<lparr>rd_at := after, rd_used := rd_used rd + size1, rd_items := rd_items rd @ [item]\<rparr>))))"

text \<open>An item that is not an event, and the position after it; the flag says the loop goes on.\<close>

definition push_item :: "query_args \<Rightarrow> jvalue \<Rightarrow> position \<Rightarrow> reading \<Rightarrow> bool \<times> reading" where
  "push_item q item after rd =
     (let size1 = length (to_canonical item) in
      if rd_used rd + size1 > qa_budget q then (False, rd)
      else (True, rd\<lparr>rd_at := after, rd_used := rd_used rd + size1, rd_items := rd_items rd @ [item]\<rparr>))"

definition missing_here :: "tables \<Rightarrow> position \<Rightarrow> bool" where
  "missing_here t at1 =
     (case sequences_of t (po_epoch at1) of
        [] \<Rightarrow> True
      | s # ss \<Rightarrow> po_sequence at1 < fold min ss s)"

definition next_epoch :: "position \<Rightarrow> position" where
  "next_epoch p = \<lparr>po_epoch = po_epoch p + 1, po_sequence = 1\<rparr>"

definition gap_due :: "tables \<Rightarrow> position \<Rightarrow> bool" where
  "gap_due t at1 =
     (case watermark t of
        None \<Rightarrow> False
      | Some w \<Rightarrow> missing_here t at1 \<and> (po_epoch at1, po_sequence at1) \<le> w)"

definition read_step :: "tables \<Rightarrow> query_args \<Rightarrow> reading \<Rightarrow> bool \<times> reading" where
  "read_step t q rd =
     (let at1 = rd_at rd; current = current_epoch t; vouched = vouched_through t (po_epoch at1) in
      if \<not> (po_epoch at1 \<le> current \<and> \<not> full q rd) then (False, rd)
      else if (case vouched of None \<Rightarrow> False | Some v \<Rightarrow> po_sequence at1 > v) \<and> po_epoch at1 < current
      then push_item q (epoch_change_item (po_epoch at1) (the vouched)) (next_epoch at1) rd
      else if gap_due t at1 then
        (let (subjects, hidden) = snapshot_subjects t (qa_visible q) in
         push_item q (gap_item at1 (head t) subjects)
           \<lparr>po_epoch = po_epoch (head t), po_sequence = po_sequence (head t) + 1\<rparr>
           (rd\<lparr>rd_filtered := rd_filtered rd \<or> hidden\<rparr>))
      else
        (let (broke, rd1) = deliver q (events_in t (po_epoch at1) (po_sequence at1) vouched) rd in
         if broke then (False, rd1)
         else (case vouched of
                 None \<Rightarrow> (False, rd1)
               | Some v \<Rightarrow>
                   if po_epoch (rd_at rd1) < current then
                     (if full q rd1 then (False, rd1)
                      else push_item q (epoch_change_item (po_epoch (rd_at rd1)) v) (next_epoch (rd_at rd1)) rd1)
                   else (False, rd1))))"

fun read_loop :: "nat \<Rightarrow> tables \<Rightarrow> query_args \<Rightarrow> reading \<Rightarrow> reading" where
  "read_loop 0 t q rd = rd"
| "read_loop (Suc n) t q rd =
     (let (again, rd1) = read_step t q rd in if again then read_loop n t q rd1 else rd1)"

definition read_events :: "tables \<Rightarrow> query_args \<Rightarrow> position \<Rightarrow> reading" where
  "read_events t q start =
     read_loop (nat (qa_limit q)) t q
       \<lparr>rd_items = [], rd_at = start, rd_used = 0, rd_filtered = False, rd_too_large = False\<rparr>"

subsection \<open>The loop's bound\<close>

lemma push_item_True: "push_item q item after rd = (True, rd') \<Longrightarrow> rd_items rd' = rd_items rd @ [item]"
  by (auto simp: push_item_def Let_def split: if_splits)

lemma deliver_items: "deliver q es rd = (b, rd') \<Longrightarrow> length (rd_items rd) \<le> length (rd_items rd')"
  by (induction q es rd rule: deliver.induct) (fastforce simp: Let_def split: if_splits)+

lemma read_step_again:
  assumes "read_step t q rd = (True, rd')"
  shows "\<not> full q rd \<and> length (rd_items rd) < length (rd_items rd')"
proof -
  have nf: "\<not> full q rd" using assms by (auto simp: read_step_def Let_def split: if_splits)
  from assms show ?thesis
    using nf by (auto simp: read_step_def Let_def split: if_splits option.splits prod.splits
        dest!: push_item_True deliver_items)
qed

lemma read_step_full: "full q rd \<Longrightarrow> read_step t q rd = (False, rd)"
  by (simp add: read_step_def)

lemma read_loop_enough:
  "nat (qa_limit q) \<le> n + length (rd_items rd) \<Longrightarrow> n \<le> m \<Longrightarrow> read_loop m t q rd = read_loop n t q rd"
proof (induction n arbitrary: m rd)
  case 0
  then have "full q rd" by (simp add: full_def)
  then show ?case by (cases m) (simp_all add: read_step_full)
next
  case (Suc n)
  then obtain m' where m: "m = Suc m'" "n \<le> m'" by (cases m) auto
  show ?case
  proof (cases "read_step t q rd")
    case (Pair again rd1)
    show ?thesis
    proof (cases again)
      case True
      then have "length (rd_items rd) < length (rd_items rd1)" using read_step_again[of t q rd rd1] Pair by simp
      then have "read_loop m' t q rd1 = read_loop n t q rd1" using Suc.prems(1) m(2) by (intro Suc.IH) auto
      then show ?thesis using m Pair by simp
    qed (simp add: m Pair)
  qed
qed

subsection \<open>The recorded history\<close>

text \<open>
  \<open>H\<close> is every event the stream ever recorded, in order; the table keeps those past the watermark.
\<close>

definition retained :: "tables \<Rightarrow> event_row \<Rightarrow> bool" where
  "retained t e \<longleftrightarrow> (case watermark t of None \<Rightarrow> True | Some w \<Rightarrow> w < position_key e)"

definition sequences_in :: "int \<Rightarrow> event_row list \<Rightarrow> int list" where
  "sequences_in epoch es = map (snd \<circ> position_key) (filter (\<lambda>e. fst (position_key e) = epoch) es)"

definition stream_ok :: "tables \<Rightarrow> event_row list \<Rightarrow> bool" where
  "stream_ok t H \<longleftrightarrow>
     tb_events t = filter (retained t) H \<and>
     (\<forall>epoch. \<exists>n. sequences_in epoch H = [1..n]) \<and>
     sorted_wrt (<) (map position_key H) \<and>
     (\<forall>e \<in> set H. 1 \<le> fst (position_key e) \<and> fst (position_key e) \<le> current_epoch t) \<and>
     1 \<le> current_epoch t \<and>
     (\<forall>epoch. vouched_through t epoch \<noteq> None \<longleftrightarrow> 1 \<le> epoch \<and> epoch < current_epoch t) \<and>
     (if H = [] then watermark t = None else retained t (last H))"

lemma stream_okD:
  assumes "stream_ok t H"
  shows "tb_events t = filter (retained t) H" "\<exists>n. sequences_in epoch H = [1..n]"
    "sorted_wrt (<) (map position_key H)"
    "e \<in> set H \<Longrightarrow> 1 \<le> fst (position_key e)" "e \<in> set H \<Longrightarrow> fst (position_key e) \<le> current_epoch t"
    "1 \<le> current_epoch t" "vouched_through t epoch \<noteq> None \<longleftrightarrow> 1 \<le> epoch \<and> epoch < current_epoch t"
    "H = [] \<Longrightarrow> watermark t = None" "H \<noteq> [] \<Longrightarrow> retained t (last H)"
  using assms unfolding stream_ok_def by (auto split: if_splits)

lemma sequences_of_in: "sequences_of t epoch = sequences_in epoch (tb_events t)"
  by (simp add: sequences_of_def sequences_in_def position_key_def comp_def)

lemma position_key_inj: "position_key e = position_key e' \<longleftrightarrow> er_position e = er_position e'"
  by (cases "er_position e"; cases "er_position e'") (auto simp: position_key_def)

lemma max_or_zero_snoc: "\<forall>m \<in> set ns. m \<le> n \<Longrightarrow> 0 \<le> n \<Longrightarrow> max_or_zero (ns @ [n]) = n"
proof (induction ns rule: max_or_zero.induct)
  case (3 a b ns)
  then show ?case by (cases ns) auto
qed auto

lemma last_in_sequences:
  assumes "H \<noteq> []" "\<forall>e \<in> set H. fst (position_key e) \<le> c" "sorted_wrt (<) (map position_key H)"
    and "sequences_in c H \<noteq> []"
  shows "fst (position_key (last H)) = c"
proof -
  obtain e where e: "e \<in> set H" "fst (position_key e) = c"
    using assms(4) by (auto simp: sequences_in_def filter_empty_conv)
  obtain xs where xs: "H = xs @ [last H]" using assms(1) by (metis append_butlast_last_id)
  have "position_key e \<le> position_key (last H)"
    using e(1) assms(3) by (subst (asm) (1 2) xs) (auto simp: sorted_wrt_append less_imp_le)
  then have "c \<le> fst (position_key (last H))" using e(2) by (auto simp: less_eq_prod_def)
  then show ?thesis using assms(1,2) by (force intro: order_antisym)
qed

text \<open>The next position is the one after the last recorded, kept or not.\<close>

lemma last_sequence_count:
  assumes "stream_ok t H"
  shows "sequences_in (current_epoch t) H = [1..last_sequence t (current_epoch t)]" "0 \<le> last_sequence t (current_epoch t)"
proof -
  let ?c = "current_epoch t"
  obtain n where n: "sequences_in ?c H = [1..n]" using stream_okD(2)[OF assms] by blast
  have kept: "sequences_of t ?c = sequences_in ?c (filter (retained t) H)"
    using stream_okD(1)[OF assms] by (simp add: sequences_of_in)
  have "sequences_in ?c H = [1..last_sequence t ?c] \<and> 0 \<le> last_sequence t ?c"
  proof (cases "sequences_in ?c H = []")
    case True
    then have "sequences_of t ?c = []" using kept by (auto simp: sequences_in_def filter_empty_conv)
    then show ?thesis using True by (simp add: last_sequence_def)
  next
    case False
    then have H: "H \<noteq> []" by (auto simp: sequences_in_def)
    have l: "fst (position_key (last H)) = ?c"
      by (rule last_in_sequences[OF H _ stream_okD(3)[OF assms] False]) (use stream_okD(5)[OF assms] in blast)
    have r: "retained t (last H)" by (rule stream_okD(9)[OF assms H])
    obtain xs where xs: "H = xs @ [last H]" using H by (metis append_butlast_last_id)
    have snoc: "sequences_in ?c H = sequences_in ?c xs @ [snd (position_key (last H))]"
      using l by (subst xs) (simp add: sequences_in_def)
    have n1: "1 \<le> n" using False n by (cases "1 \<le> n") simp_all
    then have "last [1..n] = n" by (simp add: upto_rec2)
    then have ln: "snd (position_key (last H)) = n" using snoc n by (metis last_snoc)
    have ks: "sequences_of t ?c = sequences_in ?c (filter (retained t) xs) @ [n]"
      unfolding kept using l r ln by (subst xs) (simp add: sequences_in_def)
    have "set (sequences_in ?c (filter (retained t) xs)) \<subseteq> set [1..n]"
      unfolding n[symmetric] snoc by (auto simp: sequences_in_def)
    then have "last_sequence t ?c = n" unfolding last_sequence_def ks using n1 by (intro max_or_zero_snoc) auto
    then show ?thesis using n n1 by simp
  qed
  then show "sequences_in ?c H = [1..last_sequence t ?c]" "0 \<le> last_sequence t ?c" by simp_all
qed

end
