(* ===== verification/Stream_Write.thy ===== *)
theory Stream_Write
  imports Stream_Read
begin

text \<open>
  What the operations of the store do to the recorded history: every operation that appends events
  appends them at the positions that follow (\<open>grows\<close>), and epochs and retention keep the invariant.
\<close>

definition grows :: "tables \<Rightarrow> tables \<Rightarrow> bool" where
  "grows t t' \<longleftrightarrow> (\<exists>es. tb_events t' = tb_events t @ es \<and> (\<forall>H. stream_ok t H \<longrightarrow> stream_ok t' (H @ es)))"

lemma grows_refl [simp]: "grows t t"
  by (auto simp: grows_def)

lemma grows_trans: "grows t t' \<Longrightarrow> grows t' t'' \<Longrightarrow> grows t t''"
  unfolding grows_def by (metis append_assoc)

definition same_stream :: "tables \<Rightarrow> tables \<Rightarrow> bool" where
  "same_stream t t' \<longleftrightarrow> tb_events t' = tb_events t \<and> tb_epochs t' = tb_epochs t \<and>
     current_epoch t' = current_epoch t \<and> watermark t' = watermark t"

lemma same_stream_grows: "same_stream t t' \<Longrightarrow> grows t t'"
proof -
  assume same: "same_stream t t'"
  then have "retained t' = retained t" "vouched_through t' = vouched_through t"
    by (simp_all add: same_stream_def retained_def vouched_through_def fun_eq_iff)
  then show ?thesis
    using same unfolding same_stream_def grows_def by (intro exI[of _ "[]"]) (simp add: stream_ok_def)
qed

lemma same_stream_simps [simp]:
  "same_stream t (t\<lparr>tb_subjects := x\<rparr>)" "same_stream t (t\<lparr>tb_claims := y\<rparr>)" "same_stream t (t\<lparr>tb_chunks := z\<rparr>)"
  "same_stream t (t\<lparr>tb_commands := u\<rparr>)" "same_stream t (t\<lparr>tb_capabilities := v\<rparr>)"
  "same_stream t (t\<lparr>tb_credentials := w\<rparr>)" "same_stream t (t\<lparr>tb_checkouts := o1\<rparr>)"
  by (simp_all add: same_stream_def current_epoch_def watermark_def meta_def)

lemma same_stream_put [simp]: "same_stream t (put_subject k s t)"
  by (simp add: put_subject_def)

lemma meta_set_meta: "meta (set_meta k n t) k' = (if k' = k then Some n else meta t k')"
  by (simp add: meta_def set_meta_def update_conv)

lemma meta_other [simp]: "meta (t\<lparr>tb_epochs := x\<rparr>) k = meta t k" "meta (t\<lparr>tb_events := y\<rparr>) k = meta t k"
  by (simp_all add: meta_def)

lemma set_meta_other [simp]: "tb_events (set_meta k n t) = tb_events t" "tb_epochs (set_meta k n t) = tb_epochs t"
  by (simp_all add: set_meta_def)

lemma same_stream_meta:
  "k \<notin> {''current_epoch'', ''discarded_epoch'', ''discarded_sequence''} \<Longrightarrow> same_stream t (set_meta k n t)"
  by (auto simp: same_stream_def current_epoch_def watermark_def meta_set_meta)

lemma sequences_in_append: "sequences_in e (xs @ ys) = sequences_in e xs @ sequences_in e ys"
  by (simp add: sequences_in_def)

lemma position_key_next:
  "er_position e = next_position t \<Longrightarrow> position_key e = (current_epoch t, last_sequence t (current_epoch t) + 1)"
  by (simp add: position_key_def next_position_def)

lemma sequence_in_history:
  assumes "stream_ok t H" "e \<in> set H" "fst (position_key e) = current_epoch t"
  shows "snd (position_key e) \<le> last_sequence t (current_epoch t)"
proof -
  have "snd (position_key e) \<in> set (sequences_in (current_epoch t) H)"
    using assms(2,3) by (force simp: sequences_in_def)
  then show ?thesis using last_sequence_count(1)[OF assms(1)] by simp
qed

lemma before_next:
  assumes "stream_ok t H" "e \<in> set H" "er_position n = next_position t"
  shows "position_key e < position_key n"
proof -
  have "fst (position_key e) \<le> current_epoch t" by (rule stream_okD(5)[OF assms(1,2)])
  then show ?thesis
    using sequence_in_history[OF assms(1,2)] position_key_next[OF assms(3)] by (force simp: less_prod_def)
qed

lemma insert_event_grows:
  assumes "insert_event e t = Inr t'" "er_position e = next_position t"
  shows "grows t t'"
  unfolding grows_def
proof (intro exI[of _ "[e]"] conjI allI impI)
  have t': "t' = t\<lparr>tb_events := tb_events t @ [e]\<rparr>" using assms(1) by (auto simp: insert_event_def split: if_splits)
  show "tb_events t' = tb_events t @ [e]" by (simp add: t')
  fix H
  assume ok: "stream_ok t H"
  have same: "current_epoch t' = current_epoch t" "watermark t' = watermark t" "vouched_through t' = vouched_through t"
    "retained t' = retained t"
    by (simp_all add: t' current_epoch_def watermark_def meta_def vouched_through_def retained_def fun_eq_iff)
  have after: "position_key x < position_key e" if "x \<in> set H" for x by (rule before_next[OF ok that assms(2)])
  have kept: "retained t e"
  proof (cases "H = []")
    case True
    then show ?thesis using stream_okD(8)[OF ok] by (simp add: retained_def)
  next
    case False
    then show ?thesis using stream_okD(9)[OF ok] after[of "last H"] by (force simp: retained_def split: option.splits)
  qed
  have "\<exists>n. sequences_in epoch (H @ [e]) = [1..n]" for epoch
  proof (cases "epoch = current_epoch t")
    case True
    then have "sequences_in epoch (H @ [e]) = [1..last_sequence t (current_epoch t) + 1]"
      using last_sequence_count[OF ok] position_key_next[OF assms(2)]
      by (simp add: sequences_in_append upto_rec2, simp add: sequences_in_def)
    then show ?thesis by blast
  next
    case False
    then show ?thesis
      using stream_okD(2)[OF ok, of epoch] position_key_next[OF assms(2)]
      by (simp add: sequences_in_append, simp add: sequences_in_def)
  qed
  moreover have "sorted_wrt (<) (map position_key (H @ [e]))"
    using stream_okD(3)[OF ok] after by (simp add: sorted_wrt_append)
  moreover have "tb_events t' = filter (retained t) (H @ [e])" using stream_okD(1)[OF ok] kept by (simp add: t')
  ultimately show "stream_ok t' (H @ [e])"
    using stream_okD(4-7)[OF ok] kept position_key_next[OF assms(2)]
    unfolding stream_ok_def same by auto
qed

text \<open>Operations, one by one.\<close>

lemma append_event_grows: "append_event c r k n e t = Inr t' \<Longrightarrow> grows t t'"
  unfolding append_event_def by (erule insert_event_grows) (simp only: event_row.simps)

lemma append_events_grows: "append_events c r k n es t = Inr t' \<Longrightarrow> grows t t'"
  by (induction c r k n es t rule: append_events.induct) (auto simp: rbind_Inr_iff intro: grows_trans append_event_grows)

lemma insert_claim_revision_grows: "insert_claim_revision c n t = Inr t' \<Longrightarrow> grows t t'"
  by (auto simp: insert_claim_revision_def intro!: same_stream_grows split: option.splits if_splits)

lemma change_chunks_grows: "change_chunks ch t = Inr t' \<Longrightarrow> grows t t'"
  by (cases ch) (auto intro!: same_stream_grows split: if_splits)

lemma raise_subject_grows: "raise_subject k v t = (n, t') \<Longrightarrow> grows t t'"
  by (auto simp: raise_subject_def Let_def intro!: same_stream_grows split: option.splits)

lemma apply_also_grows: "apply_also c r chs t = Inr t' \<Longrightarrow> grows t t'"
proof (induction c r chs t rule: apply_also.induct)
  case (2 c r ch chs t)
  obtain n t1 where r: "raise_subject (cg_key ch) (cg_value ch) t = (n, t1)" by fastforce
  then obtain t2 where "append_events c r (cg_key ch) n (case cg_event ch of None \<Rightarrow> [] | Some e \<Rightarrow> [e]) t1 = Inr t2"
    "apply_also c r chs t2 = Inr t'" using 2(2) by (auto simp: rbind_Inr_iff)
  then show ?case using raise_subject_grows[OF r] append_events_grows 2(1)[OF r[symmetric] refl] grows_trans by meson
qed simp

lemma insert_effects_grows: "insert_effects c r i es t = Inr t' \<Longrightarrow> grows t t'"
proof (induction c r i es t rule: insert_effects.induct)
  case (2 c r i e es t)
  show ?case using 2(2) 2(1)[OF refl refl refl]
    by (auto simp: Let_def split: if_splits intro: grows_trans[OF same_stream_grows[OF same_stream_put]])
qed simp

lemma insert_command_grows: "insert_command row t = Inr t' \<Longrightarrow> grows t t'"
  by (auto simp: insert_command_def intro!: same_stream_grows split: if_splits)

lemma commit_command_grows: "commit_command c mk t = Inr (res, t') \<Longrightarrow> grows t t'"
proof -
  assume a: "commit_command c mk t = Inr (res, t')"
  obtain n t1 where r: "raise_subject (cm_key c) (cm_value c) t = (n, t1)" by fastforce
  let ?op = "operation_ref_of (next_operation t1)" and ?t2 = "set_meta ''operation_counter'' (next_operation t1) t1"
  obtain t3 t4 t5 t6 t7 where steps:
    "append_events c ?op (cm_key c) n ((case cm_event c of None \<Rightarrow> [] | Some e \<Rightarrow> [e]) @ cm_more_events c) ?t2 = Inr t3"
    "insert_claim_revision c n t3 = Inr t4" "change_chunks (cm_chunks c) t4 = Inr t5"
    "apply_also c ?op (cm_also c) t5 = Inr t6" "insert_effects c ?op 0 (cm_effects c) t6 = Inr t7"
    "insert_command \<lparr>cr_principal = cm_principal c, cr_command_id = cm_command_id c, cr_digest = cm_digest c,
       cr_generation = cm_generation c, cr_result = to_canonical (mk n ?op)\<rparr> t7 = Inr t'"
    using a r by (auto simp: commit_command_def Let_def rbind_Inr_iff)
  have "grows t1 ?t2" by (rule same_stream_grows[OF same_stream_meta]) simp
  then show ?thesis
    using raise_subject_grows[OF r] append_events_grows[OF steps(1)] insert_claim_revision_grows[OF steps(2)]
      change_chunks_grows[OF steps(3)] apply_also_grows[OF steps(4)] insert_effects_grows[OF steps(5)]
      insert_command_grows[OF steps(6)] by (meson grows_trans)
qed

lemma append_provider_events_grows:
  "\<forall>e \<in> set es. \<forall>u. er_position (e u) = next_position u \<Longrightarrow> append_provider_events es t = Inr t' \<Longrightarrow> grows t t'"
proof (induction es t rule: append_provider_events.induct)
  case (2 e es t)
  then obtain x where x: "insert_event (e t) t = Inr x" "append_provider_events es x = Inr t'"
    by (auto simp: rbind_Inr_iff)
  have "grows t x" by (rule insert_event_grows[OF x(1)]) (use 2 in simp)
  then show ?case using 2 x(2) by (auto intro: grows_trans)
qed simp

lemma commit_provider_change_grows: "commit_provider_change k v es at1 d t = Inr (n, t') \<Longrightarrow> grows t t'"
proof -
  assume a: "commit_provider_change k v es at1 d t = Inr (n, t')"
  then obtain s where s: "subject t k = Some s" by (auto simp: commit_provider_change_def split: option.splits)
  let ?t1 = "put_subject k (s\<lparr>su_revision := su_revision s + 1, su_value := v\<rparr>) t"
  let ?t2 = "if d then ?t1\<lparr>tb_chunks := filter (\<lambda>row. fst (fst row) \<noteq> sk_id k) (tb_chunks ?t1)\<rparr> else ?t1"
  have "append_provider_events
      (map (\<lambda>e u. provider_event u (ne_type e) k (su_revision s + 1) at1 (ne_payload e (su_revision s + 1))) es) ?t2 = Inr t'"
    using a s by (auto simp: commit_provider_change_def Let_def rbind_Inr_iff split: if_splits)
  then have "grows ?t2 t'" by (rule append_provider_events_grows[rotated]) (auto simp: provider_event_def)
  moreover have "grows t ?t1" "grows ?t1 ?t2" by (auto intro: same_stream_grows)
  ultimately show ?thesis by (meson grows_trans)
qed

lemma apply_writes_grows: "apply_writes ws t = Inr t' \<Longrightarrow> grows t t'"
  by (induction ws t rule: apply_writes.induct)
    (auto split: if_splits intro: grows_trans[OF same_stream_grows[OF same_stream_put]])

lemma apply_batch_events_grows: "apply_batch_events ws at1 es t = Inr t' \<Longrightarrow> grows t t'"
proof (induction ws at1 es t rule: apply_batch_events.induct)
  case (2 writes at1 e es t)
  then obtain x where x: "insert_event (provider_event t (pe_type e) (pe_key e) (pe_revision e) at1 (pe_payload e)) t = Inr x"
    "apply_batch_events writes at1 es x = Inr t'" "written_by writes e"
    by (auto simp: rbind_Inr_iff split: if_splits)
  have "grows t x" by (rule insert_event_grows[OF x(1)]) (simp add: provider_event_def)
  then show ?case using 2 x(2,3) by (auto intro: grows_trans)
qed simp

lemma commit_provider_batch_grows: "commit_provider_batch ws es at1 t = Inr t' \<Longrightarrow> grows t t'"
  by (auto simp: commit_provider_batch_def rbind_Inr_iff intro: grows_trans apply_writes_grows apply_batch_events_grows)

lemma reconcile_capabilities_grows: "reconcile_capabilities p v at1 t = Inr (n, t') \<Longrightarrow> grows t t'"
proof -
  assume a: "reconcile_capabilities p v at1 t = Inr (n, t')"
  show ?thesis
  proof (cases "tb_capabilities t")
    case None
    then show ?thesis using a by (auto simp: reconcile_capabilities_def Let_def intro!: same_stream_grows)
  next
    case (Some x)
    then obtain known revision previous where x: "tb_capabilities t = Some (known, revision, previous)" by (cases x) auto
    show ?thesis
    proof (cases "previous = to_canonical v")
      case True
      then show ?thesis using a x by (simp add: reconcile_capabilities_def Let_def)
    next
      case False
      let ?t1 = "t\<lparr>tb_capabilities := Some (p, revision + 1, to_canonical v)\<rparr>"
      have "insert_event (provider_event ?t1 ''core.capabilities.changed''
          \<lparr>sk_kind = ''core.capabilities'', sk_id = p\<rparr> (revision + 1) at1 (Object [(''predicates'', v)])) ?t1 = Inr t'"
        using a x False by (auto simp: reconcile_capabilities_def Let_def rbind_Inr_iff)
      then have "grows ?t1 t'" by (rule insert_event_grows) (simp add: provider_event_def)
      moreover have "grows t ?t1" by (rule same_stream_grows) simp
      ultimately show ?thesis by (rule grows_trans[rotated])
    qed
  qed
qed

subsection \<open>Process start\<close>

lemma start_new_epoch_ok:
  assumes "stream_ok t H"
  shows "stream_ok (start_new_epoch n t) H"
proof -
  let ?t = "start_new_epoch n t"
  have c: "current_epoch ?t = current_epoch t + 1" "tb_events ?t = tb_events t" "watermark ?t = watermark t"
    by (simp_all add: start_new_epoch_def Let_def current_epoch_def watermark_def meta_set_meta or_else_def)
  have r: "retained ?t = retained t" by (simp add: retained_def c fun_eq_iff)
  have v: "vouched_through ?t e \<noteq> None \<longleftrightarrow> e = current_epoch t \<or> vouched_through t e \<noteq> None" for e
    by (auto simp: vouched_through_def start_new_epoch_def Let_def set_meta_def update_conv)
  have "vouched_through ?t e \<noteq> None \<longleftrightarrow> 1 \<le> e \<and> e < current_epoch ?t" for e
    unfolding v c using stream_okD(6,7)[OF assms] by auto
  moreover have "fst (position_key e) \<le> current_epoch ?t" if "e \<in> set H" for e
    using stream_okD(5)[OF assms that] c by simp
  ultimately show ?thesis
    using assms stream_okD(6)[OF assms] unfolding stream_ok_def r c by simp
qed

lemma take_drop_filter:
  assumes "sorted_wrt (<) (map position_key es)" "0 < k" "k \<le> length es"
  shows "filter (\<lambda>e. e \<notin> set (take k es)) es = filter (\<lambda>e. position_key (es ! (k - 1)) < position_key e) es"
proof (rule filter_cong[OF refl])
  fix e
  assume "e \<in> set es"
  then obtain i where i: "e = es ! i" "i < length es" by (auto simp: in_set_conv_nth)
  have less: "position_key (es ! a) < position_key (es ! b)" if "a < b" "b < length es" for a b
    using sorted_wrt_nth_less[OF assms(1), of a b] that by simp
  show "e \<notin> set (take k es) \<longleftrightarrow> position_key (es ! (k - 1)) < position_key e"
  proof (cases "i < k")
    case True
    then have "e \<in> set (take k es)" using i assms(3) by (auto simp: in_set_conv_nth intro!: exI[of _ i])
    moreover have "i = k - 1 \<or> position_key e < position_key (es ! (k - 1))"
      using less[of i "k - 1"] True i assms by (cases "i = k - 1") auto
    ultimately show ?thesis using i by auto
  next
    case False
    have "e \<notin> set (take k es)"
    proof
      assume "e \<in> set (take k es)"
      then obtain j where "e = es ! j" "j < k" using assms(3) by (auto simp: in_set_conv_nth)
      then show False using less[of j i] i False by auto
    qed
    moreover have "position_key (es ! (k - 1)) < position_key e" using less[of "k - 1" i] i False assms(2) by auto
    ultimately show ?thesis by simp
  qed
qed

lemma in_order_id:
  assumes "stream_ok t H"
  shows "in_order t = tb_events t" "sorted_wrt (<) (map position_key (tb_events t))"
proof -
  show s: "sorted_wrt (<) (map position_key (tb_events t))"
    using stream_okD(3)[OF assms] unfolding stream_okD(1)[OF assms] sorted_wrt_map by (rule sorted_wrt_filter)
  then have "sorted (map position_key (tb_events t))" by (simp add: strict_sorted_iff)
  then show "in_order t = tb_events t" unfolding in_order_def by (rule sort_key_id_if_sorted)
qed

lemma retain_last_events_ok:
  assumes "stream_ok t H" "n \<noteq> 0"
  shows "stream_ok (retain_last_events n t) H"
proof (cases "doomed n t = []")
  case True
  then show ?thesis using assms(1) by (simp add: retain_last_events_def)
next
  case False
  let ?es = "tb_events t" and ?t = "retain_last_events n t"
  let ?k = "length ?es - nat n"
  note ord = in_order_id[OF assms(1)]
  have n: "0 < n" and d: "doomed n t = take ?k ?es"
    using False assms(2) ord(1) by (auto simp: doomed_def split: if_splits)
  have k: "0 < ?k" "?k < length ?es" using False d n by auto
  let ?d = "?es ! (?k - 1)"
  have sk: "Suc (?k - 1) = ?k" using k(1) by simp
  have "take (Suc (?k - 1)) ?es = take (?k - 1) ?es @ [?d]" using k by (intro take_Suc_conv_app_nth) simp
  then have rv: "rev (take ?k ?es) = ?d # rev (take (?k - 1) ?es)" unfolding sk by simp
  have t': "?t = set_meta ''discarded_sequence'' (po_sequence (er_position ?d))
       (set_meta ''discarded_epoch'' (po_epoch (er_position ?d))
         (t\<lparr>tb_events := filter (\<lambda>e. e \<notin> set (take ?k ?es)) ?es\<rparr>))"
    unfolding retain_last_events_def d rv by simp
  have fields: "tb_events ?t = filter (\<lambda>e. position_key ?d < position_key e) ?es"
    "watermark ?t = Some (position_key ?d)" "current_epoch ?t = current_epoch t" "vouched_through ?t = vouched_through t"
    using take_drop_filter[OF ord(2) k(1) less_imp_le[OF k(2)]]
    by (simp_all add: t' watermark_def meta_set_meta current_epoch_def vouched_through_def position_key_def fun_eq_iff)
  have H: "H \<noteq> []" using k stream_okD(1)[OF assms(1)] by auto
  have d_in: "?d \<in> set ?es" using k by auto
  then have rd: "retained t ?d" "?d \<in> set H" using stream_okD(1)[OF assms(1)] by auto
  have r: "retained ?t e \<longleftrightarrow> position_key ?d < position_key e" for e by (simp add: retained_def fields)
  have imp: "retained t e" if "position_key ?d < position_key e" for e
    using rd(1) that by (auto simp: retained_def split: option.splits)
  have "filter (retained ?t) H = filter (\<lambda>e. position_key ?d < position_key e) (filter (retained t) H)"
    unfolding filter_filter r by (rule filter_cong[OF refl]) (use imp in blast)
  then have ev: "tb_events ?t = filter (retained ?t) H" using fields(1) stream_okD(1)[OF assms(1)] by simp
  have ne: "?es \<noteq> []" using k(2) by (cases ?es) simp_all
  have "position_key ?d < position_key (last ?es)"
    using sorted_wrt_nth_less[OF ord(2), of "?k - 1" "length ?es - 1"] k ne by (simp add: last_conv_nth)
  moreover have "last ?es = last H"
    using stream_okD(1)[OF assms(1)] stream_okD(9)[OF assms(1) H] H
    by (metis append_butlast_last_id filter.simps filter_append last_snoc)
  ultimately have "retained ?t (last H)" by (simp add: r)
  then show ?thesis
    using assms(1) ev H stream_okD[OF assms(1)] unfolding stream_ok_def fields by simp
qed

subsection \<open>The store as a state machine\<close>

text \<open>Every operation that writes, and the history beside the tables. A retention pass keeps at least one event.\<close>

inductive store_step :: "tables \<times> event_row list \<Rightarrow> tables \<times> event_row list \<Rightarrow> bool" where
  command: "commit_command c mk t = Inr (res, t') \<Longrightarrow> store_step (t, H) (t', H @ drop (length (tb_events t)) (tb_events t'))"
| bound: "bind_command_only who i d g v t = Inr t' \<Longrightarrow> store_step (t, H) (t', H)"
| change: "commit_provider_change k v es at1 dis t = Inr (n, t') \<Longrightarrow>
    store_step (t, H) (t', H @ drop (length (tb_events t)) (tb_events t'))"
| batch: "commit_provider_batch ws es at1 t = Inr t' \<Longrightarrow>
    store_step (t, H) (t', H @ drop (length (tb_events t)) (tb_events t'))"
| capabilities: "reconcile_capabilities p v at1 t = Inr (n, t') \<Longrightarrow>
    store_step (t, H) (t', H @ drop (length (tb_events t)) (tb_events t'))"
| repository: "store_step (t, H) (snd (register_repository i path at1 t), H)"
| rotate: "rotate_credential who d t = Inr t' \<Longrightarrow> store_step (t, H) (t', H)"
| revoke: "store_step (t, H) (snd (revoke_credentials who t), H)"
| epoch: "store_step (t, H) (start_new_epoch u t, H)"
| retention: "r \<noteq> 0 \<Longrightarrow> store_step (t, H) (retain_last_events r t, H)"
| generation: "store_step (t, H) (snd (start_generation a r t), H)"

inductive_cases store_stepE: "store_step s s'"

lemma grows_ok: "grows t t' \<Longrightarrow> stream_ok t H \<Longrightarrow> stream_ok t' (H @ drop (length (tb_events t)) (tb_events t'))"
  by (auto simp: grows_def)

lemma same_stream_ok: "same_stream t t' \<Longrightarrow> stream_ok t H \<Longrightarrow> stream_ok t' H"
  using same_stream_grows[of t t'] by (force simp: grows_def same_stream_def)

lemma same_stream_trans: "same_stream t t' \<Longrightarrow> same_stream t' t'' \<Longrightarrow> same_stream t t''"
  by (simp add: same_stream_def)

lemma register_repository_same: "same_stream t (snd (register_repository i path at1 t))"
proof -
  have "same_stream t (put_subject k s (t\<lparr>tb_checkouts := c\<rparr>))" for k s c
    by (rule same_stream_trans[of _ "t\<lparr>tb_checkouts := c\<rparr>"]) simp_all
  then show ?thesis by (simp add: register_repository_def Let_def split: option.split)
qed

lemma store_step_ok:
  assumes "store_step s s'" "stream_ok (fst s) (snd s)"
  shows "stream_ok (fst s') (snd s')"
  using assms
proof (cases rule: store_step.cases)
  case (bound who i d g v t t' H)
  then have "same_stream t t'" by (auto simp: bind_command_only_def insert_command_def split: if_splits)
  then show ?thesis using bound assms(2) same_stream_ok by simp
next
  case (rotate who d t t' H)
  then have "same_stream t t'" by (auto simp: rotate_credential_def split: if_splits)
  then show ?thesis using rotate assms(2) same_stream_ok by simp
next
  case (generation t H a r)
  have "same_stream t (snd (start_generation a r t))"
    unfolding start_generation_def Let_def snd_conv
    by (rule same_stream_trans[OF same_stream_meta[of "''dedupe_current''" t
        "or_else (meta t ''dedupe_current'') 1 + a"]]) simp_all
  then show ?thesis using generation assms(2) same_stream_ok by simp
next
  case (revoke t H who)
  have "same_stream t (snd (revoke_credentials who t))" by (simp add: revoke_credentials_def)
  then show ?thesis using revoke assms(2) same_stream_ok by simp
next
  case (repository t H i path at1)
  then show ?thesis using assms(2) same_stream_ok[OF register_repository_same] by simp
qed (use grows_ok[OF commit_command_grows] grows_ok[OF commit_provider_change_grows]
    grows_ok[OF commit_provider_batch_grows] grows_ok[OF reconcile_capabilities_grows]
    start_new_epoch_ok retain_last_events_ok in simp_all)

lemma empty_stream_ok: "stream_ok empty_tables []"
  by (simp add: stream_ok_def empty_tables_def current_epoch_def watermark_def meta_def vouched_through_def
      sequences_in_def or_else_def, rule exI[of _ 0], simp)

lemma reachable_stream_ok:
  "store_step\<^sup>*\<^sup>* (empty_tables, []) (t, H) \<Longrightarrow> stream_ok t H"
  by (induction "(empty_tables, []::event_row list)" "(t, H)" arbitrary: t H rule: rtranclp.induct)
    (auto simp: empty_stream_ok dest: store_step_ok)

text \<open>
  Keeping no event at all is not among the steps: the code accepts it too, and then the next event is
  numbered 1 in its epoch again, whatever was recorded before.
\<close>

lemma retain_none:
  "tb_events (retain_last_events 0 t) = [] \<and>
   next_position (retain_last_events 0 t) = \<lparr>po_epoch = current_epoch t, po_sequence = 1\<rparr>"
proof -
  have d: "doomed 0 t = in_order t" by (simp add: doomed_def in_order_def)
  have e: "tb_events (retain_last_events 0 t) = []"
  proof (cases "rev (in_order t)")
    case Nil
    then have "length (in_order t) = 0" by simp
    then have "tb_events t = []" by (simp add: in_order_def)
    then show ?thesis using Nil by (simp add: retain_last_events_def d)
  next
    case (Cons x xs)
    moreover have "set (in_order t) = set (tb_events t)" by (simp add: in_order_def)
    ultimately show ?thesis by (simp add: retain_last_events_def d set_meta_def filter_empty_conv)
  qed
  have "current_epoch (retain_last_events 0 t) = current_epoch t"
    by (simp add: retain_last_events_def current_epoch_def meta_def set_meta_def update_conv split: list.split)
  then show ?thesis by (simp add: e next_position_def last_sequence_def sequences_of_def)
qed

definition example_commit :: "string \<Rightarrow> commit" where
  "example_commit i = \<lparr>cm_key = \<lparr>sk_kind = ''k'', sk_id = ''s''\<rparr>, cm_value = ''v'', cm_principal = ''p'',
     cm_command_id = i, cm_digest = ''d'', cm_generation = 1,
     cm_event = Some \<lparr>ne_type = ''t'', ne_payload = (\<lambda>n. Integer n), ne_caused_by = []\<rparr>, cm_also = [], cm_effects = [],
     cm_grant = None, cm_more_events = [], cm_chunks = No_Chunks, cm_recorded_at = ''now'', cm_claim_revision = None\<rparr>"

lemma example_commits: "\<exists>t'. commit_command (example_commit i) (\<lambda>n r. Integer n) empty_tables = Inr (Integer 1, t')"
  by (simp add: commit_command_def example_commit_def empty_tables_def raise_subject_def subject_def
      put_subject_def next_operation_def meta_def set_meta_def or_else_def append_event_def insert_event_def
      insert_claim_revision_def insert_command_def find_command_def Let_def)

lemma example_history: "\<exists>t H. store_step\<^sup>*\<^sup>* (empty_tables, []) (t, H) \<and> H \<noteq> []"
proof -
  obtain t' where t': "commit_command (example_commit ''c'') (\<lambda>n r. Integer n) empty_tables = Inr (Integer 1, t')"
    using example_commits by blast
  have "tb_events t' \<noteq> []"
    using t' by (auto simp: commit_command_def example_commit_def empty_tables_def raise_subject_def subject_def
      put_subject_def next_operation_def meta_def set_meta_def or_else_def append_event_def insert_event_def
      insert_claim_revision_def insert_command_def find_command_def Let_def)
  then show ?thesis
    using store_step.command [OF t', of "[]"] by (intro exI [of _ t'] exI [of _ "tb_events t'"]) (auto simp: empty_tables_def)
qed

subsection \<open>Properties\<close>



end
