(* ===== verification/Stream_Complete.thy ===== *)
theory Stream_Complete
  imports Stream_Write
begin

text \<open>
  A read leaves no silent gap: every event ever recorded between where it starts and the cursor it
  returns is delivered, or not the reader's to see, or lies in a gap the read reports.
\<close>

definition pos :: "position \<Rightarrow> int \<times> int" where
  "pos p = (po_epoch p, po_sequence p)"

lemma pos_simps [simp]: "pos \<lparr>po_epoch = e, po_sequence = s\<rparr> = (e, s)" "pos (er_position x) = position_key x"
  by (simp_all add: pos_def position_key_def)

definition deliverable :: "tables \<Rightarrow> event_row \<Rightarrow> bool" where
  "deliverable t e \<longleftrightarrow>
     (case vouched_through t (fst (position_key e)) of None \<Rightarrow> True | Some v \<Rightarrow> snd (position_key e) \<le> v)"

text \<open>The event was put in the answer, or the answer says that events up to the head are missing there.\<close>

definition answered :: "tables \<Rightarrow> query_args \<Rightarrow> jvalue list \<Rightarrow> event_row \<Rightarrow> bool" where
  "answered t q items e \<longleftrightarrow>
     event_item (qa_stream q) e \<in> set items \<or>
     (\<exists>a subjects. pos a \<le> position_key e \<and> position_key e \<le> pos (head t) \<and> gap_item a (head t) subjects \<in> set items)"

definition covered :: "tables \<Rightarrow> query_args \<Rightarrow> event_row list \<Rightarrow> position \<Rightarrow> reading \<Rightarrow> bool" where
  "covered t q H start rd \<longleftrightarrow> (\<forall>e \<in> set H. pos start \<le> position_key e \<longrightarrow> position_key e < pos (rd_at rd) \<longrightarrow>
     deliverable t e \<longrightarrow> wanted q e \<longrightarrow> answered t q (rd_items rd) e)"

lemma answered_mono: "answered t q items e \<Longrightarrow> set items \<subseteq> set items' \<Longrightarrow> answered t q items' e"
  by (auto simp: answered_def)

lemma covered_extend:
  assumes "covered t q H start rd" "set (rd_items rd) \<subseteq> set (rd_items rd')"
    and "\<And>e. e \<in> set H \<Longrightarrow> pos (rd_at rd) \<le> position_key e \<Longrightarrow> position_key e < pos (rd_at rd') \<Longrightarrow>
      deliverable t e \<Longrightarrow> wanted q e \<Longrightarrow> answered t q (rd_items rd') e"
  shows "covered t q H start rd'"
  unfolding covered_def
proof (intro ballI impI)
  fix e
  assume e: "e \<in> set H" "pos start \<le> position_key e" "position_key e < pos (rd_at rd')" "deliverable t e" "wanted q e"
  show "answered t q (rd_items rd') e"
  proof (cases "position_key e < pos (rd_at rd)")
    case True
    then show ?thesis using assms(1,2) e answered_mono unfolding covered_def by blast
  next
    case False
    then show ?thesis using assms(3) e by (simp add: not_less)
  qed
qed

lemma less_after: "fst (position_key x) = ep \<Longrightarrow> position_key x < (ep, s + 1) \<longleftrightarrow> snd (position_key x) \<le> s"
  by (cases "position_key x") auto

lemma deliver_covered:
  assumes "deliver q es rd = (b, rd')"
    and "sorted_wrt (<) (map position_key es)" "\<forall>e \<in> set es. fst (position_key e) = ep"
    and "\<forall>e \<in> set es. pos (rd_at rd) \<le> position_key e" "fst (pos (rd_at rd)) = ep"
    and "\<forall>x \<in> set H. fst (position_key x) = ep \<longrightarrow> pos (rd_at rd) \<le> position_key x \<longrightarrow> deliverable t x \<longrightarrow> x \<in> set es"
    and "covered t q H start rd"
  shows "covered t q H start rd' \<and> fst (pos (rd_at rd')) = ep \<and> pos (rd_at rd) \<le> pos (rd_at rd') \<and>
    set (rd_items rd) \<subseteq> set (rd_items rd') \<and>
    (\<not> b \<longrightarrow> (\<forall>x \<in> set H. fst (position_key x) = ep \<longrightarrow> deliverable t x \<longrightarrow> position_key x < pos (rd_at rd')))"
  using assms
proof (induction q es rd arbitrary: b rd' rule: deliver.induct)
  case (1 q rd)
  then show ?case by (auto simp: not_less[symmetric])
next
  case (2 q e es rd)
  let ?after = "\<lparr>po_epoch = po_epoch (er_position e), po_sequence = po_sequence (er_position e) + 1\<rparr>"
  have ep: "fst (position_key e) = ep" using "2.prems"(3) by simp
  have after: "pos ?after = (ep, snd (position_key e) + 1)" using ep by (simp add: position_key_def)
  have at: "pos (rd_at rd) \<le> position_key e" using "2.prems"(4) by simp
  have lt: "position_key e < pos ?after" using ep after less_after[OF ep] by simp
  have adv: "pos (rd_at rd) \<le> pos ?after" using at lt by (meson order_trans less_imp_le)
  have only: "x = e" if "x \<in> set H" "pos (rd_at rd) \<le> position_key x" "position_key x < pos ?after" "deliverable t x" for x
  proof -
    have "ep \<le> fst (position_key x)" using that(2) "2.prems"(5) by (auto simp: less_eq_prod_def)
    moreover have "fst (position_key x) \<le> ep" using that(3) after by (auto simp: less_prod_def)
    ultimately have xe: "fst (position_key x) = ep" by simp
    then have "x \<in> set (e # es)" using "2.prems"(6) that by blast
    moreover have "\<not> position_key e < position_key x" using that(3) after less_after[OF xe] xe ep
      by (auto simp: less_prod_def)
    ultimately show ?thesis using "2.prems"(2) by auto
  qed
  have below: "\<forall>x \<in> set es. pos ?after \<le> position_key x"
  proof
    fix x
    assume x: "x \<in> set es"
    then have "position_key e < position_key x" "fst (position_key x) = ep" using "2.prems"(2,3) by auto
    then show "pos ?after \<le> position_key x" using after ep by (auto simp: less_prod_def less_eq_prod_def)
  qed
  have rest: "\<forall>x \<in> set H. fst (position_key x) = ep \<longrightarrow> pos ?after \<le> position_key x \<longrightarrow> deliverable t x \<longrightarrow> x \<in> set es"
  proof (intro ballI impI)
    fix x
    assume x: "x \<in> set H" "fst (position_key x) = ep" "pos ?after \<le> position_key x" "deliverable t x"
    then have "pos (rd_at rd) \<le> position_key x" using at lt by (meson order_trans less_imp_le)
    then have "x \<in> set (e # es)" using "2.prems"(6) x by blast
    then show "x \<in> set es" using x(3) lt by auto
  qed
  show ?case
  proof (cases "full q rd")
    case True
    then show ?thesis using "2.prems" by auto
  next
    case nf: False
    show ?thesis
    proof (cases "wanted q e")
      case False
      let ?rd = "rd\<lparr>rd_at := ?after, rd_filtered := True\<rparr>"
      have d: "deliver q es ?rd = (b, rd')" using "2.prems"(1) nf False by (simp add: Let_def)
      have cov: "covered t q H start ?rd"
        by (rule covered_extend[OF "2.prems"(7)]) (use only False in auto)
      have "covered t q H start rd' \<and> fst (pos (rd_at rd')) = ep \<and> pos (rd_at ?rd) \<le> pos (rd_at rd') \<and>
        set (rd_items ?rd) \<subseteq> set (rd_items rd') \<and>
        (\<not> b \<longrightarrow> (\<forall>x \<in> set H. fst (position_key x) = ep \<longrightarrow> deliverable t x \<longrightarrow> position_key x < pos (rd_at rd')))"
      proof (rule "2.IH"(1)[OF nf refl False d])
        show "sorted_wrt (<) (map position_key es)" "\<forall>e \<in> set es. fst (position_key e) = ep"
          using "2.prems"(2,3) by simp_all
        show "\<forall>e \<in> set es. pos (rd_at ?rd) \<le> position_key e" using below by simp
        show "fst (pos (rd_at ?rd)) = ep" using after by simp
        show "\<forall>x \<in> set H. fst (position_key x) = ep \<longrightarrow> pos (rd_at ?rd) \<le> position_key x \<longrightarrow> deliverable t x \<longrightarrow> x \<in> set es"
          using rest by simp
      qed (rule cov)
      then show ?thesis using order_trans[OF adv, of "pos (rd_at rd')"] by simp
    next
      case w: True
      let ?item = "event_item (qa_stream q) e"
      show ?thesis
      proof (cases "rd_used rd + length (to_canonical ?item) > qa_budget q")
        case True
        then have r: "b" "rd' = rd\<lparr>rd_at := er_position e, rd_too_large := rd_too_large rd \<or> rd_items rd = []\<rparr>"
          using "2.prems"(1) nf w by (auto simp: Let_def)
        have "covered t q H start rd'"
          by (rule covered_extend[OF "2.prems"(7)]) (use only lt r in \<open>auto dest: less_trans\<close>)
        then show ?thesis using r ep at by simp
      next
        case False
        let ?rd = "rd\<lparr>rd_at := ?after, rd_used := rd_used rd + length (to_canonical ?item), rd_items := rd_items rd @ [?item]\<rparr>"
        have d: "deliver q es ?rd = (b, rd')" using "2.prems"(1) nf w False by (simp add: Let_def)
        have cov: "covered t q H start ?rd"
          by (rule covered_extend[OF "2.prems"(7)]) (use only in \<open>auto simp: answered_def\<close>)
        have "covered t q H start rd' \<and> fst (pos (rd_at rd')) = ep \<and> pos (rd_at ?rd) \<le> pos (rd_at rd') \<and>
          set (rd_items ?rd) \<subseteq> set (rd_items rd') \<and>
          (\<not> b \<longrightarrow> (\<forall>x \<in> set H. fst (position_key x) = ep \<longrightarrow> deliverable t x \<longrightarrow> position_key x < pos (rd_at rd')))"
        proof (rule "2.IH"(2)[OF nf refl _ refl refl False d])
          show "\<not> \<not> wanted q e" using w by simp
          show "sorted_wrt (<) (map position_key es)" "\<forall>e \<in> set es. fst (position_key e) = ep"
            using "2.prems"(2,3) by simp_all
          show "\<forall>e \<in> set es. pos (rd_at ?rd) \<le> position_key e" using below by simp
          show "fst (pos (rd_at ?rd)) = ep" using after by simp
          show "\<forall>x \<in> set H. fst (position_key x) = ep \<longrightarrow> pos (rd_at ?rd) \<le> position_key x \<longrightarrow> deliverable t x \<longrightarrow> x \<in> set es"
            using rest by simp
        qed (rule cov)
        then show ?thesis using order_trans[OF adv, of "pos (rd_at rd')"] by simp
      qed
    qed
  qed
qed

subsection \<open>A turn of the loop\<close>

lemma fold_min_in: "fold min ss (s::int) \<in> set (s # ss)"
proof (induction ss arbitrary: s)
  case (Cons a ss)
  have "fold min ss (min a s) \<in> set (min a s # ss)" by (rule Cons.IH)
  moreover have "min a s \<in> {a, s}" by (auto simp: min_def)
  ultimately show ?case by auto
qed simp

text \<open>Where no gap is due, nothing at or after the position has been discarded from its epoch.\<close>

lemma no_gap_retained:
  assumes ok: "stream_ok t H" and gap: "\<not> gap_due t p"
    and x: "x \<in> set H" "fst (position_key x) = po_epoch p" "pos p \<le> position_key x"
  shows "x \<in> set (tb_events t)"
proof (rule ccontr)
  assume "x \<notin> set (tb_events t)"
  then have "\<not> retained t x" using stream_okD(1)[OF ok] x(1) by simp
  then obtain w where w: "watermark t = Some w" "position_key x \<le> w"
    by (auto simp: retained_def not_less split: option.splits)
  have pw: "pos p \<le> w" using x(3) w(2) by (rule order_trans)
  then have "\<not> missing_here t p" using gap w(1) by (simp add: gap_due_def pos_def)
  then obtain s ss where s: "sequences_of t (po_epoch p) = s # ss" "fold min ss s \<le> po_sequence p"
    by (auto simp: missing_here_def split: list.splits)
  then have "fold min ss s \<in> set (sequences_of t (po_epoch p))" using fold_min_in[of ss s] by simp
  then obtain y where y: "y \<in> set (tb_events t)" "position_key y = (po_epoch p, fold min ss s)"
    by (auto simp: sequences_of_def position_key_def)
  then have "retained t y" using stream_okD(1)[OF ok] by simp
  then have "w < position_key y" using w(1) by (simp add: retained_def)
  moreover have "position_key y \<le> pos p" using y(2) s(2) by (simp add: pos_def)
  ultimately show False using pw by (meson leD less_le_trans)
qed

lemma push_item_covered:
  assumes "push_item q item after rd = (b, rd')" "covered t q H start rd" "pos (rd_at rd) \<le> pos after"
    and "\<And>e. e \<in> set H \<Longrightarrow> pos (rd_at rd) \<le> position_key e \<Longrightarrow> position_key e < pos after \<Longrightarrow>
      deliverable t e \<Longrightarrow> answered t q (rd_items rd @ [item]) e"
  shows "covered t q H start rd' \<and> pos (rd_at rd) \<le> pos (rd_at rd')"
proof (cases "rd_used rd + length (to_canonical item) > qa_budget q")
  case True
  then show ?thesis using assms(1,2) by (auto simp: push_item_def Let_def)
next
  case False
  then have rd': "rd' = rd\<lparr>rd_at := after, rd_used := rd_used rd + length (to_canonical item), rd_items := rd_items rd @ [item]\<rparr>"
    using assms(1) by (auto simp: push_item_def Let_def)
  have "covered t q H start rd'"
    by (rule covered_extend[OF assms(2)]) (use assms(4) rd' in auto)
  then show ?thesis using assms(3) rd' by simp
qed

text \<open>Going to the next epoch passes over nothing that is still vouched for.\<close>

lemma next_epoch_passes:
  assumes "stream_ok t H" "x \<in> set H" "pos p \<le> position_key x" "position_key x < pos (next_epoch p)"
  shows "fst (position_key x) = po_epoch p"
proof -
  have "1 \<le> snd (position_key x)"
  proof -
    obtain n where n: "sequences_in (fst (position_key x)) H = [1..n]" using stream_okD(2)[OF assms(1)] by blast
    have "snd (position_key x) \<in> set (sequences_in (fst (position_key x)) H)" using assms(2) by (auto simp: sequences_in_def)
    then show ?thesis using n by simp
  qed
  then show ?thesis using assms(3,4) by (auto simp: next_epoch_def pos_def less_eq_prod_def less_prod_def)
qed

lemma pos_next_epoch: "pos p \<le> pos (next_epoch p)"
  by (simp add: next_epoch_def pos_def less_eq_prod_def)

lemma events_in_sorted:
  assumes "stream_ok t H"
  shows "events_in t ep s v = filter (\<lambda>e. po_epoch (er_position e) = ep \<and> po_sequence (er_position e) \<ge> s \<and>
           (case v of None \<Rightarrow> True | Some c \<Rightarrow> po_sequence (er_position e) \<le> c)) (tb_events t)"
    and "sorted_wrt (<) (map position_key (events_in t ep s v))"
proof -
  let ?es = "filter (\<lambda>e. po_epoch (er_position e) = ep \<and> po_sequence (er_position e) \<ge> s \<and>
           (case v of None \<Rightarrow> True | Some c \<Rightarrow> po_sequence (er_position e) \<le> c)) (tb_events t)"
  have s: "sorted_wrt (<) (map position_key ?es)"
    using in_order_id(2)[OF assms] unfolding sorted_wrt_map by (rule sorted_wrt_filter)
  then have "sorted_wrt (\<lambda>a b. position_key a < position_key b) ?es" by (simp add: sorted_wrt_map)
  then have "sorted_wrt (\<lambda>a b. po_sequence (er_position a) \<le> po_sequence (er_position b)) ?es"
    by (rule sorted_wrt_mono_rel[rotated]) (auto simp: position_key_def less_prod_def)
  then have "sorted (map (\<lambda>e. po_sequence (er_position e)) ?es)" by (simp add: sorted_wrt_map)
  then show "events_in t ep s v = ?es" unfolding events_in_def by (rule sort_key_id_if_sorted)
  then show "sorted_wrt (<) (map position_key (events_in t ep s v))" using s by simp
qed

lemma read_step_covered:
  assumes ok: "stream_ok t H" and step: "read_step t q rd = (b, rd')" and cov: "covered t q H start rd"
  shows "covered t q H start rd' \<and> pos (rd_at rd) \<le> pos (rd_at rd')"
proof -
  let ?p = "rd_at rd" let ?v = "vouched_through t (po_epoch ?p)"
  consider (stop) "\<not> (po_epoch ?p \<le> current_epoch t \<and> \<not> full q rd)"
    | (passed) "po_epoch ?p \<le> current_epoch t" "\<not> full q rd" "(case ?v of None \<Rightarrow> False | Some v \<Rightarrow> po_sequence ?p > v) \<and> po_epoch ?p < current_epoch t"
    | (gap) "po_epoch ?p \<le> current_epoch t" "\<not> full q rd" "\<not> ((case ?v of None \<Rightarrow> False | Some v \<Rightarrow> po_sequence ?p > v) \<and> po_epoch ?p < current_epoch t)" "gap_due t ?p"
    | (events) "po_epoch ?p \<le> current_epoch t" "\<not> full q rd" "\<not> ((case ?v of None \<Rightarrow> False | Some v \<Rightarrow> po_sequence ?p > v) \<and> po_epoch ?p < current_epoch t)" "\<not> gap_due t ?p"
    by blast
  then show ?thesis
  proof cases
    case stop
    then show ?thesis using step cov by (simp add: read_step_def)
  next
    case passed
    then obtain v where closed: "po_epoch ?p \<le> current_epoch t" "\<not> full q rd" "?v = Some v" "po_sequence ?p > v"
      "po_epoch ?p < current_epoch t" by (cases ?v) auto
    then have p: "push_item q (epoch_change_item (po_epoch ?p) v) (next_epoch ?p) rd = (b, rd')"
      using step by (simp add: read_step_def Let_def)
    show ?thesis
    proof (rule push_item_covered[OF p cov pos_next_epoch])
      fix e
      assume e: "e \<in> set H" "pos ?p \<le> position_key e" "position_key e < pos (next_epoch ?p)" "deliverable t e"
      have f: "fst (position_key e) = po_epoch ?p" by (rule next_epoch_passes[OF ok e(1-3)])
      then have "po_sequence ?p \<le> snd (position_key e)" using e(2) by (auto simp: pos_def less_eq_prod_def)
      then show "answered t q (rd_items rd @ [epoch_change_item (po_epoch ?p) v]) e"
        using e(4) f closed by (simp add: deliverable_def)
    qed
  next
    case gap
    obtain subjects hidden where s: "snapshot_subjects t (qa_visible q) = (subjects, hidden)" by fastforce
    let ?rd = "rd\<lparr>rd_filtered := rd_filtered rd \<or> hidden\<rparr>"
    let ?after = "\<lparr>po_epoch = po_epoch (head t), po_sequence = po_sequence (head t) + 1\<rparr>"
    have p: "push_item q (gap_item ?p (head t) subjects) ?after ?rd = (b, rd')"
      using step gap s by (auto simp: read_step_def Let_def split: if_splits option.splits)
    have c: "covered t q H start ?rd" using cov by (simp add: covered_def)
    have le: "pos ?p \<le> pos ?after"
    proof (cases "po_epoch ?p = current_epoch t")
      case True
      have "po_sequence ?p \<le> po_sequence (head t) + 1"
      proof (rule ccontr)
        assume n: "\<not> ?thesis"
        obtain w where w: "watermark t = Some w" "(po_epoch ?p, po_sequence ?p) \<le> w" using gap(4) by (auto simp: gap_due_def split: option.splits)
        have H: "H \<noteq> []" using stream_okD(8)[OF ok] w(1) by auto
        then have "w < position_key (last H)" using stream_okD(9)[OF ok H] w(1) by (simp add: retained_def)
        then have l: "(po_epoch ?p, po_sequence ?p) < position_key (last H)" using w(2) by simp
        have "fst (position_key (last H)) \<le> current_epoch t" using stream_okD(5)[OF ok] H by simp
        then have "fst (position_key (last H)) = current_epoch t" "po_sequence ?p < snd (position_key (last H))"
          using l True by (auto simp: less_prod_def)
        then show False using sequence_in_history[OF ok, of "last H"] H n by (simp add: head_def)
      qed
      then show ?thesis using True by (simp add: pos_def head_def)
    next
      case False
      then show ?thesis using gap(1) by (simp add: pos_def head_def less_eq_prod_def)
    qed
    have "covered t q H start rd' \<and> pos (rd_at ?rd) \<le> pos (rd_at rd')"
    proof (rule push_item_covered[OF p c])
      show "pos (rd_at ?rd) \<le> pos ?after" using le by simp
      fix e
      assume e: "e \<in> set H" "pos (rd_at ?rd) \<le> position_key e" "position_key e < pos ?after"
      then have "position_key e \<le> pos (head t)" by (cases "position_key e") (auto simp: pos_def less_eq_prod_def)
      then show "answered t q (rd_items ?rd @ [gap_item ?p (head t) subjects]) e"
        using e(2) by (auto simp: answered_def)
    qed
    then show ?thesis by simp
  next
    case events
    let ?es = "events_in t (po_epoch ?p) (po_sequence ?p) ?v"
    obtain broke rd1 where d: "deliver q ?es rd = (broke, rd1)" by fastforce
    have st: "read_step t q rd = (if broke then (False, rd1)
         else (case ?v of
                 None \<Rightarrow> (False, rd1)
               | Some v \<Rightarrow>
                   if po_epoch (rd_at rd1) < current_epoch t then
                     (if full q rd1 then (False, rd1)
                      else push_item q (epoch_change_item (po_epoch (rd_at rd1)) v) (next_epoch (rd_at rd1)) rd1)
                   else (False, rd1)))"
      using events d by (auto simp: read_step_def Let_def split: option.split)
    have es: "covered t q H start rd1 \<and> fst (pos (rd_at rd1)) = po_epoch ?p \<and> pos ?p \<le> pos (rd_at rd1) \<and>
      set (rd_items rd) \<subseteq> set (rd_items rd1) \<and>
      (\<not> broke \<longrightarrow> (\<forall>x \<in> set H. fst (position_key x) = po_epoch ?p \<longrightarrow> deliverable t x \<longrightarrow> position_key x < pos (rd_at rd1)))"
    proof (rule deliver_covered[OF d events_in_sorted(2)[OF ok] _ _ _ _ cov])
      show "\<forall>e \<in> set ?es. fst (position_key e) = po_epoch ?p"
        unfolding events_in_sorted(1)[OF ok] by (auto simp: position_key_def)
      show "\<forall>e \<in> set ?es. pos ?p \<le> position_key e"
        unfolding events_in_sorted(1)[OF ok] by (auto simp: position_key_def pos_def)
      show "fst (pos ?p) = po_epoch ?p" by (simp add: pos_def)
      show "\<forall>x \<in> set H. fst (position_key x) = po_epoch ?p \<longrightarrow> pos ?p \<le> position_key x \<longrightarrow> deliverable t x \<longrightarrow> x \<in> set ?es"
      proof (intro ballI impI)
        fix x
        assume x: "x \<in> set H" "fst (position_key x) = po_epoch ?p" "pos ?p \<le> position_key x" "deliverable t x"
        have "x \<in> set (tb_events t)" by (rule no_gap_retained[OF ok events(4) x(1-3)])
        moreover have "po_epoch (er_position x) = po_epoch ?p" "po_sequence ?p \<le> po_sequence (er_position x)"
          using x(2,3) by (auto simp: position_key_def pos_def less_eq_prod_def)
        moreover have "case ?v of None \<Rightarrow> True | Some c \<Rightarrow> po_sequence (er_position x) \<le> c"
          using x(2,4) by (auto simp: deliverable_def position_key_def split: option.splits)
        ultimately show "x \<in> set ?es" unfolding events_in_sorted(1)[OF ok] by simp
      qed
    qed
    show ?thesis
    proof (cases "broke \<or> ?v = None \<or> \<not> po_epoch (rd_at rd1) < current_epoch t \<or> full q rd1")
      case True
      then have "rd' = rd1" using step st by (auto split: option.splits if_splits)
      then show ?thesis using es by simp
    next
      case False
      then obtain v where v: "?v = Some v" by auto
      have p: "push_item q (epoch_change_item (po_epoch (rd_at rd1)) v) (next_epoch (rd_at rd1)) rd1 = (b, rd')"
        using step st v False by simp
      have "covered t q H start rd' \<and> pos (rd_at rd1) \<le> pos (rd_at rd')"
      proof (rule push_item_covered[OF p _ pos_next_epoch])
        show "covered t q H start rd1" using es by simp
        fix e
        assume e: "e \<in> set H" "pos (rd_at rd1) \<le> position_key e" "position_key e < pos (next_epoch (rd_at rd1))" "deliverable t e"
        have "fst (position_key e) = po_epoch (rd_at rd1)" by (rule next_epoch_passes[OF ok e(1-3)])
        then have "fst (position_key e) = po_epoch ?p" using es by (simp add: pos_def)
        then have "position_key e < pos (rd_at rd1)" using es False e(1,4) by blast
        then show "answered t q (rd_items rd1 @ [epoch_change_item (po_epoch (rd_at rd1)) v]) e" using e(2) by simp
      qed
      then show ?thesis using es by (auto intro: order_trans)
    qed
  qed
qed

lemma read_loop_covered:
  assumes "stream_ok t H"
  shows "covered t q H start rd \<Longrightarrow> pos start \<le> pos (rd_at rd) \<Longrightarrow>
    covered t q H start (read_loop n t q rd) \<and> pos start \<le> pos (rd_at (read_loop n t q rd))"
proof (induction n arbitrary: rd)
  case (Suc n)
  obtain b rd1 where s: "read_step t q rd = (b, rd1)" by fastforce
  have c: "covered t q H start rd1" "pos (rd_at rd) \<le> pos (rd_at rd1)"
    using read_step_covered[OF assms s Suc.prems(1)] by simp_all
  then show ?case using Suc.IH[OF c(1)] Suc.prems(2) s by (auto intro: order_trans)
qed simp

lemma read_events_covered:
  assumes "stream_ok t H"
  shows "covered t q H start (read_events t q start) \<and> pos start \<le> pos (rd_at (read_events t q start))"
  unfolding read_events_def by (rule read_loop_covered[OF assms]) (auto simp: covered_def)

subsection \<open>What an answer may contain\<close>

definition item_ok :: "tables \<Rightarrow> query_args \<Rightarrow> position \<Rightarrow> jvalue \<Rightarrow> bool" where
  "item_ok t q start item \<longleftrightarrow>
     (\<exists>e \<in> set (tb_events t). item = event_item (qa_stream q) e \<and> qa_visible q (er_subject e) \<and> pos start \<le> position_key e) \<or>
     (\<exists>epoch v. item = epoch_change_item epoch v) \<or>
     (\<exists>a. item = gap_item a (head t) (fst (snapshot_subjects t (qa_visible q))))"

definition items_ok :: "tables \<Rightarrow> query_args \<Rightarrow> position \<Rightarrow> reading \<Rightarrow> bool" where
  "items_ok t q start rd \<longleftrightarrow> list_all (item_ok t q start) (rd_items rd)"

lemma deliver_items_ok:
  "deliver q es rd = (b, rd') \<Longrightarrow> items_ok t q start rd \<Longrightarrow> set es \<subseteq> set (tb_events t) \<Longrightarrow>
   \<forall>e \<in> set es. pos start \<le> position_key e \<Longrightarrow> items_ok t q start rd'"
proof (induction q es rd arbitrary: b rd' rule: deliver.induct)
  case (2 q e es rd)
  have e: "item_ok t q start (event_item (qa_stream q) e)" if "wanted q e"
    using 2 that by (auto simp: item_ok_def wanted_def)
  show ?case
  proof (cases "full q rd")
    case True
    then show ?thesis using 2 by simp
  next
    case nf: False
    let ?after = "\<lparr>po_epoch = po_epoch (er_position e), po_sequence = po_sequence (er_position e) + 1\<rparr>"
    let ?item = "event_item (qa_stream q) e"
    let ?rd = "rd\<lparr>rd_at := ?after, rd_used := rd_used rd + length (to_canonical ?item), rd_items := rd_items rd @ [?item]\<rparr>"
    consider (skip) "\<not> wanted q e" | (large) "wanted q e" "rd_used rd + length (to_canonical ?item) > qa_budget q"
      | (fits) "wanted q e" "\<not> rd_used rd + length (to_canonical ?item) > qa_budget q" by blast
    then show ?thesis
    proof cases
      case skip
      then have d: "deliver q es (rd\<lparr>rd_at := ?after, rd_filtered := True\<rparr>) = (b, rd')"
        using "2.prems"(1) nf by (simp add: Let_def)
      show ?thesis
        by (rule "2.IH"(1)[OF nf refl skip d]) (use "2.prems" in \<open>simp_all add: items_ok_def\<close>)
    next
      case large
      then have "rd_items rd' = rd_items rd" using "2.prems"(1) nf by (auto simp: Let_def)
      then show ?thesis using "2.prems"(2) by (simp add: items_ok_def)
    next
      case fits
      then have d: "deliver q es ?rd = (b, rd')" using "2.prems"(1) nf by (simp add: Let_def)
      show ?thesis
      proof (rule "2.IH"(2)[OF nf refl _ refl refl fits(2) d])
        show "\<not> \<not> wanted q e" using fits by simp
        show "items_ok t q start ?rd" using "2.prems"(2) e fits(1) by (simp add: items_ok_def)
      qed (use "2.prems" in simp_all)
    qed
  qed
qed simp

lemma push_item_ok:
  "push_item q item after rd = (b, rd') \<Longrightarrow> items_ok t q start rd \<Longrightarrow> item_ok t q start item \<Longrightarrow> items_ok t q start rd'"
  by (auto simp: push_item_def items_ok_def Let_def split: if_splits)

lemma read_step_items_ok:
  assumes ok: "stream_ok t H" and step: "read_step t q rd = (b, rd')"
    and i: "items_ok t q start rd" "pos start \<le> pos (rd_at rd)"
  shows "items_ok t q start rd'"
proof -
  let ?p = "rd_at rd" let ?v = "vouched_through t (po_epoch ?p)"
  obtain subjects hidden where s: "snapshot_subjects t (qa_visible q) = (subjects, hidden)" by fastforce
  obtain broke rd1 where d: "deliver q (events_in t (po_epoch ?p) (po_sequence ?p) ?v) rd = (broke, rd1)" by fastforce
  have rd1: "items_ok t q start rd1"
  proof (rule deliver_items_ok[OF d i(1)])
    show "set (events_in t (po_epoch ?p) (po_sequence ?p) ?v) \<subseteq> set (tb_events t)"
      unfolding events_in_sorted(1)[OF ok] by auto
    show "\<forall>e \<in> set (events_in t (po_epoch ?p) (po_sequence ?p) ?v). pos start \<le> position_key e"
    proof
      fix e
      assume "e \<in> set (events_in t (po_epoch ?p) (po_sequence ?p) ?v)"
      then have "pos ?p \<le> position_key e"
        unfolding events_in_sorted(1)[OF ok] by (auto simp: pos_def position_key_def)
      then show "pos start \<le> position_key e" using i(2) by (rule order_trans[rotated])
    qed
  qed
  have epoch: "item_ok t q start (epoch_change_item x y)" for x y by (auto simp: item_ok_def)
  have gap: "item_ok t q start (gap_item a (head t) subjects)" for a using s by (auto simp: item_ok_def)
  have rdf: "items_ok t q start (rd\<lparr>rd_filtered := rd_filtered rd \<or> hidden\<rparr>)" using i(1) by (simp add: items_ok_def)
  show ?thesis
    using step i(1) rd1 s d push_item_ok[OF _ i(1) epoch] push_item_ok[OF _ rd1 epoch] push_item_ok[OF _ rdf gap]
    unfolding read_step_def Let_def by (auto split: if_splits option.splits)
qed

lemma read_loop_items_ok:
  assumes "stream_ok t H"
  shows "items_ok t q start rd \<Longrightarrow> pos start \<le> pos (rd_at rd) \<Longrightarrow> covered t q H start rd \<Longrightarrow>
    items_ok t q start (read_loop n t q rd)"
proof (induction n arbitrary: rd)
  case (Suc n)
  obtain b rd1 where s: "read_step t q rd = (b, rd1)" by fastforce
  have c: "covered t q H start rd1" "pos (rd_at rd) \<le> pos (rd_at rd1)"
    using read_step_covered[OF assms s Suc.prems(3)] by simp_all
  have "items_ok t q start rd1" by (rule read_step_items_ok[OF assms s Suc.prems(1,2)])
  then show ?case using Suc.IH[of rd1] c Suc.prems(2) s by (auto intro: order_trans)
qed simp

lemma read_events_items_ok: "stream_ok t H \<Longrightarrow> items_ok t q start (read_events t q start)"
  unfolding read_events_def
  by (rule read_loop_items_ok) (auto simp: items_ok_def covered_def)

subsection \<open>An oversized gap\<close>

lemma gap_text_nonempty: "0 < length (to_canonical (gap_item a b subjects))"
  by (simp add: gap_item_def)

lemma oversized_gap:
  assumes "0 < qa_limit q" "po_epoch start \<le> current_epoch t" "vouched_through t (po_epoch start) = None" "gap_due t start"
    and "qa_budget q < length (to_canonical (gap_item start (head t) (fst (snapshot_subjects t (qa_visible q)))))"
  shows "rd_items (read_events t q start) = [] \<and> rd_at (read_events t q start) = start \<and>
    \<not> rd_too_large (read_events t q start)"
proof -
  let ?rd = "\<lparr>rd_items = [], rd_at = start, rd_used = 0, rd_filtered = False, rd_too_large = False\<rparr>"
  obtain subjects hidden where s: "snapshot_subjects t (qa_visible q) = (subjects, hidden)" by fastforce
  obtain n where n: "nat (qa_limit q) = Suc n" using assms(1) by (cases "nat (qa_limit q)") auto
  have "read_step t q ?rd = (False, ?rd\<lparr>rd_filtered := hidden\<rparr>)"
    using assms s by (simp add: read_step_def Let_def full_def push_item_def)
  then show ?thesis by (simp add: read_events_def n)
qed

subsection \<open>Examples\<close>

definition example_tables :: tables where
  "example_tables =
     (case commit_command (example_commit ''c'') (\<lambda>n r. Integer n) empty_tables of Inl _ \<Rightarrow> empty_tables | Inr (_, t) \<Rightarrow> t)"

lemma example_commit_runs:
  "commit_command (example_commit ''c'') (\<lambda>n r. Integer n) empty_tables = Inr (Integer 1, example_tables)"
  by (simp add: example_tables_def commit_command_def example_commit_def empty_tables_def raise_subject_def subject_def
      put_subject_def next_operation_def meta_def set_meta_def or_else_def append_event_def insert_event_def
      insert_claim_revision_def insert_command_def find_command_def Let_def)

lemma stream_reached: "store_step\<^sup>*\<^sup>* (empty_tables, []) (example_tables, tb_events example_tables)"
  using store_step.command[OF example_commit_runs, of "[]"] by (auto simp: empty_tables_def)

definition example_row :: event_row where
  "example_row = \<lparr>er_position = \<lparr>po_epoch = 1, po_sequence = 1\<rparr>, er_type = ''t'',
     er_subject = \<lparr>sk_kind = ''k'', sk_id = ''s''\<rparr>, er_revision = 1, er_origin = ''command'',
     er_operation_ref = Some (operation_ref_of 1), er_command_id = Some ''c'', er_caused_by = to_canonical (Array []),
     er_recorded_at = ''now'', er_payload = to_canonical (Integer 1)\<rparr>"

lemma example_rows: "tb_events example_tables = [example_row]"
  by (simp add: example_tables_def commit_command_def example_commit_def empty_tables_def raise_subject_def subject_def
      put_subject_def next_operation_def meta_def set_meta_def or_else_def append_event_def insert_event_def
      insert_claim_revision_def insert_command_def find_command_def Let_def next_position_def current_epoch_def
      last_sequence_def sequences_of_def example_row_def)

lemma example_meta: "tb_epochs example_tables = [] \<and> current_epoch example_tables = 1 \<and> watermark example_tables = None"
  by (simp add: example_tables_def commit_command_def example_commit_def empty_tables_def raise_subject_def subject_def
      put_subject_def next_operation_def meta_def set_meta_def or_else_def append_event_def insert_event_def
      insert_claim_revision_def insert_command_def find_command_def Let_def watermark_def current_epoch_def)

lemma example_row_position [simp]: "position_key example_row = (1, 1)" "er_position example_row = \<lparr>po_epoch = 1, po_sequence = 1\<rparr>"
  by (simp_all add: example_row_def position_key_def)

text \<open>A reader whose limit is the size of the one event.\<close>

definition example_query :: query_args where
  "example_query = \<lparr>qa_stream = ''s'', qa_limit = 2, qa_kinds = [],
     qa_budget = length (to_canonical (event_item ''s'' example_row)), qa_visible = (\<lambda>_. True)\<rparr>"

lemma example_query_simps: "wanted example_query e" "qa_stream example_query = ''s''" "qa_visible example_query = (\<lambda>_. True)"
  by (simp_all add: example_query_def wanted_def)

lemma example_row_deliverable: "deliverable example_tables example_row"
  using example_meta by (simp add: deliverable_def vouched_through_def)

lemma example_read:
  "read_events example_tables example_query \<lparr>po_epoch = 1, po_sequence = 1\<rparr> =
     \<lparr>rd_items = [event_item ''s'' example_row], rd_at = \<lparr>po_epoch = 1, po_sequence = 2\<rparr>,
      rd_used = qa_budget example_query, rd_filtered = False, rd_too_large = False\<rparr>"
  using example_meta
  by (simp add: read_events_def numeral_2_eq_2 read_step_def example_rows events_in_def vouched_through_def gap_due_def
      full_def wanted_def example_query_def Let_def)

text \<open>Tables whose first event has been discarded.\<close>

definition discarded_tables :: tables where
  "discarded_tables = empty_tables\<lparr>tb_meta := [(''discarded_epoch'', 1), (''discarded_sequence'', 1)]\<rparr>"

lemma discarded_gap: "gap_due discarded_tables \<lparr>po_epoch = 1, po_sequence = 1\<rparr>"
  by (simp add: gap_due_def discarded_tables_def empty_tables_def watermark_def meta_def missing_here_def sequences_of_def)

subsection \<open>Further facts\<close>

text \<open>
  A read gives away only what its reader may see: after any sequence of the store's operations
  every item of an answer is a recorded event at or after the start whose subject the reader may
  read, an epoch change, or a gap whose snapshot is the one made for that reader.
\<close>

theorem answers_show_only_the_visible:
  assumes "store_step\<^sup>*\<^sup>* (empty_tables, []) (t, H)" and "item \<in> set (rd_items (read_events t q start))"
  shows "(\<exists>e \<in> set (tb_events t). item = event_item (qa_stream q) e \<and> qa_visible q (er_subject e) \<and> pos start \<le> position_key e) \<or>
    (\<exists>epoch v. item = epoch_change_item epoch v) \<or>
    (\<exists>a. item = gap_item a (head t) (fst (snapshot_subjects t (qa_visible q))))"
  using read_events_items_ok [OF reachable_stream_ok [OF assms(1)], of q start] assms(2)
  unfolding items_ok_def item_ok_def list_all_iff by blast

lemma answers_show_only_the_visible_witness:
  "(\<exists>e \<in> set (tb_events example_tables). event_item ''s'' example_row = event_item ''s'' e \<and> (1, 1) \<le> position_key e) \<or>
   (\<exists>epoch v. event_item ''s'' example_row = epoch_change_item epoch v) \<or>
   (\<exists>a. event_item ''s'' example_row =
      gap_item a (head example_tables) (fst (snapshot_subjects example_tables (qa_visible example_query))))"
  using answers_show_only_the_visible [OF stream_reached, of "event_item ''s'' example_row" example_query
      "\<lparr>po_epoch = 1, po_sequence = 1\<rparr>"]
  by (simp add: example_read example_query_simps)

text \<open>
  A gap item larger than the reader's limit cannot be delivered and is not reported: the answer
  has no item, its cursor is the start, so resuming makes no progress, and the flag that tells the
  reader the first item is too large is not set.
\<close>

theorem oversized_gap_is_silent:
  assumes "0 < qa_limit q" "po_epoch start \<le> current_epoch t" "vouched_through t (po_epoch start) = None" "gap_due t start"
    and "qa_budget q < length (to_canonical (gap_item start (head t) (fst (snapshot_subjects t (qa_visible q)))))"
  shows "rd_items (read_events t q start) = [] \<and> rd_at (read_events t q start) = start \<and>
    \<not> rd_too_large (read_events t q start)"
  using assms by (rule oversized_gap)

lemma oversized_gap_is_silent_witness:
  "rd_items (read_events discarded_tables (example_query\<lparr>qa_budget := 0\<rparr>) \<lparr>po_epoch = 1, po_sequence = 1\<rparr>) = []"
  using oversized_gap_is_silent [of "example_query\<lparr>qa_budget := 0\<rparr>" "\<lparr>po_epoch = 1, po_sequence = 1\<rparr>" discarded_tables]
    discarded_gap gap_text_nonempty
  by (simp add: example_query_def discarded_tables_def empty_tables_def current_epoch_def meta_def or_else_def
      vouched_through_def)

subsection \<open>Properties\<close>



end
