(* ===== verification/Store_Commands.thy ===== *)
theory Store_Commands
  imports Stream_Write
begin

text \<open>
  What a command's transaction does to the command table and to the subjects: an identity is bound
  once, with the result the command returned, and revisions only rise.
\<close>

subsection \<open>Revisions only rise\<close>

definition rises :: "tables \<Rightarrow> tables \<Rightarrow> bool" where
  "rises t t' \<longleftrightarrow> (\<forall>k. revision_of t k \<le> revision_of t' k \<and> applied_count t k \<le> applied_count t' k)"

lemma rises_refl [simp]: "rises t t"
  by (simp add: rises_def)

lemma rises_trans: "rises t t' \<Longrightarrow> rises t' t'' \<Longrightarrow> rises t t''"
  by (meson order_trans rises_def)

definition subjects_ok :: "tables \<Rightarrow> bool" where
  "subjects_ok t \<longleftrightarrow> (\<forall>k s. subject t k = Some s \<longrightarrow> 0 \<le> su_applied s \<and> su_applied s \<le> su_revision s \<and> 1 \<le> su_revision s)"

lemma subject_put: "subject (put_subject k s t) k' = (if k' = k then Some s else subject t k')"
  by (simp add: subject_def put_subject_def update_conv)

lemma revision_put: "revision_of (put_subject k s t) k' = (if k' = k then su_revision s else revision_of t k')"
  "applied_count (put_subject k s t) k' = (if k' = k then su_applied s else applied_count t k')"
  by (simp_all add: revision_of_def applied_count_def subject_put)

lemma same_subjects:
  "tb_subjects t' = tb_subjects t \<Longrightarrow> rises t t' \<and> (subjects_ok t \<longrightarrow> subjects_ok t') \<and> revision_of t' = revision_of t"
  by (simp add: rises_def revision_of_def applied_count_def subject_def subjects_ok_def fun_eq_iff)

lemma raise_subject_rises:
  assumes "raise_subject k v t = (n, t')"
  shows "rises t t'" "revision_of t' k = revision_of t k + 1" "applied_count t' k = applied_count t k + 1"
    "subjects_ok t \<Longrightarrow> subjects_ok t'" "n = revision_of t k + 1" "tb_commands t' = tb_commands t"
proof -
  obtain r a where ra: "r = revision_of t k + 1" "a = applied_count t k + 1" by blast
  have t': "t' = put_subject k \<lparr>su_revision = r, su_value = v, su_applied = a\<rparr> t" "n = r"
    using assms ra by (auto simp: raise_subject_def Let_def revision_of_def applied_count_def split: option.splits)
  show "rises t t'" by (simp add: t' ra rises_def revision_put)
  show "revision_of t' k = revision_of t k + 1" "applied_count t' k = applied_count t k + 1" "n = revision_of t k + 1"
    by (simp_all add: t' ra revision_put)
  show "tb_commands t' = tb_commands t" by (simp add: t' put_subject_def)
  show "subjects_ok t'" if "subjects_ok t"
  proof -
    have "0 \<le> a \<and> a \<le> r \<and> 1 \<le> r"
    proof (cases "subject t k")
      case (Some s)
      then have "0 \<le> su_applied s" "su_applied s \<le> su_revision s" "1 \<le> su_revision s"
        using that unfolding subjects_ok_def by blast+
      then show ?thesis by (simp add: ra revision_of_def applied_count_def Some)
    qed (simp add: ra revision_of_def applied_count_def)
    then show ?thesis using that by (auto simp: t' subjects_ok_def subject_put)
  qed
qed

text \<open>What the steps between the first upsert and the command row have in common.\<close>

definition carries :: "tables \<Rightarrow> tables \<Rightarrow> bool" where
  "carries t t' \<longleftrightarrow> rises t t' \<and> (subjects_ok t \<longrightarrow> subjects_ok t') \<and> tb_commands t' = tb_commands t"

lemma carries_refl [simp]: "carries t t"
  by (simp add: carries_def)

lemma carries_trans: "carries t t' \<Longrightarrow> carries t' t'' \<Longrightarrow> carries t t''"
  by (auto simp: carries_def intro: rises_trans)

lemma carries_same: "tb_subjects t' = tb_subjects t \<Longrightarrow> tb_commands t' = tb_commands t \<Longrightarrow> carries t t'"
  using same_subjects [of t' t] by (simp add: carries_def)

lemma carries_raise: "raise_subject k v t = (n, t') \<Longrightarrow> carries t t'"
  using raise_subject_rises [of k v t n t'] by (simp add: carries_def)

lemma insert_event_carries: "insert_event e t = Inr t' \<Longrightarrow> carries t t'"
  by (auto simp: insert_event_def intro!: carries_same split: if_splits)

lemma append_events_carries: "append_events c r k n es t = Inr t' \<Longrightarrow> carries t t'"
proof (induction c r k n es t rule: append_events.induct)
  case (2 c r k n e es t)
  then obtain u where "append_event c r k n e t = Inr u" "append_events c r k n es u = Inr t'"
    by (auto simp: rbind_Inr_iff)
  then show ?case using 2(1) insert_event_carries carries_trans unfolding append_event_def by blast
qed simp

lemma insert_claim_revision_carries: "insert_claim_revision c n t = Inr t' \<Longrightarrow> carries t t'"
  by (auto simp: insert_claim_revision_def intro!: carries_same split: option.splits if_splits)

lemma change_chunks_carries: "change_chunks ch t = Inr t' \<Longrightarrow> carries t t'"
  by (cases ch) (auto intro!: carries_same split: if_splits)

lemma apply_also_carries: "apply_also c r chs t = Inr t' \<Longrightarrow> carries t t'"
proof (induction c r chs t rule: apply_also.induct)
  case (2 c r ch chs t)
  obtain n t1 where r: "raise_subject (cg_key ch) (cg_value ch) t = (n, t1)" by fastforce
  then obtain t2 where "append_events c r (cg_key ch) n (case cg_event ch of None \<Rightarrow> [] | Some e \<Rightarrow> [e]) t1 = Inr t2"
    "apply_also c r chs t2 = Inr t'" using 2(2) by (auto simp: rbind_Inr_iff)
  then show ?case using carries_raise [OF r] append_events_carries 2(1) [OF r [symmetric] refl] carries_trans by meson
qed simp

lemma insert_effects_carries: "insert_effects c r i es t = Inr t' \<Longrightarrow> carries t t'"
proof (induction c r i es t rule: insert_effects.induct)
  case (2 c r i e es t)
  let ?k = "\<lparr>sk_kind = EFFECT_KIND, sk_id = effect_id r i\<rparr>"
  let ?s = "\<lparr>su_revision = 1, su_value = to_canonical (new_record e (effect_id r i) r (cm_principal c) (cm_grant c) (cm_recorded_at c)),
     su_applied = 1\<rparr>"
  have new: "subject t ?k = None" "insert_effects c r (Suc i) es (put_subject ?k ?s t) = Inr t'"
    using 2(2) by (auto simp: Let_def split: if_splits)
  have "carries t (put_subject ?k ?s t)"
    using new(1) by (auto simp: carries_def rises_def revision_put subjects_ok_def subject_put put_subject_def
        revision_of_def applied_count_def subject_def update_conv)
  moreover have "carries (put_subject ?k ?s t) t'"
    by (rule 2(1) [OF refl refl refl _ new(2)]) (use new(1) in simp)
  ultimately show ?case by (rule carries_trans)
qed simp

subsection \<open>One identity, one command\<close>

definition identity_of :: "command_row \<Rightarrow> string \<times> string" where
  "identity_of row = (cr_principal row, cr_command_id row)"

definition commands_ok :: "tables \<Rightarrow> bool" where
  "commands_ok t \<longleftrightarrow> distinct (map identity_of (tb_commands t))"

lemma find_command_None: "find_command t who i = None \<longleftrightarrow> (who, i) \<notin> identity_of ` set (tb_commands t)"
  by (auto simp: find_command_def identity_of_def find_None_iff)

lemma insert_command_bound:
  assumes "insert_command row t = Inr t'"
  shows "find_command t (cr_principal row) (cr_command_id row) = None" "t' = t\<lparr>tb_commands := tb_commands t @ [row]\<rparr>"
    "find_command t' (cr_principal row) (cr_command_id row) = Some row" "commands_ok t \<Longrightarrow> commands_ok t'" "carries t (t'\<lparr>tb_commands := tb_commands t\<rparr>)"
proof -
  show n: "find_command t (cr_principal row) (cr_command_id row) = None"
    and t': "t' = t\<lparr>tb_commands := tb_commands t @ [row]\<rparr>"
    using assms by (auto simp: insert_command_def split: if_splits)
  have "find P (xs @ [y]) = (case find P xs of None \<Rightarrow> if P y then Some y else None | Some z \<Rightarrow> Some z)" for P xs and y :: command_row
    by (induction xs) auto
  then show "find_command t' (cr_principal row) (cr_command_id row) = Some row"
    using n by (simp add: find_command_def t')
  show "commands_ok t'" if "commands_ok t"
    using that n unfolding find_command_None by (auto simp: commands_ok_def t' identity_of_def)
  show "carries t (t'\<lparr>tb_commands := tb_commands t\<rparr>)" by (rule carries_same) (simp_all add: t')
qed

lemma commit_command_parts:
  assumes "commit_command c mk t = Inr (res, t')"
  obtains n r t7 where "revision_of t (cm_key c) < revision_of t7 (cm_key c)" "applied_count t (cm_key c) < applied_count t7 (cm_key c)"
    "n = revision_of t (cm_key c) + 1" "res = mk n r" "carries t t7"
    "insert_command \<lparr>cr_principal = cm_principal c, cr_command_id = cm_command_id c, cr_digest = cm_digest c,
       cr_generation = cm_generation c, cr_result = to_canonical res\<rparr> t7 = Inr t'"
proof -
  obtain n t1 where r: "raise_subject (cm_key c) (cm_value c) t = (n, t1)" by fastforce
  let ?op = "operation_ref_of (next_operation t1)" and ?t2 = "set_meta ''operation_counter'' (next_operation t1) t1"
  obtain t3 t4 t5 t6 t7 where steps:
    "append_events c ?op (cm_key c) n ((case cm_event c of None \<Rightarrow> [] | Some e \<Rightarrow> [e]) @ cm_more_events c) ?t2 = Inr t3"
    "insert_claim_revision c n t3 = Inr t4" "change_chunks (cm_chunks c) t4 = Inr t5"
    "apply_also c ?op (cm_also c) t5 = Inr t6" "insert_effects c ?op 0 (cm_effects c) t6 = Inr t7"
    "insert_command \<lparr>cr_principal = cm_principal c, cr_command_id = cm_command_id c, cr_digest = cm_digest c,
       cr_generation = cm_generation c, cr_result = to_canonical (mk n ?op)\<rparr> t7 = Inr t'" "res = mk n ?op"
    using assms r by (auto simp: commit_command_def Let_def rbind_Inr_iff)
  have "carries t1 ?t2" by (rule carries_same) (simp_all add: set_meta_def)
  then have t17: "carries t1 t7"
    using append_events_carries [OF steps(1)] insert_claim_revision_carries [OF steps(2)] change_chunks_carries [OF steps(3)]
      apply_also_carries [OF steps(4)] insert_effects_carries [OF steps(5)] by (meson carries_trans)
  have "revision_of t1 (cm_key c) \<le> revision_of t7 (cm_key c)" "applied_count t1 (cm_key c) \<le> applied_count t7 (cm_key c)"
    using t17 by (simp_all add: carries_def rises_def)
  then show ?thesis
    using that [of t7 n ?op] raise_subject_rises [OF r] steps(6,7) carries_trans [OF carries_raise [OF r] t17] by simp
qed

lemma commit_command_bound:
  assumes "commit_command c mk t = Inr (res, t')"
  shows "find_command t (cm_principal c) (cm_command_id c) = None"
    "find_command t' (cm_principal c) (cm_command_id c) = Some \<lparr>cr_principal = cm_principal c, cr_command_id = cm_command_id c,
       cr_digest = cm_digest c, cr_generation = cm_generation c, cr_result = to_canonical res\<rparr>"
    "revision_of t (cm_key c) < revision_of t' (cm_key c)" "applied_count t (cm_key c) < applied_count t' (cm_key c)"
    "rises t t'" "subjects_ok t \<Longrightarrow> subjects_ok t'" "commands_ok t \<Longrightarrow> commands_ok t'"
proof -
  obtain n r t7 where p: "revision_of t (cm_key c) < revision_of t7 (cm_key c)"
    "applied_count t (cm_key c) < applied_count t7 (cm_key c)" "carries t t7"
    "insert_command \<lparr>cr_principal = cm_principal c, cr_command_id = cm_command_id c, cr_digest = cm_digest c,
       cr_generation = cm_generation c, cr_result = to_canonical res\<rparr> t7 = Inr t'"
    by (rule commit_command_parts [OF assms])
  note b = insert_command_bound [OF p(4)]
  have subj: "tb_subjects t' = tb_subjects t7" by (simp add: b(2))
  have same: "revision_of t' = revision_of t7" "applied_count t' = applied_count t7" "subjects_ok t' = subjects_ok t7"
    by (simp_all add: revision_of_def applied_count_def subject_def subjects_ok_def subj fun_eq_iff)
  show "find_command t (cm_principal c) (cm_command_id c) = None"
    using b(1) p(3) by (simp add: carries_def find_command_def)
  show "find_command t' (cm_principal c) (cm_command_id c) = Some \<lparr>cr_principal = cm_principal c, cr_command_id = cm_command_id c,
       cr_digest = cm_digest c, cr_generation = cm_generation c, cr_result = to_canonical res\<rparr>" using b(3) by simp
  show "revision_of t (cm_key c) < revision_of t' (cm_key c)" "applied_count t (cm_key c) < applied_count t' (cm_key c)"
    using p(1,2) same by simp_all
  show "rises t t'" using p(3) same by (simp add: carries_def rises_def)
  show "subjects_ok t \<Longrightarrow> subjects_ok t'" using p(3) same by (simp add: carries_def)
  show "commands_ok t \<Longrightarrow> commands_ok t'" using b(4) p(3) by (simp add: carries_def commands_ok_def)
qed

lemma bound_identity_refused:
  assumes "find_command t (cm_principal c) (cm_command_id c) \<noteq> None"
  shows "\<exists>e. commit_command c mk t = Inl e"
proof (cases "commit_command c mk t")
  case (Inr b)
  then obtain res t' where "commit_command c mk t = Inr (res, t')" by (cases b) auto
  then show ?thesis using commit_command_bound(1) [of c mk t res t'] assms by simp
qed blast

subsection \<open>Properties\<close>



end
