(* ===== verification/Endpoint.thy ===== *)
theory Endpoint
  imports Evidence
begin

text \<open>
  The wire dialects, \<open>wire.rs\<close>, and the one address a request may be sent to, \<open>wire/endpoint.rs\<close>.
  \<open>pinned_iff\<close> says exactly which URLs are accepted.
\<close>

definition PROVIDER_ID :: string where "PROVIDER_ID = ''minimax''"

definition MODELS :: "string list" where
  "MODELS = [''MiniMax-M2.7-highspeed'', ''MiniMax-M2.7'', ''MiniMax-M3'']"

datatype dialect = Responses | OpenAi | Anthropic

fun dialect_name :: "dialect \<Rightarrow> string" where
  "dialect_name Responses = ''responses''"
| "dialect_name OpenAi = ''openai''"
| "dialect_name Anthropic = ''anthropic''"

definition dialect_parse :: "string \<Rightarrow> dialect option" where
  "dialect_parse name = find (\<lambda>d. dialect_name d = name) [Responses, OpenAi, Anthropic]"

definition counted :: "dialect \<Rightarrow> bool" where
  "counted d \<longleftrightarrow> d = Responses"

fun generation_field :: "dialect \<Rightarrow> string" where
  "generation_field Responses = ''max_output_tokens''"
| "generation_field OpenAi = ''max_tokens''"
| "generation_field Anthropic = ''max_tokens''"

fun dialect_path :: "dialect \<Rightarrow> string" where
  "dialect_path Responses = ''/responses''"
| "dialect_path OpenAi = ''/chat/completions''"
| "dialect_path Anthropic = ''/v1/messages''"

fun dialect_base :: "dialect \<Rightarrow> string" where
  "dialect_base Responses = ''/v1''"
| "dialect_base OpenAi = ''/v1''"
| "dialect_base Anthropic = ''/anthropic''"

lemma dialect_parse_name: "dialect_parse name = Some d \<longleftrightarrow> name = dialect_name d"
  by (cases d) (auto simp: dialect_parse_def)

subsection \<open>The pinned address\<close>

definition HOST :: string where "HOST = ''api.minimax.io''"
definition COUNT_PATH :: string where "COUNT_PATH = ''/v1/responses/input_tokens''"

datatype not_pinned = Scheme | Userinfo | Host | Port | Fragment | MalformedUrl

fun not_pinned_reason :: "not_pinned \<Rightarrow> string" where
  "not_pinned_reason Scheme = ''endpoint_not_https''"
| "not_pinned_reason Userinfo = ''endpoint_carries_userinfo''"
| "not_pinned_reason Host = ''endpoint_host_not_pinned''"
| "not_pinned_reason Port = ''endpoint_port_not_default''"
| "not_pinned_reason Fragment = ''endpoint_carries_fragment''"
| "not_pinned_reason MalformedUrl = ''endpoint_malformed''"

text \<open>\<open>char::is_control\<close> and \<open>char::is_whitespace\<close>: the categories Cc and White\_Space of Unicode.\<close>

definition is_control :: "nat \<Rightarrow> bool" where
  "is_control c \<longleftrightarrow> c < 0x20 \<or> (0x7F \<le> c \<and> c < 0xA0)"

definition is_whitespace :: "nat \<Rightarrow> bool" where
  "is_whitespace c \<longleftrightarrow>
     (0x9 \<le> c \<and> c \<le> 0xD) \<or> c \<in> {0x20, 0x85, 0xA0, 0x1680, 0x2028, 0x2029, 0x202F, 0x205F, 0x3000} \<or>
     (0x2000 \<le> c \<and> c \<le> 0x200A)"

definition refused_char :: "nat \<Rightarrow> bool" where
  "refused_char c \<longleftrightarrow> is_control c \<or> is_whitespace c \<or> c = 0x5C"

definition strip_prefix :: "string \<Rightarrow> string \<Rightarrow> string option" where
  "strip_prefix p s = (if prefix p s then Some (drop (length p) s) else None)"

text \<open>Without one final dot.\<close>

definition undotted :: "string \<Rightarrow> string" where
  "undotted s = (if s \<noteq> [] \<and> last s = CHR ''.'' then butlast s else s)"

definition host_of :: "string \<Rightarrow> not_pinned + string" where
  "host_of authority =
     (case split_once CHR '':'' authority of
        Some (named, port) \<Rightarrow> if port = ''443'' then Inr named else Inl Port
      | None \<Rightarrow> Inr authority)"

definition pinned :: "string \<Rightarrow> string \<Rightarrow> not_pinned + unit" where
  "pinned url host =
     rbind (ok_or (strip_prefix ''https://'' url) Scheme) (\<lambda>rest.
     if list_ex refused_char (chars url) then Inl MalformedUrl
     else if CHR ''#'' \<in> set url then Inl Fragment
     else
       (let authority = hd (split_on (\<lambda>c. c \<in> set ''/?'') rest) in
        if CHR ''@'' \<in> set authority then Inl Userinfo
        else rbind (host_of authority) (\<lambda>named.
          if named = [] then Inl MalformedUrl
          else if undotted (to_ascii_lowercase named) \<noteq> host then Inl Host
          else Inr ())))"

datatype call = Count | Completion

definition url_to_send :: "dialect \<Rightarrow> call \<Rightarrow> not_pinned + string" where
  "url_to_send d c =
     (let url = (case c of
          Count \<Rightarrow> ''https://'' @ HOST @ COUNT_PATH
        | Completion \<Rightarrow> ''https://'' @ HOST @ dialect_base d @ dialect_path d)
      in rbind (pinned url HOST) (\<lambda>_. Inr url))"

subsection \<open>What is accepted\<close>

lemma split_on_nonempty: "split_on sep s \<noteq> []"
  by (induction s) (auto split: list.split)

lemma hd_split_on: "hd (split_on sep s) = takeWhile (\<lambda>c. \<not> sep c) s"
proof (induction s)
  case (Cons c s)
  then show ?case using split_on_nonempty [of sep s] by (cases "split_on sep s") auto
qed simp

lemma host_of_Inr:
  "host_of a = Inr named \<longleftrightarrow> CHR '':'' \<notin> set named \<and> (a = named \<or> a = named @ '':443'')"
proof
  assume "host_of a = Inr named"
  then show "CHR '':'' \<notin> set named \<and> (a = named \<or> a = named @ '':443'')"
    by (auto simp: host_of_def split_once_Some_iff split_once_None_iff split: option.splits if_splits)
next
  assume n: "CHR '':'' \<notin> set named \<and> (a = named \<or> a = named @ '':443'')"
  then have "split_once CHR '':'' (named @ '':443'') = Some (named, ''443'')" by (simp add: split_once_Some_iff)
  moreover have "split_once CHR '':'' named = None" using n by (simp add: split_once_None_iff)
  ultimately show "host_of a = Inr named" using n by (auto simp: host_of_def)
qed

lemma takeWhile_cut:
  "takeWhile P s = a \<longleftrightarrow> (\<exists>t. s = a @ t \<and> list_all P a \<and> (t = [] \<or> \<not> P (hd t)))"
proof
  assume a: "takeWhile P s = a"
  have "s = takeWhile P s @ dropWhile P s" by simp
  moreover have "dropWhile P s = [] \<or> \<not> P (hd (dropWhile P s))" using hd_dropWhile [of P s] by blast
  moreover have "list_all P (takeWhile P s)" by (auto simp: list_all_iff dest: set_takeWhileD)
  ultimately show "\<exists>t. s = a @ t \<and> list_all P a \<and> (t = [] \<or> \<not> P (hd t))" using a by blast
next
  assume "\<exists>t. s = a @ t \<and> list_all P a \<and> (t = [] \<or> \<not> P (hd t))"
  then obtain t where t: "s = a @ t" "list_all P a" "t = [] \<or> \<not> P (hd t)" by blast
  then show "takeWhile P s = a" by (cases t) (auto simp: list_all_iff takeWhile_append)
qed

lemma pinned_iff:
  "pinned url host = Inr () \<longleftrightarrow>
     (\<exists>named port tail. url = ''https://'' @ named @ port @ tail \<and> named \<noteq> [] \<and> set named \<inter> set ''/?#@:'' = {} \<and>
        port \<in> {[], '':443''} \<and> (tail = [] \<or> hd tail \<in> set ''/?'') \<and> CHR ''#'' \<notin> set tail \<and>
        undotted (to_ascii_lowercase named) = host) \<and> list_all (\<lambda>c. \<not> refused_char c) (chars url)"
    (is "_ \<longleftrightarrow> (\<exists>named port tail. ?ok named port tail) \<and> ?clean")
proof
  assume p: "pinned url host = Inr ()"
  then obtain rest named where r: "strip_prefix ''https://'' url = Some rest" "CHR ''#'' \<notin> set url"
    "host_of (takeWhile (\<lambda>c. c \<notin> set ''/?'') rest) = Inr named" "named \<noteq> []"
    "CHR ''@'' \<notin> set (takeWhile (\<lambda>c. c \<notin> set ''/?'') rest)" "undotted (to_ascii_lowercase named) = host"
    "\<not> list_ex refused_char (chars url)"
    unfolding pinned_def hd_split_on Let_def
    by (auto simp only: rbind_Inr_iff ok_or_Inr_iff split: if_splits)
  have url: "url = ''https://'' @ rest" using r(1) by (auto simp: strip_prefix_def prefix_def split: if_splits)
  obtain a where a: "takeWhile (\<lambda>c. c \<notin> set ''/?'') rest = a" by blast
  then obtain t where t: "rest = a @ t" "list_all (\<lambda>c. c \<notin> set ''/?'') a" "t = [] \<or> hd t \<in> set ''/?''"
    unfolding takeWhile_cut by auto
  have named: "CHR '':'' \<notin> set named" "a = named \<or> a = named @ '':443''" using r(3) unfolding a host_of_Inr by simp_all
  then have s: "set named \<subseteq> set a" by auto
  have "?ok named (if a = named then [] else '':443'') t"
    using url t r(2,4,5,6) named s unfolding a by (auto simp: list_all_iff)
  moreover have ?clean using r(7) by (simp add: list_ex_iff list_all_iff)
  ultimately show "(\<exists>named port tail. ?ok named port tail) \<and> ?clean" by blast
next
  assume "(\<exists>named port tail. ?ok named port tail) \<and> ?clean"
  then obtain named port tail where ok: "?ok named port tail" and clean: ?clean by blast
  have "takeWhile (\<lambda>c. c \<notin> set ''/?'') (named @ port @ tail) = named @ port"
    unfolding takeWhile_cut by (rule exI [of _ tail]) (use ok in \<open>auto simp: list_all_iff\<close>)
  moreover have "host_of (named @ port) = Inr named" using ok unfolding host_of_Inr by auto
  moreover have "strip_prefix ''https://'' url = Some (named @ port @ tail)" using ok by (simp add: strip_prefix_def)
  moreover have "CHR ''#'' \<notin> set url" "CHR ''@'' \<notin> set (named @ port)" using ok by auto
  moreover have "\<not> list_ex refused_char (chars url)" using clean by (simp add: list_ex_iff list_all_iff)
  ultimately show "pinned url host = Inr ()" using ok by (simp add: pinned_def hd_split_on)
qed

end
