(* ===== verification/Config.thy ===== *)
theory Config
  imports Endpoint Clock
begin

text \<open>
  Launch configuration, \<open>config.rs\<close>. \<open>load\<close> takes the bytes of the file, or none when the provider
  is launched without one. Reading the file itself is the operating system's.
\<close>

definition DEFAULT_MAX_FRAME_BYTES :: int where "DEFAULT_MAX_FRAME_BYTES = 2097152"

definition default_limits :: limits where
  "default_limits = \<lparr>max_frame_bytes = DEFAULT_MAX_FRAME_BYTES, max_payload_bytes = 1048576,
     max_string_bytes = 262144, max_array_items = 4096, max_depth = 32\<rparr>"

definition limits_value :: "limits \<Rightarrow> jvalue" where
  "limits_value l = Object
     [(''max_frame_bytes'', Integer (max_frame_bytes l)), (''max_payload_bytes'', Integer (max_payload_bytes l)),
      (''max_string_bytes'', Integer (max_string_bytes l)), (''max_array_items'', Integer (max_array_items l)),
      (''max_depth'', Integer (max_depth l))]"

definition KNOWN_MEMBERS :: "string list" where
  "KNOWN_MEMBERS = [''format'', ''principal'', ''authority_principals'', ''provider_id'', ''limits'', ''events'',
     ''credentials'', ''clock'', ''dedupe'', ''capabilities'', ''knowledge'', ''context'', ''evidence_store'',
     ''test_barriers'', ''model'', ''model_runtime'', ''executor'', ''evidence'', ''verifier'', ''faults'']"

definition MODEL_RUNTIME_MEMBERS :: "string list" where
  "MODEL_RUNTIME_MEMBERS = [''provider'', ''dialect'', ''model'']"

definition TEST_CONTROL_MEMBERS :: "string list" where
  "TEST_CONTROL_MEMBERS = [''model'', ''evidence_store'', ''clock'', ''capabilities'', ''credentials'',
     ''test_barriers'', ''executor'', ''context'', ''knowledge'', ''evidence'', ''verifier'', ''faults'', ''events'']"

definition CONDITION_KINDS :: "string list" where
  "CONDITION_KINDS = [''repository_tree'', ''dirty_snapshot'', ''environment_digest'']"

datatype mode = Production | Conformance

datatype counting = WhenItCouldAdmit | Always

record model_runtime =
  mr_dialect :: dialect
  mr_model :: string

record fake_model =
  fm_dialect :: dialect
  fm_model :: string
  fm_answers :: "string list"
  fm_usage :: "nat option"
  fm_counting :: counting

record knowledge_store =
  ks_evaluator_id :: string
  ks_evaluator_version :: string
  ks_condition_kinds :: "string list"
  ks_serve_altered_claims :: "string list"

record evidence_store =
  es_corrupt :: "string list"
  es_unavailable :: "string list"
  es_serve_altered_bytes :: "string list"
  es_staging_timeout_seconds :: "int option"
  es_deletion_delay_seconds :: "int option"

record credential =
  cd_principal :: string
  cd_digest :: string
  cd_revoked :: bool

record config =
  cf_mode :: mode
  cf_principal :: string
  cf_authority_principals :: "string list"
  cf_provider_id :: string
  cf_limits :: limits
  cf_dedupe_advance_on_start :: int
  cf_dedupe_retain_generations :: int
  cf_events_new_epoch_on_start :: bool
  cf_events_unvouched_last :: int
  cf_events_retain_last :: "int option"
  cf_events_max_pending :: int
  cf_events_backpressure_notice_ms :: int
  cf_clock :: source
  cf_capabilities :: "(string \<times> string) list"
  cf_credentials :: "credential list"
  cf_test_barriers :: "(string \<times> string list) option"
  cf_evidence_store :: evidence_store
  cf_knowledge :: knowledge_store
  cf_model_run_ceiling :: "nat option"
  cf_model_runtime :: "model_runtime option"
  cf_model :: "fake_model option"
  cf_context :: jvalue

definition production_knowledge :: knowledge_store where
  "production_knowledge = \<lparr>ks_evaluator_id = ''cbr-conditions'', ks_evaluator_version = ''1'',
     ks_condition_kinds = CONDITION_KINDS, ks_serve_altered_claims = []\<rparr>"

definition default_config :: config where
  "default_config =
     \<lparr>cf_mode = Production, cf_principal = ''caller'', cf_authority_principals = [], cf_provider_id = ''cbr'',
      cf_limits = default_limits, cf_dedupe_advance_on_start = 0, cf_dedupe_retain_generations = 1,
      cf_events_new_epoch_on_start = False, cf_events_unvouched_last = 0, cf_events_retain_last = None,
      cf_events_max_pending = 8 * 1024 * 1024, cf_events_backpressure_notice_ms = 1000, cf_clock = System,
      cf_capabilities = [], cf_credentials = [], cf_test_barriers = None,
      cf_evidence_store = \<lparr>es_corrupt = [], es_unavailable = [], es_serve_altered_bytes = [],
        es_staging_timeout_seconds = None, es_deletion_delay_seconds = None\<rparr>,
      cf_knowledge = production_knowledge, cf_model_run_ceiling = None, cf_model_runtime = None, cf_model = None,
      cf_context = Null\<rparr>"

text \<open>The refusals, in place of their messages.\<close>

datatype config_error =
    Unparsable parse_error | NotAMember string | UnknownFormat string | NoFormat | TestControl string
  | ContextNotObject | CredentialNotString | RuntimeNeeds string | ProviderNotConfigured string
  | NotARuntimeMember string | UnknownDialect string | UnknownModel string | BarriersNeedDirectory
  | BadCapability string | BadClock

definition int_of :: "jvalue option \<Rightarrow> int option" where
  "int_of v = (case v of Some (Integer n) \<Rightarrow> Some n | _ \<Rightarrow> None)"

definition text_of :: "jvalue option \<Rightarrow> string option" where
  "text_of v = Option.bind v as_str"

definition strings_in :: "jvalue list \<Rightarrow> string list" where
  "strings_in items = List.map_filter as_str items"

text \<open>What is overwritten only when the member has the right type.\<close>

definition put_opt :: "'a option \<Rightarrow> ('a \<Rightarrow> 'c \<Rightarrow> 'c) \<Rightarrow> 'c \<Rightarrow> 'c" where
  "put_opt v f c = (case v of None \<Rightarrow> c | Some x \<Rightarrow> f x c)"

definition load_mode :: "jvalue \<Rightarrow> config_error + mode" where
  "load_mode value =
     (case Option.bind (get value ''format'') as_str of
        None \<Rightarrow> Inl NoFormat
      | Some f \<Rightarrow>
          if f = ''combraton-conformance-config/1'' then Inr Conformance
          else if f = ''cbr-config/1'' then Inr Production
          else Inl (UnknownFormat f))"

definition refuse_test_controls :: "mode \<Rightarrow> jvalue \<Rightarrow> config_error + unit" where
  "refuse_test_controls m value =
     (if m = Conformance then Inr ()
      else (case find (\<lambda>name. name \<in> set TEST_CONTROL_MEMBERS) (keys value) of
              Some name \<Rightarrow> Inl (TestControl name)
            | None \<Rightarrow>
                if Option.bind (get value ''dedupe'') (\<lambda>d. get d ''advance_on_start'') \<noteq> None
                then Inl (TestControl ''dedupe.advance_on_start'') else Inr ()))"

definition load_knowledge :: "mode \<Rightarrow> jvalue \<Rightarrow> knowledge_store" where
  "load_knowledge m value =
     (let k = (if m = Conformance then production_knowledge\<lparr>ks_evaluator_id := ''reference-conditions''\<rparr>
               else production_knowledge)
      in case get value ''knowledge'' of
           None \<Rightarrow> k
         | Some knowledge \<Rightarrow>
             (let k1 = (case get knowledge ''evaluator'' of
                  None \<Rightarrow> k
                | Some ev \<Rightarrow>
                    put_opt (Option.bind (get ev ''condition_kinds'') as_array) (\<lambda>kinds. ks_condition_kinds_update (\<lambda>_. strings_in kinds))
                      (put_opt (text_of (get ev ''version'')) (\<lambda>v. ks_evaluator_version_update (\<lambda>_. v))
                        (put_opt (text_of (get ev ''id'')) (\<lambda>i. ks_evaluator_id_update (\<lambda>_. i)) k)))
              in put_opt (Option.bind (get knowledge ''serve_altered_claims'') as_array)
                   (\<lambda>claims. ks_serve_altered_claims_update (\<lambda>_. strings_in claims)) k1))"

definition load_context :: "jvalue \<Rightarrow> config_error + jvalue" where
  "load_context value =
     (case get value ''context'' of
        None \<Rightarrow> Inr Null
      | Some c \<Rightarrow> if is_object c then Inr c else Inl ContextNotObject)"

definition load_principal :: "mode \<Rightarrow> jvalue \<Rightarrow> string" where
  "load_principal m value =
     (if m = Conformance \<and> get value ''principal'' = None then ''conformance-caller''
      else or_else (text_of (get value ''principal'')) ''caller'')"

definition load_provider_id :: "mode \<Rightarrow> jvalue \<Rightarrow> string" where
  "load_provider_id m value =
     or_else (text_of (get value ''provider_id'')) (if m = Conformance then ''conformance-provider'' else ''cbr'')"

definition load_limits :: "jvalue \<Rightarrow> limits" where
  "load_limits value =
     (case get value ''limits'' of
        None \<Rightarrow> default_limits
      | Some limits \<Rightarrow>
          \<lparr>max_frame_bytes = or_else (int_of (get limits ''max_frame_bytes'')) (max_frame_bytes default_limits),
           max_payload_bytes = or_else (int_of (get limits ''max_payload_bytes'')) (max_payload_bytes default_limits),
           max_string_bytes = or_else (int_of (get limits ''max_string_bytes'')) (max_string_bytes default_limits),
           max_array_items = or_else (int_of (get limits ''max_array_items'')) (max_array_items default_limits),
           max_depth = or_else (int_of (get limits ''max_depth'')) (max_depth default_limits)\<rparr>)"

definition load_events :: "jvalue \<Rightarrow> config \<Rightarrow> config" where
  "load_events value c =
     (case get value ''events'' of
        None \<Rightarrow> c
      | Some events \<Rightarrow>
          c\<lparr>cf_events_new_epoch_on_start := (get events ''new_epoch_on_start'' = Some (Bool True)),
            cf_events_unvouched_last := or_else (int_of (get events ''unvouched_last'')) (cf_events_unvouched_last c),
            cf_events_retain_last :=
              (case int_of (get events ''retain_last'') of None \<Rightarrow> cf_events_retain_last c | Some n \<Rightarrow> Some n),
            cf_events_max_pending :=
              (case int_of (get events ''max_pending_notification_bytes'') of None \<Rightarrow> cf_events_max_pending c | Some n \<Rightarrow> max n 1),
            cf_events_backpressure_notice_ms :=
              (case int_of (get events ''backpressure_notice_ms'') of None \<Rightarrow> cf_events_backpressure_notice_ms c
               | Some n \<Rightarrow> max n 0)\<rparr>)"

text \<open>\<open>ccred1.<principal>.<secret>\<close>: the second part is the principal; only the digest is kept.\<close>

definition credential_principal :: "string \<Rightarrow> string" where
  "credential_principal credential =
     (case split_on (\<lambda>c. c = CHR ''.'') credential of _ # p # _ \<Rightarrow> p | _ \<Rightarrow> [])"

fun load_credentials :: "hasher \<Rightarrow> jvalue list \<Rightarrow> config_error + credential list" where
  "load_credentials sha [] = Inr []"
| "load_credentials sha (e # es) =
     (case Option.bind (get e ''credential'') as_str of
        None \<Rightarrow> Inl CredentialNotString
      | Some t \<Rightarrow> rbind (load_credentials sha es) (\<lambda>cs.
          Inr (\<lparr>cd_principal = credential_principal t, cd_digest = sha256_hex sha t,
                cd_revoked = (get e ''revoked'' = Some (Bool True))\<rparr> # cs)))"

definition array_of :: "jvalue \<Rightarrow> string \<Rightarrow> jvalue list" where
  "array_of v name = or_else (Option.bind (get v name) as_array) []"

definition load_evidence_store :: "jvalue \<Rightarrow> evidence_store \<Rightarrow> evidence_store" where
  "load_evidence_store value e =
     (case get value ''evidence_store'' of
        None \<Rightarrow> e
      | Some store \<Rightarrow>
          \<lparr>es_corrupt = strings_in (array_of store ''corrupt''),
           es_unavailable = strings_in (array_of store ''unavailable''),
           es_serve_altered_bytes = strings_in (array_of store ''serve_altered_bytes''),
           es_staging_timeout_seconds = int_of (get store ''staging_timeout_seconds''),
           es_deletion_delay_seconds = int_of (get store ''deletion_delay_seconds'')\<rparr>)"

definition load_model :: "jvalue \<Rightarrow> fake_model option" where
  "load_model value =
     (case get value ''model'' of
        None \<Rightarrow> None
      | Some model \<Rightarrow>
          (let answers = strings_in (array_of model ''answers'') in Some
             \<lparr>fm_dialect = or_else (Option.bind (Option.bind (get model ''dialect'') as_str) dialect_parse) Responses,
              fm_model = or_else (Option.bind (get model ''model'') as_str) (MODELS ! 0),
              fm_answers = (if answers = [] then [''choose:c1''] else answers),
              fm_usage = (case get model ''usage'' of Some (Integer n) \<Rightarrow> Some (nat n) | _ \<Rightarrow> None),
              fm_counting = (if Option.bind (get model ''counting'') as_str = Some ''always'' then Always
                             else WhenItCouldAdmit)\<rparr>))"

definition load_model_runtime :: "jvalue \<Rightarrow> config_error + model_runtime option" where
  "load_model_runtime value =
     (case get value ''model_runtime'' of
        None \<Rightarrow> Inr None
      | Some runtime \<Rightarrow>
          rbind (ok_or (text_of (get runtime ''provider'')) (RuntimeNeeds ''provider'')) (\<lambda>provider.
          if provider \<noteq> PROVIDER_ID then Inl (ProviderNotConfigured provider)
          else (case find (\<lambda>name. name \<notin> set MODEL_RUNTIME_MEMBERS) (keys runtime) of
             Some name \<Rightarrow> Inl (NotARuntimeMember name)
           | None \<Rightarrow>
               rbind (ok_or (text_of (get runtime ''dialect'')) (RuntimeNeeds ''dialect'')) (\<lambda>named.
               rbind (ok_or (dialect_parse named) (UnknownDialect named)) (\<lambda>dialect.
               rbind (ok_or (text_of (get runtime ''model'')) (RuntimeNeeds ''model'')) (\<lambda>model.
               if model \<notin> set MODELS then Inl (UnknownModel model)
               else Inr (Some \<lparr>mr_dialect = dialect, mr_model = model\<rparr>)))))))"

definition load_barriers :: "jvalue \<Rightarrow> config_error + (string \<times> string list) option" where
  "load_barriers value =
     (case get value ''test_barriers'' of
        None \<Rightarrow> Inr None
      | Some barriers \<Rightarrow>
          rbind (ok_or (Option.bind (get barriers ''directory'') as_str) BarriersNeedDirectory) (\<lambda>directory.
          Inr (Some (directory, strings_in (array_of barriers ''enabled'')))))"

fun load_capabilities :: "(string \<times> jvalue) list \<Rightarrow> config_error + (string \<times> string) list" where
  "load_capabilities [] = Inr []"
| "load_capabilities ((name, status) # members) =
     (case as_str status of
        Some s \<Rightarrow>
          if s \<in> {''supported'', ''unsupported'', ''unknown''}
          then rbind (load_capabilities members) (\<lambda>cs. Inr ((name, s) # cs))
          else Inl (BadCapability name)
      | None \<Rightarrow> Inl (BadCapability name))"

definition load_clock :: "jvalue \<Rightarrow> config_error + source" where
  "load_clock value =
     (case get value ''clock'' of
        None \<Rightarrow> Inr System
      | Some clk \<Rightarrow>
          (case (get clk ''fixed'', get clk ''file'') of
             (Some (String instant), None) \<Rightarrow> if is_instant instant then Inr (Fixed instant) else Inl BadClock
           | (None, Some (String path)) \<Rightarrow> if path \<noteq> [] then Inr (File path) else Inl BadClock
           | _ \<Rightarrow> Inl BadClock))"

definition load_dedupe :: "jvalue \<Rightarrow> string \<Rightarrow> int \<Rightarrow> int" where
  "load_dedupe value name fallback =
     (case get value ''dedupe'' of None \<Rightarrow> fallback | Some d \<Rightarrow> or_else (int_of (get d name)) fallback)"

definition loaded_config ::
    "jvalue \<Rightarrow> mode \<Rightarrow> jvalue \<Rightarrow> credential list \<Rightarrow> model_runtime option \<Rightarrow> (string \<times> string list) option \<Rightarrow>
     (string \<times> string) list \<Rightarrow> source \<Rightarrow> config" where
  "loaded_config value m ctx credentials runtime barriers capabilities clk =
     (let who = load_principal m value;
          authorities = (case get value ''authority_principals'' of Some (Array items) \<Rightarrow> strings_in items | _ \<Rightarrow> [])
      in load_events value (default_config
           \<lparr>cf_mode := m, cf_principal := who,
            cf_authority_principals := (if authorities = [] then [who] else authorities),
            cf_provider_id := load_provider_id m value, cf_limits := load_limits value,
            cf_dedupe_advance_on_start := load_dedupe value ''advance_on_start'' 0,
            cf_dedupe_retain_generations := load_dedupe value ''retain_generations'' 1,
            cf_clock := clk, cf_capabilities := capabilities, cf_credentials := credentials,
            cf_test_barriers := barriers,
            cf_evidence_store := load_evidence_store value (cf_evidence_store default_config),
            cf_knowledge := load_knowledge m value, cf_model_runtime := runtime, cf_model := load_model value,
            cf_context := ctx\<rparr>))"

definition load_value :: "hasher \<Rightarrow> jvalue \<Rightarrow> config_error + config" where
  "load_value sha value =
     (case find (\<lambda>name. name \<notin> set KNOWN_MEMBERS) (keys value) of
        Some name \<Rightarrow> Inl (NotAMember name)
      | None \<Rightarrow>
          rbind (load_mode value) (\<lambda>m.
          rbind (refuse_test_controls m value) (\<lambda>_.
          rbind (load_context value) (\<lambda>ctx.
          rbind (load_credentials sha (case get value ''credentials'' of Some (Array es) \<Rightarrow> es | _ \<Rightarrow> [])) (\<lambda>credentials.
          rbind (load_model_runtime value) (\<lambda>runtime.
          rbind (load_barriers value) (\<lambda>barriers.
          rbind (load_capabilities (case get value ''capabilities'' of Some (Object ms) \<Rightarrow> ms | _ \<Rightarrow> [])) (\<lambda>capabilities.
          rbind (load_clock value) (\<lambda>clk.
          Inr (loaded_config value m ctx credentials runtime barriers capabilities clk))))))))))"

definition load :: "hasher \<Rightarrow> string option \<Rightarrow> (config_error + config) option" where
  "load sha file =
     (case file of
        None \<Rightarrow> Some (Inr default_config)
      | Some bs \<Rightarrow>
          (case parse bs of
             None \<Rightarrow> None
           | Some (Inl e) \<Rightarrow> Some (Inl (Unparsable e))
           | Some (Inr v) \<Rightarrow> Some (load_value sha v)))"

definition is_authority :: "config \<Rightarrow> string \<Rightarrow> bool" where
  "is_authority c who = list_ex (\<lambda>name. name = who) (cf_authority_principals c)"

subsection \<open>Test controls stay out of production\<close>

definition no_test_controls :: "config \<Rightarrow> bool" where
  "no_test_controls c \<longleftrightarrow>
     cf_dedupe_advance_on_start c = 0 \<and> \<not> cf_events_new_epoch_on_start c \<and> cf_events_unvouched_last c = 0 \<and>
     cf_events_retain_last c = None \<and> cf_clock c = System \<and> cf_capabilities c = [] \<and> cf_credentials c = [] \<and>
     cf_test_barriers c = None \<and> cf_evidence_store c = cf_evidence_store default_config \<and>
     cf_knowledge c = production_knowledge \<and> cf_model c = None \<and> cf_context c = Null"

lemma get_None_keys: "name \<notin> set (keys v) \<Longrightarrow> get v name = None"
  by (cases v) (auto simp: map_of_eq_None_iff)

lemma load_valueE:
  assumes "load_value sha value = Inr c"
  obtains m ctx credentials runtime barriers capabilities clk where
    "set (keys value) \<subseteq> set KNOWN_MEMBERS" "load_mode value = Inr m" "refuse_test_controls m value = Inr ()"
    "load_context value = Inr ctx"
    "load_credentials sha (case get value ''credentials'' of Some (Array es) \<Rightarrow> es | _ \<Rightarrow> []) = Inr credentials"
    "load_model_runtime value = Inr runtime" "load_barriers value = Inr barriers"
    "load_capabilities (case get value ''capabilities'' of Some (Object ms) \<Rightarrow> ms | _ \<Rightarrow> []) = Inr capabilities"
    "load_clock value = Inr clk" "c = loaded_config value m ctx credentials runtime barriers capabilities clk"
proof -
  have f: "find (\<lambda>name. name \<notin> set KNOWN_MEMBERS) (keys value) = None"
    using assms by (auto simp: load_value_def split: option.splits)
  then have "set (keys value) \<subseteq> set KNOWN_MEMBERS" by (auto simp: find_None_iff)
  then show ?thesis
    using assms unfolding load_value_def f option.case rbind_Inr_iff sum.inject
    by (elim exE conjE, rule_tac that) (assumption | simp)+
qed

lemma loaded_mode [simp]: "cf_mode (loaded_config value m ctx credentials runtime barriers capabilities clk) = m"
  by (simp add: loaded_config_def load_events_def Let_def split: option.split)

lemma load_events_other: "get value ''events'' = None \<Longrightarrow> load_events value c = c"
  by (simp add: load_events_def)

lemma production_refuses:
  assumes "refuse_test_controls Production value = Inr ()"
  shows "name \<in> set TEST_CONTROL_MEMBERS \<Longrightarrow> get value name = None"
    "Option.bind (get value ''dedupe'') (\<lambda>d. get d ''advance_on_start'') = None"
proof -
  have a: "find (\<lambda>name. name \<in> set TEST_CONTROL_MEMBERS) (keys value) = None"
    and b: "Option.bind (get value ''dedupe'') (\<lambda>d. get d ''advance_on_start'') = None"
    using assms by (auto simp: refuse_test_controls_def split: option.splits if_splits)
  show "get value name = None" if "name \<in> set TEST_CONTROL_MEMBERS"
    using a that by (intro get_None_keys) (auto simp: find_None_iff)
  show "Option.bind (get value ''dedupe'') (\<lambda>d. get d ''advance_on_start'') = None" by (rule b)
qed

lemma production_controls:
  assumes "load_value sha value = Inr c" "cf_mode c = Production"
  shows "no_test_controls c"
proof -
  obtain m ctx credentials runtime barriers capabilities clk where l:
    "refuse_test_controls m value = Inr ()" "load_context value = Inr ctx"
    "load_credentials sha (case get value ''credentials'' of Some (Array es) \<Rightarrow> es | _ \<Rightarrow> []) = Inr credentials"
    "load_barriers value = Inr barriers"
    "load_capabilities (case get value ''capabilities'' of Some (Object ms) \<Rightarrow> ms | _ \<Rightarrow> []) = Inr capabilities"
    "load_clock value = Inr clk" and c: "c = loaded_config value m ctx credentials runtime barriers capabilities clk"
    by (rule load_valueE [OF assms(1)]) blast
  have m: "m = Production" using assms(2) c by simp
  note refused = production_refuses [OF l(1) [unfolded m]]
  have ms: "get value ''events'' = None" "get value ''credentials'' = None" "get value ''clock'' = None"
    "get value ''capabilities'' = None" "get value ''test_barriers'' = None" "get value ''evidence_store'' = None"
    "get value ''knowledge'' = None" "get value ''model'' = None" "get value ''context'' = None"
    by (rule refused(1), simp add: TEST_CONTROL_MEMBERS_def)+
  have "load_dedupe value ''advance_on_start'' 0 = 0"
    using refused(2) by (cases "get value ''dedupe''") (auto simp: load_dedupe_def int_of_def or_else_def)
  moreover have "ctx = Null" "credentials = []" "barriers = None" "capabilities = []" "clk = System"
    using l ms by (simp_all add: load_context_def load_barriers_def load_clock_def)
  ultimately show ?thesis
    using m ms by (simp add: c loaded_config_def load_events_other no_test_controls_def Let_def
        load_evidence_store_def load_knowledge_def load_model_def) (simp add: default_config_def)
qed

subsection \<open>What a launch does next\<close>

text \<open>\<open>launch.rs\<close>: the decision and, for a refusal, which rule made it.\<close>

record launch =
  la_model_configured :: bool
  la_permit_model_network :: bool
  la_calibrate :: bool
  la_model_run_ceiling :: "nat option"
  la_replay :: bool

datatype refusal =
    ReplayCalibrates | ReplayNetwork | ReplayNeedsModel | CalibrateNeedsModel | CalibrateNeedsNetwork
  | CalibrateNeedsCeiling | CeilingAboveCap nat | NetworkNeedsModel | ModelNeedsNetwork | NoCallSite

datatype decision = Refuse refusal | Serve | ReadCredentialThenServe | ReadCredentialThenCalibrate | ServeFromRecords

definition SERVING_CALLS_A_MODEL :: bool where "SERVING_CALLS_A_MODEL = True"
definition CALIBRATION_CEILING :: nat where "CALIBRATION_CEILING = 100000"

definition reads_credential :: "decision \<Rightarrow> bool" where
  "reads_credential d \<longleftrightarrow> d \<in> {ReadCredentialThenServe, ReadCredentialThenCalibrate}"

definition decide :: "launch \<Rightarrow> decision" where
  "decide l =
     (if la_replay l then
        (if la_calibrate l then Refuse ReplayCalibrates
         else if la_permit_model_network l then Refuse ReplayNetwork
         else if \<not> la_model_configured l then Refuse ReplayNeedsModel
         else ServeFromRecords)
      else if la_calibrate l then
        (if \<not> la_model_configured l then Refuse CalibrateNeedsModel
         else if \<not> la_permit_model_network l then Refuse CalibrateNeedsNetwork
         else (case la_model_run_ceiling l of
                 None \<Rightarrow> Refuse CalibrateNeedsCeiling
               | Some ceiling \<Rightarrow> if ceiling > CALIBRATION_CEILING then Refuse (CeilingAboveCap ceiling)
                                 else ReadCredentialThenCalibrate))
      else if la_permit_model_network l \<and> \<not> la_model_configured l then Refuse NetworkNeedsModel
      else if la_model_configured l then
        (if \<not> la_permit_model_network l then Refuse ModelNeedsNetwork
         else if \<not> SERVING_CALLS_A_MODEL then Refuse NoCallSite
         else ReadCredentialThenServe)
      else Serve)"

lemma reads_credential_iff:
  "reads_credential (decide l) \<longleftrightarrow>
     la_model_configured l \<and> la_permit_model_network l \<and> \<not> la_replay l \<and>
     (la_calibrate l \<longrightarrow> (\<exists>c \<le> CALIBRATION_CEILING. la_model_run_ceiling l = Some c))"
  by (auto simp: reads_credential_def decide_def SERVING_CALLS_A_MODEL_def split: option.split)

subsection \<open>Properties\<close>

text \<open>
  C34. A configuration that loads in production mode carries no test control of any kind, whatever
  its text asked for.
\<close>

theorem production_has_no_test_controls:
  assumes "load_value sha v = Inr c" "cf_mode c = Production"
  shows "no_test_controls c"
  by (rule production_controls [OF assms])

lemma production_has_no_test_controls_witness:
  "\<exists>c. load_value (\<lambda>_. []) (Object [(''format'', String ''cbr-config/1'')]) = Inr c \<and> no_test_controls c"
proof -
  let ?v = "Object [(''format'', String ''cbr-config/1'')]"
  have "\<exists>c. load_value (\<lambda>_. []) ?v = Inr c \<and> cf_mode c = Production"
    by (simp add: load_value_def KNOWN_MEMBERS_def load_mode_def refuse_test_controls_def TEST_CONTROL_MEMBERS_def load_context_def
        load_model_runtime_def load_barriers_def load_clock_def loaded_config_def load_events_def Let_def)
  then show ?thesis using production_has_no_test_controls by blast
qed

end
