(* ===== verification/Objects.thy ===== *)
theory Objects
  imports Effects Digest "HOL-Library.AList" "HOL-Library.List_Lexorder" "HOL-Library.Char_ord"
begin

text \<open>
  Two things the evidence operations work on: records edited in place, and the object files of
  \<open>store.rs\<close>, published under the digest of their bytes. The files are a list of paths and contents,
  where a path is the hexadecimal part of a digest, which names one file; a file read back holds what
  was written, and the steps a crash can separate are separate operations of the caller.
\<close>

subsection \<open>Members set and removed\<close>

text \<open>The first member of a name replaced, or a new one put last.\<close>

fun put_member :: "string \<Rightarrow> jvalue \<Rightarrow> (string \<times> jvalue) list \<Rightarrow> (string \<times> jvalue) list" where
  "put_member name new [] = [(name, new)]"
| "put_member name new ((n, v) # members) =
     (if n = name then (n, new) # members else (n, v) # put_member name new members)"

definition set_member :: "string \<Rightarrow> jvalue \<Rightarrow> jvalue \<Rightarrow> jvalue" where
  "set_member name new = on_fields (put_member name new)"

definition remove_member :: "string \<Rightarrow> jvalue \<Rightarrow> jvalue" where
  "remove_member name = on_fields (filter (\<lambda>(n, _). n \<noteq> name))"

definition int_at :: "jvalue \<Rightarrow> string \<Rightarrow> int" where
  "int_at v name = (case get v name of Some (Integer n) \<Rightarrow> n | _ \<Rightarrow> 0)"

lemma map_of_put_member: "map_of (put_member name new members) n = (if n = name then Some new else map_of members n)"
  by (induction name new members rule: put_member.induct) auto

lemma map_of_remove: "map_of (filter (\<lambda>(n, _). n \<noteq> name) members) n = (if n = name then None else map_of members n)"
  by (induction members) auto

lemma get_set_member: "is_object v \<Longrightarrow> get (set_member name new v) n = (if n = name then Some new else get v n)"
  by (cases v) (simp_all add: set_member_def on_fields_def map_of_put_member)

lemma get_remove_member: "get (remove_member name v) n = (if n = name then None else get v n)"
  by (cases v) (simp_all add: remove_member_def on_fields_def map_of_remove)

lemma is_object_edit [simp]: "is_object (set_member name new v) = is_object v" "is_object (remove_member name v) = is_object v"
  by (cases v; simp add: set_member_def remove_member_def on_fields_def)+

subsection \<open>Object files\<close>

record object_store =
  ob_files :: "(string \<times> string) list"
  ob_staging :: "string list"

definition no_objects :: object_store where
  "no_objects = \<lparr>ob_files = [], ob_staging = []\<rparr>"

definition is_ascii_hexdigit :: "char \<Rightarrow> bool" where
  "is_ascii_hexdigit c \<longleftrightarrow> is_ascii_digit c \<or> (0x41 \<le> bval c \<and> bval c \<le> 0x46) \<or> (0x61 \<le> bval c \<and> bval c \<le> 0x66)"

definition object_path :: "string \<Rightarrow> string option" where
  "object_path digest =
     Option.bind (split_once CHR '':'' digest) (\<lambda>(_, hex).
       if length hex < 5 \<or> \<not> list_all is_ascii_hexdigit hex then None else Some hex)"

definition read_object :: "string \<Rightarrow> object_store \<Rightarrow> string option" where
  "read_object digest obs = Option.bind (object_path digest) (map_of (ob_files obs))"

definition delete_object :: "string \<Rightarrow> object_store \<Rightarrow> object_store" where
  "delete_object digest obs =
     (case object_path digest of
        None \<Rightarrow> obs
      | Some path \<Rightarrow> obs\<lparr>ob_files := AList.delete path (ob_files obs)\<rparr>)"

text \<open>The published objects and the staging files, each sorted; a file of another name is not the store's.\<close>

definition object_inventory :: "object_store \<Rightarrow> string list \<times> string list" where
  "object_inventory obs =
     (sort (map (\<lambda>hex. ''sha256:'' @ hex)
        (filter (\<lambda>hex. length hex = 64 \<and> list_all is_ascii_hexdigit hex) (map fst (ob_files obs)))),
      sort (ob_staging obs))"

definition discard_staging :: "string \<Rightarrow> object_store \<Rightarrow> object_store" where
  "discard_staging path obs = obs\<lparr>ob_staging := removeAll path (ob_staging obs)\<rparr>"

unbundle bit_operations_syntax

definition flip_byte :: "nat \<Rightarrow> char \<Rightarrow> char" where
  "flip_byte bits c = char_of (bval c XOR bits)"

text \<open>A test control. \<open>None\<close> is a file that cannot be read.\<close>

definition corrupt_object :: "string \<Rightarrow> object_store \<Rightarrow> object_store option" where
  "corrupt_object digest obs =
     (case object_path digest of
        None \<Rightarrow> Some obs
      | Some path \<Rightarrow>
          map_option (\<lambda>bytes.
            obs\<lparr>ob_files := AList.update path
              (case bytes of [] \<Rightarrow> [CHR 0x00] | c # cs \<Rightarrow> flip_byte 0xFF c # cs) (ob_files obs)\<rparr>)
            (map_of (ob_files obs) path))"

text \<open>
  Publication, to its end: an object already there and still matching its name is kept, any other is
  replaced, and the staging file is gone once it is renamed. The error holds the digest computed.
\<close>

definition publish_object :: "hasher \<Rightarrow> string \<Rightarrow> string \<Rightarrow> object_store \<Rightarrow> string + object_store" where
  "publish_object sha digest bytes obs =
     (if digest_bytes sha bytes \<noteq> digest then Inl (digest_bytes sha bytes)
      else
        (let path = (case split_once CHR '':'' digest of None \<Rightarrow> digest | Some (_, hex) \<Rightarrow> hex) in
         if (case map_of (ob_files obs) path of None \<Rightarrow> False | Some existing \<Rightarrow> digest_bytes sha existing = digest)
         then Inr obs
         else Inr (obs\<lparr>ob_files := AList.update path bytes (ob_files obs),
                       ob_staging := removeAll path (ob_staging obs)\<rparr>)))"

subsection \<open>What is read back\<close>

text \<open>The hash returns 32 bytes.\<close>

definition sha_ok :: "hasher \<Rightarrow> bool" where
  "sha_ok sha \<longleftrightarrow> (\<forall>bs. length (sha bs) = 32)"

lemma digest_path:
  assumes "sha_ok sha"
  shows "split_once CHR '':'' (digest_bytes sha bs) = Some (''sha256'', sha256_hex sha bs)"
    "object_path (digest_bytes sha bs) = Some (sha256_hex sha bs)"
proof -
  have "''sha256'' @ CHR '':'' # sha256_hex sha bs = digest_bytes sha bs" by (simp add: digest_bytes_def)
  moreover have "split_once CHR '':'' (''sha256'' @ CHR '':'' # sha256_hex sha bs) = Some (''sha256'', sha256_hex sha bs)"
    by (simp add: split_once_Some_iff)
  ultimately show split: "split_once CHR '':'' (digest_bytes sha bs) = Some (''sha256'', sha256_hex sha bs)" by simp
  have "is_ascii_hexdigit c" if "is_hex c" for c using that by (auto simp: is_hex_def is_ascii_hexdigit_def)
  then have hex: "list_all is_ascii_hexdigit (sha256_hex sha bs)"
    using sha256_hex_hex [of sha bs] by (auto simp: list_all_iff)
  have "length (sha256_hex sha bs) = 64" using assms by (simp add: length_sha256_hex sha_ok_def)
  then show "object_path (digest_bytes sha bs) = Some (sha256_hex sha bs)" using split hex by (simp add: object_path_def)
qed

lemma published_reads_back:
  assumes "sha_ok sha" "publish_object sha digest bytes obs = Inr obs'"
  shows "\<exists>found. read_object digest obs' = Some found \<and> digest_bytes sha found = digest"
    "read_object digest obs = None \<Longrightarrow> read_object digest obs' = Some bytes"
    "object_path other \<noteq> object_path digest \<Longrightarrow> read_object other obs' = read_object other obs"
    "(\<exists>found. read_object other obs = Some found \<and> digest_bytes sha found = other) \<Longrightarrow>
       \<exists>found. read_object other obs' = Some found \<and> digest_bytes sha found = other"
proof -
  have d: "digest = digest_bytes sha bytes" using assms(2) by (auto simp: publish_object_def split: if_splits)
  note path = digest_path [OF assms(1), of bytes, folded d]
  show first: "\<exists>found. read_object digest obs' = Some found \<and> digest_bytes sha found = digest"
    using assms(2) path d by (auto simp: publish_object_def read_object_def Let_def update_conv' split: if_splits option.splits)
  show "read_object digest obs = None \<Longrightarrow> read_object digest obs' = Some bytes"
    using assms(2) path d by (auto simp: publish_object_def read_object_def Let_def update_conv' split: if_splits)
  show other: "object_path other \<noteq> object_path digest \<Longrightarrow> read_object other obs' = read_object other obs"
    using assms(2) path d
    by (cases "object_path other") (auto simp: publish_object_def read_object_def Let_def update_conv' split: if_splits option.splits)
  show "\<exists>found. read_object other obs' = Some found \<and> digest_bytes sha found = other"
    if o: "\<exists>found. read_object other obs = Some found \<and> digest_bytes sha found = other"
  proof (cases "object_path other = object_path digest")
    case True
    obtain found where f: "digest_bytes sha found = other" using o by blast
    then have "sha256_hex sha found = sha256_hex sha bytes" using digest_path(2) [OF assms(1)] True path by auto
    then have "other = digest" using f d by (simp add: digest_bytes_def)
    then show ?thesis using first by simp
  next
    case False
    then show ?thesis using other o by simp
  qed
qed

lemma deleted_reads:
  "object_path other \<noteq> object_path digest \<Longrightarrow> read_object other (delete_object digest obs) = read_object other obs"
  "object_path digest \<noteq> None \<Longrightarrow> read_object digest (delete_object digest obs) = None"
  by (cases "object_path other"; auto simp: delete_object_def read_object_def delete_conv' split: option.splits)+

end
