(* ===== verification/Negotiate.thy ===== *)
theory Negotiate
  imports Config Frames Stream_Read Knowledge Objects
begin

text \<open>
  One connection's provider, \<open>provider.rs\<close>: its state, what it serves and how a session agrees on a
  part of it. Handlers return their answer with the state they leave, refusals included.
\<close>

subsection \<open>The state of a connection\<close>

text \<open>
  \<open>pv_objects\<close> are the object files by digest, \<open>pv_stream\<close> the identity of the stream, kept in the
  store from its creation.
\<close>

record subscription =
  sb_id :: string
  sb_cursor :: position
  sb_kinds :: "string list"
  sb_principal :: string
  sb_grant :: "string option"
  sb_ended :: bool

record provider =
  pv_config :: config
  pv_store :: tables
  pv_objects :: object_store
  pv_stream :: string
  pv_shared_transport :: bool
  pv_authenticated :: bool
  pv_negotiated :: "(string \<times> int \<times> string list) list option"
  pv_dedupe_current :: int
  pv_dedupe_oldest :: int
  pv_receive_limit :: nat
  pv_subscriptions :: "subscription list"
  pv_next_subscription :: nat
  pv_maintenance_owed :: bool

type_synonym answer = "protocol_error + jvalue"
type_synonym handled = "answer \<times> provider"

definition principal_of :: "provider \<Rightarrow> string" where
  "principal_of p = cf_principal (pv_config p)"

text \<open>A failed transaction or read answers \<open>unavailable\<close>, whatever failed.\<close>

definition stored :: "'a stored \<Rightarrow> protocol_error + 'a" where
  "stored r = (case r of Inl _ \<Rightarrow> Inl unavailable | Inr x \<Rightarrow> Inr x)"

subsection \<open>What is served\<close>

type_synonym served = "string \<times> int \<times> string list \<times> (string \<times> string list) list"

definition CONTEXT_FEATURES :: "string list" where
  "CONTEXT_FEATURES = [''context.advisory'', ''context.required_before_start'', ''context.required_before_transition'',
     ''context.shared_jobs'', ''context.updates'', ''context.expand'', ''context.claims'']"

definition SERVED :: "served list" where
  "SERVED =
     [(''core'', 1, [''core.events'', ''core.grants'', ''core.capabilities'', ''core.events.backpressure'', ''core.effects''], []),
      (''core-test'', 1, [], [(''core'', [])]),
      (''evidence'', 1, [''evidence.manifests'', ''evidence.retention_control'', ''evidence.work_binding''],
         [(''core'', [''core.events''])]),
      (''knowledge'', 1, [], [(''core'', [''core.events''])]),
      (''context'', 1, CONTEXT_FEATURES, [(''core'', [''core.events''])])]"

definition UNSUPPORTED :: "(string \<times> string) list" where
  "UNSUPPORTED = [(''coordination'', ''not_in_release''), (''remote-trust'', ''not_in_release'')]"

definition PRE_NEGOTIATION :: "string list" where
  "PRE_NEGOTIATION = [''core.describe'', ''core.negotiate'', ''core.feature_dependencies'', ''core.authenticate'']"

definition served :: "config \<Rightarrow> served list" where
  "served c = filter (\<lambda>(name, _). cf_mode c = Conformance \<or> name \<noteq> ''core-test'') SERVED"

definition selected_feature :: "provider \<Rightarrow> string \<Rightarrow> bool" where
  "selected_feature p feature =
     (case pv_negotiated p of
        None \<Rightarrow> False
      | Some selected \<Rightarrow> list_ex (\<lambda>(_, _, features). feature \<in> set features) selected)"

definition selected_major :: "provider \<Rightarrow> string \<Rightarrow> int option" where
  "selected_major p profile =
     Option.bind (pv_negotiated p) (\<lambda>selected. map_option (\<lambda>(_, major, _). major)
       (find (\<lambda>(name, _). name = profile) selected))"

definition dedupe_window :: "provider \<Rightarrow> jvalue" where
  "dedupe_window p = Object
     [(''oldest_retained'', Integer (pv_dedupe_oldest p)), (''current'', Integer (pv_dedupe_current p))]"

definition VERSION :: string where "VERSION = ''0.1.0''"

definition describe_profile :: "served \<Rightarrow> jvalue" where
  "describe_profile s = (case s of (name, major, features, depends) \<Rightarrow> Object
     [(''name'', String name), (''majors'', Array [Integer major]), (''features'', Array (map String features)),
      (''depends_on'', Array (map (String \<circ> fst) depends))])"

definition describe :: "provider \<Rightarrow> jvalue" where
  "describe p = Object
     [(''provider'', Object [(''name'', String ''cbr''), (''version'', String VERSION)]),
      (''profiles'', Array (map describe_profile (served (pv_config p)))),
      (''unsupported_profiles'', Array (map (\<lambda>(name, reason).
         Object [(''name'', String name), (''reason'', String reason)]) UNSUPPORTED)),
      (''limits'', limits_value (cf_limits (pv_config p))), (''dedupe_window'', dedupe_window p),
      (''unknown_extensions'', String ''preserve'')]"

definition feature_dependencies :: "provider \<Rightarrow> jvalue" where
  "feature_dependencies p = Object
     [(''dependencies'', Array (map (\<lambda>(name, major, _, depends). Object
        [(''profile'', String name), (''major'', Integer major), (''trigger'', Object [(''kind'', String ''profile'')]),
         (''requires'', Array (map (\<lambda>(d, features). Object
            [(''profile'', String d), (''major'', Integer 1), (''features'', Array (map String features))]) depends))])
        (filter (\<lambda>(name, _). name \<noteq> ''core'') (served (pv_config p)))))]"

subsection \<open>Negotiation\<close>

type_synonym selection = "string \<times> int \<times> string list"

record negotiation =
  ng_seen :: "string list"
  ng_required :: "string list"
  ng_selected :: "selection list"
  ng_unselected :: "jvalue list"
  ng_unsatisfied :: "(jvalue \<times> nat) list"

definition profile_item :: "string \<Rightarrow> string \<Rightarrow> jvalue" where
  "profile_item name reason = Object [(''profile'', String name), (''reason'', String reason)]"

definition feature_item :: "string \<Rightarrow> string \<Rightarrow> string \<Rightarrow> jvalue" where
  "feature_item name feature reason =
     Object [(''profile'', String name), (''feature'', String feature), (''reason'', String reason)]"

text \<open>An item goes where its profile's requirement sends it.\<close>

definition miss :: "bool \<Rightarrow> nat \<Rightarrow> jvalue list \<Rightarrow> negotiation \<Rightarrow> negotiation" where
  "miss required rank items n =
     (if required then n\<lparr>ng_unsatisfied := ng_unsatisfied n @ map (\<lambda>i. (i, rank)) items\<rparr>
      else n\<lparr>ng_unselected := ng_unselected n @ items\<rparr>)"

definition entry_majors :: "jvalue \<Rightarrow> int list" where
  "entry_majors entry =
     List.map_filter (\<lambda>v. case v of Integer n \<Rightarrow> Some n | _ \<Rightarrow> None) (array_of entry ''majors'')"

definition entry_name :: "jvalue \<Rightarrow> string" where
  "entry_name entry = or_else (member_str entry ''name'') []"

definition entry_required :: "jvalue \<Rightarrow> bool" where
  "entry_required entry \<longleftrightarrow> entry_name entry = ''core'' \<or> get entry ''required'' = Some (Bool True)"

definition select_features :: "served \<Rightarrow> jvalue \<Rightarrow> negotiation \<Rightarrow> negotiation" where
  "select_features s entry n =
     (case s of (name, major, features, _) \<Rightarrow>
        let required = entry_required entry;
            wanted_required = strings_in (array_of entry ''required_features'');
            wanted_optional = strings_in (array_of entry ''optional_features'');
            missing = filter (\<lambda>f. f \<notin> set features) wanted_required
        in if missing \<noteq> [] then miss required 2 (map (\<lambda>f. feature_item name f ''unknown_feature'') missing) n
           else n\<lparr>ng_unselected := ng_unselected n @
                    map (\<lambda>f. feature_item name f ''unknown_feature'') (filter (\<lambda>f. f \<notin> set features) wanted_optional),
                  ng_required := ng_required n @ (if required then [name] else []),
                  ng_selected := ng_selected n @ [(name, major, filter (\<lambda>f. f \<in> set features) wanted_optional @ wanted_required)]\<rparr>)"

definition negotiate_entry :: "config \<Rightarrow> jvalue \<Rightarrow> negotiation \<Rightarrow> protocol_error + negotiation" where
  "negotiate_entry c entry n =
     (let name = entry_name entry; required = entry_required entry in
      if name \<in> set (ng_seen n) then Inl (invalid_envelope ''/payload/profiles'' ''duplicate profile'')
      else
        (let n1 = n\<lparr>ng_seen := ng_seen n @ [name]\<rparr> in
         case find (\<lambda>(served_name, _). served_name = name) (served c) of
           None \<Rightarrow> Inr (miss required 0
             [profile_item name (if map_of UNSUPPORTED name \<noteq> None then ''declared_unsupported'' else ''unknown_profile'')] n1)
         | Some s \<Rightarrow>
             if fst (snd s) \<notin> set (entry_majors entry)
             then Inr (miss required 1 [profile_item name ''no_common_major''] n1)
             else Inr (select_features s entry n1)))"

fun negotiate_entries :: "config \<Rightarrow> jvalue list \<Rightarrow> negotiation \<Rightarrow> protocol_error + negotiation" where
  "negotiate_entries c [] n = Inr n"
| "negotiate_entries c (e # es) n = rbind (negotiate_entry c e n) (negotiate_entries c es)"

definition unsatisfied_error :: "(jvalue \<times> nat) list \<Rightarrow> protocol_error" where
  "unsatisfied_error us =
     (let items = Array (map fst us) in
      if list_ex (\<lambda>(_, rank). rank = 0) us then unsupported_profile items
      else if list_ex (\<lambda>(_, rank). rank = 1) us then unsupported_version items
      else unsupported_required_feature_negotiation items)"

text \<open>What a selected profile lacks of one of its dependencies.\<close>

definition dependency_items :: "selection list \<Rightarrow> string \<Rightarrow> string \<times> string list \<Rightarrow> jvalue list" where
  "dependency_items selected name dep =
     (case find (\<lambda>(selected_name, _). selected_name = fst dep) selected of
        None \<Rightarrow> [profile_item name ''dependency_not_selected'']
      | Some (_, _, chosen) \<Rightarrow>
          map (\<lambda>f. feature_item name f ''dependency_not_selected'') (filter (\<lambda>f. f \<notin> set chosen) (snd dep)))"

record dependency_pass =
  dp_refused :: "jvalue list"
  dp_dropped :: "string list"
  dp_unselected :: "jvalue list"

definition check_dependency ::
    "negotiation \<Rightarrow> selection list \<Rightarrow> string \<Rightarrow> string \<times> string list \<Rightarrow> dependency_pass \<Rightarrow> dependency_pass" where
  "check_dependency n selected name dep d =
     (let items = dependency_items selected name dep in
      if items = [] then d
      else if name \<in> set (ng_required n) then d\<lparr>dp_refused := dp_refused d @ items\<rparr>
      else d\<lparr>dp_unselected := dp_unselected d @ items, dp_dropped := dp_dropped d @ [name]\<rparr>)"

definition check_profile :: "negotiation \<Rightarrow> selection list \<Rightarrow> served \<Rightarrow> dependency_pass \<Rightarrow> dependency_pass" where
  "check_profile n selected s d =
     (if fst s \<in> fst ` set selected then fold (check_dependency n selected (fst s)) (snd (snd (snd s))) d else d)"

definition check_selected :: "config \<Rightarrow> negotiation \<Rightarrow> selection list \<Rightarrow> dependency_pass" where
  "check_selected c n selected =
     fold (check_profile n selected) (served c) \<lparr>dp_refused = [], dp_dropped = [], dp_unselected = ng_unselected n\<rparr>"

definition negotiated_limits :: "config \<Rightarrow> selection list \<Rightarrow> jvalue" where
  "negotiated_limits c selected =
     (case limits_value (cf_limits c) of
        Object members \<Rightarrow>
          Object (members @
            (if list_ex (\<lambda>(name, _, features). name = ''core'' \<and> ''core.events.backpressure'' \<in> set features) selected
             then [(''max_pending_notification_bytes'', Integer (cf_events_max_pending c)),
                   (''backpressure_notice_ms'', Integer (cf_events_backpressure_notice_ms c))]
             else []))
      | v \<Rightarrow> v)"

definition selected_value :: "selection \<Rightarrow> jvalue" where
  "selected_value s = (case s of (name, major, features) \<Rightarrow>
     Object [(''name'', String name), (''major'', Integer major), (''features'', Array (map String features))])"

definition negotiated :: "provider \<Rightarrow> jvalue list \<Rightarrow> protocol_error + (jvalue \<times> selection list)" where
  "negotiated p requested =
     rbind (negotiate_entries (pv_config p) requested
        \<lparr>ng_seen = [], ng_required = [], ng_selected = [], ng_unselected = [], ng_unsatisfied = []\<rparr>) (\<lambda>n.
     if ng_unsatisfied n \<noteq> [] then Inl (unsatisfied_error (ng_unsatisfied n))
     else
       (let selected = (if list_ex (\<lambda>(name, _). name = ''core'') (ng_selected n) then ng_selected n
                        else (''core'', 1, []) # ng_selected n);
            d = check_selected (pv_config p) n selected
        in if dp_refused d \<noteq> [] then Inl (unsupported_profile (Array (dp_refused d)))
           else
             (let kept = filter (\<lambda>(name, _). name \<notin> set (dp_dropped d)) selected in
              Inr (Object [(''selected'', Array (map selected_value kept)), (''unselected'', Array (dp_unselected d)),
                (''limits'', negotiated_limits (pv_config p) kept), (''dedupe_window'', dedupe_window p)], kept))))"

text \<open>A 64-bit integer cast to \<open>usize\<close>.\<close>

definition as_usize :: "int \<Rightarrow> nat" where
  "as_usize n = nat (n mod 2 ^ 64)"

definition negotiate :: "jvalue \<Rightarrow> provider \<Rightarrow> handled" where
  "negotiate payload p =
     (if pv_negotiated p \<noteq> None then (Inl already_negotiated, p)
      else
        (let p1 = (case Option.bind (get payload ''receive_limits'') (\<lambda>l. get l ''max_frame_bytes'') of
                     Some (Integer limit) \<Rightarrow> p\<lparr>pv_receive_limit := as_usize limit\<rparr>
                   | _ \<Rightarrow> p)
         in case get payload ''profiles'' of
              Some (Array (entry # entries)) \<Rightarrow>
                (case negotiated p1 (entry # entries) of
                   Inl e \<Rightarrow> (Inl e, p1)
                 | Inr (result, kept) \<Rightarrow> (Inr result, p1\<lparr>pv_negotiated := Some kept\<rparr>))
            | _ \<Rightarrow> (Inl (invalid_envelope ''/payload/profiles'' ''not a non-empty array''), p1)))"

subsection \<open>What a selection satisfies\<close>

definition selection_ok :: "config \<Rightarrow> negotiation \<Rightarrow> bool" where
  "selection_ok c n \<longleftrightarrow>
     (\<forall>(name, major, features) \<in> set (ng_selected n). name \<in> set (ng_seen n) \<and>
        (\<exists>offered depends. (name, major, offered, depends) \<in> set (served c) \<and> set features \<subseteq> set offered)) \<and>
     distinct (map fst (ng_selected n)) \<and> set (ng_required n) \<subseteq> fst ` set (ng_selected n)"

lemma find_SomeD: "find P xs = Some x \<Longrightarrow> x \<in> set xs \<and> P x"
  by (auto simp: find_Some_iff)

lemma find_served: "find (\<lambda>(served_name, _). served_name = name) (served c) = Some s \<Longrightarrow>
   fst s = name \<and> s \<in> set (served c)"
  by (auto dest: find_SomeD)

lemma negotiate_entry_ok:
  assumes "negotiate_entry c e n = Inr n'" "selection_ok c n"
  shows "selection_ok c n' \<and> set (ng_selected n) \<subseteq> set (ng_selected n') \<and>
    (ng_unsatisfied n' = [] \<longrightarrow> ng_unsatisfied n = [] \<and>
      (entry_required e \<longrightarrow> entry_name e \<in> set (ng_required n')) \<and> set (ng_required n) \<subseteq> set (ng_required n'))"
proof -
  have new: "entry_name e \<notin> set (ng_seen n)" using assms(1) by (auto simp: negotiate_entry_def Let_def split: if_splits)
  then have fresh: "entry_name e \<notin> fst ` set (ng_selected n)" using assms(2) by (auto simp: selection_ok_def)
  show ?thesis
  proof (cases "find (\<lambda>(served_name, _). served_name = entry_name e) (served c)")
    case None
    then show ?thesis using assms new
      by (auto simp: negotiate_entry_def Let_def miss_def selection_ok_def split: if_splits)
  next
    case (Some s)
    obtain name major features depends where s: "s = (name, major, features, depends)" by (cases s)
    have in_s: "name = entry_name e" "(name, major, features, depends) \<in> set (served c)"
      using find_served [OF Some] s by auto
    show ?thesis
    proof (cases "major \<notin> set (entry_majors e)")
      case True
      then show ?thesis using assms new Some s
        by (auto simp: negotiate_entry_def Let_def miss_def selection_ok_def split: if_splits)
    next
      case False
      then have n': "n' = select_features s e (n\<lparr>ng_seen := ng_seen n @ [entry_name e]\<rparr>)"
        using assms(1) new Some s by (simp add: negotiate_entry_def Let_def)
      show ?thesis
      proof (cases "filter (\<lambda>f. f \<notin> set features) (strings_in (array_of e ''required_features'')) = []")
        case True
        then have req: "set (strings_in (array_of e ''required_features'')) \<subseteq> set features"
          by (auto simp: filter_empty_conv)
        show ?thesis using assms(2) fresh in_s req True
          by (auto simp: n' select_features_def s Let_def selection_ok_def)
      next
        case False
        then show ?thesis using assms(2) in_s
          by (auto simp: n' select_features_def s Let_def selection_ok_def miss_def)
      qed
    qed
  qed
qed

lemma negotiate_entries_ok:
  "negotiate_entries c es n = Inr n' \<Longrightarrow> selection_ok c n \<Longrightarrow>
   selection_ok c n' \<and> (ng_unsatisfied n' = [] \<longrightarrow> ng_unsatisfied n = [] \<and> set (ng_required n) \<subseteq> set (ng_required n') \<and>
     (\<forall>e \<in> set es. entry_required e \<longrightarrow> entry_name e \<in> set (ng_required n')))"
proof (induction c es n rule: negotiate_entries.induct)
  case (2 c e es n)
  then obtain n1 where n1: "negotiate_entry c e n = Inr n1" "negotiate_entries c es n1 = Inr n'"
    by (auto simp: rbind_Inr_iff)
  show ?case using negotiate_entry_ok [OF n1(1) 2(3)] 2(1) [OF n1(2)] by auto
qed simp

text \<open>The pass over the dependencies refuses or drops exactly the profiles that lack one.\<close>

definition lacks :: "selection list \<Rightarrow> served \<Rightarrow> bool" where
  "lacks selected s \<longleftrightarrow> fst s \<in> fst ` set selected \<and>
     (\<exists>dep \<in> set (snd (snd (snd s))). dependency_items selected (fst s) dep \<noteq> [])"

lemma check_dependency_fold:
  "set (dp_dropped (fold (check_dependency n selected name) deps d)) =
     set (dp_dropped d) \<union> (if name \<notin> set (ng_required n) \<and> (\<exists>dep \<in> set deps. dependency_items selected name dep \<noteq> []) then {name} else {})"
  "dp_refused (fold (check_dependency n selected name) deps d) = [] \<longleftrightarrow>
     dp_refused d = [] \<and> (name \<in> set (ng_required n) \<longrightarrow> (\<forall>dep \<in> set deps. dependency_items selected name dep = []))"
  by (induction deps arbitrary: d) (auto simp: check_dependency_def Let_def)

lemma check_profile_once:
  "set (dp_dropped (check_profile n selected s d)) =
     set (dp_dropped d) \<union> (if lacks selected s \<and> fst s \<notin> set (ng_required n) then {fst s} else {})"
  "dp_refused (check_profile n selected s d) = [] \<longleftrightarrow>
     dp_refused d = [] \<and> (lacks selected s \<longrightarrow> fst s \<notin> set (ng_required n))"
  by (auto simp: check_profile_def check_dependency_fold lacks_def)

lemma check_profiles_fold:
  "set (dp_dropped (fold (check_profile n selected) ss d)) =
     set (dp_dropped d) \<union> {fst s |s. s \<in> set ss \<and> lacks selected s \<and> fst s \<notin> set (ng_required n)}"
  "dp_refused (fold (check_profile n selected) ss d) = [] \<longleftrightarrow>
     dp_refused d = [] \<and> (\<forall>s \<in> set ss. lacks selected s \<longrightarrow> fst s \<notin> set (ng_required n))"
proof (induction ss arbitrary: d)
  case (Cons s ss)
  { case 1
    show ?case unfolding fold_Cons comp_def Cons.IH(1) check_profile_once(1) by (cases s) auto }
  { case 2
    show ?case unfolding fold_Cons comp_def Cons.IH(2) check_profile_once(2) by auto }
qed simp_all

lemma served_names: "distinct (map fst (served c))"
  by (simp add: served_def SERVED_def)

lemma served_depends: "(name, major, features, depends) \<in> set (served c) \<Longrightarrow> set (map fst depends) \<subseteq> {''core''}"
  by (auto simp: served_def SERVED_def split: if_splits)

lemma served_core: "(''core'', major, features, depends) \<in> set (served c) \<Longrightarrow> depends = []"
  by (auto simp: served_def SERVED_def split: if_splits)

lemma dependency_items_Nil:
  assumes "distinct (map fst selected)"
  shows "dependency_items selected name dep = [] \<longleftrightarrow> (\<exists>m chosen. (fst dep, m, chosen) \<in> set selected \<and> set (snd dep) \<subseteq> set chosen)"
proof (cases "find (\<lambda>(selected_name, _). selected_name = fst dep) selected")
  case None
  then show ?thesis by (simp add: dependency_items_def) (auto simp: find_None_iff)
next
  case (Some s)
  then obtain m chosen where s: "s = (fst dep, m, chosen)" "s \<in> set selected"
    using find_SomeD [OF Some] by (cases s) auto
  have uniq: "chosen' = chosen" if "(fst dep, m', chosen') \<in> set selected" for m' chosen'
    using eq_key_imp_eq_value [OF assms that, of "(m, chosen)"] s by simp
  have "dependency_items selected name dep = [] \<longleftrightarrow> filter (\<lambda>f. f \<notin> set chosen) (snd dep) = []"
    using Some s(1) by (simp add: dependency_items_def)
  also have "\<dots> \<longleftrightarrow> set (snd dep) \<subseteq> set chosen" by (auto simp: filter_empty_conv)
  also have "\<dots> \<longleftrightarrow> (\<exists>m chosen. (fst dep, m, chosen) \<in> set selected \<and> set (snd dep) \<subseteq> set chosen)"
    using s uniq by blast
  finally show ?thesis .
qed

lemma negotiated_closed:
  assumes "negotiated p requested = Inr (result, kept)"
  shows "distinct (map fst kept)" "''core'' \<in> fst ` set kept"
    "(name, major, features) \<in> set kept \<Longrightarrow> \<exists>offered depends. (name, major, offered, depends) \<in> set (served (pv_config p)) \<and>
       set features \<subseteq> set offered \<and>
       (\<forall>(d, needed) \<in> set depends. \<exists>m chosen. (d, m, chosen) \<in> set kept \<and> set needed \<subseteq> set chosen)"
    "e \<in> set requested \<Longrightarrow> entry_required e \<Longrightarrow> entry_name e \<in> fst ` set kept"
proof -
  let ?c = "pv_config p"
  obtain n where n: "negotiate_entries ?c requested
        \<lparr>ng_seen = [], ng_required = [], ng_selected = [], ng_unselected = [], ng_unsatisfied = []\<rparr> = Inr n"
    "ng_unsatisfied n = []" using assms by (auto simp: negotiated_def rbind_Inr_iff split: if_splits)
  define selected where "selected = (if list_ex (\<lambda>(name, _). name = ''core'') (ng_selected n) then ng_selected n
                        else (''core'', 1, []) # ng_selected n)"
  let ?d = "check_selected ?c n selected"
  have kept: "kept = filter (\<lambda>(name, _). name \<notin> set (dp_dropped ?d)) selected" and refused: "dp_refused ?d = []"
    using assms n by (auto simp: negotiated_def selected_def Let_def split: if_splits)
  have ok: "selection_ok ?c n" and req: "\<forall>e \<in> set requested. entry_required e \<longrightarrow> entry_name e \<in> set (ng_required n)"
    using negotiate_entries_ok [OF n(1)] n(2) by (simp_all add: selection_ok_def)
  have core: "''core'' \<in> fst ` set (ng_selected n) \<longleftrightarrow> list_ex (\<lambda>(name, _). name = ''core'') (ng_selected n)"
    by (force simp: list_ex_iff)
  have dist: "distinct (map fst selected)" using ok core by (auto simp: selected_def selection_ok_def)
  have has_core: "''core'' \<in> fst ` set selected" using core by (auto simp: selected_def)
  have sel: "\<exists>offered depends. (name, major, offered, depends) \<in> set (served ?c) \<and> set features \<subseteq> set offered"
    if "(name, major, features) \<in> set selected" for name major features
  proof (cases "(name, major, features) \<in> set (ng_selected n)")
    case True
    then show ?thesis using ok by (fastforce simp: selection_ok_def)
  next
    case False
    then have "name = ''core''" "major = 1" "features = []" using that by (auto simp: selected_def split: if_splits)
    moreover have "(''core'', 1, [''core.events'', ''core.grants'', ''core.capabilities'', ''core.events.backpressure'', ''core.effects''], [])
        \<in> set (served ?c)" by (simp add: served_def SERVED_def)
    ultimately show ?thesis by force
  qed
  have dropped: "set (dp_dropped ?d) = {fst s |s. s \<in> set (served ?c) \<and> lacks selected s \<and> fst s \<notin> set (ng_required n)}"
    and not_refused: "\<forall>s \<in> set (served ?c). lacks selected s \<longrightarrow> fst s \<notin> set (ng_required n)"
    using refused unfolding check_selected_def check_profiles_fold by simp_all
  have no_core: "''core'' \<notin> set (dp_dropped ?d)"
  proof
    assume "''core'' \<in> set (dp_dropped ?d)"
    then obtain major features depends where "(''core'', major, features, depends) \<in> set (served ?c)"
      "lacks selected (''core'', major, features, depends)" unfolding dropped by force
    then show False using served_core by (fastforce simp: lacks_def)
  qed
  show "distinct (map fst kept)" unfolding kept using dist by (rule distinct_map_filter)
  show "''core'' \<in> fst ` set kept" using has_core no_core unfolding kept by force
  show "\<exists>offered depends. (name, major, offered, depends) \<in> set (served ?c) \<and> set features \<subseteq> set offered \<and>
       (\<forall>(d, needed) \<in> set depends. \<exists>m chosen. (d, m, chosen) \<in> set kept \<and> set needed \<subseteq> set chosen)"
    if k: "(name, major, features) \<in> set kept" for name major features
  proof -
    have s: "(name, major, features) \<in> set selected" and nd: "name \<notin> set (dp_dropped ?d)" using k unfolding kept by auto
    obtain offered depends where o: "(name, major, offered, depends) \<in> set (served ?c)" "set features \<subseteq> set offered"
      using sel [OF s] by blast
    have in_sel: "name \<in> fst ` set selected" using s by force
    have nl: "\<not> lacks selected (name, major, offered, depends)"
      using nd not_refused o(1) unfolding dropped by force
    have "\<exists>m chosen. (d, m, chosen) \<in> set kept \<and> set needed \<subseteq> set chosen" if "(d, needed) \<in> set depends" for d needed
    proof -
      have "dependency_items selected name (d, needed) = []" using nl in_sel that by (auto simp: lacks_def)
      then obtain m chosen where c: "(d, m, chosen) \<in> set selected" "set needed \<subseteq> set chosen"
        unfolding dependency_items_Nil [OF dist] by auto
      have "d = ''core''" using served_depends [OF o(1)] that by force
      then show ?thesis using c no_core unfolding kept by auto
    qed
    then show ?thesis using o by blast
  qed
  show "entry_name e \<in> fst ` set kept" if e: "e \<in> set requested" "entry_required e"
  proof -
    have r: "entry_name e \<in> set (ng_required n)" using req e by blast
    then have "entry_name e \<in> fst ` set selected" using ok by (auto simp: selection_ok_def selected_def)
    moreover have "entry_name e \<notin> set (dp_dropped ?d)" using r unfolding dropped by auto
    ultimately show ?thesis unfolding kept by force
  qed
qed


lemma negotiateE:
  assumes "negotiate payload p = (Inr result, p1)"
  obtains p0 e es kept where "negotiated p0 (e # es) = Inr (result, kept)" "pv_config p0 = pv_config p"
    "get payload ''profiles'' = Some (Array (e # es))" "pv_negotiated p1 = Some kept"
proof -
  define p0 where "p0 = (case Option.bind (get payload ''receive_limits'') (\<lambda>l. get l ''max_frame_bytes'') of
     Some (Integer limit) \<Rightarrow> p\<lparr>pv_receive_limit := as_usize limit\<rparr> | _ \<Rightarrow> p)"
  have "pv_config p0 = pv_config p" by (simp add: p0_def split: option.split jvalue.split)
  moreover obtain e es kept where "get payload ''profiles'' = Some (Array (e # es))" "negotiated p0 (e # es) = Inr (result, kept)"
      "p1 = p0\<lparr>pv_negotiated := Some kept\<rparr>"
    using assms unfolding negotiate_def Let_def p0_def [symmetric]
    by (auto split: if_splits option.splits jvalue.splits list.splits sum.splits prod.splits)
  ultimately show ?thesis using that by simp
qed

subsection \<open>An example\<close>

definition example_session :: "config \<Rightarrow> tables \<Rightarrow> provider" where
  "example_session c t =
     \<lparr>pv_config = c, pv_store = t, pv_objects = no_objects, pv_stream = ''s'', pv_shared_transport = False,
      pv_authenticated = True, pv_negotiated = None, pv_dedupe_current = 1, pv_dedupe_oldest = 0, pv_receive_limit = 65536,
      pv_subscriptions = [], pv_next_subscription = 0, pv_maintenance_owed = False\<rparr>"

definition example_core :: jvalue where
  "example_core =
     Object [(''name'', String ''core''), (''majors'', Array [Integer 1]), (''required_features'', Array [String ''core.events''])]"

definition example_evidence :: jvalue where
  "example_evidence = Object [(''name'', String ''evidence''), (''majors'', Array [Integer 1])]"

lemma served_default: "served default_config = filter (\<lambda>s. fst s \<noteq> ''core-test'') SERVED"
  by (simp add: served_def default_config_def case_prod_unfold)

lemma example_entry:
  "negotiate_entry default_config example_core n = (if ''core'' \<in> set (ng_seen n) then Inl (invalid_envelope ''/payload/profiles'' ''duplicate profile'')
     else Inr (n\<lparr>ng_seen := ng_seen n @ [''core''], ng_required := ng_required n @ [''core''],
       ng_selected := ng_selected n @ [(''core'', 1, [''core.events''])]\<rparr>))"
  "negotiate_entry default_config example_evidence n = (if ''evidence'' \<in> set (ng_seen n) then Inl (invalid_envelope ''/payload/profiles'' ''duplicate profile'')
     else Inr (n\<lparr>ng_seen := ng_seen n @ [''evidence''], ng_selected := ng_selected n @ [(''evidence'', 1, [])]\<rparr>))"
proof -
  have e: "entry_name example_core = ''core''" "entry_required example_core" "entry_majors example_core = [1]"
    "strings_in (array_of example_core ''required_features'') = [''core.events'']"
    "strings_in (array_of example_core ''optional_features'') = []"
    "entry_name example_evidence = ''evidence''" "\<not> entry_required example_evidence" "entry_majors example_evidence = [1]"
    "strings_in (array_of example_evidence ''required_features'') = []"
    "strings_in (array_of example_evidence ''optional_features'') = []"
    by (simp_all add: example_core_def example_evidence_def entry_name_def entry_required_def entry_majors_def array_of_def array_member_def strings_in_def
        member_str_def or_else_def List.map_filter_simps)
  have f: "find (\<lambda>(served_name, _). served_name = ''core'') (served default_config) =
      Some (''core'', 1, [''core.events'', ''core.grants'', ''core.capabilities'', ''core.events.backpressure'', ''core.effects''], [])"
    "find (\<lambda>(served_name, _). served_name = ''evidence'') (served default_config) =
      Some (''evidence'', 1, [''evidence.manifests'', ''evidence.retention_control'', ''evidence.work_binding''], [(''core'', [''core.events''])])"
    by (simp_all add: served_default SERVED_def)
  show "negotiate_entry default_config example_core n = (if ''core'' \<in> set (ng_seen n) then Inl (invalid_envelope ''/payload/profiles'' ''duplicate profile'')
     else Inr (n\<lparr>ng_seen := ng_seen n @ [''core''], ng_required := ng_required n @ [''core''],
       ng_selected := ng_selected n @ [(''core'', 1, [''core.events''])]\<rparr>))"
    by (simp add: negotiate_entry_def e f select_features_def Let_def)
  show "negotiate_entry default_config example_evidence n = (if ''evidence'' \<in> set (ng_seen n) then Inl (invalid_envelope ''/payload/profiles'' ''duplicate profile'')
     else Inr (n\<lparr>ng_seen := ng_seen n @ [''evidence''], ng_selected := ng_selected n @ [(''evidence'', 1, [])]\<rparr>))"
    by (simp add: negotiate_entry_def e f select_features_def Let_def)
qed

lemma example_negotiation:
  "\<exists>result p1. negotiate (Object [(''profiles'', Array [example_core, example_evidence])]) (example_session default_config empty_tables) = (Inr result, p1) \<and>
     pv_negotiated p1 = Some [(''core'', 1, [''core.events'']), (''evidence'', 1, [])]"
proof -
  let ?n0 = "\<lparr>ng_seen = [], ng_required = [], ng_selected = [], ng_unselected = [], ng_unsatisfied = []\<rparr>"
  let ?kept = "[(''core'', 1, [''core.events'']), (''evidence'', 1, [])] :: selection list"
  let ?p = "example_session default_config empty_tables"
  have "\<exists>n. negotiate_entries default_config [example_core, example_evidence] ?n0 = Inr n \<and> ng_selected n = ?kept \<and> ng_unsatisfied n = []"
    by (simp add: example_entry)
  then obtain n where n: "negotiate_entries default_config [example_core, example_evidence] ?n0 = Inr n" "ng_selected n = ?kept" "ng_unsatisfied n = []"
    by blast
  have none: "dependency_items ?kept x (''core'', [''core.events'']) = []" for x by (simp add: dependency_items_def)
  have d: "dp_refused (check_selected default_config n ?kept) = []" "dp_dropped (check_selected default_config n ?kept) = []"
    by (simp_all add: check_selected_def served_default SERVED_def check_profile_def check_dependency_def none)
  have cfg: "pv_config ?p = default_config" "pv_negotiated ?p = None" by (simp_all add: example_session_def)
  obtain result where r: "negotiated ?p [example_core, example_evidence] = Inr (result, ?kept)"
    using n d by (simp add: negotiated_def cfg Let_def)
  have "negotiate (Object [(''profiles'', Array [example_core, example_evidence])]) ?p = (Inr result, ?p\<lparr>pv_negotiated := Some ?kept\<rparr>)"
    using r cfg(2) by (simp add: negotiate_def)
  then show ?thesis by simp
qed

subsection \<open>Properties\<close>



end
