(* ===== verification/Admission.thy ===== *)
theory Admission
  imports Negotiate
begin

text \<open>
  Authorization and the command path, \<open>provider.rs\<close>: who may do what, and the checks every command
  passes in one order before it is applied. The clock is the argument \<open>now\<close>, the instant it answers
  while one operation is admitted.
\<close>

subsection \<open>Errors of this module\<close>

definition new_stale_epoch :: "int option \<Rightarrow> protocol_error" where
  "new_stale_epoch current = \<lparr>pe_code = ''stale_authority_epoch'', pe_retry = AfterReconcile,
     pe_details = (case current of None \<Rightarrow> [] | Some epoch \<Rightarrow> [(''current_epoch'', Integer epoch)])\<rparr>"

definition new_invalid_cursor :: "string \<Rightarrow> protocol_error" where
  "new_invalid_cursor reason = \<lparr>pe_code = ''invalid_cursor'', pe_retry = No, pe_details = [(''reason'', String reason)]\<rparr>"

definition new_internal_error :: protocol_error where
  "new_internal_error = \<lparr>pe_code = ''internal_error'', pe_retry = AfterReconcile, pe_details = []\<rparr>"

definition new_unknown_epoch :: protocol_error where
  "new_unknown_epoch = \<lparr>pe_code = ''unknown_authority_epoch'', pe_retry = No, pe_details = []\<rparr>"

subsection \<open>Records\<close>

definition key_of :: "jvalue \<Rightarrow> subject_key" where
  "key_of sub = \<lparr>sk_kind = or_else (member_str sub ''kind'') [], sk_id = or_else (member_str sub ''id'') []\<rparr>"

definition record_at :: "tables \<Rightarrow> subject_key \<Rightarrow> protocol_error + (int \<times> jvalue) option" where
  "record_at t key =
     (case subject t key of
        None \<Rightarrow> Inr None
      | Some s \<Rightarrow> rbind (ok_or (stored_value (su_value s)) new_internal_error) (\<lambda>v. Inr (Some (su_revision s, v))))"

definition effect :: "tables \<Rightarrow> string \<Rightarrow> protocol_error + (int \<times> jvalue) option" where
  "effect t i = record_at t \<lparr>sk_kind = EFFECT_KIND, sk_id = i\<rparr>"

definition grant_at :: "tables \<Rightarrow> string \<Rightarrow> protocol_error + grant option" where
  "grant_at t i =
     (case subject t (grant_key i) of
        None \<Rightarrow> Inr None
      | Some s \<Rightarrow>
          rbind (ok_or (stored_value (su_value s)) new_internal_error) (\<lambda>v.
          rbind (ok_or (read_grant v) new_internal_error) (\<lambda>g. Inr (Some g))))"

text \<open>\<open>result.ok().flatten()\<close>.\<close>

definition found :: "protocol_error + 'a option \<Rightarrow> 'a option" where
  "found r = (case r of Inr (Some x) \<Rightarrow> Some x | _ \<Rightarrow> None)"

subsection \<open>Descendants\<close>

fun read_grants :: "string list \<Rightarrow> protocol_error + grant list" where
  "read_grants [] = Inr []"
| "read_grants (v # vs) =
     rbind (ok_or (Option.bind (stored_value v) read_grant) new_internal_error) (\<lambda>g.
     rbind (read_grants vs) (\<lambda>gs. Inr (g # gs)))"

record walk =
  wk_next :: "string list"
  wk_seen :: "string list"
  wk_active :: "grant list"

definition visit :: "string list \<Rightarrow> grant \<Rightarrow> walk \<Rightarrow> walk" where
  "visit frontier g w =
     (case g_parent g of
        None \<Rightarrow> w
      | Some parent \<Rightarrow>
          if parent \<in> set frontier \<and> g_id g \<notin> set (wk_seen w)
          then w\<lparr>wk_seen := g_id g # wk_seen w, wk_next := wk_next w @ [g_id g],
                 wk_active := wk_active w @ (if g_revoked g then [] else [g])\<rparr>
          else w)"

text \<open>Every round that goes on has seen a new id, so as many rounds as there are grants are enough.\<close>

fun walk_rounds :: "nat \<Rightarrow> grant list \<Rightarrow> walk \<Rightarrow> walk" where
  "walk_rounds 0 all w = w"
| "walk_rounds (Suc n) all w =
     (if wk_next w = [] then w
      else walk_rounds n all (fold (visit (wk_next w)) all (w\<lparr>wk_next := []\<rparr>)))"

definition active_descendants :: "tables \<Rightarrow> string \<Rightarrow> protocol_error + grant list" where
  "active_descendants t root =
     rbind (read_grants (map snd (subjects_of_kind t GRANT_KIND))) (\<lambda>all.
     Inr (wk_active (walk_rounds (length all + 1) all \<lparr>wk_next = [root], wk_seen = [root], wk_active = []\<rparr>)))"

subsection \<open>Authorization\<close>

definition denied :: "denial + 'a \<Rightarrow> protocol_error + 'a" where
  "denied r = (case r of Inl d \<Rightarrow> Inl (denial_error d) | Inr x \<Rightarrow> Inr x)"

definition authority_context :: "provider \<Rightarrow> string \<Rightarrow> auth_context" where
  "authority_context p now =
     \<lparr>ctx_now = now, ctx_epochs = map (\<lambda>scope. (scope, authority_epoch_of (pv_store p) scope)) KNOWN_SCOPES\<rparr>"

text \<open>The grant a caller names, if it holds it and the grant is usable.\<close>

definition held_grant :: "provider \<Rightarrow> string \<Rightarrow> string \<Rightarrow> protocol_error + grant" where
  "held_grant p now i =
     rbind (grant_at (pv_store p) i) (\<lambda>g.
     rbind (ok_or (case g of Some grant \<Rightarrow> if g_holder grant = principal_of p then Some grant else None | None \<Rightarrow> None)
              (denial_error GrantNotFound)) (\<lambda>grant.
     rbind (denied (usable grant (authority_context p now))) (\<lambda>_. Inr grant)))"

definition authority_only :: "provider \<Rightarrow> protocol_error + grant option" where
  "authority_only p =
     (if is_authority (pv_config p) (principal_of p) then Inr None else Inl (denial_error GrantRequired))"

definition authorize :: "provider \<Rightarrow> string \<Rightarrow> string option \<Rightarrow> need list \<Rightarrow> protocol_error + grant option" where
  "authorize p now named needs =
     (case named of
        None \<Rightarrow> authority_only p
      | Some i \<Rightarrow>
          rbind (held_grant p now i) (\<lambda>grant.
          rbind (denied (permits grant needs)) (\<lambda>_. Inr (Some grant))))"

definition REQUEST :: string where "REQUEST = ''context.request''"
definition JOB :: string where "JOB = ''context.job''"
definition PACKET :: string where "PACKET = ''context.packet''"

definition hold_visible :: "provider \<Rightarrow> grant option \<Rightarrow> jvalue \<Rightarrow> bool" where
  "hold_visible p in_force hold =
     (case in_force of
        None \<Rightarrow> True
      | Some grant \<Rightarrow>
          member_str hold ''owner'' = Some (principal_of p) \<or>
          (case member_str hold ''artifact'' of
             None \<Rightarrow> False
           | Some artifact \<Rightarrow> may_read grant (artifact_key artifact) ''evidence.read''))"

definition context_visible :: "provider \<Rightarrow> grant \<Rightarrow> subject_key \<Rightarrow> bool" where
  "context_visible p grant key =
     (if sk_kind key = REQUEST then may_read grant key ''context.read''
      else if sk_kind key = PACKET then may_read grant key ''context.packet.read''
      else if sk_kind key = JOB then
        list_ex (\<lambda>request. may_read grant \<lparr>sk_kind = REQUEST, sk_id = request\<rparr> ''context.read'')
          (sk_id key # (case found (record_at (pv_store p) key) of
                          None \<Rightarrow> []
                        | Some (_, job) \<Rightarrow> strings_in (array_of job ''requests'')))
      else False)"

text \<open>
  An effect is read through its target, which may be an effect. The first argument bounds the chain;
  a chain longer than the number of subjects is a cycle, on which the code does not return.
\<close>

fun readable :: "nat \<Rightarrow> provider \<Rightarrow> grant \<Rightarrow> subject_key \<Rightarrow> bool" where
  "readable n p grant key =
     (let knd = sk_kind key in
      if knd = GRANT_KIND then
        (case found (grant_at (pv_store p) (sk_id key)) of
           None \<Rightarrow> False
         | Some other \<Rightarrow> g_holder other = principal_of p \<or> g_issuer other = principal_of p)
      else if prefix ''core-test.'' knd then may_read grant key ''core-test.read''
      else if knd = ''core.capabilities'' then grant_covers grant key
      else if knd = EFFECT_KIND then
        (case Option.bind (found (effect (pv_store p) (sk_id key))) (\<lambda>(_, rec). effect_target rec) of
           None \<Rightarrow> False
         | Some target \<Rightarrow> (case n of 0 \<Rightarrow> False | Suc m \<Rightarrow> readable m p grant target))
      else if knd = ARTIFACT then may_read grant key ''evidence.read''
      else if knd = HOLD then
        (case found (record_at (pv_store p) key) of
           None \<Rightarrow> False
         | Some (_, hold) \<Rightarrow> hold_visible p (Some grant) hold)
      else if prefix ''knowledge.'' knd then may_read grant key ''knowledge.read''
      else if prefix ''context.'' knd then context_visible p grant key
      else False)"

definition provider_may_read :: "provider \<Rightarrow> grant option \<Rightarrow> subject_key \<Rightarrow> bool" where
  "provider_may_read p in_force key =
     (case in_force of
        None \<Rightarrow> True
      | Some grant \<Rightarrow> readable (length (tb_subjects (pv_store p))) p grant key)"

definition events_authorization :: "provider \<Rightarrow> string \<Rightarrow> string \<Rightarrow> string option \<Rightarrow> grant option option" where
  "events_authorization p now who named =
     (case named of
        None \<Rightarrow> if is_authority (pv_config p) who then Some None else None
      | Some i \<Rightarrow>
          (case found (grant_at (pv_store p) i) of
             None \<Rightarrow> None
           | Some grant \<Rightarrow>
               if g_holder grant = who \<and> usable grant (authority_context p now) = Inr () \<and>
                  permits grant [(''core.events.read'', None)] = Inr ()
               then Some (Some grant) else None))"

definition authorize_issue :: "provider \<Rightarrow> string \<Rightarrow> grant \<Rightarrow> protocol_error + grant option" where
  "authorize_issue p now g =
     (if g_audience g \<noteq> cf_provider_id (pv_config p)
      then Inl (invalid_envelope ''/payload/audience'' ''not this provider'')
      else if (case g_expires_at g of None \<Rightarrow> False | Some expiry \<Rightarrow> expiry \<le> now)
      then Inl (invalid_envelope ''/payload/expires_at'' ''not after the provider's current time'')
      else if (case g_authority_binding g of None \<Rightarrow> False | Some b \<Rightarrow> b_scope b \<notin> set KNOWN_SCOPES)
      then Inl (invalid_envelope ''/payload/authority_binding/scope'' ''not an authority scope this provider tracks'')
      else
        (case g_parent g of
           None \<Rightarrow> if is_authority (pv_config p) (principal_of p) then Inr None else Inl (denial_error NotAuthority)
         | Some parent_id \<Rightarrow>
             rbind (held_grant p now parent_id) (\<lambda>parent.
             rbind (denied (may_delegate_to parent g)) (\<lambda>_. Inr None))))"

definition authorize_revoke :: "provider \<Rightarrow> command \<Rightarrow> protocol_error + grant option" where
  "authorize_revoke p command =
     rbind (grant_at (pv_store p) (sk_id (key_of (c_subject command)))) (\<lambda>existing.
     if \<not> (is_authority (pv_config p) (principal_of p) \<or>
           (case existing of None \<Rightarrow> False | Some g \<Rightarrow> g_issuer g = principal_of p))
     then Inl (denial_error NotAuthority)
     else if (case existing of None \<Rightarrow> False | Some g \<Rightarrow> g_revoked g) then Inl (denial_error Revoked)
     else Inr None)"

definition effect_id_of :: "jvalue \<Rightarrow> protocol_error + string" where
  "effect_id_of payload =
     (case member_str payload ''effect'' of
        Some i \<Rightarrow> if is_identifier i then Inr i else Inl (invalid_envelope ''/payload/effect'' ''not an identifier'')
      | None \<Rightarrow> Inl (invalid_envelope ''/payload/effect'' ''not an identifier''))"

definition target_of :: "(int \<times> jvalue) option \<Rightarrow> subject_key option" where
  "target_of r = Option.bind r (\<lambda>(_, rec). effect_target rec)"

definition authorize_effect_read :: "provider \<Rightarrow> string \<Rightarrow> query \<Rightarrow> protocol_error + grant option" where
  "authorize_effect_read p now q =
     rbind (effect_id_of (q_payload q)) (\<lambda>i.
     case q_grant q of
       None \<Rightarrow> authority_only p
     | Some named \<Rightarrow>
         rbind (held_grant p now named) (\<lambda>grant.
         rbind (effect (pv_store p) i) (\<lambda>r.
         if (case target_of r of None \<Rightarrow> False | Some target \<Rightarrow> provider_may_read p (Some grant) target)
         then Inr (Some grant) else Inl (denial_error OutOfScope))))"

definition authorize_abort :: "provider \<Rightarrow> string \<Rightarrow> command \<Rightarrow> protocol_error + grant option" where
  "authorize_abort p now command =
     (case c_grant command of
       None \<Rightarrow> authority_only p
     | Some named \<Rightarrow>
         rbind (held_grant p now named) (\<lambda>grant.
         if ABORT_RIGHT \<notin> set (g_rights grant) then Inl (denial_error RightMissing)
         else rbind (effect (pv_store p) (sk_id (key_of (c_subject command)))) (\<lambda>r.
           if (case target_of r of None \<Rightarrow> False | Some target \<Rightarrow> grant_covers grant target)
           then Inr (Some grant) else Inl (denial_error OutOfScope))))"

definition authorize_publish ::
    "provider \<Rightarrow> string \<Rightarrow> string option \<Rightarrow> string \<Rightarrow> jvalue option \<Rightarrow> protocol_error + grant option" where
  "authorize_publish p now named artifact work =
     rbind (authorize p now named [(''evidence.publish'', Some (artifact_key artifact))]) (\<lambda>in_force.
     if (case in_force of
           None \<Rightarrow> False
         | Some grant \<Rightarrow> list_ex (\<lambda>constraint.
             member_str constraint ''kind'' = Some ''evidence.work_binding'' \<and> get constraint ''work'' \<noteq> work)
             (g_constraints grant))
     then Inl (denial_error BindingViolation) else Inr in_force)"

definition authorize_release :: "provider \<Rightarrow> string \<Rightarrow> string option \<Rightarrow> string \<Rightarrow> protocol_error + grant option" where
  "authorize_release p now named hold =
     rbind (record_at (pv_store p) (hold_key hold)) (\<lambda>r.
     if (case r of None \<Rightarrow> False | Some (_, rec) \<Rightarrow> member_str rec ''owner'' = Some (principal_of p)) then Inr None
     else authorize p now named [(''evidence.release'', Some (hold_key hold))])"

fun authorize_releases :: "provider \<Rightarrow> string \<Rightarrow> string option \<Rightarrow> string list \<Rightarrow> protocol_error + unit" where
  "authorize_releases p now named [] = Inr ()"
| "authorize_releases p now named (h # hs) =
     rbind (authorize_release p now named h) (\<lambda>_. authorize_releases p now named hs)"

definition authorize_purge ::
    "provider \<Rightarrow> string \<Rightarrow> string option \<Rightarrow> string \<Rightarrow> string list \<Rightarrow> protocol_error + grant option" where
  "authorize_purge p now named artifact holds =
     rbind (authorize p now named [(''evidence.purge'', Some (artifact_key artifact))]) (\<lambda>in_force.
     rbind (authorize_releases p now named holds) (\<lambda>_. Inr in_force))"

definition command_needs :: "command \<Rightarrow> need list" where
  "command_needs command =
     (let primary = key_of (c_subject command) in
      if c_operation command = ''core-test.subject.put'' then
        (''core-test.write'', Some primary) #
        map (\<lambda>key. (''core-test.read'', Some key))
          (filter (\<lambda>key. key \<noteq> primary) (map (key_of \<circ> fst) (c_preconditions command)))
      else if c_operation command = ''core-test.authority.claim'' then [(''core-test.claim'', Some primary)]
      else [])"

subsection \<open>The command path\<close>

datatype epoch_check = Unchecked | Scope string | Binding subject_key

datatype step6 =
    Rights "need list" | Issue grant | Revoke | Abort | Publish string "jvalue option" | Release string
  | Purge string "string list" | Bind

definition capability_dependency :: "string \<Rightarrow> string option" where
  "capability_dependency operation = (if operation = ''core-test.subject.put'' then Some ''core-test.writes'' else None)"

definition capability_status :: "tables \<Rightarrow> string \<Rightarrow> string" where
  "capability_status t name =
     (let predicates = (case tb_capabilities t of
          None \<Rightarrow> Array []
        | Some (_, _, predicates) \<Rightarrow> or_else (stored_value predicates) (Array []))
      in or_else (Option.bind (find (\<lambda>q. member_str q ''name'' = Some name) (or_else (as_array predicates) []))
                    (\<lambda>q. member_str q ''status'')) ''unknown'')"

text \<open>A replay returns the stored result with \<open>replay\<close> set.\<close>

definition replayed :: "jvalue \<Rightarrow> jvalue" where
  "replayed result =
     (case result of
        Object members \<Rightarrow> Object (map (\<lambda>(name, v). (name, if name = ''replay'' then Bool True else v)) members)
      | v \<Rightarrow> v)"

definition check_digest :: "hasher \<Rightarrow> jvalue \<Rightarrow> command \<Rightarrow> protocol_error + unit" where
  "check_digest sha params command =
     rbind (case parse_digest (c_command_digest command) of
              Inr (Sha256, _) \<Rightarrow> Inr ()
            | Inr (Sha512, _) \<Rightarrow> Inl (unsupported_digest_algorithm ''sha512'' [''sha256''])
            | Inl (UnsupportedAlgorithm algorithm) \<Rightarrow> Inl (unsupported_digest_algorithm algorithm [''sha256''])
            | Inl _ \<Rightarrow> Inl (invalid_envelope ''/command_digest'' ''malformed digest'')) (\<lambda>_.
     case command_digest sha params of
       Inl (RequiredExtensionMissing key) \<Rightarrow> Inl (invalid_envelope ''/requires'' (''extension '' @ key @ '' absent''))
     | Inl (DuplicateRequires _) \<Rightarrow> Inl (invalid_envelope ''/requires'' ''duplicate entry'')
     | Inl _ \<Rightarrow> Inl (invalid_envelope [] ''envelope cannot form a command intent'')
     | Inr expected \<Rightarrow> if expected \<noteq> c_command_digest command then Inl (digest_mismatch expected) else Inr ())"

definition deduplicate :: "provider \<Rightarrow> command \<Rightarrow> protocol_error + jvalue option" where
  "deduplicate p command =
     (if c_dedupe_generation command > pv_dedupe_current p
      then Inl (invalid_envelope ''/dedupe_generation'' ''generation was never issued'')
      else (case find_command (pv_store p) (principal_of p) (c_command_id command) of
              Some row \<Rightarrow>
                if cr_digest row = c_command_digest command then Inr (Some (replayed (column_value (cr_result row))))
                else Inl (idempotency_conflict (c_command_id command))
            | None \<Rightarrow>
                if c_dedupe_generation command < pv_dedupe_oldest p
                then Inl (dedupe_history_unavailable (pv_dedupe_oldest p)) else Inr None))"

fun authorization :: "provider \<Rightarrow> string \<Rightarrow> command \<Rightarrow> step6 \<Rightarrow> protocol_error + grant option" where
  "authorization p now command (Rights needs) = authorize p now (c_grant command) needs"
| "authorization p now command (Issue g) = authorize_issue p now g"
| "authorization p now command Revoke = authorize_revoke p command"
| "authorization p now command Abort = authorize_abort p now command"
| "authorization p now command (Publish artifact work) = authorize_publish p now (c_grant command) artifact work"
| "authorization p now command (Release hold) = authorize_release p now (c_grant command) hold"
| "authorization p now command (Purge artifact holds) = authorize_purge p now (c_grant command) artifact holds"
| "authorization p now command Bind =
     (if c_grant command \<noteq> None \<or> \<not> is_authority (pv_config p) (principal_of p)
      then Inl (permission_denied ''not_authority'') else Inr None)"

definition check_capability :: "provider \<Rightarrow> command \<Rightarrow> protocol_error + unit" where
  "check_capability p command =
     (case capability_dependency (c_operation command) of
        None \<Rightarrow> Inr ()
      | Some capability \<Rightarrow>
          (let status = capability_status (pv_store p) capability in
           if status \<noteq> ''supported'' then Inl (capability_unavailable capability status) else Inr ()))"

text \<open>The epoch to compare with, its subject, and whether a command must carry one.\<close>

fun epoch_checked :: "provider \<Rightarrow> epoch_check \<Rightarrow> (int \<times> subject_key \<times> bool) option" where
  "epoch_checked p Unchecked = None"
| "epoch_checked p (Scope scope) = Some (authority_epoch_of (pv_store p) scope, authority_key scope, True)"
| "epoch_checked p (Binding key) =
     (let current = revision_of (pv_store p) key in if current > 0 then Some (current, key, False) else None)"

definition check_epoch :: "provider \<Rightarrow> command \<Rightarrow> epoch_check \<Rightarrow> grant option \<Rightarrow> protocol_error + unit" where
  "check_epoch p command epoch in_force =
     (case epoch_checked p epoch of
        None \<Rightarrow> Inr ()
      | Some (current, key, absent_is_invalid) \<Rightarrow>
          rbind (case c_authority_epoch command of
                   Some e \<Rightarrow> Inr e
                 | None \<Rightarrow> if absent_is_invalid
                     then Inl (invalid_envelope ''/authority_epoch'' ''required by this operation'') else Inr 0) (\<lambda>e.
          if e < current then Inl (new_stale_epoch (if provider_may_read p in_force key then Some current else None))
          else if e > current then Inl new_unknown_epoch else Inr ()))"

definition failed_precondition :: "provider \<Rightarrow> grant option \<Rightarrow> jvalue \<times> int \<Rightarrow> jvalue list" where
  "failed_precondition p in_force pre =
     (case pre of (sub, expected) \<Rightarrow>
        let key = key_of sub; current = revision_of (pv_store p) key in
        if current = expected then []
        else [Object ([(''subject'', sub), (''expected'', Integer expected)] @
                (if provider_may_read p in_force key then [(''current'', Integer current)] else []))])"

definition check_preconditions_hold :: "provider \<Rightarrow> command \<Rightarrow> grant option \<Rightarrow> protocol_error + unit" where
  "check_preconditions_hold p command in_force =
     (if \<not> list_ex (\<lambda>(sub, _). sub = c_subject command) (c_preconditions command)
      then Inl (invalid_envelope ''/preconditions'' ''no precondition on the command's own subject'')
      else
        (let failed = concat (map (failed_precondition p in_force) (c_preconditions command)) in
         if failed \<noteq> [] then Inl (precondition_failed (Array failed)) else Inr ()))"

definition admit_command ::
    "hasher \<Rightarrow> provider \<Rightarrow> string \<Rightarrow> jvalue \<Rightarrow> command \<Rightarrow> epoch_check \<Rightarrow> step6 \<Rightarrow> protocol_error + jvalue option" where
  "admit_command sha p now params command epoch step =
     rbind (check_digest sha params command) (\<lambda>_.
     rbind (deduplicate p command) (\<lambda>bound.
     case bound of
       Some result \<Rightarrow> Inr (Some result)
     | None \<Rightarrow>
         rbind (authorization p now command step) (\<lambda>in_force.
         rbind (check_capability p command) (\<lambda>_.
         rbind (check_epoch p command epoch in_force) (\<lambda>_.
         rbind (check_preconditions_hold p command in_force) (\<lambda>_. Inr None))))))"

definition accepted :: "string \<Rightarrow> string \<Rightarrow> string \<Rightarrow> jvalue \<Rightarrow> int \<Rightarrow> jvalue \<Rightarrow> jvalue" where
  "accepted command_id digest operation_ref sub revision outcome = Object
     [(''acknowledgment'', Object
        [(''command_id'', String command_id), (''command_digest'', String digest),
         (''operation_ref'', String operation_ref), (''subject'', sub), (''revision'', Integer revision),
         (''effect_refs'', Array [])]),
      (''outcome'', outcome), (''replay'', Bool False)]"

end
