(* ===== verification/Core_Ops.thy ===== *)
theory Core_Ops
  imports Admission
begin

text \<open>
  The operations of the core profiles, \<open>provider.rs\<close>: the test subject, grants, effects, capabilities
  and authentication. \<open>now\<close> is the instant while the command is admitted, \<open>at1\<close> when it is recorded.
\<close>

subsection \<open>Committing\<close>

definition base_commit :: "provider \<Rightarrow> string \<Rightarrow> command \<Rightarrow> subject_key \<Rightarrow> string \<Rightarrow> new_event option \<Rightarrow> commit" where
  "base_commit p at1 command key v event =
     \<lparr>cm_key = key, cm_value = v, cm_principal = principal_of p, cm_command_id = c_command_id command,
      cm_digest = c_command_digest command, cm_generation = c_dedupe_generation command, cm_event = event,
      cm_also = [], cm_effects = [], cm_grant = c_grant command, cm_more_events = [], cm_chunks = No_Chunks,
      cm_recorded_at = at1, cm_claim_revision = None\<rparr>"

definition committed :: "commit \<Rightarrow> (int \<Rightarrow> string \<Rightarrow> jvalue) \<Rightarrow> provider \<Rightarrow> handled" where
  "committed c make_result p =
     (case commit_command c make_result (pv_store p) of
        Inl _ \<Rightarrow> (Inl unavailable, p)
      | Inr (result, t) \<Rightarrow> (Inr result, p\<lparr>pv_store := t\<rparr>))"

text \<open>The part of a handler before the command is applied.\<close>

definition admitted ::
    "hasher \<Rightarrow> string \<Rightarrow> jvalue \<Rightarrow> command \<Rightarrow> epoch_check \<Rightarrow> step6 \<Rightarrow> (provider \<Rightarrow> handled) \<Rightarrow> provider \<Rightarrow> handled" where
  "admitted sha now params command epoch step continue p =
     (case admit_command sha p now params command epoch step of
        Inl e \<Rightarrow> (Inl e, p)
      | Inr (Some bound) \<Rightarrow> (Inr bound, p)
      | Inr None \<Rightarrow> continue p)"

definition accepted_for :: "command \<Rightarrow> int \<Rightarrow> string \<Rightarrow> jvalue \<Rightarrow> jvalue" where
  "accepted_for command revision operation_ref outcome =
     accepted (c_command_id command) (c_command_digest command) operation_ref (c_subject command) revision outcome"

subsection \<open>The test subject and the authority\<close>

definition core_subject_key :: "jvalue \<Rightarrow> protocol_error + subject_key" where
  "core_subject_key payload =
     (case get payload ''subject'' of
        None \<Rightarrow> Inl (invalid_envelope ''/payload/subject'' ''absent'')
      | Some sub \<Rightarrow>
          if sk_kind (key_of sub) \<noteq> ''core-test.subject''
          then Inl (invalid_envelope ''/payload/subject/kind'' ''not core-test.subject'')
          else Inr (key_of sub))"

definition subject_get :: "provider \<Rightarrow> query \<Rightarrow> answer" where
  "subject_get p q =
     rbind (core_subject_key (q_payload q)) (\<lambda>key.
     case subject (pv_store p) key of
       None \<Rightarrow> Inl not_found
     | Some s \<Rightarrow> Inr (Object [(''subject'', or_else (get (q_payload q) ''subject'') Null),
         (''revision'', Integer (su_revision s)), (''value'', String (su_value s))]))"

definition applied_count_of :: "provider \<Rightarrow> query \<Rightarrow> answer" where
  "applied_count_of p q =
     rbind (core_subject_key (q_payload q)) (\<lambda>key.
     Inr (Object [(''subject'', or_else (get (q_payload q) ''subject'') Null),
       (''applied_count'', Integer (applied_count (pv_store p) key))]))"

definition value_outcome :: "string \<Rightarrow> jvalue" where
  "value_outcome v = Object [(''value'', String v)]"

definition subject_put :: "hasher \<Rightarrow> string \<Rightarrow> string \<Rightarrow> jvalue \<Rightarrow> command \<Rightarrow> provider \<Rightarrow> handled" where
  "subject_put sha now at1 params command =
     admitted sha now params command (Scope ''core-test'') (Rights (command_needs command)) (\<lambda>p.
       case member_str (c_payload command) ''value'' of
         None \<Rightarrow> (Inl (invalid_envelope ''/payload/value'' ''not a string''), p)
       | Some v \<Rightarrow>
           committed (base_commit p at1 command (key_of (c_subject command)) v
              (Some \<lparr>ne_type = ''core-test.subject.changed'', ne_payload = (\<lambda>_. value_outcome v),
                     ne_caused_by = c_caused_by command\<rparr>))
             (\<lambda>revision operation_ref. accepted_for command revision operation_ref (value_outcome v)) p)"

definition authority_claim :: "hasher \<Rightarrow> string \<Rightarrow> string \<Rightarrow> jvalue \<Rightarrow> command \<Rightarrow> provider \<Rightarrow> handled" where
  "authority_claim sha now at1 params command =
     admitted sha now params command Unchecked (Rights (command_needs command)) (\<lambda>p.
       committed (base_commit p at1 command (authority_key ''core-test'') []
          (Some \<lparr>ne_type = ''core-test.authority.claimed'', ne_payload = (\<lambda>epoch. Object [(''epoch'', Integer epoch)]),
                 ne_caused_by = c_caused_by command\<rparr>))
         (\<lambda>epoch operation_ref. accepted_for command epoch operation_ref (Object [(''epoch'', Integer epoch)])) p)"

subsection \<open>Grants\<close>

definition revoked_event :: "string list \<Rightarrow> new_event" where
  "revoked_event caused_by = \<lparr>ne_type = ''core.grant.revoked'',
     ne_payload = (\<lambda>_. Object [(''state'', String ''revoked'')]), ne_caused_by = caused_by\<rparr>"

text \<open>\<open>expected\<close> is 0 for a grant to be issued and positive for one to be revoked.\<close>

definition grant_subject :: "command \<Rightarrow> int \<Rightarrow> protocol_error + string" where
  "grant_subject command expected =
     (let key = key_of (c_subject command) in
      if sk_kind key \<noteq> GRANT_KIND then Inl (invalid_envelope ''/subject/kind'' ''not core.grant'')
      else if \<not> (case c_preconditions command of
                   [(sub, revision)] \<Rightarrow> key_of sub = key \<and> (if expected = 0 then revision = 0 else 1 \<le> revision)
                 | _ \<Rightarrow> False)
      then Inl (invalid_envelope ''/preconditions'' ''exactly one precondition on the grant subject is required'')
      else Inr (sk_id key))"

definition grant_get :: "provider \<Rightarrow> query \<Rightarrow> answer" where
  "grant_get p q =
     (case member_str (q_payload q) ''grant'' of
        None \<Rightarrow> Inl (invalid_envelope ''/payload/grant'' ''not a grant id'')
      | Some i \<Rightarrow>
          rbind (grant_at (pv_store p) i) (\<lambda>g.
          case g of
            None \<Rightarrow> Inl not_found
          | Some grant \<Rightarrow>
              if g_holder grant \<noteq> principal_of p \<and> g_issuer grant \<noteq> principal_of p \<and>
                 \<not> is_authority (pv_config p) (principal_of p)
              then Inl not_found
              else Inr (Object [(''revision'', Integer (revision_of (pv_store p) (grant_key i))), (''grant'', grant_value grant)])))"

definition feature_missing :: "string \<Rightarrow> protocol_error" where
  "feature_missing feature = unsupported_required_feature_message (Array [String feature])"

definition grant_issue :: "hasher \<Rightarrow> string \<Rightarrow> string \<Rightarrow> jvalue \<Rightarrow> command \<Rightarrow> provider \<Rightarrow> handled" where
  "grant_issue sha now at1 params command p =
     (case rbind (grant_subject command 0) (\<lambda>i. parse_issue i (principal_of p) (c_payload command)) of
        Inl e \<Rightarrow> (Inl e, p)
      | Inr grant \<Rightarrow>
          if g_constraints grant \<noteq> [] \<and> \<not> selected_feature p ''evidence.work_binding''
          then (Inl (feature_missing ''evidence.work_binding''), p)
          else
            admitted sha now params command Unchecked (Issue grant) (\<lambda>p.
              committed (base_commit p at1 command (grant_key (g_id grant)) (to_canonical (grant_value grant))
                 (Some \<lparr>ne_type = ''core.grant.issued'', ne_payload = (\<lambda>_. Object [(''grant'', grant_value grant)]),
                        ne_caused_by = c_caused_by command\<rparr>))
                (\<lambda>revision operation_ref.
                   accepted_for command revision operation_ref (Object [(''grant'', grant_value grant)])) p) p)"

definition revoke_child :: "command \<Rightarrow> grant \<Rightarrow> change" where
  "revoke_child command child =
     \<lparr>cg_key = grant_key (g_id child), cg_value = to_canonical (grant_value (child\<lparr>g_revoked := True\<rparr>)),
      cg_event = Some (revoked_event (c_caused_by command))\<rparr>"

definition grant_revoke :: "hasher \<Rightarrow> string \<Rightarrow> string \<Rightarrow> jvalue \<Rightarrow> command \<Rightarrow> provider \<Rightarrow> handled" where
  "grant_revoke sha now at1 params command p =
     (case grant_subject command 1 of
        Inl e \<Rightarrow> (Inl e, p)
      | Inr i \<Rightarrow>
          admitted sha now params command Unchecked Revoke (\<lambda>p.
            case rbind (grant_at (pv_store p) i) (\<lambda>g.
                 rbind (ok_or g new_internal_error) (\<lambda>grant.
                 rbind (active_descendants (pv_store p) i) (\<lambda>children. Inr (grant, children)))) of
              Inl e \<Rightarrow> (Inl e, p)
            | Inr (grant, children) \<Rightarrow>
                committed ((base_commit p at1 command (grant_key i) (to_canonical (grant_value (grant\<lparr>g_revoked := True\<rparr>)))
                     (Some (revoked_event (c_caused_by command))))\<lparr>cm_also := map (revoke_child command) children\<rparr>)
                  (\<lambda>revision operation_ref. accepted_for command revision operation_ref
                     (Object [(''revoked'', Array (map String (i # map g_id children)))])) p) p)"

subsection \<open>Effects\<close>

definition effects_get :: "provider \<Rightarrow> query \<Rightarrow> answer" where
  "effects_get p q =
     (if \<not> selected_feature p ''core.effects'' then Inl (feature_missing ''core.effects'')
      else
        rbind (effect_id_of (q_payload q)) (\<lambda>i.
        rbind (effect (pv_store p) i) (\<lambda>r.
        case r of None \<Rightarrow> Inl not_found | Some (revision, rec) \<Rightarrow> Inr (effect_get_result rec revision))))"

definition one_precondition :: "command \<Rightarrow> string \<Rightarrow> bool" where
  "one_precondition command knd \<longleftrightarrow>
     sk_kind (key_of (c_subject command)) = knd \<and>
     (case c_preconditions command of [(sub, _)] \<Rightarrow> key_of sub = key_of (c_subject command) | _ \<Rightarrow> False)"

definition descriptor_target :: "jvalue \<Rightarrow> jvalue" where
  "descriptor_target rec = or_else (Option.bind (get rec ''descriptor'') (\<lambda>d. get d ''target'')) Null"

definition obligation_payload :: "string \<Rightarrow> string \<Rightarrow> jvalue \<Rightarrow> jvalue" where
  "obligation_payload i obligation target =
     Object [(''effect'', String i), (''obligation'', String obligation), (''target'', target)]"

definition effects_abort :: "hasher \<Rightarrow> string \<Rightarrow> string \<Rightarrow> jvalue \<Rightarrow> command \<Rightarrow> provider \<Rightarrow> handled" where
  "effects_abort sha now at1 params command p =
     (let key = key_of (c_subject command) in
      if \<not> selected_feature p ''core.effects'' then (Inl (feature_missing ''core.effects''), p)
      else if \<not> one_precondition command EFFECT_KIND
      then (Inl (invalid_envelope ''/preconditions'' ''exactly one precondition on the effect subject is required''), p)
      else
        (case member_str (c_payload command) ''obligation'' of
           None \<Rightarrow> (Inl (invalid_envelope ''/payload/obligation'' ''not an identifier''), p)
         | Some obligation \<Rightarrow>
             if \<not> is_identifier obligation
             then (Inl (invalid_envelope ''/payload/obligation'' ''not an identifier''), p)
             else
               admitted sha now params command Unchecked Abort (\<lambda>p.
                 case effect (pv_store p) (sk_id key) of
                   Inl e \<Rightarrow> (Inl e, p)
                 | Inr None \<Rightarrow> (Inl not_found, p)
                 | Inr (Some (_, rec)) \<Rightarrow>
                     if \<not> obligation_waiting rec obligation then (Inl not_found, p)
                     else
                       (let rec1 = abort_obligation obligation rec;
                            payload = obligation_payload (sk_id key) obligation (descriptor_target rec1)
                        in committed (base_commit p at1 command key (to_canonical rec1)
                               (Some \<lparr>ne_type = ''core.effect.obligation.aborted'', ne_payload = (\<lambda>_. payload),
                                      ne_caused_by = c_caused_by command\<rparr>))
                             (\<lambda>revision operation_ref. accepted_for command revision operation_ref
                                (Object [(''effect'', String (sk_id key)),
                                   (''obligation'', Object [(''id'', String obligation), (''state'', String ''aborted'')]),
                                   (''status'', String (effect_status rec1))])) p)) p))"

fun tick_effect_list :: "string \<Rightarrow> (string \<times> string) list \<Rightarrow> tables \<Rightarrow> (protocol_error + unit) \<times> tables" where
  "tick_effect_list now [] t = (Inr (), t)"
| "tick_effect_list now ((i, v) # rest) t =
     (case stored_value v of
        None \<Rightarrow> (Inl new_internal_error, t)
      | Some rec \<Rightarrow>
          (let (marked, rec1) = mark_overdue now rec in
           if marked = [] then tick_effect_list now rest t
           else
             (case commit_provider_change \<lparr>sk_kind = EFFECT_KIND, sk_id = i\<rparr> (to_canonical rec1)
                 (map (\<lambda>obligation. \<lparr>ne_type = ''core.effect.obligation.overdue'',
                    ne_payload = (\<lambda>_. obligation_payload i obligation (descriptor_target rec1)), ne_caused_by = []\<rparr>) marked)
                 now False t of
                Inl _ \<Rightarrow> (Inl unavailable, t)
              | Inr (_, t1) \<Rightarrow> tick_effect_list now rest t1)))"

definition tick_effects :: "string \<Rightarrow> tables \<Rightarrow> (protocol_error + unit) \<times> tables" where
  "tick_effects now t = tick_effect_list now (subjects_of_kind t EFFECT_KIND) t"

definition observe_effect :: "string \<Rightarrow> string \<Rightarrow> string \<Rightarrow> string \<Rightarrow> string \<Rightarrow> tables \<Rightarrow> (protocol_error + unit) \<times> tables" where
  "observe_effect now i status cls source t =
     (case effect t i of
        Inl e \<Rightarrow> (Inl e, t)
      | Inr None \<Rightarrow> (Inl not_found, t)
      | Inr (Some (_, rec)) \<Rightarrow>
          (case commit_provider_change \<lparr>sk_kind = EFFECT_KIND, sk_id = i\<rparr>
                  (to_canonical (observe status cls source now rec)) [] now False t of
             Inl _ \<Rightarrow> (Inl unavailable, t)
           | Inr (_, t1) \<Rightarrow> (Inr (), t1)))"

subsection \<open>Capabilities and authentication\<close>

definition capabilities :: "provider \<Rightarrow> answer" where
  "capabilities p =
     (if \<not> selected_feature p ''core.capabilities'' then Inl (feature_missing ''core.capabilities'')
      else (case tb_capabilities (pv_store p) of
              None \<Rightarrow> Inl new_internal_error
            | Some (_, revision, predicates) \<Rightarrow>
                Inr (Object [(''revision'', Integer revision), (''predicates'', or_else (stored_value predicates) (Array []))])))"

text \<open>Equality of two digests in time that does not depend on where they differ.\<close>

definition constant_time_eq :: "string \<Rightarrow> string \<Rightarrow> bool" where
  "constant_time_eq left right =
     (length left = length right \<and>
      fold (\<lambda>(a, b) difference. difference OR (a XOR b))
        (zip (map (\<lambda>c. word_of_nat (bval c)) left) (map (\<lambda>c. word_of_nat (bval c)) right)) (0 :: 8 word) = 0)"

definition stored_credentials :: "tables \<Rightarrow> credential list" where
  "stored_credentials t =
     map (\<lambda>c. \<lparr>cd_principal = ce_principal c, cd_digest = ce_digest c, cd_revoked = ce_revoked c\<rparr>)
       (sort_key ce_digest (tb_credentials t))"

definition authenticate :: "hasher \<Rightarrow> jvalue \<Rightarrow> provider \<Rightarrow> handled" where
  "authenticate sha payload p =
     (if \<not> pv_shared_transport p \<or> pv_authenticated p then (Inl already_authenticated, p)
      else
        (let presented = or_else (member_str payload ''credential'') [];
             digest = sha256_hex sha presented
         in case find (\<lambda>c. constant_time_eq (cd_digest c) digest)
                   (cf_credentials (pv_config p) @ stored_credentials (pv_store p)) of
              None \<Rightarrow> (Inl authentication_failed, p)
            | Some c \<Rightarrow>
                if \<not> cd_revoked c \<and> prefix ''ccred1.'' presented
                then (Inr (Object [(''principal'', String (cd_principal c))]),
                      p\<lparr>pv_authenticated := True, pv_config := (pv_config p)\<lparr>cf_principal := cd_principal c\<rparr>\<rparr>)
                else (Inl authentication_failed, p)))"

subsection \<open>Requirements of an envelope\<close>

definition check_method_matches :: "string \<Rightarrow> string \<Rightarrow> protocol_error + unit" where
  "check_method_matches method operation =
     (if method = operation then Inr ()
      else Inl (invalid_envelope ''/operation'' ''operation does not equal the transport method''))"

definition check_required_features :: "provider \<Rightarrow> string list \<Rightarrow> protocol_error + unit" where
  "check_required_features p requires =
     (let unknown = filter (\<lambda>entry. CHR ''/'' \<in> set entry \<or> \<not> selected_feature p entry) requires in
      if unknown = [] then Inr () else Inl (unsupported_required_feature_message (Array (map String unknown))))"

subsection \<open>Dispatch\<close>

text \<open>The dispatch of \<open>handle\<close> to the commands of the core profiles.\<close>

definition core_command :: "hasher \<Rightarrow> string \<Rightarrow> string \<Rightarrow> string \<Rightarrow> jvalue \<Rightarrow> command \<Rightarrow> provider \<Rightarrow> handled" where
  "core_command sha now at1 method params command =
     (if method = ''core-test.subject.put'' then subject_put sha now at1 params command
      else if method = ''core-test.authority.claim'' then authority_claim sha now at1 params command
      else if method = ''core.grant.issue'' then grant_issue sha now at1 params command
      else if method = ''core.grant.revoke'' then grant_revoke sha now at1 params command
      else if method = ''core.effects.abort_obligation'' then effects_abort sha now at1 params command
      else (\<lambda>p. (Inl (method_not_found method), p)))"

end
