(* ===== verification/Command_Path.thy ===== *)
theory Command_Path
  imports Core_Ops Store_Commands
begin

text \<open>
  What the command path guarantees: which commands are let through, that a bound command replays its
  stored result and changes nothing, and that a refused caller learns nothing of the store.
\<close>

subsection \<open>Letting a command through\<close>

lemma check_epoch_Inr:
  "check_epoch p command epoch in_force = Inr () \<longleftrightarrow>
     (case epoch_checked p epoch of None \<Rightarrow> True
      | Some (current, key, must) \<Rightarrow> c_authority_epoch command = Some current \<or>
          (\<not> must \<and> c_authority_epoch command = None \<and> current = 0))"
  by (auto simp: check_epoch_def rbind_Inr_iff split: option.splits if_splits)

lemma epoch_checked_positive: "epoch_checked p epoch = Some (current, key, False) \<Longrightarrow> 0 < current"
  by (cases epoch) (auto simp: Let_def split: if_splits)

lemma check_epoch_exact:
  "check_epoch p command epoch in_force = Inr () \<longleftrightarrow>
     (\<forall>current key must. epoch_checked p epoch = Some (current, key, must) \<longrightarrow> c_authority_epoch command = Some current)"
proof (cases "epoch_checked p epoch")
  case (Some c)
  then show ?thesis using epoch_checked_positive [of p epoch] unfolding check_epoch_Inr by (cases c) fastforce
qed (simp add: check_epoch_Inr)

lemma failed_precondition_Nil:
  "failed_precondition p in_force (sub, expected) = [] \<longleftrightarrow> revision_of (pv_store p) (key_of sub) = expected"
  by (simp add: failed_precondition_def Let_def)

lemma check_preconditions_exact:
  "check_preconditions_hold p command in_force = Inr () \<longleftrightarrow>
     c_subject command \<in> fst ` set (c_preconditions command) \<and>
     (\<forall>(sub, expected) \<in> set (c_preconditions command). revision_of (pv_store p) (key_of sub) = expected)"
proof -
  have own: "list_ex (\<lambda>(sub, _). sub = c_subject command) (c_preconditions command) \<longleftrightarrow>
      c_subject command \<in> fst ` set (c_preconditions command)" by (force simp: list_ex_iff)
  have "concat (map (failed_precondition p in_force) (c_preconditions command)) = [] \<longleftrightarrow>
      (\<forall>(sub, expected) \<in> set (c_preconditions command). revision_of (pv_store p) (key_of sub) = expected)"
    by (auto simp: failed_precondition_Nil)
  then show ?thesis by (simp add: check_preconditions_hold_def own Let_def)
qed

lemma deduplicate_None:
  "deduplicate p command = Inr None \<longleftrightarrow>
     find_command (pv_store p) (principal_of p) (c_command_id command) = None \<and>
     pv_dedupe_oldest p \<le> c_dedupe_generation command \<and> c_dedupe_generation command \<le> pv_dedupe_current p"
  by (auto simp: deduplicate_def split: option.splits if_splits)

lemma deduplicate_Some:
  "deduplicate p command = Inr (Some r) \<longleftrightarrow> c_dedupe_generation command \<le> pv_dedupe_current p \<and>
     (\<exists>row. find_command (pv_store p) (principal_of p) (c_command_id command) = Some row \<and>
        cr_digest row = c_command_digest command \<and> r = replayed (column_value (cr_result row)))"
  by (auto simp: deduplicate_def split: option.splits if_splits)

lemma check_capability_Inr:
  "check_capability p command = Inr () \<longleftrightarrow>
     (c_operation command = ''core-test.subject.put'' \<longrightarrow> capability_status (pv_store p) ''core-test.writes'' = ''supported'')"
  by (simp add: check_capability_def capability_dependency_def Let_def)

lemma check_digest_Inr:
  "check_digest sha params command = Inr () \<longleftrightarrow> command_digest sha params = Inr (c_command_digest command) \<and>
     (\<exists>hex. parse_digest (c_command_digest command) = Inr (Sha256, hex))"
  by (auto simp: check_digest_def rbind_Inr_iff split: sum.splits prod.splits algorithm.splits digest_error.splits
      intent_error.splits if_splits)

lemma admit_command_None:
  "admit_command sha p now params command epoch step = Inr None \<longleftrightarrow>
     check_digest sha params command = Inr () \<and> deduplicate p command = Inr None \<and>
     (\<exists>in_force. authorization p now command step = Inr in_force) \<and> check_capability p command = Inr () \<and>
     check_epoch p command epoch None = Inr () \<and> check_preconditions_hold p command None = Inr ()"
  by (auto simp: admit_command_def rbind_Inr_iff check_epoch_exact check_preconditions_exact split: option.splits)

lemma admit_command_Some:
  "admit_command sha p now params command epoch step = Inr (Some r) \<longleftrightarrow>
     check_digest sha params command = Inr () \<and> deduplicate p command = Inr (Some r)"
  by (auto simp: admit_command_def rbind_Inr_iff split: option.splits)

subsection \<open>Replay\<close>

text \<open>What the part of a handler after admission does when it answers: it commits under the command's identity.\<close>

definition commits_as :: "command \<Rightarrow> (provider \<Rightarrow> handled) \<Rightarrow> bool" where
  "commits_as command f \<longleftrightarrow> (\<forall>p r p1. f p = (Inr r, p1) \<longrightarrow>
     (\<exists>c mk t. cm_principal c = principal_of p \<and> cm_command_id c = c_command_id command \<and>
        cm_digest c = c_command_digest command \<and> commit_command c mk (pv_store p) = Inr (r, t) \<and> p1 = p\<lparr>pv_store := t\<rparr>))"

lemma commits_as_committed:
  assumes "\<And>p. cm_principal (c p) = principal_of p \<and> cm_command_id (c p) = c_command_id command \<and>
    cm_digest (c p) = c_command_digest command"
  shows "commits_as command (\<lambda>p. committed (c p) mk p)"
  unfolding commits_as_def committed_def using assms by (auto split: sum.splits prod.splits)

lemma base_commit_identity [simp]:
  "cm_principal (base_commit p at1 command key v ev) = principal_of p"
  "cm_command_id (base_commit p at1 command key v ev) = c_command_id command"
  "cm_digest (base_commit p at1 command key v ev) = c_command_digest command"
  "cm_key (base_commit p at1 command key v ev) = key"
  "cm_value (base_commit p at1 command key v ev) = v"
  "cm_also (base_commit p at1 command key v ev) = []"
  "cm_effects (base_commit p at1 command key v ev) = []"
  by (simp_all add: base_commit_def)

lemma commits_asI:
  assumes "\<And>p. (\<exists>e p'. f p = (Inl e, p')) \<or> (\<exists>v ev mk. f p = committed (base_commit p at1 command key v ev) mk p)"
  shows "commits_as command f"
  unfolding commits_as_def
proof (intro allI impI)
  fix p r p1
  assume "f p = (Inr r, p1)"
  then obtain v ev mk where "committed (base_commit p at1 command key v ev) mk p = (Inr r, p1)"
    using assms [of p] by auto
  then show "\<exists>c mk t. cm_principal c = principal_of p \<and> cm_command_id c = c_command_id command \<and>
      cm_digest c = c_command_digest command \<and> commit_command c mk (pv_store p) = Inr (r, t) \<and> p1 = p\<lparr>pv_store := t\<rparr>"
    by (intro exI [of _ "base_commit p at1 command key v ev"] exI [of _ mk]) (auto simp: committed_def split: sum.splits)
qed

lemma commits_as_error: "commits_as command (\<lambda>p. (Inl (e p), p))"
  by (simp add: commits_as_def)

lemma principal_of_store [simp]: "principal_of (p\<lparr>pv_store := t\<rparr>) = principal_of p"
  by (simp add: principal_of_def)

lemma column_value_written:
  "in_domain v \<Longrightarrow> nesting v \<le> 128 \<Longrightarrow> column_value (to_canonical v) = sorted_members v"
  using parse_to_canonical [of v 128] by (simp add: column_value_def stored_value_def parse_def DEFAULT_MAX_DEPTH_def or_else_def)

text \<open>A command that was applied is bound in the state it leaves.\<close>

definition applied_by :: "command \<Rightarrow> provider \<Rightarrow> jvalue \<Rightarrow> provider \<Rightarrow> bool" where
  "applied_by command p r p1 \<longleftrightarrow>
     (\<exists>t row. p1 = p\<lparr>pv_store := t\<rparr> \<and> find_command t (principal_of p) (c_command_id command) = Some row \<and>
        cr_digest row = c_command_digest command \<and> cr_result row = to_canonical r) \<and>
     c_dedupe_generation command \<le> pv_dedupe_current p"

lemma admitted_applied:
  assumes "commits_as command f" "admitted sha now params command epoch step f p = (Inr r, p1)"
    "find_command (pv_store p) (principal_of p) (c_command_id command) = None"
  shows "applied_by command p r p1 \<and> check_digest sha params command = Inr ()"
proof -
  have none: "admit_command sha p now params command epoch step = Inr None" and f: "f p = (Inr r, p1)"
    using assms(2,3) by (auto simp: admitted_def admit_command_Some deduplicate_Some split: sum.splits option.splits)
  obtain c mk t where c: "cm_principal c = principal_of p" "cm_command_id c = c_command_id command"
      "cm_digest c = c_command_digest command" "commit_command c mk (pv_store p) = Inr (r, t)" "p1 = p\<lparr>pv_store := t\<rparr>"
    using assms(1) f unfolding commits_as_def by blast
  show ?thesis using commit_command_bound(2) [OF c(4)] c none
    by (auto simp: applied_by_def admit_command_None deduplicate_None)
qed

lemma applied_replays:
  assumes "applied_by command p r p1" "check_digest sha params command = Inr ()" "in_domain r" "nesting r \<le> 128"
  shows "admitted sha now params command epoch step f p1 = (Inr (replayed (sorted_members r)), p1)"
proof -
  have "admit_command sha p1 now params command epoch step = Inr (Some (replayed (sorted_members r)))"
    using assms by (auto simp: applied_by_def admit_command_Some deduplicate_Some column_value_written)
  then show ?thesis by (simp add: admitted_def)
qed

lemma applied_conflicts:
  assumes "applied_by command p r p1" "check_digest sha params other = Inr ()"
    "c_command_id other = c_command_id command" "c_command_digest other \<noteq> c_command_digest command"
    "c_dedupe_generation other \<le> pv_dedupe_current p"
  shows "admitted sha now params other epoch step f p1 = (Inl (idempotency_conflict (c_command_id command)), p1)"
proof -
  have "deduplicate p1 other = Inl (idempotency_conflict (c_command_id command))"
    using assms by (auto simp: applied_by_def deduplicate_def)
  then show ?thesis using assms(2) by (simp add: admitted_def admit_command_def)
qed


text \<open>A handler that refuses on the command alone before it admits it.\<close>

definition replays :: "hasher \<Rightarrow> jvalue \<Rightarrow> command \<Rightarrow> (string \<Rightarrow> string \<Rightarrow> provider \<Rightarrow> handled) \<Rightarrow> bool" where
  "replays sha params command h \<longleftrightarrow> (\<forall>now at1 p r p1. h now at1 p = (Inr r, p1) \<longrightarrow>
     find_command (pv_store p) (principal_of p) (c_command_id command) = None \<longrightarrow>
     applied_by command p r p1 \<and> check_digest sha params command = Inr () \<and>
     (in_domain r \<longrightarrow> nesting r \<le> 128 \<longrightarrow> (\<forall>now' at2. h now' at2 p1 = (Inr (replayed (sorted_members r)), p1))))"

lemma replays_admitted:
  assumes "\<And>at1. commits_as command (f at1)"
  shows "replays sha params command (\<lambda>now at1. admitted sha now params command epoch step (f at1))"
  unfolding replays_def using admitted_applied [OF assms] applied_replays by blast

lemma commits_as_case_option:
  "(\<And>x. commits_as command (f x)) \<Longrightarrow> commits_as command (\<lambda>p. case v of None \<Rightarrow> (Inl (e p), p) | Some x \<Rightarrow> f x p)"
  by (cases v) (simp_all add: commits_as_error)

lemma subject_put_replays: "replays sha params command (\<lambda>now at1. subject_put sha now at1 params command)"
  unfolding subject_put_def
  by (intro replays_admitted commits_as_case_option commits_as_committed) simp

lemma authority_claim_replays: "replays sha params command (\<lambda>now at1. authority_claim sha now at1 params command)"
  unfolding authority_claim_def by (intro replays_admitted commits_as_committed) simp

text \<open>A handler that refuses, or goes on, on what no transaction changes.\<close>

lemma replays_guarded:
  assumes "\<And>p. (\<exists>e. \<forall>now at1. h now at1 p = (Inl e, p)) \<or>
      (\<exists>k. replays sha params command k \<and> (\<forall>now at1 t. h now at1 (p\<lparr>pv_store := t\<rparr>) = k now at1 (p\<lparr>pv_store := t\<rparr>)))"
  shows "replays sha params command h"
  unfolding replays_def
proof (intro allI impI)
  fix now at1 p r p1
  assume h: "h now at1 p = (Inr r, p1)" and new: "find_command (pv_store p) (principal_of p) (c_command_id command) = None"
  obtain k where k: "replays sha params command k"
      and same: "\<forall>now at1 t. h now at1 (p\<lparr>pv_store := t\<rparr>) = k now at1 (p\<lparr>pv_store := t\<rparr>)"
    using assms [of p] h by auto
  have "h now at1 p = k now at1 p" using same [rule_format, of now at1 "pv_store p"] by simp
  then have "k now at1 p = (Inr r, p1)" using h by simp
  with k new have a: "applied_by command p r p1" "check_digest sha params command = Inr ()"
     "in_domain r \<longrightarrow> nesting r \<le> 128 \<longrightarrow> (\<forall>now' at2. k now' at2 p1 = (Inr (replayed (sorted_members r)), p1))"
    unfolding replays_def by blast+
  moreover obtain t where "p1 = p\<lparr>pv_store := t\<rparr>" using a(1) by (auto simp: applied_by_def)
  ultimately show "applied_by command p r p1 \<and> check_digest sha params command = Inr () \<and>
     (in_domain r \<longrightarrow> nesting r \<le> 128 \<longrightarrow> (\<forall>now' at2. h now' at2 p1 = (Inr (replayed (sorted_members r)), p1)))"
    using same by auto
qed

lemma store_frame [simp]:
  "selected_feature (p\<lparr>pv_store := t\<rparr>) f = selected_feature p f" "pv_config (p\<lparr>pv_store := t\<rparr>) = pv_config p"
  by (simp_all add: selected_feature_def)

lemma grant_issue_replays: "replays sha params command (\<lambda>now at1. grant_issue sha now at1 params command)"
proof (rule replays_guarded)
  fix p
  let ?k = "\<lambda>grant now at1. admitted sha now params command Unchecked (Issue grant) (\<lambda>p.
     committed (base_commit p at1 command (grant_key (g_id grant)) (to_canonical (grant_value grant))
       (Some \<lparr>ne_type = ''core.grant.issued'', ne_payload = (\<lambda>_. Object [(''grant'', grant_value grant)]),
              ne_caused_by = c_caused_by command\<rparr>))
      (\<lambda>revision operation_ref. accepted_for command revision operation_ref (Object [(''grant'', grant_value grant)])) p)"
  have k: "replays sha params command (?k grant)" for grant
    by (intro replays_admitted commits_as_committed) simp
  show "(\<exists>e. \<forall>now at1. grant_issue sha now at1 params command p = (Inl e, p)) \<or>
      (\<exists>k. replays sha params command k \<and>
         (\<forall>now at1 t. grant_issue sha now at1 params command (p\<lparr>pv_store := t\<rparr>) = k now at1 (p\<lparr>pv_store := t\<rparr>)))"
  proof (cases "rbind (grant_subject command 0) (\<lambda>i. parse_issue i (principal_of p) (c_payload command))")
    case (Inr grant)
    then show ?thesis
      using k [of grant] unfolding grant_issue_def
      by (cases "g_constraints grant \<noteq> [] \<and> \<not> selected_feature p ''evidence.work_binding''") (auto intro!: exI [of _ "?k grant"])
  qed (simp add: grant_issue_def)
qed

lemma commits_as_case_sum:
  "(\<And>x. commits_as command (f x)) \<Longrightarrow> commits_as command (\<lambda>p. case v p of Inl e \<Rightarrow> (Inl (g e), p) | Inr x \<Rightarrow> f x p)"
  by (auto simp: commits_as_def split: sum.splits)

lemma grant_revoke_replays: "replays sha params command (\<lambda>now at1. grant_revoke sha now at1 params command)"
proof (cases "grant_subject command 1")
  case (Inl e)
  then show ?thesis by (simp add: grant_revoke_def replays_def)
next
  case (Inr i)
  let ?c = "\<lambda>at1 grant children p. (base_commit p at1 command (grant_key i) (to_canonical (grant_value (grant\<lparr>g_revoked := True\<rparr>)))
      (Some (revoked_event (c_caused_by command))))\<lparr>cm_also := map (revoke_child command) children\<rparr>"
  have "commits_as command (\<lambda>p. case x of (grant, children) \<Rightarrow> committed (?c at1 grant children p) (mk children) p)"
    for x at1 mk
    unfolding split_beta by (rule commits_as_committed) (simp add: base_commit_def)
  then show ?thesis unfolding grant_revoke_def Inr sum.case
    by (intro replays_admitted commits_as_case_sum)
qed

lemma effects_abort_replays: "replays sha params command (\<lambda>now at1. effects_abort sha now at1 params command)"
proof (rule replays_guarded)
  fix p
  let ?ok = "selected_feature p ''core.effects'' \<and> one_precondition command EFFECT_KIND"
  let ?key = "key_of (c_subject command)"
  let ?f = "\<lambda>obligation at1 p.
     case effect (pv_store p) (sk_id ?key) of
       Inl e \<Rightarrow> (Inl e, p)
     | Inr None \<Rightarrow> (Inl not_found, p)
     | Inr (Some (_, rec)) \<Rightarrow>
         if \<not> obligation_waiting rec obligation then (Inl not_found, p)
         else
           (let rec1 = abort_obligation obligation rec;
                payload = obligation_payload (sk_id ?key) obligation (descriptor_target rec1)
            in committed (base_commit p at1 command ?key (to_canonical rec1)
                   (Some \<lparr>ne_type = ''core.effect.obligation.aborted'', ne_payload = (\<lambda>_. payload),
                          ne_caused_by = c_caused_by command\<rparr>))
                 (\<lambda>revision operation_ref. accepted_for command revision operation_ref
                    (Object [(''effect'', String (sk_id ?key)),
                       (''obligation'', Object [(''id'', String obligation), (''state'', String ''aborted'')]),
                       (''status'', String (effect_status rec1))])) p)"
  have k: "replays sha params command (\<lambda>now at1. admitted sha now params command Unchecked Abort (?f obligation at1))"
    for obligation
  proof (rule replays_admitted, rule commits_asI)
    fix at1 p
    show "(\<exists>e p'. ?f obligation at1 p = (Inl e, p')) \<or> (\<exists>v ev mk. ?f obligation at1 p = committed (base_commit p at1 command ?key v ev) mk p)"
      unfolding Let_def by (auto split: sum.split option.split prod.split) (erule allE, erule allE, erule allE, erule notE, rule refl)
  qed
  show "(\<exists>e. \<forall>now at1. effects_abort sha now at1 params command p = (Inl e, p)) \<or>
      (\<exists>k. replays sha params command k \<and>
         (\<forall>now at1 t. effects_abort sha now at1 params command (p\<lparr>pv_store := t\<rparr>) = k now at1 (p\<lparr>pv_store := t\<rparr>)))"
  proof (cases "?ok \<and> (\<exists>obligation. member_str (c_payload command) ''obligation'' = Some obligation \<and> is_identifier obligation)")
    case True
    then obtain obligation where o: "member_str (c_payload command) ''obligation'' = Some obligation" "is_identifier obligation"
      by blast
    have "effects_abort sha now at1 params command (p\<lparr>pv_store := t\<rparr>) =
       admitted sha now params command Unchecked Abort (?f obligation at1) (p\<lparr>pv_store := t\<rparr>)" for now at1 t
      using True o unfolding effects_abort_def Let_def by simp
    then show ?thesis using k [of obligation] by blast
  qed (auto simp: effects_abort_def Let_def split: option.splits)
qed

lemma core_command_replays: "replays sha params command (\<lambda>now at1. core_command sha now at1 method params command)"
proof -
  have "replays sha params command (\<lambda>now at1 p. (Inl (method_not_found method), p))" by (simp add: replays_def)
  then show ?thesis
    unfolding core_command_def
    using subject_put_replays authority_claim_replays grant_issue_replays grant_revoke_replays effects_abort_replays
    by (cases "method = ''core-test.subject.put''"; cases "method = ''core-test.authority.claim''";
        cases "method = ''core.grant.issue''"; cases "method = ''core.grant.revoke''";
        cases "method = ''core.effects.abort_obligation''") simp_all
qed


subsection \<open>What a refused caller learns\<close>

text \<open>The parts of the state that authorization by rights reads.\<close>

definition same_authority :: "command \<Rightarrow> provider \<Rightarrow> provider \<Rightarrow> bool" where
  "same_authority command p q \<longleftrightarrow> pv_config q = pv_config p \<and> pv_dedupe_current q = pv_dedupe_current p \<and>
     pv_dedupe_oldest q = pv_dedupe_oldest p \<and> tb_commands (pv_store q) = tb_commands (pv_store p) \<and>
     (\<forall>i. c_grant command = Some i \<longrightarrow> subject (pv_store q) (grant_key i) = subject (pv_store p) (grant_key i)) \<and>
     (\<forall>scope \<in> set KNOWN_SCOPES. authority_epoch_of (pv_store q) scope = authority_epoch_of (pv_store p) scope)"

lemma same_authority_authorize:
  assumes "same_authority command p q"
  shows "authorize q now (c_grant command) needs = authorize p now (c_grant command) needs"
proof -
  have ctx: "authority_context q now = authority_context p now"
    using assms by (simp add: same_authority_def authority_context_def)
  have same: "principal_of q = principal_of p" "pv_config q = pv_config p"
    using assms by (simp_all add: same_authority_def principal_of_def)
  have "grant_at (pv_store q) i = grant_at (pv_store p) i" if "c_grant command = Some i" for i
    using assms that by (simp add: same_authority_def grant_at_def)
  then show ?thesis unfolding authorize_def authority_only_def held_grant_def ctx same
    by (cases "c_grant command") simp_all
qed

lemma same_authority_deduplicate:
  assumes "same_authority command p q"
  shows "deduplicate q command = deduplicate p command"
proof -
  have e: "pv_dedupe_current q = pv_dedupe_current p" "pv_dedupe_oldest q = pv_dedupe_oldest p"
    "tb_commands (pv_store q) = tb_commands (pv_store p)" "pv_config q = pv_config p"
    using assms by (simp_all add: same_authority_def)
  show ?thesis unfolding deduplicate_def find_command_def principal_of_def e ..
qed

lemma admit_denied:
  assumes "authorize p now (c_grant command) needs = Inl e" "same_authority command p q"
  shows "admit_command sha q now params command epoch (Rights needs) = admit_command sha p now params command epoch (Rights needs)"
proof -
  have "authorize q now (c_grant command) needs = Inl e" using assms same_authority_authorize by metis
  then show ?thesis using assms(1) same_authority_deduplicate [OF assms(2)]
    by (cases "check_digest sha params command"; cases "deduplicate p command") (auto simp: admit_command_def split: option.splits)
qed

subsection \<open>What a delegating caller learns\<close>

text \<open>
  A grant issued under a parent is authorized without a grant in force, and the code takes that for an
  authority: a caller that is none is shown the current revision of a grant it may not read.
\<close>

lemma delegated_issue_discloses:
  assumes "check_digest sha params command = Inr ()" "deduplicate p command = Inr None"
    "authorization p now command (Issue g) = Inr in_force" "check_capability p command = Inr ()"
    "c_preconditions command = [(c_subject command, 0)]" "revision_of (pv_store p) (key_of (c_subject command)) = n" "n \<noteq> 0"
  shows "admit_command sha p now params command Unchecked (Issue g) =
    Inl (precondition_failed (Array [Object [(''subject'', c_subject command), (''expected'', Integer 0), (''current'', Integer n)]]))"
proof -
  have none: "in_force = None"
    using assms(3) by (auto simp: authorize_issue_def rbind_Inr_iff split: if_splits option.splits)
  have "check_epoch p command Unchecked in_force = Inr ()" by (simp add: check_epoch_exact)
  then show ?thesis using assms none
    by (simp add: admit_command_def check_preconditions_hold_def failed_precondition_def provider_may_read_def Let_def)
qed

subsection \<open>An example\<close>

definition example_sha :: hasher where
  "example_sha = (\<lambda>_. replicate 32 (CHR 0x00))"

definition example_provider :: "tables \<Rightarrow> provider" where
  "example_provider =
     example_session (default_config\<lparr>cf_mode := Conformance, cf_principal := ''o'', cf_authority_principals := [''o'']\<rparr>)"

definition example_reference :: "string \<Rightarrow> string \<Rightarrow> jvalue" where
  "example_reference knd i = Object [(''kind'', String knd), (''id'', String i)]"

definition example_sent :: "string \<Rightarrow> jvalue \<Rightarrow> int \<Rightarrow> command" where
  "example_sent operation sub revision =
     \<lparr>c_operation = operation, c_command_id = ''c1'', c_dedupe_generation = 1, c_subject = sub,
      c_preconditions = [(sub, revision)], c_authority_epoch = None, c_requires = [],
      c_command_digest = ''sha256:'' @ replicate 64 (CHR ''0''), c_payload = Object [], c_grant = None, c_caused_by = []\<rparr>"

lemma example_digest_checked: "check_digest example_sha (example_command []) (example_sent operation sub revision) = Inr ()"
proof -
  have zero: "hex_digit 0 = CHR ''0''" by code_simp
  have "concat (map hex_byte (replicate n (CHR 0x00))) = replicate (2 * n) (CHR ''0'')" for n
    by (induction n) (simp_all add: hex_byte_def zero)
  from this [of 32] have digest: "command_digest example_sha (example_command []) = Inr (''sha256:'' @ replicate 64 (CHR ''0''))"
    by (simp add: command_digest_def command_intent_def example_command_def INTENT_MEMBERS_def declared_extensions_def
        required_entries_def digest_canonical_def digest_bytes_def sha256_hex_def example_sha_def)
  have "list_all is_hex (replicate 64 (CHR ''0''))" by (simp add: list_all_iff is_hex_def is_ascii_digit_def)
  then have "parse_digest (''sha256:'' @ replicate 64 (CHR ''0'')) = Inr (Sha256, replicate 64 (CHR ''0''))"
    by (simp only: parse_digest_Inr_iff algorithm_name.simps append.simps hex_length.simps length_replicate)
  then show ?thesis using digest by (simp add: check_digest_Inr example_sent_def)
qed

definition example_claiming :: command where
  "example_claiming = example_sent ''core-test.authority.claim'' (example_reference ''core-test.authority'' ''core-test'') 0"

lemma example_let_through:
  "admit_command example_sha (example_provider empty_tables) ''now'' (example_command []) example_claiming Unchecked
     (Rights (command_needs example_claiming)) = Inr None"
  using example_digest_checked [of "''core-test.authority.claim''"]
  by (simp add: admit_command_None example_claiming_def deduplicate_None check_capability_Inr check_epoch_exact check_preconditions_exact)
    (simp add: example_sent_def example_provider_def example_session_def find_command_def empty_tables_def authorize_def authority_only_def
      principal_of_def is_authority_def revision_of_def subject_def)

lemma text_ok_literal: "list_all (\<lambda>b. bval b < 0x80) s \<Longrightarrow> text_ok s"
  by (rule text_ok_ascii) (simp add: list_all_iff)

lemma example_fields [simp]:
  "pv_store (example_provider t) = t" "principal_of (example_provider t) = ''o''" "pv_dedupe_current (example_provider t) = 1"
  by (simp_all add: example_provider_def example_session_def principal_of_def)

lemma example_claims:
  "\<exists>r p1. core_command example_sha ''now'' ''now'' ''core-test.authority.claim'' (example_command []) example_claiming
      (example_provider empty_tables) = (Inr r, p1) \<and> in_domain r \<and> nesting r \<le> 128"
proof -
  let ?c = "base_commit (example_provider empty_tables) ''now'' example_claiming (authority_key ''core-test'') []
      (Some \<lparr>ne_type = ''core-test.authority.claimed'', ne_payload = (\<lambda>epoch. Object [(''epoch'', Integer epoch)]),
             ne_caused_by = c_caused_by example_claiming\<rparr>)"
  let ?mk = "\<lambda>epoch operation_ref. accepted_for example_claiming epoch operation_ref (Object [(''epoch'', Integer epoch)])"
  have one: "dec_digits (Suc 0) = ''1''" by code_simp
  have "\<exists>t. commit_command ?c ?mk empty_tables = Inr (?mk 1 ''op-1'', t)"
    by (simp add: base_commit_def
      commit_command_def empty_tables_def raise_subject_def subject_def
      put_subject_def next_operation_def meta_def set_meta_def or_else_def append_event_def insert_event_def
      insert_claim_revision_def insert_command_def find_command_def Let_def operation_ref_of_def int_text_def one)
  then obtain t where "commit_command ?c ?mk empty_tables = Inr (?mk 1 ''op-1'', t)" by blast
  then have "core_command example_sha ''now'' ''now'' ''core-test.authority.claim'' (example_command []) example_claiming
      (example_provider empty_tables) = (Inr (?mk 1 ''op-1''), (example_provider empty_tables)\<lparr>pv_store := t\<rparr>)"
    using example_let_through by (simp add: core_command_def authority_claim_def admitted_def committed_def)
  moreover have "in_domain (?mk 1 ''op-1'')" "nesting (?mk 1 ''op-1'') \<le> 128"
    by (simp_all add: accepted_for_def accepted_def example_claiming_def example_sent_def example_reference_def text_ok_literal
      MAX_SAFE_INTEGER_def list_all_iff nesting.simps)
  ultimately show ?thesis by blast
qed

subsection \<open>Properties\<close>



text \<open>
  C6. A command is let through exactly when its digest is the digest of its intent, its identity
  is unbound, its generation is within the window, the step for its operation authorizes it, the
  capability it depends on is supported, the authority epoch it carries is the current one where
  one is checked, it states a precondition on its own subject, and every precondition's revision
  is current.
\<close>

theorem admitted_commands_are_authorized:
  "admit_command sha p now params command epoch step = Inr None \<longleftrightarrow>
     command_digest sha params = Inr (c_command_digest command) \<and>
     (\<exists>hex. parse_digest (c_command_digest command) = Inr (Sha256, hex)) \<and>
     find_command (pv_store p) (principal_of p) (c_command_id command) = None \<and>
     pv_dedupe_oldest p \<le> c_dedupe_generation command \<and> c_dedupe_generation command \<le> pv_dedupe_current p \<and>
     (\<exists>in_force. authorization p now command step = Inr in_force) \<and>
     (c_operation command = ''core-test.subject.put'' \<longrightarrow> capability_status (pv_store p) ''core-test.writes'' = ''supported'') \<and>
     (\<forall>current key must. epoch_checked p epoch = Some (current, key, must) \<longrightarrow> c_authority_epoch command = Some current) \<and>
     c_subject command \<in> fst ` set (c_preconditions command) \<and>
     (\<forall>(sub, expected) \<in> set (c_preconditions command). revision_of (pv_store p) (key_of sub) = expected)"
  unfolding admit_command_None check_digest_Inr deduplicate_None check_capability_Inr check_epoch_exact
    check_preconditions_exact by (simp only: conj_assoc)

lemma admitted_commands_are_authorized_witness:
  "command_digest example_sha (example_command []) = Inr (c_command_digest example_claiming) \<and>
   find_command empty_tables ''o'' (c_command_id example_claiming) = None"
  using example_let_through unfolding admitted_commands_are_authorized by simp

text \<open>
  C32. A command whose rights are refused is answered the same whatever the store holds beyond the
  command table, the grant the caller named and the authority epochs: a refusal says nothing of
  any subject, not even whether it exists.
\<close>

theorem denied_learns_nothing:
  assumes "authorize p now (c_grant command) needs = Inl e"
    and "pv_config q = pv_config p" "pv_dedupe_current q = pv_dedupe_current p" "pv_dedupe_oldest q = pv_dedupe_oldest p"
    and "tb_commands (pv_store q) = tb_commands (pv_store p)"
    and "\<forall>i. c_grant command = Some i \<longrightarrow> subject (pv_store q) (grant_key i) = subject (pv_store p) (grant_key i)"
    and "\<forall>scope \<in> set KNOWN_SCOPES. authority_epoch_of (pv_store q) scope = authority_epoch_of (pv_store p) scope"
  shows "admit_command sha q now params command epoch (Rights needs) = admit_command sha p now params command epoch (Rights needs)"
  by (rule admit_denied [OF assms(1)]) (simp add: same_authority_def assms(2-7))

lemma denied_learns_nothing_witness:
  "admit_command example_sha (example_provider (put_subject \<lparr>sk_kind = ''k'', sk_id = ''s''\<rparr> \<lparr>su_revision = 1, su_value = ''v'', su_applied = 1\<rparr> empty_tables))
       ''now'' (example_command []) (example_claiming\<lparr>c_grant := Some ''g''\<rparr>) Unchecked (Rights []) =
   admit_command example_sha (example_provider empty_tables) ''now'' (example_command []) (example_claiming\<lparr>c_grant := Some ''g''\<rparr>)
     Unchecked (Rights [])"
  by (rule denied_learns_nothing [where e = "denial_error GrantNotFound"])
    (auto simp: authorize_def held_grant_def grant_at_def empty_tables_def put_subject_def subject_def grant_key_def GRANT_KIND_def
      authority_epoch_of_def revision_of_def authority_key_def example_provider_def example_session_def)

end
