(* ===== verification/Revocation.thy ===== *)
theory Revocation
  imports Command_Path
begin

text \<open>
  Revoking a grant reaches every grant issued under it, however many delegations down: the walk of
  \<open>active_descendants\<close> finds exactly them, in as many rounds as there are grants, and the transaction
  records each of them as revoked.
\<close>

subsection \<open>The walk\<close>

inductive descends :: "grant list \<Rightarrow> string \<Rightarrow> string \<Rightarrow> bool" for all root where
  descends_child: "g \<in> set all \<Longrightarrow> g_parent g = Some root \<Longrightarrow> descends all root (g_id g)"
| descends_step: "descends all root i \<Longrightarrow> g \<in> set all \<Longrightarrow> g_parent g = Some i \<Longrightarrow> descends all root (g_id g)"

definition ids :: "grant list \<Rightarrow> string set" where
  "ids all = g_id ` set all"

text \<open>One round over some of the grants.\<close>

lemma visit_fold:
  "distinct (map g_id gs) \<Longrightarrow>
   set (wk_seen (fold (visit F) gs w)) = set (wk_seen w) \<union> {g_id g |g. g \<in> set gs \<and> g_parent g \<in> Some ` set F} \<and>
   set (wk_next (fold (visit F) gs w)) =
     set (wk_next w) \<union> ({g_id g |g. g \<in> set gs \<and> g_parent g \<in> Some ` set F} - set (wk_seen w)) \<and>
   set (wk_active (fold (visit F) gs w)) =
     set (wk_active w) \<union> {g. g \<in> set gs \<and> g_parent g \<in> Some ` set F \<and> g_id g \<notin> set (wk_seen w) \<and> \<not> g_revoked g}"
proof (induction gs arbitrary: w)
  case (Cons g gs)
  have new: "\<forall>h \<in> set gs. g_id h \<noteq> g_id g" using Cons.prems by simp (metis image_eqI)
  have IH: "set (wk_seen (fold (visit F) gs w)) = set (wk_seen w) \<union> {g_id g |g. g \<in> set gs \<and> g_parent g \<in> Some ` set F}"
    "set (wk_next (fold (visit F) gs w)) =
       set (wk_next w) \<union> ({g_id g |g. g \<in> set gs \<and> g_parent g \<in> Some ` set F} - set (wk_seen w))"
    "set (wk_active (fold (visit F) gs w)) =
       set (wk_active w) \<union> {g. g \<in> set gs \<and> g_parent g \<in> Some ` set F \<and> g_id g \<notin> set (wk_seen w) \<and> \<not> g_revoked g}" for w
    using Cons by simp_all
  consider "g_parent g = None" | p where "g_parent g = Some p" "p \<in> set F" "g_id g \<notin> set (wk_seen w)"
    | p where "g_parent g = Some p" "p \<in> set F" "g_id g \<in> set (wk_seen w)" | p where "g_parent g = Some p" "p \<notin> set F"
    by (cases "g_parent g") auto
  then show ?case
  proof cases
    case 1
    then have v: "visit F g w = w" by (simp add: visit_def)
    show ?thesis using 1 by (auto simp: IH v)
  next
    case 2
    then have v: "visit F g w = w\<lparr>wk_seen := g_id g # wk_seen w, wk_next := wk_next w @ [g_id g],
        wk_active := wk_active w @ (if g_revoked g then [] else [g])\<rparr>" by (simp add: visit_def)
    show ?thesis using 2 new by (auto simp: IH v)
  next
    case 3
    then have v: "visit F g w = w" by (simp add: visit_def)
    show ?thesis using 3 new by (auto simp: IH v)
  next
    case 4
    then have v: "visit F g w = w" by (simp add: visit_def)
    show ?thesis using 4 by (auto simp: IH v)
  qed
qed simp

definition walk_ok :: "grant list \<Rightarrow> string \<Rightarrow> walk \<Rightarrow> bool" where
  "walk_ok all root w \<longleftrightarrow> root \<in> set (wk_seen w) \<and> set (wk_next w) \<subseteq> set (wk_seen w) \<and>
     (\<forall>i \<in> set (wk_seen w). i = root \<or> descends all root i) \<and>
     (\<forall>g \<in> set all. \<forall>i. g_parent g = Some i \<longrightarrow> i \<in> set (wk_seen w) \<longrightarrow> i \<notin> set (wk_next w) \<longrightarrow> g_id g \<in> set (wk_seen w)) \<and>
     set (wk_active w) = {g \<in> set all. g_id g \<in> set (wk_seen w) \<and> g_id g \<noteq> root \<and> \<not> g_revoked g}"

lemma walk_round:
  assumes "distinct (map g_id all)" "walk_ok all root w"
  defines "w' \<equiv> fold (visit (wk_next w)) all (w\<lparr>wk_next := []\<rparr>)"
  shows "walk_ok all root w'" "set (wk_seen w) \<union> set (wk_next w') = set (wk_seen w')" "set (wk_next w') \<inter> set (wk_seen w) = {}"
    "set (wk_next w') \<subseteq> ids all"
proof -
  let ?new = "{g_id g |g. g \<in> set all \<and> g_parent g \<in> Some ` set (wk_next w)}"
  note f = visit_fold [OF assms(1), of "wk_next w" "w\<lparr>wk_next := []\<rparr>"]
  have s: "set (wk_seen w') = set (wk_seen w) \<union> ?new" "set (wk_next w') = ?new - set (wk_seen w)"
    "set (wk_active w') = set (wk_active w) \<union>
       {g. g \<in> set all \<and> g_parent g \<in> Some ` set (wk_next w) \<and> g_id g \<notin> set (wk_seen w) \<and> \<not> g_revoked g}"
    using f by (simp_all add: w'_def)
  note ok = assms(2) [unfolded walk_ok_def]
  have root: "root \<in> set (wk_seen w)" and nxt: "set (wk_next w) \<subseteq> set (wk_seen w)"
    and desc: "\<forall>i \<in> set (wk_seen w). i = root \<or> descends all root i"
    and closed: "\<forall>g \<in> set all. \<forall>i. g_parent g = Some i \<longrightarrow> i \<in> set (wk_seen w) \<longrightarrow> i \<notin> set (wk_next w) \<longrightarrow> g_id g \<in> set (wk_seen w)"
    and act: "set (wk_active w) = {g \<in> set all. g_id g \<in> set (wk_seen w) \<and> g_id g \<noteq> root \<and> \<not> g_revoked g}"
    using ok by blast+
  have new_desc: "descends all root i" if "i \<in> ?new" for i
  proof -
    from that obtain g where "i = g_id g" "g \<in> set all" "g_parent g \<in> Some ` set (wk_next w)" by blast
    then obtain j where g: "i = g_id g" "g \<in> set all" "g_parent g = Some j" "j \<in> set (wk_next w)" by blast
    then have "j = root \<or> descends all root j" using desc nxt by blast
    then show ?thesis using g descends_child descends_step by metis
  qed
  have uniq: "g = h" if "g \<in> set all" "h \<in> set all" "g_id g = g_id h" for g h
    using assms(1) that by (metis distinct_map inj_on_eq_iff)
  have closed': "\<forall>g \<in> set all. \<forall>i. g_parent g = Some i \<longrightarrow> i \<in> set (wk_seen w') \<longrightarrow> i \<notin> set (wk_next w') \<longrightarrow> g_id g \<in> set (wk_seen w')"
  proof (intro ballI allI impI)
    fix g i
    assume a: "g \<in> set all" "g_parent g = Some i" "i \<in> set (wk_seen w')" "i \<notin> set (wk_next w')"
    then have "i \<in> set (wk_seen w)" using s by blast
    then show "g_id g \<in> set (wk_seen w')"
      using a closed s(1) by (cases "i \<in> set (wk_next w)") auto
  qed
  have act': "set (wk_active w') = {g \<in> set all. g_id g \<in> set (wk_seen w') \<and> g_id g \<noteq> root \<and> \<not> g_revoked g}"
    unfolding s(1,3) act using root uniq by fastforce
  show "walk_ok all root w'"
    unfolding walk_ok_def using closed' act' root desc new_desc by (simp add: s(1,2)) blast
  show "set (wk_seen w) \<union> set (wk_next w') = set (wk_seen w')" "set (wk_next w') \<inter> set (wk_seen w) = {}" using s by auto
  show "set (wk_next w') \<subseteq> ids all" using s by (auto simp: ids_def)
qed

lemma walk_rounds_ok:
  assumes "distinct (map g_id all)"
  shows "walk_ok all root w \<Longrightarrow> card (ids all - set (wk_seen w)) < n \<Longrightarrow>
    walk_ok all root (walk_rounds n all w) \<and> wk_next (walk_rounds n all w) = []"
proof (induction n arbitrary: w)
  case (Suc n)
  show ?case
  proof (cases "wk_next w = []")
    case False
    let ?w = "fold (visit (wk_next w)) all (w\<lparr>wk_next := []\<rparr>)"
    note r = walk_round [OF assms Suc.prems(1)]
    show ?thesis
    proof (cases "wk_next ?w = []")
      case True
      then show ?thesis using False r(1) by (cases n) simp_all
    next
      case more: False
      then obtain i where i: "i \<in> set (wk_next ?w)" by (cases "wk_next ?w") auto
      then have "ids all - set (wk_seen ?w) \<subset> ids all - set (wk_seen w)" using r(2-4) by blast
      then have "card (ids all - set (wk_seen ?w)) < card (ids all - set (wk_seen w))"
        by (intro psubset_card_mono) (simp_all add: ids_def)
      then show ?thesis using Suc.IH [OF r(1)] Suc.prems(2) False by simp
    qed
  qed (use Suc.prems in simp)
qed simp

lemma descends_seen:
  "descends all root i \<Longrightarrow> walk_ok all root w \<Longrightarrow> wk_next w = [] \<Longrightarrow> i \<in> set (wk_seen w)"
proof (induction rule: descends.induct)
  case (descends_child g)
  then show ?case unfolding walk_ok_def by auto
next
  case (descends_step i g)
  then show ?case unfolding walk_ok_def by auto
qed

lemma active_descendants_exact:
  assumes "active_descendants t root = Inr gs" "read_grants (map snd (subjects_of_kind t GRANT_KIND)) = Inr all" "distinct (map g_id all)"
  shows "set gs = {g \<in> set all. descends all root (g_id g) \<and> g_id g \<noteq> root \<and> \<not> g_revoked g}"
proof -
  let ?w0 = "\<lparr>wk_next = [root], wk_seen = [root], wk_active = []\<rparr>"
  have "walk_ok all root ?w0" by (auto simp: walk_ok_def)
  moreover have "card (ids all - set (wk_seen ?w0)) < length all + 1"
  proof -
    have "card (ids all - {root}) \<le> card (ids all)" by (intro card_mono) (auto simp: ids_def)
    also have "\<dots> \<le> length all" unfolding ids_def by (metis card_length length_map set_map)
    finally show ?thesis by simp
  qed
  ultimately have w: "walk_ok all root (walk_rounds (length all + 1) all ?w0)" "wk_next (walk_rounds (length all + 1) all ?w0) = []"
    using walk_rounds_ok [OF assms(3)] by blast+
  have gs: "gs = wk_active (walk_rounds (length all + 1) all ?w0)"
    using assms(1,2) by (simp add: active_descendants_def)
  have "i \<in> set (wk_seen (walk_rounds (length all + 1) all ?w0)) \<longleftrightarrow> i = root \<or> descends all root i" for i
    using descends_seen [OF _ w] w(1) unfolding walk_ok_def by blast
  then show ?thesis using w(1) unfolding gs walk_ok_def by auto
qed


subsection \<open>What the transaction records\<close>

definition value_at :: "tables \<Rightarrow> subject_key \<Rightarrow> string option" where
  "value_at t k = map_option su_value (subject t k)"

lemma same_values: "tb_subjects t' = tb_subjects t \<Longrightarrow> value_at t' = value_at t"
  by (simp add: value_at_def subject_def fun_eq_iff)

lemma raise_subject_value: "raise_subject k v t = (n, t') \<Longrightarrow> value_at t' = (value_at t)(k \<mapsto> v)"
  by (auto simp: raise_subject_def Let_def value_at_def subject_put fun_eq_iff split: option.splits)

lemma append_events_value: "append_events c r k n es t = Inr t' \<Longrightarrow> value_at t' = value_at t"
proof (induction c r k n es t rule: append_events.induct)
  case (2 c r k n e es t)
  then obtain u where u: "append_event c r k n e t = Inr u" "append_events c r k n es u = Inr t'"
    by (auto simp: rbind_Inr_iff)
  have "value_at u = value_at t"
    using u(1) by (intro same_values) (auto simp: append_event_def insert_event_def split: if_splits)
  then show ?case using 2(1) [OF u(2)] by simp
qed simp

lemma apply_also_value:
  "apply_also c r chs t = Inr t' \<Longrightarrow> value_at t' = fold (\<lambda>ch m. m(cg_key ch \<mapsto> cg_value ch)) chs (value_at t)"
proof (induction c r chs t rule: apply_also.induct)
  case (2 c r ch chs t)
  obtain n t1 where r: "raise_subject (cg_key ch) (cg_value ch) t = (n, t1)" by fastforce
  then obtain t2 where t2: "append_events c r (cg_key ch) n (case cg_event ch of None \<Rightarrow> [] | Some e \<Rightarrow> [e]) t1 = Inr t2"
    "apply_also c r chs t2 = Inr t'" using 2(2) by (auto simp: rbind_Inr_iff)
  show ?case using 2(1) [OF r [symmetric] refl t2(2)] append_events_value [OF t2(1)] raise_subject_value [OF r] by simp
qed simp

lemma commit_command_value:
  assumes "commit_command c mk t = Inr (res, t')" "cm_effects c = []"
  shows "value_at t' = fold (\<lambda>ch m. m(cg_key ch \<mapsto> cg_value ch)) (cm_also c) ((value_at t)(cm_key c \<mapsto> cm_value c))"
proof -
  obtain n t1 where r: "raise_subject (cm_key c) (cm_value c) t = (n, t1)" by fastforce
  let ?op = "operation_ref_of (next_operation t1)" and ?t2 = "set_meta ''operation_counter'' (next_operation t1) t1"
  obtain t3 t4 t5 t6 row where steps:
    "append_events c ?op (cm_key c) n ((case cm_event c of None \<Rightarrow> [] | Some e \<Rightarrow> [e]) @ cm_more_events c) ?t2 = Inr t3"
    "insert_claim_revision c n t3 = Inr t4" "change_chunks (cm_chunks c) t4 = Inr t5"
    "apply_also c ?op (cm_also c) t5 = Inr t6" "insert_command row t6 = Inr t'"
    using assms r by (auto simp: commit_command_def Let_def rbind_Inr_iff)
  have "value_at ?t2 = value_at t1" by (rule same_values) (simp add: set_meta_def)
  moreover have "value_at t4 = value_at t3"
    using steps(2) by (intro same_values) (auto simp: insert_claim_revision_def split: option.splits if_splits)
  moreover have "value_at t5 = value_at t4"
    using steps(3) by (intro same_values) (cases "cm_chunks c"; auto split: if_splits)
  moreover have "value_at t' = value_at t6" by (rule same_values) (use insert_command_bound(2) [OF steps(5)] in simp)
  ultimately show ?thesis
    using append_events_value [OF steps(1)] apply_also_value [OF steps(4)] raise_subject_value [OF r] by simp
qed

lemma fold_updates:
  "fold (\<lambda>ch m. m(cg_key ch \<mapsto> cg_value ch)) chs m k =
     (case map_of (rev (map (\<lambda>ch. (cg_key ch, cg_value ch)) chs)) k of None \<Rightarrow> m k | Some v \<Rightarrow> Some v)"
  by (induction chs arbitrary: m) (auto simp: map_add_def split: option.splits)

subsection \<open>Reading a recorded grant back\<close>

lemma as_array_sorted: "as_array (sorted_members v) = map_option (map sorted_members) (as_array v)"
  by (cases v) simp_all

lemma array_member_sorted: "in_domain v \<Longrightarrow> array_member (sorted_members v) n = map_option (map sorted_members) (array_member v n)"
  by (auto simp: array_member_def get_sorted_members as_array_sorted split: option.splits)

lemma map_filter_as_str_sorted: "List.map_filter as_str (map sorted_members vs) = List.map_filter as_str vs"
  by (induction vs) (simp_all add: List.map_filter_simps split: option.split)

lemma member_sorted: "in_domain v \<Longrightarrow> member_str (sorted_members v) n = member_str v n"
  by (auto simp: member_str_def get_sorted_members split: option.splits)

lemma array_member_in_domain: "in_domain v \<Longrightarrow> array_member v n = Some ws \<Longrightarrow> w \<in> set ws \<Longrightarrow> in_domain w"
proof -
  assume v: "in_domain v" "array_member v n = Some ws" "w \<in> set ws"
  then obtain x where "get v n = Some x" "as_array x = Some ws" by (auto simp: array_member_def split: option.splits)
  then have "in_domain (Array ws)" using in_domain_get [OF v(1), of n x] by (cases x) simp_all
  then show ?thesis using v(3) by simp
qed

lemma read_resource_sorted: "in_domain v \<Longrightarrow> read_resource (sorted_members v) = read_resource v"
  by (simp add: read_resource_def member_sorted)

lemma get_sorted_scalar:
  "in_domain v \<Longrightarrow> get (sorted_members v) n = Some (Integer i) \<longleftrightarrow> get v n = Some (Integer i)"
  "in_domain v \<Longrightarrow> get (sorted_members v) n = Some (Bool b) \<longleftrightarrow> get v n = Some (Bool b)"
proof -
  have "sorted_members w = Integer i \<longleftrightarrow> w = Integer i" "sorted_members w = Bool b \<longleftrightarrow> w = Bool b" for w
    by (cases w; simp)+
  then show "in_domain v \<Longrightarrow> get (sorted_members v) n = Some (Integer i) \<longleftrightarrow> get v n = Some (Integer i)"
    "in_domain v \<Longrightarrow> get (sorted_members v) n = Some (Bool b) \<longleftrightarrow> get v n = Some (Bool b)"
    by (auto simp: get_sorted_members)
qed

lemma case_Integer: "(case x of Some (Integer i) \<Rightarrow> f i | _ \<Rightarrow> z) = (if \<exists>i. x = Some (Integer i) then f (THE i. x = Some (Integer i)) else z)"
  by (auto split: option.splits jvalue.splits)

lemma read_binding_sorted: "in_domain v \<Longrightarrow> read_binding (sorted_members v) = read_binding v"
  unfolding read_binding_def case_Integer
  by (cases "member_str v ''scope''") (simp_all add: member_sorted get_sorted_scalar)

lemma read_delegation_sorted: "in_domain v \<Longrightarrow> read_delegation (Some (sorted_members v)) = read_delegation (Some v)"
  unfolding read_delegation_def case_Integer by (simp add: get_sorted_scalar)

lemma read_grant_sorted:
  assumes "in_domain v" "read_grant v = Some g"
  shows "read_grant (sorted_members v) = Some (g\<lparr>g_constraints := map sorted_members (g_constraints g)\<rparr>)"
proof -
  have resources: "map (read_resource \<circ> sorted_members) ws = map read_resource ws" if "array_member v ''resources'' = Some ws" for ws
    using array_member_in_domain [OF assms(1) that] by (simp add: read_resource_sorted)
  have binding: "(case get (sorted_members v) ''authority_binding'' of None \<Rightarrow> None | Some b \<Rightarrow> read_binding b) =
      (case get v ''authority_binding'' of None \<Rightarrow> None | Some b \<Rightarrow> read_binding b)"
    using in_domain_get [OF assms(1)] by (simp add: get_sorted_members assms(1) read_binding_sorted split: option.split)
  have delegation: "read_delegation (get (sorted_members v) ''delegation'') = read_delegation (get v ''delegation'')"
    using in_domain_get [OF assms(1)] read_delegation_sorted
    by (cases "get v ''delegation''") (simp_all add: get_sorted_members assms(1))
  show ?thesis using assms(2) resources unfolding read_grant_def binding delegation
    by (auto simp: member_sorted array_member_sorted map_filter_as_str_sorted assms(1) split: option.splits)
qed

lemma revoked_value_ok:
  assumes "in_domain (grant_value g)" "nesting (grant_value g) \<le> 128"
  shows "in_domain (grant_value (g\<lparr>g_revoked := True\<rparr>))" "nesting (grant_value (g\<lparr>g_revoked := True\<rparr>)) \<le> 128"
proof -
  let ?ms = "[(''id'', String (g_id g)), (''issuer'', String (g_issuer g)), (''holder'', String (g_holder g)),
        (''audience'', String (g_audience g)), (''rights'', Array (map String (g_rights g))),
        (''resources'', Array (map resource_value (g_resources g)))]
       @ opt_member ''expires_at'' (map_option String (g_expires_at g))
       @ opt_member ''authority_binding'' (map_option binding_value (g_authority_binding g))
       @ [(''delegation'', delegation_value (g_delegation g))]
       @ opt_member ''parent'' (map_option String (g_parent g))
       @ (if g_constraints g = [] then [] else [(''constraints'', Array (g_constraints g))])"
  obtain ms st where v: "grant_value g = Object (ms @ [(''state'', String st)])"
    and w: "grant_value (g\<lparr>g_revoked := True\<rparr>) = Object (ms @ [(''state'', String ''revoked'')])"
    by (rule that [of ?ms "if g_revoked g then ''revoked'' else ''active''"]) (simp_all add: grant_value_def)
  have "text_ok ''revoked''" by (rule text_ok_ascii) auto
  then show "in_domain (grant_value (g\<lparr>g_revoked := True\<rparr>))" using assms(1) unfolding v w by simp
  have "nesting (Object (ms @ [(''state'', String ''revoked'')])) = nesting (Object (ms @ [(''state'', String st)]))" by (simp add: nesting.simps)
  then show "nesting (grant_value (g\<lparr>g_revoked := True\<rparr>)) \<le> 128" using assms(2) unfolding v w by simp
qed

lemma recorded_revoked:
  assumes "value_at t (grant_key i) = Some (to_canonical (grant_value (g\<lparr>g_revoked := True\<rparr>)))"
    "in_domain (grant_value g)" "nesting (grant_value g) \<le> 128"
  shows "\<exists>g'. grant_at t i = Inr (Some g') \<and> g_revoked g'"
proof -
  let ?v = "grant_value (g\<lparr>g_revoked := True\<rparr>)"
  have v: "in_domain ?v" "nesting ?v \<le> 128" using revoked_value_ok [OF assms(2,3)] by blast+
  obtain g' where g': "read_grant (sorted_members ?v) = Some g'" "g_revoked g'"
    using read_grant_sorted [OF v(1) read_grant_value] by auto
  have "stored_value (to_canonical ?v) = Some (sorted_members ?v)"
    using parse_to_canonical [of ?v 128] v by (simp add: stored_value_def parse_def DEFAULT_MAX_DEPTH_def)
  then show ?thesis using assms(1) g' by (auto simp: grant_at_def value_at_def)
qed


subsection \<open>The revocation\<close>

text \<open>Every grant row holds the record of the grant it is named after.\<close>

definition grants_named :: "tables \<Rightarrow> bool" where
  "grants_named t \<longleftrightarrow> distinct (map fst (tb_subjects t)) \<and>
     (\<forall>(k, s) \<in> set (tb_subjects t). sk_kind k = GRANT_KIND \<longrightarrow>
        (\<exists>g. Option.bind (stored_value (su_value s)) read_grant = Some g \<and> g_id g = sk_id k \<and>
           in_domain (grant_value g) \<and> nesting (grant_value g) \<le> 128))"

lemma read_grants_map:
  "read_grants vs = Inr gs \<longleftrightarrow> map (\<lambda>v. Option.bind (stored_value v) read_grant) vs = map Some gs"
  by (induction vs arbitrary: gs) (auto simp: rbind_Inr_iff ok_or_Inr_iff Cons_eq_map_conv)

definition grant_rows :: "tables \<Rightarrow> (subject_key \<times> subject_state) list" where
  "grant_rows t = sort_key (\<lambda>(k, s). sk_id k) (filter (\<lambda>(k, s). sk_kind k = GRANT_KIND) (tb_subjects t))"

lemma subjects_of_kind_rows: "subjects_of_kind t GRANT_KIND = map (\<lambda>(k, s). (sk_id k, su_value s)) (grant_rows t)"
  by (simp add: subjects_of_kind_def grant_rows_def)

lemma grant_rows_set: "set (grant_rows t) = {(k, s). (k, s) \<in> set (tb_subjects t) \<and> sk_kind k = GRANT_KIND}"
  by (auto simp: grant_rows_def)

lemma grants_read:
  assumes "grants_named t" "read_grants (map snd (subjects_of_kind t GRANT_KIND)) = Inr all"
  shows "distinct (map g_id all)" "\<And>g. g \<in> set all \<Longrightarrow> grant_at t (g_id g) = Inr (Some g) \<and> in_domain (grant_value g) \<and> nesting (grant_value g) \<le> 128"
    "\<And>i g. grant_at t i = Inr (Some g) \<Longrightarrow> g \<in> set all \<and> g_id g = i"
proof -
  let ?read = "\<lambda>(k, s). Option.bind (stored_value (su_value s)) read_grant"
  have all: "map ?read (grant_rows t) = map Some all"
    using assms(2) unfolding read_grants_map subjects_of_kind_rows by (simp add: comp_def case_prod_unfold)
  have row: "\<exists>g. ?read (k, s) = Some g \<and> g_id g = sk_id k \<and> in_domain (grant_value g) \<and> nesting (grant_value g) \<le> 128"
    if "(k, s) \<in> set (grant_rows t)" for k s
    using assms(1) that unfolding grants_named_def grant_rows_set by fastforce
  have len: "length (grant_rows t) = length all" using all by (metis length_map)
  have nth: "?read (grant_rows t ! n) = Some (all ! n)" if "n < length all" for n
    using all that len by (metis nth_map)
  have id_nth: "g_id (all ! n) = sk_id (fst (grant_rows t ! n))" if "n < length all" for n
    using row [of "fst (grant_rows t ! n)" "snd (grant_rows t ! n)"] nth [OF that] that len by (simp add: split_beta)
  have ids_all: "map g_id all = map (sk_id \<circ> fst) (grant_rows t)"
    using id_nth len by (intro nth_equalityI) simp_all
  have "inj_on (sk_id \<circ> fst) (set (grant_rows t))"
  proof (rule inj_onI)
    fix x y
    assume xy: "x \<in> set (grant_rows t)" "y \<in> set (grant_rows t)" "(sk_id \<circ> fst) x = (sk_id \<circ> fst) y"
    then have "sk_kind (fst x) = GRANT_KIND" "sk_kind (fst y) = GRANT_KIND" unfolding grant_rows_set by auto
    then have "fst x = fst y" using xy(3) by (intro subject_key.equality) simp_all
    moreover have "x \<in> set (tb_subjects t)" "y \<in> set (tb_subjects t)" using xy(1,2) by (auto simp: grant_rows_set)
    moreover have "distinct (map fst (tb_subjects t))" using assms(1) by (simp add: grants_named_def)
    ultimately show "x = y" by (metis eq_key_imp_eq_value prod.collapse)
  qed
  moreover have "distinct (grant_rows t)"
    using assms(1) by (simp add: grants_named_def grant_rows_def distinct_map)
  ultimately show "distinct (map g_id all)" unfolding ids_all by (simp add: distinct_map)
  have at: "subject t k = Some s" if "(k, s) \<in> set (grant_rows t)" for k s
    using that assms(1) by (simp add: grant_rows_set grants_named_def subject_def)
  have key: "grant_key (sk_id k) = k" if "(k, s) \<in> set (grant_rows t)" for k s
    using that by (simp add: grant_rows_set grant_key_def)
  show "grant_at t (g_id g) = Inr (Some g) \<and> in_domain (grant_value g) \<and> nesting (grant_value g) \<le> 128" if "g \<in> set all" for g
  proof -
    obtain n where n: "n < length all" "g = all ! n" using \<open>g \<in> set all\<close> by (metis in_set_conv_nth)
    obtain k s where ks: "grant_rows t ! n = (k, s)" by fastforce
    then have r: "(k, s) \<in> set (grant_rows t)" using n len by (metis nth_mem)
    have "?read (k, s) = Some g" "g_id g = sk_id k" using nth [OF n(1)] id_nth [OF n(1)] ks n by simp_all
    then show ?thesis using at [OF r] key [OF r] row [OF r]
      by (auto simp: grant_at_def split: option.splits Option.bind_splits)
  qed
  show "g \<in> set all \<and> g_id g = i" if g: "grant_at t i = Inr (Some g)" for i g
  proof -
    obtain s where s: "subject t (grant_key i) = Some s" "?read (grant_key i, s) = Some g"
      using g by (auto simp: grant_at_def rbind_Inr_iff ok_or_Inr_iff split: option.splits)
    then have r: "(grant_key i, s) \<in> set (grant_rows t)"
      by (auto simp: grant_rows_set subject_def grant_key_def dest: map_of_SomeD)
    then have "g_id g = i" using row [OF r] s(2) by (auto simp: grant_key_def)
    moreover have "Some g \<in> set (map Some all)" unfolding all [symmetric] using r s(2) by force
    ultimately show ?thesis by auto
  qed
qed


lemma grant_at_value: "value_at t (grant_key i) = value_at u (grant_key i) \<Longrightarrow> grant_at t i = grant_at u i"
  by (auto simp: value_at_def grant_at_def split: option.splits)

lemma grant_subject_id: "grant_subject command n = Inr j \<Longrightarrow> j = sk_id (key_of (c_subject command))"
  by (auto simp: grant_subject_def Let_def split: if_splits)

lemma grant_revoke_commits:
  assumes "grant_revoke sha now at1 params command p = (Inr r, p1)"
    "find_command (pv_store p) (principal_of p) (c_command_id command) = None"
  defines "i \<equiv> sk_id (key_of (c_subject command))"
  obtains grant children c mk t where "grant_at (pv_store p) i = Inr (Some grant)" "active_descendants (pv_store p) i = Inr children"
    "c = (base_commit p at1 command (grant_key i) (to_canonical (grant_value (grant\<lparr>g_revoked := True\<rparr>)))
       (Some (revoked_event (c_caused_by command))))\<lparr>cm_also := map (revoke_child command) children\<rparr>"
    "commit_command c mk (pv_store p) = Inr (r, t)" "p1 = p\<lparr>pv_store := t\<rparr>"
    "r = accepted_for command (revision_of (pv_store p) (grant_key i) + 1) (operation_ref_of (next_operation (snd (raise_subject (cm_key c) (cm_value c) (pv_store p)))))
       (Object [(''revoked'', Array (map String (i # map g_id children)))])"
proof -
  have i: "grant_subject command 1 = Inr i"
    using assms(1) grant_subject_id by (cases "grant_subject command 1") (auto simp: grant_revoke_def i_def)
  have none: "admit_command sha p now params command Unchecked Revoke = Inr None"
    using assms(1,2) i by (auto simp: grant_revoke_def admitted_def admit_command_Some deduplicate_Some split: sum.splits option.splits)
  obtain grant children where g: "grant_at (pv_store p) i = Inr (Some grant)" "active_descendants (pv_store p) i = Inr children"
    using assms(1) i none
    by (auto simp: grant_revoke_def admitted_def ok_or_Inr_iff rbind_Inr_iff split: sum.splits option.splits prod.splits)
  let ?c = "(base_commit p at1 command (grant_key i) (to_canonical (grant_value (grant\<lparr>g_revoked := True\<rparr>)))
       (Some (revoked_event (c_caused_by command))))\<lparr>cm_also := map (revoke_child command) children\<rparr>"
  let ?mk = "\<lambda>revision operation_ref. accepted_for command revision operation_ref
       (Object [(''revoked'', Array (map String (i # map g_id children)))])"
  have "committed ?c ?mk p = (Inr r, p1)"
    using assms(1) i none g by (simp add: grant_revoke_def admitted_def)
  then obtain t where t: "commit_command ?c ?mk (pv_store p) = Inr (r, t)" "p1 = p\<lparr>pv_store := t\<rparr>"
    by (auto simp: committed_def split: sum.splits)
  have "r = ?mk (revision_of (pv_store p) (grant_key i) + 1)
      (operation_ref_of (next_operation (snd (raise_subject (cm_key ?c) (cm_value ?c) (pv_store p)))))"
    using t(1) raise_subject_rises(5)
    by (auto simp: commit_command_def Let_def rbind_Inr_iff base_commit_def split: prod.splits)
  then show ?thesis using that [OF g refl t] by simp
qed

lemma revocation_values:
  assumes "grant_revoke sha now at1 params command p = (Inr r, p1)"
    "find_command (pv_store p) (principal_of p) (c_command_id command) = None"
    "grants_named (pv_store p)" "read_grants (map snd (subjects_of_kind (pv_store p) GRANT_KIND)) = Inr all"
  defines "i \<equiv> sk_id (key_of (c_subject command))"
  shows "g \<in> set all \<Longrightarrow> g_id g = i \<or> (descends all i (g_id g) \<and> \<not> g_revoked g) \<Longrightarrow>
      value_at (pv_store p1) (grant_key (g_id g)) = Some (to_canonical (grant_value (g\<lparr>g_revoked := True\<rparr>)))"
    "k \<noteq> grant_key i \<Longrightarrow> \<forall>g \<in> set all. k = grant_key (g_id g) \<longrightarrow> \<not> descends all i (g_id g) \<or> g_revoked g \<Longrightarrow>
      value_at (pv_store p1) k = value_at (pv_store p) k"
proof -
  obtain grant children c mk t where g: "grant_at (pv_store p) i = Inr (Some grant)" "active_descendants (pv_store p) i = Inr children"
    and c: "c = (base_commit p at1 command (grant_key i) (to_canonical (grant_value (grant\<lparr>g_revoked := True\<rparr>)))
       (Some (revoked_event (c_caused_by command))))\<lparr>cm_also := map (revoke_child command) children\<rparr>"
    and t: "commit_command c mk (pv_store p) = Inr (r, t)" "p1 = p\<lparr>pv_store := t\<rparr>"
    using grant_revoke_commits [OF assms(1,2)] unfolding i_def by metis
  note read = grants_read [OF assms(3,4)]
  have ch: "set children = {g \<in> set all. descends all i (g_id g) \<and> g_id g \<noteq> i \<and> \<not> g_revoked g}"
    by (rule active_descendants_exact [OF g(2) assms(4) read(1)])
  have key: "grant_key a = grant_key b \<longleftrightarrow> a = b" for a b by (simp add: grant_key_def)
  have v: "value_at (pv_store p1) k =
      (case map_of (rev (map (\<lambda>g. (grant_key (g_id g), to_canonical (grant_value (g\<lparr>g_revoked := True\<rparr>)))) children)) k of
         None \<Rightarrow> ((value_at (pv_store p))(grant_key i \<mapsto> to_canonical (grant_value (grant\<lparr>g_revoked := True\<rparr>)))) k
       | Some v \<Rightarrow> Some v)" for k
    using commit_command_value [OF t(1)] t(2) by (simp add: c base_commit_def fold_updates revoke_child_def comp_def)
  have none: "map_of (rev (map (\<lambda>g. (grant_key (g_id g), f g)) children)) k = None" if "\<forall>g \<in> set children. k \<noteq> grant_key (g_id g)"
    for f :: "grant \<Rightarrow> string" and k using that by (force simp: map_of_eq_None_iff)
  show "value_at (pv_store p1) (grant_key (g_id g)) = Some (to_canonical (grant_value (g\<lparr>g_revoked := True\<rparr>)))"
    if g1: "g \<in> set all" "g_id g = i \<or> (descends all i (g_id g) \<and> \<not> g_revoked g)"
  proof (cases "g_id g = i")
    case True
    then have "g = grant" using read(2) [OF g1(1)] g(1) by simp
    moreover have "\<forall>h \<in> set children. grant_key i \<noteq> grant_key (g_id h)" using ch key by auto
    ultimately show ?thesis using True by (simp add: v none)
  next
    case False
    then have g2: "g \<in> set children" using g1 ch by blast
    have uniq: "h = g" if "h \<in> set children" "g_id h = g_id g" for h
      using that ch g1(1) read(1) unfolding distinct_map by (blast dest: inj_onD)
    let ?m = "rev (map (\<lambda>g. (grant_key (g_id g), to_canonical (grant_value (g\<lparr>g_revoked := True\<rparr>)))) children)"
    have "map_of ?m (grant_key (g_id g)) \<noteq> None" unfolding map_of_eq_None_iff
      using g2 by (auto simp: image_iff)
    then obtain w where w: "map_of ?m (grant_key (g_id g)) = Some w" by blast
    then obtain h where "h \<in> set children" "g_id h = g_id g" "w = to_canonical (grant_value (h\<lparr>g_revoked := True\<rparr>))"
      using map_of_SomeD [OF w] key by auto
    then have "w = to_canonical (grant_value (g\<lparr>g_revoked := True\<rparr>))" using uniq [of h] by simp
    then show ?thesis using w by (simp add: v)
  qed
  show "value_at (pv_store p1) k = value_at (pv_store p) k"
    if "k \<noteq> grant_key i" "\<forall>g \<in> set all. k = grant_key (g_id g) \<longrightarrow> \<not> descends all i (g_id g) \<or> g_revoked g"
  proof -
    have "\<forall>h \<in> set children. k \<noteq> grant_key (g_id h)" using that(2) ch by auto
    then show ?thesis using that(1) by (simp add: v none)
  qed
qed


lemma revoked_records:
  assumes "grant_revoke sha now at1 params command p = (Inr r, p1)"
    "find_command (pv_store p) (principal_of p) (c_command_id command) = None"
    "grants_named (pv_store p)" "read_grants (map snd (subjects_of_kind (pv_store p) GRANT_KIND)) = Inr all"
    "g \<in> set all" "g_id g = sk_id (key_of (c_subject command)) \<or> descends all (sk_id (key_of (c_subject command))) (g_id g)"
  shows "\<exists>g'. grant_at (pv_store p1) (g_id g) = Inr (Some g') \<and> g_revoked g'"
proof -
  let ?i = "sk_id (key_of (c_subject command))"
  note read = grants_read [OF assms(3,4)] and v = revocation_values [OF assms(1-4)]
  show ?thesis
  proof (cases "g_id g = ?i \<or> (descends all ?i (g_id g) \<and> \<not> g_revoked g)")
    case True
    then show ?thesis using recorded_revoked [OF v(1) [OF assms(5)]] read(2) [OF assms(5)] by blast
  next
    case False
    then have rev: "g_revoked g" "g_id g \<noteq> ?i" using assms(6) by auto
    have "g_revoked h" if "h \<in> set all" "grant_key (g_id g) = grant_key (g_id h)" for h
    proof -
      have "h = g" using read(2) [OF that(1)] read(2) [OF assms(5)] that(2) by (simp add: grant_key_def)
      then show ?thesis using rev by simp
    qed
    then have "value_at (pv_store p1) (grant_key (g_id g)) = value_at (pv_store p) (grant_key (g_id g))"
      using rev by (intro v(2)) (auto simp: grant_key_def)
    then show ?thesis using grant_at_value [of "pv_store p1"] read(2) [OF assms(5)] rev by auto
  qed
qed

lemma revoked_refuses:
  assumes "grant_at (pv_store q) i = Inr (Some g)" "g_revoked g"
  shows "\<exists>e. authorize q now (Some i) needs = Inl e"
  using assms by (auto simp: authorize_def held_grant_def usable_def denied_def)


subsection \<open>An example\<close>

definition example_chain :: "string \<Rightarrow> string option \<Rightarrow> grant" where
  "example_chain i parent = (example_grant 1 None)\<lparr>g_id := i, g_resources := [], g_parent := parent\<rparr>"

definition example_grants :: tables where
  "example_grants = empty_tables\<lparr>tb_subjects := map (\<lambda>g. (grant_key (g_id g),
     \<lparr>su_revision = 1, su_value = to_canonical (grant_value g), su_applied = 1\<rparr>))
       [example_chain ''g'' None, example_chain ''h'' (Some ''g'')]\<rparr>"

lemma example_chain_reads:
  assumes "text_ok i" "parent = None \<or> parent = Some ''g''"
  shows "Option.bind (stored_value (to_canonical (grant_value (example_chain i parent)))) read_grant = Some (example_chain i parent)"
    "in_domain (grant_value (example_chain i parent))" "nesting (grant_value (example_chain i parent)) \<le> 128"
proof -
  let ?v = "grant_value (example_chain i parent)"
  show v: "in_domain ?v" "nesting ?v \<le> 128"
    using assms by (auto simp: grant_value_def example_chain_def example_grant_def opt_member_def delegation_value_def
        text_ok_literal MAX_SAFE_INTEGER_def nesting.simps)
  then have "stored_value (to_canonical ?v) = Some (sorted_members ?v)"
    using parse_to_canonical [of ?v 128] by (simp add: stored_value_def parse_def DEFAULT_MAX_DEPTH_def)
  then show "Option.bind (stored_value (to_canonical ?v)) read_grant = Some (example_chain i parent)"
    using read_grant_sorted [OF v(1) read_grant_value] by (simp add: example_chain_def example_grant_def)
qed

lemma example_grants_named:
  "grants_named example_grants"
  "read_grants (map snd (subjects_of_kind example_grants GRANT_KIND)) = Inr [example_chain ''g'' None, example_chain ''h'' (Some ''g'')]"
proof -
  have i: "g_id (example_chain i q) = i" for i q by (simp add: example_chain_def)
  note r = example_chain_reads [of "''g''" None] example_chain_reads [of "''h''" "Some ''g''"]
  have t: "text_ok ''g''" "text_ok ''h''" by (simp_all add: text_ok_literal)
  show "grants_named example_grants"
    using r t by (auto simp: grants_named_def example_grants_def grant_key_def i empty_tables_def)
  have "subjects_of_kind example_grants GRANT_KIND = map (\<lambda>g. (g_id g, to_canonical (grant_value g)))
      [example_chain ''g'' None, example_chain ''h'' (Some ''g'')]"
    by (simp add: subjects_of_kind_def example_grants_def grant_key_def i empty_tables_def sort_key_def insort_key.simps)
  then show "read_grants (map snd (subjects_of_kind example_grants GRANT_KIND)) = Inr [example_chain ''g'' None, example_chain ''h'' (Some ''g'')]"
    using r t by (simp add: read_grants_map)
qed


lemma example_revokes:
  "\<exists>r p1. grant_revoke example_sha ''now'' ''now'' (example_command [])
     (example_sent ''core.grant.revoke'' (example_reference ''core.grant'' ''g'') 1) (example_provider example_grants) = (Inr r, p1)"
proof -
  let ?s = "example_sent ''core.grant.revoke'' (example_reference ''core.grant'' ''g'') 1"
  let ?p = "example_provider example_grants"
  let ?all = "[example_chain ''g'' None, example_chain ''h'' (Some ''g'')]"
  have key: "key_of (c_subject ?s) = grant_key ''g''"
    by (simp add: example_sent_def example_reference_def key_of_def member_str_def or_else_def grant_key_def GRANT_KIND_def)
  have chain: "g_id (example_chain i q) = i" "g_parent (example_chain i q) = q" "\<not> g_revoked (example_chain i q)" for i q
    by (simp_all add: example_chain_def example_grant_def)
  have at: "grant_at example_grants ''g'' = Inr (Some (example_chain ''g'' None))"
    using grants_read(2) [OF example_grants_named, of "example_chain ''g'' None"] by (simp add: chain)
  have sub: "grant_subject ?s 1 = Inr ''g''"
    using key by (simp add: grant_subject_def Let_def grant_key_def) (simp add: example_sent_def)
  have act: "active_descendants example_grants ''g'' = Inr [example_chain ''h'' (Some ''g'')]"
    by (simp add: active_descendants_def example_grants_named(2) eval_nat_numeral visit_def chain)
  have rev: "revision_of example_grants (grant_key ''g'') = 1"
    by (simp add: revision_of_def subject_def example_grants_def chain)
  have "admit_command example_sha ?p ''now'' (example_command []) ?s Unchecked Revoke = Inr None"
    using example_digest_checked [of "''core.grant.revoke''"] at key rev
    by (simp add: admit_command_None deduplicate_None check_capability_Inr check_epoch_exact check_preconditions_exact
        authorize_revoke_def grant_key_def chain)
      (simp add: example_sent_def find_command_def example_grants_def empty_tables_def is_authority_def example_provider_def
        example_session_def principal_of_def)
  moreover have "\<exists>r t. commit_command ((base_commit ?p ''now'' ?s (grant_key ''g'') v (Some (revoked_event (c_caused_by ?s))))
      \<lparr>cm_also := map (revoke_child ?s) [example_chain ''h'' (Some ''g'')]\<rparr>) mk example_grants = Inr (r, t)" for v mk
    by (simp add: base_commit_def revoke_child_def revoked_event_def example_grants_def chain commit_command_def empty_tables_def
      raise_subject_def subject_def put_subject_def next_operation_def meta_def set_meta_def or_else_def append_event_def
      insert_event_def insert_claim_revision_def insert_command_def find_command_def Let_def next_position_def
      last_sequence_def sequences_of_def current_epoch_def grant_key_def)
  then obtain r t where "commit_command ((base_commit ?p ''now'' ?s (grant_key ''g'')
        (to_canonical (grant_value ((example_chain ''g'' None)\<lparr>g_revoked := True\<rparr>))) (Some (revoked_event (c_caused_by ?s))))
      \<lparr>cm_also := map (revoke_child ?s) [example_chain ''h'' (Some ''g'')]\<rparr>)
      (\<lambda>revision operation_ref. accepted_for ?s revision operation_ref
         (Object [(''revoked'', Array (map String (''g'' # map g_id [example_chain ''h'' (Some ''g'')])))])) example_grants = Inr (r, t)"
    by blast
  ultimately have "grant_revoke example_sha ''now'' ''now'' (example_command []) ?s ?p = (Inr r, ?p\<lparr>pv_store := t\<rparr>)"
    using sub at act by (simp add: grant_revoke_def admitted_def committed_def)
  then show ?thesis by blast
qed

subsection \<open>Properties\<close>

text \<open>
  C3. Once a grant is revoked, it and every grant issued under it, however many delegations down,
  are recorded as revoked and authorize nothing for anyone at any time on any session over that
  store; every other subject keeps its value.
\<close>

theorem revocation_reaches_descendants:
  assumes "grant_revoke sha now at1 params command p = (Inr r, p1)"
    and "find_command (pv_store p) (principal_of p) (c_command_id command) = None"
    and "grants_named (pv_store p)" "read_grants (map snd (subjects_of_kind (pv_store p) GRANT_KIND)) = Inr all"
  defines "revoked \<equiv> insert (sk_id (key_of (c_subject command))) {i. descends all (sk_id (key_of (c_subject command))) i}"
  shows "(\<forall>g \<in> set all. g_id g \<in> revoked \<longrightarrow>
       (\<exists>g'. grant_at (pv_store p1) (g_id g) = Inr (Some g') \<and> g_revoked g') \<and>
       (\<forall>q now' needs. pv_store q = pv_store p1 \<longrightarrow> (\<exists>e. authorize q now' (Some (g_id g)) needs = Inl e))) \<and>
    (\<forall>k. k \<notin> grant_key ` revoked \<longrightarrow> value_at (pv_store p1) k = value_at (pv_store p) k)"
proof -
  let ?i = "sk_id (key_of (c_subject command))"
  have rec: "\<exists>g'. grant_at (pv_store p1) (g_id g) = Inr (Some g') \<and> g_revoked g'" if "g \<in> set all" "g_id g \<in> revoked" for g
    using revoked_records [OF assms(1-4) that(1)] that(2) by (simp add: revoked_def)
  have "value_at (pv_store p1) k = value_at (pv_store p) k" if "k \<notin> grant_key ` revoked" for k
    by (rule revocation_values(2) [OF assms(1-4)]) (use that in \<open>auto simp: revoked_def\<close>)
  then show ?thesis using rec revoked_refuses by metis
qed

lemma revocation_reaches_descendants_witness:
  "\<exists>p1. \<exists>g'. grant_at (pv_store p1) ''h'' = Inr (Some g') \<and> g_revoked g' \<and>
     (\<exists>r. grant_revoke example_sha ''now'' ''now'' (example_command []) (example_sent ''core.grant.revoke'' (example_reference ''core.grant'' ''g'') 1)
        (example_provider example_grants) = (Inr r, p1))"
proof -
  let ?all = "[example_chain ''g'' None, example_chain ''h'' (Some ''g'')]"
  obtain r p1 where r: "grant_revoke example_sha ''now'' ''now'' (example_command [])
      (example_sent ''core.grant.revoke'' (example_reference ''core.grant'' ''g'') 1) (example_provider example_grants) = (Inr r, p1)"
    using example_revokes by blast
  have "find_command (pv_store (example_provider example_grants)) (principal_of (example_provider example_grants))
      (c_command_id (example_sent ''core.grant.revoke'' (example_reference ''core.grant'' ''g'') 1)) = None"
    by (simp add: find_command_def example_grants_def empty_tables_def)
  note w = revocation_reaches_descendants [OF r this, unfolded example_fields, OF example_grants_named]
  have "descends ?all ''g'' (g_id (example_chain ''h'' (Some ''g'')))" by (rule descends_child) (simp_all add: example_chain_def)
  then have "\<exists>g'. grant_at (pv_store p1) (g_id (example_chain ''h'' (Some ''g''))) = Inr (Some g') \<and> g_revoked g'"
    using w by (simp add: example_sent_def example_reference_def key_of_def member_str_def or_else_def)
  then show ?thesis using r by (auto simp: example_chain_def)
qed

end
