(* ===== verification/Events_Ops.thy ===== *)
theory Events_Ops
  imports Core_Ops Stream_Complete
begin

text \<open>
  Reading and subscribing to the event stream, \<open>provider.rs\<close>. A pass over the subscriptions asks the
  clock before every delivery; \<open>clk n\<close> is its n-th answer in the pass.
\<close>

subsection \<open>Cursors\<close>

text \<open>\<open>str::parse::<i64>\<close> of a text of any length.\<close>

definition parse_bounded :: "string \<Rightarrow> int option" where
  "parse_bounded s = Option.bind (parse_i64 s) (\<lambda>n. if - (2 ^ 63) \<le> n \<and> n < 2 ^ 63 then Some n else None)"

text \<open>\<open>rsplitn(3, '.')\<close>, when it yields three parts: what precedes the last but one dot, and the two parts after.\<close>

definition rsplit_once :: "char \<Rightarrow> string \<Rightarrow> (string \<times> string) option" where
  "rsplit_once sep s = map_option (\<lambda>(after, before). (rev before, rev after)) (split_once sep (rev s))"

definition cursor_parts :: "string \<Rightarrow> (string \<times> string \<times> string) option" where
  "cursor_parts s =
     Option.bind (rsplit_once CHR ''.'' s) (\<lambda>(rest, sequence).
     map_option (\<lambda>(minted, epoch). (minted, epoch, sequence)) (rsplit_once CHR ''.'' rest))"

definition encode_cursor :: "provider \<Rightarrow> position \<Rightarrow> string" where
  "encode_cursor p at1 =
     ''c1.'' @ pv_stream p @ ''.'' @ int_text (po_epoch at1) @ ''.'' @ int_text (po_sequence at1)"

definition decode_cursor :: "provider \<Rightarrow> string \<Rightarrow> protocol_error + position" where
  "decode_cursor p cursor =
     (if \<not> prefix ''c1.'' cursor then Inl (new_invalid_cursor ''malformed'')
      else
        (case cursor_parts (drop 3 cursor) of
           None \<Rightarrow> Inl (new_invalid_cursor ''malformed'')
         | Some (minted, epoch, sequence) \<Rightarrow>
             if minted \<noteq> pv_stream p then Inl (new_invalid_cursor ''from another stream'')
             else
               rbind (ok_or (parse_bounded epoch) (new_invalid_cursor ''malformed'')) (\<lambda>e.
               rbind (ok_or (parse_bounded sequence) (new_invalid_cursor ''malformed'')) (\<lambda>s.
               (let current = current_epoch (pv_store p) in
                if e > current \<or> (e = current \<and> s > last_sequence (pv_store p) current + 1)
                then Inl (new_invalid_cursor ''beyond the end of the stream'')
                else Inr \<lparr>po_epoch = e, po_sequence = s\<rparr>)))))"

subsection \<open>Reading\<close>

definition stream_now :: "tables \<Rightarrow> position" where
  "stream_now t = \<lparr>po_epoch = current_epoch t, po_sequence = last_sequence t (current_epoch t) + 1\<rparr>"

definition read_start :: "provider \<Rightarrow> jvalue \<Rightarrow> protocol_error + position" where
  "read_start p payload =
     (case (get payload ''cursor'', get payload ''from'') of
        (Some (String cursor), None) \<Rightarrow> decode_cursor p cursor
      | (None, Some (String start)) \<Rightarrow>
          if start = ''start'' then Inr (stream_start (pv_store p))
          else if start = ''now'' then Inr (stream_now (pv_store p))
          else Inl (invalid_envelope ''/payload/from'' ''unknown value'')
      | _ \<Rightarrow> Inl (invalid_envelope ''/payload'' ''exactly one of cursor or from is required''))"

definition read_kinds :: "jvalue \<Rightarrow> protocol_error + string list" where
  "read_kinds payload =
     (case get payload ''kinds'' of
        None \<Rightarrow> Inr []
      | Some (Array items) \<Rightarrow> Inr (strings_in items)
      | Some _ \<Rightarrow> Inl (invalid_envelope ''/payload/kinds'' ''not an array''))"

text \<open>What of a frame is left for items.\<close>

definition receive_budget :: "provider \<Rightarrow> nat" where
  "receive_budget p = pv_receive_limit p - 4096"

definition read_query :: "provider \<Rightarrow> int \<Rightarrow> string list \<Rightarrow> grant option \<Rightarrow> query_args" where
  "read_query p limit kinds in_force =
     \<lparr>qa_stream = pv_stream p, qa_limit = limit, qa_kinds = kinds, qa_budget = receive_budget p,
      qa_visible = provider_may_read p in_force\<rparr>"

definition stream_value :: "provider \<Rightarrow> jvalue" where
  "stream_value p = Object [(''id'', String (pv_stream p)), (''epoch'', Integer (current_epoch (pv_store p)))]"

definition events_read :: "provider \<Rightarrow> query \<Rightarrow> grant option \<Rightarrow> answer" where
  "events_read p q in_force =
     (if \<not> selected_feature p ''core.events'' then Inl (feature_missing ''core.events'')
      else
        (case get (q_payload q) ''limit'' of
           Some (Integer limit) \<Rightarrow>
             if \<not> (1 \<le> limit \<and> limit \<le> 1000)
             then Inl (invalid_envelope ''/payload/limit'' ''not an integer between 1 and 1000'')
             else
               rbind (read_start p (q_payload q)) (\<lambda>start.
               rbind (read_kinds (q_payload q)) (\<lambda>kinds.
               (let rd = read_events (pv_store p) (read_query p limit kinds in_force) start in
                if rd_too_large rd then Inl new_internal_error
                else Inr (Object
                  [(''stream'', stream_value p), (''items'', Array (rd_items rd)),
                   (''next_cursor'', String (encode_cursor p (rd_at rd))), (''filtered'', Bool (rd_filtered rd))]))))
         | _ \<Rightarrow> Inl (invalid_envelope ''/payload/limit'' ''not an integer between 1 and 1000'')))"

subsection \<open>Subscriptions\<close>

definition events_subscribe :: "query \<Rightarrow> provider \<Rightarrow> handled" where
  "events_subscribe q p =
     (if \<not> selected_feature p ''core.events'' then (Inl (feature_missing ''core.events''), p)
      else
        (case rbind (read_start p (q_payload q)) (\<lambda>start.
              rbind (read_kinds (q_payload q)) (\<lambda>kinds. Inr (start, kinds))) of
           Inl e \<Rightarrow> (Inl e, p)
         | Inr (start, kinds) \<Rightarrow>
             (let n = pv_next_subscription p + 1; i = ''sub-'' @ dec_digits n in
              (Inr (Object [(''subscription'', String i), (''stream'', stream_value p)]),
               p\<lparr>pv_next_subscription := n,
                 pv_subscriptions := pv_subscriptions p @
                   [\<lparr>sb_id = i, sb_cursor = start, sb_kinds = kinds, sb_principal = principal_of p,
                     sb_grant = q_grant q, sb_ended = False\<rparr>]\<rparr>))))"

definition events_unsubscribe :: "query \<Rightarrow> provider \<Rightarrow> handled" where
  "events_unsubscribe q p =
     (case member_str (q_payload q) ''subscription'' of
        None \<Rightarrow> (Inl (invalid_envelope ''/payload/subscription'' ''absent''), p)
      | Some i \<Rightarrow>
          (let kept = filter (\<lambda>s. sb_id s \<noteq> i) (pv_subscriptions p) in
           if length kept = length (pv_subscriptions p) then (Inl not_found, p\<lparr>pv_subscriptions := kept\<rparr>)
           else (Inr (Object []), p\<lparr>pv_subscriptions := kept\<rparr>)))"

definition notification :: "string \<Rightarrow> jvalue list \<Rightarrow> string \<Rightarrow> string option \<Rightarrow> jvalue" where
  "notification i items next_cursor ended = Object
     [(''jsonrpc'', String ''2.0''), (''method'', String ''core.events.notify''),
      (''params'', Object ([(''subscription'', String i), (''items'', Array items), (''next_cursor'', String next_cursor)] @
         (case ended of None \<Rightarrow> [] | Some reason \<Rightarrow> [(''ended'', Object [(''reason'', String reason)])])))]"

definition ending_notification :: "provider \<Rightarrow> string \<Rightarrow> position \<Rightarrow> string \<Rightarrow> jvalue" where
  "ending_notification p i cursor reason = notification i [] (encode_cursor p cursor) (Some reason)"

definition end_subscriptions :: "string \<Rightarrow> provider \<Rightarrow> jvalue list \<times> provider" where
  "end_subscriptions reason p =
     (map (\<lambda>s. ending_notification p (sb_id s) (sb_cursor s) reason) (filter (\<lambda>s. \<not> sb_ended s) (pv_subscriptions p)),
      p\<lparr>pv_subscriptions := []\<rparr>)"

definition pending_output_bound :: "provider \<Rightarrow> nat" where
  "pending_output_bound p = as_usize (max 1 (cf_events_max_pending (pv_config p)))"

definition backpressure_notice :: "provider \<Rightarrow> nat" where
  "backpressure_notice p = nat (max 0 (cf_events_backpressure_notice_ms (pv_config p)))"

definition backpressure_negotiated :: "provider \<Rightarrow> bool" where
  "backpressure_negotiated p = selected_feature p ''core.events.backpressure''"

subsection \<open>One pass\<close>

record pass =
  ps_frames :: "jvalue list"
  ps_produced :: nat
  ps_asked :: nat

text \<open>
  The deliveries to one subscription; the flag says one was withheld, which ends the pass. Every turn
  that goes on delivers an item and moves the cursor past it, so \<open>deliveries_bound\<close> turns are enough
  (\<open>deliveries_enough\<close>).
\<close>

definition delivery :: "(nat \<Rightarrow> string) \<Rightarrow> provider \<Rightarrow> nat \<Rightarrow> bool \<Rightarrow> subscription \<Rightarrow> pass \<Rightarrow> (bool \<times> bool) \<times> subscription \<times> pass" where
  "delivery clk p room whole s d =
     (if sb_ended s then ((False, False), s, d)
      else
        (let d1 = d\<lparr>ps_asked := ps_asked d + 1\<rparr> in
         case events_authorization p (clk (ps_asked d)) (sb_principal s) (sb_grant s) of
           None \<Rightarrow> ((False, False), s\<lparr>sb_ended := True\<rparr>,
             d1\<lparr>ps_frames := ps_frames d @ [ending_notification p (sb_id s) (sb_cursor s) ''authorization_lost'']\<rparr>)
         | Some in_force \<Rightarrow>
             (let rd = read_events (pv_store p) (read_query p 1000 (sb_kinds s) in_force) (sb_cursor s) in
              if rd_too_large rd then
                ((False, False), s\<lparr>sb_ended := True\<rparr>,
                 d1\<lparr>ps_frames := ps_frames d @ [ending_notification p (sb_id s) (rd_at rd) ''item_too_large'']\<rparr>)
              else if rd_items rd = [] then ((False, False), s, d1)
              else
                (let frame = notification (sb_id s) (rd_items rd) (encode_cursor p (rd_at rd)) None;
                     size1 = length (encode_frame frame)
                 in if ps_produced d + size1 > room \<and> \<not> (ps_produced d = 0 \<and> whole) then ((False, True), s, d1)
                    else ((True, False), s\<lparr>sb_cursor := rd_at rd\<rparr>,
                      d1\<lparr>ps_produced := ps_produced d + size1, ps_frames := ps_frames d @ [frame]\<rparr>)))))"

fun deliveries ::
    "nat \<Rightarrow> (nat \<Rightarrow> string) \<Rightarrow> provider \<Rightarrow> nat \<Rightarrow> bool \<Rightarrow> subscription \<Rightarrow> pass \<Rightarrow> bool \<times> subscription \<times> pass" where
  "deliveries 0 clk p room whole s d = (False, s, d)"
| "deliveries (Suc n) clk p room whole s d =
     (case delivery clk p room whole s d of
        ((again, withheld), s1, d1) \<Rightarrow>
          if again then deliveries n clk p room whole s1 d1 else (withheld, s1, d1))"

definition deliveries_bound :: "provider \<Rightarrow> nat" where
  "deliveries_bound p = length (tb_events (pv_store p)) + nat (current_epoch (pv_store p)) + 2"

fun drain_each ::
    "(nat \<Rightarrow> string) \<Rightarrow> provider \<Rightarrow> nat \<Rightarrow> bool \<Rightarrow> subscription list \<Rightarrow> pass \<Rightarrow> bool \<times> subscription list \<times> pass" where
  "drain_each clk p room whole [] d = (False, [], d)"
| "drain_each clk p room whole (s # ss) d =
     (case deliveries (deliveries_bound p) clk p room whole s d of
        (withheld, s1, d1) \<Rightarrow>
          if withheld then (True, s1 # ss, d1)
          else (case drain_each clk p room whole ss d1 of (w, ss1, d2) \<Rightarrow> (w, s1 # ss1, d2)))"

definition drain_subscriptions :: "(nat \<Rightarrow> string) \<Rightarrow> nat \<Rightarrow> bool \<Rightarrow> provider \<Rightarrow> (jvalue list \<times> bool) \<times> provider" where
  "drain_subscriptions clk room whole p =
     (case drain_each clk p room whole (pv_subscriptions p) \<lparr>ps_frames = [], ps_produced = 0, ps_asked = 0\<rparr> of
        (withheld, ss, d) \<Rightarrow>
          ((ps_frames d, withheld), p\<lparr>pv_subscriptions := filter (\<lambda>s. \<not> sb_ended s) ss\<rparr>))"


subsection \<open>Cursors read back\<close>

lemma rsplit_once_last: "CHR ''.'' \<notin> set b \<Longrightarrow> rsplit_once CHR ''.'' (a @ CHR ''.'' # b) = Some (a, b)"
proof -
  assume "CHR ''.'' \<notin> set b"
  then have "split_once CHR ''.'' (rev b @ CHR ''.'' # rev a) = Some (rev b, rev a)" by (simp add: split_once_Some_iff)
  then show ?thesis by (simp add: rsplit_once_def)
qed

lemma parse_int_text: "parse_i64 (int_text n) = Some n"
proof -
  have digits: "parse_digits (dec_digits m) = Some (int m)" for m
    using dec_digits_digits by (simp add: parse_digits_def digits_value_dec list_all_iff)
  show ?thesis
  proof (cases "n < 0")
    case False
    obtain b bs where b: "dec_digits (nat n) = b # bs" by (cases "dec_digits (nat n)") auto
    then have "b \<noteq> CHR ''-''" "b \<noteq> CHR ''+''" using dec_digits_digits [of b "nat n"] by (auto simp: is_ascii_digit_def)
    then show ?thesis using digits [of "nat n"] False b by (simp add: int_text_def)
  qed (simp add: int_text_def digits)
qed

lemma int_text_no_dot: "CHR ''.'' \<notin> set (int_text n)"
  using dec_digits_digits [of "CHR ''.''"] by (auto simp: int_text_def is_ascii_digit_def)

lemma encoded_parts: "cursor_parts (drop 3 (encode_cursor p at1)) = Some (pv_stream p, int_text (po_epoch at1), int_text (po_sequence at1))"
proof -
  have "drop 3 (encode_cursor p at1) =
      (pv_stream p @ CHR ''.'' # int_text (po_epoch at1)) @ CHR ''.'' # int_text (po_sequence at1)"
    by (simp add: encode_cursor_def)
  then show ?thesis by (simp add: cursor_parts_def rsplit_once_last int_text_no_dot del: append_assoc)
qed

definition small :: "int \<Rightarrow> bool" where
  "small n \<longleftrightarrow> - (2 ^ 63) \<le> n \<and> n < 2 ^ 63"

definition reached :: "tables \<Rightarrow> position \<Rightarrow> bool" where
  "reached t at1 \<longleftrightarrow> po_epoch at1 < current_epoch t \<or>
     (po_epoch at1 = current_epoch t \<and> po_sequence at1 \<le> last_sequence t (current_epoch t) + 1)"

lemma decode_encode:
  assumes "small (po_epoch at1)" "small (po_sequence at1)"
  shows "decode_cursor q (encode_cursor p at1) =
    (if pv_stream p \<noteq> pv_stream q then Inl (new_invalid_cursor ''from another stream'')
     else if reached (pv_store q) at1 then Inr at1 else Inl (new_invalid_cursor ''beyond the end of the stream''))"
proof -
  have "prefix ''c1.'' (encode_cursor p at1)" by (simp add: encode_cursor_def)
  moreover have "parse_bounded (int_text n) = Some n" if "small n" for n
    using that by (simp add: parse_bounded_def parse_int_text small_def)
  ultimately show ?thesis
    using assms by (auto simp: decode_cursor_def encoded_parts Let_def reached_def)
qed


subsection \<open>A pass ends\<close>

text \<open>What is left to deliver from a position: every item takes some of it away.\<close>

definition remaining :: "tables \<Rightarrow> position \<Rightarrow> nat" where
  "remaining t at1 = length (filter (\<lambda>e. pos at1 \<le> position_key e) (tb_events t)) + nat (current_epoch t - max 0 (po_epoch at1))"

lemma length_filter_mono: "(\<And>x. x \<in> set xs \<Longrightarrow> P x \<Longrightarrow> Q x) \<Longrightarrow> length (filter P xs) \<le> length (filter Q xs)"
  by (induction xs) (auto intro: le_SucI)

lemma length_filter_less:
  "(\<And>x. x \<in> set xs \<Longrightarrow> P x \<Longrightarrow> Q x) \<Longrightarrow> y \<in> set xs \<Longrightarrow> Q y \<Longrightarrow> \<not> P y \<Longrightarrow> length (filter P xs) < length (filter Q xs)"
proof (induction xs)
  case (Cons x xs)
  show ?case
  proof (cases "x = y")
    case True
    then show ?thesis using Cons.prems length_filter_mono [of xs P Q] by (auto simp: less_Suc_eq_le)
  next
    case False
    then have "length (filter P xs) < length (filter Q xs)" using Cons by simp
    then show ?thesis using Cons.prems(1) [of x] by auto
  qed
qed simp

lemma pos_le_epoch: "pos a \<le> pos b \<Longrightarrow> po_epoch a \<le> po_epoch b"
  by (auto simp: pos_def less_eq_prod_def)

lemma remaining_mono: "pos a \<le> pos b \<Longrightarrow> remaining t b \<le> remaining t a"
proof -
  assume le: "pos a \<le> pos b"
  have "length (filter (\<lambda>e. pos b \<le> position_key e) (tb_events t)) \<le> length (filter (\<lambda>e. pos a \<le> position_key e) (tb_events t))"
    by (rule length_filter_mono) (use le in \<open>blast intro: order_trans\<close>)
  then show ?thesis using pos_le_epoch [OF le] unfolding remaining_def by linarith
qed

lemma remaining_event:
  assumes "e \<in> set (tb_events t)" "pos a \<le> position_key e" "position_key e < pos b"
  shows "remaining t b < remaining t a"
proof -
  have le: "pos a \<le> pos b" using assms(2,3) by (meson less_imp_le order_trans)
  have "length (filter (\<lambda>e. pos b \<le> position_key e) (tb_events t)) < length (filter (\<lambda>e. pos a \<le> position_key e) (tb_events t))"
  proof (rule length_filter_less [where y = e])
    show "pos a \<le> position_key x" if "pos b \<le> position_key x" for x using that le by (rule order_trans [rotated])
    show "\<not> pos b \<le> position_key e" using assms(3) by simp
    show "e \<in> set (tb_events t)" "pos a \<le> position_key e" by (rule assms)+
  qed
  then show ?thesis using pos_le_epoch [OF le] unfolding remaining_def by linarith
qed

lemma remaining_epoch:
  assumes "pos a \<le> pos b" "max 0 (po_epoch a) < po_epoch b" "po_epoch b \<le> current_epoch t"
  shows "remaining t b < remaining t a"
proof -
  have "length (filter (\<lambda>e. pos b \<le> position_key e) (tb_events t)) \<le> length (filter (\<lambda>e. pos a \<le> position_key e) (tb_events t))"
    by (rule length_filter_mono) (use assms(1) in \<open>blast intro: order_trans\<close>)
  then show ?thesis using assms(2,3) unfolding remaining_def by linarith
qed

text \<open>A step forward: the position does not go back, and an item moved it past something.\<close>

definition advances :: "tables \<Rightarrow> reading \<Rightarrow> reading \<Rightarrow> bool" where
  "advances t rd rd' \<longleftrightarrow> pos (rd_at rd) \<le> pos (rd_at rd') \<and> length (rd_items rd) \<le> length (rd_items rd') \<and>
     (length (rd_items rd) < length (rd_items rd') \<longrightarrow> remaining t (rd_at rd') < remaining t (rd_at rd))"

lemma advances_refl [simp]: "advances t rd rd"
  by (simp add: advances_def)

lemma advances_trans: "advances t a b \<Longrightarrow> advances t b c \<Longrightarrow> advances t a c"
  unfolding advances_def using remaining_mono [of "rd_at a" "rd_at b" t] remaining_mono [of "rd_at b" "rd_at c" t]
  by (meson le_less_trans less_le_trans linorder_not_less order_trans)

lemma deliver_advances:
  "deliver q es rd = (b, rd') \<Longrightarrow> sorted_wrt (<) (map position_key es) \<Longrightarrow> set es \<subseteq> set (tb_events t) \<Longrightarrow>
   (\<forall>e \<in> set es. fst (position_key e) = ep \<and> pos (rd_at rd) \<le> position_key e) \<Longrightarrow> advances t rd rd'"
proof (induction q es rd arbitrary: b rd' rule: deliver.induct)
  case (2 q e es rd)
  let ?after = "\<lparr>po_epoch = po_epoch (er_position e), po_sequence = po_sequence (er_position e) + 1\<rparr>"
  have ep: "fst (position_key e) = ep" and at: "pos (rd_at rd) \<le> position_key e" using "2.prems"(4) by auto
  have after: "pos ?after = (ep, snd (position_key e) + 1)" using ep by (simp add: position_key_def)
  have lt: "position_key e < pos ?after" using less_after [OF ep] after by simp
  have below: "\<forall>x \<in> set es. fst (position_key x) = ep \<and> pos ?after \<le> position_key x"
  proof
    fix x
    assume "x \<in> set es"
    then have "position_key e < position_key x" "fst (position_key x) = ep" using "2.prems"(2,4) by auto
    then show "fst (position_key x) = ep \<and> pos ?after \<le> position_key x"
      using after ep by (auto simp: less_prod_def less_eq_prod_def)
  qed
  show ?case
  proof (cases "full q rd")
    case True
    then show ?thesis using "2.prems"(1) by simp
  next
    case nf: False
    show ?thesis
    proof (cases "wanted q e")
      case False
      let ?rd = "rd\<lparr>rd_at := ?after, rd_filtered := True\<rparr>"
      have "advances t ?rd rd'"
        by (rule "2.IH"(1) [OF nf refl False]) (use "2.prems" nf False below in \<open>simp_all add: Let_def\<close>)
      moreover have "advances t rd ?rd" using at lt by (auto simp: advances_def)
      ultimately show ?thesis using advances_trans by blast
    next
      case w: True
      let ?item = "event_item (qa_stream q) e"
      let ?rd = "rd\<lparr>rd_at := ?after, rd_used := rd_used rd + length (to_canonical ?item), rd_items := rd_items rd @ [?item]\<rparr>"
      show ?thesis
      proof (cases "rd_used rd + length (to_canonical ?item) > qa_budget q")
        case True
        then show ?thesis using "2.prems"(1) nf w at by (auto simp: Let_def advances_def)
      next
        case False
        have "advances t ?rd rd'"
          by (rule "2.IH"(2) [OF nf refl _ refl refl False]) (use "2.prems" nf w False below in \<open>simp_all add: Let_def\<close>)
        moreover have "advances t rd ?rd"
          using at lt remaining_event [OF _ at, of t ?after] "2.prems"(3) by (auto simp: advances_def)
        ultimately show ?thesis using advances_trans by blast
      qed
    qed
  qed
qed simp


lemma push_item_advances:
  assumes "push_item q item after rd = (b, rd')" "pos (rd_at rd) \<le> pos after" "remaining t after < remaining t (rd_at rd)"
  shows "advances t rd rd'"
  using assms by (auto simp: push_item_def advances_def Let_def split: if_splits)

lemma advances_filtered: "advances t (rd\<lparr>rd_filtered := x\<rparr>) rd' \<longleftrightarrow> advances t rd rd'"
  by (simp add: advances_def)

lemma next_epoch_remaining: "0 \<le> po_epoch p \<Longrightarrow> po_epoch p < current_epoch t \<Longrightarrow> remaining t (next_epoch p) < remaining t p"
  by (rule remaining_epoch) (auto simp: next_epoch_def pos_def less_eq_prod_def)

lemma gap_remaining:
  assumes ok: "stream_ok t H" and due: "gap_due t p" and le: "po_epoch p \<le> current_epoch t"
  defines "after \<equiv> \<lparr>po_epoch = po_epoch (head t), po_sequence = po_sequence (head t) + 1\<rparr>"
  shows "pos p \<le> pos after" "remaining t after < remaining t p"
proof -
  obtain w where w: "watermark t = Some w" "pos p \<le> w" using due by (auto simp: gap_due_def pos_def split: option.splits)
  have H: "H \<noteq> []" using stream_okD(8) [OF ok] w(1) by auto
  have r: "w < position_key (last H)" using stream_okD(9) [OF ok H] w(1) by (simp add: retained_def)
  have l: "pos p < position_key (last H)" using w(2) r by (rule le_less_trans)
  have e: "fst (position_key (last H)) \<le> current_epoch t" using stream_okD(5) [OF ok] H by simp
  have "last H \<in> set (tb_events t)"
    using stream_okD(1) [OF ok] stream_okD(9) [OF ok H] H by simp
  moreover have "position_key (last H) < pos after"
  proof (cases "fst (position_key (last H)) = current_epoch t")
    case True
    then have "snd (position_key (last H)) \<le> last_sequence t (current_epoch t)"
      using sequence_in_history [OF ok _ True] H by simp
    then show ?thesis using True by (cases "position_key (last H)") (simp add: after_def head_def)
  qed (use e in \<open>cases "position_key (last H)"; simp add: after_def head_def\<close>)
  ultimately show "pos p \<le> pos after" "remaining t after < remaining t p"
    using l remaining_event [of "last H" t p after] by (auto intro: less_imp_le dest: less_trans)
qed

lemma read_step_advances:
  assumes ok: "stream_ok t H" and step: "read_step t q rd = (b, rd')"
  shows "advances t rd rd'"
proof -
  let ?p = "rd_at rd" let ?v = "vouched_through t (po_epoch ?p)"
  have old: "1 \<le> po_epoch ?p" if "?v = Some v" for v using stream_okD(7) [OF ok, of "po_epoch ?p"] that by auto
  consider (stop) "\<not> (po_epoch ?p \<le> current_epoch t \<and> \<not> full q rd)"
    | (passed) "po_epoch ?p \<le> current_epoch t" "\<not> full q rd" "(case ?v of None \<Rightarrow> False | Some v \<Rightarrow> po_sequence ?p > v) \<and> po_epoch ?p < current_epoch t"
    | (gap) "po_epoch ?p \<le> current_epoch t" "\<not> full q rd" "\<not> ((case ?v of None \<Rightarrow> False | Some v \<Rightarrow> po_sequence ?p > v) \<and> po_epoch ?p < current_epoch t)" "gap_due t ?p"
    | (events) "po_epoch ?p \<le> current_epoch t" "\<not> full q rd" "\<not> ((case ?v of None \<Rightarrow> False | Some v \<Rightarrow> po_sequence ?p > v) \<and> po_epoch ?p < current_epoch t)" "\<not> gap_due t ?p"
    by blast
  then show ?thesis
  proof cases
    case stop
    then show ?thesis using step by (simp add: read_step_def)
  next
    case passed
    then obtain v where v: "?v = Some v" "po_epoch ?p < current_epoch t" by (cases ?v) auto
    then have "push_item q (epoch_change_item (po_epoch ?p) v) (next_epoch ?p) rd = (b, rd')"
      using step passed by (simp add: read_step_def Let_def)
    then show ?thesis
      by (rule push_item_advances [OF _ pos_next_epoch next_epoch_remaining]) (use old [OF v(1)] v(2) in simp_all)
  next
    case gap
    obtain subjects hidden where s: "snapshot_subjects t (qa_visible q) = (subjects, hidden)" by fastforce
    have p: "push_item q (gap_item ?p (head t) subjects) \<lparr>po_epoch = po_epoch (head t), po_sequence = po_sequence (head t) + 1\<rparr>
        (rd\<lparr>rd_filtered := rd_filtered rd \<or> hidden\<rparr>) = (b, rd')"
      using step gap s by (auto simp: read_step_def Let_def split: if_splits option.splits)
    have "advances t (rd\<lparr>rd_filtered := rd_filtered rd \<or> hidden\<rparr>) rd'"
      by (rule push_item_advances [OF p]) (use gap_remaining [OF ok gap(4,1)] in simp_all)
    then show ?thesis by (simp add: advances_filtered)
  next
    case events
    obtain broke rd1 where d: "deliver q (events_in t (po_epoch ?p) (po_sequence ?p) ?v) rd = (broke, rd1)" by fastforce
    have a1: "advances t rd rd1"
    proof (rule deliver_advances [OF d events_in_sorted(2) [OF ok]])
      show "set (events_in t (po_epoch ?p) (po_sequence ?p) ?v) \<subseteq> set (tb_events t)"
        unfolding events_in_sorted(1) [OF ok] by auto
      show "\<forall>e \<in> set (events_in t (po_epoch ?p) (po_sequence ?p) ?v). fst (position_key e) = po_epoch ?p \<and> pos ?p \<le> position_key e"
        unfolding events_in_sorted(1) [OF ok] by (auto simp: pos_def position_key_def)
    qed
    have not_passed: "\<not> (case ?v of None \<Rightarrow> False | Some v \<Rightarrow> po_sequence ?p > v) \<or> \<not> po_epoch ?p < current_epoch t"
      using events(3) by blast
    have step': "(if broke then (False, rd1)
       else (case ?v of None \<Rightarrow> (False, rd1)
             | Some v \<Rightarrow> if po_epoch (rd_at rd1) < current_epoch t then
                 (if full q rd1 then (False, rd1)
                  else push_item q (epoch_change_item (po_epoch (rd_at rd1)) v) (next_epoch (rd_at rd1)) rd1)
               else (False, rd1))) = (b, rd')"
      using step events d not_passed by (auto simp: read_step_def Let_def split: if_splits)
    show ?thesis
    proof (cases "\<not> broke \<and> ?v \<noteq> None \<and> po_epoch (rd_at rd1) < current_epoch t \<and> \<not> full q rd1")
      case True
      then obtain v where v: "?v = Some v" by blast
      have "0 \<le> po_epoch (rd_at rd1)" using old [OF v] a1 pos_le_epoch [of ?p "rd_at rd1"] by (simp add: advances_def)
      moreover have "push_item q (epoch_change_item (po_epoch (rd_at rd1)) v) (next_epoch (rd_at rd1)) rd1 = (b, rd')"
        using step' True v by simp
      ultimately have "advances t rd1 rd'"
        using push_item_advances [OF _ pos_next_epoch next_epoch_remaining] True by blast
      then show ?thesis using a1 advances_trans by blast
    next
      case False
      then have "rd' = rd1" using step' by (auto split: if_splits option.splits)
      then show ?thesis using a1 by simp
    qed
  qed
qed

lemma read_loop_advances: "stream_ok t H \<Longrightarrow> advances t rd (read_loop n t q rd)"
proof (induction n arbitrary: rd)
  case (Suc n)
  obtain b rd1 where s: "read_step t q rd = (b, rd1)" by fastforce
  then show ?case using Suc read_step_advances [OF Suc.prems s] advances_trans by auto
qed simp

lemma read_events_remaining:
  assumes "stream_ok t H" "rd_items (read_events t q start) \<noteq> []"
  shows "remaining t (rd_at (read_events t q start)) < remaining t start"
  using read_loop_advances [OF assms(1), of "\<lparr>rd_items = [], rd_at = start, rd_used = 0, rd_filtered = False, rd_too_large = False\<rparr>" "nat (qa_limit q)" q]
    assms(2) by (simp add: advances_def read_events_def)

lemma delivery_remaining:
  assumes "stream_ok (pv_store p) H" "delivery clk p room whole s d = ((True, w), s', d')"
  shows "remaining (pv_store p) (sb_cursor s') < remaining (pv_store p) (sb_cursor s)"
  using assms(2) read_events_remaining [OF assms(1)]
  by (auto simp: delivery_def Let_def split: if_splits option.splits)

lemma deliveries_enough:
  assumes "stream_ok (pv_store p) H"
  shows "remaining (pv_store p) (sb_cursor s) < n \<Longrightarrow> n \<le> m \<Longrightarrow>
    deliveries m clk p room whole s d = deliveries n clk p room whole s d"
proof (induction n arbitrary: m s d)
  case (Suc n)
  obtain k where m: "m = Suc k" "n \<le> k" using Suc.prems(2) by (cases m) auto
  obtain again w s1 d1 where st: "delivery clk p room whole s d = ((again, w), s1, d1)" by (metis surj_pair)
  show ?case
  proof (cases again)
    case True
    then have "remaining (pv_store p) (sb_cursor s1) < n" using delivery_remaining [OF assms] st Suc.prems(1) by fastforce
    then have "deliveries k clk p room whole s1 d1 = deliveries n clk p room whole s1 d1" using m(2) by (rule Suc.IH)
    then show ?thesis using m(1) st by simp
  next
    case False
    then show ?thesis using m(1) st by simp
  qed
qed simp

lemma remaining_bound: "remaining (pv_store p) at1 < deliveries_bound p"
proof -
  have "length (filter (\<lambda>e. pos at1 \<le> position_key e) (tb_events (pv_store p))) \<le> length (tb_events (pv_store p))" by (rule length_filter_le)
  moreover have "nat (current_epoch (pv_store p) - max 0 (po_epoch at1)) \<le> nat (current_epoch (pv_store p))" by simp
  ultimately show ?thesis unfolding remaining_def deliveries_bound_def by linarith
qed


subsection \<open>What a pass delivers\<close>

lemma deliver_too_large:
  "deliver q es rd = (b, rd') \<Longrightarrow> \<not> rd_too_large rd \<Longrightarrow> rd_too_large rd' \<Longrightarrow> b \<and> rd_items rd' = []"
  by (induction q es rd arbitrary: b rd' rule: deliver.induct) (fastforce simp: Let_def split: if_splits)+

lemma push_item_too_large: "push_item q item after rd = (b, rd') \<Longrightarrow> rd_too_large rd' = rd_too_large rd"
  by (auto simp: push_item_def Let_def split: if_splits)

lemma read_step_too_large:
  assumes "read_step t q rd = (b, rd')" "\<not> rd_too_large rd" "rd_too_large rd'"
  shows "\<not> b \<and> rd_items rd' = []"
  using assms by (auto simp: read_step_def Let_def split: if_splits option.splits prod.splits
      dest: deliver_too_large push_item_too_large)

lemma read_loop_too_large: "\<not> rd_too_large rd \<Longrightarrow> rd_too_large (read_loop n t q rd) \<Longrightarrow> rd_items (read_loop n t q rd) = []"
proof (induction n arbitrary: rd)
  case (Suc n)
  obtain b rd1 where s: "read_step t q rd = (b, rd1)" by fastforce
  show ?case using Suc read_step_too_large [OF s Suc.prems(1)] s by (cases b; cases "rd_too_large rd1") auto
qed simp

lemma read_events_too_large: "rd_too_large (read_events t q start) \<Longrightarrow> rd_items (read_events t q start) = []"
  unfolding read_events_def by (rule read_loop_too_large) simp_all

text \<open>The grant a subscription is served under, while it is served.\<close>

definition in_force_of :: "provider \<Rightarrow> subscription \<Rightarrow> grant option" where
  "in_force_of p s = (case sb_grant s of None \<Rightarrow> None | Some i \<Rightarrow> found (grant_at (pv_store p) i))"

definition sub_query :: "provider \<Rightarrow> subscription \<Rightarrow> query_args" where
  "sub_query p s = read_query p 1000 (sb_kinds s) (in_force_of p s)"

lemma authorized_in_force:
  "events_authorization p now (sb_principal s) (sb_grant s) = Some in_force \<Longrightarrow> in_force = in_force_of p s"
  by (auto simp: events_authorization_def in_force_of_def split: option.splits if_splits)

definition told :: "provider \<Rightarrow> subscription \<Rightarrow> jvalue list \<Rightarrow> event_row \<Rightarrow> bool" where
  "told p s frames e \<longleftrightarrow>
     (\<exists>items cursor. notification (sb_id s) items cursor None \<in> set frames \<and> answered (pv_store p) (sub_query p s) items e)"

definition delivered :: "provider \<Rightarrow> event_row list \<Rightarrow> subscription \<Rightarrow> position \<Rightarrow> jvalue list \<Rightarrow> bool" where
  "delivered p H s c frames \<longleftrightarrow> (\<forall>e \<in> set H. pos (sb_cursor s) \<le> position_key e \<longrightarrow> position_key e < pos c \<longrightarrow>
     deliverable (pv_store p) e \<longrightarrow> wanted (sub_query p s) e \<longrightarrow> told p s frames e)"

definition attended :: "provider \<Rightarrow> event_row list \<Rightarrow> subscription \<Rightarrow> subscription \<Rightarrow> jvalue list \<Rightarrow> bool" where
  "attended p H s s' frames \<longleftrightarrow> (\<exists>c. pos (sb_cursor s) \<le> pos c \<and> delivered p H s c frames \<and>
     (s' = s\<lparr>sb_cursor := c\<rparr> \<or>
      (sb_ended s' \<and> (\<exists>reason. ending_notification p (sb_id s) c reason \<in> set frames))))"

lemma delivered_more: "delivered p H s c frames \<Longrightarrow> set frames \<subseteq> set frames' \<Longrightarrow> delivered p H s c frames'"
  unfolding delivered_def told_def by blast

lemma attended_more: "attended p H s s' frames \<Longrightarrow> set frames \<subseteq> set frames' \<Longrightarrow> attended p H s s' frames'"
  unfolding attended_def using delivered_more by blast

lemma delivered_here: "delivered p H s (sb_cursor s) frames"
  unfolding delivered_def by force

lemma sub_query_cursor [simp]: "sub_query p (s\<lparr>sb_cursor := c\<rparr>) = sub_query p s"
  by (simp add: sub_query_def in_force_of_def)

lemma delivered_step:
  assumes "delivered p H s c frames" "delivered p H (s\<lparr>sb_cursor := c\<rparr>) c' frames"
  shows "delivered p H s c' frames"
  unfolding delivered_def
proof (intro ballI impI)
  fix e
  assume e: "e \<in> set H" "pos (sb_cursor s) \<le> position_key e" "position_key e < pos c'"
    "deliverable (pv_store p) e" "wanted (sub_query p s) e"
  show "told p s frames e"
  proof (cases "position_key e < pos c")
    case True
    then show ?thesis using assms(1) e unfolding delivered_def by blast
  next
    case False
    then have "told p (s\<lparr>sb_cursor := c\<rparr>) frames e" using assms(2) e unfolding delivered_def by simp
    then show ?thesis by (simp add: told_def)
  qed
qed

lemma delivery_attends:
  assumes ok: "stream_ok (pv_store p) H" and run: "delivery clk p room whole s d = ((again, w), s', d')"
  shows "\<exists>new. ps_frames d' = ps_frames d @ new \<and> attended p H s s' new \<and>
    (again \<longrightarrow> (\<exists>c. s' = s\<lparr>sb_cursor := c\<rparr> \<and> pos (sb_cursor s) \<le> pos c \<and> delivered p H s c new))"
proof (cases "sb_ended s")
  case True
  then show ?thesis using run delivered_here [of p H s] by (auto simp: delivery_def attended_def intro!: exI [of _ "sb_cursor s"])
next
  case False
  note live = False
  show ?thesis
  proof (cases "events_authorization p (clk (ps_asked d)) (sb_principal s) (sb_grant s)")
    case None
    then show ?thesis using run live delivered_here [of p H s]
      by (auto simp: delivery_def attended_def Let_def intro!: exI [of _ "sb_cursor s"])
  next
    case (Some in_force)
    let ?rd = "read_events (pv_store p) (sub_query p s) (sb_cursor s)"
    have q: "read_query p 1000 (sb_kinds s) in_force = sub_query p s"
      using authorized_in_force [OF Some] by (simp add: sub_query_def)
    have cov: "covered (pv_store p) (sub_query p s) H (sb_cursor s) ?rd" and le: "pos (sb_cursor s) \<le> pos (rd_at ?rd)"
      using read_events_covered [OF ok] by blast+
    have quiet: "attended p H s s new" for new
      using delivered_here unfolding attended_def by (intro exI [of _ "sb_cursor s"]) simp
    show ?thesis
    proof (cases "rd_too_large ?rd")
      case True
      then have "rd_items ?rd = []" by (rule read_events_too_large)
      then have "delivered p H s (rd_at ?rd) new" for new
        using cov unfolding covered_def delivered_def by (auto simp: answered_def)
      then show ?thesis using run live Some True le
        by (auto simp: delivery_def Let_def q attended_def intro!: exI [of _ "rd_at ?rd"])
    next
      case small: False
      show ?thesis
      proof (cases "again")
        case True
        let ?frame = "notification (sb_id s) (rd_items ?rd) (encode_cursor p (rd_at ?rd)) None"
        have s': "s' = s\<lparr>sb_cursor := rd_at ?rd\<rparr>" "ps_frames d' = ps_frames d @ [?frame]"
          using run live Some small True by (auto simp: delivery_def Let_def q split: if_splits)
        have "delivered p H s (rd_at ?rd) [?frame]"
          using cov unfolding covered_def delivered_def told_def by auto
        then show ?thesis using s' le by (auto simp: attended_def)
      next
        case False
        then have "s' = s" "ps_frames d' = ps_frames d"
          using run live Some small by (auto simp: delivery_def Let_def q split: if_splits)
        then show ?thesis using quiet False by auto
      qed
    qed
  qed
qed

lemma attended_step:
  assumes "pos (sb_cursor s) \<le> pos c" "delivered p H s c frames" "attended p H (s\<lparr>sb_cursor := c\<rparr>) s' frames"
  shows "attended p H s s' frames"
proof -
  obtain c' where c': "pos c \<le> pos c'" "delivered p H (s\<lparr>sb_cursor := c\<rparr>) c' frames"
      "s' = s\<lparr>sb_cursor := c'\<rparr> \<or> (sb_ended s' \<and> (\<exists>reason. ending_notification p (sb_id s) c' reason \<in> set frames))"
    using assms(3) by (auto simp: attended_def)
  have "pos (sb_cursor s) \<le> pos c'" using assms(1) c'(1) by (rule order_trans)
  then show ?thesis using delivered_step [OF assms(2) c'(2)] c'(3) unfolding attended_def by blast
qed

lemma deliveries_attend:
  assumes "stream_ok (pv_store p) H"
  shows "deliveries n clk p room whole s d = (w, s', d') \<Longrightarrow> \<exists>new. ps_frames d' = ps_frames d @ new \<and> attended p H s s' new"
proof (induction n arbitrary: s d)
  case 0
  then show ?case using delivered_here [of p H s] by (auto simp: attended_def intro!: exI [of _ "sb_cursor s"])
next
  case (Suc n)
  obtain again w1 s1 d1 where st: "delivery clk p room whole s d = ((again, w1), s1, d1)" by (metis surj_pair)
  obtain new where new: "ps_frames d1 = ps_frames d @ new" "attended p H s s1 new"
    "again \<longrightarrow> (\<exists>c. s1 = s\<lparr>sb_cursor := c\<rparr> \<and> pos (sb_cursor s) \<le> pos c \<and> delivered p H s c new)"
    using delivery_attends [OF assms st] by blast
  show ?case
  proof (cases again)
    case True
    then obtain c where c: "s1 = s\<lparr>sb_cursor := c\<rparr>" "pos (sb_cursor s) \<le> pos c" "delivered p H s c new" using new(3) by blast
    have "deliveries n clk p room whole s1 d1 = (w, s', d')" using Suc.prems st True by simp
    then obtain more where more: "ps_frames d' = ps_frames d1 @ more" "attended p H s1 s' more" using Suc.IH by blast
    have "attended p H s s' (new @ more)"
    proof (rule attended_step [OF c(2)])
      show "delivered p H s c (new @ more)" by (rule delivered_more [OF c(3)]) simp
      show "attended p H (s\<lparr>sb_cursor := c\<rparr>) s' (new @ more)" by (rule attended_more [OF more(2) [unfolded c(1)]]) simp
    qed
    then show ?thesis using new(1) more(1) by auto
  next
    case False
    then show ?thesis using Suc.prems st new by auto
  qed
qed

lemma drain_each_attends:
  "stream_ok (pv_store p) H \<Longrightarrow> drain_each clk p room whole ss d = (w, ss', d') \<Longrightarrow>
    \<exists>new. ps_frames d' = ps_frames d @ new \<and> list_all2 (\<lambda>s s'. attended p H s s' new) ss ss'"
proof (induction clk p room whole ss d arbitrary: w ss' d' rule: drain_each.induct)
  case (2 clk p room whole s ss d)
  obtain w1 s1 d1 where st: "deliveries (deliveries_bound p) clk p room whole s d = (w1, s1, d1)" by (metis surj_pair)
  obtain new where new: "ps_frames d1 = ps_frames d @ new" "attended p H s s1 new"
    using deliveries_attend [OF "2.prems"(1) st] by blast
  show ?case
  proof (cases w1)
    case True
    then have r: "ss' = s1 # ss" "d' = d1" using "2.prems"(2) st by simp_all
    have "list_all2 (\<lambda>s s'. attended p H s s' new) ss ss"
      by (rule list.rel_refl) (use delivered_here in \<open>force simp: attended_def\<close>)
    then show ?thesis using r new by auto
  next
    case False
    obtain w2 ss2 d2 where rest: "drain_each clk p room whole ss d1 = (w2, ss2, d2)" by (metis surj_pair)
    then have r: "ss' = s1 # ss2" "d' = d2" using "2.prems"(2) st False by simp_all
    obtain more where more: "ps_frames d2 = ps_frames d1 @ more" "list_all2 (\<lambda>s s'. attended p H s s' more) ss ss2"
      using "2.IH" [OF st [symmetric] refl False "2.prems"(1) rest] by blast
    have "attended p H s s1 (new @ more)" by (rule attended_more [OF new(2)]) simp
    moreover have "list_all2 (\<lambda>s s'. attended p H s s' (new @ more)) ss ss2"
      by (rule list.rel_mono_strong [OF more(2)]) (rule attended_more, auto)
    ultimately show ?thesis using r new(1) more(1) by (intro exI [of _ "new @ more"]) simp
  qed
qed simp

lemma drain_attends:
  assumes "stream_ok (pv_store p) H" "drain_subscriptions clk room whole p = ((frames, withheld), p1)" "s \<in> set (pv_subscriptions p)" "\<not> sb_ended s"
  obtains c where "pos (sb_cursor s) \<le> pos c" "delivered p H s c frames"
    "s\<lparr>sb_cursor := c\<rparr> \<in> set (pv_subscriptions p1) \<or> (\<exists>reason. ending_notification p (sb_id s) c reason \<in> set frames)"
proof -
  obtain w ss d where dr: "drain_each clk p room whole (pv_subscriptions p) \<lparr>ps_frames = [], ps_produced = 0, ps_asked = 0\<rparr> = (w, ss, d)"
    by (metis surj_pair)
  then have r: "frames = ps_frames d" "p1 = p\<lparr>pv_subscriptions := filter (\<lambda>s. \<not> sb_ended s) ss\<rparr>"
    using assms(2) by (simp_all add: drain_subscriptions_def)
  have all: "list_all2 (\<lambda>s s'. attended p H s s' frames) (pv_subscriptions p) ss"
    using drain_each_attends [OF assms(1) dr] r(1) by auto
  obtain s' where s': "s' \<in> set ss" "attended p H s s' frames"
    using all assms(3) by (metis in_set_conv_nth list_all2_conv_all_nth)
  then obtain c where c: "pos (sb_cursor s) \<le> pos c" "delivered p H s c frames"
    "s' = s\<lparr>sb_cursor := c\<rparr> \<or> (sb_ended s' \<and> (\<exists>reason. ending_notification p (sb_id s) c reason \<in> set frames))"
    by (auto simp: attended_def)
  show ?thesis
  proof (rule that [OF c(1,2)])
    show "s\<lparr>sb_cursor := c\<rparr> \<in> set (pv_subscriptions p1) \<or> (\<exists>reason. ending_notification p (sb_id s) c reason \<in> set frames)"
      using c(3) s'(1) assms(4) r(2) by auto
  qed
qed


subsection \<open>What a pass may show\<close>

text \<open>The subscription's principal was authorized for the frame, and its items are what that authority may see.\<close>

definition shown_to :: "(nat \<Rightarrow> string) \<Rightarrow> provider \<Rightarrow> subscription \<Rightarrow> jvalue list \<Rightarrow> bool" where
  "shown_to clk p s items \<longleftrightarrow>
     (\<exists>n in_force start. events_authorization p (clk n) (sb_principal s) (sb_grant s) = Some in_force \<and>
        list_all (item_ok (pv_store p) (read_query p 1000 (sb_kinds s) in_force) start) items)"

definition frames_shown :: "(nat \<Rightarrow> string) \<Rightarrow> provider \<Rightarrow> subscription \<Rightarrow> jvalue list \<Rightarrow> bool" where
  "frames_shown clk p s frames \<longleftrightarrow> (\<forall>frame \<in> set frames.
     (\<exists>c reason. frame = ending_notification p (sb_id s) c reason) \<or>
     (\<exists>items cursor. frame = notification (sb_id s) items cursor None \<and> shown_to clk p s items))"

lemma frames_shown_simps [simp]:
  "frames_shown clk p s []" "frames_shown clk p s [ending_notification p (sb_id s) c reason]"
  by (auto simp: frames_shown_def)

lemma frames_shown_items:
  "events_authorization p (clk n) (sb_principal s) (sb_grant s) = Some in_force \<Longrightarrow>
   list_all (item_ok (pv_store p) (read_query p 1000 (sb_kinds s) in_force) start) items \<Longrightarrow>
   frames_shown clk p s [notification (sb_id s) items cursor None]"
  unfolding frames_shown_def shown_to_def by (simp, intro disjI2 exI conjI, rule refl, assumption+)

lemma delivery_shows:
  assumes "stream_ok (pv_store p) H" "delivery clk p room whole s d = ((again, w), s', d')"
  shows "\<exists>new. ps_frames d' = ps_frames d @ new \<and> frames_shown clk p s new \<and>
    sb_id s' = sb_id s \<and> sb_principal s' = sb_principal s \<and> sb_grant s' = sb_grant s \<and> sb_kinds s' = sb_kinds s"
proof (cases "again")
  case True
  then obtain in_force where f: "events_authorization p (clk (ps_asked d)) (sb_principal s) (sb_grant s) = Some in_force"
    using assms(2) by (auto simp: delivery_def Let_def split: if_splits option.splits)
  let ?rd = "read_events (pv_store p) (read_query p 1000 (sb_kinds s) in_force) (sb_cursor s)"
  have "list_all (item_ok (pv_store p) (read_query p 1000 (sb_kinds s) in_force) (sb_cursor s)) (rd_items ?rd)"
    using read_events_items_ok [OF assms(1)] by (simp add: items_ok_def)
  then have "frames_shown clk p s [notification (sb_id s) (rd_items ?rd) (encode_cursor p (rd_at ?rd)) None]"
    using f by (intro frames_shown_items [where clk = clk and n = "ps_asked d"])
  then show ?thesis using assms(2) True f by (auto simp: delivery_def Let_def split: if_splits)
next
  case False
  then show ?thesis using assms(2)
    by (auto simp: delivery_def Let_def split: if_splits option.splits)
qed

lemma frames_shown_same:
  "sb_id s' = sb_id s \<Longrightarrow> sb_principal s' = sb_principal s \<Longrightarrow> sb_grant s' = sb_grant s \<Longrightarrow> sb_kinds s' = sb_kinds s \<Longrightarrow>
   frames_shown clk p s' frames = frames_shown clk p s frames"
  by (simp add: frames_shown_def shown_to_def)

lemma frames_shown_append [simp]: "frames_shown clk p s (a @ b) \<longleftrightarrow> frames_shown clk p s a \<and> frames_shown clk p s b"
  unfolding frames_shown_def by auto

lemma deliveries_show:
  assumes "stream_ok (pv_store p) H"
  shows "deliveries n clk p room whole s d = (w, s', d') \<Longrightarrow> \<exists>new. ps_frames d' = ps_frames d @ new \<and> frames_shown clk p s new"
proof (induction n arbitrary: s d)
  case 0
  then show ?case by (auto simp: frames_shown_def)
next
  case (Suc n)
  obtain again w1 s1 d1 where st: "delivery clk p room whole s d = ((again, w1), s1, d1)" by (metis surj_pair)
  obtain new where new: "ps_frames d1 = ps_frames d @ new" "frames_shown clk p s new"
    and same: "sb_id s1 = sb_id s" "sb_principal s1 = sb_principal s" "sb_grant s1 = sb_grant s" "sb_kinds s1 = sb_kinds s"
    using delivery_shows [OF assms st] by blast
  show ?case
  proof (cases again)
    case True
    then have "deliveries n clk p room whole s1 d1 = (w, s', d')" using Suc.prems st by simp
    then obtain more where "ps_frames d' = ps_frames d1 @ more" "frames_shown clk p s1 more" using Suc.IH by blast
    then show ?thesis using new frames_shown_same [OF same] by auto
  next
    case False
    then show ?thesis using Suc.prems st new by auto
  qed
qed

lemma drain_each_shows:
  "stream_ok (pv_store p) H \<Longrightarrow> drain_each clk p room whole ss d = (w, ss', d') \<Longrightarrow>
    \<exists>new. ps_frames d' = ps_frames d @ new \<and> (\<forall>frame \<in> set new. \<exists>s \<in> set ss. frames_shown clk p s [frame])"
proof (induction clk p room whole ss d arbitrary: w ss' d' rule: drain_each.induct)
  case (2 clk p room whole s ss d)
  obtain w1 s1 d1 where st: "deliveries (deliveries_bound p) clk p room whole s d = (w1, s1, d1)" by (metis surj_pair)
  obtain new where new: "ps_frames d1 = ps_frames d @ new" "frames_shown clk p s new"
    using deliveries_show [OF "2.prems"(1) st] by blast
  then have one: "\<forall>frame \<in> set new. frames_shown clk p s [frame]" by (simp add: frames_shown_def)
  show ?case
  proof (cases w1)
    case True
    then show ?thesis using "2.prems"(2) st new one by auto
  next
    case False
    obtain w2 ss2 d2 where rest: "drain_each clk p room whole ss d1 = (w2, ss2, d2)" by (metis surj_pair)
    then have r: "d' = d2" using "2.prems"(2) st False by simp
    obtain more where "ps_frames d2 = ps_frames d1 @ more" "\<forall>frame \<in> set more. \<exists>s \<in> set ss. frames_shown clk p s [frame]"
      using "2.IH" [OF st [symmetric] refl False "2.prems"(1) rest] by blast
    then show ?thesis using new(1) one unfolding r by (intro exI [of _ "new @ more"]) auto
  qed
qed simp

subsection \<open>How much a pass produces\<close>

definition is_ending :: "jvalue \<Rightarrow> bool" where
  "is_ending frame \<longleftrightarrow> (\<exists>i cursor reason. frame = notification i [] cursor (Some reason))"

definition produced_by :: "jvalue list \<Rightarrow> nat" where
  "produced_by frames = sum_list (map (\<lambda>f. if is_ending f then 0 else length (encode_frame f)) frames)"

definition within_room :: "nat \<Rightarrow> bool \<Rightarrow> pass \<Rightarrow> bool" where
  "within_room room whole d \<longleftrightarrow> ps_produced d = produced_by (ps_frames d) \<and>
     (ps_produced d \<le> room \<or> (whole \<and> length (filter (\<lambda>f. \<not> is_ending f) (ps_frames d)) = 1))"

lemma ending_is_ending [simp]: "is_ending (ending_notification p i c reason)" "\<not> is_ending (notification i items cursor None)"
  by (auto simp: is_ending_def ending_notification_def notification_def)

lemma item_frame_nonempty: "0 < length (encode_frame f)"
  by (simp add: encode_frame_def)

lemma produced_zero: "produced_by fs = 0 \<Longrightarrow> filter (\<lambda>f. \<not> is_ending f) fs = []"
  using item_frame_nonempty by (induction fs) (auto simp: produced_by_def split: if_splits)

lemma delivery_room:
  assumes "delivery clk p room whole s d = ((again, w), s', d')" "within_room room whole d"
  shows "within_room room whole d'"
  using assms produced_zero [of "ps_frames d"]
  by (auto simp: delivery_def Let_def within_room_def produced_by_def split: if_splits option.splits)

lemma deliveries_room:
  "deliveries n clk p room whole s d = (w, s', d') \<Longrightarrow> within_room room whole d \<Longrightarrow> within_room room whole d'"
proof (induction n arbitrary: s d)
  case (Suc n)
  obtain again w1 s1 d1 where st: "delivery clk p room whole s d = ((again, w1), s1, d1)" by (metis surj_pair)
  show ?case using Suc st delivery_room [OF st] by (cases again) auto
qed simp

lemma drain_each_room:
  "drain_each clk p room whole ss d = (w, ss', d') \<Longrightarrow> within_room room whole d \<Longrightarrow> within_room room whole d'"
proof (induction clk p room whole ss d arbitrary: w ss' d' rule: drain_each.induct)
  case (2 clk p room whole s ss d)
  obtain w1 s1 d1 where st: "deliveries (deliveries_bound p) clk p room whole s d = (w1, s1, d1)" by (metis surj_pair)
  obtain w2 ss2 d2 where rest: "drain_each clk p room whole ss d1 = (w2, ss2, d2)" by (metis surj_pair)
  show ?case using "2.prems" st rest deliveries_room [OF st] "2.IH" [OF st [symmetric] refl _ rest] by (cases w1) auto
qed simp

subsection \<open>An example\<close>

definition example_subscriber :: provider where
  "example_subscriber = (example_session (default_config\<lparr>cf_authority_principals := [''caller'']\<rparr>) example_tables)
     \<lparr>pv_subscriptions := [\<lparr>sb_id = ''sub-1'', sb_cursor = \<lparr>po_epoch = 1, po_sequence = 1\<rparr>, sb_kinds = [],
        sb_principal = ''caller'', sb_grant = None, sb_ended = False\<rparr>],
      pv_receive_limit := 4096 + length (to_canonical (event_item ''s'' example_row))\<rparr>"

lemma example_subscriber_simps [simp]:
  "pv_store example_subscriber = example_tables" "pv_stream example_subscriber = ''s''"
  "pv_subscriptions example_subscriber = [\<lparr>sb_id = ''sub-1'', sb_cursor = \<lparr>po_epoch = 1, po_sequence = 1\<rparr>, sb_kinds = [],
        sb_principal = ''caller'', sb_grant = None, sb_ended = False\<rparr>]"
  "events_authorization example_subscriber now ''caller'' None = Some None"
  by (simp_all add: example_subscriber_def example_session_def events_authorization_def is_authority_def)

lemma example_read_query:
  "read_events example_tables (read_query example_subscriber 1000 [] None) \<lparr>po_epoch = 1, po_sequence = 1\<rparr> =
     \<lparr>rd_items = [event_item ''s'' example_row], rd_at = \<lparr>po_epoch = 1, po_sequence = 2\<rparr>,
      rd_used = length (to_canonical (event_item ''s'' example_row)), rd_filtered = False, rd_too_large = False\<rparr>"
  "read_events example_tables (read_query example_subscriber 1000 [] None) \<lparr>po_epoch = 1, po_sequence = 2\<rparr> =
     \<lparr>rd_items = [], rd_at = \<lparr>po_epoch = 1, po_sequence = 2\<rparr>, rd_used = 0, rd_filtered = False, rd_too_large = False\<rparr>"
proof -
  define q where "q = read_query example_subscriber 1000 [] None"
  have q: "qa_stream q = ''s''" "qa_limit q = 1000" "qa_kinds q = []" "qa_visible q = (\<lambda>_. True)"
    "qa_budget q = length (to_canonical (event_item ''s'' example_row))"
    by (simp_all add: q_def read_query_def receive_budget_def provider_may_read_def fun_eq_iff)
      (simp add: example_subscriber_def)
  have loop: "read_loop 1000 t q rd = (case read_step t q rd of (again, rd1) \<Rightarrow> if again then read_loop 999 t q rd1 else rd1)" for t rd
    using read_loop.simps(2) [of 999 t q rd] by simp
  have "read_events example_tables q \<lparr>po_epoch = 1, po_sequence = 1\<rparr> =
     \<lparr>rd_items = [event_item ''s'' example_row], rd_at = \<lparr>po_epoch = 1, po_sequence = 2\<rparr>,
      rd_used = length (to_canonical (event_item ''s'' example_row)), rd_filtered = False, rd_too_large = False\<rparr>"
    "read_events example_tables q \<lparr>po_epoch = 1, po_sequence = 2\<rparr> =
     \<lparr>rd_items = [], rd_at = \<lparr>po_epoch = 1, po_sequence = 2\<rparr>, rd_used = 0, rd_filtered = False, rd_too_large = False\<rparr>"
    using example_meta
    by (simp_all add: read_events_def loop read_step_def example_rows events_in_def vouched_through_def gap_due_def
      full_def wanted_def q Let_def)
  then show "read_events example_tables (read_query example_subscriber 1000 [] None) \<lparr>po_epoch = 1, po_sequence = 1\<rparr> =
     \<lparr>rd_items = [event_item ''s'' example_row], rd_at = \<lparr>po_epoch = 1, po_sequence = 2\<rparr>,
      rd_used = length (to_canonical (event_item ''s'' example_row)), rd_filtered = False, rd_too_large = False\<rparr>"
    "read_events example_tables (read_query example_subscriber 1000 [] None) \<lparr>po_epoch = 1, po_sequence = 2\<rparr> =
     \<lparr>rd_items = [], rd_at = \<lparr>po_epoch = 1, po_sequence = 2\<rparr>, rd_used = 0, rd_filtered = False, rd_too_large = False\<rparr>"
    unfolding q_def .
qed

definition example_frame :: jvalue where
  "example_frame = notification ''sub-1'' [event_item ''s'' example_row]
     (encode_cursor example_subscriber \<lparr>po_epoch = 1, po_sequence = 2\<rparr>) None"

lemma example_drain:
  "drain_subscriptions (\<lambda>_. ''now'') 0 True example_subscriber =
     (([example_frame], False), example_subscriber\<lparr>pv_subscriptions :=
        [\<lparr>sb_id = ''sub-1'', sb_cursor = \<lparr>po_epoch = 1, po_sequence = 2\<rparr>, sb_kinds = [],
          sb_principal = ''caller'', sb_grant = None, sb_ended = False\<rparr>]\<rparr>)"
proof -
  have "deliveries_bound example_subscriber = Suc (Suc (Suc (Suc 0)))"
    using example_meta by (simp add: deliveries_bound_def example_rows)
  then show ?thesis
    by (simp add: drain_subscriptions_def delivery_def Let_def example_read_query example_frame_def)
qed

lemma subscriber_reached: "store_step\<^sup>*\<^sup>* (empty_tables, []) (pv_store example_subscriber, tb_events example_tables)"
  using stream_reached by simp

subsection \<open>Further facts\<close>

text \<open>
  A cursor the provider minted reads back as the position it names on the stream that minted it,
  as long as that position has been reached; on another stream, or when it lies beyond the end, it
  is refused with that reason.
\<close>

theorem cursors_read_back:
  assumes "- (2 ^ 63) \<le> po_epoch at1" "po_epoch at1 < 2 ^ 63" "- (2 ^ 63) \<le> po_sequence at1" "po_sequence at1 < 2 ^ 63"
  shows "decode_cursor q (encode_cursor p at1) =
    (if pv_stream p \<noteq> pv_stream q then Inl (new_invalid_cursor ''from another stream'')
     else if reached (pv_store q) at1 then Inr at1 else Inl (new_invalid_cursor ''beyond the end of the stream''))"
  by (rule decode_encode) (use assms in \<open>simp_all add: small_def\<close>)

lemma cursors_read_back_witness:
  "decode_cursor example_subscriber (encode_cursor example_subscriber \<lparr>po_epoch = 0, po_sequence = 7\<rparr>) = Inr \<lparr>po_epoch = 0, po_sequence = 7\<rparr>"
  using cursors_read_back [of "\<lparr>po_epoch = 0, po_sequence = 7\<rparr>" example_subscriber example_subscriber] example_meta
  by (simp add: reached_def)

text \<open>
  The loop that delivers to one subscription ends: the number of turns the model allows is never
  what stops it, because every turn that goes on delivers something that can not be delivered
  again. Allowing any more turns changes nothing.
\<close>

theorem passes_end:
  assumes "store_step\<^sup>*\<^sup>* (empty_tables, []) (pv_store p, H)" and "deliveries_bound p \<le> m"
  shows "deliveries m clk p room whole s d = deliveries (deliveries_bound p) clk p room whole s d"
  using deliveries_enough [OF reachable_stream_ok [OF assms(1)] remaining_bound assms(2)] .

lemma passes_end_witness:
  "deliveries 1000 (\<lambda>_. ''now'') example_subscriber 9 False (hd (pv_subscriptions example_subscriber))
       \<lparr>ps_frames = [], ps_produced = 0, ps_asked = 0\<rparr> =
     deliveries (deliveries_bound example_subscriber) (\<lambda>_. ''now'') example_subscriber 9 False
       (hd (pv_subscriptions example_subscriber)) \<lparr>ps_frames = [], ps_produced = 0, ps_asked = 0\<rparr>"
proof -
  have "deliveries_bound example_subscriber \<le> 1000" using example_meta by (simp add: deliveries_bound_def example_rows)
  then show ?thesis by (rule passes_end [OF subscriber_reached])
qed

subsection \<open>Properties\<close>

text \<open>
  C2. A pass over the subscriptions skips nothing: whatever room and clock it has, every live
  subscription is either kept with a cursor that has not gone back or told that it ended and
  where; and every event ever recorded between its old cursor and that one, which its epoch still
  vouches for and which it asked for and may see, is in a frame the pass sends to it, or lies in a
  gap that such a frame reports.
\<close>

theorem subscriptions_skip_nothing:
  assumes "store_step\<^sup>*\<^sup>* (empty_tables, []) (pv_store p, H)"
    and "drain_subscriptions clk room whole p = ((frames, withheld), p1)"
    and "s \<in> set (pv_subscriptions p)" "\<not> sb_ended s"
  shows "\<exists>c. pos (sb_cursor s) \<le> pos c \<and>
    (s\<lparr>sb_cursor := c\<rparr> \<in> set (pv_subscriptions p1) \<or> (\<exists>reason. ending_notification p (sb_id s) c reason \<in> set frames)) \<and>
    (\<forall>e \<in> set H. pos (sb_cursor s) \<le> position_key e \<longrightarrow> position_key e < pos c \<longrightarrow>
       deliverable (pv_store p) e \<longrightarrow> wanted (sub_query p s) e \<longrightarrow>
       (\<exists>items cursor. notification (sb_id s) items cursor None \<in> set frames \<and> answered (pv_store p) (sub_query p s) items e))"
proof -
  obtain c where "pos (sb_cursor s) \<le> pos c" "delivered p H s c frames"
    "s\<lparr>sb_cursor := c\<rparr> \<in> set (pv_subscriptions p1) \<or> (\<exists>reason. ending_notification p (sb_id s) c reason \<in> set frames)"
    using reachable_stream_ok [OF assms(1)] assms(2-4) by (rule drain_attends)
  then show ?thesis unfolding delivered_def told_def by blast
qed

lemma subscriptions_skip_nothing_witness:
  "fst (drain_subscriptions (\<lambda>_. ''now'') 0 True example_subscriber) = ([example_frame], False) \<and>
   (\<exists>items cursor. notification ''sub-1'' items cursor None \<in> set [example_frame] \<and>
      answered example_tables (sub_query example_subscriber (hd (pv_subscriptions example_subscriber))) items example_row)"
proof -
  define s where "s = hd (pv_subscriptions example_subscriber)"
  have s: "s \<in> set (pv_subscriptions example_subscriber)" "\<not> sb_ended s" "sb_id s = ''sub-1''" "pos (sb_cursor s) = (1, 1)"
    by (simp_all add: s_def pos_def)
  obtain c where c: "s\<lparr>sb_cursor := c\<rparr> \<in> set (pv_subscriptions (snd (drain_subscriptions (\<lambda>_. ''now'') 0 True example_subscriber))) \<or>
      (\<exists>reason. ending_notification example_subscriber (sb_id s) c reason \<in> set [example_frame])"
    "\<forall>e \<in> set (tb_events example_tables). pos (sb_cursor s) \<le> position_key e \<longrightarrow> position_key e < pos c \<longrightarrow>
       deliverable (pv_store example_subscriber) e \<longrightarrow> wanted (sub_query example_subscriber s) e \<longrightarrow>
       (\<exists>items cursor. notification (sb_id s) items cursor None \<in> set [example_frame] \<and>
          answered (pv_store example_subscriber) (sub_query example_subscriber s) items e)"
    using subscriptions_skip_nothing [OF subscriber_reached example_drain s(1,2)] by (auto simp: example_drain)
  have "pos c = (1, 2)"
    using c(1) by (simp add: example_drain s_def example_frame_def notification_def ending_notification_def pos_def)
  moreover have "wanted (sub_query example_subscriber s) example_row"
    by (simp add: wanted_def sub_query_def read_query_def in_force_of_def provider_may_read_def s_def)
  ultimately show ?thesis
    using c(2) example_row_deliverable s(3,4) by (simp add: example_rows example_drain s_def)
qed



text \<open>
  C36. The item frames a pass sends fit in the room it was given, unless the pass may exceed it
  for a single whole frame and sent exactly one; notices that a subscription ended are not
  counted.
\<close>

theorem pass_output_is_bounded:
  assumes "drain_subscriptions clk room whole p = ((frames, withheld), p1)"
  defines "sent \<equiv> filter (\<lambda>f. \<not> is_ending f) frames"
  shows "sum_list (map (\<lambda>f. length (encode_frame f)) sent) \<le> room \<or> (whole \<and> length sent = 1)"
proof -
  obtain w ss d where dr: "drain_each clk p room whole (pv_subscriptions p) \<lparr>ps_frames = [], ps_produced = 0, ps_asked = 0\<rparr> = (w, ss, d)"
    by (metis surj_pair)
  then have f: "frames = ps_frames d" using assms by (simp add: drain_subscriptions_def)
  have "within_room room whole d" by (rule drain_each_room [OF dr]) (simp add: within_room_def produced_by_def)
  moreover have "produced_by frames = sum_list (map (\<lambda>f. length (encode_frame f)) sent)"
    unfolding sent_def produced_by_def by (induction frames) auto
  ultimately show ?thesis using f by (auto simp: within_room_def sent_def)
qed

lemma pass_output_is_bounded_witness:
  "sum_list (map (\<lambda>f. length (encode_frame f)) (filter (\<lambda>f. \<not> is_ending f)
     (fst (fst (drain_subscriptions (\<lambda>_. ''now'') 9 False example_subscriber))))) \<le> 9"
proof -
  obtain frames withheld p1 where r: "drain_subscriptions (\<lambda>_. ''now'') 9 False example_subscriber = ((frames, withheld), p1)"
    by (metis surj_pair)
  show ?thesis using pass_output_is_bounded [OF r] r by simp
qed

end
