(* ===== verification/Processing.thy ===== *)
theory Processing
  imports Prelude
begin

text \<open>
  The processing lock of \<open>provider.rs\<close>: one first-in-first-out lock over every session of the process.
  Its atomic counters and its mutex make each operation below one step; sessions interleave them. A
  ticket is a \<open>u64\<close> that would wrap only after 2^64 reservations, so it is a natural number here.
\<close>

subsection \<open>The lock\<close>

record lock =
  lk_next :: nat
  lk_serving :: nat
  lk_cancelled :: "nat list"
  lk_wakes :: "nat \<rightharpoonup> nat"

definition new_lock :: lock where
  "new_lock = \<lparr>lk_next = 0, lk_serving = 0, lk_cancelled = [], lk_wakes = Map.empty\<rparr>"

definition reserve :: "lock \<Rightarrow> nat \<times> lock" where
  "reserve l = (lk_next l, l\<lparr>lk_next := lk_next l + 1\<rparr>)"

definition is_ready :: "lock \<Rightarrow> nat \<Rightarrow> bool" where
  "is_ready l ticket \<longleftrightarrow> lk_serving l = ticket"

text \<open>The flag says the wake is signalled at once, because the ticket came up meanwhile.\<close>

definition arm_idle_wake :: "nat \<Rightarrow> nat \<Rightarrow> lock \<Rightarrow> bool \<times> lock" where
  "arm_idle_wake ticket wake l =
     (if is_ready l ticket then (True, l) else (False, l\<lparr>lk_wakes := (lk_wakes l)(ticket \<mapsto> wake)\<rparr>))"

definition disarm_idle_wake :: "nat \<Rightarrow> lock \<Rightarrow> lock" where
  "disarm_idle_wake ticket l = l\<lparr>lk_wakes := (lk_wakes l)(ticket := None)\<rparr>"

text \<open>The loop over cancelled tickets.\<close>

function skip_cancelled :: "nat list \<Rightarrow> nat \<Rightarrow> nat \<times> nat list" where
  "skip_cancelled c n = (if n \<in> set c then skip_cancelled (removeAll n c) (n + 1) else (n, c))"
  by pat_completeness auto
termination
  by (relation "measure (\<lambda>(c, n). length c)") (auto simp: length_removeAll_less)

declare skip_cancelled.simps [simp del]

definition advance :: "lock \<Rightarrow> nat option \<times> lock" where
  "advance l =
     (case skip_cancelled (lk_cancelled l) (lk_serving l + 1) of
        (n, c) \<Rightarrow> (lk_wakes l n, l\<lparr>lk_serving := n, lk_cancelled := c, lk_wakes := (lk_wakes l)(n := None)\<rparr>))"

definition cancel :: "nat \<Rightarrow> lock \<Rightarrow> nat option \<times> lock" where
  "cancel ticket l =
     (let l1 = disarm_idle_wake ticket l in
      if ticket < lk_serving l1 then (None, l1)
      else if ticket = lk_serving l1 then advance l1
      else (None, l1\<lparr>lk_cancelled := List.insert ticket (lk_cancelled l1)\<rparr>))"

definition release :: "lock \<Rightarrow> nat option \<times> lock" where
  "release l = advance l"

subsection \<open>Sessions\<close>

text \<open>
  A session's thread is away from the lock, about to try the ticket of a poll or to arm its wake after
  a poll that did not get its turn, waiting, or holding the guard; \<open>se_ticket\<close> is its idle reservation
  and \<open>se_woken\<close> a wake byte not yet read.
\<close>

datatype phase = Away | Polling nat | Arming nat | Waiting nat | Holding nat | Gone

record session =
  se_phase :: phase
  se_ticket :: "nat option"
  se_woken :: bool

type_synonym sessions = "nat \<Rightarrow> session"

definition new_session :: session where
  "new_session = \<lparr>se_phase = Away, se_ticket = None, se_woken = False\<rparr>"

definition signal :: "nat option \<Rightarrow> sessions \<Rightarrow> sessions" where
  "signal wake ss = (case wake of None \<Rightarrow> ss | Some i \<Rightarrow> ss(i := (ss i)\<lparr>se_woken := True\<rparr>))"

text \<open>\<open>processing\<close> up to the wait: the idle reservation, or a new ticket.\<close>

definition enter :: "nat \<Rightarrow> lock \<times> sessions \<Rightarrow> lock \<times> sessions" where
  "enter i conf =
     (case conf of (l, ss) \<Rightarrow>
        case se_ticket (ss i) of
          Some ticket \<Rightarrow> (disarm_idle_wake ticket l, ss(i := (ss i)\<lparr>se_phase := Waiting ticket, se_ticket := None\<rparr>))
        | None \<Rightarrow> (case reserve l of (ticket, l1) \<Rightarrow> (l1, ss(i := (ss i)\<lparr>se_phase := Waiting ticket\<rparr>))))"

text \<open>\<open>idle_processing\<close> up to the attempt, which the wake byte may have started, and the attempt.\<close>

definition poll :: "bool \<Rightarrow> nat \<Rightarrow> lock \<times> sessions \<Rightarrow> lock \<times> sessions" where
  "poll read_wake i conf =
     (case conf of (l, ss) \<Rightarrow>
        let s = (ss i)\<lparr>se_woken := se_woken (ss i) \<and> \<not> read_wake\<rparr>;
            (ticket, l1) = (case se_ticket s of Some ticket \<Rightarrow> (ticket, l) | None \<Rightarrow> reserve l)
        in (l1, ss(i := s\<lparr>se_phase := Polling ticket, se_ticket := Some ticket\<rparr>)))"

definition attempt :: "nat \<Rightarrow> nat \<Rightarrow> lock \<times> sessions \<Rightarrow> lock \<times> sessions" where
  "attempt ticket i conf =
     (case conf of (l, ss) \<Rightarrow>
        if is_ready l ticket
        then (disarm_idle_wake ticket l, ss(i := (ss i)\<lparr>se_phase := Holding ticket, se_ticket := None\<rparr>))
        else (l, ss(i := (ss i)\<lparr>se_phase := Arming ticket\<rparr>)))"

definition arm :: "nat \<Rightarrow> nat \<Rightarrow> lock \<times> sessions \<Rightarrow> lock \<times> sessions" where
  "arm ticket i conf =
     (case conf of (l, ss) \<Rightarrow>
        case arm_idle_wake ticket i l of (now, l1) \<Rightarrow>
          (l1, signal (if now then Some i else None) (ss(i := (ss i)\<lparr>se_phase := Away\<rparr>))))"

definition leave :: "nat \<Rightarrow> lock \<times> sessions \<Rightarrow> lock \<times> sessions" where
  "leave i conf =
     (case conf of (l, ss) \<Rightarrow>
        case release l of (wake, l1) \<Rightarrow> (l1, signal wake (ss(i := (ss i)\<lparr>se_phase := Away\<rparr>))))"

text \<open>Dropping the provider cancels its reservation.\<close>

definition drop_session :: "nat \<Rightarrow> lock \<times> sessions \<Rightarrow> lock \<times> sessions" where
  "drop_session i conf =
     (case conf of (l, ss) \<Rightarrow>
        let gone = ss(i := (ss i)\<lparr>se_phase := Gone, se_ticket := None\<rparr>) in
        case se_ticket (ss i) of
          None \<Rightarrow> (l, gone)
        | Some ticket \<Rightarrow> (case cancel ticket l of (wake, l1) \<Rightarrow> (l1, signal wake gone)))"

inductive lock_step :: "lock \<times> sessions \<Rightarrow> lock \<times> sessions \<Rightarrow> bool" where
  step_enter: "se_phase (ss i) = Away \<Longrightarrow> lock_step (l, ss) (enter i (l, ss))"
| step_acquire: "se_phase (ss i) = Waiting ticket \<Longrightarrow> is_ready l ticket \<Longrightarrow>
    lock_step (l, ss) (l, ss(i := (ss i)\<lparr>se_phase := Holding ticket\<rparr>))"
| step_leave: "se_phase (ss i) = Holding ticket \<Longrightarrow> lock_step (l, ss) (leave i (l, ss))"
| step_poll: "se_phase (ss i) = Away \<Longrightarrow> lock_step (l, ss) (poll read_wake i (l, ss))"
| step_attempt: "se_phase (ss i) = Polling ticket \<Longrightarrow> lock_step (l, ss) (attempt ticket i (l, ss))"
| step_arm: "se_phase (ss i) = Arming ticket \<Longrightarrow> lock_step (l, ss) (arm ticket i (l, ss))"
| step_drop: "se_phase (ss i) = Away \<Longrightarrow> lock_step (l, ss) (drop_session i (l, ss))"

inductive_cases lock_stepE: "lock_step (l, ss) conf'"

definition lock_start :: "lock \<times> sessions" where
  "lock_start = (new_lock, \<lambda>_. new_session)"

subsection \<open>The invariant\<close>

lemma skip_cancelled_spec:
  "skip_cancelled c n = (n', c') \<Longrightarrow>
     n \<le> n' \<and> {n..<n'} \<subseteq> set c \<and> n' \<notin> set c \<and> set c' = set c - {n..<n'}"
proof (induction c n arbitrary: n' c' rule: skip_cancelled.induct)
  case (1 c n)
  show ?case
  proof (cases "n \<in> set c")
    case True
    then have "skip_cancelled (removeAll n c) (n + 1) = (n', c')" using 1(2) by (subst (asm) skip_cancelled.simps) simp
    then have IH: "n + 1 \<le> n'" "{n + 1..<n'} \<subseteq> set (removeAll n c)" "n' \<notin> set (removeAll n c)"
        "set c' = set (removeAll n c) - {n + 1..<n'}" using 1(1) [OF True] by blast+
    have "{n..<n'} = insert n {n + 1..<n'}" using IH(1) by auto
    then show ?thesis using IH True by auto
  next
    case False
    then show ?thesis using 1(2) by (subst (asm) skip_cancelled.simps) auto
  qed
qed

text \<open>A session owns the ticket it waits on, holds, or has reserved while idle.\<close>

definition owns :: "session \<Rightarrow> nat \<Rightarrow> bool" where
  "owns s ticket \<longleftrightarrow> se_phase s = Waiting ticket \<or> se_phase s = Holding ticket \<or> se_ticket s = Some ticket"

definition session_ok :: "session \<Rightarrow> bool" where
  "session_ok s \<longleftrightarrow>
     (case se_phase s of Away \<Rightarrow> True | Polling ticket \<Rightarrow> se_ticket s = Some ticket
      | Arming ticket \<Rightarrow> se_ticket s = Some ticket | _ \<Rightarrow> se_ticket s = None)"

text \<open>
  Every ticket from \<open>from\<close> up to the next is owned by one session or cancelled, an idle session whose turn
  came has a wake byte to read, and every other one has its wake armed.
\<close>

definition tickets_ok :: "nat \<Rightarrow> lock \<Rightarrow> sessions \<Rightarrow> bool" where
  "tickets_ok start l ss \<longleftrightarrow>
     (\<forall>i. session_ok (ss i)) \<and>
     (\<forall>i ticket. owns (ss i) ticket \<longrightarrow> start \<le> ticket \<and> ticket < lk_next l \<and> ticket \<notin> set (lk_cancelled l)) \<and>
     (\<forall>i j ticket. owns (ss i) ticket \<longrightarrow> owns (ss j) ticket \<longrightarrow> i = j) \<and>
     (\<forall>ticket. start \<le> ticket \<longrightarrow> ticket < lk_next l \<longrightarrow> ticket \<in> set (lk_cancelled l) \<or> (\<exists>i. owns (ss i) ticket)) \<and>
     set (lk_cancelled l) \<subseteq> {lk_serving l<..<lk_next l} \<and> start \<le> lk_next l"

definition wakes_ok :: "lock \<Rightarrow> sessions \<Rightarrow> bool" where
  "wakes_ok l ss \<longleftrightarrow>
     (\<forall>i ticket. se_phase (ss i) = Holding ticket \<longrightarrow> ticket = lk_serving l) \<and>
     (\<forall>i ticket. se_phase (ss i) = Away \<longrightarrow> se_ticket (ss i) = Some ticket \<longrightarrow>
        se_woken (ss i) \<or> (ticket \<noteq> lk_serving l \<and> lk_wakes l ticket = Some i)) \<and>
     (\<forall>i ticket. lk_wakes l ticket = Some i \<longrightarrow> lk_serving l < ticket \<and> se_ticket (ss i) = Some ticket)"

definition lock_ok :: "lock \<times> sessions \<Rightarrow> bool" where
  "lock_ok conf \<longleftrightarrow> (case conf of (l, ss) \<Rightarrow> tickets_ok (lk_serving l) l ss \<and> wakes_ok l ss)"

lemma owns_signal [simp]: "owns (signal w ss i) t = owns (ss i) t"
  by (simp add: signal_def owns_def split: option.split)

lemma signal_simps [simp]:
  "se_phase (signal w ss i) = se_phase (ss i)" "se_ticket (signal w ss i) = se_ticket (ss i)"
  "session_ok (signal w ss i) = session_ok (ss i)"
  by (simp_all add: signal_def session_ok_def split: option.split phase.split)

lemma woken_signal: "se_woken (signal w ss i) \<longleftrightarrow> se_woken (ss i) \<or> w = Some i"
  by (auto simp: signal_def split: option.split)

lemma tickets_ok_signal [simp]: "tickets_ok n l (signal w ss) = tickets_ok n l ss"
  by (simp add: tickets_ok_def)

text \<open>Once the ticket being served has no owner, advancing restores the invariant.\<close>

lemma advance_ok:
  assumes run: "advance l = (wake, l1)" and ok: "tickets_ok (lk_serving l + 1) l ss" "wakes_ok l ss"
    and free: "\<forall>i t. se_phase (ss i) \<noteq> Holding t"
  shows "lock_ok (l1, signal wake ss)" "lk_serving l < lk_serving l1"
proof -
  obtain n c where sk: "skip_cancelled (lk_cancelled l) (lk_serving l + 1) = (n, c)" by fastforce
  have l1: "wake = lk_wakes l n" "lk_serving l1 = n" "lk_cancelled l1 = c" "lk_next l1 = lk_next l" "lk_wakes l1 = (lk_wakes l)(n := None)"
    using run sk by (auto simp: advance_def)
  note sp = skip_cancelled_spec [OF sk]
  show "lk_serving l < lk_serving l1" using sp l1(2) by simp
  have le: "n \<le> lk_next l"
  proof (cases "n = lk_serving l + 1")
    case True
    then show ?thesis using ok(1) by (simp add: tickets_ok_def)
  next
    case False
    then have "n - 1 \<in> {lk_serving l + 1..<n}" using sp by auto
    then have "n - 1 \<in> set (lk_cancelled l)" using sp by blast
    then have "n - 1 \<in> {lk_serving l<..<lk_next l}" using ok(1) unfolding tickets_ok_def by blast
    then show ?thesis by auto
  qed
  have above: "n \<le> t \<and> t < lk_next l \<and> t \<notin> set c" if "owns (ss i) t" for i t
  proof -
    have t: "lk_serving l + 1 \<le> t" "t < lk_next l" "t \<notin> set (lk_cancelled l)" using ok(1) that by (auto simp: tickets_ok_def)
    then have "t \<notin> {lk_serving l + 1..<n}" using sp by blast
    then show ?thesis using t sp by auto
  qed
  have "tickets_ok n l1 ss"
    unfolding tickets_ok_def
  proof (intro conjI allI impI)
    show "session_ok (ss i)" for i using ok(1) by (simp add: tickets_ok_def)
    show "n \<le> t" "t < lk_next l1" "t \<notin> set (lk_cancelled l1)" if "owns (ss i) t" for i t
      using above [OF that] by (simp_all add: l1)
    show "i = j" if "owns (ss i) t" "owns (ss j) t" for i j t using ok(1) that by (auto simp: tickets_ok_def)
    show "t \<in> set (lk_cancelled l1) \<or> (\<exists>i. owns (ss i) t)" if "n \<le> t" "t < lk_next l1" for t
      using ok(1) that sp by (auto simp: tickets_ok_def l1)
    show "set (lk_cancelled l1) \<subseteq> {lk_serving l1<..<lk_next l1}"
    proof
      fix x assume "x \<in> set (lk_cancelled l1)"
      then have "x \<in> set (lk_cancelled l)" "x \<notin> {lk_serving l + 1..<n}" using sp l1 by auto
      moreover have "x \<noteq> n" using sp calculation(1) by blast
      ultimately show "x \<in> {lk_serving l1<..<lk_next l1}" using ok(1) by (auto simp: tickets_ok_def l1)
    qed
    show "n \<le> lk_next l1" using le l1 by simp
  qed
  moreover have "wakes_ok l1 (signal wake ss)"
  proof -
    have idle: "se_woken (ss i) \<or> lk_wakes l t = Some i" if "se_phase (ss i) = Away" "se_ticket (ss i) = Some t" for i t
      using ok(2) that unfolding wakes_ok_def by blast
    have armed: "n \<le> t \<and> se_ticket (ss i) = Some t" if "lk_wakes l t = Some i" for i t
    proof -
      have "se_ticket (ss i) = Some t" using ok(2) that unfolding wakes_ok_def by blast
      then show ?thesis using above [of i t] by (simp add: owns_def)
    qed
    show ?thesis
      unfolding wakes_ok_def l1 using free idle armed
      by (auto simp: woken_signal l1 dest!: armed intro: le_neq_trans)
  qed
  ultimately show "lock_ok (l1, signal wake ss)" by (simp add: lock_ok_def l1)
qed

lemma lock_okD:
  assumes "lock_ok (l, ss)"
  shows "session_ok (ss i)" "owns (ss i) t \<Longrightarrow> lk_serving l \<le> t \<and> t < lk_next l \<and> t \<notin> set (lk_cancelled l)"
    "owns (ss i) t \<Longrightarrow> owns (ss j) t \<Longrightarrow> i = j"
    "lk_serving l \<le> t \<Longrightarrow> t < lk_next l \<Longrightarrow> t \<in> set (lk_cancelled l) \<or> (\<exists>i. owns (ss i) t)"
    "x \<in> set (lk_cancelled l) \<Longrightarrow> lk_serving l < x \<and> x < lk_next l" "lk_serving l \<le> lk_next l"
    "se_phase (ss i) = Holding t \<Longrightarrow> t = lk_serving l"
    "se_phase (ss i) = Away \<Longrightarrow> se_ticket (ss i) = Some t \<Longrightarrow> se_woken (ss i) \<or> (t \<noteq> lk_serving l \<and> lk_wakes l t = Some i)"
    "lk_wakes l t = Some i \<Longrightarrow> lk_serving l < t \<and> se_ticket (ss i) = Some t"
  using assms unfolding lock_ok_def tickets_ok_def wakes_ok_def by (auto; blast)+

lemma lock_okI:
  assumes "\<And>i. session_ok (ss i)"
    and "\<And>i t. owns (ss i) t \<Longrightarrow> lk_serving l \<le> t \<and> t < lk_next l \<and> t \<notin> set (lk_cancelled l)"
    and "\<And>i j t. owns (ss i) t \<Longrightarrow> owns (ss j) t \<Longrightarrow> i = j"
    and "\<And>t. lk_serving l \<le> t \<Longrightarrow> t < lk_next l \<Longrightarrow> t \<notin> set (lk_cancelled l) \<Longrightarrow> \<exists>i. owns (ss i) t"
    and "\<And>x. x \<in> set (lk_cancelled l) \<Longrightarrow> lk_serving l < x \<and> x < lk_next l" "lk_serving l \<le> lk_next l"
    and "\<And>i t. se_phase (ss i) = Holding t \<Longrightarrow> t = lk_serving l"
    and "\<And>i t. se_phase (ss i) = Away \<Longrightarrow> se_ticket (ss i) = Some t \<Longrightarrow> se_woken (ss i) \<or> (t \<noteq> lk_serving l \<and> lk_wakes l t = Some i)"
    and "\<And>i t. lk_wakes l t = Some i \<Longrightarrow> lk_serving l < t \<and> se_ticket (ss i) = Some t"
  shows "lock_ok (l, ss)"
proof -
  have "tickets_ok (lk_serving l) l ss"
    unfolding tickets_ok_def
  proof (intro conjI allI impI)
    show "session_ok (ss i)" "owns (ss i) t \<Longrightarrow> lk_serving l \<le> t" "owns (ss i) t \<Longrightarrow> t < lk_next l"
      "owns (ss i) t \<Longrightarrow> t \<notin> set (lk_cancelled l)" "owns (ss i) t \<Longrightarrow> owns (ss j) t \<Longrightarrow> i = j" for i j t
      using assms(1-3) by blast+
    show "t \<in> set (lk_cancelled l) \<or> (\<exists>i. owns (ss i) t)" if "lk_serving l \<le> t" "t < lk_next l" for t using assms(4) that by blast
    show "set (lk_cancelled l) \<subseteq> {lk_serving l<..<lk_next l}" using assms(5) by auto
    show "lk_serving l \<le> lk_next l" by (rule assms(6))
  qed
  moreover have "wakes_ok l ss"
    unfolding wakes_ok_def
  proof (intro conjI allI impI)
    show "t = lk_serving l" if "se_phase (ss i) = Holding t" for i t by (rule assms(7) [OF that])
    show "se_woken (ss i) \<or> t \<noteq> lk_serving l \<and> lk_wakes l t = Some i"
      if "se_phase (ss i) = Away" "se_ticket (ss i) = Some t" for i t by (rule assms(8) [OF that])
    show "lk_serving l < t" "se_ticket (ss i) = Some t" if "lk_wakes l t = Some i" for i t
      using assms(9) [OF that] by blast+
  qed
  ultimately show ?thesis by (simp add: lock_ok_def)
qed

lemma lock_start_ok: "lock_ok lock_start"
  unfolding lock_start_def
  by (rule lock_okI) (simp_all add: new_lock_def new_session_def session_ok_def owns_def)

lemma reservation_unique: "lock_ok (l, ss) \<Longrightarrow> se_ticket (ss i) = Some t \<Longrightarrow> se_ticket (ss j) = Some t \<Longrightarrow> i = j"
  by (rule lock_okD(3)) (auto simp: owns_def)

text \<open>A change to one session keeps the wakes in order when that session's part of them is.\<close>

lemma wakes_ok_change:
  assumes "wakes_ok l ss" "lk_serving l' = lk_serving l"
    and "\<And>u. se_phase s = Holding u \<Longrightarrow> u = lk_serving l"
    and "\<And>u. se_phase s = Away \<Longrightarrow> se_ticket s = Some u \<Longrightarrow> se_woken s \<or> (u \<noteq> lk_serving l \<and> lk_wakes l' u = Some i)"
    and "\<And>u. lk_wakes l' u = Some i \<Longrightarrow> lk_serving l < u \<and> se_ticket s = Some u"
    and "\<And>u j. j \<noteq> i \<Longrightarrow> se_ticket (ss j) = Some u \<Longrightarrow> lk_wakes l' u = lk_wakes l u"
    and "\<And>u j. j \<noteq> i \<Longrightarrow> lk_wakes l' u = Some j \<Longrightarrow> lk_wakes l u = Some j"
  shows "wakes_ok l' (ss(i := s))"
  unfolding wakes_ok_def assms(2)
proof (intro conjI allI impI)
  show "t = lk_serving l" if "se_phase ((ss(i := s)) j) = Holding t" for j t
    using that assms(1,3) by (cases "j = i") (auto simp: wakes_ok_def)
  show "se_woken ((ss(i := s)) j) \<or> t \<noteq> lk_serving l \<and> lk_wakes l' t = Some j"
    if "se_phase ((ss(i := s)) j) = Away" "se_ticket ((ss(i := s)) j) = Some t" for j t
    using that assms(1,4,6) by (cases "j = i") (auto simp: wakes_ok_def)
  show "lk_serving l < t" "se_ticket ((ss(i := s)) j) = Some t" if "lk_wakes l' t = Some j" for j t
    using that assms(1,5,7) by (cases "j = i"; auto simp: wakes_ok_def)+
qed

lemma lock_ok_wakes: "lock_ok (l, ss) \<Longrightarrow> wakes_ok l ss"
  by (simp add: lock_ok_def)

lemma others_reservation: "lock_ok (l, ss) \<Longrightarrow> se_ticket (ss i) = Some t \<Longrightarrow> j \<noteq> i \<Longrightarrow> se_ticket (ss j) \<noteq> Some t"
  using reservation_unique by blast

text \<open>A session's own ticket is not another's, and a session holding the guard is the only one.\<close>

lemma only_holder:
  assumes "lock_ok (l, ss)" "owns (ss i) (lk_serving l)" "j \<noteq> i"
  shows "se_phase (ss j) \<noteq> Holding t"
proof
  assume h: "se_phase (ss j) = Holding t"
  then have "t = lk_serving l" by (rule lock_okD(7) [OF assms(1)])
  then have "owns (ss j) (lk_serving l)" using h by (simp add: owns_def)
  then show False using lock_okD(3) [OF assms(1,2)] assms(3) by blast
qed

lemma leave_ok:
  assumes ok: "lock_ok (l, ss)" and h: "se_phase (ss i) = Holding t"
  shows "lock_ok (leave i (l, ss))" "lk_serving l < lk_serving (fst (leave i (l, ss)))"
proof -
  obtain w l1 where a: "advance l = (w, l1)" by fastforce
  let ?ss = "ss(i := (ss i)\<lparr>se_phase := Away\<rparr>)"
  note D = lock_okD [OF ok]
  have t: "t = lk_serving l" using D(7) h .
  have none: "se_ticket (ss i) = None" using D(1) [of i] h by (simp add: session_ok_def)
  have own: "owns (?ss j) u \<longleftrightarrow> j \<noteq> i \<and> owns (ss j) u" for j u using none by (simp add: owns_def)
  have own_i: "owns (ss i) u \<longleftrightarrow> u = lk_serving l" for u using none h t by (auto simp: owns_def)
  have "tickets_ok (lk_serving l + 1) l ?ss"
    unfolding tickets_ok_def own
  proof (intro conjI allI impI)
    show "session_ok (?ss j)" for j using D(1) [of j] by (simp add: session_ok_def)
    show "lk_serving l + 1 \<le> u" if "j \<noteq> i \<and> owns (ss j) u" for j u
      using D(2) [of j u] D(3) [of j u i] own_i [of u] that by fastforce
    show "u < lk_next l" "u \<notin> set (lk_cancelled l)" if "j \<noteq> i \<and> owns (ss j) u" for j u using D(2) that by blast+
    show "j = k" if "j \<noteq> i \<and> owns (ss j) u" "k \<noteq> i \<and> owns (ss k) u" for j k u using D(3) that by blast
    show "u \<in> set (lk_cancelled l) \<or> (\<exists>j. j \<noteq> i \<and> owns (ss j) u)" if "lk_serving l + 1 \<le> u" "u < lk_next l" for u
    proof -
      have "u \<noteq> lk_serving l" using that by simp
      then show ?thesis using D(4) [of u] own_i [of u] that by (metis Suc_eq_plus1 Suc_leD)
    qed
    show "set (lk_cancelled l) \<subseteq> {lk_serving l<..<lk_next l}" using D(5) by auto
    show "lk_serving l + 1 \<le> lk_next l" using D(2) [of i t] own_i t by simp
  qed
  moreover have "wakes_ok l ?ss"
    by (rule wakes_ok_change [OF lock_ok_wakes [OF ok]])
      (use D(7,8,9) none in \<open>auto simp: is_ready_def split: if_splits dest: others_reservation [OF ok]\<close>)
  moreover have "\<forall>j u. se_phase (?ss j) \<noteq> Holding u" using only_holder [OF ok] own_i by auto
  ultimately show "lock_ok (leave i (l, ss))" "lk_serving l < lk_serving (fst (leave i (l, ss)))"
    using advance_ok [OF a] by (simp_all add: leave_def release_def a)
qed

text \<open>Steps under which no ticket changes hands, and steps that give the next one out.\<close>

lemma owners_same:
  assumes ok: "lock_ok (l, ss)" and own: "\<And>j u. owns (ss' j) u = owns (ss j) u" "\<And>j. session_ok (ss' j)"
    and l: "lk_next l' = lk_next l" "lk_serving l' = lk_serving l" "lk_cancelled l' = lk_cancelled l" and w: "wakes_ok l' ss'"
  shows "lock_ok (l', ss')"
  using ok w own(2) by (simp add: lock_ok_def tickets_ok_def own(1) l)

lemma owners_new:
  assumes ok: "lock_ok (l, ss)" and own: "\<And>j u. owns (ss' j) u \<longleftrightarrow> (j = i \<and> u = lk_next l) \<or> owns (ss j) u" "\<And>j. session_ok (ss' j)"
    and l: "lk_next l' = lk_next l + 1" "lk_serving l' = lk_serving l" "lk_cancelled l' = lk_cancelled l" and w: "wakes_ok l' ss'"
  shows "lock_ok (l', ss')"
proof -
  note D = lock_okD [OF ok]
  have below: "owns (ss j) u \<Longrightarrow> u < lk_next l" for j u using D(2) by blast
  have "tickets_ok (lk_serving l') l' ss'"
    unfolding tickets_ok_def own(1) l
  proof (intro conjI allI impI)
    show "session_ok (ss' j)" for j by (rule own(2))
    show "lk_serving l \<le> u" "u < lk_next l + 1" "u \<notin> set (lk_cancelled l)"
      if "(j = i \<and> u = lk_next l) \<or> owns (ss j) u" for j u
      using that D(2) [of j u] D(5) [of u] D(6) by auto
    show "j = k" if "(j = i \<and> u = lk_next l) \<or> owns (ss j) u" "(k = i \<and> u = lk_next l) \<or> owns (ss k) u" for j k u
      using that below [of j u] below [of k u] D(3) by blast
    show "u \<in> set (lk_cancelled l) \<or> (\<exists>j. (j = i \<and> u = lk_next l) \<or> owns (ss j) u)"
      if "lk_serving l \<le> u" "u < lk_next l + 1" for u
      using that D(4) [of u] by (auto simp: less_Suc_eq)
    show "set (lk_cancelled l) \<subseteq> {lk_serving l<..<lk_next l + 1}" using D(5) by fastforce
    show "lk_serving l \<le> lk_next l + 1" using D(6) by simp
  qed
  then show ?thesis using w by (simp add: lock_ok_def)
qed

lemma enter_ok:
  assumes ok: "lock_ok (l, ss)" and away: "se_phase (ss i) = Away"
  shows "lock_ok (enter i (l, ss))"
proof -
  note D = lock_okD [OF ok]
  show ?thesis
  proof (cases "se_ticket (ss i)")
    case None
    let ?ss = "ss(i := (ss i)\<lparr>se_phase := Waiting (lk_next l)\<rparr>)"
    have "lock_ok (l\<lparr>lk_next := lk_next l + 1\<rparr>, ?ss)"
    proof (rule owners_new [OF ok])
      show "owns (?ss j) u \<longleftrightarrow> (j = i \<and> u = lk_next l) \<or> owns (ss j) u" for j u using None away by (auto simp: owns_def)
      show "session_ok (?ss j)" for j using D(1) [of j] None by (simp add: session_ok_def)
      show "wakes_ok (l\<lparr>lk_next := lk_next l + 1\<rparr>) ?ss"
        by (rule wakes_ok_change [OF lock_ok_wakes [OF ok]])
          (use D(7,8,9) None in \<open>auto simp: is_ready_def split: if_splits dest: others_reservation [OF ok]\<close>)
    qed simp_all
    then show ?thesis using None by (simp add: enter_def reserve_def)
  next
    case (Some t)
    let ?ss = "ss(i := (ss i)\<lparr>se_phase := Waiting t, se_ticket := None\<rparr>)"
    have "lock_ok (l\<lparr>lk_wakes := (lk_wakes l)(t := None)\<rparr>, ?ss)"
    proof (rule owners_same [OF ok])
      show "owns (?ss j) u = owns (ss j) u" for j u using Some away by (auto simp: owns_def)
      show "session_ok (?ss j)" for j using D(1) [of j] by (simp add: session_ok_def)
      show "wakes_ok (l\<lparr>lk_wakes := (lk_wakes l)(t := None)\<rparr>) ?ss"
        by (rule wakes_ok_change [OF lock_ok_wakes [OF ok]])
          (use D(7,8,9) Some others_reservation [OF ok Some] in \<open>auto simp: is_ready_def split: if_splits dest: others_reservation [OF ok]\<close>)
    qed simp_all
    then show ?thesis using Some by (simp add: enter_def disarm_idle_wake_def)
  qed
qed

lemma poll_ok:
  assumes ok: "lock_ok (l, ss)" and away: "se_phase (ss i) = Away"
  shows "lock_ok (poll read_wake i (l, ss))"
proof -
  note D = lock_okD [OF ok]
  let ?s = "(ss i)\<lparr>se_woken := se_woken (ss i) \<and> \<not> read_wake\<rparr>"
  show ?thesis
  proof (cases "se_ticket (ss i)")
    case None
    let ?ss = "ss(i := ?s\<lparr>se_phase := Polling (lk_next l), se_ticket := Some (lk_next l)\<rparr>)"
    have "lock_ok (l\<lparr>lk_next := lk_next l + 1\<rparr>, ?ss)"
    proof (rule owners_new [OF ok])
      show "owns (?ss j) u \<longleftrightarrow> (j = i \<and> u = lk_next l) \<or> owns (ss j) u" for j u using None away by (auto simp: owns_def)
      show "session_ok (?ss j)" for j using D(1) [of j] None by (simp add: session_ok_def)
      show "wakes_ok (l\<lparr>lk_next := lk_next l + 1\<rparr>) ?ss"
        by (rule wakes_ok_change [OF lock_ok_wakes [OF ok]])
          (use D(7,8,9) None in \<open>auto simp: is_ready_def split: if_splits dest: others_reservation [OF ok]\<close>)
    qed simp_all
    then show ?thesis using None by (simp add: poll_def reserve_def Let_def)
  next
    case (Some t)
    let ?ss = "ss(i := ?s\<lparr>se_phase := Polling t, se_ticket := Some t\<rparr>)"
    have "lock_ok (l, ?ss)"
    proof (rule owners_same [OF ok])
      show "owns (?ss j) u = owns (ss j) u" for j u using Some away by (auto simp: owns_def)
      show "session_ok (?ss j)" for j using D(1) [of j] by (simp add: session_ok_def)
      show "wakes_ok l ?ss" by (rule wakes_ok_change [OF lock_ok_wakes [OF ok]])
   (use D(7,8,9) Some in \<open>auto simp: is_ready_def split: if_splits dest: others_reservation [OF ok]\<close>)
    qed simp_all
    then show ?thesis using Some by (simp add: poll_def Let_def)
  qed
qed

lemma attempt_ok:
  assumes ok: "lock_ok (l, ss)" and ph: "se_phase (ss i) = Polling t"
  shows "lock_ok (attempt t i (l, ss))"
proof -
  note D = lock_okD [OF ok]
  have t: "se_ticket (ss i) = Some t" using D(1) [of i] ph by (simp add: session_ok_def)
  show ?thesis
  proof (cases "is_ready l t")
    case True
    let ?ss = "ss(i := (ss i)\<lparr>se_phase := Holding t, se_ticket := None\<rparr>)"
    have "lock_ok (l\<lparr>lk_wakes := (lk_wakes l)(t := None)\<rparr>, ?ss)"
    proof (rule owners_same [OF ok])
      show "owns (?ss j) u = owns (ss j) u" for j u using t ph by (auto simp: owns_def)
      show "session_ok (?ss j)" for j using D(1) [of j] by (simp add: session_ok_def)
      show "wakes_ok (l\<lparr>lk_wakes := (lk_wakes l)(t := None)\<rparr>) ?ss"
        by (rule wakes_ok_change [OF lock_ok_wakes [OF ok]])
          (use D(7,8,9) t True others_reservation [OF ok t] in \<open>auto simp: is_ready_def split: if_splits dest: others_reservation [OF ok]\<close>)
    qed simp_all
    then show ?thesis using True by (simp add: attempt_def disarm_idle_wake_def)
  next
    case False
    let ?ss = "ss(i := (ss i)\<lparr>se_phase := Arming t\<rparr>)"
    have "lock_ok (l, ?ss)"
    proof (rule owners_same [OF ok])
      show "owns (?ss j) u = owns (ss j) u" for j u using t ph by (auto simp: owns_def)
      show "session_ok (?ss j)" for j using D(1) [of j] t by (simp add: session_ok_def)
      show "wakes_ok l ?ss" by (rule wakes_ok_change [OF lock_ok_wakes [OF ok]])
   (use D(7,8,9) t in \<open>auto simp: is_ready_def split: if_splits dest: others_reservation [OF ok]\<close>)
    qed simp_all
    then show ?thesis using False by (simp add: attempt_def)
  qed
qed

lemma arm_ok:
  assumes ok: "lock_ok (l, ss)" and ph: "se_phase (ss i) = Arming t"
  shows "lock_ok (arm t i (l, ss))"
proof -
  note D = lock_okD [OF ok]
  have t: "se_ticket (ss i) = Some t" using D(1) [of i] ph by (simp add: session_ok_def)
  have ge: "lk_serving l \<le> t" using D(2) [of i t] t by (simp add: owns_def)
  let ?ss = "ss(i := (ss i)\<lparr>se_phase := Away\<rparr>)"
  have own: "owns (?ss j) u = owns (ss j) u" for j u using t ph by (auto simp: owns_def)
  have sok: "session_ok (?ss j)" for j using D(1) [of j] by (simp add: session_ok_def)
  show ?thesis
  proof (cases "is_ready l t")
    case True
    have "lock_ok (l, signal (Some i) ?ss)"
      by (rule owners_same [OF ok]) (use own sok D(7,8,9) t in \<open>auto simp: wakes_ok_def woken_signal split: if_splits\<close>)
    then show ?thesis using True by (simp add: arm_def arm_idle_wake_def)
  next
    case False
    have "lock_ok (l\<lparr>lk_wakes := (lk_wakes l)(t \<mapsto> i)\<rparr>, ?ss)"
    proof (rule owners_same [OF ok own sok])
      show "wakes_ok (l\<lparr>lk_wakes := (lk_wakes l)(t \<mapsto> i)\<rparr>) ?ss"
        by (rule wakes_ok_change [OF lock_ok_wakes [OF ok]])
          (use D(7,8,9) t ge False others_reservation [OF ok t] in \<open>auto simp: is_ready_def split: if_splits dest: others_reservation [OF ok]\<close>)
    qed simp_all
    then show ?thesis using False by (simp add: arm_def arm_idle_wake_def signal_def)
  qed
qed

lemma drop_ok:
  assumes ok: "lock_ok (l, ss)" and away: "se_phase (ss i) = Away"
  shows "lock_ok (drop_session i (l, ss))" "lk_serving l \<le> lk_serving (fst (drop_session i (l, ss)))"
    "se_ticket (ss i) = Some (lk_serving l) \<Longrightarrow> lk_serving l < lk_serving (fst (drop_session i (l, ss)))"
proof -
  note D = lock_okD [OF ok]
  let ?ss = "ss(i := (ss i)\<lparr>se_phase := Gone, se_ticket := None\<rparr>)"
  have sok: "session_ok (?ss j)" for j using D(1) [of j] by (simp add: session_ok_def)
  show "lock_ok (drop_session i (l, ss))" "lk_serving l \<le> lk_serving (fst (drop_session i (l, ss)))"
    "se_ticket (ss i) = Some (lk_serving l) \<Longrightarrow> lk_serving l < lk_serving (fst (drop_session i (l, ss)))"
  proof (atomize (full), cases "se_ticket (ss i)")
    case None
    have "lock_ok (l, ?ss)"
    proof (rule owners_same [OF ok])
      show "owns (?ss j) u = owns (ss j) u" for j u using None away by (auto simp: owns_def)
      show "wakes_ok l ?ss" by (rule wakes_ok_change [OF lock_ok_wakes [OF ok]]) (use D(7,8,9) None in \<open>auto split: if_splits\<close>)
    qed (use sok in simp_all)
    then show "lock_ok (drop_session i (l, ss)) \<and> lk_serving l \<le> lk_serving (fst (drop_session i (l, ss))) \<and>
        (se_ticket (ss i) = Some (lk_serving l) \<longrightarrow> lk_serving l < lk_serving (fst (drop_session i (l, ss))))"
      using None by (simp add: drop_session_def Let_def)
  next
    case (Some t)
    have own: "owns (?ss j) u \<longleftrightarrow> j \<noteq> i \<and> owns (ss j) u" for j u using away by (auto simp: owns_def)
    have own_i: "owns (ss i) u \<longleftrightarrow> u = t" for u using away Some by (auto simp: owns_def)
    have t: "lk_serving l \<le> t" "t < lk_next l" "t \<notin> set (lk_cancelled l)" using D(2) [of i t] own_i by auto
    let ?l = "l\<lparr>lk_wakes := (lk_wakes l)(t := None)\<rparr>"
    have wakes: "wakes_ok ?l ?ss"
      by (rule wakes_ok_change [OF lock_ok_wakes [OF ok]])
        (use D(7,8,9) Some in \<open>auto split: if_splits dest: others_reservation [OF ok]\<close>)
    have others: "u \<noteq> t" if "j \<noteq> i" "owns (ss j) u" for j u using D(3) [of j u i] own_i that by blast
    show "lock_ok (drop_session i (l, ss)) \<and> lk_serving l \<le> lk_serving (fst (drop_session i (l, ss))) \<and>
        (se_ticket (ss i) = Some (lk_serving l) \<longrightarrow> lk_serving l < lk_serving (fst (drop_session i (l, ss))))"
    proof (cases "t = lk_serving l")
      case True
      obtain w l1 where a: "advance ?l = (w, l1)" by fastforce
      have "tickets_ok (lk_serving ?l + 1) ?l ?ss"
        unfolding tickets_ok_def own
      proof (intro conjI allI impI)
        show "session_ok (?ss j)" for j by (rule sok)
        show "lk_serving ?l + 1 \<le> u" if "j \<noteq> i \<and> owns (ss j) u" for j u
          using D(2) [of j u] others [of j u] that True by fastforce
        show "u < lk_next ?l" "u \<notin> set (lk_cancelled ?l)" if "j \<noteq> i \<and> owns (ss j) u" for j u using D(2) that by auto
        show "j = k" if "j \<noteq> i \<and> owns (ss j) u" "k \<noteq> i \<and> owns (ss k) u" for j k u using D(3) that by blast
        show "u \<in> set (lk_cancelled ?l) \<or> (\<exists>j. j \<noteq> i \<and> owns (ss j) u)" if u: "lk_serving ?l + 1 \<le> u" "u < lk_next ?l" for u
        proof -
          have "u \<noteq> t" using u(1) True by simp
          then show ?thesis using D(4) [of u] own_i [of u] u True by (metis Suc_eq_plus1 Suc_leD lock.select_convs(1,2,3) lock.surjective lock.update_convs(4))
        qed
        show "set (lk_cancelled ?l) \<subseteq> {lk_serving ?l<..<lk_next ?l}" using D(5) by auto
        show "lk_serving ?l + 1 \<le> lk_next ?l" using t True by simp
      qed
      moreover have "\<forall>j u. se_phase (?ss j) \<noteq> Holding u" using only_holder [OF ok] own_i True by auto
      ultimately have "lock_ok (l1, signal w ?ss)" "lk_serving l < lk_serving l1" using advance_ok [OF a _ wakes] by auto
      then show ?thesis using Some True a by (simp add: drop_session_def cancel_def disarm_idle_wake_def Let_def)
    next
      case False
      let ?l1 = "?l\<lparr>lk_cancelled := List.insert t (lk_cancelled l)\<rparr>"
      have "tickets_ok (lk_serving l) ?l1 ?ss"
        unfolding tickets_ok_def own
      proof (intro conjI allI impI)
        show "session_ok (?ss j)" for j by (rule sok)
        show "lk_serving l \<le> u" "u < lk_next ?l1" "u \<notin> set (lk_cancelled ?l1)" if "j \<noteq> i \<and> owns (ss j) u" for j u
          using D(2) [of j u] others [of j u] that by auto
        show "j = k" if "j \<noteq> i \<and> owns (ss j) u" "k \<noteq> i \<and> owns (ss k) u" for j k u using D(3) that by blast
        show "u \<in> set (lk_cancelled ?l1) \<or> (\<exists>j. j \<noteq> i \<and> owns (ss j) u)" if "lk_serving l \<le> u" "u < lk_next ?l1" for u
          using D(4) [of u] own_i [of u] that by auto
        show "set (lk_cancelled ?l1) \<subseteq> {lk_serving ?l1<..<lk_next ?l1}" using D(5) t False by auto
        show "lk_serving l \<le> lk_next ?l1" using D(6) by simp
      qed
      moreover have "wakes_ok ?l1 ?ss" using wakes by (simp add: wakes_ok_def)
      ultimately have "lock_ok (?l1, ?ss)" by (simp add: lock_ok_def)
      then show ?thesis using Some False t by (simp add: drop_session_def cancel_def disarm_idle_wake_def Let_def signal_def)
    qed
  qed
qed

lemma lock_step_ok: "lock_step conf conf' \<Longrightarrow> lock_ok conf \<Longrightarrow> lock_ok conf'"
proof (induction rule: lock_step.induct)
  case (step_acquire ss i t l)
  note D = lock_okD [OF step_acquire(3)]
  show ?case
  proof (rule owners_same [OF step_acquire(3)])
    show "owns ((ss(i := (ss i)\<lparr>se_phase := Holding t\<rparr>)) j) u = owns (ss j) u" for j u
      using step_acquire(1) by (auto simp: owns_def)
    show "session_ok ((ss(i := (ss i)\<lparr>se_phase := Holding t\<rparr>)) j)" for j
      using D(1) [of j] step_acquire(1) by (auto simp: session_ok_def)
    show "wakes_ok l (ss(i := (ss i)\<lparr>se_phase := Holding t\<rparr>))"
      by (rule wakes_ok_change [OF lock_ok_wakes [OF step_acquire(3)]])
        (use D(7,8,9) step_acquire(1,2) in \<open>auto simp: is_ready_def\<close>)
  qed simp_all
qed (blast intro: enter_ok leave_ok(1) poll_ok attempt_ok arm_ok drop_ok(1))+

lemma lock_reachable_ok: "lock_step\<^sup>*\<^sup>* lock_start conf \<Longrightarrow> lock_ok conf"
  by (induction rule: rtranclp_induct) (auto intro: lock_start_ok lock_step_ok)

subsection \<open>Every turn comes\<close>

text \<open>
  A run of the lock, in which a session may also do nothing for a while, and fairness: a session that
  can go on without another one does so at some time. An idle session can go on when it has a wake byte
  to read, a waiting one when its ticket is served; one that holds the guard gives it up.
\<close>

definition lock_run :: "(nat \<Rightarrow> lock \<times> sessions) \<Rightarrow> bool" where
  "lock_run conf \<longleftrightarrow> conf 0 = lock_start \<and> (\<forall>n. conf (Suc n) = conf n \<or> lock_step (conf n) (conf (Suc n)))"

definition can_go_on :: "lock \<Rightarrow> session \<Rightarrow> bool" where
  "can_go_on l s \<longleftrightarrow>
     (case se_phase s of Away \<Rightarrow> se_woken s \<and> se_ticket s \<noteq> None | Polling _ \<Rightarrow> True | Arming _ \<Rightarrow> True
      | Waiting ticket \<Rightarrow> is_ready l ticket | Holding _ \<Rightarrow> True | Gone \<Rightarrow> False)"

definition fair :: "(nat \<Rightarrow> lock \<times> sessions) \<Rightarrow> bool" where
  "fair conf \<longleftrightarrow> (\<forall>n i. can_go_on (fst (conf n)) (snd (conf n) i) \<longrightarrow>
     (\<exists>m\<ge>n. se_phase (snd (conf m) i) \<noteq> se_phase (snd (conf n) i)))"

definition rank :: "phase \<Rightarrow> nat" where
  "rank ph = (case ph of Arming _ \<Rightarrow> 4 | Away \<Rightarrow> 3 | Polling _ \<Rightarrow> 2 | Waiting _ \<Rightarrow> 2 | Holding _ \<Rightarrow> 1 | Gone \<Rightarrow> 0)"

text \<open>What a step does to the session being served, as long as it is being served.\<close>

definition comes_closer :: "session \<Rightarrow> session \<Rightarrow> nat \<Rightarrow> bool" where
  "comes_closer s s' ticket \<longleftrightarrow> owns s' ticket \<and> (se_phase s' = se_phase s \<or> rank (se_phase s') < rank (se_phase s))"

lemma step_closer:
  "lock_step conf conf' \<Longrightarrow> lock_ok conf \<Longrightarrow>
     lk_serving (fst conf) \<le> lk_serving (fst conf') \<and>
     (owns (snd conf j) (lk_serving (fst conf)) \<longrightarrow> lk_serving (fst conf') = lk_serving (fst conf) \<longrightarrow>
      comes_closer (snd conf j) (snd conf' j) (lk_serving (fst conf)))"
proof (induction rule: lock_step.induct)
  case (step_enter ss i l)
  then show ?case
    by (auto simp: enter_def reserve_def disarm_idle_wake_def comes_closer_def owns_def rank_def split: option.splits)
next
  case (step_acquire ss i t l)
  then show ?case by (auto simp: comes_closer_def owns_def rank_def)
next
  case (step_leave ss i t l)
  then show ?case using leave_ok(2) [OF step_leave(2,1)] by simp
next
  case (step_poll ss i l w)
  then show ?case by (auto simp: poll_def reserve_def comes_closer_def owns_def rank_def Let_def split: option.splits)
next
  case (step_attempt ss i t l)
  have "session_ok (ss i)" using lock_okD(1) [OF step_attempt(2)] .
  then show ?case using step_attempt(1)
    by (auto simp: attempt_def disarm_idle_wake_def comes_closer_def owns_def rank_def session_ok_def is_ready_def)
next
  case (step_arm ss i t l)
  have "session_ok (ss i)" using lock_okD(1) [OF step_arm(2)] .
  then show ?case using step_arm(1)
    by (auto simp: arm_def arm_idle_wake_def comes_closer_def rank_def session_ok_def; auto simp: owns_def)
next
  case (step_drop ss i l)
  show ?case
  proof (cases "j = i")
    case True
    then show ?thesis using drop_ok(2,3) [OF step_drop(2,1)] step_drop(1) by (auto simp: owns_def)
  next
    case False
    then have "se_phase (snd (drop_session i (l, ss)) j) = se_phase (ss j)"
      "se_ticket (snd (drop_session i (l, ss)) j) = se_ticket (ss j)"
      by (simp_all add: drop_session_def Let_def split: option.split prod.split)
    then show ?thesis using drop_ok(2) [OF step_drop(2,1)] by (simp add: comes_closer_def owns_def)
  qed
qed

lemma step_keeps_waiting:
  "lock_step conf conf' \<Longrightarrow> se_phase (snd conf i) = Waiting t \<Longrightarrow> se_phase (snd conf' i) \<in> {Waiting t, Holding t}"
  by (induction rule: lock_step.induct)
    (auto simp: enter_def reserve_def poll_def attempt_def arm_def leave_def drop_session_def Let_def split: option.splits prod.splits if_splits)

lemma run_ok: "lock_run conf \<Longrightarrow> lock_ok (conf n)"
  by (induction n) (auto simp: lock_run_def lock_start_ok dest: lock_step_ok, metis lock_step_ok)

lemma run_step:
  assumes "lock_run conf"
  shows "conf (Suc n) = conf n \<or> lock_step (conf n) (conf (Suc n))"
  using assms by (simp add: lock_run_def)

lemma serving_mono:
  assumes "lock_run conf"
  shows "n \<le> m \<Longrightarrow> lk_serving (fst (conf n)) \<le> lk_serving (fst (conf m))"
proof (induction rule: dec_induct)
  case (step k)
  then show ?case using step_closer [OF _ run_ok [OF assms]] run_step [OF assms, of k] order_trans by metis
qed simp

lemma waiting_until_holding:
  assumes "lock_run conf" "se_phase (snd (conf n) i) = Waiting t"
  shows "n \<le> m \<Longrightarrow> se_phase (snd (conf m) i) = Waiting t \<or> (\<exists>k\<ge>n. se_phase (snd (conf k) i) = Holding t)"
proof (induction rule: dec_induct)
  case (step k)
  consider "\<exists>k\<ge>n. se_phase (snd (conf k) i) = Holding t" | "se_phase (snd (conf k) i) = Waiting t" using step by blast
  then show ?case
  proof cases
    case 2
    then have "se_phase (snd (conf (Suc k)) i) \<in> {Waiting t, Holding t}"
      using run_step [OF assms(1), of k] step_keeps_waiting [of "conf k" "conf (Suc k)" i t] by auto
    then show ?thesis using step(1) le_SucI by blast
  qed blast
qed (use assms(2) in simp)

lemma served_can_go_on:
  assumes ok: "lock_ok (l, ss)" and own: "owns (ss j) (lk_serving l)"
  shows "can_go_on l (ss j)"
  using lock_okD(1,8) [OF ok, of j] own
  by (auto simp: can_go_on_def owns_def session_ok_def is_ready_def split: phase.splits)

text \<open>While a ticket is being served, its owner moves towards giving it up.\<close>

lemma closer_over_time:
  assumes run: "lock_run conf" and own: "owns (snd (conf n) j) t" "lk_serving (fst (conf n)) = t"
  shows "n \<le> m \<Longrightarrow> t < lk_serving (fst (conf m)) \<or>
    (lk_serving (fst (conf m)) = t \<and> owns (snd (conf m) j) t \<and> se_phase (snd (conf m) j) = se_phase (snd (conf n) j)) \<or>
    (\<exists>k\<ge>n. lk_serving (fst (conf k)) = t \<and> owns (snd (conf k) j) t \<and>
       rank (se_phase (snd (conf k) j)) < rank (se_phase (snd (conf n) j)))"
proof (induction rule: dec_induct)
  case base
  then show ?case using own by simp
next
  case (step k)
  consider (past) "t < lk_serving (fst (conf k))"
    | (same) "lk_serving (fst (conf k)) = t" "owns (snd (conf k) j) t" "se_phase (snd (conf k) j) = se_phase (snd (conf n) j)"
    | (closer) "\<exists>k\<ge>n. lk_serving (fst (conf k)) = t \<and> owns (snd (conf k) j) t \<and>
       rank (se_phase (snd (conf k) j)) < rank (se_phase (snd (conf n) j))" using step(3) by blast
  then show ?case
  proof cases
    case past
    then show ?thesis using serving_mono [OF run, of k "Suc k"] by simp
  next
    case same
    show ?thesis
    proof (cases "conf (Suc k) = conf k")
      case True
      then show ?thesis using same by simp
    next
      case False
      then have st: "lock_step (conf k) (conf (Suc k))" using run_step [OF run] by blast
      have mono: "t \<le> lk_serving (fst (conf (Suc k)))" using serving_mono [OF run, of k "Suc k"] same(1) by simp
      have "comes_closer (snd (conf k) j) (snd (conf (Suc k)) j) t" if "lk_serving (fst (conf (Suc k))) = t"
        using step_closer [OF st run_ok [OF run], of j] same(1,2) that by simp
      then show ?thesis using mono same(3) step(1) unfolding comes_closer_def by (metis le_SucI le_neq_implies_less)
    qed
  qed blast
qed

lemma served_leaves:
  assumes run: "lock_run conf" and fair: "fair conf"
  shows "owns (snd (conf n) j) t \<Longrightarrow> lk_serving (fst (conf n)) = t \<Longrightarrow> \<exists>m\<ge>n. t < lk_serving (fst (conf m))"
proof (induction "rank (se_phase (snd (conf n) j))" arbitrary: n rule: less_induct)
  case less
  have "can_go_on (fst (conf n)) (snd (conf n) j)"
    using served_can_go_on [of "fst (conf n)" "snd (conf n)" j] run_ok [OF run, of n] less.prems by simp
  then obtain m where m: "m \<ge> n" "se_phase (snd (conf m) j) \<noteq> se_phase (snd (conf n) j)"
    using fair unfolding fair_def by blast
  consider "t < lk_serving (fst (conf m))"
    | k where "k \<ge> n" "lk_serving (fst (conf k)) = t" "owns (snd (conf k) j) t"
        "rank (se_phase (snd (conf k) j)) < rank (se_phase (snd (conf n) j))"
    using closer_over_time [OF run less.prems m(1)] m(2) by blast
  then show ?case
  proof cases
    case 2
    then obtain m where "m \<ge> k" "t < lk_serving (fst (conf m))" using less.hyps by blast
    then show ?thesis using 2(1) order_trans by blast
  qed (use m(1) in blast)
qed

lemma turn_comes:
  assumes run: "lock_run conf" and fair: "fair conf"
  shows "se_phase (snd (conf n) i) = Waiting t \<Longrightarrow> \<exists>m\<ge>n. se_phase (snd (conf m) i) = Holding t"
proof (induction "t - lk_serving (fst (conf n))" arbitrary: n rule: less_induct)
  case less
  let ?s = "lk_serving (fst (conf n))"
  have ok: "lock_ok (fst (conf n), snd (conf n))" using run_ok [OF run, of n] by simp
  have own: "owns (snd (conf n) i) t" using less.prems by (simp add: owns_def)
  then have t: "?s \<le> t" "t < lk_next (fst (conf n))" using lock_okD(2) [OF ok] by blast+
  show ?case
  proof (cases "?s = t")
    case True
    then have "can_go_on (fst (conf n)) (snd (conf n) i)" using less.prems by (simp add: can_go_on_def is_ready_def)
    then obtain m where "m \<ge> n" "se_phase (snd (conf m) i) \<noteq> Waiting t" using fair less.prems unfolding fair_def by metis
    then show ?thesis using waiting_until_holding [OF run less.prems, of m] by blast
  next
    case False
    have "?s \<notin> set (lk_cancelled (fst (conf n)))" using lock_okD(5) [OF ok] by blast
    then obtain j where "owns (snd (conf n) j) ?s" using lock_okD(4) [OF ok, of ?s] t by auto
    then obtain m where m: "m \<ge> n" "?s < lk_serving (fst (conf m))" using served_leaves [OF run fair] by blast
    show ?thesis
    proof (cases "se_phase (snd (conf m) i) = Waiting t")
      case True
      then obtain k where "k \<ge> m" "se_phase (snd (conf k) i) = Holding t"
        using less.hyps [of m] m(2) t(1) False by (meson diff_less_mono2 le_neq_implies_less)
      then show ?thesis using m(1) order_trans by blast
    next
      case False
      then show ?thesis using waiting_until_holding [OF run less.prems m(1)] by blast
    qed
  qed
qed

subsection \<open>An example\<close>

text \<open>One session that enters, takes its turn and leaves, again and again.\<close>

definition example_run :: "nat \<Rightarrow> lock \<times> sessions" where
  "example_run n =
     (let k = n div 3; r = n mod 3 in
      (new_lock\<lparr>lk_next := if r = 0 then k else k + 1, lk_serving := k\<rparr>,
       (\<lambda>_. new_session)(0 := new_session\<lparr>se_phase := if r = 0 then Away else if r = 1 then Waiting k else Holding k\<rparr>)))"

lemma example_run_at:
  "example_run (3 * k) = (new_lock\<lparr>lk_next := k, lk_serving := k\<rparr>, (\<lambda>_. new_session)(0 := new_session\<lparr>se_phase := Away\<rparr>))"
  "example_run (Suc (3 * k)) = (new_lock\<lparr>lk_next := k + 1, lk_serving := k\<rparr>, (\<lambda>_. new_session)(0 := new_session\<lparr>se_phase := Waiting k\<rparr>))"
  "example_run (Suc (Suc (3 * k))) = (new_lock\<lparr>lk_next := k + 1, lk_serving := k\<rparr>, (\<lambda>_. new_session)(0 := new_session\<lparr>se_phase := Holding k\<rparr>))"
  "example_run (Suc (Suc (Suc (3 * k)))) = (new_lock\<lparr>lk_next := k + 1, lk_serving := k + 1\<rparr>, (\<lambda>_. new_session)(0 := new_session\<lparr>se_phase := Away\<rparr>))"
  by (simp_all add: example_run_def Let_def mod_Suc div_Suc)

lemma example_steps:
  "lock_step (example_run (3 * k)) (example_run (Suc (3 * k)))"
  "lock_step (example_run (Suc (3 * k))) (example_run (Suc (Suc (3 * k))))"
  "lock_step (example_run (Suc (Suc (3 * k)))) (example_run (Suc (Suc (Suc (3 * k)))))"
proof -
  let ?ss = "\<lambda>ph. (\<lambda>_. new_session)(0 := new_session\<lparr>se_phase := ph\<rparr>)"
  let ?l = "\<lambda>a b. new_lock\<lparr>lk_next := a, lk_serving := b\<rparr>"
  have "lock_step (?l k k, ?ss Away) (enter 0 (?l k k, ?ss Away))" by (rule step_enter) simp
  moreover have "enter 0 (?l k k, ?ss Away) = (?l (k + 1) k, ?ss (Waiting k))"
    by (simp add: enter_def new_session_def reserve_def fun_eq_iff)
  ultimately show "lock_step (example_run (3 * k)) (example_run (Suc (3 * k)))" by (simp only: example_run_at)
  have "lock_step (?l (k + 1) k, ?ss (Waiting k)) (?l (k + 1) k, (?ss (Waiting k))(0 := (?ss (Waiting k) 0)\<lparr>se_phase := Holding k\<rparr>))"
    using step_acquire [of "?ss (Waiting k)" 0 k "?l (k + 1) k"] by (simp add: is_ready_def)
  then show "lock_step (example_run (Suc (3 * k))) (example_run (Suc (Suc (3 * k))))" by (simp add: example_run_at)
  have "lock_step (?l (k + 1) k, ?ss (Holding k)) (leave 0 (?l (k + 1) k, ?ss (Holding k)))" by (rule step_leave) simp
  moreover have "leave 0 (?l (k + 1) k, ?ss (Holding k)) = (?l (k + 1) (k + 1), ?ss Away)"
    by (simp add: leave_def release_def advance_def new_lock_def skip_cancelled.simps signal_def fun_eq_iff)
  ultimately show "lock_step (example_run (Suc (Suc (3 * k)))) (example_run (Suc (Suc (Suc (3 * k)))))"
    by (simp only: example_run_at)
qed

lemma three_cases: "\<exists>k. n = 3 * k \<or> n = Suc (3 * k) \<or> n = Suc (Suc (3 * (k::nat)))"
  by presburger

lemma example_is_run: "lock_run example_run"
  unfolding lock_run_def
proof (intro conjI allI)
  show "example_run 0 = lock_start"
    using example_run_at(1) [of 0] by (simp add: lock_start_def new_lock_def new_session_def fun_eq_iff)
  show "example_run (Suc n) = example_run n \<or> lock_step (example_run n) (example_run (Suc n))" for n
  proof -
    obtain k where "n = 3 * k \<or> n = Suc (3 * k) \<or> n = Suc (Suc (3 * k))" using three_cases by blast
    then show ?thesis using example_steps [of k] by auto
  qed
qed

lemma example_is_fair: "fair example_run"
  unfolding fair_def
proof (intro allI impI)
  fix n i
  assume "can_go_on (fst (example_run n)) (snd (example_run n) i)"
  then have "i = 0" using three_cases [of n] by (auto simp: example_run_at can_go_on_def new_session_def split: if_splits)
  moreover have "se_phase (snd (example_run (Suc n)) 0) \<noteq> se_phase (snd (example_run n) 0)"
    using three_cases [of n] by (auto simp: example_run_at)
  ultimately show "\<exists>m\<ge>n. se_phase (snd (example_run m) i) \<noteq> se_phase (snd (example_run n) i)"
    by (metis Suc_n_not_le_n nat_le_linear)
qed

subsection \<open>Properties\<close>

text \<open>
  C4. Every request gets its turn: on any run of the lock in which a session that can go on by
  itself does so at some time - whoever holds the lock gives it up, an idle session reads its wake
  byte - a session that waits comes to hold the lock, with its own ticket, whatever the other
  sessions do.
\<close>

theorem every_turn_comes:
  assumes "lock_run conf" "fair conf" and "se_phase (snd (conf n) i) = Waiting ticket"
  shows "\<exists>m\<ge>n. se_phase (snd (conf m) i) = Holding ticket"
  using assms by (rule turn_comes)

lemma every_turn_comes_witness: "\<exists>m\<ge>7. se_phase (snd (example_run m) 0) = Holding 2"
proof -
  have "se_phase (snd (example_run 7) 0) = Waiting 2"
    using example_run_at(2) [of 2] by (simp add: eval_nat_numeral)
  then show ?thesis by (rule every_turn_comes [OF example_is_run example_is_fair])
qed

text \<open>
  C37. However sessions interleave on the processing lock, at most one holds it, with the ticket
  being served. Whenever a ticket has been given out and not passed, the ticket being served
  belongs to some session, so no cancelled or dropped one stalls the queue. An idle session whose
  reservation has come up has a wake byte to read, so no wake is lost.
\<close>

theorem processing_is_exclusive:
  assumes "lock_step\<^sup>*\<^sup>* lock_start (l, ss)"
  shows "(\<forall>i j a b. se_phase (ss i) = Holding a \<longrightarrow> se_phase (ss j) = Holding b \<longrightarrow> i = j \<and> a = lk_serving l) \<and>
    (lk_serving l < lk_next l \<longrightarrow> (\<exists>i. owns (ss i) (lk_serving l))) \<and>
    (\<forall>i. se_phase (ss i) = Away \<longrightarrow> se_ticket (ss i) = Some (lk_serving l) \<longrightarrow> se_woken (ss i))"
proof -
  note D = lock_okD [OF lock_reachable_ok [OF assms]]
  have "i = j \<and> a = lk_serving l" if "se_phase (ss i) = Holding a" "se_phase (ss j) = Holding b" for i j a b
    using D(7) [OF that(1)] D(7) [OF that(2)] D(3) [of i a j] that by (simp add: owns_def)
  moreover have "\<exists>i. owns (ss i) (lk_serving l)" if "lk_serving l < lk_next l"
    using D(4) [of "lk_serving l"] D(5) [of "lk_serving l"] that by blast
  ultimately show ?thesis using D(8) by blast
qed

lemma processing_is_exclusive_witness:
  "lk_serving (fst (example_run 1)) < lk_next (fst (example_run 1)) \<and>
   (\<exists>i. owns (snd (example_run 1) i) (lk_serving (fst (example_run 1))))"
proof -
  have "lock_step\<^sup>*\<^sup>* lock_start (example_run 1)"
    using example_steps(1) [of 0] example_is_run by (simp add: lock_run_def r_into_rtranclp)
  then have "lock_step\<^sup>*\<^sup>* lock_start (fst (example_run 1), snd (example_run 1))" by simp
  moreover have "lk_serving (fst (example_run 1)) < lk_next (fst (example_run 1))"
    using example_run_at(2) [of 0] by simp
  ultimately show ?thesis using processing_is_exclusive by blast
qed

end
