(* ===== verification/Evidence_Read.thy ===== *)
theory Evidence_Read
  imports Core_Ops
begin

text \<open>
  What the evidence profile answers without changing anything, \<open>evidence_ops.rs\<close>: availability as
  observed on the object files, inspection, queries and fetches.
\<close>

subsection \<open>Records\<close>

definition new_event :: "string \<Rightarrow> jvalue \<Rightarrow> string list \<Rightarrow> new_event" where
  "new_event event_type payload caused_by =
     \<lparr>ne_type = event_type, ne_payload = (\<lambda>_. payload), ne_caused_by = caused_by\<rparr>"

definition subject_ref :: "string \<Rightarrow> string \<Rightarrow> jvalue" where
  "subject_ref knd i = Object [(''kind'', String knd), (''id'', String i)]"

text \<open>A slice of an instant read as a number, 0 when it is none; a slice past the end panics.\<close>

definition part_of :: "string \<Rightarrow> nat \<Rightarrow> nat \<Rightarrow> int" where
  "part_of instant i j = or_else (parse_i64 (take (j - i) (drop i instant))) 0"

definition plus_seconds :: "string \<Rightarrow> int \<Rightarrow> string" where
  "plus_seconds instant seconds =
     (let year = part_of instant 0 4; month = part_of instant 5 7; day = part_of instant 8 10;
          hour = part_of instant 11 13; minute = part_of instant 14 16; second = part_of instant 17 19;
          y = (if month \<le> 2 then year - 1 else year);
          era = y div 400;
          yoe = y - era * 400;
          mp = (month + 9) mod 12;
          doy = (153 * mp + 2) div 5 + day - 1;
          doe = yoe * 365 + yoe div 4 - yoe div 100 + doy;
          days = era * 146097 + doe - 719468;
          total = days * 86400 + hour * 3600 + minute * 60 + second + seconds
      in format_unix (nat (max 0 total)))"

definition artifact_record :: "provider \<Rightarrow> string \<Rightarrow> protocol_error + (int \<times> jvalue) option" where
  "artifact_record p i = record_at (pv_store p) (artifact_key i)"

definition hold_record :: "provider \<Rightarrow> string \<Rightarrow> protocol_error + (int \<times> jvalue) option" where
  "hold_record p i = record_at (pv_store p) (hold_key i)"

type_synonym hold = "string \<times> int \<times> jvalue"

fun holds_among :: "provider \<Rightarrow> string \<Rightarrow> string list \<Rightarrow> protocol_error + hold list" where
  "holds_among p artifact [] = Inr []"
| "holds_among p artifact (i # is) =
     rbind (hold_record p i) (\<lambda>r.
     rbind (holds_among p artifact is) (\<lambda>rest.
     Inr (case r of
            None \<Rightarrow> rest
          | Some (revision, rec) \<Rightarrow>
              if member_str rec ''artifact'' = Some artifact then (i, revision, rec) # rest else rest)))"

definition holds_on :: "provider \<Rightarrow> string \<Rightarrow> protocol_error + hold list" where
  "holds_on p artifact = holds_among p artifact (map fst (subjects_of_kind (pv_store p) HOLD))"

definition state_of :: "jvalue \<Rightarrow> string" where
  "state_of rec = or_else (member_str rec ''state'') []"

definition descriptor_of :: "jvalue \<Rightarrow> jvalue" where
  "descriptor_of rec = or_else (get rec ''descriptor'') Null"

definition artifact_digest :: "jvalue \<Rightarrow> string" where
  "artifact_digest rec = or_else (member_str (descriptor_of rec) ''digest'') []"

text \<open>The stored bytes are there and match the digest.\<close>

definition intact :: "hasher \<Rightarrow> object_store \<Rightarrow> string \<Rightarrow> bool" where
  "intact sha obs digest =
     (case read_object digest obs of None \<Rightarrow> False | Some bytes \<Rightarrow> digest_bytes sha bytes = digest)"

definition availability_of :: "hasher \<Rightarrow> provider \<Rightarrow> string \<Rightarrow> jvalue \<Rightarrow> jvalue" where
  "availability_of sha p i rec =
     (if state_of rec = ''abandoned'' then availability_value ''unavailable'' (member_str rec ''abandoned_reason'')
      else (case get rec ''purge'' of
              Some purge \<Rightarrow>
                if get purge ''confirmed_at'' \<noteq> None then availability_value ''purged'' None
                else availability_value ''purge_pending'' None
            | None \<Rightarrow>
                if state_of rec = ''staged'' then availability_value ''available'' None
                else if i \<in> set (es_unavailable (cf_evidence_store (pv_config p)))
                then availability_value ''unavailable'' (Some ''store_unavailable'')
                else if intact sha (pv_objects p) (artifact_digest rec) then availability_value ''available'' None
                else availability_value ''unavailable'' (Some ''integrity_failed'')))"

definition artifact_id_of :: "jvalue \<Rightarrow> protocol_error + string" where
  "artifact_id_of payload =
     rbind (ok_or (get payload ''artifact'') (invalid_envelope ''/payload/artifact'' ''required field absent'')) (\<lambda>artifact.
     if member_str artifact ''kind'' \<noteq> Some ARTIFACT
     then Inl (invalid_envelope ''/payload/artifact/kind'' ''not evidence.artifact'')
     else (case member_str artifact ''id'' of
             Some i \<Rightarrow> if is_identifier i then Inr i else Inl (invalid_envelope ''/payload/artifact/id'' ''not an identifier'')
           | None \<Rightarrow> Inl (invalid_envelope ''/payload/artifact/id'' ''not an identifier'')))"

subsection \<open>Who may be shown a derivation\<close>

definition READ_RIGHT :: string where "READ_RIGHT = ''context.read''"

text \<open>The repositories a session may read, in id order, and where each is checked out.\<close>

definition repository_view :: "tables \<Rightarrow> grant option \<Rightarrow> (string \<times> string) list" where
  "repository_view t in_force =
     sort_key fst
       (List.map_filter (\<lambda>(i, _).
          if (case in_force of
                None \<Rightarrow> True
              | Some grant \<Rightarrow> may_read grant \<lparr>sk_kind = REPOSITORY, sk_id = i\<rparr> READ_RIGHT)
          then map_option (Pair i) (map_of (tb_checkouts t) i) else None)
        (subjects_of_kind t REPOSITORY))"

definition within :: "jvalue \<Rightarrow> string \<Rightarrow> string list \<Rightarrow> bool" where
  "within made path known =
     list_all (\<lambda>needed. list_ex (\<lambda>have. have = needed) known) (strings_in (array_of made path))"

definition covers :: "jvalue \<Rightarrow> string list \<Rightarrow> string list \<Rightarrow> string list \<Rightarrow> bool" where
  "covers made view claims evidence \<longleftrightarrow>
     within made ''view'' view \<and> within made ''readable_claims'' claims \<and> within made ''readable_evidence'' evidence"

definition evidence_under :: "jvalue \<Rightarrow> string list" where
  "evidence_under made = strings_in (array_of made ''readable_evidence'')"

definition covers_derivation :: "provider \<Rightarrow> grant option \<Rightarrow> jvalue \<Rightarrow> bool" where
  "covers_derivation p in_force rec =
     (case get rec ''readable_under'' of
        None \<Rightarrow> True
      | Some made \<Rightarrow>
          covers made
            (map fst (repository_view (pv_store p) in_force))
            (filter (\<lambda>claim. case in_force of
                 None \<Rightarrow> True
               | Some grant \<Rightarrow> may_read grant \<lparr>sk_kind = CLAIM, sk_id = claim\<rparr> ''knowledge.read'')
              (map fst (subjects_of_kind (pv_store p) CLAIM)))
            (filter (\<lambda>artifact. provider_may_read p in_force (artifact_key artifact)) (evidence_under made)))"

definition readable_derivation :: "provider \<Rightarrow> grant option \<Rightarrow> jvalue \<Rightarrow> protocol_error + unit" where
  "readable_derivation p in_force rec =
     (if covers_derivation p in_force rec then Inr () else Inl (permission_denied ''derivation_outside_readable_set''))"

subsection \<open>Inspect\<close>

definition member_or_null :: "jvalue \<Rightarrow> string \<Rightarrow> jvalue" where
  "member_or_null v name = or_else (get v name) Null"

definition hold_item :: "hold \<Rightarrow> jvalue" where
  "hold_item h = (case h of (i, revision, rec) \<Rightarrow> Object
     [(''hold'', subject_ref HOLD i), (''revision'', Integer revision), (''state'', member_or_null rec ''state''),
      (''owner'', member_or_null rec ''owner''), (''holder_ref'', member_or_null rec ''holder_ref'')])"

text \<open>Whether a manifest's record lists an artifact of this provider.\<close>

definition lists_artifact :: "string \<Rightarrow> jvalue \<Rightarrow> bool" where
  "lists_artifact i manifest =
     list_ex (\<lambda>child. ch_artifact child = i \<and> ch_provider child = None)
       (List.map_filter child_from_value (array_of manifest ''manifest_children''))"

fun listing_manifests :: "provider \<Rightarrow> string \<Rightarrow> string list \<Rightarrow> protocol_error + string list" where
  "listing_manifests p i [] = Inr []"
| "listing_manifests p i (m # ms) =
     rbind (artifact_record p m) (\<lambda>r.
     rbind (listing_manifests p i ms) (\<lambda>rest.
     Inr (case r of None \<Rightarrow> rest | Some (_, manifest) \<Rightarrow> if lists_artifact i manifest then m # rest else rest)))"

definition affected_item :: "string \<times> string \<times> string \<Rightarrow> jvalue" where
  "affected_item a = (case a of (knd, subject_kind, subject_id) \<Rightarrow>
     Object [(''kind'', String knd), (''subject'', subject_ref subject_kind subject_id)])"

definition loss_record ::
    "provider \<Rightarrow> string \<Rightarrow> jvalue \<Rightarrow> jvalue \<Rightarrow> hold list \<Rightarrow> grant option \<Rightarrow> protocol_error + jvalue" where
  "loss_record p i descriptor purge holds in_force =
     rbind (listing_manifests p i (map fst (subjects_of_kind (pv_store p) ARTIFACT))) (\<lambda>manifests.
     (let shown_holds = filter (\<lambda>(_, _, rec). hold_visible p in_force rec) holds;
          shown_manifests = filter (\<lambda>m. provider_may_read p in_force (artifact_key m)) manifests;
          affected = sort (map (\<lambda>(h, _, _). (''evidence.hold'', HOLD, h)) shown_holds @
                           map (\<lambda>m. (''evidence.manifest_child'', ARTIFACT, m)) shown_manifests);
          filtered = (length shown_holds < length holds \<or> length shown_manifests < length manifests)
      in Inr (Object
           ([(''artifact'', subject_ref ARTIFACT i), (''digest'', member_or_null descriptor ''digest''),
             (''requested_at'', member_or_null purge ''requested_at'')] @
            (case get purge ''confirmed_at'' of None \<Rightarrow> [] | Some confirmed \<Rightarrow> [(''confirmed_at'', confirmed)]) @
            [(''released_holds'', Array (map (subject_ref HOLD) (strings_in (array_of purge ''released_holds'')))),
             (''affected'', Array (map affected_item affected)),
             (''coverage'', Object [(''tracked'', Array (map String TRACKED)), (''filtered'', Bool filtered)])]))))"

definition child_state :: "hasher \<Rightarrow> provider \<Rightarrow> grant option \<Rightarrow> child \<Rightarrow> protocol_error + string" where
  "child_state sha p in_force child =
     (if (case ch_provider child of None \<Rightarrow> False | Some other \<Rightarrow> other \<noteq> cf_provider_id (pv_config p))
      then Inr ''unverified''
      else if \<not> provider_may_read p in_force (artifact_key (ch_artifact child)) then Inr ''withheld''
      else
        rbind (artifact_record p (ch_artifact child)) (\<lambda>r.
        Inr (case r of
               None \<Rightarrow> ''missing''
             | Some (_, rec) \<Rightarrow>
                 if member_str rec ''state'' \<noteq> Some ''sealed'' \<or> get rec ''purge'' \<noteq> None \<or>
                    Option.bind (get rec ''descriptor'') (\<lambda>d. member_str d ''digest'') \<noteq> Some (ch_digest child)
                 then ''missing''
                 else if member_str (availability_of sha p (ch_artifact child) rec) ''state'' = Some ''available''
                 then ''present'' else ''unverified'')))"

fun child_states :: "hasher \<Rightarrow> provider \<Rightarrow> grant option \<Rightarrow> child list \<Rightarrow> protocol_error + (child \<times> string) list" where
  "child_states sha p in_force [] = Inr []"
| "child_states sha p in_force (c # cs) =
     rbind (child_state sha p in_force c) (\<lambda>state.
     rbind (child_states sha p in_force cs) (\<lambda>rest. Inr ((c, state) # rest)))"

definition overall_state :: "string list \<Rightarrow> string" where
  "overall_state required =
     (if list_all (\<lambda>s. s = ''present'') required then ''complete''
      else if ''missing'' \<in> set required then ''incomplete''
      else ''undetermined'')"

definition completeness_of :: "hasher \<Rightarrow> provider \<Rightarrow> jvalue list \<Rightarrow> grant option \<Rightarrow> protocol_error + jvalue" where
  "completeness_of sha p children in_force =
     rbind (child_states sha p in_force (List.map_filter child_from_value children)) (\<lambda>states.
     Inr (Object
       [(''state'', String (overall_state (map snd (filter (\<lambda>(c, _). ch_required c) states)))),
        (''children'', Array (map (\<lambda>(c, state). set_member ''state'' (String state) (child_to_value c)) states))]))"

definition evidence_inspect :: "hasher \<Rightarrow> provider \<Rightarrow> jvalue \<Rightarrow> grant option \<Rightarrow> answer" where
  "evidence_inspect sha p payload in_force =
     rbind (artifact_id_of payload) (\<lambda>i.
     rbind (artifact_record p i) (\<lambda>r.
     case r of
       None \<Rightarrow> Inl not_found
     | Some (revision, rec) \<Rightarrow>
         rbind (readable_derivation p in_force rec) (\<lambda>_.
         rbind (holds_on p i) (\<lambda>holds.
         rbind (case get rec ''purge'' of
                  None \<Rightarrow> Inr []
                | Some purge \<Rightarrow>
                    rbind (loss_record p i (descriptor_of rec) purge holds in_force) (\<lambda>loss. Inr [(''loss'', loss)])) (\<lambda>loss.
         rbind (case get rec ''manifest_children'' of
                  Some (Array children) \<Rightarrow>
                    if state_of rec = ''sealed'' \<and> selected_feature p ''evidence.manifests''
                    then rbind (completeness_of sha p children in_force) (\<lambda>c. Inr [(''completeness'', c)])
                    else Inr []
                | _ \<Rightarrow> Inr []) (\<lambda>completeness.
         Inr (Object
           ([(''artifact'', subject_ref ARTIFACT i), (''revision'', Integer revision), (''descriptor'', descriptor_of rec),
             (''state'', String (state_of rec)), (''availability'', availability_of sha p i rec)] @
            (if state_of rec = ''staged'' then [(''received'', Integer (int_at rec ''received''))] else []) @
            (case member_str rec ''abandoned_reason'' of None \<Rightarrow> [] | Some reason \<Rightarrow> [(''abandoned_reason'', String reason)]) @
            [(''holds'', Array (map hold_item (filter (\<lambda>(_, _, h). hold_visible p in_force h) holds)))] @
            loss @ completeness))))))))"

subsection \<open>Query\<close>

definition matches_filters :: "jvalue \<Rightarrow> jvalue \<Rightarrow> bool" where
  "matches_filters descriptor filters =
     (let equal = (\<lambda>name actual. case get filters name of None \<Rightarrow> True | Some v \<Rightarrow> Some v = actual) in
      equal ''producer_principal'' (Option.bind (get descriptor ''producer'') (\<lambda>producer. get producer ''principal'')) \<and>
      equal ''media_type'' (get descriptor ''media_type'') \<and> equal ''digest'' (get descriptor ''digest'') \<and>
      equal ''scope'' (get descriptor ''scope'') \<and> equal ''source'' (get descriptor ''source'') \<and>
      equal ''work'' (get descriptor ''work''))"

definition encode_query_cursor :: "string \<Rightarrow> string \<Rightarrow> string" where
  "encode_query_cursor stream_id last_id = ''eq1.'' @ stream_id @ ''.'' @ concat (map hex_byte last_id)"

text \<open>
  \<open>u8::from_str_radix\<close> on two bytes: a leading plus sign is skipped. The code slices the text every two
  bytes, which panics inside a character of several bytes.
\<close>

definition hex_digit_value :: "char \<Rightarrow> nat option" where
  "hex_digit_value c =
     (if is_ascii_digit c then Some (bval c - 0x30)
      else if 0x61 \<le> bval c \<and> bval c \<le> 0x66 then Some (bval c - 0x57)
      else if 0x41 \<le> bval c \<and> bval c \<le> 0x46 then Some (bval c - 0x37)
      else None)"

definition byte_of_hex :: "char \<Rightarrow> char \<Rightarrow> char option" where
  "byte_of_hex a b =
     (if a = CHR ''+'' then map_option char_of (hex_digit_value b)
      else Option.bind (hex_digit_value a) (\<lambda>x. map_option (\<lambda>y. char_of (16 * x + y)) (hex_digit_value b)))"

text \<open>The pairs one after the other, up to the first that is no number; \<open>Panics\<close> is a slice inside a character.\<close>

fun unhex :: "string \<Rightarrow> nat \<Rightarrow> string option outcome" where
  "unhex hex 0 = Returns (Some [])"
| "unhex hex (Suc n) =
     (let i = length hex - 2 * Suc n in
      if \<not> (char_boundary hex i \<and> char_boundary hex (i + 2)) then Panics
      else (case byte_of_hex (hex ! i) (hex ! (i + 1)) of
              None \<Rightarrow> Returns None
            | Some b \<Rightarrow>
                (case unhex hex n of
                   Panics \<Rightarrow> Panics
                 | Returns rest \<Rightarrow> Returns (map_option ((#) b) rest))))"

definition decode_query_cursor :: "string \<Rightarrow> string \<Rightarrow> string option outcome" where
  "decode_query_cursor stream_id cursor =
     (if \<not> prefix ''eq1.'' cursor then Returns None
      else (case split_once CHR ''.'' (drop 4 cursor) of
              None \<Rightarrow> Returns None
            | Some (issued_by, hex) \<Rightarrow>
                if issued_by \<noteq> stream_id \<or> hex = [] \<or> length hex mod 2 \<noteq> 0 then Returns None
                else (case unhex hex (length hex div 2) of
                        Panics \<Rightarrow> Panics
                      | Returns bytes \<Rightarrow> Returns (Option.bind bytes (\<lambda>bs. if utf8_valid bs then Some bs else None)))))"

definition query_item :: "hasher \<Rightarrow> provider \<Rightarrow> string \<Rightarrow> jvalue \<Rightarrow> jvalue" where
  "query_item sha p i rec = Object
     [(''artifact'', subject_ref ARTIFACT i), (''digest'', member_or_null (descriptor_of rec) ''digest''),
      (''state'', member_or_null rec ''state''), (''availability'', availability_of sha p i rec)]"

definition items_last :: "(string \<times> jvalue) list \<Rightarrow> string" where
  "items_last items = (if items = [] then [] else fst (last items))"

text \<open>The loop over the artifacts, in id order: the items, whether anything was hidden, and where a full page stops.\<close>

fun query_items ::
    "hasher \<Rightarrow> provider \<Rightarrow> grant option \<Rightarrow> string option \<Rightarrow> jvalue \<Rightarrow> int \<Rightarrow> string list \<Rightarrow> (string \<times> jvalue) list \<Rightarrow> bool \<Rightarrow>
      protocol_error + (string \<times> jvalue) list \<times> bool \<times> string option" where
  "query_items sha p in_force after filters limit [] items filtered = Inr (items, filtered, None)"
| "query_items sha p in_force after filters limit (i # is) items filtered =
     (if \<not> provider_may_read p in_force (artifact_key i)
      then query_items sha p in_force after filters limit is items True
      else if (case after of None \<Rightarrow> False | Some seen \<Rightarrow> i \<le> seen)
      then query_items sha p in_force after filters limit is items filtered
      else
        rbind (artifact_record p i) (\<lambda>r.
        case r of
          None \<Rightarrow> query_items sha p in_force after filters limit is items filtered
        | Some (_, rec) \<Rightarrow>
            if \<not> covers_derivation p in_force rec then query_items sha p in_force after filters limit is items True
            else if \<not> matches_filters (descriptor_of rec) filters
            then query_items sha p in_force after filters limit is items filtered
            else if int (length items) = limit then Inr (items, filtered, Some (items_last items))
            else query_items sha p in_force after filters limit is (items @ [(i, query_item sha p i rec)]) filtered))"

definition query_limit :: "jvalue \<Rightarrow> protocol_error + int" where
  "query_limit payload =
     (case get payload ''limit'' of
        None \<Rightarrow> Inr 100
      | Some (Integer n) \<Rightarrow>
          if 1 \<le> n \<and> n \<le> 1000 then Inr n
          else Inl (invalid_envelope ''/payload/limit'' ''not an integer between 1 and 1000'')
      | Some _ \<Rightarrow> Inl (invalid_envelope ''/payload/limit'' ''not an integer between 1 and 1000''))"

definition foreign_cursor :: protocol_error where
  "foreign_cursor = \<lparr>pe_code = ''invalid_cursor'', pe_retry = No, pe_details = [(''reason'', String ''not issued by this provider'')]\<rparr>"

definition query_answer :: "provider \<Rightarrow> (string \<times> jvalue) list \<times> bool \<times> string option \<Rightarrow> jvalue" where
  "query_answer p r =
     (case r of (items, filtered, next1) \<Rightarrow> Object
        ([(''items'', Array (map snd items)), (''filtered'', Bool filtered)] @
         (case next1 of None \<Rightarrow> [] | Some i \<Rightarrow> [(''next_cursor'', String (encode_query_cursor (pv_stream p) i))])))"

definition evidence_query :: "hasher \<Rightarrow> provider \<Rightarrow> jvalue \<Rightarrow> grant option \<Rightarrow> answer outcome" where
  "evidence_query sha p payload in_force =
     (case query_limit payload of
        Inl e \<Rightarrow> Returns (Inl e)
      | Inr limit \<Rightarrow>
          (let page = (\<lambda>after. Returns (rbind
                 (query_items sha p in_force after (or_else (get payload ''filters'') (Object [])) limit
                    (map fst (subjects_of_kind (pv_store p) ARTIFACT)) [] False) (\<lambda>r. Inr (query_answer p r))))
           in case member_str payload ''cursor'' of
                None \<Rightarrow> page None
              | Some cursor \<Rightarrow>
                  (case decode_query_cursor (pv_stream p) cursor of
                     Panics \<Rightarrow> Panics
                   | Returns None \<Rightarrow> Returns (Inl foreign_cursor)
                   | Returns (Some seen) \<Rightarrow> page (Some seen))))"

subsection \<open>Fetch\<close>

definition fetch_header ::
    "string \<Rightarrow> string \<Rightarrow> int \<Rightarrow> int \<Rightarrow> jvalue \<Rightarrow> string \<Rightarrow> int \<Rightarrow> jvalue" where
  "fetch_header i digest start size1 avail data next_offset = Object
     [(''artifact'', subject_ref ARTIFACT i), (''digest'', String digest), (''availability'', avail),
      (''offset'', Integer start), (''data_base64'', String data), (''next_offset'', Integer next_offset), (''size'', Integer size1)]"

definition fetch_offset :: "jvalue \<Rightarrow> int \<Rightarrow> protocol_error + int" where
  "fetch_offset payload size1 =
     (case get payload ''offset'' of
        None \<Rightarrow> Inr 0
      | Some (Integer n) \<Rightarrow>
          if n \<ge> 0 then Inr (min n size1) else Inl (invalid_envelope ''/payload/offset'' ''not a non-negative integer'')
      | Some _ \<Rightarrow> Inl (invalid_envelope ''/payload/offset'' ''not a non-negative integer''))"

definition fetch_max_bytes :: "jvalue \<Rightarrow> int \<Rightarrow> protocol_error + int" where
  "fetch_max_bytes payload size1 =
     (case get payload ''max_bytes'' of
        None \<Rightarrow> Inr size1
      | Some (Integer n) \<Rightarrow>
          if n \<ge> 1 then Inr n else Inl (invalid_envelope ''/payload/max_bytes'' ''not a positive integer'')
      | Some _ \<Rightarrow> Inl (invalid_envelope ''/payload/max_bytes'' ''not a positive integer''))"

text \<open>A test control: the first byte altered behind honest metadata.\<close>

definition altered :: "provider \<Rightarrow> string \<Rightarrow> string \<Rightarrow> string" where
  "altered p i bytes =
     (if i \<in> set (es_serve_altered_bytes (cf_evidence_store (pv_config p)))
      then (case bytes of [] \<Rightarrow> [] | c # cs \<Rightarrow> flip_byte 1 c # cs) else bytes)"

text \<open>How many bytes fit the caller's receive limit, encoded.\<close>

definition fetch_fits :: "provider \<Rightarrow> int" where
  "fetch_fits p = int (max 1 (((pv_receive_limit p - 4096) div 4) * 3))"

definition served_slice :: "string \<Rightarrow> int \<Rightarrow> int \<Rightarrow> string outcome" where
  "served_slice bytes start end1 =
     (if start \<le> end1 \<and> end1 \<le> int (length bytes) then Returns (take (nat (end1 - start)) (drop (nat start) bytes)) else Panics)"

definition fetch_bytes :: "hasher \<Rightarrow> provider \<Rightarrow> string \<Rightarrow> jvalue \<Rightarrow> jvalue \<Rightarrow> int \<Rightarrow> answer outcome" where
  "fetch_bytes sha p i rec payload start =
     (let digest = artifact_digest rec; size1 = int_at (descriptor_of rec) ''size'';
          avail = availability_of sha p i rec;
          failed = availability_value ''unavailable'' (Some ''integrity_failed'') in
      if member_str avail ''state'' \<noteq> Some ''available''
      then Returns (Inr (fetch_header i digest start size1 avail [] start))
      else (case read_object digest (pv_objects p) of
              None \<Rightarrow> Returns (Inr (fetch_header i digest start size1 failed [] start))
            | Some bytes \<Rightarrow>
                if digest_bytes sha bytes \<noteq> digest then Returns (Inr (fetch_header i digest start size1 failed [] start))
                else (case fetch_max_bytes payload size1 of
                        Inl e \<Rightarrow> Returns (Inl e)
                      | Inr max_bytes \<Rightarrow>
                          (let end1 = min (start + min max_bytes (fetch_fits p)) size1 in
                           case served_slice (altered p i bytes) start end1 of
                             Panics \<Rightarrow> Panics
                           | Returns part \<Rightarrow>
                               Returns (Inr (fetch_header i digest start size1 avail (encode_base64 part) end1))))))"

definition evidence_fetch :: "hasher \<Rightarrow> provider \<Rightarrow> jvalue \<Rightarrow> grant option \<Rightarrow> answer outcome" where
  "evidence_fetch sha p payload in_force =
     (case rbind (artifact_id_of payload) (\<lambda>i.
           rbind (artifact_record p i) (\<lambda>r.
           rbind (ok_or r not_found) (\<lambda>(_, rec).
           rbind (readable_derivation p in_force rec) (\<lambda>_.
           if member_str rec ''state'' \<noteq> Some ''sealed'' then Inl not_found
           else if or_else (member_str payload ''digest'') [] \<noteq> artifact_digest rec
           then Inl \<lparr>pe_code = ''artifact_digest_mismatch'', pe_retry = No, pe_details = []\<rparr>
           else rbind (fetch_offset payload (int_at (descriptor_of rec) ''size'')) (\<lambda>start. Inr (i, rec, start)))))) of
        Inl e \<Rightarrow> Returns (Inl e)
      | Inr (i, rec, start) \<Rightarrow> fetch_bytes sha p i rec payload start)"

end
