(* ===== verification/Evidence_Ops.thy ===== *)
theory Evidence_Ops
  imports Evidence_Read
begin

text \<open>
  The commands of the evidence profile, its changes over time and the collection of objects,
  \<open>evidence_ops.rs\<close>. \<open>clk n\<close> is the clock's n-th answer in the handler: 0 while the command is
  admitted, 1 in its body, 2 when it is recorded.
\<close>

type_synonym handler = "hasher \<Rightarrow> (nat \<Rightarrow> string) \<Rightarrow> jvalue \<Rightarrow> command \<Rightarrow> provider \<Rightarrow> handled"

subsection \<open>Committing\<close>

definition precondition_error :: "subject_key \<Rightarrow> string \<Rightarrow> protocol_error" where
  "precondition_error key knd =
     invalid_envelope ''/preconditions''
       (''exactly one precondition on the '' @ knd @ '' subject '' @ sk_id key @ '' is required'')"

definition retention_gate :: "provider \<Rightarrow> protocol_error + unit" where
  "retention_gate p =
     (if selected_feature p ''evidence.retention_control'' then Inr () else Inl (feature_missing ''evidence.retention_control''))"

definition commit_for ::
    "(nat \<Rightarrow> string) \<Rightarrow> command \<Rightarrow> jvalue \<Rightarrow> new_event list \<Rightarrow> chunks \<Rightarrow> change list \<Rightarrow> jvalue \<Rightarrow> provider \<Rightarrow> handled" where
  "commit_for clk command rec events chunks also outcome p =
     committed
       ((base_commit p (clk 2) command (key_of (c_subject command)) (to_canonical rec)
           (case events of [] \<Rightarrow> None | e # _ \<Rightarrow> Some e))
        \<lparr>cm_more_events := drop 1 events, cm_chunks := chunks, cm_also := also\<rparr>)
       (\<lambda>revision operation_ref. accepted_for command revision operation_ref outcome) p"

definition bind_unchanged :: "command \<Rightarrow> int \<Rightarrow> jvalue \<Rightarrow> provider \<Rightarrow> handled" where
  "bind_unchanged command revision outcome p =
     (let result = accepted_for command revision (''unchanged-'' @ c_command_id command) outcome in
      case bind_command_only (principal_of p) (c_command_id command) (c_command_digest command)
             (c_dedupe_generation command) result (pv_store p) of
        Inl _ \<Rightarrow> (Inl unavailable, p)
      | Inr t \<Rightarrow> (Inr result, p\<lparr>pv_store := t\<rparr>))"

definition artifact_command :: "command \<Rightarrow> (provider \<Rightarrow> handled) \<Rightarrow> provider \<Rightarrow> handled" where
  "artifact_command command continue p =
     (if \<not> one_precondition command ARTIFACT
      then (Inl (precondition_error (key_of (c_subject command)) ''artifact''), p) else continue p)"

definition provider_chunk_limit :: "provider \<Rightarrow> int" where
  "provider_chunk_limit p =
     (let l = cf_limits (pv_config p) in chunk_limit (max_payload_bytes l) (max_frame_bytes l) (max_string_bytes l))"

text \<open>The work an artifact is already bound to, when its record can be read.\<close>

definition recorded_work :: "(int \<times> jvalue) option \<Rightarrow> jvalue option" where
  "recorded_work existing =
     Option.bind existing (\<lambda>(_, rec). Option.bind (get rec ''descriptor'') (\<lambda>d. get d ''work''))"

text \<open>An upload operation: admitted as a publication, then applied to the record it finds.\<close>

definition upload ::
    "hasher \<Rightarrow> (nat \<Rightarrow> string) \<Rightarrow> jvalue \<Rightarrow> command \<Rightarrow> (int \<Rightarrow> jvalue \<Rightarrow> provider \<Rightarrow> handled) \<Rightarrow> provider \<Rightarrow> handled" where
  "upload sha clk params command continue p =
     (let i = sk_id (key_of (c_subject command)) in
      case artifact_record p i of
        Inl e \<Rightarrow> (Inl e, p)
      | Inr existing \<Rightarrow>
          admitted sha (clk 0) params command Unchecked (Publish i (recorded_work existing)) (\<lambda>p.
            case artifact_record p i of
              Inl e \<Rightarrow> (Inl e, p)
            | Inr None \<Rightarrow> (Inl not_found, p)
            | Inr (Some (revision, rec)) \<Rightarrow> continue revision rec p) p)"

subsection \<open>Upload and seal\<close>

definition staged_record :: "jvalue \<Rightarrow> string \<Rightarrow> jvalue" where
  "staged_record descriptor now = Object
     [(''descriptor'', descriptor), (''state'', String ''staged''), (''received'', Integer 0), (''staged_at'', String now)]"

definition prepare_outcome :: "string \<Rightarrow> int \<Rightarrow> jvalue" where
  "prepare_outcome i limit = Object
     [(''artifact'', subject_ref ARTIFACT i), (''state'', String ''staged''), (''received'', Integer 0),
      (''chunk_limit'', Integer limit), (''chunk_overhead_bytes'', Integer CHUNK_OVERHEAD_BYTES)]"

definition evidence_prepare :: handler where
  "evidence_prepare sha clk params command =
     artifact_command command (\<lambda>p.
       case parse_descriptor (c_payload command) (principal_of p) of
         Inl e \<Rightarrow> (Inl e, p)
       | Inr descriptor \<Rightarrow>
           (let i = sk_id (key_of (c_subject command)) in
            admitted sha (clk 0) params command Unchecked (Publish i (get descriptor ''work'')) (\<lambda>p.
              commit_for clk command (staged_record descriptor (clk 1))
                [new_event ''evidence.artifact.staged'' (Object [(''descriptor'', descriptor)]) (c_caused_by command)]
                No_Chunks [] (prepare_outcome i (provider_chunk_limit p)) p) p))"

text \<open>The chunk a payload carries, checked before authorization.\<close>

definition chunk_of :: "provider \<Rightarrow> jvalue \<Rightarrow> protocol_error + int \<times> string" where
  "chunk_of p payload =
     rbind (case get payload ''offset'' of
              Some (Integer n) \<Rightarrow> if n \<ge> 0 then Inr n else Inl (invalid_envelope ''/payload/offset'' ''not a non-negative integer'')
            | _ \<Rightarrow> Inl (invalid_envelope ''/payload/offset'' ''not a non-negative integer'')) (\<lambda>start.
     rbind (ok_or (Option.bind (member_str payload ''data_base64'') decode_base64)
              (invalid_envelope ''/payload/data_base64'' ''not valid padded base64'')) (\<lambda>bytes.
     if int (length bytes) > provider_chunk_limit p
     then Inl (limit_exceeded ''chunk_limit'' (provider_chunk_limit p)) else Inr (start, bytes)))"

definition append_bytes :: "(nat \<Rightarrow> string) \<Rightarrow> command \<Rightarrow> int \<Rightarrow> string \<Rightarrow> jvalue \<Rightarrow> provider \<Rightarrow> handled" where
  "append_bytes clk command start bytes rec p =
     (let i = sk_id (key_of (c_subject command));
          received = int_at rec ''received'';
          size1 = (case get rec ''descriptor'' of None \<Rightarrow> 0 | Some d \<Rightarrow> int_at d ''size'');
          now_received = received + int (length bytes) in
      if member_str rec ''state'' \<noteq> Some ''staged'' then (Inl not_found, p)
      else if start \<noteq> received
      then (Inl \<lparr>pe_code = ''upload_offset_mismatch'', pe_retry = AfterReconcile, pe_details = [(''received'', Integer received)]\<rparr>, p)
      else if now_received > size1
      then (Inl \<lparr>pe_code = ''upload_size_exceeded'', pe_retry = No,
                 pe_details = [(''received'', Integer received), (''size'', Integer size1)]\<rparr>, p)
      else
        commit_for clk command (set_member ''received'' (Integer now_received) rec)
          [new_event ''evidence.artifact.appended'' (Object [(''received'', Integer now_received)]) (c_caused_by command)]
          (Append_Chunk i start bytes) []
          (Object [(''artifact'', subject_ref ARTIFACT i), (''received'', Integer now_received)]) p)"

definition evidence_append :: handler where
  "evidence_append sha clk params command =
     artifact_command command (\<lambda>p.
       case chunk_of p (c_payload command) of
         Inl e \<Rightarrow> (Inl e, p)
       | Inr (start, bytes) \<Rightarrow>
           upload sha clk params command (\<lambda>_ rec. append_bytes clk command start bytes rec) p)"

definition seal_outcome :: "string \<Rightarrow> string \<Rightarrow> int \<Rightarrow> bool \<Rightarrow> jvalue" where
  "seal_outcome i digest size1 already = Object
     [(''artifact'', subject_ref ARTIFACT i), (''state'', String ''sealed''), (''digest'', String digest),
      (''size'', Integer size1), (''already_sealed'', Bool already)]"

text \<open>What is checked of the staged bytes before anything is written: the children when they are a manifest.\<close>

definition seal_check :: "hasher \<Rightarrow> provider \<Rightarrow> jvalue \<Rightarrow> string \<Rightarrow> protocol_error + child list option" where
  "seal_check sha p rec bytes =
     (let descriptor = descriptor_of rec; digest = artifact_digest rec; size1 = int_at descriptor ''size'';
          received = int_at rec ''received''; computed = digest_bytes sha bytes in
      if received \<noteq> size1
      then Inl \<lparr>pe_code = ''upload_incomplete'', pe_retry = AfterReconcile,
                pe_details = [(''received'', Integer received), (''size'', Integer size1)]\<rparr>
      else if computed \<noteq> digest
      then Inl \<lparr>pe_code = ''content_digest_mismatch'', pe_retry = No, pe_details = [(''computed'', String computed)]\<rparr>
      else if member_str descriptor ''media_type'' = Some MANIFEST_MEDIA_TYPE \<and> selected_feature p ''evidence.manifests''
      then (case parse_manifest bytes of
              Some children \<Rightarrow> Inr (Some children)
            | None \<Rightarrow> Inl (invalid_envelope ''/payload'' ''not a valid manifest of a supported format''))
      else Inr None)"

definition sealed_record :: "jvalue \<Rightarrow> child list option \<Rightarrow> jvalue" where
  "sealed_record rec children =
     (let rec1 = remove_member ''received'' (set_member ''state'' (String ''sealed'') rec) in
      case children of
        None \<Rightarrow> rec1
      | Some cs \<Rightarrow> set_member ''manifest_children'' (Array (map child_to_value cs)) rec1)"

text \<open>The object first, then the row that names it, then the test control that damages the object.\<close>

definition seal_staged :: "hasher \<Rightarrow> (nat \<Rightarrow> string) \<Rightarrow> command \<Rightarrow> jvalue \<Rightarrow> provider \<Rightarrow> handled" where
  "seal_staged sha clk command rec p =
     (let i = sk_id (key_of (c_subject command)); digest = artifact_digest rec; size1 = int_at (descriptor_of rec) ''size'';
          bytes = staged_bytes (pv_store p) i in
      case seal_check sha p rec bytes of
        Inl e \<Rightarrow> (Inl e, p)
      | Inr children \<Rightarrow>
          (case publish_object sha digest bytes (pv_objects p) of
             Inl _ \<Rightarrow> (Inl unavailable, p)
           | Inr obs \<Rightarrow>
               (case commit_for clk command (sealed_record rec children)
                       [new_event ''evidence.artifact.sealed''
                          (Object [(''digest'', String digest), (''size'', Integer size1)]) (c_caused_by command)]
                       (Discard_Chunks i) [] (seal_outcome i digest size1 False) (p\<lparr>pv_objects := obs\<rparr>) of
                  (Inl e, p1) \<Rightarrow> (Inl e, p1)
                | (Inr result, p1) \<Rightarrow>
                    if i \<in> set (es_corrupt (cf_evidence_store (pv_config p1)))
                    then (case corrupt_object digest (pv_objects p1) of
                            None \<Rightarrow> (Inl unavailable, p1)
                          | Some obs1 \<Rightarrow> (Inr result, p1\<lparr>pv_objects := obs1\<rparr>))
                    else (Inr result, p1))))"

definition evidence_seal :: handler where
  "evidence_seal sha clk params command =
     artifact_command command
       (upload sha clk params command (\<lambda>revision rec p.
          if member_str rec ''state'' = Some ''sealed''
          then bind_unchanged command revision
                 (seal_outcome (sk_id (key_of (c_subject command))) (artifact_digest rec) (int_at (descriptor_of rec) ''size'') True) p
          else if member_str rec ''state'' = Some ''staged'' then seal_staged sha clk command rec p
          else (Inl not_found, p)))"

definition abandoned_record :: "string \<Rightarrow> jvalue \<Rightarrow> jvalue" where
  "abandoned_record reason rec =
     remove_member ''received'' (set_member ''abandoned_reason'' (String reason) (set_member ''state'' (String ''abandoned'') rec))"

definition abandoned_event :: "string \<Rightarrow> string list \<Rightarrow> new_event" where
  "abandoned_event reason = new_event ''evidence.artifact.abandoned'' (Object [(''reason'', String reason)])"

definition evidence_abandon :: handler where
  "evidence_abandon sha clk params command =
     artifact_command command
       (upload sha clk params command (\<lambda>_ rec p.
          let i = sk_id (key_of (c_subject command)) in
          if member_str rec ''state'' \<noteq> Some ''staged'' then (Inl not_found, p)
          else
            commit_for clk command (abandoned_record ''abandoned_by_producer'' rec)
              [abandoned_event ''abandoned_by_producer'' (c_caused_by command)] (Discard_Chunks i) []
              (Object [(''artifact'', subject_ref ARTIFACT i), (''state'', String ''abandoned'')]) p))"

subsection \<open>Holds\<close>

definition hold_event_payload :: "jvalue \<Rightarrow> jvalue" where
  "hold_event_payload hold = Object
     [(''artifact'', subject_ref ARTIFACT (or_else (member_str hold ''artifact'') [])),
      (''holder_ref'', member_or_null hold ''holder_ref'')]"

definition hold_command :: "command \<Rightarrow> (provider \<Rightarrow> handled) \<Rightarrow> provider \<Rightarrow> handled" where
  "hold_command command continue p =
     (case retention_gate p of
        Inl e \<Rightarrow> (Inl e, p)
      | Inr _ \<Rightarrow>
          if \<not> one_precondition command HOLD
          then (Inl (precondition_error (key_of (c_subject command)) ''hold''), p) else continue p)"

text \<open>The artifact, the reference of its holder, the reason and the expiry a hold names.\<close>

definition hold_payload :: "jvalue \<Rightarrow> protocol_error + string \<times> jvalue \<times> string \<times> string option" where
  "hold_payload payload =
     rbind (artifact_id_of payload) (\<lambda>artifact.
     rbind (case get payload ''holder_ref'' of
              Some v \<Rightarrow> if is_object v then Inr v else Inl (invalid_envelope ''/payload/holder_ref'' ''not a subject'')
            | None \<Rightarrow> Inl (invalid_envelope ''/payload/holder_ref'' ''not a subject'')) (\<lambda>holder_ref.
     rbind (case member_str payload ''reason'' of
              Some r \<Rightarrow> if r \<noteq> [] then Inr r else Inl (invalid_envelope ''/payload/reason'' ''required non-empty string'')
            | None \<Rightarrow> Inl (invalid_envelope ''/payload/reason'' ''required non-empty string'')) (\<lambda>reason.
     rbind (case get payload ''expires_at'' of
              None \<Rightarrow> Inr None
            | Some (String instant) \<Rightarrow>
                if is_instant instant then Inr (Some instant)
                else Inl (invalid_envelope ''/payload/expires_at'' ''not a UTC instant'')
            | Some _ \<Rightarrow> Inl (invalid_envelope ''/payload/expires_at'' ''not a UTC instant'')) (\<lambda>expires_at.
     Inr (artifact, holder_ref, reason, expires_at)))))"

text \<open>Whether there is anything to retain: sealed, and no purge asked for.\<close>

definition retainable :: "(int \<times> jvalue) option \<Rightarrow> bool" where
  "retainable r =
     (case r of None \<Rightarrow> False | Some (_, rec) \<Rightarrow> member_str rec ''state'' = Some ''sealed'' \<and> get rec ''purge'' = None)"

definition evidence_hold :: handler where
  "evidence_hold sha clk params command =
     hold_command command (\<lambda>p.
       case hold_payload (c_payload command) of
         Inl e \<Rightarrow> (Inl e, p)
       | Inr (artifact, holder_ref, reason, expires_at) \<Rightarrow>
           admitted sha (clk 0) params command Unchecked (Rights [(''evidence.hold'', Some (artifact_key artifact))]) (\<lambda>p.
             if (case expires_at of None \<Rightarrow> False | Some instant \<Rightarrow> instant \<le> clk 1)
             then (Inl (invalid_envelope ''/payload/expires_at'' ''not later than the provider clock''), p)
             else
               (case artifact_record p artifact of
                  Inl e \<Rightarrow> (Inl e, p)
                | Inr r \<Rightarrow>
                    if \<not> retainable r then (Inl not_found, p)
                    else
                      commit_for clk command
                        (Object ([(''artifact'', String artifact), (''holder_ref'', holder_ref), (''reason'', String reason),
                            (''owner'', String (principal_of p)), (''state'', String ''active'')] @
                           (case expires_at of None \<Rightarrow> [] | Some instant \<Rightarrow> [(''expires_at'', String instant)])))
                        [new_event ''evidence.hold.placed''
                           (Object [(''artifact'', subject_ref ARTIFACT artifact), (''holder_ref'', holder_ref)]) (c_caused_by command)]
                        No_Chunks []
                        (Object [(''hold'', subject_ref HOLD (sk_id (key_of (c_subject command)))), (''state'', String ''active''),
                           (''owner'', String (principal_of p))]) p)) p)"

definition evidence_release :: handler where
  "evidence_release sha clk params command =
     hold_command command
       (let i = sk_id (key_of (c_subject command)) in
        admitted sha (clk 0) params command Unchecked (Release i) (\<lambda>p.
          case hold_record p i of
            Inl e \<Rightarrow> (Inl e, p)
          | Inr None \<Rightarrow> (Inl not_found, p)
          | Inr (Some (_, rec)) \<Rightarrow>
              if member_str rec ''state'' \<noteq> Some ''active'' then (Inl not_found, p)
              else
                (let rec1 = set_member ''state'' (String ''released'') rec in
                 commit_for clk command rec1
                   [new_event ''evidence.hold.released'' (hold_event_payload rec1) (c_caused_by command)] No_Chunks []
                   (Object [(''hold'', subject_ref HOLD i), (''state'', String ''released'')]) p)))"

subsection \<open>Purge\<close>

fun release_list :: "nat \<Rightarrow> jvalue list \<Rightarrow> string list \<Rightarrow> protocol_error + string list" where
  "release_list index [] holds = Inr holds"
| "release_list index (item # items) holds =
     (case as_str item of
        Some i \<Rightarrow>
          if is_identifier i \<and> i \<notin> set holds then release_list (Suc index) items (holds @ [i])
          else Inl (invalid_envelope (''/payload/release_holds/'' @ dec_digits index) ''not a unique hold id'')
      | None \<Rightarrow> Inl (invalid_envelope (''/payload/release_holds/'' @ dec_digits index) ''not a unique hold id''))"

definition release_holds :: "jvalue \<Rightarrow> protocol_error + string list" where
  "release_holds payload =
     (case get payload ''release_holds'' of
        None \<Rightarrow> Inr []
      | Some (Array items) \<Rightarrow> release_list 0 items []
      | Some _ \<Rightarrow> Inl (invalid_envelope ''/payload/release_holds'' ''not an array''))"

definition by_kind_and_id :: "subject_key list \<Rightarrow> subject_key list" where
  "by_kind_and_id = sort_key (\<lambda>k. (sk_kind k, sk_id k))"

text \<open>The holds a purge names, when its preconditions are on its artifact and on each of them.\<close>

definition purge_payload :: "command \<Rightarrow> protocol_error + string list" where
  "purge_payload command =
     (let key = key_of (c_subject command) in
      rbind (release_holds (c_payload command)) (\<lambda>holds.
      if by_kind_and_id (map (key_of \<circ> fst) (c_preconditions command)) \<noteq> by_kind_and_id (key # map hold_key holds)
      then Inl (invalid_envelope ''/preconditions'' ''a purge carries a precondition on the artifact and on each named hold'')
      else Inr holds))"

definition is_active :: "jvalue \<Rightarrow> bool" where
  "is_active rec \<longleftrightarrow> member_str rec ''state'' = Some ''active''"

definition blocking :: "string list \<Rightarrow> hold list \<Rightarrow> hold list" where
  "blocking releases = filter (\<lambda>(i, _, rec). is_active rec \<and> i \<notin> set releases)"

definition hold_active :: "provider \<Rightarrow> grant option \<Rightarrow> hold list \<Rightarrow> protocol_error" where
  "hold_active p in_force blocked =
     (let visible = filter (\<lambda>(_, _, rec). hold_visible p in_force rec) blocked in
      \<lparr>pe_code = ''hold_active'', pe_retry = AfterReconcile,
       pe_details = [(''holds'', Array (map (\<lambda>(i, _, _). String i) visible)),
                     (''filtered'', Bool (length visible \<noteq> length blocked))]\<rparr>)"

text \<open>What a purge needs of the holds: those it names are active, and no other is.\<close>

definition purge_check :: "provider \<Rightarrow> grant option \<Rightarrow> string list \<Rightarrow> hold list \<Rightarrow> protocol_error + unit" where
  "purge_check p in_force releases holds =
     (if \<not> list_all (\<lambda>h. list_ex (\<lambda>(i, _, rec). i = h \<and> is_active rec) holds) releases then Inl not_found
      else if blocking releases holds \<noteq> [] then Inl (hold_active p in_force (blocking releases holds))
      else Inr ())"

definition deletion_delay :: "provider \<Rightarrow> int" where
  "deletion_delay p = or_else (es_deletion_delay_seconds (cf_evidence_store (pv_config p))) 0"

definition purge_value :: "string \<Rightarrow> int \<Rightarrow> string list \<Rightarrow> jvalue" where
  "purge_value now delay releases = Object
     [(''requested_at'', String now), (''released_holds'', Array (map String releases)),
      (if delay \<le> 0 then (''confirmed_at'', String now) else (''due_at'', String (plus_seconds now delay)))]"

definition purged_event :: "string \<Rightarrow> string list \<Rightarrow> new_event" where
  "purged_event now = new_event ''evidence.artifact.purged'' (Object [(''confirmed_at'', String now)])"

definition purge_events :: "string \<Rightarrow> int \<Rightarrow> string list \<Rightarrow> new_event list" where
  "purge_events now delay caused_by =
     new_event ''evidence.artifact.purge_requested'' (Object [(''requested_at'', String now)]) caused_by #
     (if delay \<le> 0 then [purged_event now caused_by] else [])"

definition released_change :: "command \<Rightarrow> hold list \<Rightarrow> string \<Rightarrow> change" where
  "released_change command holds h =
     (let rec = or_else (map_option (\<lambda>(_, _, rec). rec) (find (\<lambda>(i, _, _). i = h) holds)) Null;
          released = set_member ''state'' (String ''released'') rec
      in \<lparr>cg_key = hold_key h, cg_value = to_canonical released,
          cg_event = Some (new_event ''evidence.hold.released'' (hold_event_payload released) (c_caused_by command))\<rparr>)"

fun roots_of :: "string list \<Rightarrow> string list stored" where
  "roots_of [] = Inr []"
| "roots_of (v # vs) =
     (case stored_value v of
        None \<Rightarrow> Inl (Corrupt ''an artifact record does not parse'')
      | Some rec \<Rightarrow> rbind (roots_of vs) (\<lambda>roots. Inr (case object_root rec of None \<Rightarrow> roots | Some d \<Rightarrow> d # roots)))"

definition object_roots :: "tables \<Rightarrow> string list stored" where
  "object_roots t = roots_of (map snd (subjects_of_kind t ARTIFACT))"

definition delete_if_unreferenced :: "string \<Rightarrow> provider \<Rightarrow> (protocol_error + unit) \<times> provider" where
  "delete_if_unreferenced digest p =
     (case object_roots (pv_store p) of
        Inl _ \<Rightarrow> (Inl unavailable, p)
      | Inr roots \<Rightarrow>
          if digest \<in> set roots then (Inr (), p)
          else (Inr (), p\<lparr>pv_objects := delete_object digest (pv_objects p)\<rparr>))"

definition purge_outcome :: "string \<Rightarrow> jvalue \<Rightarrow> jvalue list \<Rightarrow> jvalue" where
  "purge_outcome i avail released = Object
     [(''artifact'', subject_ref ARTIFACT i), (''availability'', avail), (''released_holds'', Array released)]"

text \<open>The row first, then the object, the reverse of sealing.\<close>

definition purge_now ::
    "(nat \<Rightarrow> string) \<Rightarrow> command \<Rightarrow> string list \<Rightarrow> hold list \<Rightarrow> jvalue \<Rightarrow> provider \<Rightarrow> handled" where
  "purge_now clk command releases holds rec p =
     (let i = sk_id (key_of (c_subject command)); now = clk 1; delay = deletion_delay p in
      case commit_for clk command (set_member ''purge'' (purge_value now delay releases) rec)
             (purge_events now delay (c_caused_by command)) No_Chunks
             (map (released_change command holds) releases)
             (purge_outcome i (String (if delay \<le> 0 then ''purged'' else ''purge_pending'')) (map (subject_ref HOLD) releases)) p of
        (Inl e, p1) \<Rightarrow> (Inl e, p1)
      | (Inr result, p1) \<Rightarrow>
          if delay \<le> 0
          then (case delete_if_unreferenced (artifact_digest rec) p1 of
                  (Inl e, p2) \<Rightarrow> (Inl e, p2)
                | (Inr _, p2) \<Rightarrow> (Inr result, p2))
          else (Inr result, p1))"

definition purge_sealed ::
    "hasher \<Rightarrow> (nat \<Rightarrow> string) \<Rightarrow> command \<Rightarrow> string list \<Rightarrow> int \<Rightarrow> jvalue \<Rightarrow> provider \<Rightarrow> handled" where
  "purge_sealed sha clk command releases revision rec p =
     (let i = sk_id (key_of (c_subject command)) in
      case authorize p (clk 0) (c_grant command) [] of
        Inl e \<Rightarrow> (Inl e, p)
      | Inr in_force \<Rightarrow>
          if get rec ''purge'' \<noteq> None
          then bind_unchanged command revision
                 (purge_outcome i (member_or_null (availability_of sha p i rec) ''state'') []) p
          else
            (case holds_on p i of
               Inl e \<Rightarrow> (Inl e, p)
             | Inr holds \<Rightarrow>
                 (case purge_check p in_force releases holds of
                    Inl e \<Rightarrow> (Inl e, p)
                  | Inr _ \<Rightarrow> purge_now clk command releases holds rec p)))"

definition evidence_purge :: handler where
  "evidence_purge sha clk params command p =
     (let key = key_of (c_subject command); i = sk_id key in
      case retention_gate p of
        Inl e \<Rightarrow> (Inl e, p)
      | Inr _ \<Rightarrow>
          if sk_kind key \<noteq> ARTIFACT then (Inl (precondition_error key ''artifact''), p)
          else
            (case purge_payload command of
               Inl e \<Rightarrow> (Inl e, p)
             | Inr releases \<Rightarrow>
                 admitted sha (clk 0) params command Unchecked (Purge i releases) (\<lambda>p.
                   case artifact_record p i of
                     Inl e \<Rightarrow> (Inl e, p)
                   | Inr None \<Rightarrow> (Inl not_found, p)
                   | Inr (Some (revision, rec)) \<Rightarrow>
                       if member_str rec ''state'' \<noteq> Some ''sealed'' then (Inl not_found, p)
                       else purge_sealed sha clk command releases revision rec p) p))"

subsection \<open>Collection at start, and changes over time\<close>

text \<open>How many were removed: every object no root names, and every staging file.\<close>

definition collect_unreferenced_objects :: "provider \<Rightarrow> (store_error + nat) \<times> provider" where
  "collect_unreferenced_objects p =
     (case object_roots (pv_store p) of
        Inl e \<Rightarrow> (Inl e, p)
      | Inr roots \<Rightarrow>
          (case object_inventory (pv_objects p) of
             (objects, staging) \<Rightarrow>
               (let doomed = filter (\<lambda>d. d \<notin> set roots) objects in
                (Inr (length doomed + length staging),
                 p\<lparr>pv_objects := fold discard_staging staging (fold delete_object doomed (pv_objects p))\<rparr>))))"

definition provider_change ::
    "subject_key \<Rightarrow> jvalue \<Rightarrow> new_event list \<Rightarrow> string \<Rightarrow> bool \<Rightarrow> provider \<Rightarrow> (protocol_error + unit) \<times> provider" where
  "provider_change key rec events now discard p =
     (case commit_provider_change key (to_canonical rec) events now discard (pv_store p) of
        Inl _ \<Rightarrow> (Inl unavailable, p)
      | Inr (_, t) \<Rightarrow> (Inr (), p\<lparr>pv_store := t\<rparr>))"

definition staging_expired :: "provider \<Rightarrow> string \<Rightarrow> jvalue \<Rightarrow> bool" where
  "staging_expired p now rec =
     (case es_staging_timeout_seconds (cf_evidence_store (pv_config p)) of
        None \<Rightarrow> False
      | Some seconds \<Rightarrow>
          member_str rec ''state'' = Some ''staged'' \<and>
          (case member_str rec ''staged_at'' of None \<Rightarrow> False | Some staged \<Rightarrow> plus_seconds staged seconds \<le> now))"

definition deletion_due :: "string \<Rightarrow> jvalue \<Rightarrow> bool" where
  "deletion_due now rec =
     (case get rec ''purge'' of
        None \<Rightarrow> False
      | Some purge \<Rightarrow>
          get purge ''confirmed_at'' = None \<and>
          (case member_str purge ''due_at'' of None \<Rightarrow> False | Some due \<Rightarrow> due \<le> now))"

definition confirm_purge :: "string \<Rightarrow> jvalue \<Rightarrow> jvalue" where
  "confirm_purge now =
     on_fields (update_member ''purge'' (on_fields (\<lambda>members.
       filter (\<lambda>(name, _). name \<noteq> ''due_at'') members @ [(''confirmed_at'', String now)])))"

definition tick_artifact :: "string \<Rightarrow> string \<Rightarrow> provider \<Rightarrow> (protocol_error + unit) \<times> provider" where
  "tick_artifact now i p =
     (case artifact_record p i of
        Inl e \<Rightarrow> (Inl e, p)
      | Inr None \<Rightarrow> (Inr (), p)
      | Inr (Some (_, rec)) \<Rightarrow>
          if staging_expired p now rec
          then provider_change (artifact_key i) (abandoned_record ''staging_expired'' rec)
                 [abandoned_event ''staging_expired'' []] now True p
          else if deletion_due now rec
          then (case provider_change (artifact_key i) (confirm_purge now rec) [purged_event now []] now False p of
                  (Inl e, p1) \<Rightarrow> (Inl e, p1)
                | (Inr _, p1) \<Rightarrow> delete_if_unreferenced (artifact_digest (confirm_purge now rec)) p1)
          else (Inr (), p))"

definition tick_hold :: "string \<Rightarrow> string \<Rightarrow> provider \<Rightarrow> (protocol_error + unit) \<times> provider" where
  "tick_hold now i p =
     (case hold_record p i of
        Inl e \<Rightarrow> (Inl e, p)
      | Inr None \<Rightarrow> (Inr (), p)
      | Inr (Some (_, rec)) \<Rightarrow>
          if is_active rec \<and> (case member_str rec ''expires_at'' of None \<Rightarrow> False | Some expiry \<Rightarrow> expiry \<le> now)
          then (let rec1 = set_member ''state'' (String ''expired'') rec in
                provider_change (hold_key i) rec1 [new_event ''evidence.hold.expired'' (hold_event_payload rec1) []] now False p)
          else (Inr (), p))"

fun tick_each ::
    "(string \<Rightarrow> provider \<Rightarrow> (protocol_error + unit) \<times> provider) \<Rightarrow> string list \<Rightarrow> provider \<Rightarrow> (protocol_error + unit) \<times> provider" where
  "tick_each f [] p = (Inr (), p)"
| "tick_each f (i # is) p =
     (case f i p of (Inl e, p1) \<Rightarrow> (Inl e, p1) | (Inr _, p1) \<Rightarrow> tick_each f is p1)"

definition tick_evidence :: "string \<Rightarrow> provider \<Rightarrow> (protocol_error + unit) \<times> provider" where
  "tick_evidence now p =
     (case tick_each (tick_artifact now) (map fst (subjects_of_kind (pv_store p) ARTIFACT)) p of
        (Inl e, p1) \<Rightarrow> (Inl e, p1)
      | (Inr _, p1) \<Rightarrow> tick_each (tick_hold now) (map fst (subjects_of_kind (pv_store p1) HOLD)) p1)"

subsection \<open>Dispatch\<close>

text \<open>The dispatch of \<open>handle\<close> to the commands of the evidence profile.\<close>

definition evidence_command :: "hasher \<Rightarrow> (nat \<Rightarrow> string) \<Rightarrow> string \<Rightarrow> jvalue \<Rightarrow> command \<Rightarrow> provider \<Rightarrow> handled" where
  "evidence_command sha clk method params command =
     (if method = ''evidence.upload.prepare'' then evidence_prepare sha clk params command
      else if method = ''evidence.upload.append'' then evidence_append sha clk params command
      else if method = ''evidence.seal'' then evidence_seal sha clk params command
      else if method = ''evidence.upload.abandon'' then evidence_abandon sha clk params command
      else if method = ''evidence.hold'' then evidence_hold sha clk params command
      else if method = ''evidence.release'' then evidence_release sha clk params command
      else if method = ''evidence.purge'' then evidence_purge sha clk params command
      else (\<lambda>p. (Inl (method_not_found method), p)))"

end
