(* ===== verification/Evidence_Records.thy ===== *)
theory Evidence_Records
  imports Evidence_Ops Revocation
begin

text \<open>
  The records the evidence operations write: which can be stored and read back, and what the safety
  of the objects depends on in them.
\<close>

subsection \<open>Stored records\<close>

definition storable :: "jvalue \<Rightarrow> bool" where
  "storable v \<longleftrightarrow> in_domain v \<and> nesting v \<le> 128"

lemma storable_reads: "storable v \<Longrightarrow> stored_value (to_canonical v) = Some (sorted_members v)"
  using parse_to_canonical [of v 128] by (simp add: storable_def stored_value_def parse_def DEFAULT_MAX_DEPTH_def)

lemma stored_storable: "stored_value s = Some v \<Longrightarrow> storable v"
  using parse_with_depth_sound [of s 128 v]
  by (auto simp: storable_def stored_value_def parse_def DEFAULT_MAX_DEPTH_def split: option.splits sum.splits)

lemma put_member_in:
  "(n, w) \<in> set (put_member name new ms) \<Longrightarrow> (n, w) \<in> set ms \<or> (n, w) = (name, new)"
  by (induction name new ms rule: put_member.induct) (auto split: if_splits)

lemma put_member_names: "fst ` set (put_member name new ms) = insert name (fst ` set ms)"
  by (induction name new ms rule: put_member.induct) (auto split: if_splits)

lemma put_member_distinct: "distinct (map fst ms) \<Longrightarrow> distinct (map fst (put_member name new ms))"
  by (induction name new ms rule: put_member.induct) (auto simp: put_member_names image_iff dest: put_member_in)

lemma set_member_storable:
  assumes "storable rec" "text_ok name" "in_domain new" "nesting new \<le> 127"
  shows "storable (set_member name new rec)"
proof (cases rec)
  case (Object ms)
  have ms: "distinct (map fst ms)" "\<forall>(n, w) \<in> set ms. text_ok n \<and> in_domain w" "nesting (Object ms) \<le> 128"
    using assms(1) Object by (auto simp: storable_def)
  have "\<forall>(n, w) \<in> set (put_member name new ms). text_ok n \<and> in_domain w"
    using ms(2) assms(2,3) put_member_in [of _ _ name new ms] by fastforce
  then have "in_domain (Object (put_member name new ms))" using put_member_distinct [OF ms(1)] by auto
  moreover have "nesting (Object (put_member name new ms)) \<le> 128"
  proof (rule nesting_Object_le)
    fix n w
    assume "(n, w) \<in> set (put_member name new ms)"
    then show "Suc (nesting w) \<le> 128"
      using put_member_in [of n w name new ms] nesting_member [of n w ms] ms(3) assms(4) by auto
  qed
  ultimately show ?thesis using Object by (simp add: set_member_def on_fields_def storable_def)
qed (use assms(1) in \<open>simp_all add: set_member_def on_fields_def\<close>)

lemma remove_member_storable: "storable rec \<Longrightarrow> storable (remove_member name rec)"
proof (cases rec)
  case (Object ms)
  assume s: "storable rec"
  let ?ms = "filter (\<lambda>(n, _). n \<noteq> name) ms"
  have ms: "distinct (map fst ms)" "\<forall>(n, w) \<in> set ms. text_ok n \<and> in_domain w" "nesting (Object ms) \<le> 128"
    using s Object by (auto simp: storable_def)
  have "distinct (map fst ?ms)" using ms(1) by (rule distinct_map_filter)
  then have "in_domain (Object ?ms)" using ms(2) by auto
  moreover have "nesting (Object ?ms) \<le> 128"
    by (rule nesting_Object_le) (use nesting_member [of _ _ ms] ms(3) in fastforce)
  ultimately show ?thesis using Object by (auto simp: remove_member_def on_fields_def storable_def)
qed (simp_all add: remove_member_def on_fields_def)

text \<open>What the safety argument reads off a record is the same after it is stored.\<close>

lemma artifact_digest_sorted: "in_domain rec \<Longrightarrow> artifact_digest (sorted_members rec) = artifact_digest rec"
  using in_domain_get [of rec "''descriptor''"]
  by (cases "get rec ''descriptor''") (simp_all add: artifact_digest_def descriptor_of_def get_sorted_members member_sorted or_else_def)

lemma object_root_sorted:
  assumes "in_domain rec"
  shows "object_root (sorted_members rec) = object_root rec"
proof -
  have "(case get (sorted_members rec) ''purge'' of None \<Rightarrow> False | Some p \<Rightarrow> get p ''confirmed_at'' \<noteq> None) =
      (case get rec ''purge'' of None \<Rightarrow> False | Some p \<Rightarrow> get p ''confirmed_at'' \<noteq> None)"
    using in_domain_get [OF assms, of "''purge''"]
    by (cases "get rec ''purge''") (simp_all add: get_sorted_members assms)
  moreover have "Option.bind (get (sorted_members rec) ''descriptor'') (\<lambda>d. member_str d ''digest'') =
      Option.bind (get rec ''descriptor'') (\<lambda>d. member_str d ''digest'')"
    using in_domain_get [OF assms, of "''descriptor''"]
    by (cases "get rec ''descriptor''") (simp_all add: get_sorted_members assms member_sorted)
  ultimately show ?thesis by (simp add: object_root_def member_sorted assms)
qed

lemma object_root_digest: "object_root rec = Some d \<Longrightarrow> d = artifact_digest rec \<and> member_str rec ''state'' = Some ''sealed''"
  by (auto simp: object_root_def artifact_digest_def descriptor_of_def or_else_def Let_def split: if_splits option.splits bind_splits)

subsection \<open>Texts\<close>

lemma dec_digits_text: "text_ok (dec_digits n)"
  by (rule text_ok_ascii) (drule dec_digits_digits, simp add: is_ascii_digit_def)

lemma alphanumeric_ascii: "is_ascii_alphanumeric c \<Longrightarrow> bval c < 0x80"
  by (auto simp: ascii_defs)

lemma identifier_text:
  assumes "is_identifier s"
  shows "text_ok s"
proof (rule text_ok_ascii)
  obtain b bs where s: "s = b # bs" "is_ascii_alphanumeric b" "list_all (\<lambda>b. is_ascii_alphanumeric b \<or> b \<in> set ''._:~-'') bs"
    using assms by (auto simp: is_identifier_def split: list.splits)
  have "bval c < 0x80" if "c \<in> set bs" for c
  proof -
    from s(3) that have "is_ascii_alphanumeric c \<or> c \<in> set ''._:~-''" by (simp add: list_all_iff)
    then show ?thesis by (auto dest: alphanumeric_ascii)
  qed
  then show "\<And>c. c \<in> set s \<Longrightarrow> bval c < 0x80" using alphanumeric_ascii [OF s(2)] by (auto simp: s(1))
qed

lemma padded_text: "text_ok (padded w n)"
  unfolding padded_def by (intro text_ok_append dec_digits_text text_ok_ascii) simp

lemma format_unix_text: "text_ok (format_unix n)"
proof -
  have sep: "text_ok ''-''" "text_ok ''T''" "text_ok '':''" "text_ok ''Z''" by (simp_all add: text_ok_literal)
  obtain y m d where "civil_of_days (int (n div 86400)) = (y, m, d)" by (cases "civil_of_days (int (n div 86400))") blast
  then show ?thesis unfolding format_unix_def by (simp only: prod.case Let_def) (intro text_ok_append padded_text sep)
qed

lemma plus_seconds_text: "text_ok (plus_seconds instant seconds)"
  unfolding plus_seconds_def Let_def by (rule format_unix_text)

lemma storable_text: "text_ok s \<Longrightarrow> storable (String s)"
  by (simp add: storable_def)

lemma storable_object:
  assumes "distinct (map fst ms)" "\<And>n v. (n, v) \<in> set ms \<Longrightarrow> text_ok n \<and> in_domain v \<and> nesting v \<le> 127"
  shows "storable (Object ms)"
  using assms by (force simp: storable_def intro!: nesting_Object_le)

text \<open>A descriptor the parser accepts, in a command whose payload leaves room for it.\<close>

lemma fill_producer_names: "map fst (fill_producer who ms) = map fst ms"
  by (induction who ms rule: fill_producer.induct) (auto split: jvalue.splits)

lemma fill_producer_in:
  "(n, w) \<in> set (fill_producer who ms) \<Longrightarrow>
   (n, w) \<in> set ms \<or> (\<exists>pm. (n, Object pm) \<in> set ms \<and> ''principal'' \<notin> fst ` set pm \<and> w = Object ((''principal'', String who) # pm))"
proof (induction who ms rule: fill_producer.induct)
  case (2 who name v members)
  show ?case
  proof (cases "name = ''producer'' \<and> (\<exists>pm. v = Object pm \<and> \<not> list_ex (\<lambda>(n, _). n = ''principal'') pm)")
    case True
    then obtain pm where pm: "name = ''producer''" "v = Object pm" "\<not> list_ex (\<lambda>(n, _). n = ''principal'') pm" by blast
    then have "''principal'' \<notin> fst ` set pm" by (force simp: list_ex_iff)
    then show ?thesis using 2 pm by auto
  next
    case False
    then show ?thesis using 2 by (auto split: if_splits jvalue.splits)
  qed
qed simp

lemma in_domain_member: "in_domain (Object ms) \<Longrightarrow> (n, v) \<in> set ms \<Longrightarrow> text_ok n \<and> in_domain v"
  by (simp only: in_domain.simps) blast

lemma with_producer_storable:
  assumes "in_domain payload" "nesting payload \<le> k" "2 \<le> k" "text_ok who"
  shows "in_domain (with_producer who payload) \<and> nesting (with_producer who payload) \<le> k"
proof (cases payload)
  case (Object ms)
  have each: "text_ok n \<and> in_domain w \<and> Suc (nesting w) \<le> k" if mem: "(n, w) \<in> set (fill_producer who ms)" for n w
  proof (cases "(n, w) \<in> set ms")
    case True
    then show ?thesis using assms(1,2) Object nesting_member [OF True] by auto
  next
    case False
    then obtain pm where pm: "(n, Object pm) \<in> set ms" "''principal'' \<notin> fst ` set pm" "w = Object ((''principal'', String who) # pm)"
      using mem fill_producer_in [of n w who ms] by blast
    have "text_ok n \<and> in_domain (Object pm)" using in_domain_member [OF _ pm(1)] assms(1) Object by blast
    then have o: "text_ok n" "in_domain (Object pm)" "Suc (nesting (Object pm)) \<le> k"
      using nesting_member [OF pm(1)] assms(2) Object by auto
    have "nesting w \<le> k - 1"
      unfolding pm(3)
    proof (rule nesting_Object_le)
      fix a b
      assume "(a, b) \<in> set ((''principal'', String who) # pm)"
      then show "Suc (nesting b) \<le> k - 1" using nesting_member [of a b pm] o(3) assms(3) by auto
    qed
    then show ?thesis using o pm(2,3) assms(3,4) by (auto simp: text_ok_literal)
  qed
  have "distinct (map fst (fill_producer who ms))" using assms(1) Object by (simp add: fill_producer_names)
  then have "in_domain (Object (fill_producer who ms))" using each by auto
  moreover have "nesting (Object (fill_producer who ms)) \<le> k" using each by (intro nesting_Object_le) blast
  ultimately show ?thesis by (simp add: with_producer_def Object)
qed (use assms in \<open>simp_all add: with_producer_def\<close>)

lemma parse_descriptor_storable:
  "\<lbrakk>parse_descriptor payload who = Inr d; in_domain payload; nesting payload \<le> 126; text_ok who\<rbrakk> \<Longrightarrow>
   in_domain d \<and> nesting d \<le> 126"
  using with_producer_storable [of payload 126 who] by (auto simp: parse_descriptor_def rbind_Inr_iff)

lemma member_str_Some: "member_str v n = Some t \<longleftrightarrow> get v n = Some (String t)"
proof -
  have "as_str w = Some t \<longleftrightarrow> w = String t" for w by (cases w) auto
  then show ?thesis by (simp add: member_str_def split: option.split)
qed

lemma member_str_text: "member_str v n = Some t \<Longrightarrow> in_domain v \<Longrightarrow> text_ok t"
  using in_domain_get [of v n "String t"] by (simp add: member_str_Some)

lemma manifest_child_ok:
  assumes "manifest_child v = Some c" "in_domain v"
  shows "child_ok c"
proof -
  obtain e digest where "get v ''evidence'' = Some e"
    "(case parse_digest digest of Inl _ \<Rightarrow> None | Inr _ \<Rightarrow> child_from_value v) = Some c"
    using assms(1) by (auto simp: manifest_child_def bind_eq_Some_conv simp del: split_paired_Ex split: if_splits)
  then have e: "get v ''evidence'' = Some e" "child_from_value v = Some c"
    by (cases "parse_digest digest"; simp)+
  note str = member_str_text
  have dom: "in_domain e" by (rule in_domain_get [OF assms(2) e(1)])
  obtain a where a: "get e ''artifact'' = Some a" "member_str a ''id'' = Some (ch_artifact c)"
    using e by (auto simp: child_from_value_def artifact_member_def bind_eq_Some_conv)
  have "text_ok (ch_role c)" "text_ok (ch_digest c)" "ch_provider c = member_str e ''provider''"
    using e str [of v "''role''"] str [of e "''digest''"] assms(2) dom by (auto simp: child_from_value_def bind_eq_Some_conv)
  moreover have "text_ok (ch_artifact c)" using str [OF a(2)] in_domain_get [OF dom a(1)] by blast
  ultimately show ?thesis
    using manifest_child_sound [OF assms(1)] str [of e "''provider''"] dom by (auto simp: child_ok_def split: option.split)
qed

lemma parse_manifest_ok: 
  assumes "parse_manifest bytes = Some cs"
  shows "\<forall>c \<in> set cs. child_ok c"
proof -
  obtain v items where v: "parse bytes = Some (Inr v)" "get v ''children'' = Some (Array items)" "manifest_children items = Some cs"
    using assms by (auto simp: parse_manifest_def split: option.splits sum.splits if_splits jvalue.splits)
  have "in_domain v" using v(1) parse_with_depth_sound by (simp add: parse_def)
  then have "\<forall>w \<in> set items. in_domain w" using in_domain_get [OF _ v(2)] by simp
  then show ?thesis
    using v(3) by (induction items arbitrary: cs) (auto simp: bind_eq_Some_conv dest: manifest_child_ok)
qed

lemma children_storable:
  assumes "\<forall>c \<in> set cs. child_ok c"
  shows "in_domain (Array (map child_to_value cs))" "nesting (Array (map child_to_value cs)) \<le> 127"
proof -
  show "in_domain (Array (map child_to_value cs))" using assms child_value_in_domain by simp
  show "nesting (Array (map child_to_value cs)) \<le> 127"
  proof (rule nesting_Array_le)
    fix v
    assume "v \<in> set (map child_to_value cs)"
    then have "nesting v \<le> 3" using child_value_nesting by auto
    then show "Suc (nesting v) \<le> 127" by simp
  qed
qed

end
