(* ===== verification/Evidence_Safety.thy ===== *)
theory Evidence_Safety
  imports Evidence_Records
begin

text \<open>
  What the evidence operations keep: the object of every sealed artifact is there and matches its
  digest until the purge that gives it up is recorded, through any commands, changes over time,
  collections and crashes between the two writes of a seal or a purge.
\<close>

subsection \<open>The invariant\<close>

text \<open>
  A record with a purge is sealed, and the object of a record that still keeps one alive is there and
  matches its digest.
\<close>

definition record_ok :: "hasher \<Rightarrow> object_store \<Rightarrow> jvalue \<Rightarrow> bool" where
  "record_ok sha obs rec \<longleftrightarrow>
     (get rec ''purge'' \<noteq> None \<longrightarrow> member_str rec ''state'' = Some ''sealed'') \<and>
     (\<forall>d. object_root rec = Some d \<longrightarrow> intact sha obs d)"

definition rooted :: "hasher \<Rightarrow> provider \<Rightarrow> bool" where
  "rooted sha p \<longleftrightarrow>
     (\<forall>i v rec. value_at (pv_store p) (artifact_key i) = Some v \<longrightarrow> stored_value v = Some rec \<longrightarrow>
        record_ok sha (pv_objects p) rec)"

lemma record_ok_sorted: "in_domain rec \<Longrightarrow> record_ok sha obs (sorted_members rec) = record_ok sha obs rec"
  by (simp add: record_ok_def object_root_sorted member_sorted get_sorted_members)

lemma record_ok_mono: "record_ok sha obs rec \<Longrightarrow> (\<And>d. intact sha obs d \<Longrightarrow> intact sha obs1 d) \<Longrightarrow> record_ok sha obs1 rec"
  by (simp add: record_ok_def)

lemma artifact_recordE:
  assumes "artifact_record p i = Inr (Some (revision, rec))"
  obtains v where "value_at (pv_store p) (artifact_key i) = Some v" "stored_value v = Some rec" "storable rec"
  using assms stored_storable
  by (auto simp: artifact_record_def record_at_def value_at_def rbind_Inr_iff result_simps split: option.splits)

lemma rooted_record: "rooted sha p \<Longrightarrow> artifact_record p i = Inr (Some (revision, rec)) \<Longrightarrow> record_ok sha (pv_objects p) rec \<and> storable rec"
  by (erule artifact_recordE) (auto simp: rooted_def)

lemma rooted_same:
  "rooted sha p \<Longrightarrow> (\<And>d. intact sha (pv_objects p) d \<Longrightarrow> intact sha (pv_objects p1) d) \<Longrightarrow>
   (\<And>i. value_at (pv_store p1) (artifact_key i) = value_at (pv_store p) (artifact_key i)) \<Longrightarrow> rooted sha p1"
  unfolding rooted_def by (metis record_ok_mono)

lemma rooted_written:
  assumes "rooted sha p" "pv_objects p1 = pv_objects p"
    and "\<And>i. value_at (pv_store p1) (artifact_key i) =
      (if i = j then Some (to_canonical rec) else value_at (pv_store p) (artifact_key i))"
    and "storable rec" "record_ok sha (pv_objects p) rec"
  shows "rooted sha p1"
  unfolding rooted_def assms(2)
proof (intro allI impI)
  fix i v r
  assume v: "value_at (pv_store p1) (artifact_key i) = Some v" "stored_value v = Some r"
  show "record_ok sha (pv_objects p) r"
  proof (cases "i = j")
    case True
    then have "r = sorted_members rec" using v assms(3) storable_reads [OF assms(4)] by simp
    then show ?thesis using assms(4,5) by (simp add: record_ok_sorted storable_def)
  next
    case False
    then show ?thesis using v assms(1,3) by (simp add: rooted_def)
  qed
qed

subsection \<open>Committing\<close>

lemma committed_value:
  assumes "committed c mk p = (r, p1)" "cm_effects c = []"
  shows "pv_objects p1 = pv_objects p \<and>
    (if \<exists>e. r = Inl e then p1 = p
     else value_at (pv_store p1) =
       fold (\<lambda>ch m. m(cg_key ch \<mapsto> cg_value ch)) (cm_also c) ((value_at (pv_store p))(cm_key c \<mapsto> cm_value c)))"
  using assms commit_command_value by (auto simp: committed_def split: sum.splits prod.splits)

lemma fold_other_keys: "\<forall>ch \<in> set chs. cg_key ch \<noteq> k \<Longrightarrow> fold (\<lambda>ch m. m(cg_key ch \<mapsto> cg_value ch)) chs m k = m k"
  by (induction chs arbitrary: m) auto

lemma hold_not_artifact [simp]: "hold_key h \<noteq> artifact_key i" "artifact_key i \<noteq> hold_key h"
  by (simp_all add: hold_key_def artifact_key_def HOLD_def ARTIFACT_def)

lemma artifact_key_inj [simp]: "artifact_key i = artifact_key j \<longleftrightarrow> i = j"
  by (simp add: artifact_key_def)

lemma commit_for_value:
  assumes "commit_for clk command rec events chunks also outcome p = (r, p1)"
  shows "pv_objects p1 = pv_objects p"
    "r = Inl e \<Longrightarrow> p1 = p"
    "r = Inr x \<Longrightarrow> value_at (pv_store p1) = fold (\<lambda>ch m. m(cg_key ch \<mapsto> cg_value ch)) also
        ((value_at (pv_store p))(key_of (c_subject command) \<mapsto> to_canonical rec))"
  using committed_value [OF assms [unfolded commit_for_def]] by (auto simp: base_commit_def)

lemma commit_for_rooted:
  assumes "rooted sha p" "commit_for clk command rec events chunks also outcome p = (r, p1)"
    and "key_of (c_subject command) = artifact_key j" "\<forall>ch \<in> set also. \<exists>h. cg_key ch = hold_key h"
    and "storable rec" "record_ok sha (pv_objects p) rec"
  shows "rooted sha p1"
proof (cases r)
  case (Inl e)
  then show ?thesis using commit_for_value(2) [OF assms(2)] assms(1) by simp
next
  case (Inr x)
  have "\<forall>ch \<in> set also. cg_key ch \<noteq> artifact_key i" for i using assms(4) by fastforce
  then show ?thesis
    by (intro rooted_written [OF assms(1) commit_for_value(1) [OF assms(2)] _ assms(5,6), of j])
      (simp add: commit_for_value(3) [OF assms(2) Inr] fold_other_keys assms(3))
qed

lemma commit_for_hold_rooted:
  assumes "rooted sha p" "commit_for clk command rec events chunks [] outcome p = (r, p1)"
    and "key_of (c_subject command) = hold_key h"
  shows "rooted sha p1"
proof (cases r)
  case (Inl e)
  then show ?thesis using commit_for_value(2) [OF assms(2)] assms(1) by simp
next
  case (Inr x)
  show ?thesis
    by (rule rooted_same [OF assms(1)])
      (simp_all add: commit_for_value(1) [OF assms(2)] commit_for_value(3) [OF assms(2) Inr] assms(3))
qed

lemma bind_unchanged_rooted:
  assumes "rooted sha p" "bind_unchanged command revision outcome p = (r, p1)"
  shows "rooted sha p1"
proof (rule rooted_same [OF assms(1)])
  have same: "tb_subjects (pv_store p1) = tb_subjects (pv_store p) \<and> pv_objects p1 = pv_objects p"
    using assms(2) by (auto simp: bind_unchanged_def bind_command_only_def insert_command_def Let_def split: sum.splits if_splits)
  then show "intact sha (pv_objects p) d \<Longrightarrow> intact sha (pv_objects p1) d" for d by simp
  show "value_at (pv_store p1) (artifact_key i) = value_at (pv_store p) (artifact_key i)" for i
    using same same_values [of "pv_store p1" "pv_store p"] by simp
qed

lemma bind_unchanged_snd: "rooted sha p \<Longrightarrow> rooted sha (snd (bind_unchanged command revision outcome p))"
  using bind_unchanged_rooted [of sha p command revision outcome] by (cases "bind_unchanged command revision outcome p") simp

lemma provider_change_value:
  assumes "provider_change key rec events now discard p = (r, p1)"
  shows "pv_objects p1 = pv_objects p"
    "r = Inl e \<Longrightarrow> p1 = p" "r = Inr x \<Longrightarrow> value_at (pv_store p1) = (value_at (pv_store p))(key \<mapsto> to_canonical rec)"
proof -
  have keep: "append_provider_events es t = Inr t1 \<Longrightarrow> value_at t1 = value_at t" for es t t1
  proof (induction es t rule: append_provider_events.induct)
    case (2 e es t)
    then obtain u where u: "insert_event (e t) t = Inr u" "append_provider_events es u = Inr t1" by (auto simp: rbind_Inr_iff)
    have "value_at u = value_at t" using u(1) by (intro same_values) (auto simp: insert_event_def split: if_splits)
    then show ?case using 2(1) [OF u(2)] by simp
  qed simp
  have put: "value_at (put_subject k s t) = (value_at t)(k \<mapsto> su_value s)" for k s t
    by (simp add: value_at_def subject_put fun_eq_iff)
  show "pv_objects p1 = pv_objects p" "r = Inl e \<Longrightarrow> p1 = p"
    using assms by (auto simp: provider_change_def split: sum.splits prod.splits)
  assume "r = Inr x"
  then obtain n t where c: "commit_provider_change key (to_canonical rec) events now discard (pv_store p) = Inr (n, t)"
    "p1 = p\<lparr>pv_store := t\<rparr>"
    using assms by (auto simp: provider_change_def split: sum.splits prod.splits)
  have drop: "value_at (u\<lparr>tb_chunks := cs\<rparr>) = value_at u" for u cs by (rule same_values) simp
  show "value_at (pv_store p1) = (value_at (pv_store p))(key \<mapsto> to_canonical rec)"
    using c by (auto simp: commit_provider_change_def Let_def rbind_Inr_iff put drop dest!: keep split: option.splits if_splits)
qed

subsection \<open>Objects\<close>

definition named :: "hasher \<Rightarrow> string \<Rightarrow> bool" where
  "named sha d \<longleftrightarrow> d = [] \<or> (\<exists>bs. d = digest_bytes sha bs)"

lemma intact_iff: "intact sha obs d \<longleftrightarrow> (\<exists>found. read_object d obs = Some found \<and> digest_bytes sha found = d)"
  by (simp add: intact_def split: option.split)

lemma intact_named: "intact sha obs d \<Longrightarrow> \<exists>bs. d = digest_bytes sha bs"
  by (auto simp: intact_def split: option.splits)

lemma named_paths:
  assumes "sha_ok sha" "named sha d" "named sha e" "d \<noteq> e" "object_path d = Some path"
  shows "object_path e \<noteq> Some path"
proof
  assume e: "object_path e = Some path"
  have none: "object_path [] = None" by (simp add: object_path_def)
  obtain a where a: "d = digest_bytes sha a" using assms(2,5) none by (auto simp: named_def)
  obtain b where b: "e = digest_bytes sha b" using assms(3) e none by (auto simp: named_def)
  have "sha256_hex sha a = sha256_hex sha b" using digest_path(2) [OF assms(1)] assms(5) e a b by simp
  then show False using assms(4) a b by (simp add: digest_bytes_def)
qed

lemma deleted_intact:
  assumes "sha_ok sha" "named sha d" "intact sha obs e" "e \<noteq> d"
  shows "intact sha (delete_object d obs) e"
proof -
  have "named sha e" using intact_named [OF assms(3)] by (auto simp: named_def)
  then have "object_path e \<noteq> object_path d \<or> object_path d = None"
    using named_paths [OF assms(1,2)] assms(4) by (cases "object_path d") auto
  then have "read_object e (delete_object d obs) = read_object e obs"
    using deleted_reads(1) [of e d obs] by (cases "object_path d") (auto simp: delete_object_def)
  then show ?thesis using assms(3) by (simp add: intact_def)
qed

lemma published_intact:
  assumes "sha_ok sha" "publish_object sha d bytes obs = Inr obs1"
  shows "intact sha obs1 d" "intact sha obs e \<Longrightarrow> intact sha obs1 e"
  using published_reads_back(1,4) [OF assms] by (simp_all only: intact_iff)

text \<open>Every root is among those the collector reads.\<close>

lemma roots_of_in:
  "\<lbrakk>roots_of vs = Inr roots; v \<in> set vs; stored_value v = Some rec; object_root rec = Some d\<rbrakk> \<Longrightarrow> d \<in> set roots"
proof (induction vs arbitrary: roots)
  case (Cons w vs)
  then obtain r where r: "stored_value w = Some r" by (cases "stored_value w") auto
  then obtain rest where "roots_of vs = Inr rest" "roots = (case object_root r of None \<Rightarrow> rest | Some e \<Rightarrow> e # rest)"
    using Cons.prems(1) by (auto simp: rbind_Inr_iff)
  then show ?case using Cons.IH [of rest] Cons.prems(2-4) r by (auto split: option.splits)
qed simp

lemma value_at_listed: "value_at t (artifact_key i) = Some v \<Longrightarrow> v \<in> set (map snd (subjects_of_kind t ARTIFACT))"
proof -
  assume "value_at t (artifact_key i) = Some v"
  then obtain s where "(artifact_key i, s) \<in> set (tb_subjects t)" "su_value s = v"
    by (auto simp: value_at_def subject_def dest: map_of_SomeD)
  then show ?thesis by (force simp: subjects_of_kind_def artifact_key_def image_iff)
qed

lemma kept_roots:
  assumes "rooted sha p" "object_roots (pv_store p) = Inr roots"
    and "\<And>d. d \<in> set roots \<Longrightarrow> intact sha (pv_objects p) d \<Longrightarrow> intact sha obs d"
  shows "rooted sha (p\<lparr>pv_objects := obs\<rparr>)"
  unfolding rooted_def
proof (intro allI impI)
  fix i v rec
  assume "value_at (pv_store (p\<lparr>pv_objects := obs\<rparr>)) (artifact_key i) = Some v" "stored_value v = Some rec"
  then have v: "value_at (pv_store p) (artifact_key i) = Some v" "stored_value v = Some rec" by simp_all
  have ok: "record_ok sha (pv_objects p) rec" using assms(1) v by (auto simp: rooted_def)
  have "d \<in> set roots" if "object_root rec = Some d" for d
    using roots_of_in [OF assms(2) [unfolded object_roots_def] value_at_listed [OF v(1)] v(2) that] .
  then show "record_ok sha (pv_objects (p\<lparr>pv_objects := obs\<rparr>)) rec" using ok assms(3) by (simp add: record_ok_def)
qed

lemma delete_if_unreferenced_rooted:
  assumes "sha_ok sha" "rooted sha p" "named sha d" "delete_if_unreferenced d p = (r, p1)"
  shows "rooted sha p1" "pv_store p1 = pv_store p"
proof -
  show "rooted sha p1"
  proof (cases "object_roots (pv_store p)")
    case (Inr roots)
    show ?thesis
    proof (cases "d \<in> set roots")
      case False
      then have "p1 = p\<lparr>pv_objects := delete_object d (pv_objects p)\<rparr>" using assms(4) Inr by (simp add: delete_if_unreferenced_def)
      moreover have "rooted sha (p\<lparr>pv_objects := delete_object d (pv_objects p)\<rparr>)"
        using False by (intro kept_roots [OF assms(2) Inr] deleted_intact [OF assms(1,3)]) auto
      ultimately show ?thesis by simp
    qed (use assms Inr in \<open>simp add: delete_if_unreferenced_def\<close>)
  qed (use assms in \<open>simp add: delete_if_unreferenced_def\<close>)
  show "pv_store p1 = pv_store p" using assms(4) by (auto simp: delete_if_unreferenced_def split: sum.splits if_splits)
qed

subsection \<open>The handlers\<close>

text \<open>A state property that the body of a handler keeps is kept by the checks around it.\<close>

lemma artifact_command_keeps:
  assumes "P p" "\<And>j. key_of (c_subject command) = artifact_key j \<Longrightarrow> P (snd (continue p))"
  shows "P (snd (artifact_command command continue p))"
proof -
  have "key_of (c_subject command) = artifact_key (sk_id (key_of (c_subject command)))" if "one_precondition command ARTIFACT"
    using that by (simp add: one_precondition_def artifact_key_def)
  then show ?thesis using assms by (auto simp: artifact_command_def)
qed

lemma hold_command_keeps:
  assumes "P p" "\<And>h. key_of (c_subject command) = hold_key h \<Longrightarrow> P (snd (continue p))"
  shows "P (snd (hold_command command continue p))"
proof -
  have "key_of (c_subject command) = hold_key (sk_id (key_of (c_subject command)))" if "one_precondition command HOLD"
    using that by (simp add: one_precondition_def hold_key_def)
  then show ?thesis using assms by (auto simp: hold_command_def split: sum.split)
qed

lemma admitted_keeps:
  "P p \<Longrightarrow> P (snd (continue p)) \<Longrightarrow> P (snd (admitted sha now params command epoch step continue p))"
  by (simp add: admitted_def split: sum.split option.split)

lemma upload_keeps:
  assumes "P p" "\<And>revision rec. artifact_record p (sk_id (key_of (c_subject command))) = Inr (Some (revision, rec)) \<Longrightarrow> P (snd (continue revision rec p))"
  shows "P (snd (upload sha clk params command continue p))"
proof (cases "artifact_record p (sk_id (key_of (c_subject command)))")
  case (Inr existing)
  then show ?thesis
    using assms by (cases existing) (auto simp: upload_def admitted_def Let_def split: sum.split option.split)
qed (use assms in \<open>simp add: upload_def\<close>)

lemma object_root_state: "member_str rec ''state'' \<noteq> Some ''sealed'' \<Longrightarrow> object_root rec = None"
  by (simp add: object_root_def)

lemma unsealed_ok: "get rec ''purge'' = None \<Longrightarrow> member_str rec ''state'' \<noteq> Some ''sealed'' \<Longrightarrow> record_ok sha obs rec"
  by (simp add: record_ok_def object_root_state)

lemma get_Some_object: "get v n = Some w \<Longrightarrow> is_object v"
  by (cases v) auto

lemma member_str_object: "member_str v n = Some t \<Longrightarrow> is_object v"
  by (simp add: member_str_Some get_Some_object)

lemma member_str_edit:
  "is_object v \<Longrightarrow> member_str (set_member name new v) n = (if n = name then as_str new else member_str v n)"
  "member_str (remove_member name v) n = (if n = name then None else member_str v n)"
  by (simp_all add: member_str_def get_set_member get_remove_member)

lemma staged_texts: "text_ok ''descriptor''" "text_ok ''state''" "text_ok ''received''" "text_ok ''staged_at''" "text_ok ''staged''"
    "text_ok ''sealed''" "text_ok ''abandoned''" "text_ok ''abandoned_reason''" "text_ok ''purge''" "text_ok ''requested_at''"
    "text_ok ''released_holds''" "text_ok ''confirmed_at''" "text_ok ''due_at''" "text_ok ''manifest_children''"
    "text_ok ''staging_expired''" "text_ok ''abandoned_by_producer''"
  by (simp_all add: text_ok_literal)

lemma rooted_snd: "(\<And>r p1. f p = (r, p1) \<Longrightarrow> rooted sha p1) \<Longrightarrow> rooted sha (snd (f p))"
  by (cases "f p") simp

text \<open>What the clock and the configuration give a handler, and a payload a frame can carry.\<close>

definition clock_ok :: "(nat \<Rightarrow> string) \<Rightarrow> bool" where
  "clock_ok clk \<longleftrightarrow> (\<forall>n. text_ok (clk n))"

definition payload_fits :: "command \<Rightarrow> bool" where
  "payload_fits command \<longleftrightarrow> in_domain (c_payload command) \<and> nesting (c_payload command) \<le> 126"

lemma staged_record_storable: "\<lbrakk>in_domain d; nesting d \<le> 126; text_ok now\<rbrakk> \<Longrightarrow> storable (staged_record d now)"
  unfolding staged_record_def by (rule storable_object) (auto simp: staged_texts MAX_SAFE_INTEGER_def)

lemma staged_record_ok: "record_ok sha obs (staged_record d now)"
  by (rule unsealed_ok) (simp_all add: staged_record_def member_str_def)

lemma prepare_rooted:
  assumes "rooted sha p" "payload_fits command" "clock_ok clk" "text_ok (principal_of p)"
  shows "rooted sha (snd (evidence_prepare sha clk params command p))"
  unfolding evidence_prepare_def
proof (rule artifact_command_keeps [where P = "rooted sha", OF assms(1)])
  fix j
  assume key: "key_of (c_subject command) = artifact_key j"
  have "rooted sha (snd (commit_for clk command (staged_record d (clk 1)) ev No_Chunks [] out p))"
    if d: "parse_descriptor (c_payload command) (principal_of p) = Inr d" for d ev out
  proof (rule rooted_snd)
    fix r p1
    assume c: "commit_for clk command (staged_record d (clk 1)) ev No_Chunks [] out p = (r, p1)"
    have "in_domain d" "nesting d \<le> 126" "text_ok (clk 1)"
      using parse_descriptor_storable [OF d] assms(2,3,4) by (simp_all add: payload_fits_def clock_ok_def)
    then show "rooted sha p1"
      using commit_for_rooted [OF assms(1) c key] staged_record_storable staged_record_ok by simp
  qed
  then show "rooted sha (snd (case parse_descriptor (c_payload command) (principal_of p) of Inl e \<Rightarrow> (Inl e, p)
      | Inr descriptor \<Rightarrow> let i = sk_id (key_of (c_subject command)) in
            admitted sha (clk 0) params command Unchecked (Publish i (get descriptor ''work'')) (\<lambda>p.
              commit_for clk command (staged_record descriptor (clk 1))
                [new_event ''evidence.artifact.staged'' (Object [(''descriptor'', descriptor)]) (c_caused_by command)]
                No_Chunks [] (prepare_outcome i (provider_chunk_limit p)) p) p))"
    using assms(1) by (auto simp: Let_def admitted_def split: sum.split option.split)
qed

lemma staged_unpurged:
  "record_ok sha obs rec \<Longrightarrow> member_str rec ''state'' = Some ''staged'' \<Longrightarrow> get rec ''purge'' = None \<and> is_object rec"
  by (auto simp: record_ok_def member_str_object)

lemma received_storable:
  assumes "storable rec" "int_at rec ''received'' + int n \<le> (case get rec ''descriptor'' of None \<Rightarrow> 0 | Some d \<Rightarrow> int_at d ''size'')"
  shows "storable (set_member ''received'' (Integer (int_at rec ''received'' + int n)) rec)"
proof -
  have safe: "\<bar>int_at v name\<bar> \<le> MAX_SAFE_INTEGER" if "in_domain v" for v name
    using in_domain_get [OF that, of name] by (auto simp: int_at_def MAX_SAFE_INTEGER_def split: option.split jvalue.split)
  have dom: "in_domain rec" using assms(1) by (simp add: storable_def)
  have "(case get rec ''descriptor'' of None \<Rightarrow> 0 | Some d \<Rightarrow> int_at d ''size'') \<le> MAX_SAFE_INTEGER"
    using safe [OF in_domain_get [OF dom], of "''descriptor''" _ "''size''"]
    by (cases "get rec ''descriptor''") (fastforce simp: MAX_SAFE_INTEGER_def)+
  then have "\<bar>int_at rec ''received'' + int n\<bar> \<le> MAX_SAFE_INTEGER" using safe [OF dom, of "''received''"] assms(2) by linarith
  then show ?thesis using assms(1) by (intro set_member_storable) (simp_all add: staged_texts)
qed

lemma append_rooted:
  assumes "rooted sha p"
  shows "rooted sha (snd (evidence_append sha clk params command p))"
  unfolding evidence_append_def
proof (rule artifact_command_keeps [where P = "rooted sha", OF assms(1)])
  fix j
  assume key: "key_of (c_subject command) = artifact_key j"
  have "rooted sha (snd (append_bytes clk command start bytes rec p))"
    if r: "artifact_record p (sk_id (key_of (c_subject command))) = Inr (Some (revision, rec))" for revision rec start bytes
  proof -
    note ok = rooted_record [OF assms(1) r]
    let ?now = "int_at rec ''received'' + int (length bytes)" and ?size = "case get rec ''descriptor'' of None \<Rightarrow> 0 | Some d \<Rightarrow> int_at d ''size''"
    show ?thesis
    proof (cases "member_str rec ''state'' = Some ''staged'' \<and> start = int_at rec ''received'' \<and> ?now \<le> ?size")
      case True
      then have up: "get rec ''purge'' = None" "is_object rec" using staged_unpurged ok by blast+
      have "storable (set_member ''received'' (Integer ?now) rec)"
        using ok True by (intro received_storable) simp_all
      moreover have "record_ok sha (pv_objects p) (set_member ''received'' (Integer ?now) rec)"
        using True up by (intro unsealed_ok) (simp_all add: get_set_member member_str_edit)
      ultimately show ?thesis
        using True by (intro rooted_snd) (auto simp: append_bytes_def Let_def elim!: commit_for_rooted [OF assms(1) _ key])
    qed (use assms(1) in \<open>auto simp: append_bytes_def Let_def\<close>)
  qed
  then show "rooted sha (snd (case chunk_of p (c_payload command) of Inl e \<Rightarrow> (Inl e, p)
       | Inr (start, bytes) \<Rightarrow> upload sha clk params command (\<lambda>_ rec. append_bytes clk command start bytes rec) p))"
    using assms(1) by (auto intro: upload_keeps [where P = "rooted sha"] split: sum.split)
qed

lemma abandoned_record_ok:
  assumes "record_ok sha obs rec" "storable rec" "member_str rec ''state'' = Some ''staged''" "text_ok reason"
  shows "record_ok sha obs1 (abandoned_record reason rec) \<and> storable (abandoned_record reason rec)"
proof
  note up = staged_unpurged [OF assms(1,3)]
  show "record_ok sha obs1 (abandoned_record reason rec)"
    unfolding abandoned_record_def
    by (rule unsealed_ok) (use up in \<open>simp_all add: get_remove_member get_set_member member_str_edit\<close>)
  show "storable (abandoned_record reason rec)"
    unfolding abandoned_record_def
    by (intro remove_member_storable set_member_storable) (use assms in \<open>simp_all add: staged_texts\<close>)
qed

lemma abandon_rooted:
  assumes "rooted sha p"
  shows "rooted sha (snd (evidence_abandon sha clk params command p))"
  unfolding evidence_abandon_def
proof (rule artifact_command_keeps [where P = "rooted sha", OF assms(1)], rule upload_keeps [where P = "rooted sha", OF assms(1)])
  fix j revision rec
  assume key: "key_of (c_subject command) = artifact_key j"
    and r: "artifact_record p (sk_id (key_of (c_subject command))) = Inr (Some (revision, rec))"
  note ok = rooted_record [OF assms(1) r]
  let ?new = "abandoned_record ''abandoned_by_producer'' rec"
  show "rooted sha (snd (let i = sk_id (key_of (c_subject command)) in
          if member_str rec ''state'' \<noteq> Some ''staged'' then (Inl not_found, p)
          else
            commit_for clk command ?new
              [abandoned_event ''abandoned_by_producer'' (c_caused_by command)] (Discard_Chunks i) []
              (Object [(''artifact'', subject_ref ARTIFACT i), (''state'', String ''abandoned'')]) p))"
  proof (cases "member_str rec ''state'' = Some ''staged''")
    case True
    then have "record_ok sha (pv_objects p) ?new" "storable ?new" using abandoned_record_ok ok staged_texts by blast+
    then show ?thesis
      using True by (intro rooted_snd) (auto simp: Let_def elim!: commit_for_rooted [OF assms(1) _ key])
  qed (use assms(1) in simp)
qed

lemma sealed_record_ok:
  assumes "record_ok sha obs rec" "storable rec" "member_str rec ''state'' = Some ''staged''"
    and "\<And>cs. children = Some cs \<Longrightarrow> \<forall>c \<in> set cs. child_ok c" "intact sha obs1 (artifact_digest rec)"
  shows "record_ok sha obs1 (sealed_record rec children) \<and> storable (sealed_record rec children)"
proof -
  note up = staged_unpurged [OF assms(1,3)]
  let ?r1 = "remove_member ''received'' (set_member ''state'' (String ''sealed'') rec)"
  have get: "get ?r1 n = (if n = ''received'' then None else if n = ''state'' then Some (String ''sealed'') else get rec n)" for n
    using up by (simp add: get_remove_member get_set_member)
  have r1: "storable ?r1" using assms(2) by (intro remove_member_storable set_member_storable) (simp_all add: staged_texts)
  have full: "get (sealed_record rec children) n = get ?r1 n" if "n \<noteq> ''manifest_children''" for n
    using that up by (simp add: sealed_record_def Let_def get_set_member split: option.split)
  have "d = artifact_digest rec" if "object_root (sealed_record rec children) = Some d" for d
    using object_root_digest [OF that] full [of "''descriptor''"] get by (simp add: artifact_digest_def descriptor_of_def)
  then have "record_ok sha obs1 (sealed_record rec children)"
    using assms(5) full [of "''purge''"] get up by (auto simp: record_ok_def)
  moreover have "storable (sealed_record rec children)"
    using r1 children_storable assms(4)
    by (cases children) (auto simp: sealed_record_def Let_def intro!: set_member_storable simp: staged_texts)
  ultimately show ?thesis ..
qed

lemma seal_staged_rooted:
  assumes "sha_ok sha" "rooted sha p" "es_corrupt (cf_evidence_store (pv_config p)) = []" "key_of (c_subject command) = artifact_key j"
    and "artifact_record p (sk_id (key_of (c_subject command))) = Inr (Some (revision, rec))" "member_str rec ''state'' = Some ''staged''"
  shows "rooted sha (snd (seal_staged sha clk command rec p))"
proof -
  let ?i = "sk_id (key_of (c_subject command))"
  let ?bytes = "staged_bytes (pv_store p) ?i"
  note ok = rooted_record [OF assms(2,5)]
  show ?thesis
  proof (cases "\<exists>children obs. seal_check sha p rec ?bytes = Inr children \<and> publish_object sha (artifact_digest rec) ?bytes (pv_objects p) = Inr obs")
    case True
    then obtain children obs where c: "seal_check sha p rec ?bytes = Inr children"
      and o: "publish_object sha (artifact_digest rec) ?bytes (pv_objects p) = Inr obs" by blast
    have r: "rooted sha (p\<lparr>pv_objects := obs\<rparr>)"
      by (rule rooted_same [OF assms(2)]) (use published_intact(2) [OF assms(1) o] in simp_all)
    have "\<forall>c \<in> set cs. child_ok c" if "children = Some cs" for cs
      using c that parse_manifest_ok [of ?bytes] by (auto simp: seal_check_def Let_def split: if_splits option.splits)
    then have new: "record_ok sha obs (sealed_record rec children)" "storable (sealed_record rec children)"
      using sealed_record_ok [OF _ _ assms(6) _ published_intact(1) [OF assms(1) o]] ok by blast+
    have keep: "pv_config p2 = pv_config p" if "commit_for clk command nrec ev ch al out (p\<lparr>pv_objects := obs\<rparr>) = (q, p2)"
      for nrec ev ch al out q p2
      using that by (auto simp: commit_for_def committed_def split: sum.splits prod.splits)
    have "rooted sha p2" if "commit_for clk command (sealed_record rec children) ev ch [] out (p\<lparr>pv_objects := obs\<rparr>) = (q, p2)"
      for ev ch out q p2
      by (rule commit_for_rooted [OF r that assms(4)]) (use new in simp_all)
    then show ?thesis
      using c o assms(3) keep by (auto simp: seal_staged_def Let_def split: prod.split sum.split)
  qed (use assms(2) in \<open>auto simp: seal_staged_def Let_def split: sum.split\<close>)
qed

lemma seal_rooted:
  assumes "sha_ok sha" "rooted sha p" "es_corrupt (cf_evidence_store (pv_config p)) = []"
  shows "rooted sha (snd (evidence_seal sha clk params command p))"
  unfolding evidence_seal_def
proof (rule artifact_command_keeps [where P = "rooted sha", OF assms(2)], rule upload_keeps [where P = "rooted sha", OF assms(2)])
  fix j revision rec
  assume key: "key_of (c_subject command) = artifact_key j"
    and r: "artifact_record p (sk_id (key_of (c_subject command))) = Inr (Some (revision, rec))"
  show "rooted sha (snd (if member_str rec ''state'' = Some ''sealed''
          then bind_unchanged command revision
                 (seal_outcome (sk_id (key_of (c_subject command))) (artifact_digest rec) (int_at (descriptor_of rec) ''size'') True) p
          else if member_str rec ''state'' = Some ''staged'' then seal_staged sha clk command rec p
          else (Inl not_found, p)))"
  proof (cases "member_str rec ''state'' = Some ''sealed''")
    case True
    then show ?thesis using bind_unchanged_snd [OF assms(2)] by simp
  next
    case False
    then show ?thesis using seal_staged_rooted [OF assms key r] assms(2) by simp
  qed
qed

lemma hold_rooted:
  assumes "rooted sha p"
  shows "rooted sha (snd (evidence_hold sha clk params command p))"
  unfolding evidence_hold_def
proof (rule hold_command_keeps [where P = "rooted sha", OF assms])
  fix h
  assume key: "key_of (c_subject command) = hold_key h"
  have "rooted sha (snd (commit_for clk command rec ev ch [] out p))" for rec ev ch out
    by (rule rooted_snd, rule commit_for_hold_rooted [OF assms _ key])
  then show "rooted sha (snd (case hold_payload (c_payload command) of
         Inl e \<Rightarrow> (Inl e, p)
       | Inr (artifact, holder_ref, reason, expires_at) \<Rightarrow>
           admitted sha (clk 0) params command Unchecked (Rights [(''evidence.hold'', Some (artifact_key artifact))]) (\<lambda>p.
             if (case expires_at of None \<Rightarrow> False | Some instant \<Rightarrow> instant \<le> clk 1)
             then (Inl (invalid_envelope ''/payload/expires_at'' ''not later than the provider clock''), p)
             else
               (case artifact_record p artifact of
                  Inl e \<Rightarrow> (Inl e, p)
                | Inr r \<Rightarrow>
                    if \<not> retainable r then (Inl not_found, p)
                    else
                      commit_for clk command
                        (Object ([(''artifact'', String artifact), (''holder_ref'', holder_ref), (''reason'', String reason),
                            (''owner'', String (principal_of p)), (''state'', String ''active'')] @
                           (case expires_at of None \<Rightarrow> [] | Some instant \<Rightarrow> [(''expires_at'', String instant)])))
                        [new_event ''evidence.hold.placed''
                           (Object [(''artifact'', subject_ref ARTIFACT artifact), (''holder_ref'', holder_ref)]) (c_caused_by command)]
                        No_Chunks []
                        (Object [(''hold'', subject_ref HOLD (sk_id (key_of (c_subject command)))), (''state'', String ''active''),
                           (''owner'', String (principal_of p))]) p)) p))"
    using assms by (auto simp: admitted_def split: sum.split option.split)
qed

lemma release_rooted:
  assumes "rooted sha p"
  shows "rooted sha (snd (evidence_release sha clk params command p))"
  unfolding evidence_release_def Let_def
proof (rule hold_command_keeps [where P = "rooted sha", OF assms], rule admitted_keeps [where P = "rooted sha", OF assms])
  fix h
  assume key: "key_of (c_subject command) = hold_key h"
  have "rooted sha (snd (commit_for clk command rec ev ch [] out p))" for rec ev ch out
    by (rule rooted_snd, rule commit_for_hold_rooted [OF assms _ key])
  then show "rooted sha (snd (case hold_record p (sk_id (key_of (c_subject command))) of
            Inl e \<Rightarrow> (Inl e, p)
          | Inr None \<Rightarrow> (Inl not_found, p)
          | Inr (Some (_, rec)) \<Rightarrow>
              if member_str rec ''state'' \<noteq> Some ''active'' then (Inl not_found, p)
              else commit_for clk command (set_member ''state'' (String ''released'') rec)
                   [new_event ''evidence.hold.released'' (hold_event_payload (set_member ''state'' (String ''released'') rec)) (c_caused_by command)] No_Chunks []
                   (Object [(''hold'', subject_ref HOLD (sk_id (key_of (c_subject command)))), (''state'', String ''released'')]) p))"
    using assms by (auto split: sum.split option.split)
qed

subsection \<open>Purges and changes over time\<close>

text \<open>What the record of a purge asked for or confirmed keeps of the one before.\<close>

lemma record_ok_purged:
  assumes "record_ok sha obs rec" "member_str rec ''state'' = Some ''sealed''"
    and "case get rec ''purge'' of None \<Rightarrow> True | Some purge \<Rightarrow> get purge ''confirmed_at'' = None"
    and "\<And>n. n \<noteq> ''purge'' \<Longrightarrow> get rec1 n = get rec n"
  shows "record_ok sha obs rec1"
proof -
  have "member_str rec1 ''state'' = member_str rec ''state''" using assms(4) by (simp add: member_str_def)
  moreover have "object_root rec = Some d" if "object_root rec1 = Some d" for d
    using that assms(2-4) by (auto simp: object_root_def Let_def split: if_splits option.splits)
  ultimately show ?thesis using assms(1,2) by (simp add: record_ok_def)
qed

lemma sealed_named:
  assumes "record_ok sha obs rec" "member_str rec ''state'' = Some ''sealed''"
    and "case get rec ''purge'' of None \<Rightarrow> True | Some purge \<Rightarrow> get purge ''confirmed_at'' = None"
  shows "named sha (artifact_digest rec)"
proof (cases "object_root rec")
  case (Some d)
  then have "intact sha obs d" using assms(1) by (simp add: record_ok_def)
  then show ?thesis using intact_named object_root_digest [OF Some] by (simp add: named_def)
next
  case None
  then have "Option.bind (get rec ''descriptor'') (\<lambda>d. member_str d ''digest'') = None"
    using assms(2,3) by (auto simp: object_root_def split: option.splits)
  then have "artifact_digest rec = []"
    by (cases "get rec ''descriptor''") (simp_all add: artifact_digest_def descriptor_of_def or_else_def member_str_def)
  then show ?thesis by (simp add: named_def)
qed

lemma strings_storable:
  assumes "list_all text_ok ts"
  shows "in_domain (Array (map String ts))" "nesting (Array (map String ts)) \<le> 1"
  using assms by (auto simp: list_all_iff intro!: nesting_Array_le)

lemma purge_value_storable:
  assumes "list_all text_ok releases" "text_ok now"
  shows "in_domain (purge_value now delay releases)" "nesting (purge_value now delay releases) \<le> 127"
proof -
  show "in_domain (purge_value now delay releases)"
    using assms plus_seconds_text by (auto simp: purge_value_def staged_texts list_all_iff)
  have "nesting (purge_value now delay releases) \<le> 2"
    unfolding purge_value_def
  proof (rule nesting_Object_le)
    fix n v
    assume "(n, v) \<in> set [(''requested_at'', String now), (''released_holds'', Array (map String releases)),
        (if delay \<le> 0 then (''confirmed_at'', String now) else (''due_at'', String (plus_seconds now delay)))]"
    then have "nesting v \<le> 1" using strings_storable(2) [OF assms(1)] by (auto split: if_splits)
    then show "Suc (nesting v) \<le> 2" by simp
  qed
  then show "nesting (purge_value now delay releases) \<le> 127" by simp
qed

lemma release_list_texts: "release_list n items holds = Inr releases \<Longrightarrow> list_all text_ok holds \<Longrightarrow> list_all text_ok releases"
  by (induction n items holds rule: release_list.induct) (auto simp: identifier_text split: option.splits if_splits)

lemma purge_payload_texts: "purge_payload command = Inr releases \<Longrightarrow> list_all text_ok releases"
  by (auto simp: purge_payload_def release_holds_def Let_def rbind_Inr_iff dest: release_list_texts
      split: option.splits jvalue.splits if_splits)

text \<open>After the commit of a purge, and whether or not its object is then deleted.\<close>

definition purge_kept :: "hasher \<Rightarrow> object_store \<Rightarrow> provider \<Rightarrow> bool" where
  "purge_kept sha obs p \<longleftrightarrow> rooted sha p \<and> rooted sha (p\<lparr>pv_objects := obs\<rparr>)"

lemma purge_kept_same: "rooted sha p \<Longrightarrow> pv_objects p = obs \<Longrightarrow> purge_kept sha obs p"
  by (auto simp: purge_kept_def)

lemma deletion_kept:
  assumes "sha_ok sha" "rooted sha p" "named sha d" "delete_if_unreferenced d p = (r, p1)"
  shows "purge_kept sha (pv_objects p) p1"
proof -
  have "p1\<lparr>pv_objects := pv_objects p\<rparr> = p"
    using assms(4) by (auto simp: delete_if_unreferenced_def split: sum.splits if_splits)
  then show ?thesis using delete_if_unreferenced_rooted(1) [OF assms] assms(2) by (simp add: purge_kept_def)
qed

lemma purge_now_kept:
  assumes "sha_ok sha" "rooted sha p" "clock_ok clk" "list_all text_ok releases" "key_of (c_subject command) = artifact_key j"
    and "record_ok sha (pv_objects p) rec" "storable rec" "member_str rec ''state'' = Some ''sealed''" "get rec ''purge'' = None"
  shows "purge_kept sha (pv_objects p) (snd (purge_now clk command releases holds rec p))"
proof -
  let ?new = "set_member ''purge'' (purge_value (clk 1) (deletion_delay p) releases) rec"
  have obj: "is_object rec" using assms(8) by (rule member_str_object)
  have ok: "record_ok sha (pv_objects p) ?new"
    by (rule record_ok_purged [OF assms(6,8)]) (use obj assms(9) in \<open>simp_all add: get_set_member\<close>)
  have st: "storable ?new"
    using assms(3,4,7) purge_value_storable by (intro set_member_storable) (simp_all add: staged_texts clock_ok_def)
  have kept: "rooted sha p2 \<and> pv_objects p2 = pv_objects p"
    if "commit_for clk command ?new ev ch (map (released_change command holds) releases) out p = (q, p2)" for ev ch out q p2
  proof
    show "rooted sha p2"
      by (rule commit_for_rooted [OF assms(2) that assms(5) _ st ok]) (auto simp: released_change_def Let_def)
    show "pv_objects p2 = pv_objects p" by (rule commit_for_value(1) [OF that])
  qed
  have nm: "named sha (artifact_digest rec)" by (rule sealed_named [OF assms(6,8)]) (simp add: assms(9))
  show ?thesis
  proof (cases "commit_for clk command ?new (purge_events (clk 1) (deletion_delay p) (c_caused_by command)) No_Chunks
        (map (released_change command holds) releases)
        (purge_outcome (sk_id (key_of (c_subject command))) (String (if deletion_delay p \<le> 0 then ''purged'' else ''purge_pending''))
           (map (subject_ref HOLD) releases)) p")
    case (Pair q p2)
    note k = kept [OF Pair]
    show ?thesis
    proof (cases "delete_if_unreferenced (artifact_digest rec) p2")
      case (Pair q3 p3)
      then have "purge_kept sha (pv_objects p) p3" using deletion_kept [OF assms(1) _ nm Pair] k by simp
      then show ?thesis
        using Pair \<open>commit_for _ _ _ _ _ _ _ _ = (q, p2)\<close> k purge_kept_same [of sha p2]
        by (auto simp: purge_now_def Let_def split: sum.split)
    qed
  qed
qed

lemma purge_kept_ok:
  assumes "sha_ok sha" "rooted sha p" "clock_ok clk"
  shows "purge_kept sha (pv_objects p) (snd (evidence_purge sha clk params command p))"
proof -
  have same: "purge_kept sha (pv_objects p) p" using purge_kept_same [OF assms(2)] by simp
  have body: "purge_kept sha (pv_objects p) (snd (purge_sealed sha clk command releases revision rec p))"
    if a: "artifact_record p (sk_id (key_of (c_subject command))) = Inr (Some (revision, rec))" "sk_kind (key_of (c_subject command)) = ARTIFACT"
      "list_all text_ok releases" "member_str rec ''state'' = Some ''sealed''" for revision rec releases
  proof -
    have key: "key_of (c_subject command) = artifact_key (sk_id (key_of (c_subject command)))" using a(2) by (simp add: artifact_key_def)
    have bound: "purge_kept sha (pv_objects p) (snd (bind_unchanged command revision out p))" for out
    proof (cases "bind_unchanged command revision out p")
      case (Pair q p2)
      have "pv_objects p2 = pv_objects p"
        using Pair by (auto simp: bind_unchanged_def Let_def split: sum.splits)
      then show ?thesis using bind_unchanged_rooted [OF assms(2) Pair] Pair by (simp add: purge_kept_same)
    qed
    have now: "purge_kept sha (pv_objects p) (snd (purge_now clk command releases holds rec p))" if "get rec ''purge'' = None" for holds
      using rooted_record [OF assms(2) a(1)] by (intro purge_now_kept [OF assms a(3) key _ _ a(4) that]) simp_all
    show ?thesis
      using same bound now by (auto simp: purge_sealed_def Let_def split: sum.split)
  qed
  show ?thesis
    using same body purge_payload_texts [of command]
    by (auto simp: evidence_purge_def Let_def admitted_def split: sum.split option.split)
qed

lemma update_put: "map_of ms name = Some v \<Longrightarrow> update_member name f ms = put_member name (f v) ms"
  by (induction name f ms rule: update_member.induct) (auto split: if_splits)

lemma confirm_purge_edit:
  assumes "get rec ''purge'' = Some (Object ms)"
  shows "confirm_purge now rec =
    set_member ''purge'' (Object (filter (\<lambda>(name, _). name \<noteq> ''due_at'') ms @ [(''confirmed_at'', String now)])) rec"
  using assms by (cases rec) (simp_all add: confirm_purge_def set_member_def on_fields_def update_put)

lemma deletion_due_purge:
  "deletion_due now rec \<Longrightarrow> \<exists>ms. get rec ''purge'' = Some (Object ms) \<and> map_of ms ''confirmed_at'' = None"
  by (auto simp: deletion_due_def member_str_Some dest!: get_Some_object split: option.splits jvalue.splits)
    (metis get.simps(1) get_Some_object is_object.elims(2))+

lemma confirmed_storable:
  assumes "in_domain (Object ms)" "nesting (Object ms) \<le> 127" "map_of ms ''confirmed_at'' = None" "text_ok now"
  shows "in_domain (Object (filter (\<lambda>(name, _). name \<noteq> ''due_at'') ms @ [(''confirmed_at'', String now)]))"
    "nesting (Object (filter (\<lambda>(name, _). name \<noteq> ''due_at'') ms @ [(''confirmed_at'', String now)])) \<le> 127"
proof -
  have "''confirmed_at'' \<notin> fst ` set ms" using assms(3) by (simp add: map_of_eq_None_iff)
  moreover have "distinct (map fst (filter (\<lambda>(name, _). name \<noteq> ''due_at'') ms))"
    using assms(1) by (intro distinct_map_filter) simp
  ultimately show "in_domain (Object (filter (\<lambda>(name, _). name \<noteq> ''due_at'') ms @ [(''confirmed_at'', String now)]))"
    using assms(1,4) by (auto simp: staged_texts)
  show "nesting (Object (filter (\<lambda>(name, _). name \<noteq> ''due_at'') ms @ [(''confirmed_at'', String now)])) \<le> 127"
  proof (rule nesting_Object_le)
    fix n v
    assume "(n, v) \<in> set (filter (\<lambda>(name, _). name \<noteq> ''due_at'') ms @ [(''confirmed_at'', String now)])"
    then have "(n, v) \<in> set ms \<or> v = String now" by auto
    then show "Suc (nesting v) \<le> 127" using nesting_member [of n v ms] assms(2) by auto
  qed
qed

lemma nesting_get: "get v n = Some w \<Longrightarrow> Suc (nesting w) \<le> nesting v"
  by (cases v) (simp_all only: get.simps, auto dest!: map_of_SomeD nesting_member)

lemma tick_artifact_kept:
  assumes "sha_ok sha" "rooted sha p" "text_ok now"
  shows "purge_kept sha (pv_objects p) (snd (tick_artifact now i p))"
proof (cases "artifact_record p i")
  case (Inr r)
  show ?thesis
  proof (cases r)
    case (Some rr)
    then obtain revision rec where rec: "artifact_record p i = Inr (Some (revision, rec))" using Inr by (cases rr) auto
    note ok = rooted_record [OF assms(2) rec]
    have same: "purge_kept sha (pv_objects p) p" using purge_kept_same [OF assms(2)] by simp
    have changed: "rooted sha p2 \<and> pv_objects p2 = pv_objects p"
      if c: "provider_change (artifact_key i) new ev now dc p = (q, p2)" and new: "storable new" "record_ok sha (pv_objects p) new"
      for new ev dc q p2
    proof (cases q)
      case (Inl e)
      then show ?thesis using provider_change_value(2) [OF c] assms(2) by simp
    next
      case (Inr x)
      show ?thesis
        using provider_change_value(1) [OF c]
        by (intro conjI rooted_written [OF assms(2) _ _ new, of _ i]) (simp_all add: provider_change_value(3) [OF c Inr])
    qed
    consider (expired) "staging_expired p now rec" | (due) "\<not> staging_expired p now rec" "deletion_due now rec"
      | (neither) "\<not> staging_expired p now rec" "\<not> deletion_due now rec" by blast
    then show ?thesis
    proof cases
      case expired
      then have "member_str rec ''state'' = Some ''staged''" by (auto simp: staging_expired_def split: option.splits)
      then have "record_ok sha (pv_objects p) (abandoned_record ''staging_expired'' rec)" "storable (abandoned_record ''staging_expired'' rec)"
        using abandoned_record_ok ok staged_texts by blast+
      then show ?thesis
        using expired rec changed
        by (cases "provider_change (artifact_key i) (abandoned_record ''staging_expired'' rec) [abandoned_event ''staging_expired'' []] now True p")
          (simp add: tick_artifact_def purge_kept_same)
    next
      case due
      obtain ms where ms: "get rec ''purge'' = Some (Object ms)" "map_of ms ''confirmed_at'' = None"
        using deletion_due_purge [OF due(2)] by blast
      have dom: "in_domain (Object ms)" "nesting (Object ms) \<le> 127"
        using in_domain_get [OF _ ms(1)] nesting_get [OF ms(1)] ok unfolding storable_def by (blast, linarith)
      have st: "member_str rec ''state'' = Some ''sealed''" using ok ms(1) by (simp add: record_ok_def)
      note edit = confirm_purge_edit [OF ms(1), of now]
      have obj: "is_object rec" using ms(1) by (rule get_Some_object)
      have new: "storable (confirm_purge now rec)"
        unfolding edit
        by (rule set_member_storable [OF _ _ confirmed_storable [OF dom ms(2) assms(3)]]) (use ok in \<open>simp_all add: staged_texts\<close>)
      have new_ok: "record_ok sha (pv_objects p) (confirm_purge now rec)"
        by (rule record_ok_purged [OF _ st]) (use ok ms obj in \<open>simp_all add: edit get_set_member\<close>)
      have "artifact_digest (confirm_purge now rec) = artifact_digest rec"
        using obj by (simp add: artifact_digest_def descriptor_of_def edit get_set_member)
      moreover have "named sha (artifact_digest rec)" by (rule sealed_named [where obs = "pv_objects p", OF _ st]) (use ok ms in simp_all)
      ultimately have nm: "named sha (artifact_digest (confirm_purge now rec))" by simp
      show ?thesis
      proof (cases "provider_change (artifact_key i) (confirm_purge now rec) [purged_event now []] now False p")
        case c: (Pair q p2)
        note k = changed [OF c new new_ok]
        obtain q3 p3 where d: "delete_if_unreferenced (artifact_digest (confirm_purge now rec)) p2 = (q3, p3)" by fastforce
        have "purge_kept sha (pv_objects p) p3" using deletion_kept [OF assms(1) _ nm d] k by simp
        moreover have "purge_kept sha (pv_objects p) p2" using k purge_kept_same by blast
        ultimately show ?thesis using due rec c d by (simp add: tick_artifact_def split: sum.split)
      qed
    next
      case neither
      then show ?thesis using rec same by (simp add: tick_artifact_def)
    qed
  qed (use Inr assms(2) in \<open>simp add: tick_artifact_def purge_kept_same\<close>)
qed (use assms(2) in \<open>simp add: tick_artifact_def purge_kept_same\<close>)

lemma tick_hold_rooted:
  assumes "rooted sha p"
  shows "rooted sha (snd (tick_hold now i p))"
proof -
  have "rooted sha p2" if c: "provider_change (hold_key i) new ev now dc p = (q, p2)" for new ev dc q p2
  proof (cases q)
    case (Inl e)
    then show ?thesis using provider_change_value(2) [OF c] assms by simp
  next
    case (Inr x)
    show ?thesis
      by (rule rooted_same [OF assms]) (simp_all add: provider_change_value(1) [OF c] provider_change_value(3) [OF c Inr])
  qed
  then have "rooted sha (snd (provider_change (hold_key i) new ev now dc p))" for new ev dc by (rule rooted_snd)
  then show ?thesis using assms by (auto simp: tick_hold_def Let_def split: sum.split option.split)
qed

subsection \<open>Collection\<close>

lemma delete_others:
  assumes "sha_ok sha" "intact sha obs d" "d \<notin> set gone" "\<forall>e \<in> set gone. \<exists>hex. e = ''sha256:'' @ hex"
  shows "intact sha (fold delete_object gone obs) d"
  using assms(2-4)
proof (induction gone arbitrary: obs)
  case (Cons e es)
  then obtain hex where e: "e = ''sha256:'' @ hex" by auto
  obtain bs where d: "d = digest_bytes sha bs" using intact_named Cons.prems(1) by blast
  have "split_once CHR '':'' e = Some (''sha256'', hex)"
    using split_once_Some_iff [of "CHR '':''" "''sha256'' @ CHR '':'' # hex" "''sha256''" hex] by (simp add: e)
  then have "object_path e = None \<or> object_path e = Some hex" by (simp add: object_path_def)
  moreover have "sha256_hex sha bs \<noteq> hex" using Cons.prems(2) d e by (auto simp: digest_bytes_def)
  ultimately have "object_path d \<noteq> object_path e \<or> object_path e = None" using digest_path(2) [OF assms(1)] d by auto
  then have "read_object d (delete_object e obs) = read_object d obs"
    using deleted_reads(1) [of d e obs] by (cases "object_path e") (auto simp: delete_object_def)
  then have "intact sha (delete_object e obs) d" using Cons.prems(1) by (simp add: intact_def)
  then show ?case using Cons by simp
qed simp

lemma discarded_intact: "intact sha (fold discard_staging paths obs) d = intact sha obs d"
  by (induction paths arbitrary: obs) (simp_all add: intact_def read_object_def discard_staging_def)

lemma collect_rooted:
  assumes "sha_ok sha" "rooted sha p"
  shows "rooted sha (snd (collect_unreferenced_objects p))"
proof (cases "object_roots (pv_store p)")
  case (Inr roots)
  obtain objects staging where inv: "object_inventory (pv_objects p) = (objects, staging)" by fastforce
  let ?doomed = "filter (\<lambda>d. d \<notin> set roots) objects"
  have "\<forall>e \<in> set objects. \<exists>hex. e = ''sha256:'' @ hex" using inv by (auto simp: object_inventory_def)
  then have kept: "intact sha (fold delete_object ?doomed (pv_objects p)) d" if "d \<in> set roots" "intact sha (pv_objects p) d" for d
    using that by (intro delete_others [OF assms(1)]) auto
  have "rooted sha (p\<lparr>pv_objects := fold discard_staging staging (fold delete_object ?doomed (pv_objects p))\<rparr>)"
    by (rule kept_roots [OF assms(2) Inr]) (simp add: discarded_intact kept)
  then show ?thesis using Inr inv by (simp add: collect_unreferenced_objects_def Let_def)
qed (use assms(2) in \<open>simp add: collect_unreferenced_objects_def\<close>)

subsection \<open>Every step\<close>

text \<open>
  One step of a provider, as far as the artifacts and their objects go: a command of the evidence
  profile, whatever it answers; a change over time; the collection at start; a crash between the
  object of a seal and its row, or between the row of a purge and the deletion of its object; a write
  of a staging file; any write of the other profiles, which leaves the artifacts as they are.
\<close>

inductive evidence_step :: "hasher \<Rightarrow> provider \<Rightarrow> provider \<Rightarrow> bool" for sha where
  command: "\<lbrakk>payload_fits c; clock_ok clk; text_ok (principal_of p)\<rbrakk> \<Longrightarrow>
     evidence_step sha p (snd (evidence_command sha clk called params c p))"
| artifact_due: "text_ok now \<Longrightarrow> evidence_step sha p (snd (tick_artifact now i p))"
| hold_due: "evidence_step sha p (snd (tick_hold now i p))"
| collected: "evidence_step sha p (snd (collect_unreferenced_objects p))"
| unsealed_crash: "publish_object sha d bytes (pv_objects p) = Inr obs \<Longrightarrow> evidence_step sha p (p\<lparr>pv_objects := obs\<rparr>)"
| undeleted_crash: "clock_ok clk \<Longrightarrow>
     evidence_step sha p ((snd (evidence_purge sha clk params c p))\<lparr>pv_objects := pv_objects p\<rparr>)"
| unconfirmed_crash: "text_ok now \<Longrightarrow> evidence_step sha p ((snd (tick_artifact now i p))\<lparr>pv_objects := pv_objects p\<rparr>)"
| staging: "evidence_step sha p (p\<lparr>pv_objects := pv_objects p\<lparr>ob_staging := paths\<rparr>\<rparr>)"
| elsewhere: "\<lbrakk>pv_objects p1 = pv_objects p; cf_evidence_store (pv_config p1) = cf_evidence_store (pv_config p);
     \<And>i. value_at (pv_store p1) (artifact_key i) = value_at (pv_store p) (artifact_key i)\<rbrakk> \<Longrightarrow> evidence_step sha p p1"

definition uncorrupted :: "provider \<Rightarrow> bool" where
  "uncorrupted p \<longleftrightarrow> es_corrupt (cf_evidence_store (pv_config p)) = []"

text \<open>No step changes the configuration of the evidence store.\<close>

lemma commit_for_config [simp]: "pv_config (snd (commit_for clk command rec ev ch al out p)) = pv_config p"
  by (simp add: commit_for_def committed_def split: sum.split prod.split)

lemma bind_unchanged_config [simp]: "pv_config (snd (bind_unchanged command revision out p)) = pv_config p"
  by (simp add: bind_unchanged_def Let_def split: sum.split)

lemma provider_change_config [simp]: "pv_config (snd (provider_change key rec ev now dc p)) = pv_config p"
  by (simp add: provider_change_def split: sum.split prod.split)

lemma delete_if_unreferenced_config [simp]: "pv_config (snd (delete_if_unreferenced d p)) = pv_config p"
  by (simp add: delete_if_unreferenced_def split: sum.split)

lemma commit_for_configD: "commit_for clk command r ev ch al out p = (q, p2) \<Longrightarrow> pv_config p2 = pv_config p"
  using commit_for_config [of clk command r ev ch al out p] by simp

lemma delete_if_unreferenced_configD: "delete_if_unreferenced d p = (q, p2) \<Longrightarrow> pv_config p2 = pv_config p"
  using delete_if_unreferenced_config [of d p] by simp

lemma provider_change_configD: "provider_change key rec ev now dc p = (q, p2) \<Longrightarrow> pv_config p2 = pv_config p"
  using provider_change_config [of key rec ev now dc p] by simp

lemma seal_staged_config [simp]: "pv_config (snd (seal_staged sha clk command rec p)) = pv_config p"
  by (auto simp: seal_staged_def Let_def dest!: commit_for_configD split: sum.split prod.split option.split)

lemma tick_artifact_config [simp]: "pv_config (snd (tick_artifact now i p)) = pv_config p"
  by (auto simp: tick_artifact_def dest!: provider_change_configD split: sum.split prod.split option.split)

lemma tick_hold_config [simp]: "pv_config (snd (tick_hold now i p)) = pv_config p"
  by (simp add: tick_hold_def Let_def split: sum.split option.split)

lemma append_bytes_config [simp]: "pv_config (snd (append_bytes clk command start bytes rec p)) = pv_config p"
  by (simp add: append_bytes_def Let_def)

lemma upload_config: "(\<And>revision rec. pv_config (snd (f revision rec p)) = pv_config p) \<Longrightarrow> pv_config (snd (upload sha clk params command f p)) = pv_config p"
  by (rule upload_keeps [where P = "\<lambda>q. pv_config q = pv_config p"]) simp_all

lemma purge_sealed_config [simp]: "pv_config (snd (purge_sealed sha clk command releases revision rec p)) = pv_config p"
  by (auto simp: purge_sealed_def purge_now_def Let_def dest!: commit_for_configD delete_if_unreferenced_configD
      split: sum.split prod.split)

lemma evidence_command_config [simp]: "pv_config (snd (evidence_command sha clk called params c p)) = pv_config p"
proof -
  let ?P = "\<lambda>q. pv_config q = pv_config p"
  note wraps = artifact_command_keeps [where P = ?P, OF refl] hold_command_keeps [where P = ?P, OF refl]
    admitted_keeps [where P = ?P, OF refl]
  have "?P (snd (evidence_prepare sha clk params c p))"
    unfolding evidence_prepare_def by (rule wraps) (simp add: Let_def admitted_def split: sum.split option.split)
  moreover have "?P (snd (evidence_append sha clk params c p))"
    unfolding evidence_append_def by (rule wraps) (simp add: upload_config split: sum.split prod.split)
  moreover have "?P (snd (evidence_seal sha clk params c p))"
    unfolding evidence_seal_def by (rule wraps) (simp add: upload_config)
  moreover have "?P (snd (evidence_abandon sha clk params c p))"
    unfolding evidence_abandon_def by (rule wraps) (simp add: upload_config Let_def)
  moreover have "?P (snd (evidence_hold sha clk params c p))"
    unfolding evidence_hold_def by (rule wraps) (auto simp: admitted_def split: sum.split option.split)
  moreover have "?P (snd (evidence_release sha clk params c p))"
    unfolding evidence_release_def Let_def by (rule wraps, rule wraps) (simp split: sum.split option.split)
  moreover have "?P (snd (evidence_purge sha clk params c p))"
    unfolding evidence_purge_def Let_def by (auto simp: admitted_def split: sum.split option.split)
  ultimately show ?thesis by (simp add: evidence_command_def)
qed

lemma step_uncorrupted: "evidence_step sha p p1 \<Longrightarrow> cf_evidence_store (pv_config p1) = cf_evidence_store (pv_config p)"
proof (induction rule: evidence_step.induct)
  case (undeleted_crash clk p params c)
  then show ?case using evidence_command_config [of sha clk "''evidence.purge''" params c p] by (simp add: evidence_command_def)
qed (auto simp: collect_unreferenced_objects_def Let_def split: sum.split prod.split)

lemma step_rooted:
  assumes "evidence_step sha p p1" "sha_ok sha" "uncorrupted p" "rooted sha p"
  shows "rooted sha p1"
  using assms(1,3,4)
proof cases
  case (command c clk called params)
  note ok = command(2-4)
  have "rooted sha (snd (evidence_purge sha clk params c p))"
    using purge_kept_ok [OF assms(2,4) ok(2)] by (simp add: purge_kept_def)
  then show ?thesis
    using prepare_rooted [OF assms(4) ok] append_rooted [OF assms(4)] seal_rooted [OF assms(2,4)] abandon_rooted [OF assms(4)]
      hold_rooted [OF assms(4)] release_rooted [OF assms(4)] assms(3,4)
    by (simp add: command(1) evidence_command_def uncorrupted_def)
next
  case (artifact_due now i)
  then show ?thesis using tick_artifact_kept [OF assms(2,4)] by (simp add: purge_kept_def)
next
  case (hold_due now i)
  then show ?thesis using tick_hold_rooted assms(4) by simp
next
  case collected
  then show ?thesis using collect_rooted assms(2,4) by simp
next
  case (unsealed_crash d bytes obs)
  then show ?thesis using published_intact(2) [OF assms(2) unsealed_crash(2)] by (intro rooted_same [OF assms(4)]) simp_all
next
  case (undeleted_crash clk params c)
  then show ?thesis using purge_kept_ok [OF assms(2,4)] by (simp add: purge_kept_def)
next
  case (unconfirmed_crash now i)
  then show ?thesis using tick_artifact_kept [OF assms(2,4)] by (simp add: purge_kept_def)
next
  case (staging paths)
  then show ?thesis by (intro rooted_same [OF assms(4)]) (simp_all add: intact_def read_object_def)
next
  case elsewhere
  then show ?thesis by (intro rooted_same [OF assms(4)]) simp_all
qed

lemma steps_rooted:
  assumes "(evidence_step sha)\<^sup>*\<^sup>* p p1" "sha_ok sha" "uncorrupted p" "rooted sha p"
  shows "rooted sha p1 \<and> uncorrupted p1"
  using assms(1)
proof induction
  case base
  then show ?case using assms by simp
next
  case (step q r)
  then show ?case using step_rooted [OF step(2) assms(2)] step_uncorrupted [OF step(2)] by (simp add: uncorrupted_def)
qed

end
