(* ===== verification/Evidence_Uploads.thy ===== *)
theory Evidence_Uploads
  imports Evidence_Safety Command_Path
begin

text \<open>
  What an upload leaves: the bytes staged are the chunks appended one after the other, and a seal
  publishes exactly them. Two commands the profile lets through break an upload, an empty chunk and a
  second preparation.
\<close>

subsection \<open>The chunks a commit writes\<close>

lemma append_events_chunks: "append_events c r k n es t = Inr t1 \<Longrightarrow> tb_chunks t1 = tb_chunks t"
  by (induction c r k n es t rule: append_events.induct)
    (auto simp: rbind_Inr_iff append_event_def insert_event_def split: if_splits)

lemma raise_subject_chunks: "raise_subject k v t = (n, t1) \<Longrightarrow> tb_chunks t1 = tb_chunks t"
  by (auto simp: raise_subject_def put_subject_def Let_def split: option.splits)

lemma apply_also_chunks: "apply_also c r chs t = Inr t1 \<Longrightarrow> tb_chunks t1 = tb_chunks t"
  by (induction c r chs t rule: apply_also.induct)
    (auto simp: rbind_Inr_iff dest!: raise_subject_chunks append_events_chunks split: prod.splits)

lemma commit_command_chunks:
  assumes "commit_command c mk t = Inr (res, t1)" "cm_effects c = []"
  shows "(case cm_chunks c of
      No_Chunks \<Rightarrow> tb_chunks t1 = tb_chunks t
    | Append_Chunk i start bytes \<Rightarrow> (i, start) \<notin> fst ` set (tb_chunks t) \<and> tb_chunks t1 = tb_chunks t @ [((i, start), bytes)]
    | Discard_Chunks i \<Rightarrow> tb_chunks t1 = filter (\<lambda>row. fst (fst row) \<noteq> i) (tb_chunks t))"
proof -
  obtain n t2 where r: "raise_subject (cm_key c) (cm_value c) t = (n, t2)" by fastforce
  let ?op = "operation_ref_of (next_operation t2)" and ?t3 = "set_meta ''operation_counter'' (next_operation t2) t2"
  obtain t4 t5 t6 t7 row where steps:
    "append_events c ?op (cm_key c) n ((case cm_event c of None \<Rightarrow> [] | Some e \<Rightarrow> [e]) @ cm_more_events c) ?t3 = Inr t4"
    "insert_claim_revision c n t4 = Inr t5" "change_chunks (cm_chunks c) t5 = Inr t6"
    "apply_also c ?op (cm_also c) t6 = Inr t7" "insert_command row t7 = Inr t1"
    using assms r by (auto simp: commit_command_def Let_def rbind_Inr_iff)
  have "tb_chunks t5 = tb_chunks t4" using steps(2) by (auto simp: insert_claim_revision_def split: option.splits if_splits)
  moreover have "tb_chunks t4 = tb_chunks t"
    using append_events_chunks [OF steps(1)] raise_subject_chunks [OF r] by (simp add: set_meta_def)
  moreover have "tb_chunks t1 = tb_chunks t6"
    using apply_also_chunks [OF steps(4)] steps(5) by (auto simp: insert_command_def split: if_splits)
  ultimately show ?thesis using steps(3) by (cases "cm_chunks c") (auto split: if_splits)
qed

lemma commit_for_chunks:
  assumes "commit_for clk command rec events chunks also outcome p = (Inr x, p1)"
  shows "(case chunks of
      No_Chunks \<Rightarrow> tb_chunks (pv_store p1) = tb_chunks (pv_store p)
    | Append_Chunk i start bytes \<Rightarrow>
        (i, start) \<notin> fst ` set (tb_chunks (pv_store p)) \<and> tb_chunks (pv_store p1) = tb_chunks (pv_store p) @ [((i, start), bytes)]
    | Discard_Chunks i \<Rightarrow> tb_chunks (pv_store p1) = filter (\<lambda>row. fst (fst row) \<noteq> i) (tb_chunks (pv_store p)))"
  using assms commit_command_chunks [where c = "(base_commit p (clk 2) command (key_of (c_subject command)) (to_canonical rec)
           (case events of [] \<Rightarrow> None | e # _ \<Rightarrow> Some e))
        \<lparr>cm_more_events := drop 1 events, cm_chunks := chunks, cm_also := also\<rparr>"]
  by (auto simp: commit_for_def committed_def base_commit_def split: sum.splits prod.splits)

lemma recorded_after:
  assumes "commit_for clk command rec events chunks [] outcome p = (Inr x, p1)" "key_of (c_subject command) = artifact_key i" "storable rec"
  shows "\<exists>n. artifact_record p1 i = Inr (Some (n, sorted_members rec))"
proof -
  have "value_at (pv_store p1) (artifact_key i) = Some (to_canonical rec)"
    using commit_for_value(3) [OF assms(1) refl] assms(2) by simp
  then show ?thesis
    using storable_reads [OF assms(3)] by (auto simp: artifact_record_def record_at_def value_at_def)
qed

subsection \<open>Chunks laid end to end\<close>

definition chunk_rows :: "tables \<Rightarrow> string \<Rightarrow> (int \<times> string) list" where
  "chunk_rows t i = map (\<lambda>row. (snd (fst row), snd row)) (filter (\<lambda>row. fst (fst row) = i) (tb_chunks t))"

fun laid :: "int \<Rightarrow> (int \<times> string) list \<Rightarrow> int \<Rightarrow> bool" where
  "laid a [] z \<longleftrightarrow> a = z"
| "laid a ((start, bytes) # rows) z \<longleftrightarrow> start = a \<and> bytes \<noteq> [] \<and> laid (a + int (length bytes)) rows z"

lemma laid_snoc:
  "laid a (rows @ [(start, bytes)]) z \<longleftrightarrow> laid a rows start \<and> bytes \<noteq> [] \<and> z = start + int (length bytes)"
  by (induction rows arbitrary: a) auto

lemma laid_starts: "laid a rows z \<Longrightarrow> a \<le> z \<and> (\<forall>row \<in> set rows. a \<le> fst row \<and> fst row < z)"
proof (induction a rows z rule: laid.induct)
  case (2 a s bs rows z)
  then have "0 < int (length bs)" "laid (a + int (length bs)) rows z" "s = a" by simp_all
  note tail = this
  note ih = 2(1) [OF tail(2)]
  have "a < z" using ih tail(1) by linarith
  moreover have "\<forall>row \<in> set rows. a \<le> fst row \<and> fst row < z" using ih tail(1) by force
  ultimately show ?case using tail(3) by simp
qed simp

lemma laid_sorted: "laid a rows z \<Longrightarrow> sorted (map fst rows)"
proof (induction a rows z rule: laid.induct)
  case (2 a s bs rows z)
  then have "laid (a + int (length bs)) rows z" by simp
  from laid_starts [OF this] 2 show ?case by fastforce
qed simp

lemma sort_key_map: "sort_key f (map g xs) = map g (sort_key (f \<circ> g) xs)"
proof -
  have "insort_key f (g x) (map g ys) = map g (insort_key (f \<circ> g) x ys)" for x ys by (induction ys) auto
  then show ?thesis by (induction xs) simp_all
qed

lemma staged_laid:
  assumes "laid a (chunk_rows t i) z"
  shows "staged_bytes t i = concat (map snd (chunk_rows t i))"
proof -
  let ?rows = "filter (\<lambda>row. fst (fst row) = i) (tb_chunks t)"
  have "sorted (map (\<lambda>row. snd (fst row)) ?rows)"
    using laid_sorted [OF assms] by (simp add: chunk_rows_def comp_def)
  then have "sort_key (\<lambda>row. snd (fst row)) ?rows = ?rows" by (simp add: sort_key_id_if_sorted)
  then show ?thesis by (simp add: staged_bytes_def chunk_rows_def comp_def)
qed

subsection \<open>Uploads\<close>

text \<open>A command let through, none bound before it.\<close>

definition let_through :: "hasher \<Rightarrow> (nat \<Rightarrow> string) \<Rightarrow> jvalue \<Rightarrow> command \<Rightarrow> step6 \<Rightarrow> provider \<Rightarrow> bool" where
  "let_through sha clk params command step p \<longleftrightarrow> admit_command sha p (clk 0) params command Unchecked step = Inr None"

lemma admitted_through: "let_through sha clk params command step p \<Longrightarrow> admitted sha (clk 0) params command Unchecked step f p = f p"
  by (simp add: let_through_def admitted_def)

text \<open>A staged record of a digest and a size, and chunks that hold exactly some bytes.\<close>

definition artifact_size :: "jvalue \<Rightarrow> int" where
  "artifact_size rec = int_at (descriptor_of rec) ''size''"

definition holds_upload :: "provider \<Rightarrow> string \<Rightarrow> string \<Rightarrow> int \<Rightarrow> string \<Rightarrow> bool" where
  "holds_upload p i digest size1 bytes \<longleftrightarrow>
     (\<exists>n rec. artifact_record p i = Inr (Some (n, rec)) \<and> member_str rec ''state'' = Some ''staged'' \<and>
        artifact_digest rec = digest \<and> artifact_size rec = size1 \<and> int_at rec ''received'' = int (length bytes)) \<and>
     laid 0 (chunk_rows (pv_store p) i) (int (length bytes)) \<and> concat (map snd (chunk_rows (pv_store p) i)) = bytes"

lemma int_at_sorted: "in_domain v \<Longrightarrow> int_at (sorted_members v) n = int_at v n"
proof -
  assume v: "in_domain v"
  show ?thesis
  proof (cases "get v n")
    case (Some w)
    then show ?thesis by (cases w) (simp_all add: int_at_def get_sorted_members v)
  qed (simp add: int_at_def get_sorted_members v)
qed

lemma artifact_size_sorted: "in_domain rec \<Longrightarrow> artifact_size (sorted_members rec) = artifact_size rec"
  using in_domain_get [of rec "''descriptor''"]
  by (cases "get rec ''descriptor''") (simp_all add: artifact_size_def descriptor_of_def get_sorted_members int_at_sorted or_else_def)

lemma holds_uploadI:
  assumes "artifact_record p i = Inr (Some (n, sorted_members rec))" "storable rec" "member_str rec ''state'' = Some ''staged''"
    "int_at rec ''received'' = int (length bytes)"
    "laid 0 (chunk_rows (pv_store p) i) (int (length bytes))" "concat (map snd (chunk_rows (pv_store p) i)) = bytes"
  shows "holds_upload p i (artifact_digest rec) (artifact_size rec) bytes"
proof -
  have dom: "in_domain rec" using assms(2) by (simp add: storable_def)
  then show ?thesis
    using assms artifact_digest_sorted [OF dom] artifact_size_sorted [OF dom] member_sorted [OF dom] int_at_sorted [OF dom]
    unfolding holds_upload_def by auto
qed

lemma prepared_holds:
  assumes "key_of (c_subject command) = artifact_key i" "parse_descriptor (c_payload command) (principal_of p) = Inr d"
    and "let_through sha clk params command (Publish i (get d ''work'')) p"
    and "evidence_prepare sha clk params command p = (Inr result, p1)" "chunk_rows (pv_store p) i = []"
    and "payload_fits command" "clock_ok clk" "text_ok (principal_of p)"
  shows "holds_upload p1 i (or_else (member_str d ''digest'') []) (int_at d ''size'') []"
proof -
  have i: "sk_id (key_of (c_subject command)) = i" using assms(1) by (simp add: artifact_key_def)
  have "in_domain d" "nesting d \<le> 126"
    using parse_descriptor_storable [OF assms(2)] assms(6,8) by (simp_all add: payload_fits_def)
  then have st: "storable (staged_record d (clk 1))" using assms(7) by (intro staged_record_storable) (simp_all add: clock_ok_def)
  have one: "one_precondition command ARTIFACT" using assms(4) by (auto simp: evidence_prepare_def artifact_command_def split: if_splits)
  have c: "commit_for clk command (staged_record d (clk 1))
      [new_event ''evidence.artifact.staged'' (Object [(''descriptor'', d)]) (c_caused_by command)]
      No_Chunks [] (prepare_outcome i (provider_chunk_limit p)) p = (Inr result, p1)"
    using assms(2,4) one admitted_through [OF assms(3)] i by (simp add: evidence_prepare_def artifact_command_def Let_def)
  obtain n where n: "artifact_record p1 i = Inr (Some (n, sorted_members (staged_record d (clk 1))))"
    using recorded_after [OF c assms(1) st] by blast
  have rows: "chunk_rows (pv_store p1) i = []" using commit_for_chunks [OF c] assms(5) by (simp add: chunk_rows_def)
  have "member_str (staged_record d (clk 1)) ''state'' = Some ''staged''" "int_at (staged_record d (clk 1)) ''received'' = 0"
    "artifact_digest (staged_record d (clk 1)) = or_else (member_str d ''digest'') []" "artifact_size (staged_record d (clk 1)) = int_at d ''size''"
    by (simp_all add: staged_record_def member_str_def int_at_def artifact_digest_def artifact_size_def descriptor_of_def or_else_def)
  then show ?thesis using holds_uploadI [OF n st, of "[]"] rows by simp
qed

text \<open>An append that answers extends what is staged; its bytes may not be none.\<close>

definition appends :: "hasher \<Rightarrow> (nat \<Rightarrow> string) \<Rightarrow> jvalue \<Rightarrow> command \<Rightarrow> string \<Rightarrow> provider \<Rightarrow> string \<Rightarrow> provider \<Rightarrow> bool" where
  "appends sha clk params command i p bytes p1 \<longleftrightarrow>
     key_of (c_subject command) = artifact_key i \<and>
     (\<exists>start result existing. chunk_of p (c_payload command) = Inr (start, bytes) \<and>
        artifact_record p i = Inr existing \<and>
        let_through sha clk params command (Publish i (recorded_work existing)) p \<and>
        evidence_append sha clk params command p = (Inr result, p1))"

lemma appendsE:
  assumes "appends sha clk params command i p bytes p1"
  obtains n rec start result ev where "artifact_record p i = Inr (Some (n, rec))" "member_str rec ''state'' = Some ''staged''"
    "start = int_at rec ''received''" "key_of (c_subject command) = artifact_key i"
    "start + int (length bytes) \<le> (case get rec ''descriptor'' of None \<Rightarrow> 0 | Some d \<Rightarrow> int_at d ''size'')"
    "commit_for clk command (set_member ''received'' (Integer (start + int (length bytes))) rec) ev
       (Append_Chunk i start bytes) []
       (Object [(''artifact'', subject_ref ARTIFACT i), (''received'', Integer (start + int (length bytes)))]) p = (Inr result, p1)"
proof -
  obtain start result existing where a: "key_of (c_subject command) = artifact_key i"
    "chunk_of p (c_payload command) = Inr (start, bytes)" "artifact_record p i = Inr existing"
    "let_through sha clk params command (Publish i (recorded_work existing)) p"
    "evidence_append sha clk params command p = (Inr result, p1)"
    using assms by (auto simp: appends_def)
  have i: "sk_id (key_of (c_subject command)) = i" using a(1) by (simp add: artifact_key_def)
  have one: "one_precondition command ARTIFACT" using a(5) by (auto simp: evidence_append_def artifact_command_def split: if_splits)
  have u: "(case existing of None \<Rightarrow> (Inl not_found, p) | Some (n, rec) \<Rightarrow> append_bytes clk command start bytes rec p) = (Inr result, p1)"
    using a(2,3,5) one i admitted_through [OF a(4)]
    by (simp add: evidence_append_def artifact_command_def upload_def Let_def split: option.splits)
  then obtain n rec where rec: "existing = Some (n, rec)" "append_bytes clk command start bytes rec p = (Inr result, p1)"
    by (auto split: option.splits)
  show thesis
    using rec(2) a(1,3) i unfolding rec(1) append_bytes_def Let_def
    by (intro that [of n rec start "[new_event ''evidence.artifact.appended''
          (Object [(''received'', Integer (start + int (length bytes)))]) (c_caused_by command)]" result])
      (auto split: if_splits)
qed

lemma artifact_record_storable: "artifact_record p i = Inr (Some (n, rec)) \<Longrightarrow> storable rec"
  by (erule artifact_recordE)

lemma appended_record:
  assumes "appends sha clk params command i p bytes p1" "artifact_record p i = Inr (Some (n, rec))"
  shows "\<exists>m. artifact_record p1 i =
    Inr (Some (m, sorted_members (set_member ''received'' (Integer (int_at rec ''received'' + int (length bytes))) rec)))"
    "(i, int_at rec ''received'') \<notin> fst ` set (tb_chunks (pv_store p))"
    "tb_chunks (pv_store p1) = tb_chunks (pv_store p) @ [((i, int_at rec ''received''), bytes)]"
    "member_str rec ''state'' = Some ''staged''"
    "storable (set_member ''received'' (Integer (int_at rec ''received'' + int (length bytes))) rec)"
proof -
  from assms(1) obtain n1 rec1 start result ev where a: "artifact_record p i = Inr (Some (n1, rec1))" "member_str rec1 ''state'' = Some ''staged''"
    "start = int_at rec1 ''received''" "key_of (c_subject command) = artifact_key i"
    "start + int (length bytes) \<le> (case get rec1 ''descriptor'' of None \<Rightarrow> 0 | Some d \<Rightarrow> int_at d ''size'')"
    "commit_for clk command (set_member ''received'' (Integer (start + int (length bytes))) rec1) ev
       (Append_Chunk i start bytes) []
       (Object [(''artifact'', subject_ref ARTIFACT i), (''received'', Integer (start + int (length bytes)))]) p = (Inr result, p1)"
    by (rule appendsE)
  have same: "rec1 = rec" using a(1) assms(2) by simp
  have "storable rec" by (rule artifact_record_storable [OF assms(2)])
  then show st: "storable (set_member ''received'' (Integer (int_at rec ''received'' + int (length bytes))) rec)"
    using received_storable a(3,5) same by simp
  show "\<exists>m. artifact_record p1 i =
    Inr (Some (m, sorted_members (set_member ''received'' (Integer (int_at rec ''received'' + int (length bytes))) rec)))"
    using recorded_after [OF a(6,4)] st a(3) same by simp
  show "(i, int_at rec ''received'') \<notin> fst ` set (tb_chunks (pv_store p))"
    "tb_chunks (pv_store p1) = tb_chunks (pv_store p) @ [((i, int_at rec ''received''), bytes)]"
    using commit_for_chunks [OF a(6)] a(3) same by simp_all
  show "member_str rec ''state'' = Some ''staged''" using a(2) same by simp
qed

lemma appended_holds:
  assumes "holds_upload p i digest size1 bytes" "appends sha clk params command i p added p1" "added \<noteq> []"
  shows "holds_upload p1 i digest size1 (bytes @ added)"
proof -
  obtain n rec where rec: "artifact_record p i = Inr (Some (n, rec))" "member_str rec ''state'' = Some ''staged''"
    "artifact_digest rec = digest" "artifact_size rec = size1" "int_at rec ''received'' = int (length bytes)"
    and rows: "laid 0 (chunk_rows (pv_store p) i) (int (length bytes))" "concat (map snd (chunk_rows (pv_store p) i)) = bytes"
    using assms(1) by (auto simp: holds_upload_def)
  let ?new = "set_member ''received'' (Integer (int (length (bytes @ added)))) rec"
  note app = appended_record [OF assms(2) rec(1)]
  have obj: "is_object rec" using rec(2) by (rule member_str_object)
  obtain m where m: "artifact_record p1 i = Inr (Some (m, sorted_members ?new))" using app(1) rec(5) by auto
  have st: "storable ?new" using app(5) rec(5) by simp
  have rows1: "chunk_rows (pv_store p1) i = chunk_rows (pv_store p) i @ [(int (length bytes), added)]"
    using app(3) rec(5) by (simp add: chunk_rows_def)
  have "artifact_digest ?new = digest" "artifact_size ?new = size1"
    using rec(3,4) obj by (simp_all add: artifact_digest_def artifact_size_def descriptor_of_def get_set_member)
  moreover have "holds_upload p1 i (artifact_digest ?new) (artifact_size ?new) (bytes @ added)"
    by (rule holds_uploadI [OF m st])
      (use rec(2) obj rows assms(3) in \<open>simp_all add: rows1 laid_snoc member_str_edit int_at_def get_set_member\<close>)
  ultimately show ?thesis by simp
qed

subsection \<open>Sealing\<close>

definition seals :: "hasher \<Rightarrow> (nat \<Rightarrow> string) \<Rightarrow> jvalue \<Rightarrow> command \<Rightarrow> string \<Rightarrow> provider \<Rightarrow> provider \<Rightarrow> bool" where
  "seals sha clk params command i p p1 \<longleftrightarrow>
     key_of (c_subject command) = artifact_key i \<and>
     (\<exists>result existing. artifact_record p i = Inr existing \<and>
        let_through sha clk params command (Publish i (recorded_work existing)) p \<and>
        evidence_seal sha clk params command p = (Inr result, p1))"

lemma seals_staged:
  assumes "seals sha clk params command i p p1" "artifact_record p i = Inr (Some (n, rec))" "member_str rec ''state'' = Some ''staged''"
  shows "\<exists>result. seal_staged sha clk command rec p = (Inr result, p1)" "key_of (c_subject command) = artifact_key i"
proof -
  obtain result existing where a: "key_of (c_subject command) = artifact_key i" "artifact_record p i = Inr existing"
    "let_through sha clk params command (Publish i (recorded_work existing)) p"
    "evidence_seal sha clk params command p = (Inr result, p1)"
    using assms(1) by (auto simp: seals_def)
  have i: "sk_id (key_of (c_subject command)) = i" using a(1) by (simp add: artifact_key_def)
  have existing: "existing = Some (n, rec)" using a(2) assms(2) by simp
  have one: "one_precondition command ARTIFACT" using a(4) by (auto simp: evidence_seal_def artifact_command_def split: if_splits)
  show "\<exists>result. seal_staged sha clk command rec p = (Inr result, p1)"
    using a(2,4) one i admitted_through [OF a(3)] assms(3) existing
    by (simp add: evidence_seal_def artifact_command_def upload_def Let_def)
  show "key_of (c_subject command) = artifact_key i" by (rule a(1))
qed

lemma sealed_contents:
  assumes "sha_ok sha" "holds_upload p i digest size1 bytes" "seals sha clk params command i p p1"
    and "i \<notin> set (es_corrupt (cf_evidence_store (pv_config p)))" "rooted sha p"
  shows "digest = digest_bytes sha bytes" "size1 = int (length bytes)"
    "\<exists>n rec. artifact_record p1 i = Inr (Some (n, rec)) \<and> member_str rec ''state'' = Some ''sealed'' \<and> artifact_digest rec = digest"
    "intact sha (pv_objects p1) digest" "read_object digest (pv_objects p) = None \<Longrightarrow> read_object digest (pv_objects p1) = Some bytes"
    "staged_bytes (pv_store p1) i = []"
proof -
  obtain n rec where rec: "artifact_record p i = Inr (Some (n, rec))" "member_str rec ''state'' = Some ''staged''"
    "artifact_digest rec = digest" "artifact_size rec = size1" "int_at rec ''received'' = int (length bytes)"
    and rows: "laid 0 (chunk_rows (pv_store p) i) (int (length bytes))" "concat (map snd (chunk_rows (pv_store p) i)) = bytes"
    using assms(2) by (auto simp: holds_upload_def)
  obtain result where s: "seal_staged sha clk command rec p = (Inr result, p1)" and key: "key_of (c_subject command) = artifact_key i"
    using seals_staged [OF assms(3) rec(1,2)] by blast
  have i: "sk_id (key_of (c_subject command)) = i" using key by (simp add: artifact_key_def)
  have staged: "staged_bytes (pv_store p) i = bytes" using staged_laid [OF rows(1)] rows(2) by simp
  obtain children where c: "seal_check sha p rec bytes = Inr children"
    using s staged i by (auto simp: seal_staged_def Let_def split: sum.splits)
  have cs: "\<forall>x \<in> set cs. child_ok x" if "children = Some cs" for cs
    using c that parse_manifest_ok [of bytes] by (auto simp: seal_check_def Let_def split: if_splits option.splits)
  show digest: "digest = digest_bytes sha bytes"
    using c rec(3) by (simp add: seal_check_def Let_def split: if_splits)
  show "size1 = int (length bytes)"
    using c rec(4,5) by (simp add: seal_check_def Let_def artifact_size_def split: if_splits)
  obtain obs where o: "publish_object sha digest bytes (pv_objects p) = Inr obs"
    using s staged i c rec(3) by (auto simp: seal_staged_def Let_def split: sum.splits)
  obtain ev out r q where cm: "commit_for clk command (sealed_record rec children) ev (Discard_Chunks i) [] out (p\<lparr>pv_objects := obs\<rparr>) = (Inr r, q)"
    and p1: "p1 = q"
    using s staged i c rec(3) o assms(4)
    by (auto simp: seal_staged_def Let_def dest: commit_for_configD split: prod.splits sum.splits if_splits)
  have objects: "pv_objects p1 = obs" using commit_for_value(1) [OF cm] p1 by simp
  show it: "intact sha (pv_objects p1) digest" using published_intact(1) [OF assms(1) o] objects by simp
  show "read_object digest (pv_objects p) = None \<Longrightarrow> read_object digest (pv_objects p1) = Some bytes"
    using published_reads_back(2) [OF assms(1) o] objects by simp
  have "tb_chunks (pv_store p1) = filter (\<lambda>row. fst (fst row) \<noteq> i) (tb_chunks (pv_store p))"
    using commit_for_chunks [OF cm] p1 by simp
  then have "filter (\<lambda>row. fst (fst row) = i) (tb_chunks (pv_store p1)) = []" by simp
  then show "staged_bytes (pv_store p1) i = []" unfolding staged_bytes_def by simp
  have ok: "record_ok sha (pv_objects p) rec" "storable rec" using rooted_record [OF assms(5) rec(1)] by blast+
  have st: "storable (sealed_record rec children)" using sealed_record_ok [OF ok rec(2) cs it [folded rec(3)]] rec(3) by blast
  have obj: "is_object rec" using rec(2) by (rule member_str_object)
  have "member_str (sealed_record rec children) ''state'' = Some ''sealed''" "artifact_digest (sealed_record rec children) = digest"
    using obj rec(3) by (simp_all add: sealed_record_def Let_def member_str_edit artifact_digest_def descriptor_of_def get_set_member
      get_remove_member split: option.split)
  moreover have dom: "in_domain (sealed_record rec children)" using st by (simp add: storable_def)
  ultimately show "\<exists>n rec. artifact_record p1 i = Inr (Some (n, rec)) \<and> member_str rec ''state'' = Some ''sealed'' \<and> artifact_digest rec = digest"
    using recorded_after [OF cm key st] p1 member_sorted [OF dom] artifact_digest_sorted [OF dom] by metis
qed

subsection \<open>Two commands that break an upload\<close>

text \<open>
  An append of no bytes takes the offset the next chunk needs, and every later append at it fails: the
  upload cannot be completed.
\<close>

lemma taken_offset:
  assumes "(i, int_at rec ''received'') \<in> fst ` set (tb_chunks (pv_store p))" "artifact_record p i = Inr (Some (n, rec))"
  shows "\<not> appends sha clk params command i p bytes p1"
  using appended_record(2) assms by blast

lemma emptied:
  assumes "appends sha clk params command i p [] p1"
  shows "\<exists>n rec. artifact_record p1 i = Inr (Some (n, rec)) \<and> (i, int_at rec ''received'') \<in> fst ` set (tb_chunks (pv_store p1))"
proof -
  obtain n rec where rec: "artifact_record p i = Inr (Some (n, rec))" using assms by (rule appendsE)
  note app = appended_record [OF assms rec]
  let ?new = "set_member ''received'' (Integer (int_at rec ''received'' + int (length ([] :: string)))) rec"
  obtain m where m: "artifact_record p1 i = Inr (Some (m, sorted_members ?new))" using app(1) by blast
  have "in_domain ?new" "is_object rec" using app(5) member_str_object [OF app(4)] by (simp_all add: storable_def)
  then have "int_at (sorted_members ?new) ''received'' = int_at rec ''received''"
    by (simp only: int_at_sorted) (simp add: int_at_def get_set_member)
  then show ?thesis using m app(3) by auto
qed

text \<open>A second preparation at the current revision stages an artifact again, whatever its state was.\<close>

lemma prepared_again:
  assumes "key_of (c_subject command) = artifact_key i" "parse_descriptor (c_payload command) (principal_of p) = Inr d"
    and "let_through sha clk params command (Publish i (get d ''work'')) p" "one_precondition command ARTIFACT"
    and "evidence_prepare sha clk params command p = (Inr result, p1)"
    and "payload_fits command" "clock_ok clk" "text_ok (principal_of p)"
  shows "\<exists>n rec. artifact_record p1 i = Inr (Some (n, rec)) \<and> member_str rec ''state'' = Some ''staged''"
    "\<And>h. value_at (pv_store p1) (hold_key h) = value_at (pv_store p) (hold_key h)"
proof -
  have i: "sk_id (key_of (c_subject command)) = i" using assms(1) by (simp add: artifact_key_def)
  have "in_domain d" "nesting d \<le> 126"
    using parse_descriptor_storable [OF assms(2)] assms(6,8) by (simp_all add: payload_fits_def)
  then have st: "storable (staged_record d (clk 1))" using assms(7) by (intro staged_record_storable) (simp_all add: clock_ok_def)
  have c: "commit_for clk command (staged_record d (clk 1))
      [new_event ''evidence.artifact.staged'' (Object [(''descriptor'', d)]) (c_caused_by command)]
      No_Chunks [] (prepare_outcome i (provider_chunk_limit p)) p = (Inr result, p1)"
    using assms(2,4,5) admitted_through [OF assms(3)] i by (simp add: evidence_prepare_def artifact_command_def Let_def)
  have dom: "in_domain (staged_record d (clk 1))" using st by (simp add: storable_def)
  have "member_str (sorted_members (staged_record d (clk 1))) ''state'' = Some ''staged''"
    unfolding member_sorted [OF dom] by (simp add: staged_record_def member_str_def)
  then show "\<exists>n rec. artifact_record p1 i = Inr (Some (n, rec)) \<and> member_str rec ''state'' = Some ''staged''"
    using recorded_after [OF c assms(1) st] by blast
  show "value_at (pv_store p1) (hold_key h) = value_at (pv_store p) (hold_key h)" for h
    using commit_for_value(3) [OF c refl] assms(1) by simp
qed

subsection \<open>An example\<close>

definition example_content :: string where
  "example_content = ''sha256:'' @ replicate 64 (CHR ''0'')"

definition example_sealed :: jvalue where
  "example_sealed = Object [(''descriptor'', Object [(''digest'', String example_content), (''size'', Integer 1)]), (''state'', String ''sealed'')]"

definition example_staged :: jvalue where
  "example_staged = Object [(''descriptor'', Object [(''digest'', String example_content), (''size'', Integer 1)]),
     (''state'', String ''staged''), (''received'', Integer 1)]"

definition example_artifact :: "jvalue \<Rightarrow> tables" where
  "example_artifact rec = empty_tables\<lparr>tb_subjects := [(artifact_key ''a'', \<lparr>su_revision = 1, su_value = to_canonical rec, su_applied = 1\<rparr>)],
     tb_chunks := (if rec = example_staged then [((''a'', 0), ''x'')] else [])\<rparr>"

definition example_on_artifact :: "string \<Rightarrow> jvalue \<Rightarrow> command" where
  "example_on_artifact operation payload = (example_sent operation (example_reference ARTIFACT ''a'') 1)\<lparr>c_payload := payload\<rparr>"

lemma example_key: "key_of (c_subject (example_on_artifact operation payload)) = artifact_key ''a''"
  by (simp add: example_on_artifact_def example_sent_def example_reference_def key_of_def member_str_def artifact_key_def or_else_def)

lemma example_one: "one_precondition (example_on_artifact operation payload) ARTIFACT"
  using example_key [of operation payload]
  by (simp add: one_precondition_def artifact_key_def) (simp add: example_on_artifact_def example_sent_def)

lemma commit_for_answers:
  assumes "tb_events (pv_store p) = []" "tb_commands (pv_store p) = []"
    "case chunks of Append_Chunk i start bytes \<Rightarrow> (i, start) \<notin> fst ` set (tb_chunks (pv_store p)) | _ \<Rightarrow> True"
  shows "\<exists>x t. commit_for clk command rec [e] chunks [] out p = (Inr x, p\<lparr>pv_store := t\<rparr>)"
proof -
  obtain n t1 where r: "raise_subject (key_of (c_subject command)) (to_canonical rec) (pv_store p) = (n, t1)" by fastforce
  then have t1: "tb_events t1 = []" "tb_commands t1 = []" "tb_chunks t1 = tb_chunks (pv_store p)"
    using assms by (auto simp: raise_subject_def put_subject_def Let_def split: option.splits)
  obtain x t where "commit_command ((base_commit p (clk 2) command (key_of (c_subject command)) (to_canonical rec) (Some e))
        \<lparr>cm_more_events := [], cm_chunks := chunks, cm_also := []\<rparr>)
       (\<lambda>revision operation_ref. accepted_for command revision operation_ref out) (pv_store p) = Inr (x, t)"
    using r t1 assms(3) by (cases chunks) (auto simp: commit_command_def base_commit_def Let_def append_event_def insert_event_def set_meta_def
      insert_claim_revision_def insert_command_def find_command_def)
  then show ?thesis by (auto simp: commit_for_def committed_def)
qed

lemma example_texts [simp]: "text_ok ''a''" "text_ok ''digest''" "text_ok ''size''" "text_ok example_content" "clock_ok (\<lambda>_. ''now'')" "text_ok ''o''"
  by (simp_all add: text_ok_literal clock_ok_def example_content_def list_all_iff)

lemma example_storable: "storable example_sealed" "storable example_staged"
  by (simp_all add: storable_def example_sealed_def example_staged_def staged_texts MAX_SAFE_INTEGER_def nesting.simps)

text \<open>A session that negotiated the retention control, over a store that deletes with a delay.\<close>

definition artifact_config :: config where
  "artifact_config =
     (let c = default_config\<lparr>cf_mode := Conformance, cf_principal := ''o'', cf_authority_principals := [''o'']\<rparr>
      in c\<lparr>cf_evidence_store := (cf_evidence_store c)\<lparr>es_deletion_delay_seconds := Some 5\<rparr>\<rparr>)"

definition artifact_state :: "jvalue \<Rightarrow> provider" where
  "artifact_state rec = (example_session artifact_config (example_artifact rec))
     \<lparr>pv_objects := \<lparr>ob_files = [(replicate 64 (CHR ''0''), ''x'')], ob_staging = []\<rparr>,
      pv_negotiated := Some [(''evidence'', 1, [''evidence.retention_control''])]\<rparr>"

lemma example_sha_ok: "sha_ok example_sha"
  by (simp add: sha_ok_def example_sha_def)

lemma example_digest_bytes: "digest_bytes example_sha bs = example_content"
proof -
  have zero: "hex_digit 0 = CHR ''0''" by code_simp
  have "concat (map hex_byte (replicate n (CHR 0x00))) = replicate (2 * n) (CHR ''0'')" for n
    by (induction n) (simp_all add: hex_byte_def zero)
  from this [of 32] show ?thesis by (simp add: digest_bytes_def sha256_hex_def example_sha_def example_content_def)
qed

lemma artifact_state_fields [simp]:
  "pv_store (artifact_state rec) = example_artifact rec" "principal_of (artifact_state rec) = ''o''"
  "es_corrupt (cf_evidence_store (pv_config (artifact_state rec))) = []"
  by (simp_all add: artifact_state_def principal_of_def artifact_config_def example_session_def default_config_def Let_def)

lemma example_object: "read_object example_content (pv_objects (artifact_state rec)) = Some ''x''"
proof -
  have "object_path (digest_bytes example_sha []) = Some (sha256_hex example_sha [])" by (rule digest_path(2) [OF example_sha_ok])
  moreover have "sha256_hex example_sha [] = replicate 64 (CHR ''0'')"
    using example_digest_bytes [of "[]"] by (simp add: digest_bytes_def example_content_def)
  ultimately show ?thesis by (simp add: read_object_def example_digest_bytes artifact_state_def)
qed

lemma artifact_state_read: "storable rec \<Longrightarrow> artifact_record (artifact_state rec) ''a'' = Inr (Some (1, sorted_members rec))"
  using storable_reads [of rec] by (simp add: artifact_record_def record_at_def subject_def example_artifact_def)

lemma example_rooted:
  assumes "rec = example_sealed \<or> rec = example_staged"
  shows "rooted example_sha (artifact_state rec)"
  unfolding rooted_def
proof (intro allI impI)
  fix i v r
  assume v: "value_at (pv_store (artifact_state rec)) (artifact_key i) = Some v" "stored_value v = Some r"
  have st: "storable rec" using assms example_storable by blast
  have "v = to_canonical rec" using v(1) by (auto simp: value_at_def subject_def example_artifact_def split: if_splits)
  then have r: "r = sorted_members rec" using v(2) storable_reads [OF st] by simp
  have "intact example_sha (pv_objects (artifact_state rec)) example_content"
    unfolding intact_iff using example_object example_digest_bytes by blast
  then have "record_ok example_sha (pv_objects (artifact_state rec)) rec"
    using assms by (auto simp: record_ok_def object_root_def example_sealed_def example_staged_def member_str_def)
  then show "record_ok example_sha (pv_objects (artifact_state rec)) r" using r st by (simp add: record_ok_sorted storable_def)
qed

lemma artifact_state_let_through:
  assumes "operation \<noteq> ''core-test.subject.put''" "\<And>now. \<exists>g. authorization (artifact_state rec) now (example_on_artifact operation payload) st = Inr g"
  shows "let_through example_sha clk (example_command []) (example_on_artifact operation payload) st (artifact_state rec)"
proof -
  have "check_digest example_sha (example_command []) (example_on_artifact operation payload) = Inr ()"
    using example_digest_checked [of operation "example_reference ARTIFACT ''a''" 1]
    by (simp add: check_digest_Inr example_on_artifact_def example_sent_def)
  then show ?thesis
    using example_key [of operation payload] assms
    by (simp add: let_through_def admit_command_None deduplicate_None check_capability_Inr check_epoch_exact check_preconditions_exact)
      (simp add: example_on_artifact_def example_sent_def example_session_def find_command_def empty_tables_def artifact_state_def
        principal_of_def revision_of_def subject_def example_artifact_def)
qed

lemma artifact_authority: "authority_only (artifact_state rec) = Inr None"
  by (simp add: authority_only_def is_authority_def artifact_state_def artifact_config_def example_session_def principal_of_def Let_def)

lemma artifact_published:
  "operation \<noteq> ''core-test.subject.put'' \<Longrightarrow>
   let_through example_sha clk (example_command []) (example_on_artifact operation payload) (Publish ''a'' w) (artifact_state rec)"
  by (rule artifact_state_let_through)
    (simp_all add: authorize_publish_def authorize_def artifact_authority example_on_artifact_def example_sent_def)

lemma artifact_answers:
  assumes "case chunks of Append_Chunk i start bytes \<Rightarrow> (i, start) \<notin> fst ` set (tb_chunks (example_artifact rec1)) | _ \<Rightarrow> True"
  shows "\<exists>x t. commit_for clk command rec [e] chunks [] out ((artifact_state rec1)\<lparr>pv_objects := obs\<rparr>) =
     (Inr x, (artifact_state rec1)\<lparr>pv_objects := obs, pv_store := t\<rparr>)"
proof (rule commit_for_answers)
  show "tb_events (pv_store ((artifact_state rec1)\<lparr>pv_objects := obs\<rparr>)) = []" "tb_commands (pv_store ((artifact_state rec1)\<lparr>pv_objects := obs\<rparr>)) = []"
    by (simp_all add: example_artifact_def empty_tables_def)
qed (use assms in \<open>simp split: chunks.splits\<close>)

lemma artifact_answers_same:
  assumes "case chunks of Append_Chunk i start bytes \<Rightarrow> (i, start) \<notin> fst ` set (tb_chunks (example_artifact rec1)) | _ \<Rightarrow> True"
  shows "\<exists>x t. commit_for clk command rec [e] chunks [] out (artifact_state rec1) = (Inr x, (artifact_state rec1)\<lparr>pv_store := t\<rparr>)"
  using artifact_answers [OF assms, where obs = "pv_objects (artifact_state rec1)"] by simp

lemma example_payload_by: "\<exists>d. parse_descriptor example_payload who = Inr d"
proof -
  have "check_producer example_payload who = Inr ()" by (simp add: check_producer_Inr example_payload_def present_Some)
  then show ?thesis using example_payload_accepted by (auto simp: parse_descriptor_def rbind_Inr_iff)
qed

lemma example_payload_storable: "in_domain example_payload" "nesting example_payload \<le> 126"
proof -
  have "text_ok example_digest" using example_texts by (simp add: example_content_def example_digest_def)
  then show "in_domain example_payload" by (simp add: example_payload_def text_ok_literal MAX_SAFE_INTEGER_def)
  show "nesting example_payload \<le> 126" by (simp add: example_payload_def nesting.simps)
qed

definition example_started :: jvalue where
  "example_started = Object [(''descriptor'', Object [(''digest'', String example_content), (''size'', Integer 1)]),
     (''state'', String ''staged''), (''received'', Integer 0)]"

definition example_appending :: command where
  "example_appending = example_on_artifact ''evidence.upload.append'' (Object [(''offset'', Integer 0), (''data_base64'', String [])])"

lemma example_appends: "\<exists>p1. appends example_sha (\<lambda>_. ''now'') (example_command []) example_appending ''a'' (artifact_state example_started) [] p1"
proof -
  let ?p = "artifact_state example_started" and ?c = example_appending and ?rec = "sorted_members example_started"
  have st: "storable example_started"
    by (simp add: storable_def example_started_def staged_texts MAX_SAFE_INTEGER_def nesting.simps)
  then have dom: "in_domain example_started" by (simp add: storable_def)
  have read: "artifact_record ?p ''a'' = Inr (Some (1, ?rec))" by (rule artifact_state_read [OF st])
  have rec: "member_str ?rec ''state'' = Some ''staged''" "int_at ?rec ''received'' = 0" "artifact_size ?rec = 1"
    unfolding member_sorted [OF dom] int_at_sorted [OF dom] artifact_size_sorted [OF dom]
    by (simp_all add: example_started_def member_str_def int_at_def artifact_size_def descriptor_of_def or_else_def)
  then obtain d where d: "get ?rec ''descriptor'' = Some d" "int_at d ''size'' = 1"
    by (cases "get ?rec ''descriptor''") (auto simp: artifact_size_def descriptor_of_def or_else_def int_at_def)
  have limit: "0 \<le> provider_chunk_limit ?p" by (simp add: provider_chunk_limit_def chunk_limit_def Let_def)
  have chunk: "chunk_of ?p (c_payload ?c) = Inr (0, [])"
    using limit by (simp add: chunk_of_def example_appending_def example_on_artifact_def member_str_def decode_base64_def)
  have empty: "tb_chunks (example_artifact example_started) = []"
    by (simp add: example_artifact_def example_started_def example_staged_def empty_tables_def)
  have key: "sk_id (key_of (c_subject ?c)) = ''a''" by (simp add: example_appending_def example_key artifact_key_def)
  obtain x t where c: "commit_for (\<lambda>_. ''now'') ?c (set_member ''received'' (Integer 0) ?rec)
      [new_event ''evidence.artifact.appended'' (Object [(''received'', Integer 0)]) (c_caused_by ?c)]
      (Append_Chunk ''a'' 0 []) [] (Object [(''artifact'', subject_ref ARTIFACT ''a''), (''received'', Integer 0)]) ?p = (Inr x, ?p\<lparr>pv_store := t\<rparr>)"
    using artifact_answers_same [where chunks = "Append_Chunk ''a'' 0 []" and ?rec1.0 = example_started] empty by (simp only: chunks.case) fastforce
  have "append_bytes (\<lambda>_. ''now'') ?c 0 [] ?rec ?p = (Inr x, ?p\<lparr>pv_store := t\<rparr>)"
    using c rec d key by (simp add: append_bytes_def Let_def)
  moreover have through: "let_through example_sha (\<lambda>_. ''now'') (example_command []) ?c (Publish ''a'' w) ?p" for w
    unfolding example_appending_def by (rule artifact_published) simp
  ultimately have "evidence_append example_sha (\<lambda>_. ''now'') (example_command []) ?c ?p = (Inr x, ?p\<lparr>pv_store := t\<rparr>)"
    using chunk read key admitted_through [OF through] example_one
    by (simp add: evidence_append_def artifact_command_def upload_def Let_def example_appending_def)
  then show ?thesis
    using chunk read through example_key by (auto simp: appends_def example_appending_def)
qed

subsection \<open>Properties\<close>









end
