(* ===== verification/Evidence_Holds.thy ===== *)
theory Evidence_Holds
  imports Evidence_Uploads
begin

text \<open>
  What holds keep: a purge that is accepted leaves no active hold on its artifact, those it names are
  released with it and any other refuses it. And what a query's pages show.
\<close>

subsection \<open>Active holds\<close>

definition active_hold :: "provider \<Rightarrow> string \<Rightarrow> string \<Rightarrow> bool" where
  "active_hold p i h \<longleftrightarrow>
     (\<exists>n rec. hold_record p h = Inr (Some (n, rec)) \<and> member_str rec ''artifact'' = Some i \<and> is_active rec)"

lemma hold_record_value:
  "hold_record p h = Inr (Some (n, rec)) \<Longrightarrow> \<exists>v. value_at (pv_store p) (hold_key h) = Some v \<and> stored_value v = Some rec"
  by (auto simp: hold_record_def record_at_def value_at_def rbind_Inr_iff result_simps split: option.splits)

lemma holds_among_in:
  "holds_among p i hs = Inr holds \<Longrightarrow>
   (h, n, rec) \<in> set holds \<longleftrightarrow> h \<in> set hs \<and> hold_record p h = Inr (Some (n, rec)) \<and> member_str rec ''artifact'' = Some i"
proof (induction p i hs arbitrary: holds rule: holds_among.induct)
  case (2 p i k ks)
  then obtain r rest where r: "hold_record p k = Inr r" "holds_among p i ks = Inr rest"
    "holds = (case r of None \<Rightarrow> rest | Some (revision, rec) \<Rightarrow>
       if member_str rec ''artifact'' = Some i then (k, revision, rec) # rest else rest)"
    by (auto simp: rbind_Inr_iff)
  show ?case using 2(1) [OF r(2)] r by (auto split: option.splits if_splits)
qed simp

lemma held_listed:
  assumes "hold_record p h = Inr (Some (n, rec))"
  shows "h \<in> set (map fst (subjects_of_kind (pv_store p) HOLD))"
proof -
  obtain v where "value_at (pv_store p) (hold_key h) = Some v" using hold_record_value [OF assms] by blast
  then obtain s where "(hold_key h, s) \<in> set (tb_subjects (pv_store p))"
    by (auto simp: value_at_def subject_def dest: map_of_SomeD)
  then show ?thesis by (force simp: subjects_of_kind_def hold_key_def image_iff)
qed

lemma holds_on_in:
  "holds_on p i = Inr holds \<Longrightarrow>
   (h, n, rec) \<in> set holds \<longleftrightarrow> hold_record p h = Inr (Some (n, rec)) \<and> member_str rec ''artifact'' = Some i"
  unfolding holds_on_def using holds_among_in held_listed by blast

lemma fold_hold_changes:
  assumes "\<And>h. cg_key (f h) = hold_key h"
  shows "fold (\<lambda>ch m. m(cg_key ch \<mapsto> cg_value ch)) (map f hs) m (hold_key h) = (if h \<in> set hs then Some (cg_value (f h)) else m (hold_key h))"
proof (induction hs arbitrary: m)
  case (Cons k ks)
  have "hold_key h = hold_key k \<longleftrightarrow> h = k" by (simp add: hold_key_def)
  then show ?case using Cons assms by simp
qed simp

text \<open>The purge of an artifact whose purge was not asked for before, from what is checked to what is committed.\<close>

definition purges :: "hasher \<Rightarrow> (nat \<Rightarrow> string) \<Rightarrow> jvalue \<Rightarrow> command \<Rightarrow> string \<Rightarrow> string list \<Rightarrow> provider \<Rightarrow> provider \<Rightarrow> bool" where
  "purges sha clk params command i releases p p1 \<longleftrightarrow>
     key_of (c_subject command) = artifact_key i \<and> purge_payload command = Inr releases \<and>
     (\<exists>result n rec. artifact_record p i = Inr (Some (n, rec)) \<and> get rec ''purge'' = None \<and>
        let_through sha clk params command (Purge i releases) p \<and>
        evidence_purge sha clk params command p = (Inr result, p1))"

lemma purgesE:
  assumes "purges sha clk params command i releases p p1"
  obtains n rec in_force holds result ev out where "key_of (c_subject command) = artifact_key i"
    "artifact_record p i = Inr (Some (n, rec))" "holds_on p i = Inr holds" "purge_check p in_force releases holds = Inr ()"
    "\<exists>p2. commit_for clk command (set_member ''purge'' (purge_value (clk 1) (deletion_delay p) releases) rec) ev No_Chunks
       (map (released_change command holds) releases) out p = (Inr result, p2) \<and> pv_store p1 = pv_store p2"
proof -
  obtain result n rec where a: "key_of (c_subject command) = artifact_key i" "purge_payload command = Inr releases"
    "artifact_record p i = Inr (Some (n, rec))" "get rec ''purge'' = None"
    "let_through sha clk params command (Purge i releases) p" "evidence_purge sha clk params command p = (Inr result, p1)"
    using assms by (auto simp: purges_def)
  have i: "sk_id (key_of (c_subject command)) = i" "sk_kind (key_of (c_subject command)) = ARTIFACT" using a(1) by (simp_all add: artifact_key_def)
  have s: "purge_sealed sha clk command releases n rec p = (Inr result, p1)"
    using a(6) admitted_through [OF a(5)] a(2,3) i
    by (auto simp: evidence_purge_def Let_def split: sum.splits if_splits)
  obtain in_force holds where h: "holds_on p i = Inr holds" "purge_check p in_force releases holds = Inr ()"
    "purge_now clk command releases holds rec p = (Inr result, p1)"
    using s a(4) i by (auto simp: purge_sealed_def Let_def split: sum.splits)
  obtain q p2 where c: "commit_for clk command (set_member ''purge'' (purge_value (clk 1) (deletion_delay p) releases) rec)
      (purge_events (clk 1) (deletion_delay p) (c_caused_by command)) No_Chunks (map (released_change command holds) releases)
      (purge_outcome i (String (if deletion_delay p \<le> 0 then ''purged'' else ''purge_pending'')) (map (subject_ref HOLD) releases)) p = (q, p2)"
    by fastforce
  have "q = Inr result \<and> pv_store p1 = pv_store p2"
    using h(3) c i by (auto simp: purge_now_def Let_def delete_if_unreferenced_def split: sum.splits prod.splits if_splits)
  then show thesis using that [OF a(1,3) h(1,2)] c by blast
qed

lemma purge_leaves_none:
  assumes "purges sha clk params command i releases p p1"
  shows "\<not> active_hold p1 i h"
proof
  assume act: "active_hold p1 i h"
  from assms obtain n rec in_force holds result ev out p2 where key: "key_of (c_subject command) = artifact_key i"
    and holds: "holds_on p i = Inr holds" and chk: "purge_check p in_force releases holds = Inr ()"
    and c: "commit_for clk command (set_member ''purge'' (purge_value (clk 1) (deletion_delay p) releases) rec) ev No_Chunks
       (map (released_change command holds) releases) out p = (Inr result, p2)" and p1: "pv_store p1 = pv_store p2"
    by (elim purgesE) blast
  have changed: "value_at (pv_store p1) (hold_key h) =
      (if h \<in> set releases then Some (cg_value (released_change command holds h)) else value_at (pv_store p) (hold_key h))"
    using commit_for_value(3) [OF c refl] fold_hold_changes [of "released_change command holds" releases] key p1
    by (simp add: released_change_def Let_def)
  show False
  proof (cases "h \<in> set releases")
    case True
    then have "list_ex (\<lambda>(k, _, rec). k = h \<and> is_active rec) holds"
      using chk by (auto simp: purge_check_def list_all_iff split: if_splits)
    then obtain k m r where f: "find (\<lambda>(k, _, _). k = h) holds = Some (k, m, r)"
      by (cases "find (\<lambda>(k, _, _). k = h) holds") (auto simp: find_None_iff list_ex_iff)
    then have r: "k = h" "(h, m, r) \<in> set holds" using find_SomeD [OF f] by auto
    then have rec: "hold_record p h = Inr (Some (m, r))" using holds_on_in [OF holds] by blast
    have st: "storable r" using hold_record_value [OF rec] stored_storable by blast
    let ?new = "set_member ''state'' (String ''released'') r"
    have stn: "storable ?new" by (rule set_member_storable [OF st]) (simp_all add: text_ok_literal)
    have "cg_value (released_change command holds h) = to_canonical ?new" using f by (simp add: released_change_def Let_def or_else_def)
    then have "stored_value (cg_value (released_change command holds h)) = Some (sorted_members ?new)" using storable_reads [OF stn] by simp
    then obtain m1 r1 where "hold_record p1 h = Inr (Some (m1, r1))" "is_active r1" "r1 = sorted_members ?new"
      using act changed True hold_record_value by (fastforce simp: active_hold_def)
    moreover have "\<not> is_active (sorted_members ?new)"
    proof -
      have obj: "is_object r" using rec holds_on_in [OF holds, of h m r] r(2) member_str_object by blast
      have "member_str (sorted_members ?new) ''state'' = member_str ?new ''state''"
        using stn by (intro member_sorted) (simp add: storable_def)
      then show ?thesis using obj by (simp add: is_active_def member_str_edit)
    qed
    ultimately show False by blast
  next
    case False
    obtain m r where act1: "hold_record p1 h = Inr (Some (m, r))" "member_str r ''artifact'' = Some i" "is_active r"
      using act by (auto simp: active_hold_def)
    obtain v where v: "value_at (pv_store p) (hold_key h) = Some v" "stored_value v = Some r"
      using hold_record_value [OF act1(1)] changed False by auto
    then obtain m0 where "hold_record p h = Inr (Some (m0, r))"
      by (auto simp: hold_record_def record_at_def value_at_def split: option.splits)
    then have "(h, m0, r) \<in> set holds" using holds_on_in [OF holds] act1(2) by blast
    then have "(h, m0, r) \<in> set (blocking releases holds)" using act1(3) False by (simp add: blocking_def)
    then show False using chk by (auto simp: purge_check_def split: if_splits)
  qed
qed

subsection \<open>Pages of a query\<close>

text \<open>What a query would list after an id if a page had no end.\<close>

definition shown_item ::
    "hasher \<Rightarrow> provider \<Rightarrow> grant option \<Rightarrow> jvalue \<Rightarrow> string option \<Rightarrow> string \<Rightarrow> (string \<times> jvalue) option" where
  "shown_item sha p in_force filters after i =
     (if \<not> provider_may_read p in_force (artifact_key i) \<or> (case after of None \<Rightarrow> False | Some seen \<Rightarrow> i \<le> seen) then None
      else (case artifact_record p i of
              Inr (Some (_, rec)) \<Rightarrow>
                if covers_derivation p in_force rec \<and> matches_filters (descriptor_of rec) filters
                then Some (i, query_item sha p i rec) else None
            | _ \<Rightarrow> None))"

fun query_shown ::
    "hasher \<Rightarrow> provider \<Rightarrow> grant option \<Rightarrow> jvalue \<Rightarrow> string option \<Rightarrow> string list \<Rightarrow> (string \<times> jvalue) list" where
  "query_shown sha p in_force filters after [] = []"
| "query_shown sha p in_force filters after (i # names) =
     (case shown_item sha p in_force filters after i of None \<Rightarrow> [] | Some x \<Rightarrow> [x]) @ query_shown sha p in_force filters after names"

lemma shown_item_fst: "shown_item sha p in_force filters after i = Some x \<Longrightarrow> fst x = i"
  by (auto simp: shown_item_def split: if_splits sum.splits option.splits)

lemma shown_item_after:
  "(case after of None \<Rightarrow> True | Some seen \<Rightarrow> seen \<le> c) \<Longrightarrow>
   shown_item sha p in_force filters (Some c) i = (if i \<le> c then None else shown_item sha p in_force filters after i)"
  by (cases after) (auto simp: shown_item_def)

lemma shown_item_seen: "shown_item sha p in_force filters (Some seen) i = Some x \<Longrightarrow> seen < i"
  by (auto simp: shown_item_def not_le split: if_splits)

lemma query_items_shown:
  assumes "query_items sha p in_force after filters limit names items filtered = Inr (page, more_hidden, next1)" "int (length items) \<le> limit"
  shows "(case next1 of
      None \<Rightarrow> page = items @ query_shown sha p in_force filters after names
    | Some c \<Rightarrow> page = take (nat limit) (items @ query_shown sha p in_force filters after names) \<and>
        int (length page) = limit \<and> c = items_last page)"
  using assms
proof (induction sha p in_force after filters limit names items filtered rule: query_items.induct)
  case (1 sha p in_force after filters limit items filtered)
  then show ?case by simp
next
  case (2 sha p in_force after filters limit i names items filtered)
  let ?seen = "case after of None \<Rightarrow> False | Some seen \<Rightarrow> i \<le> seen"
  show ?case
  proof (cases "\<not> provider_may_read p in_force (artifact_key i) \<or> ?seen")
    case True
    then have skip: "query_shown sha p in_force filters after (i # names) = query_shown sha p in_force filters after names"
      by (auto simp: shown_item_def)
    show ?thesis using 2 True unfolding skip by (auto split: if_splits)
  next
    case False
    then obtain r where r: "artifact_record p i = Inr r" using "2.prems"(1) by (auto simp: rbind_Inr_iff)
    show ?thesis
    proof (cases "\<exists>n rec. r = Some (n, rec) \<and> covers_derivation p in_force rec \<and> matches_filters (descriptor_of rec) filters")
      case True
      then obtain n rec where rec: "r = Some (n, rec)" "covers_derivation p in_force rec" "matches_filters (descriptor_of rec) filters" by blast
      have shown: "query_shown sha p in_force filters after (i # names) = (i, query_item sha p i rec) # query_shown sha p in_force filters after names"
        using False r rec by (auto simp: shown_item_def)
      show ?thesis
      proof (cases "int (length items) = limit")
        case True
        then have "page = items" "next1 = Some (items_last items)" using "2.prems"(1) False r rec by auto
        then show ?thesis using True by auto
      next
        case neq: False
        have "query_items sha p in_force after filters limit names (items @ [(i, query_item sha p i rec)]) filtered = Inr (page, more_hidden, next1)"
          using "2.prems"(1) False r rec neq by simp
        then show ?thesis using "2.IH"(6) False r rec neq "2.prems"(2) unfolding shown by (cases next1) auto
      qed
    next
      case no: False
      then have skip: "query_shown sha p in_force filters after (i # names) = query_shown sha p in_force filters after names"
        using False r by (auto simp: shown_item_def split: option.splits)
      show ?thesis
      proof (cases r)
        case None
        then show ?thesis using 2 False r unfolding skip by simp
      next
        case (Some x)
        then obtain n rec where rec: "r = Some (n, rec)" by (cases x) auto
        show ?thesis
        proof (cases "covers_derivation p in_force rec")
          case True
          then have "\<not> matches_filters (descriptor_of rec) filters" using no rec by blast
          then show ?thesis using 2 False r rec True unfolding skip by simp
        next
          case uncovered: False
          then show ?thesis using 2 False r rec unfolding skip by simp
        qed
      qed
    qed
  qed
qed

lemma shown_names: "fst ` set (query_shown sha p in_force filters after names) \<subseteq> set names"
proof (induction names)
  case (Cons i names)
  then show ?case using shown_item_fst [of sha p in_force filters after i]
    by (cases "shown_item sha p in_force filters after i") auto
qed simp

lemma shown_sorted: "sorted_wrt (<) names \<Longrightarrow> sorted_wrt (<) (map fst (query_shown sha p in_force filters after names))"
proof (induction names)
  case (Cons i names)
  then show ?case
    using shown_names [of sha p in_force filters after names] shown_item_fst [of sha p in_force filters after i]
    by (cases "shown_item sha p in_force filters after i") auto
qed simp

lemma shown_after:
  assumes "case after of None \<Rightarrow> True | Some seen \<Rightarrow> seen \<le> c"
  shows "query_shown sha p in_force filters (Some c) names =
     filter (\<lambda>x. c < fst x) (query_shown sha p in_force filters after names)"
proof (induction names)
  case (Cons i names)
  then show ?case
    using shown_item_fst [of sha p in_force filters after i] shown_item_after [OF assms]
    by (cases "shown_item sha p in_force filters after i") (auto simp: not_le)
qed simp

lemma strictly_after:
  assumes "sorted_wrt (<) (map fst xs)" "k < length xs"
  shows "filter (\<lambda>x. fst (xs ! k) < fst x) xs = drop (Suc k) (xs :: (string \<times> jvalue) list)"
proof -
  have xs: "xs = take (Suc k) xs @ drop (Suc k) xs" by simp
  have "fst (xs ! j) \<le> fst (xs ! k)" if "j < Suc k" for j
    using sorted_wrt_nth_less [OF assms(1), of j k] that assms(2) by (cases "j = k") auto
  moreover have "\<exists>j < Suc k. x = xs ! j" if "x \<in> set (take (Suc k) xs)" for x
    using that by (simp only: in_set_conv_nth) (auto simp del: split_paired_Ex)
  ultimately have "filter (\<lambda>x. fst (xs ! k) < fst x) (take (Suc k) xs) = []"
    unfolding filter_empty_conv not_less by metis
  note low = this
  have "fst (xs ! k) < fst (xs ! j)" if "Suc k \<le> j" "j < length xs" for j
    using sorted_wrt_nth_less [OF assms(1), of k j] that assms(2) by auto
  moreover have "\<exists>j. Suc k \<le> j \<and> j < length xs \<and> x = xs ! j" if "x \<in> set (drop (Suc k) xs)" for x
    using that by (simp only: in_set_conv_nth) (force simp del: split_paired_Ex intro: exI [of _ "Suc k + _"])
  ultimately have "filter (\<lambda>x. fst (xs ! k) < fst x) (drop (Suc k) xs) = drop (Suc k) xs"
    unfolding filter_id_conv by metis
  with low show ?thesis using filter_append [of _ "take (Suc k) xs" "drop (Suc k) xs"] by (metis append_Nil xs)
qed

lemma shown_beyond: "x \<in> set (query_shown sha p in_force filters (Some seen) names) \<Longrightarrow> seen < fst x"
proof (induction names)
  case (Cons i names)
  then show ?case using shown_item_fst [of sha p in_force filters "Some seen" i] shown_item_seen [of sha p in_force filters seen i]
    by (cases "shown_item sha p in_force filters (Some seen) i") auto
qed simp

lemma page_continues:
  assumes "query_items sha p in_force after filters limit names [] False = Inr (page, more_hidden, Some c)"
    and "sorted_wrt (<) names" "1 \<le> limit"
  shows "query_shown sha p in_force filters after names = page @ query_shown sha p in_force filters (Some c) names"
proof -
  let ?all = "query_shown sha p in_force filters after names"
  have page: "page = take (nat limit) ?all" "int (length page) = limit" "c = items_last page"
    using query_items_shown [OF assms(1)] assms(3) by (auto simp del: length_take)
  have ne: "page \<noteq> []" using page(2) assms(3) by auto
  let ?k = "nat limit - 1"
  have k: "?k < length ?all" "Suc ?k = nat limit" using page(1,2) assms(3) by (auto simp: min_def split: if_splits)
  have "length page - 1 = ?k" using page(2) by linarith
  then have "last page = page ! ?k" using last_conv_nth [OF ne] by simp
  also have "\<dots> = ?all ! ?k" unfolding page(1) using k(2) by (intro nth_take) linarith
  finally have "last page = ?all ! ?k" .
  then have c: "c = fst (?all ! ?k)" using page(3) ne by (simp add: items_last_def)
  have sorted: "sorted_wrt (<) (map fst ?all)" using assms(2) by (rule shown_sorted)
  have "case after of None \<Rightarrow> True | Some seen \<Rightarrow> seen \<le> c"
  proof (cases after)
    case (Some seen)
    have "?all ! ?k \<in> set ?all" using k(1) by simp
    then show ?thesis using Some c shown_beyond by fastforce
  qed simp
  then have "query_shown sha p in_force filters (Some c) names = filter (\<lambda>x. c < fst x) ?all" by (rule shown_after)
  also have "\<dots> = drop (nat limit) ?all" using strictly_after [OF sorted k(1)] c k(2) by simp
  finally show ?thesis using page(1) by simp
qed

subsection \<open>Examples\<close>

lemma example_purges:
  "\<exists>p1. purges example_sha (\<lambda>_. ''now'') (example_command []) (example_on_artifact ''evidence.purge'' (Object [])) ''a'' []
      (artifact_state example_sealed) p1"
proof -
  let ?p = "artifact_state example_sealed" and ?c = "example_on_artifact ''evidence.purge'' (Object [])"
  let ?rec = "sorted_members example_sealed"
  have dom: "in_domain example_sealed" using example_storable(1) by (simp add: storable_def)
  have read: "artifact_record ?p ''a'' = Inr (Some (1, ?rec))" by (rule artifact_state_read [OF example_storable(1)])
  have rec: "member_str ?rec ''state'' = Some ''sealed''" "get ?rec ''purge'' = None"
    unfolding member_sorted [OF dom] get_sorted_members [OF dom] by (simp_all add: example_sealed_def member_str_def)
  have key: "sk_id (key_of (c_subject ?c)) = ''a''" "sk_kind (key_of (c_subject ?c)) = ARTIFACT" by (simp_all add: example_key artifact_key_def)
  have gate: "retention_gate ?p = Inr ()" by (simp add: retention_gate_def selected_feature_def artifact_state_def)
  have payload: "purge_payload ?c = Inr []"
    by (simp add: purge_payload_def release_holds_def by_kind_and_id_def example_on_artifact_def example_sent_def)
  have auth: "authorize ?p now (c_grant ?c) needs = Inr None" for now needs
    by (simp add: authorize_def artifact_authority example_on_artifact_def example_sent_def)
  have through: "let_through example_sha (\<lambda>_. ''now'') (example_command []) ?c (Purge ''a'' []) ?p"
    by (rule artifact_state_let_through) (simp_all add: authorize_purge_def auth)
  have holds: "holds_on ?p ''a'' = Inr []"
    by (simp add: holds_on_def subjects_of_kind_def example_artifact_def artifact_key_def HOLD_def ARTIFACT_def)
  have delay: "deletion_delay ?p = 5"
    by (simp add: deletion_delay_def artifact_state_def example_session_def artifact_config_def or_else_def Let_def)
  obtain x t where "commit_for (\<lambda>_. ''now'') ?c (set_member ''purge'' (purge_value ''now'' 5 []) ?rec)
      [new_event ''evidence.artifact.purge_requested'' (Object [(''requested_at'', String ''now'')]) (c_caused_by ?c)]
      No_Chunks [] (purge_outcome ''a'' (String ''purge_pending'') []) ?p = (Inr x, ?p\<lparr>pv_store := t\<rparr>)"
    using artifact_answers_same [where chunks = No_Chunks and ?rec1.0 = example_sealed] by (simp only: chunks.case) blast
  then have "purge_now (\<lambda>_. ''now'') ?c [] [] ?rec ?p = (Inr x, ?p\<lparr>pv_store := t\<rparr>)"
    by (simp add: purge_now_def delay purge_events_def key)
  then have "purge_sealed example_sha (\<lambda>_. ''now'') ?c [] 1 ?rec ?p = (Inr x, ?p\<lparr>pv_store := t\<rparr>)"
    by (simp add: purge_sealed_def key auth rec holds purge_check_def blocking_def)
  then have "evidence_purge example_sha (\<lambda>_. ''now'') (example_command []) ?c ?p = (Inr x, ?p\<lparr>pv_store := t\<rparr>)"
    by (simp add: evidence_purge_def Let_def gate key payload admitted_through [OF through] read rec)
  then show ?thesis using payload read rec through by (auto simp: purges_def example_key)
qed

definition example_pair :: provider where
  "example_pair = example_session artifact_config
     (empty_tables\<lparr>tb_subjects :=
        [(artifact_key ''b'', \<lparr>su_revision = 1, su_value = to_canonical example_sealed, su_applied = 1\<rparr>),
         (artifact_key ''a'', \<lparr>su_revision = 1, su_value = to_canonical example_sealed, su_applied = 1\<rparr>)]\<rparr>)"

lemma example_pair_names: "map fst (subjects_of_kind (pv_store example_pair) ARTIFACT) = [''a'', ''b'']"
  by (simp add: subjects_of_kind_def example_pair_def example_session_def artifact_key_def)

lemma example_page:
  "query_items example_sha example_pair None None (Object []) 1 [''a'', ''b''] [] False =
     Inr ([(''a'', query_item example_sha example_pair ''a'' (sorted_members example_sealed))], False, Some ''a'')"
proof -
  have dom: "in_domain example_sealed" using example_storable(1) by (simp add: storable_def)
  have read: "artifact_record example_pair i = Inr (Some (1, sorted_members example_sealed))" if "i = ''a'' \<or> i = ''b''" for i
    using that storable_reads [OF example_storable(1)]
    by (auto simp: artifact_record_def record_at_def subject_def example_pair_def example_session_def artifact_key_def)
  have "get (sorted_members example_sealed) ''readable_under'' = None"
    unfolding get_sorted_members [OF dom] by (simp add: example_sealed_def)
  then have "covers_derivation example_pair None (sorted_members example_sealed)" by (simp add: covers_derivation_def)
  then show ?thesis
    by (simp add: read provider_may_read_def matches_filters_def items_last_def)
qed

subsection \<open>Properties\<close>



text \<open>
  C40. A query's page, followed by what a query after its cursor would list, is what one query
  without a limit would list: the pages of a query miss no artifact and repeat none.
\<close>

theorem query_pages_cover:
  assumes "query_items sha p in_force after filters limit (map fst (subjects_of_kind (pv_store p) ARTIFACT)) [] False = Inr (page, more_hidden, next1)"
    and "sorted_wrt (<) (map fst (subjects_of_kind (pv_store p) ARTIFACT))" "1 \<le> limit"
  shows "query_shown sha p in_force filters after (map fst (subjects_of_kind (pv_store p) ARTIFACT)) =
    page @ (case next1 of None \<Rightarrow> []
            | Some c \<Rightarrow> query_shown sha p in_force filters (Some c) (map fst (subjects_of_kind (pv_store p) ARTIFACT)))"
proof (cases next1)
  case None
  then show ?thesis using query_items_shown [OF assms(1)] assms(3) by simp
next
  case (Some c)
  then show ?thesis using page_continues [OF assms(1) [unfolded Some] assms(2,3)] by simp
qed

lemma query_pages_cover_witness:
  "query_shown example_sha example_pair None (Object []) None [''a'', ''b''] =
     [(''a'', query_item example_sha example_pair ''a'' (sorted_members example_sealed))] @
     query_shown example_sha example_pair None (Object []) (Some ''a'') [''a'', ''b'']"
proof -
  have "sorted_wrt (<) [''a'', ''b'']" by code_simp
  then show ?thesis
    using query_pages_cover [of example_sha example_pair None None "Object []" 1, unfolded example_pair_names, OF example_page]
    by (simp only: option.case order.refl)
qed

end
