(* ===== verification/Knowledge_Ops.thy ===== *)
theory Knowledge_Ops
  imports Evidence_Ops
begin

text \<open>
  The operations of the knowledge profile, \<open>knowledge_ops.rs\<close>: claims, authority bindings, reliance
  decisions, conflicts and applicability. \<open>clk 0\<close> is the instant while the command is admitted,
  \<open>clk 1\<close> when it is recorded.
\<close>

subsection \<open>What every command shares\<close>

definition text_at :: "jvalue \<Rightarrow> string list \<Rightarrow> string" where
  "text_at v path = or_else (as_str (member_at v path)) []"

definition not_authority :: protocol_error where
  "not_authority = permission_denied ''not_authority''"

definition knowledge_shape :: "command \<Rightarrow> string \<Rightarrow> bool \<Rightarrow> protocol_error + subject_key" where
  "knowledge_shape command knd existing =
     (let key = key_of (c_subject command) in
      if sk_kind key \<noteq> knd
      then Inl (invalid_envelope ''/subject/kind'' (''this operation's subject is a '' @ knd))
      else (case c_preconditions command of
              [(on, revision)] \<Rightarrow>
                if key_of on \<noteq> key
                then Inl (invalid_envelope ''/preconditions'' ''exactly one precondition, on the command's own subject'')
                else if existing \<and> revision < 1
                then Inl (invalid_envelope ''/preconditions/0/revision'' ''an existing subject is at least revision 1'')
                else if \<not> existing \<and> revision \<noteq> 0
                then Inl (invalid_envelope ''/preconditions/0/revision'' ''this operation creates its subject at revision 0'')
                else Inr key
            | _ \<Rightarrow> Inl (invalid_envelope ''/preconditions'' ''exactly one precondition, on the command's own subject'')))"

definition require_epoch :: "command \<Rightarrow> protocol_error + unit" where
  "require_epoch command =
     (if c_authority_epoch command = None
      then Inl (invalid_envelope ''/authority_epoch'' ''deciding needs the binding's authority epoch'') else Inr ())"

text \<open>A row of the claim revisions as it is read: a record that does not parse is a store failure.\<close>

record held_row =
  hr_revision :: int
  hr_digest :: string
  hr_record :: jvalue
  hr_recorded_at :: string

definition claim_revision_row :: "claim_row \<Rightarrow> held_row stored" where
  "claim_revision_row row =
     (case stored_value (kr_record row) of
        None \<Rightarrow> Inl (Corrupt ''a claim revision record does not parse'')
      | Some v \<Rightarrow> Inr \<lparr>hr_revision = kr_revision row, hr_digest = kr_digest row, hr_record = v,
                        hr_recorded_at = kr_recorded_at row\<rparr>)"

definition read_claim_revision :: "provider \<Rightarrow> string \<Rightarrow> int \<Rightarrow> protocol_error + held_row option" where
  "read_claim_revision p clm revision =
     (case claim_revision_at (pv_store p) clm revision of
        None \<Rightarrow> Inr None
      | Some row \<Rightarrow> rbind (stored (claim_revision_row row)) (\<lambda>held. Inr (Some held)))"

fun read_claim_rows :: "claim_row list \<Rightarrow> protocol_error + held_row list" where
  "read_claim_rows [] = Inr []"
| "read_claim_rows (row # rows) =
     rbind (stored (claim_revision_row row)) (\<lambda>held. rbind (read_claim_rows rows) (\<lambda>rest. Inr (held # rest)))"

definition provider_id :: "provider \<Rightarrow> string" where
  "provider_id p = cf_provider_id (pv_config p)"

definition held_revision :: "provider \<Rightarrow> jvalue \<Rightarrow> protocol_error + held_row option" where
  "held_revision p r =
     (let parts = reference_parts_of r in
      if rp_provider parts \<noteq> provider_id p then Inr None
      else read_claim_revision p (rp_claim parts) (rp_revision parts))"

definition binding :: "provider \<Rightarrow> string \<Rightarrow> protocol_error + (int \<times> jvalue) option" where
  "binding p scope = record_at (pv_store p) (subject_key_of AUTHORITY scope)"

definition scope_of :: "held_row \<Rightarrow> string" where
  "scope_of row = text_at (hr_record row) [''scope'', ''id'']"

definition epoch_for :: "provider \<Rightarrow> jvalue \<Rightarrow> protocol_error + epoch_check" where
  "epoch_for p r =
     rbind (held_revision p r) (\<lambda>held.
     Inr (case held of None \<Rightarrow> Unchecked | Some row \<Rightarrow> Binding (subject_key_of AUTHORITY (scope_of row))))"

definition bound_to_caller :: "provider \<Rightarrow> string \<Rightarrow> protocol_error + int" where
  "bound_to_caller p scope =
     rbind (binding p scope) (\<lambda>b.
     case b of
       Some (epoch, bnd) \<Rightarrow> if text_at bnd [''authority''] = principal_of p then Inr epoch else Inl not_authority
     | None \<Rightarrow> Inl not_authority)"

fun parse_records :: "(string \<times> int \<times> string) list \<Rightarrow> protocol_error + (string \<times> int \<times> jvalue) list" where
  "parse_records [] = Inr []"
| "parse_records ((i, revision, v) # rows) =
     rbind (ok_or (stored_value v) new_internal_error) (\<lambda>rec.
     rbind (parse_records rows) (\<lambda>rest. Inr ((i, revision, rec) # rest)))"

definition knowledge_records :: "provider \<Rightarrow> string \<Rightarrow> protocol_error + (string \<times> int \<times> jvalue) list" where
  "knowledge_records p knd = parse_records (subjects_in_recorded_order (pv_store p) knd)"

text \<open>The record is about this reference, under the member named.\<close>

definition names_claim :: "jvalue \<Rightarrow> jvalue \<Rightarrow> bool" where
  "names_claim rec r = (case get rec ''claim'' of None \<Rightarrow> False | Some c \<Rightarrow> same_reference c r)"

definition last_of :: "'a list \<Rightarrow> 'a option" where
  "last_of xs = (if xs = [] then None else Some (List.last xs))"

definition latest_decision :: "provider \<Rightarrow> jvalue \<Rightarrow> protocol_error + (string \<times> jvalue) option" where
  "latest_decision p r =
     rbind (knowledge_records p DECISION) (\<lambda>recs.
     Inr (last_of (map (\<lambda>(i, _, d). (i, d)) (filter (\<lambda>(_, _, d). names_claim d r) recs))))"

definition same_target :: "jvalue \<Rightarrow> jvalue \<Rightarrow> bool" where
  "same_target rec target = (map_option to_canonical (get rec ''target'') = Some (to_canonical target))"

definition latest_evaluation :: "provider \<Rightarrow> jvalue \<Rightarrow> jvalue \<Rightarrow> protocol_error + (string \<times> jvalue) option" where
  "latest_evaluation p r target =
     rbind (knowledge_records p EVALUATION) (\<lambda>recs.
     Inr (last_of (map (\<lambda>(i, _, e). (i, e)) (filter (\<lambda>(_, _, e). names_claim e r \<and> same_target e target) recs))))"

definition commit_knowledge ::
    "command \<Rightarrow> subject_key \<Rightarrow> jvalue \<Rightarrow> new_event \<Rightarrow> claim_revision option \<Rightarrow> string \<Rightarrow> jvalue \<Rightarrow> provider \<Rightarrow> handled" where
  "commit_knowledge command key rec event row recorded_at outcome p =
     committed ((base_commit p recorded_at command key (to_canonical rec) (Some event))\<lparr>cm_claim_revision := row\<rparr>)
       (\<lambda>revision operation_ref. accepted_for command revision operation_ref outcome) p"

definition key_of_claim :: "jvalue \<Rightarrow> subject_key" where
  "key_of_claim r = subject_key_of CLAIM (text_at r [''claim''])"

subsection \<open>Claims\<close>

text \<open>A revision names the revision it replaces, by number and digest.\<close>

definition check_base :: "provider \<Rightarrow> string \<Rightarrow> int \<Rightarrow> jvalue \<Rightarrow> protocol_error + unit" where
  "check_base p clm current payload =
     rbind (read_claim_revision p clm current) (\<lambda>held.
     case held of
       None \<Rightarrow> Inl not_found
     | Some base \<Rightarrow>
         (let supersedes = member_or_null payload ''supersedes'' in
          if get supersedes ''revision'' \<noteq> Some (Integer current)
          then Inl (invalid_envelope ''/payload/supersedes/revision'' ''not the lineage's current revision'')
          else if member_str supersedes ''digest'' \<noteq> Some (hr_digest base)
          then Inl (invalid_envelope ''/payload/supersedes/digest'' ''not the current revision's digest'')
          else Inr ()))"

definition revise_claim :: "hasher \<Rightarrow> (nat \<Rightarrow> string) \<Rightarrow> command \<Rightarrow> subject_key \<Rightarrow> int \<Rightarrow> provider \<Rightarrow> handled" where
  "revise_claim sha clk command key current p =
     (let revision = current + 1;
          rec = build_record (provider_id p) (sk_id key) revision (principal_of p) (c_payload command);
          digest = record_digest sha rec;
          r = reference (provider_id p) (sk_id key) revision digest in
      commit_knowledge command key (Object [(''current'', r)])
        (new_event ''knowledge.claim.revised'' (Object [(''reference'', r)]) (c_caused_by command))
        (Some \<lparr>cv_claim = sk_id key, cv_revision = revision, cv_digest = digest, cv_record = to_canonical rec\<rparr>)
        (clk 1) (Object [(''reference'', r)]) p)"

definition knowledge_claim :: "bool \<Rightarrow> handler" where
  "knowledge_claim revise sha clk params command p =
     (case knowledge_shape command CLAIM revise of
        Inl e \<Rightarrow> (Inl e, p)
      | Inr key \<Rightarrow>
          (case check_claim_payload (c_payload command) revise of
             Inl e \<Rightarrow> (Inl e, p)
           | Inr _ \<Rightarrow>
               admitted sha (clk 0) params command Unchecked (Rights [(''knowledge.propose'', Some key)]) (\<lambda>p.
                 let current = revision_of (pv_store p) key in
                 case (if revise then check_base p (sk_id key) current (c_payload command) else Inr ()) of
                   Inl e \<Rightarrow> (Inl e, p)
                 | Inr _ \<Rightarrow> revise_claim sha clk command key current p) p))"

subsection \<open>Authority bindings\<close>

definition binding_value :: "string \<Rightarrow> string \<Rightarrow> int \<Rightarrow> jvalue" where
  "binding_value scope authority epoch = Object
     [(''scope'', String scope), (''authority'', String authority), (''epoch'', Integer epoch)]"

definition record_binding :: "(nat \<Rightarrow> string) \<Rightarrow> command \<Rightarrow> bool \<Rightarrow> subject_key \<Rightarrow> provider \<Rightarrow> handled" where
  "record_binding clk command transfer key p =
     (let epoch = revision_of (pv_store p) key + 1;
          authority = text_at (c_payload command) [''authority''];
          v = binding_value (sk_id key) authority epoch in
      commit_knowledge command key v
        (new_event (if transfer then ''knowledge.authority.transferred'' else ''knowledge.authority.bound'')
           (Object [(''authority'', String authority), (''epoch'', Integer epoch)]) (c_caused_by command))
        None (clk 1) v p)"

definition knowledge_authority :: "bool \<Rightarrow> handler" where
  "knowledge_authority transfer sha clk params command p =
     (case knowledge_shape command AUTHORITY transfer of
        Inl e \<Rightarrow> (Inl e, p)
      | Inr key \<Rightarrow>
          (case check_authority_payload (c_payload command) of
             Inl e \<Rightarrow> (Inl e, p)
           | Inr _ \<Rightarrow>
               admitted sha (clk 0) params command Unchecked Bind (record_binding clk command transfer key) p))"

definition knowledge_authority_get :: "provider \<Rightarrow> jvalue \<Rightarrow> answer" where
  "knowledge_authority_get p payload =
     rbind (check_authority_get_payload payload) (\<lambda>scope.
     rbind (binding p scope) (\<lambda>b.
     case b of
       None \<Rightarrow> Inl not_found
     | Some (revision, bnd) \<Rightarrow> Inr (Object
         [(''scope'', String scope), (''authority'', member_or_null bnd ''authority''),
          (''epoch'', member_or_null bnd ''epoch''), (''revision'', Integer revision)])))"

subsection \<open>Reliance decisions\<close>

text \<open>The checks before a decision is recorded: the row, the scope and the epoch it is decided under.\<close>

definition check_decision :: "provider \<Rightarrow> jvalue \<Rightarrow> jvalue \<Rightarrow> protocol_error + held_row \<times> string \<times> int" where
  "check_decision p payload r =
     rbind (held_revision p r) (\<lambda>held.
     case held of
       None \<Rightarrow> Inl not_found
     | Some row \<Rightarrow>
         rbind (bound_to_caller p (scope_of row)) (\<lambda>epoch.
         if rp_digest (reference_parts_of r) \<noteq> hr_digest row
         then Inl (invalid_envelope ''/payload/claim/digest'' ''the digest differs from the revision's digest'')
         else
           rbind (latest_decision p r) (\<lambda>found.
           let latest = map_option fst found in
           if latest \<noteq> member_str payload ''supersedes_decision''
           then Inl (with_detail ''latest_decision'' (case latest of None \<Rightarrow> Null | Some i \<Rightarrow> String i)
                  (new_error ''precondition_failed'' AfterReconcile))
           else Inr (row, scope_of row, epoch))))"

definition decision_value :: "provider \<Rightarrow> jvalue \<Rightarrow> jvalue \<Rightarrow> held_row \<Rightarrow> string \<Rightarrow> int \<Rightarrow> string \<Rightarrow> jvalue" where
  "decision_value p payload r row scope epoch recorded_at = Object
     [(''claim'', r), (''value'', String (text_at payload [''decision''])),
      (''permitted_use'', member_or_null payload ''permitted_use''),
      (''supersedes_decision'', member_or_null payload ''supersedes_decision''),
      (''validation_basis'', member_or_null payload ''validation_basis''),
      (''rationale'', member_or_null payload ''rationale''),
      (''decider'', String (principal_of p)),
      (''author_is_decider'', Bool (text_at (hr_record row) [''producer''] = principal_of p)),
      (''epoch'', Integer epoch), (''scope'', String scope), (''recorded_at'', String recorded_at)]"

definition used_member :: "jvalue \<Rightarrow> (string \<times> jvalue) list" where
  "used_member payload = (case get payload ''permitted_use'' of None \<Rightarrow> [] | Some used \<Rightarrow> [(''permitted_use'', used)])"

definition decision_event :: "provider \<Rightarrow> jvalue \<Rightarrow> jvalue \<Rightarrow> held_row \<Rightarrow> jvalue" where
  "decision_event p payload r row = Object
     ([(''claim'', r), (''decision'', String (text_at payload [''decision'']))] @ used_member payload @
      [(''author_is_decider'', Bool (text_at (hr_record row) [''producer''] = principal_of p)),
       (''supersedes_decision'', member_or_null payload ''supersedes_decision'')])"

definition decision_outcome :: "provider \<Rightarrow> jvalue \<Rightarrow> string \<Rightarrow> jvalue \<Rightarrow> held_row \<Rightarrow> int \<Rightarrow> jvalue" where
  "decision_outcome p payload i r row epoch = Object
     ([(''decision'', subject_ref DECISION i), (''claim'', r), (''value'', String (text_at payload [''decision'']))] @
      used_member payload @
      [(''author_is_decider'', Bool (text_at (hr_record row) [''producer''] = principal_of p)), (''epoch'', Integer epoch)])"

definition record_decision :: "(nat \<Rightarrow> string) \<Rightarrow> command \<Rightarrow> subject_key \<Rightarrow> jvalue \<Rightarrow> provider \<Rightarrow> handled" where
  "record_decision clk command key r p =
     (let payload = c_payload command in
      case check_decision p payload r of
        Inl e \<Rightarrow> (Inl e, p)
      | Inr (row, scope, epoch) \<Rightarrow>
          commit_knowledge command key (decision_value p payload r row scope epoch (clk 1))
            (new_event ''knowledge.decision.recorded'' (decision_event p payload r row) (c_caused_by command))
            None (clk 1) (decision_outcome p payload (sk_id key) r row epoch) p)"

definition knowledge_decision :: handler where
  "knowledge_decision sha clk params command p =
     (case rbind (knowledge_shape command DECISION False) (\<lambda>key.
           rbind (check_decision_payload (c_payload command)) (\<lambda>_.
           rbind (require_epoch command) (\<lambda>_.
           rbind (epoch_for p (member_or_null (c_payload command) ''claim'')) (\<lambda>epoch. Inr (key, epoch))))) of
        Inl e \<Rightarrow> (Inl e, p)
      | Inr (key, epoch) \<Rightarrow>
          (let r = member_or_null (c_payload command) ''claim'' in
           admitted sha (clk 0) params command epoch
             (Rights [(''knowledge.decide'', Some key), (''knowledge.read'', Some (key_of_claim r))])
             (record_decision clk command key r) p))"

subsection \<open>Conflicts\<close>

text \<open>The records of the revisions named, in order.\<close>

fun named_records :: "provider \<Rightarrow> nat \<Rightarrow> jvalue list \<Rightarrow> protocol_error + jvalue list" where
  "named_records p index [] = Inr []"
| "named_records p index (r # rs) =
     rbind (held_revision p r) (\<lambda>held.
     case held of
       None \<Rightarrow> Inl not_found
     | Some row \<Rightarrow>
         if rp_digest (reference_parts_of r) \<noteq> hr_digest row
         then Inl (invalid_envelope (''/payload/revisions/'' @ dec_digits index @ ''/digest'')
                ''the digest differs from the revision's digest'')
         else rbind (named_records p (Suc index) rs) (\<lambda>rest. Inr (hr_record row # rest)))"

definition revisions_in :: "jvalue \<Rightarrow> jvalue list" where
  "revisions_in v = items_in (Some v) ''revisions''"

definition statement_value :: "jvalue \<Rightarrow> jvalue" where
  "statement_value rec = or_else (get_in (get rec ''statement'') ''value'') Null"

text \<open>The code takes the first two records: a payload that was checked names exactly two revisions.\<close>

definition compared :: "jvalue list \<Rightarrow> protocol_error + comparison" where
  "compared recs =
     (case compare (recs ! 0) (recs ! 1) of
        Inl reason \<Rightarrow> Inl (with_detail ''reason'' (String reason) (new_error ''claims_not_comparable'' No))
      | Inr c \<Rightarrow> Inr c)"

definition conflict_value :: "comparison \<Rightarrow> jvalue list \<Rightarrow> jvalue list \<Rightarrow> jvalue \<Rightarrow> string \<Rightarrow> jvalue" where
  "conflict_value c revisions recs payload recorded_at = Object
     [(''kind'', String (cmp_kind c)), (''status'', String (cmp_status c)),
      (''uncertain'', Array (map String (cmp_uncertain c))), (''revisions'', Array revisions),
      (''values'', Array (map statement_value recs)), (''note'', member_or_null payload ''note''),
      (''state'', String ''open''), (''resolution'', Null), (''selected'', Null), (''rationale'', Null),
      (''recorded_at'', String recorded_at)]"

definition record_conflict :: "(nat \<Rightarrow> string) \<Rightarrow> command \<Rightarrow> subject_key \<Rightarrow> provider \<Rightarrow> handled" where
  "record_conflict clk command key p =
     (let payload = c_payload command; revisions = revisions_in payload in
      case rbind (named_records p 0 revisions) (\<lambda>recs. rbind (compared recs) (\<lambda>c. Inr (recs, c))) of
        Inl e \<Rightarrow> (Inl e, p)
      | Inr (recs, c) \<Rightarrow>
          commit_knowledge command key (conflict_value c revisions recs payload (clk 1))
            (new_event ''knowledge.conflict.opened''
               (Object [(''kind'', String (cmp_kind c)), (''status'', String (cmp_status c)), (''revisions'', Array revisions)])
               (c_caused_by command))
            None (clk 1)
            (Object [(''conflict'', subject_ref CONFLICT (sk_id key)), (''kind'', String (cmp_kind c)),
               (''status'', String (cmp_status c)), (''uncertain'', Array (map String (cmp_uncertain c)))]) p)"

definition knowledge_conflict_open :: handler where
  "knowledge_conflict_open sha clk params command p =
     (case rbind (knowledge_shape command CONFLICT False) (\<lambda>key.
           rbind (check_conflict_open_payload (c_payload command)) (\<lambda>_. Inr key)) of
        Inl e \<Rightarrow> (Inl e, p)
      | Inr key \<Rightarrow>
          admitted sha (clk 0) params command Unchecked
            (Rights ((''knowledge.propose'', Some key) #
               map (\<lambda>r. (''knowledge.read'', Some (key_of_claim r))) (revisions_in (c_payload command))))
            (record_conflict clk command key) p)"

text \<open>A selection names one of the conflict's revisions, and only a resolution by selection names one.\<close>

definition resolution_valid :: "jvalue \<Rightarrow> jvalue \<Rightarrow> bool" where
  "resolution_valid conflict payload =
     (if text_at payload [''resolution''] = ''select''
      then (case get payload ''selected'' of
              None \<Rightarrow> False
            | Some s \<Rightarrow> list_ex (\<lambda>r. same_json r s) (revisions_in conflict))
      else get payload ''selected'' = None)"

definition resolved_record :: "provider \<Rightarrow> jvalue \<Rightarrow> string \<Rightarrow> jvalue \<Rightarrow> jvalue" where
  "resolved_record p payload recorded_at conflict =
     fold (\<lambda>(name, v). set_member name v)
       [(''state'', String ''resolved''), (''resolution'', String (text_at payload [''resolution''])),
        (''selected'', member_or_null payload ''selected''), (''rationale'', member_or_null payload ''rationale''),
        (''resolved_by'', String (principal_of p)), (''resolved_at'', String recorded_at)] conflict"

definition record_resolution ::
    "(nat \<Rightarrow> string) \<Rightarrow> command \<Rightarrow> subject_key \<Rightarrow> jvalue option \<Rightarrow> provider \<Rightarrow> handled" where
  "record_resolution clk command key existing p =
     (case existing of
        None \<Rightarrow> (Inl not_found, p)
      | Some conflict \<Rightarrow>
          if text_at conflict [''state''] \<noteq> ''open'' then (Inl not_found, p)
          else
            (case rbind (case revisions_in conflict of [] \<Rightarrow> Inr None | r # _ \<Rightarrow> held_revision p r) (\<lambda>held.
                  rbind (bound_to_caller p (case held of None \<Rightarrow> [] | Some row \<Rightarrow> scope_of row)) (\<lambda>_.
                  if \<not> resolution_valid conflict (c_payload command)
                  then Inl (invalid_envelope ''/payload/selected''
                         ''select names one of the two revisions, and only select names one'')
                  else Inr ())) of
               Inl e \<Rightarrow> (Inl e, p)
             | Inr _ \<Rightarrow>
                 (let resolution = text_at (c_payload command) [''resolution''] in
                  commit_knowledge command key (resolved_record p (c_payload command) (clk 1) conflict)
                    (new_event ''knowledge.conflict.resolved'' (Object [(''resolution'', String resolution)]) (c_caused_by command))
                    None (clk 1)
                    (Object [(''conflict'', subject_ref CONFLICT (sk_id key)), (''state'', String ''resolved''),
                       (''resolution'', String resolution)]) p)))"

definition knowledge_conflict_resolve :: handler where
  "knowledge_conflict_resolve sha clk params command p =
     (case rbind (knowledge_shape command CONFLICT True) (\<lambda>key.
           rbind (check_conflict_resolve_payload (c_payload command)) (\<lambda>_.
           rbind (require_epoch command) (\<lambda>_.
           rbind (record_at (pv_store p) key) (\<lambda>existing.
           rbind (case Option.bind existing (\<lambda>(_, c). case revisions_in c of [] \<Rightarrow> None | r # _ \<Rightarrow> Some r) of
                    None \<Rightarrow> Inr Unchecked
                  | Some r \<Rightarrow> epoch_for p r) (\<lambda>epoch. Inr (key, map_option snd existing, epoch)))))) of
        Inl e \<Rightarrow> (Inl e, p)
      | Inr (key, existing, epoch) \<Rightarrow>
          admitted sha (clk 0) params command epoch (Rights [(''knowledge.decide'', Some key)])
            (record_resolution clk command key existing) p)"

subsection \<open>Applicability\<close>

text \<open>
  One dependency's finding, with its reason. A dependency is resolved only as an exact local
  reference, by the latest evaluation of that reference for an equal target.
\<close>

definition dependency_finding ::
    "provider \<Rightarrow> jvalue \<Rightarrow> jvalue \<Rightarrow> jvalue \<Rightarrow> protocol_error + string \<times> string option" where
  "dependency_finding p rec dependency target =
     (let parts = reference_parts_of dependency;
          own_revision = int_at rec ''revision'' in
      if rp_provider parts \<noteq> provider_id p then Inr (''unchecked'', Some ''remote_dependency'')
      else if rp_claim parts = text_at rec [''claim''] \<and> rp_revision parts = own_revision
      then Inr (''unchecked'', Some ''self_reference'')
      else
        rbind (read_claim_revision p (rp_claim parts) (rp_revision parts)) (\<lambda>held.
        if \<not> (case held of None \<Rightarrow> False | Some row \<Rightarrow> hr_digest row = rp_digest parts)
        then Inr (''unchecked'', Some ''unresolved'')
        else
          rbind (latest_evaluation p dependency target) (\<lambda>found.
          case found of
            None \<Rightarrow> Inr (''unchecked'', Some ''not_evaluated'')
          | Some (_, evaluation) \<Rightarrow>
              (let result = text_at evaluation [''result''] in
               Inr (if result = ''applicable'' then (''match'', None)
                    else if result = ''invalid_for_target'' then (''mismatch'', None)
                    else (''unchecked'', Some ''not_established'')))))) "

definition finding_entry :: "jvalue \<Rightarrow> string \<times> string option \<Rightarrow> jvalue" where
  "finding_entry dependency finding =
     (case finding of (verdict, reason) \<Rightarrow>
        Object ([(''dependency'', dependency), (''finding'', String verdict)] @
                (case reason of None \<Rightarrow> [] | Some r \<Rightarrow> [(''reason'', String r)])))"

fun dependency_findings :: "provider \<Rightarrow> jvalue \<Rightarrow> jvalue \<Rightarrow> jvalue list \<Rightarrow> protocol_error + jvalue list" where
  "dependency_findings p rec target [] = Inr []"
| "dependency_findings p rec target (d # ds) =
     rbind (dependency_finding p rec d target) (\<lambda>finding.
     rbind (dependency_findings p rec target ds) (\<lambda>rest. Inr (finding_entry d finding # rest)))"

definition dependencies_in :: "jvalue \<Rightarrow> jvalue list" where
  "dependencies_in rec = items_in (Some rec) ''dependencies''"

definition evaluate_needs :: "provider \<Rightarrow> subject_key \<Rightarrow> jvalue \<Rightarrow> held_row option \<Rightarrow> need list" where
  "evaluate_needs p key r named =
     (''knowledge.propose'', Some key) # (''knowledge.read'', Some (key_of_claim r)) #
     (case named of
        None \<Rightarrow> []
      | Some row \<Rightarrow>
          map (\<lambda>d. (''knowledge.read'', Some (key_of_claim d)))
            (filter (\<lambda>d. text_at d [''provider''] = provider_id p) (dependencies_in (hr_record row))))"

definition evaluator_value :: "provider \<Rightarrow> jvalue" where
  "evaluator_value p =
     (let k = cf_knowledge (pv_config p) in
      Object [(''id'', String (ks_evaluator_id k)), (''version'', String (ks_evaluator_version k))])"

definition findings_for :: "provider \<Rightarrow> jvalue \<Rightarrow> jvalue \<Rightarrow> protocol_error + jvalue list" where
  "findings_for p rec target =
     rbind (dependency_findings p rec target (dependencies_in rec)) (\<lambda>found.
     Inr (condition_findings rec target (ks_condition_kinds (cf_knowledge (pv_config p))) @ found))"

text \<open>What is established of a revision for a target: the findings and the evaluation replaced.\<close>

definition evaluated :: "provider \<Rightarrow> jvalue \<Rightarrow> jvalue \<Rightarrow> protocol_error + jvalue list \<times> jvalue" where
  "evaluated p r target =
     rbind (held_revision p r) (\<lambda>held.
     case held of
       None \<Rightarrow> Inl not_found
     | Some row \<Rightarrow>
         if rp_digest (reference_parts_of r) \<noteq> hr_digest row
         then Inl (invalid_envelope ''/payload/claim/digest'' ''the digest differs from the revision's digest'')
         else
           rbind (findings_for p (hr_record row) target) (\<lambda>findings.
           rbind (latest_evaluation p r target) (\<lambda>found.
           Inr (findings, case found of None \<Rightarrow> Null | Some (i, _) \<Rightarrow> String i))))"

definition evaluation_value :: "provider \<Rightarrow> jvalue \<Rightarrow> jvalue \<Rightarrow> jvalue list \<Rightarrow> jvalue \<Rightarrow> string \<Rightarrow> jvalue" where
  "evaluation_value p r target findings supersedes recorded_at = Object
     [(''claim'', r), (''target'', target), (''evaluator'', evaluator_value p), (''result'', String (result_of findings)),
      (''findings'', Array findings), (''supersedes_evaluation'', supersedes), (''recorded_at'', String recorded_at)]"

definition record_evaluation ::
    "(nat \<Rightarrow> string) \<Rightarrow> command \<Rightarrow> subject_key \<Rightarrow> jvalue \<Rightarrow> jvalue \<Rightarrow> provider \<Rightarrow> handled" where
  "record_evaluation clk command key r target p =
     (case evaluated p r target of
        Inl e \<Rightarrow> (Inl e, p)
      | Inr (findings, supersedes) \<Rightarrow>
          commit_knowledge command key (evaluation_value p r target findings supersedes (clk 1))
            (new_event ''knowledge.evaluation.recorded''
               (Object [(''claim'', r), (''result'', String (result_of findings)), (''evaluator'', evaluator_value p),
                  (''supersedes_evaluation'', supersedes)]) (c_caused_by command))
            None (clk 1)
            (Object [(''evaluation'', subject_ref EVALUATION (sk_id key)), (''claim'', r),
               (''result'', String (result_of findings)), (''evaluator'', evaluator_value p),
               (''findings'', Array findings), (''supersedes_evaluation'', supersedes)]) p)"

definition knowledge_evaluate :: handler where
  "knowledge_evaluate sha clk params command p =
     (let r = member_or_null (c_payload command) ''claim''; target = member_or_null (c_payload command) ''target'' in
      case rbind (knowledge_shape command EVALUATION False) (\<lambda>key.
           rbind (check_evaluate_payload (c_payload command)) (\<lambda>_.
           rbind (held_revision p r) (\<lambda>named. Inr (key, named)))) of
        Inl e \<Rightarrow> (Inl e, p)
      | Inr (key, named) \<Rightarrow>
          admitted sha (clk 0) params command Unchecked (Rights (evaluate_needs p key r named))
            (record_evaluation clk command key r target) p)"

subsection \<open>Reads\<close>

definition reference_of :: "string \<Rightarrow> held_row \<Rightarrow> jvalue" where
  "reference_of clm row = reference (text_at (hr_record row) [''provider'']) clm (hr_revision row) (hr_digest row)"

definition reliance_of :: "(string \<times> jvalue) option \<Rightarrow> jvalue" where
  "reliance_of latest =
     (case latest of
        None \<Rightarrow> Object [(''state'', String ''proposed'')]
      | Some (i, decision) \<Rightarrow> Object
          ([(''state'', member_or_null decision ''value''), (''decision'', String i)] @
           (case get decision ''permitted_use'' of Some (String used) \<Rightarrow> [(''permitted_use'', String used)] | _ \<Rightarrow> []) @
           [(''author_is_decider'', or_else (get decision ''author_is_decider'') (Bool False))]))"

text \<open>One item per target: a later evaluation takes the place of an earlier one.\<close>

fun put_item :: "jvalue \<Rightarrow> jvalue list \<Rightarrow> jvalue list" where
  "put_item item [] = [item]"
| "put_item item (a # rest) =
     (if same_target a (member_or_null item ''target'') then item # rest else a # put_item item rest)"

definition evaluation_item :: "string \<Rightarrow> jvalue \<Rightarrow> jvalue" where
  "evaluation_item i e = Object
     [(''evaluation'', String i), (''target'', member_or_null e ''target''), (''result'', member_or_null e ''result''),
      (''evaluator'', member_or_null e ''evaluator'')]"

definition applicability_items :: "jvalue \<Rightarrow> (string \<times> int \<times> jvalue) list \<Rightarrow> jvalue list" where
  "applicability_items r recs =
     fold (\<lambda>(i, _, e). put_item (evaluation_item i e)) (filter (\<lambda>(_, _, e). names_claim e r) recs) []"

definition observe_support :: "hasher \<Rightarrow> provider \<Rightarrow> jvalue \<Rightarrow> protocol_error + observed" where
  "observe_support sha p entry =
     (let evidence = member_or_null entry ''evidence''; i = text_at evidence [''artifact'', ''id''] in
      if text_at evidence [''provider''] \<noteq> provider_id p then Inr Unknown
      else rbind (artifact_record p i) (\<lambda>found.
        case found of
          None \<Rightarrow> Inr Unavailable
        | Some (_, rec) \<Rightarrow>
            if text_at rec [''descriptor'', ''digest''] \<noteq> text_at evidence [''digest''] then Inr Unavailable
            else (let state = text_at (availability_of sha p i rec) [''state''] in
                  Inr (if state = ''available'' then Available else if state = ''purged'' then Purged else Unavailable))))"

fun observe_each :: "hasher \<Rightarrow> provider \<Rightarrow> jvalue list \<Rightarrow> protocol_error + observed list" where
  "observe_each sha p [] = Inr []"
| "observe_each sha p (e # es) =
     rbind (observe_support sha p e) (\<lambda>o1. rbind (observe_each sha p es) (\<lambda>rest. Inr (o1 # rest)))"

definition conflict_item :: "string \<Rightarrow> jvalue \<Rightarrow> jvalue" where
  "conflict_item i c = Object
     [(''conflict'', String i), (''kind'', member_or_null c ''kind''), (''status'', member_or_null c ''status''),
      (''state'', member_or_null c ''state'')]"

definition conflicts_about :: "jvalue \<Rightarrow> (string \<times> int \<times> jvalue) list \<Rightarrow> jvalue list" where
  "conflicts_about r recs =
     map (\<lambda>(i, _, c). conflict_item i c)
       (filter (\<lambda>(_, _, c). list_ex (\<lambda>q. same_reference q r) (revisions_in c)) recs)"

text \<open>The test control: an altered record behind an honest reference and digest.\<close>

fun alter_member :: "string \<Rightarrow> (jvalue \<Rightarrow> jvalue) \<Rightarrow> (string \<times> jvalue) list \<Rightarrow> (string \<times> jvalue) list" where
  "alter_member name f [] = []"
| "alter_member name f ((n, v) # members) =
     (if n = name then (n, f v) # members else (n, v) # alter_member name f members)"

definition alter_statement_value :: "jvalue \<Rightarrow> jvalue" where
  "alter_statement_value =
     on_fields (alter_member ''statement''
       (on_fields (alter_member ''value'' (\<lambda>original. Object [(''altered'', original)]))))"

definition knowledge_inspect :: "hasher \<Rightarrow> provider \<Rightarrow> jvalue \<Rightarrow> answer" where
  "knowledge_inspect sha p payload =
     rbind (check_inspect_payload payload) (\<lambda>(clm, revision).
     let current = revision_of (pv_store p) (subject_key_of CLAIM clm) in
     if current = 0 then Inl not_found
     else
       rbind (read_claim_revision p clm (or_else revision current)) (\<lambda>held.
       case held of
         None \<Rightarrow> Inl not_found
       | Some row \<Rightarrow>
           (let r = reference_of clm row; support = items_in (Some (hr_record row)) ''support'';
                (class, unknown_ancestry) = support_class support in
            rbind (latest_decision p r) (\<lambda>decision.
            rbind (knowledge_records p EVALUATION) (\<lambda>evaluations.
            rbind (observe_each sha p support) (\<lambda>observed.
            rbind (knowledge_records p CONFLICT) (\<lambda>conflicts.
            Inr (Object
              [(''reference'', r),
               (''record'', if clm \<in> set (ks_serve_altered_claims (cf_knowledge (pv_config p)))
                            then alter_statement_value (hr_record row) else hr_record row),
               (''current_revision'', Integer current), (''reliance'', reliance_of decision),
               (''applicability'', Array (applicability_items r evaluations)),
               (''health'', member_or_null (hr_record row) ''health''),
               (''availability'', availability observed),
               (''support'', Object [(''class'', String class), (''unknown_ancestry'', Array (map String unknown_ancestry))]),
               (''conflicts'', Array (conflicts_about r conflicts))]))))))))"

definition event_at :: "provider \<Rightarrow> string \<Rightarrow> subject_key \<Rightarrow> int \<Rightarrow> jvalue" where
  "event_at p event_type key revision =
     (case event_position (pv_store p) event_type key revision of None \<Rightarrow> Null | Some q \<Rightarrow> position_value q)"

definition about_claim :: "provider \<Rightarrow> string \<Rightarrow> jvalue option \<Rightarrow> bool" where
  "about_claim p clm r =
     (case r of None \<Rightarrow> False | Some v \<Rightarrow> text_at v [''claim''] = clm \<and> text_at v [''provider''] = provider_id p)"

definition revision_entry :: "provider \<Rightarrow> string \<Rightarrow> held_row \<Rightarrow> jvalue" where
  "revision_entry p clm row = Object
     [(''reference'', reference_of clm row), (''producer'', member_or_null (hr_record row) ''producer''),
      (''supersedes'', member_or_null (hr_record row) ''supersedes''), (''recorded_at'', String (hr_recorded_at row)),
      (''position'', event_at p ''knowledge.claim.revised'' (subject_key_of CLAIM clm) (hr_revision row))]"

definition decision_entry :: "provider \<Rightarrow> string \<Rightarrow> jvalue \<Rightarrow> jvalue" where
  "decision_entry p i d = Object
     ([(''decision'', String i)] @
      map (\<lambda>name. (name, member_or_null d name))
        [''claim'', ''value'', ''permitted_use'', ''decider'', ''author_is_decider'', ''epoch'', ''supersedes_decision'', ''recorded_at''] @
      [(''position'', event_at p ''knowledge.decision.recorded'' (subject_key_of DECISION i) 1)])"

definition evaluation_entry :: "provider \<Rightarrow> string \<Rightarrow> jvalue \<Rightarrow> jvalue" where
  "evaluation_entry p i e = Object
     ([(''evaluation'', String i)] @
      map (\<lambda>name. (name, member_or_null e name))
        [''claim'', ''target'', ''result'', ''evaluator'', ''supersedes_evaluation'', ''recorded_at''] @
      [(''position'', event_at p ''knowledge.evaluation.recorded'' (subject_key_of EVALUATION i) 1)])"

definition conflict_entry :: "provider \<Rightarrow> string \<Rightarrow> jvalue \<Rightarrow> jvalue" where
  "conflict_entry p i c = Object
     ([(''conflict'', String i)] @
      map (\<lambda>name. (name, member_or_null c name))
        [''kind'', ''status'', ''revisions'', ''state'', ''resolution'', ''recorded_at''] @
      [(''position'', event_at p ''knowledge.conflict.opened'' (subject_key_of CONFLICT i) 1)])"

definition knowledge_history :: "provider \<Rightarrow> jvalue \<Rightarrow> answer" where
  "knowledge_history p payload =
     rbind (check_history_payload payload) (\<lambda>clm.
     rbind (read_claim_rows (claim_revisions (pv_store p) clm)) (\<lambda>rows.
     if rows = [] then Inl not_found
     else
       rbind (knowledge_records p DECISION) (\<lambda>decisions.
       rbind (knowledge_records p EVALUATION) (\<lambda>evaluations.
       rbind (knowledge_records p CONFLICT) (\<lambda>conflicts.
       Inr (Object
         [(''claim'', String clm), (''revisions'', Array (map (revision_entry p clm) rows)),
          (''decisions'', Array (map (\<lambda>(i, _, d). decision_entry p i d)
             (filter (\<lambda>(_, _, d). about_claim p clm (get d ''claim'')) decisions))),
          (''evaluations'', Array (map (\<lambda>(i, _, e). evaluation_entry p i e)
             (filter (\<lambda>(_, _, e). about_claim p clm (get e ''claim'')) evaluations))),
          (''conflicts'', Array (map (\<lambda>(i, _, c). conflict_entry p i c)
             (filter (\<lambda>(_, _, c). list_ex (\<lambda>r. about_claim p clm (Some r)) (revisions_in c)) conflicts)))]))))))"

text \<open>The commands of the profile, as \<open>handle\<close> calls them.\<close>

definition knowledge_command :: "string \<Rightarrow> handler" where
  "knowledge_command method =
     (if method = ''knowledge.claim.propose'' then knowledge_claim False
      else if method = ''knowledge.claim.revise'' then knowledge_claim True
      else if method = ''knowledge.authority.bind'' then knowledge_authority False
      else if method = ''knowledge.authority.transfer'' then knowledge_authority True
      else if method = ''knowledge.decision.record'' then knowledge_decision
      else if method = ''knowledge.conflict.open'' then knowledge_conflict_open
      else if method = ''knowledge.conflict.resolve'' then knowledge_conflict_resolve
      else if method = ''knowledge.applicability.evaluate'' then knowledge_evaluate
      else (\<lambda>_ _ _ _ p. (Inl (method_not_found method), p)))"

end
