(* ===== verification/Spec2Isabelle.thy ===== *)
theory Spec2Isabelle
  imports Json_Roundtrip Base64 Digest Intent Errors Jsonrpc Frames Envelope Ids Grants Clock Budget Ledger Claims
    Knowledge Evaluator_Refinement Evidence Effects Stream_Complete Store_Commands Config Revocation
    Events_Ops Processing Evidence_Holds Knowledge_Ops
begin

text \<open>
  \<^bold>\<open>CBR, a provider of evidence-backed memory, as definitions and theorems.\<close>

  The program is a protocol provider (\<open>src/crates/cbr-provider\<close>) over a canonical encoding
  (\<open>src/crates/cbr-encoding\<close>). Bytes arrive on a stream, become frames, JSON values, JSON-RPC
  requests and command envelopes; a command is authorised by grants against a clock, and a call to
  a model is admitted against a durable ledger. The theories follow that path.

  \<^bold>\<open>Encoding.\<close>
  \<^item> \<open>Prelude\<close>: results as sums (\<open>rbind\<close>, \<open>ok_or\<close>), bytes and ASCII classes, splitting, and the
    locales \<open>codec\<close> (a decoder that inverts an encoder) and \<open>strict_codec\<close> (and accepts nothing else).
  \<^item> \<open>Utf8\<close>: the parts of Rust's \<open>str\<close> the code uses. A Rust string is its UTF-8 bytes.
  \<^item> \<open>Json_Value\<close>, \<open>Canonical\<close>, \<open>Json_Parse\<close>: \<open>value.rs\<close>, \<open>error.rs\<close>, \<open>canonical.rs\<close>, \<open>parse.rs\<close>.
    The parser's position is the pair of an offset and the rest of the input. Its recursion takes
    fuel; \<open>parse_fuel\<close> is enough for every input, which \<open>parse_with_depth_total\<close> proves through the
    locale \<open>value_reader\<close>, so the result \<open>None\<close> never occurs. Every parser error is a value with the
    offset the code reports.
  \<^item> \<open>Json_Roundtrip\<close>: parsing canonical bytes, and canonical form as the identity of values.
  \<^item> \<open>Base64\<close>, \<open>Digest\<close>, \<open>Intent\<close>: \<open>base64.rs\<close> on 32-bit words, \<open>digest.rs\<close>, \<open>intent.rs\<close>. The hash is
    the parameter \<open>sha\<close>; nothing is assumed of it but, where said, that it returns 32 bytes.

  \<^bold>\<open>Protocol.\<close>
  \<^item> \<open>Errors\<close>, \<open>Jsonrpc\<close>, \<open>Frames\<close>, \<open>Envelope\<close>: \<open>errors.rs\<close>, \<open>jsonrpc.rs\<close>, \<open>frames.rs\<close>, \<open>envelope.rs\<close>.
    What a connection's reads return is a list of outcomes: data, a timeout, a failure.
  \<^item> \<open>Ids\<close>: \<open>ids.rs\<close>. \<open>Grants\<close>: \<open>grants.rs\<close>, with the locale \<open>attenuation\<close> for the two coverage
    relations. \<open>Clock\<close>: \<open>clock.rs\<close>; the system's seconds and the clock file's contents are arguments,
    and a slice that panics is the outcome \<open>Panics\<close>.

  \<^bold>\<open>The model budget.\<close>
  \<^item> \<open>Budget\<close>: \<open>budget.rs\<close>. The table is the list of its rows, each SQL statement a function of it;
    whether the store takes a transaction is an argument of the operation.
  \<^item> \<open>Ledger\<close>: the ledger as a state machine (\<open>ledger_step\<close>): any admissions, settlements and notes,
    taken by the store or not. The invariant gives the ceilings; stops are monotone.

  \<^bold>\<open>Knowledge.\<close>
  \<^item> \<open>Claims\<close>: the first half of \<open>knowledge.rs\<close>, the checks of every payload and reference and the
    revision record; the lemmas in \<open>result_simps\<close> say exactly what each check accepts.
  \<^item> \<open>Knowledge\<close>: the second half, the pure rules. Lineage and comparison are shown not to depend on
    orders the rules do not name.

  \<^bold>\<open>Evidence and effects.\<close>
  \<^item> \<open>Evidence\<close>: \<open>evidence.rs\<close>, what a descriptor, a manifest and a chunk may be.
  \<^item> \<open>Effects\<close>: \<open>effects.rs\<close>. \<open>moves\<close> is the order in which an obligation's state may change.

  \<^bold>\<open>The store.\<close>
  \<^item> \<open>Store\<close>: \<open>store.rs\<close>, the tables as lists of rows and every operation that runs in a transaction.
    A primary key is the check its insertion makes; a failed transaction returns no tables.
  \<^item> \<open>Stream_Read\<close>: reading the event stream, and \<open>stream_ok\<close>, the invariant that ties the tables to
    the list of all events ever recorded. The loop takes \<open>nat limit\<close> turns of fuel, which is enough.
  \<^item> \<open>Stream_Write\<close>: every operation as a step (\<open>store_step\<close>) that preserves the invariant.
  \<^item> \<open>Stream_Complete\<close>: a read skips nothing silently and shows nothing hidden.
  \<^item> \<open>Store_Commands\<close>: a command identity is bound once; revisions only rise.

  \<^bold>\<open>Derived memory.\<close>
  \<^item> \<open>Evaluator\<close>: \<open>evaluator.rs\<close> of \<open>cbr-memory\<close>. \<open>Evaluator_Refinement\<close>: evaluating with memos refines
    evaluating from scratch.

  \<^bold>\<open>Launch.\<close>
  \<^item> \<open>Endpoint\<close>: \<open>wire.rs\<close> and \<open>wire/endpoint.rs\<close>, the dialects and the one address a request may go to.
  \<^item> \<open>Config\<close>: \<open>config.rs\<close> and \<open>launch.rs\<close>. Messages are constructors of \<open>config_error\<close> and \<open>refusal\<close>.

  \<^bold>\<open>The provider.\<close> \<open>provider.rs\<close>, one connection over the store. A handler returns its answer and
  the state it leaves; the clock's answers are the arguments \<open>now\<close> (while a command is admitted) and
  \<open>at1\<close> (when it is recorded).
  \<^item> \<open>Negotiate\<close>: the state, what is served, and the agreement on a part of it.
  \<^item> \<open>Admission\<close>: grants found, authorization, who may read what, and the checks of a command in order.
    The walk over delegated grants and the chain of an effect's targets take fuel: the number of grants
    and of subjects, which \<open>walk_rounds_ok\<close> proves enough for the first; a longer chain of targets is a
    cycle, on which the code does not return.
  \<^item> \<open>Core_Ops\<close>: the operations of the core profiles. \<open>Command_Path\<close>: which commands are let through,
    replay, and what a refused caller learns. \<open>Revocation\<close>: the cascade reaches every descendant.
  \<^item> \<open>Events_Ops\<close>: reading and subscribing. The loop over one subscription takes \<open>deliveries_bound\<close> turns
    of fuel, which is enough: every turn takes something from what \<open>remaining\<close> counts.
  \<^item> \<open>Processing\<close>: the processing lock as an interleaving of its sessions' steps, its invariant, and the
    proof that under fairness every waiting session gets its turn.

  \<^bold>\<open>Properties.\<close> Each stands at the end of the theory of its component, after a text with its
  number. They are the round trips and strictness of the codecs, totality and soundness of the
  parser, exactness of the grammars, refinement of the frame reader by the split of the stream,
  attenuation along chains of delegations, order and monotonicity of time, and the ceilings and
  stops of the ledger.

  \<^bold>\<open>Not modelled.\<close> SQLite itself and its file, the object files, sockets, threads, processes, the
  operating system's credential checks, the git and tree-sitter libraries and the model provider are
  outside the repository or pure I/O. The handlers over the store, projection, retrieval and the
  packet compiler are the next components to add.
\<close>

end
